(* ===== verification/Prelude.thy ===== *)
theory Prelude
  imports Main "HOL-Library.Word"
begin

text \<open>
  Shared vocabulary of the development: the machine-integer types of the C++ code, the
  error values that stand for \<open>Context::throw_error_at\<close> (a C++ exception, declared
  \<open>DAS_NORETURN\<close>) and \<open>DAS_VERIFY\<close> (process exit), the sequencing of steps that
  may throw, and the generic facts about lists, masks and cyclic probing that several
  components share.
\<close>

unbundle bit_operations_syntax

named_theorems das_defs "definitions of operations, unfolded together in branch proofs"

type_synonym u8 = "8 word"
type_synonym u16 = "16 word"
type_synonym u32 = "32 word"
type_synonym u64 = "64 word"

datatype das_error =
    ThrowError string   \<comment> \<open>\<open>context.throw_error_at / throw_error_ex\<close>\<close>
  | VerifyFailed string \<comment> \<open>\<open>DAS_VERIFY / DAS_VERIFYF\<close>\<close>
  | OutOfMemory         \<comment> \<open>\<open>context.throw_out_of_memory\<close>\<close>
  | UndefinedBehaviour string \<comment> \<open>C++ gives the execution no meaning (e.g. signed overflow)\<close>

text \<open>
  An operation on a mutable object returns the object as it is left and either the error
  it threw or its result: a throw does not undo the writes made before it.
\<close>

type_synonym ('s, 'r) step = "'s \<times> (das_error + 'r)"

definition then_step :: "('s, 'r) step \<Rightarrow> ('s \<Rightarrow> 'r \<Rightarrow> ('s, 'q) step) \<Rightarrow> ('s, 'q) step" where
  "then_step m f = (case m of (s, Inl e) \<Rightarrow> (s, Inl e) | (s, Inr r) \<Rightarrow> f s r)"

definition throw_at :: "'s \<Rightarrow> string \<Rightarrow> ('s, 'r) step" where
  "throw_at s msg = (s, Inl (ThrowError msg))"

definition done_with :: "'s \<Rightarrow> 'r \<Rightarrow> ('s, 'r) step" where
  "done_with s r = (s, Inr r)"

lemma then_step_done [simp]: "then_step (s, Inr r) f = f s r"
  by (simp add: then_step_def)

lemma then_step_throw [simp]: "then_step (s, Inl e) f = (s, Inl e)"
  by (simp add: then_step_def)

lemma then_step_eq_Inr:
  "then_step m f = (s', Inr y) \<longleftrightarrow> (\<exists>s r. m = (s, Inr r) \<and> f s r = (s', Inr y))"
  by (cases m; cases "snd m") (auto simp: then_step_def)

section \<open>Blocks of equal slots\<close>

text \<open>
  A heap block used as an array is a list of slots of one stride. \<open>memmove\<close> and
  \<open>memset\<close> at multiples of the stride move and clear whole slots.
\<close>

definition memmove_slots :: "'v list \<Rightarrow> nat \<Rightarrow> nat \<Rightarrow> nat \<Rightarrow> 'v list" where
  "memmove_slots d dst src n = take dst d @ take n (drop src d) @ drop (dst + n) d"

definition memset_slots :: "'v \<Rightarrow> 'v list \<Rightarrow> nat \<Rightarrow> nat \<Rightarrow> 'v list" where
  "memset_slots z d from n = take from d @ replicate n z @ drop (from + n) d"

lemma length_memmove_slots [simp]:
  "dst + n \<le> length d \<Longrightarrow> src + n \<le> length d \<Longrightarrow> length (memmove_slots d dst src n) = length d"
  by (simp add: memmove_slots_def)

lemma length_memset_slots [simp]:
  "from + n \<le> length d \<Longrightarrow> length (memset_slots z d from n) = length d"
  by (simp add: memset_slots_def)

definition INT32_MAX :: nat where "INT32_MAX = 2 ^ 31 - 1"
definition INT64_MAX :: nat where "INT64_MAX = 2 ^ 63 - 1"
definition UINT32_MAX :: nat where "UINT32_MAX = 2 ^ 32 - 1"
definition UINT64_MAX :: nat where "UINT64_MAX = 2 ^ 64 - 1"

text \<open>
  Number of significant bits; \<open>das_clz64\<close> (a compiler intrinsic) counts the leading
  zeros of a non-zero 64-bit value.
\<close>

fun bit_length :: "nat \<Rightarrow> nat" where
  "bit_length n = (if n = 0 then 0 else Suc (bit_length (n div 2)))"

declare bit_length.simps [simp del]

definition das_clz64 :: "nat \<Rightarrow> nat" where
  "das_clz64 x = 64 - bit_length x"

lemma bit_length_less_pow: "n < 2 ^ bit_length n"
proof (induction n rule: bit_length.induct)
  case (1 n)
  show ?case
  proof (cases "n = 0")
    case False
    with 1 have "n div 2 < 2 ^ bit_length (n div 2)" by simp
    with False show ?thesis by (subst bit_length.simps) simp
  qed (simp add: bit_length.simps)
qed

lemma bit_length_pow_le: "0 < n \<Longrightarrow> 2 ^ bit_length n \<le> 2 * n"
proof (induction n rule: bit_length.induct)
  case (1 n)
  show ?case
  proof (cases "n div 2 = 0")
    case True
    with 1 show ?thesis by (subst bit_length.simps) (simp add: bit_length.simps[of 0])
  next
    case False
    with 1 have "2 ^ bit_length (n div 2) \<le> 2 * (n div 2)" by simp
    also have "\<dots> \<le> n" by simp
    finally show ?thesis using 1 by (subst bit_length.simps) simp
  qed
qed

lemma bit_length_top:
  assumes "0 < n"
  shows "0 < bit_length n" "bit n (bit_length n - 1)"
proof -
  show pos: "0 < bit_length n" using assms by (subst bit_length.simps) simp
  then obtain k where k: "bit_length n = Suc k" using gr0_implies_Suc by blast
  have "2 ^ k \<le> n" using bit_length_pow_le[OF assms] k by simp
  moreover have "n < 2 * 2 ^ k" using bit_length_less_pow[of n] k by simp
  ultimately have "n div 2 ^ k = 1" by (intro div_nat_eqI) simp_all
  then show "bit n (bit_length n - 1)" by (simp add: k bit_iff_odd)
qed

lemma bit_length_le: "n < 2 ^ k \<Longrightarrow> bit_length n \<le> k"
proof (cases "n = 0")
  case False
  assume "n < 2 ^ k"
  moreover have "2 ^ bit_length n \<le> 2 * n" using False by (simp add: bit_length_pow_le)
  ultimately have "2 ^ bit_length n < (2::nat) ^ Suc k" by simp
  then show ?thesis by (meson less_Suc_eq_le numeral_One one_less_numeral_iff power_less_imp_less_exp semiring_norm(76))
qed (simp add: bit_length.simps)

section \<open>Masks and powers of two\<close>

text \<open>
  \<open>index & mask\<close> with \<open>mask = capacity - 1\<close> is the remainder by a power of two.
\<close>

lemma and_pow2_mask: "(x::nat) AND (2 ^ n - 1) = x mod 2 ^ n"
  by (metis mask_eq_exp_minus_1 take_bit_eq_mask take_bit_eq_mod)

definition is_pow2 :: "nat \<Rightarrow> bool" where
  "is_pow2 c \<longleftrightarrow> (\<exists>n. c = 2 ^ n)"

lemma is_pow2_pos: "is_pow2 c \<Longrightarrow> 0 < c"
  by (auto simp: is_pow2_def)

lemma is_pow2_mask: "is_pow2 c \<Longrightarrow> x AND (c - 1) = x mod c"
  using and_pow2_mask by (auto simp: is_pow2_def)

lemma is_pow2_double: "is_pow2 c \<Longrightarrow> is_pow2 (c * 2)"
  by (auto simp: is_pow2_def) (metis mult.commute power_Suc)

lemma is_pow2_quad: "is_pow2 c \<Longrightarrow> is_pow2 (c * 4)"
  using is_pow2_double[OF is_pow2_double, of c] by (simp add: mult.assoc)

lemma is_pow2_8 [simp]: "is_pow2 8"
  unfolding is_pow2_def by (rule exI[of _ 3]) simp

text \<open>
  The code's own test \<open>(c & (c - 1)) == 0\<close> recognises exactly the powers of two.
\<close>

lemma pow2_test: "is_pow2 c \<Longrightarrow> c AND (c - 1) = 0"
  using is_pow2_mask[of c c] by simp

section \<open>Counting the slots of one kind\<close>

definition count_if :: "('a \<Rightarrow> bool) \<Rightarrow> 'a list \<Rightarrow> nat" where
  "count_if P xs = length (filter P xs)"

lemma count_if_simps [simp]:
  "count_if P [] = 0" "count_if P (x # xs) = (if P x then 1 else 0) + count_if P xs"
  "count_if P (xs @ ys) = count_if P xs + count_if P ys"
  "count_if P (replicate n x) = (if P x then n else 0)"
  by (simp_all add: count_if_def)

lemma count_if_le: "count_if P xs \<le> length xs"
  by (simp add: count_if_def)

lemma count_if_update:
  assumes "i < length xs"
  shows "count_if P (xs[i := v]) = count_if P xs - (if P (xs ! i) then 1 else 0) + (if P v then 1 else 0)"
proof -
  have split: "xs = take i xs @ xs ! i # drop (Suc i) xs"
    using assms by (simp add: id_take_nth_drop)
  have upd: "xs[i := v] = take i xs @ v # drop (Suc i) xs"
    using assms by (simp add: upd_conv_take_nth_drop)
  show ?thesis
    by (subst upd, subst (2) split) simp
qed

lemma count_if_pos: "0 < count_if P xs \<longleftrightarrow> (\<exists>i<length xs. P (xs ! i))"
  by (auto simp: count_if_def filter_empty_conv in_set_conv_nth) (metis nth_mem)

lemma count_if_split:
  "(\<And>x. Q x \<Longrightarrow> \<not> P x) \<Longrightarrow> count_if P xs + count_if Q xs + count_if (\<lambda>x. \<not> P x \<and> \<not> Q x) xs = length xs"
  by (induction xs) auto

lemma count_if_two:
  assumes "i < length xs" "P (xs ! i)" "2 \<le> count_if P xs"
  shows "\<exists>j<length xs. j \<noteq> i \<and> P (xs ! j)"
proof -
  show ?thesis
  proof (cases "\<forall>x. P x")
    case True
    then have "count_if P xs = length xs" by (simp add: count_if_def)
    with assms have "2 \<le> length xs" by simp
    then have "(if i = 0 then 1 else 0) < length xs" "(if i = 0 then 1 else 0) \<noteq> i" by auto
    with True show ?thesis by blast
  next
    case False
    then obtain v where v: "\<not> P v" by blast
    have "0 < count_if P (xs[i := v])" using assms v by (simp add: count_if_update)
    then obtain j where "j < length xs" "P (xs[i := v] ! j)" by (auto simp: count_if_pos)
    with v show ?thesis by (cases "j = i") auto
  qed
qed

section \<open>Cyclic distance\<close>

text \<open>
  Linear probing walks \<open>i, i+1, \<dots>\<close> modulo the capacity. The \<open>d\<close>-th slot of the
  walk from \<open>s\<close> is \<open>(s + d) mod c\<close>, and every slot is reached within one lap.
\<close>

definition probe_dist :: "nat \<Rightarrow> nat \<Rightarrow> nat \<Rightarrow> nat" where
  "probe_dist c s i = (i + c - s mod c) mod c"

lemma probe_dist_lt: "0 < c \<Longrightarrow> probe_dist c s i < c"
  by (simp add: probe_dist_def)

lemma probe_dist_reaches:
  assumes "i < c"
  shows "(s + probe_dist c s i) mod c = i"
proof -
  have c: "0 < c" and sc: "s mod c < c" using assms by auto
  have "(s + probe_dist c s i) mod c = (s mod c + (i + c - s mod c)) mod c"
    by (simp add: probe_dist_def mod_simps)
  also have "s mod c + (i + c - s mod c) = i + c" using sc by simp
  finally show ?thesis using assms by simp
qed

lemma probe_dist_step:
  assumes "d < c"
  shows "probe_dist c s ((s + d) mod c) = d"
proof -
  have c: "0 < c" and sc: "s mod c < c" using assms by auto
  have "probe_dist c s ((s + d) mod c) = ((s mod c + d) mod c + (c - s mod c)) mod c"
    using sc by (simp add: probe_dist_def mod_simps add.commute add.left_commute)
  also have "\<dots> = (s mod c + d + (c - s mod c)) mod c" by (metis mod_add_left_eq)
  also have "s mod c + d + (c - s mod c) = d + c" using sc by simp
  finally show ?thesis using assms by simp
qed

lemma mod_Suc_step: "(s + d) mod c = i \<Longrightarrow> (i + 1) mod c = (s + Suc d) mod (c::nat)"
  by (auto simp: mod_simps)

end
