(* ===== verification/LockProtocol.thy ===== *)
theory LockProtocol
  imports Prelude
begin

text \<open>
  The contract arrays and tables share for their lock: a nesting counter that \<open>lock\<close>
  increments and \<open>unlock\<close> decrements, with \<open>unlock\<close> the exact inverse of \<open>lock\<close>. Scripts
  lock a container while they iterate over it, so the requests of one run are a word of locks
  and unlocks; \<open>lock_height\<close> reads off such a word how deep the container ends up nested, and
  the locale shows that running the word does exactly that.
\<close>

text \<open>The 32-bit nesting counter.\<close>

lemma lock_word_inc:
  assumes "unat (w :: u32) < UINT32_MAX"
  shows "unat (w + 1) = Suc (unat w)" "w + 1 \<noteq> 0"
proof -
  have "unat w + 1 < 2 ^ 32" using assms by (simp add: UINT32_MAX_def)
  then show "unat (w + 1) = Suc (unat w)" by (simp add: unat_word_ariths)
  then show "w + 1 \<noteq> 0" by (metis Zero_not_Suc unat_0)
qed

lemma lock_word_full:
  assumes "unat (w :: u32) = UINT32_MAX"
  shows "w + 1 = 0"
proof -
  have "unat (w + 1) = 0" using assms by (simp add: unat_word_ariths UINT32_MAX_def)
  then show ?thesis by (simp add: unat_eq_zero)
qed

datatype lock_request = Lock | Unlock

fun lock_run :: "('s \<Rightarrow> ('s, unit) step) \<Rightarrow> ('s \<Rightarrow> ('s, unit) step) \<Rightarrow> lock_request list \<Rightarrow> 's
    \<Rightarrow> ('s, unit) step" where
  "lock_run lk ul [] s = done_with s ()"
| "lock_run lk ul (Lock # ops) s = then_step (lk s) (\<lambda>s' _. lock_run lk ul ops s')"
| "lock_run lk ul (Unlock # ops) s = then_step (ul s) (\<lambda>s' _. lock_run lk ul ops s')"

text \<open>Nesting after the word, \<open>None\<close> when it unlocks too often or nests deeper than \<open>m\<close>.\<close>

fun lock_height :: "nat \<Rightarrow> lock_request list \<Rightarrow> nat \<Rightarrow> nat option" where
  "lock_height m [] n = Some n"
| "lock_height m (Lock # ops) n = (if n < m then lock_height m ops (Suc n) else None)"
| "lock_height m (Unlock # ops) n = (case n of 0 \<Rightarrow> None | Suc n' \<Rightarrow> lock_height m ops n')"

primrec locked_times :: "('s \<Rightarrow> ('s, unit) step) \<Rightarrow> nat \<Rightarrow> 's \<Rightarrow> 's" where
  "locked_times lk 0 s = s"
| "locked_times lk (Suc n) s = fst (lk (locked_times lk n s))"

locale lock_protocol =
  fixes lock :: "'s \<Rightarrow> ('s, unit) step"
    and unlock :: "'s \<Rightarrow> ('s, unit) step"
    and depth :: "'s \<Rightarrow> nat"
    and sound :: "'s \<Rightarrow> bool"
    and max_depth :: nat
  assumes lock_ok: "sound s \<Longrightarrow> depth s < max_depth \<Longrightarrow>
      \<exists>s'. lock s = (s', Inr ()) \<and> sound s' \<and> depth s' = Suc (depth s) \<and> unlock s' = (s, Inr ())"
    and unlock_at_zero: "sound s \<Longrightarrow> depth s = 0 \<Longrightarrow> \<exists>e. unlock s = (s, Inl e)"
    and lock_overflows: "sound s \<Longrightarrow> depth s = max_depth \<Longrightarrow> \<exists>s' e. lock s = (s', Inl e)"
begin

lemma locked_times_sound:
  assumes "sound s" "depth s = 0"
  shows "n \<le> max_depth \<Longrightarrow> sound (locked_times lock n s) \<and> depth (locked_times lock n s) = n"
proof (induction n)
  case (Suc n)
  then have "sound (locked_times lock n s)" "depth (locked_times lock n s) < max_depth" by auto
  from lock_ok[OF this] Suc show ?case by auto
qed (use assms in simp)

lemma lock_locked_times:
  assumes "sound s" "depth s = 0" "n < max_depth"
  shows "lock (locked_times lock n s) = (locked_times lock (Suc n) s, Inr ())"
    and "unlock (locked_times lock (Suc n) s) = (locked_times lock n s, Inr ())"
  using lock_ok[of "locked_times lock n s"] locked_times_sound[OF assms(1,2), of n] assms(3)
  by auto

lemma run_reaches_height:
  assumes "sound s" "depth s = 0" "lock_height max_depth ops n = Some m" "n \<le> max_depth"
  shows "lock_run lock unlock ops (locked_times lock n s) = (locked_times lock m s, Inr ()) \<and> m \<le> max_depth"
  using assms(3,4)
proof (induction ops arbitrary: n)
  case Nil
  then show ?case by (simp add: done_with_def)
next
  case (Cons r ops)
  show ?case
  proof (cases r)
    case Lock
    with Cons show ?thesis
      using lock_locked_times(1)[OF assms(1,2), of n]
      by (auto simp del: locked_times.simps split: if_splits)
  next
    case Unlock
    with Cons obtain k where k: "n = Suc k" "lock_height max_depth ops k = Some m"
      by (auto split: nat.splits)
    with Cons Unlock show ?thesis
      using lock_locked_times(2)[OF assms(1,2), of k] by (simp del: locked_times.simps)
  qed
qed

lemma run_from_unlocked:
  assumes "sound s" "depth s = 0" "lock_height max_depth ops 0 = Some m"
  shows "\<exists>s'. lock_run lock unlock ops s = (s', Inr ()) \<and> sound s' \<and> depth s' = m \<and> (m = 0 \<longrightarrow> s' = s)"
  using run_reaches_height[OF assms(1-3)] locked_times_sound[OF assms(1,2), of m] by auto

lemma run_fails_out_of_range:
  assumes "sound s" "depth s = 0" "lock_height max_depth ops n = None" "n \<le> max_depth"
  shows "\<exists>s' e. lock_run lock unlock ops (locked_times lock n s) = (s', Inl e)"
  using assms(3,4)
proof (induction ops arbitrary: n)
  case (Cons r ops)
  note st = locked_times_sound[OF assms(1,2) Cons.prems(2)]
  show ?case
  proof (cases r)
    case Lock
    show ?thesis
    proof (cases "n < max_depth")
      case True
      with Cons Lock show ?thesis
        using lock_locked_times(1)[OF assms(1,2), of n] by (simp del: locked_times.simps)
    next
      case False
      with Cons.prems have "n = max_depth" by simp
      with lock_overflows st Lock show ?thesis by fastforce
    qed
  next
    case Unlock
    show ?thesis
    proof (cases n)
      case 0
      with unlock_at_zero st Unlock show ?thesis by fastforce
    next
      case (Suc k)
      with Cons Unlock show ?thesis using lock_locked_times(2)[OF assms(1,2), of k] by (simp del: locked_times.simps)
    qed
  qed
qed simp

end

end
