(* ===== verification/RtArray.thy ===== *)
theory RtArray
  imports Prelude LockProtocol
begin

text \<open>
  The runtime dynamic array (\<open>struct Array\<close> of \<open>arraytype.h\<close>, \<open>runtime_array.cpp\<close>,
  the push/grow inlines of \<open>aot_builtin.h\<close> and the script-visible builtins of
  \<open>module_builtin_array.cpp\<close>). A block of \<open>capacity\<close> slots of one stride is a list of
  slots; a null \<open>data\<close> pointer is the empty block. Counters are \<open>nat\<close>: the operations
  refuse sizes above \<open>INT64_MAX\<close>, so none of the \<open>uint64_t\<close> sums below wraps.
\<close>

record 'v arr =
  a_data :: "'v list"
  a_size :: nat
  a_capacity :: nat
  a_magic :: u32
  a_lock :: u32
  a_shared :: bool
  a_hopeless :: bool
  a_forego_lock_check :: bool
  a_tableNoHash :: bool

text \<open>
  What the operations take from outside: the stride, the zero slot that \<open>memset 0\<close>
  writes, the contents of uninitialised memory, which requests the context's heap grants
  (\<open>Context::allocate\<close> throws out-of-memory for the others), and the context's
  \<open>verySafeContext\<close> flag.
\<close>

record 'v arr_env =
  ae_stride :: nat
  ae_zero :: 'v
  ae_junk :: 'v
  ae_grants :: "nat \<Rightarrow> bool"
  ae_verySafe :: bool

definition DAS_ARRAY_MAGIC :: u32 where "DAS_ARRAY_MAGIC = 0xA11B3DA7"

lemma DAS_ARRAY_MAGIC_nonzero [simp]: "DAS_ARRAY_MAGIC \<noteq> 0" "0 \<noteq> DAS_ARRAY_MAGIC"
  by (simp_all add: DAS_ARRAY_MAGIC_def)

definition isLocked :: "('v, 'z) arr_scheme \<Rightarrow> bool" where
  "isLocked a \<longleftrightarrow> a_lock a \<noteq> 0"

definition zero_arr :: "'v arr" where
  "zero_arr = \<lparr>a_data = [], a_size = 0, a_capacity = 0, a_magic = 0, a_lock = 0,
     a_shared = False, a_hopeless = False, a_forego_lock_check = False, a_tableNoHash = False\<rparr>"

section \<open>Locking\<close>

definition array_lock :: "'v arr \<Rightarrow> ('v arr, unit) step" where
  "array_lock a =
    (if a_shared a \<or> a_hopeless a then done_with a ()
     else if a_lock a = 0 then
       (if a_magic a \<noteq> 0 then throw_at a ''array magic mismatch on first lock, was it moved or overwritten?''
        else done_with (a\<lparr>a_lock := 1, a_magic := DAS_ARRAY_MAGIC\<rparr>) ())
     else if a_magic a \<noteq> DAS_ARRAY_MAGIC then throw_at a ''array magic mismatch on lock, was it moved or overwritten?''
     else let a' = a\<lparr>a_lock := a_lock a + 1\<rparr> in
       if a_lock a' = 0 then throw_at a' ''array lock overflow, was it moved or overwritten?''
       else done_with a' ())"

definition array_unlock :: "'v arr \<Rightarrow> ('v arr, unit) step" where
  "array_unlock a =
    (if a_shared a \<or> a_hopeless a then done_with a ()
     else if a_magic a \<noteq> DAS_ARRAY_MAGIC then throw_at a ''array magic mismatch on unlock, was it moved or overwritten?''
     else if a_lock a = 0 then throw_at a ''array lock underflow, was it moved or overwritten?''
     else let a' = a\<lparr>a_lock := a_lock a - 1\<rparr> in
       done_with (if a_lock a' = 0 then a'\<lparr>a_magic := 0\<rparr> else a') ())"

definition array_mark_locked :: "'v arr \<Rightarrow> 'v list \<Rightarrow> nat \<Rightarrow> 'v arr" where
  "array_mark_locked a d capacity =
     a\<lparr>a_data := d, a_size := capacity, a_capacity := capacity, a_lock := 1, a_magic := DAS_ARRAY_MAGIC\<rparr>"

definition array_mark_locked_size :: "'v arr \<Rightarrow> 'v list \<Rightarrow> nat \<Rightarrow> nat \<Rightarrow> 'v arr" where
  "array_mark_locked_size a d sz capacity =
     a\<lparr>a_data := d, a_size := sz, a_capacity := capacity, a_lock := 1, a_magic := DAS_ARRAY_MAGIC\<rparr>"

section \<open>Growing and resizing\<close>

definition array_clear :: "'v arr \<Rightarrow> ('v arr, unit) step" where
  "array_clear a =
    (if isLocked a then throw_at a ''can't clear locked array'' else done_with (a\<lparr>a_size := 0\<rparr>) ())"

definition array_reserve :: "'v arr_env \<Rightarrow> 'v arr \<Rightarrow> nat \<Rightarrow> ('v arr, unit) step" where
  "array_reserve env a newCapacity =
    (if isLocked a then throw_at a ''can't change capacity of a locked array''
     else if a_capacity a \<ge> newCapacity then done_with a ()
     else if ae_stride env \<noteq> 0 \<and> newCapacity > UINT64_MAX div ae_stride env then
       throw_at a ''array_reserve: capacity*stride overflows uint64''
     else let memSize64 = newCapacity * ae_stride env in
       if memSize64 \<noteq> 0 \<and> \<not> ae_grants env memSize64 then (a, Inl OutOfMemory)
       else let kept = (if ae_verySafe env then take (a_size a) (a_data a)
                        else take newCapacity (a_data a));
                newData = kept @ replicate (newCapacity - length kept) (ae_junk env)
         in done_with (a\<lparr>a_data := newData, a_capacity := newCapacity\<rparr>) ())"

text \<open>The capacity \<open>array_resize\<close> and \<open>array_grow\<close> ask for: a power of two, at least 16.\<close>

definition grown_capacity :: "nat \<Rightarrow> nat" where
  "grown_capacity newSize =
    (let c = 2 ^ (64 - das_clz64 (max newSize 2 - 1));
         c = max c 16
     in if c > INT64_MAX then INT64_MAX else c)"

definition ensure_capacity :: "'v arr_env \<Rightarrow> 'v arr \<Rightarrow> nat \<Rightarrow> ('v arr, unit) step" where
  "ensure_capacity env a newSize =
    (if newSize > a_capacity a then array_reserve env a (grown_capacity newSize) else done_with a ())"

definition array_resize :: "'v arr_env \<Rightarrow> 'v arr \<Rightarrow> nat \<Rightarrow> bool \<Rightarrow> ('v arr, unit) step" where
  "array_resize env a newSize zero =
    (if isLocked a then throw_at a ''can't resize locked array''
     else if newSize > INT64_MAX then throw_at a ''array_resize: newSize exceeds INT64_MAX''
     else then_step (ensure_capacity env a newSize)
       (\<lambda>a _.
          let a = (if zero \<and> newSize > a_size a
                   then a\<lparr>a_data := memset_slots (ae_zero env) (a_data a) (a_size a) (newSize - a_size a)\<rparr>
                   else a)
          in done_with (a\<lparr>a_size := newSize\<rparr>) ()))"

definition array_grow :: "'v arr_env \<Rightarrow> 'v arr \<Rightarrow> ('v arr, unit) step" where
  "array_grow env a =
    (if isLocked a then throw_at a ''can't resize locked array''
     else let newSize = a_size a + 1 in
       if newSize > INT64_MAX then throw_at a ''array_grow: newSize exceeds INT64_MAX''
       else then_step (ensure_capacity env a newSize)
         (\<lambda>a _. done_with (a\<lparr>a_size := newSize\<rparr>) ()))"

section \<open>Script-visible builtins\<close>

definition builtin_array_push :: "'v arr_env \<Rightarrow> 'v arr \<Rightarrow> int \<Rightarrow> ('v arr, int) step" where
  "builtin_array_push env a index =
    (let idx = a_size a in
     then_step (array_grow env a) (\<lambda>a _.
       if index < 0 \<or> nat index \<ge> a_size a then throw_at a ''insert index out of range''
       else done_with (a\<lparr>a_data := memmove_slots (a_data a) (nat index + 1) (nat index) (idx - nat index)\<rparr>) index))"

definition builtin_array_push_zero :: "'v arr_env \<Rightarrow> 'v arr \<Rightarrow> int \<Rightarrow> ('v arr, int) step" where
  "builtin_array_push_zero env a index =
    (let idx = a_size a in
     then_step (array_grow env a) (\<lambda>a _.
       if index < 0 \<or> nat index \<ge> a_size a then throw_at a ''insert index out of range''
       else let d = memmove_slots (a_data a) (nat index + 1) (nat index) (idx - nat index)
         in done_with (a\<lparr>a_data := memset_slots (ae_zero env) d (nat index) 1\<rparr>) index))"

definition builtin_array_push_back :: "'v arr_env \<Rightarrow> 'v arr \<Rightarrow> ('v arr, int) step" where
  "builtin_array_push_back env a =
    (let idx = a_size a in then_step (array_grow env a) (\<lambda>a _. done_with a (int idx)))"

definition builtin_array_push_back_zero :: "'v arr_env \<Rightarrow> 'v arr \<Rightarrow> ('v arr, int) step" where
  "builtin_array_push_back_zero env a =
    (let idx = a_size a in then_step (array_grow env a) (\<lambda>a _.
       done_with (a\<lparr>a_data := memset_slots (ae_zero env) (a_data a) idx 1\<rparr>) (int idx)))"

definition builtin_array_resize :: "'v arr_env \<Rightarrow> 'v arr \<Rightarrow> int \<Rightarrow> ('v arr, unit) step" where
  "builtin_array_resize env a newSize =
    (if newSize < 0 then throw_at a ''resizing array to negative size''
     else array_resize env a (nat newSize) True)"

definition builtin_array_resize_no_init :: "'v arr_env \<Rightarrow> 'v arr \<Rightarrow> int \<Rightarrow> ('v arr, unit) step" where
  "builtin_array_resize_no_init env a newSize =
    (if newSize < 0 then throw_at a ''resizing array to negative size''
     else array_resize env a (nat newSize) False)"

definition builtin_array_reserve :: "'v arr_env \<Rightarrow> 'v arr \<Rightarrow> int \<Rightarrow> ('v arr, unit) step" where
  "builtin_array_reserve env a newSize =
    (if newSize < 0 then done_with a () else array_reserve env a (nat newSize))"

text \<open>
  The \<open>int\<close> overload computes \<open>index*stride\<close> and \<open>(index+1)*stride\<close> as \<open>int\<close>: past
  \<open>INT_MAX\<close> that is signed overflow. The \<open>int64\<close> overload has no such bound.
\<close>

definition builtin_array_erase :: "'v arr_env \<Rightarrow> 'v arr \<Rightarrow> int \<Rightarrow> ('v arr, unit) step" where
  "builtin_array_erase env a index =
    (if index < 0 \<or> nat index \<ge> a_size a then throw_at a ''erase index out of range''
     else if (nat index + 1) * ae_stride env > INT32_MAX then
       (a, Inl (UndefinedBehaviour ''int overflow in index*stride''))
     else let a = a\<lparr>a_data := memmove_slots (a_data a) (nat index) (nat index + 1) (a_size a - nat index - 1)\<rparr>
       in array_resize env a (a_size a - 1) False)"

definition builtin_array_erase_i64 :: "'v arr_env \<Rightarrow> 'v arr \<Rightarrow> int \<Rightarrow> ('v arr, unit) step" where
  "builtin_array_erase_i64 env a index =
    (if index < 0 \<or> nat index \<ge> a_size a then throw_at a ''erase index out of range''
     else let a = a\<lparr>a_data := memmove_slots (a_data a) (nat index) (nat index + 1) (a_size a - nat index - 1)\<rparr>
       in array_resize env a (a_size a - 1) False)"

definition builtin_array_erase_range :: "'v arr_env \<Rightarrow> 'v arr \<Rightarrow> int \<Rightarrow> int \<Rightarrow> ('v arr, unit) step" where
  "builtin_array_erase_range env a index cnt =
    (if index < 0 \<or> cnt < 0 \<or> nat index + nat cnt > a_size a then throw_at a ''erasing array range is invalid''
     else let a = a\<lparr>a_data := memmove_slots (a_data a) (nat index) (nat index + nat cnt)
                      (a_size a - nat index - nat cnt)\<rparr>
       in array_resize env a (a_size a - nat cnt) False)"

definition builtin_array_size :: "'v arr \<Rightarrow> das_error + int" where
  "builtin_array_size a =
    (if a_size a \<le> INT32_MAX then Inr (int (a_size a)) else Inl (VerifyFailed ''array size exceeds INT_MAX''))"

definition builtin_array_long_size :: "'v arr \<Rightarrow> das_error + int" where
  "builtin_array_long_size a =
    (if a_size a \<le> INT64_MAX then Inr (int (a_size a)) else Inl (VerifyFailed ''array size exceeds INT64_MAX''))"

definition builtin_array_clear_lock :: "'v arr \<Rightarrow> 'v arr" where
  "builtin_array_clear_lock a = a\<lparr>a_hopeless := True\<rparr>"

text \<open>\<open>memset(&dim, 0, sizeof(Array))\<close>, then the \<open>hopeless\<close> flag set again if it was.\<close>

definition builtin_array_free :: "'v arr \<Rightarrow> ('v arr, unit) step" where
  "builtin_array_free a =
    (if a_data a = [] then done_with a ()
     else if \<not> (\<not> isLocked a \<or> a_hopeless a) then throw_at a ''can't delete locked array''
     else if a_hopeless a then done_with (zero_arr\<lparr>a_hopeless := True\<rparr>) ()
     else done_with zero_arr ())"

text \<open>
  The \<open>int64\<close> overloads. Indices and counts are \<open>int\<close> here; only \<open>erase\<close> differs from its
  \<open>int\<close> overload, through the width of the products it forms.
\<close>

definition builtin_array_resize_i64 :: "'v arr_env \<Rightarrow> 'v arr \<Rightarrow> int \<Rightarrow> ('v arr, unit) step" where
  "builtin_array_resize_i64 env a newSize =
    (if newSize < 0 then throw_at a ''resizing array to negative size''
     else array_resize env a (nat newSize) True)"

definition builtin_array_resize_no_init_i64 :: "'v arr_env \<Rightarrow> 'v arr \<Rightarrow> int \<Rightarrow> ('v arr, unit) step" where
  "builtin_array_resize_no_init_i64 env a newSize =
    (if newSize < 0 then throw_at a ''resizing array to negative size''
     else array_resize env a (nat newSize) False)"

definition builtin_array_reserve_i64 :: "'v arr_env \<Rightarrow> 'v arr \<Rightarrow> int \<Rightarrow> ('v arr, unit) step" where
  "builtin_array_reserve_i64 env a newSize =
    (if newSize < 0 then done_with a () else array_reserve env a (nat newSize))"

definition builtin_array_erase_range_i64 :: "'v arr_env \<Rightarrow> 'v arr \<Rightarrow> int \<Rightarrow> int \<Rightarrow> ('v arr, unit) step" where
  "builtin_array_erase_range_i64 env a index cnt =
    (if index < 0 \<or> cnt < 0 \<or> nat index + nat cnt > a_size a then throw_at a ''erasing array range is invalid''
     else let a = a\<lparr>a_data := memmove_slots (a_data a) (nat index) (nat index + nat cnt)
                      (a_size a - nat index - nat cnt)\<rparr>
       in array_resize env a (a_size a - nat cnt) False)"

definition builtin_array_empty :: "'v arr \<Rightarrow> bool" where
  "builtin_array_empty a \<longleftrightarrow> a_size a = 0"

definition builtin_array_capacity :: "'v arr \<Rightarrow> das_error + int" where
  "builtin_array_capacity a =
    (if a_capacity a \<le> INT32_MAX then Inr (int (a_capacity a)) else Inl (VerifyFailed ''array capacity exceeds INT_MAX''))"

definition builtin_array_long_capacity :: "'v arr \<Rightarrow> das_error + int" where
  "builtin_array_long_capacity a =
    (if a_capacity a \<le> INT64_MAX then Inr (int (a_capacity a)) else Inl (VerifyFailed ''array capacity exceeds INT64_MAX''))"

definition builtin_array_lock_count :: "'v arr \<Rightarrow> int" where
  "builtin_array_lock_count a = sint (a_lock a)"

section \<open>Element access nodes\<close>

text \<open>
  The address \<open>data + idx*stride\<close> is named by the slot number; the constant \<open>offset\<close> of a
  field inside the element is added to it unchanged.
\<close>

definition ArrayAt_compute :: "'v arr \<Rightarrow> int \<Rightarrow> das_error + nat" where
  "ArrayAt_compute a idx =
    (if idx < 0 \<or> nat idx \<ge> a_size a then Inl (ThrowError ''array index out of range'') else Inr (nat idx))"

definition ArrayAt_I64_compute :: "'v arr \<Rightarrow> int \<Rightarrow> das_error + nat" where
  "ArrayAt_I64_compute a idx =
    (if idx < 0 \<or> nat idx \<ge> a_size a then Inl (ThrowError ''array index out of range'') else Inr (nat idx))"

definition ArrayAt_U64_compute :: "'v arr \<Rightarrow> nat \<Rightarrow> das_error + nat" where
  "ArrayAt_U64_compute a idx =
    (if idx \<ge> a_size a then Inl (ThrowError ''array index out of range'') else Inr idx)"

definition SafeArrayAt_compute :: "'v arr option \<Rightarrow> int \<Rightarrow> nat option" where
  "SafeArrayAt_compute pA idx = (case pA of None \<Rightarrow> None
     | Some a \<Rightarrow> if idx < 0 \<or> nat idx \<ge> a_size a then None else Some (nat idx))"

definition SafeArrayAt_U64_compute :: "'v arr option \<Rightarrow> nat \<Rightarrow> nat option" where
  "SafeArrayAt_U64_compute pA idx = (case pA of None \<Rightarrow> None
     | Some a \<Rightarrow> if idx \<ge> a_size a then None else Some idx)"

section \<open>Iteration\<close>

text \<open>
  \<open>GoodArrayIterator\<close> driven by \<open>SimNode_ForWithIterator<1>::eval\<close>: \<open>first\<close> locks the array and
  yields the first slot, \<open>next\<close> steps by one stride, \<open>close\<close> unlocks. Positions are slot
  numbers from \<open>data\<close>; the loop body is a function of the slot that sets no stop flag.
\<close>

record arr_iter =
  it_data :: nat
  it_end :: nat

definition GoodArrayIterator_first :: "'v arr \<Rightarrow> ('v arr, arr_iter \<times> bool) step" where
  "GoodArrayIterator_first a = then_step (array_lock a)
     (\<lambda>a _. done_with a (\<lparr>it_data = 0, it_end = 0 + a_size a\<rparr>, a_size a \<noteq> 0))"

definition GoodArrayIterator_next :: "arr_iter \<Rightarrow> arr_iter \<times> bool" where
  "GoodArrayIterator_next it = (let it = it\<lparr>it_data := it_data it + 1\<rparr> in (it, it_data it \<noteq> it_end it))"

definition GoodArrayIterator_close :: "'v arr \<Rightarrow> ('v arr, unit) step" where
  "GoodArrayIterator_close a = array_unlock a"

partial_function (option) array_for_loop :: "arr_iter \<Rightarrow> (nat \<Rightarrow> 's \<Rightarrow> 's) \<Rightarrow> 's \<Rightarrow> 's option" where
  "array_for_loop it body s =
    (let s' = body (it_data it) s; (it', more) = GoodArrayIterator_next it
     in if more then array_for_loop it' body s' else Some s')"

definition ForWithIterator_array :: "'v arr \<Rightarrow> (nat \<Rightarrow> 's \<Rightarrow> 's) \<Rightarrow> 's \<Rightarrow> ('v arr, 's) step option" where
  "ForWithIterator_array a body s = (case GoodArrayIterator_first a of
      (a, Inl e) \<Rightarrow> Some (a, Inl e)
    | (a, Inr (it, needLoop)) \<Rightarrow>
        (case (if needLoop then array_for_loop it body s else Some s) of
           None \<Rightarrow> None
         | Some s' \<Rightarrow> Some (then_step (GoodArrayIterator_close a) (\<lambda>a _. done_with a s'))))"

section \<open>Deleting\<close>

text \<open>
  \<open>SimNode_DeleteArray\<close> frees and zeroes \<open>total\<close> consecutive arrays from the last to the
  first and stops at a locked one. The list is given last element first.
\<close>

fun DeleteArray_rev :: "'v arr list \<Rightarrow> ('v arr list, unit) step" where
  "DeleteArray_rev [] = done_with [] ()"
| "DeleteArray_rev (a # as) =
    (if a_data a \<noteq> [] \<and> isLocked a then throw_at (a # as) ''deleting locked array''
     else case DeleteArray_rev as of (as', r) \<Rightarrow> (zero_arr # as', r))"

definition DeleteArray_eval :: "'v arr list \<Rightarrow> ('v arr list, unit) step" where
  "DeleteArray_eval as = (case DeleteArray_rev (rev as) of (as', r) \<Rightarrow> (rev as', r))"

lemmas arr_defs = array_lock_def array_unlock_def array_clear_def array_reserve_def
  array_resize_def ensure_capacity_def array_grow_def builtin_array_push_def builtin_array_push_zero_def
  builtin_array_push_back_def builtin_array_push_back_zero_def builtin_array_resize_def
  builtin_array_resize_no_init_def builtin_array_reserve_def builtin_array_erase_def
  builtin_array_erase_i64_def builtin_array_erase_range_def builtin_array_free_def

lemmas step_defs = then_step_def throw_at_def done_with_def

end
