(* ===== verification/RtArrayProps.thy ===== *)
theory RtArrayProps
  imports RtArray
begin

text \<open>
  What the array operations guarantee. \<open>arr_list\<close> is the sequence of live elements;
  every operation is shown to act on it as the list operation of the same meaning, to keep
  \<open>arr_inv\<close>, and to leave a locked array alone. The lock protocol is a counter guarded
  by a magic number; the locale \<open>lock_protocol\<close> states it for arrays and tables alike.
\<close>

definition arr_inv :: "'v arr \<Rightarrow> bool" where
  "arr_inv a \<longleftrightarrow> length (a_data a) = a_capacity a \<and> a_size a \<le> a_capacity a \<and> a_size a \<le> INT64_MAX"

definition arr_list :: "'v arr \<Rightarrow> 'v list" where
  "arr_list a = take (a_size a) (a_data a)"

lemma length_arr_list [simp]: "arr_inv a \<Longrightarrow> length (arr_list a) = a_size a"
  by (simp add: arr_list_def arr_inv_def)

lemma arr_inv_zero [simp]: "arr_inv zero_arr"
  by (simp add: arr_inv_def zero_arr_def)

section \<open>Growth\<close>

lemma grown_capacity_bounds:
  assumes "n \<le> INT64_MAX"
  shows "n \<le> grown_capacity n" "grown_capacity n \<le> INT64_MAX" "16 \<le> grown_capacity n"
    "grown_capacity n \<le> max 16 (2 * n)"
proof -
  let ?m = "max n 2 - 1"
  have m: "0 < ?m" "?m < 2 ^ 63" using assms by (auto simp: INT64_MAX_def)
  have bl: "bit_length ?m \<le> 63" using bit_length_le[OF m(2)] .
  have clz: "64 - das_clz64 ?m = bit_length ?m" using bl by (simp add: das_clz64_def)
  have lo: "n \<le> 2 ^ bit_length ?m" using bit_length_less_pow[of ?m] by simp
  have hi: "2 ^ bit_length ?m \<le> max 4 (2 * n)" using bit_length_pow_le[OF m(1)] by auto
  show "n \<le> grown_capacity n" using lo assms unfolding grown_capacity_def clz Let_def by auto
  show "grown_capacity n \<le> INT64_MAX" "16 \<le> grown_capacity n"
    by (auto simp: grown_capacity_def INT64_MAX_def Let_def)
  show "grown_capacity n \<le> max 16 (2 * n)"
    using hi unfolding grown_capacity_def clz Let_def by auto
qed

lemma array_reserve_ok:
  assumes "arr_inv a" "array_reserve env a n = (a', Inr ())"
  shows "arr_inv a'" "n \<le> a_capacity a'" "a_size a' = a_size a" "arr_list a' = arr_list a"
    "a_capacity a \<le> a_capacity a'" "a_lock a' = a_lock a" "a_magic a' = a_magic a" "\<not> isLocked a"
    "take (a_size a) (a_data a') = take (a_size a) (a_data a)"
  using assms
  by (auto simp: array_reserve_def step_defs Let_def arr_inv_def arr_list_def isLocked_def min_def split: if_splits)

lemma array_reserve_throw:
  "array_reserve env a n = (a', Inl e) \<Longrightarrow> a' = a"
  by (auto simp: array_reserve_def step_defs Let_def split: if_splits)

lemma ensure_capacity_cases:
  assumes "arr_inv a" "ensure_capacity env a n = (a', r)"
    "n \<le> INT64_MAX"
  shows "(\<exists>e. r = Inl e \<and> a' = a) \<or>
    (r = Inr () \<and> arr_inv a' \<and> n \<le> a_capacity a' \<and> a_size a' = a_size a \<and> arr_list a' = arr_list a
      \<and> a_lock a' = a_lock a \<and> a_magic a' = a_magic a)"
proof (cases "n > a_capacity a")
  case True
  with assms(2) have res: "array_reserve env a (grown_capacity n) = (a', r)" by (simp add: ensure_capacity_def)
  show ?thesis
  proof (cases r)
    case (Inl e)
    with array_reserve_throw res show ?thesis by blast
  next
    case (Inr u)
    with array_reserve_ok[OF assms(1)] res grown_capacity_bounds(1)[OF assms(3)]
    show ?thesis by (metis (full_types) order_trans unit.exhaust)
  qed
next
  case False
  with assms show ?thesis by (auto simp: done_with_def ensure_capacity_def)
qed

lemma array_grow_cases:
  assumes "arr_inv a" "array_grow env a = (a', r)"
  shows "(\<exists>e. r = Inl e \<and> a' = a) \<or>
    (r = Inr () \<and> arr_inv a' \<and> \<not> isLocked a \<and> a_size a' = a_size a + 1 \<and> a_size a' \<le> length (a_data a')
      \<and> take (a_size a) (a_data a') = arr_list a \<and> \<not> isLocked a')"
proof (cases "isLocked a \<or> a_size a + 1 > INT64_MAX")
  case True
  with assms show ?thesis by (auto simp: array_grow_def step_defs Let_def split: if_splits)
next
  case False
  obtain b q where b: "ensure_capacity env a (a_size a + 1) = (b, q)" by fastforce
  have g: "array_grow env a = then_step (b, q) (\<lambda>a' _. done_with (a'\<lparr>a_size := a_size a + 1\<rparr>) ())"
    using False b by (auto simp: array_grow_def Let_def)
  have c: "(\<exists>e. q = Inl e \<and> b = a) \<or>
    (q = Inr () \<and> arr_inv b \<and> a_size a + 1 \<le> a_capacity b \<and> a_size b = a_size a \<and> arr_list b = arr_list a
      \<and> a_lock b = a_lock a \<and> a_magic b = a_magic a)"
    using ensure_capacity_cases[OF assms(1) b] False by simp
  then show ?thesis
  proof
    assume "\<exists>e. q = Inl e \<and> b = a"
    with g assms(2) show ?thesis by auto
  next
    assume r: "q = Inr () \<and> arr_inv b \<and> a_size a + 1 \<le> a_capacity b \<and> a_size b = a_size a
      \<and> arr_list b = arr_list a \<and> a_lock b = a_lock a \<and> a_magic b = a_magic a"
    with g assms(2) have "a' = b\<lparr>a_size := a_size a + 1\<rparr>" "r = Inr ()" by (auto simp: done_with_def)
    moreover have "take (a_size a) (a_data b) = arr_list a" using r by (metis arr_list_def)
    ultimately show ?thesis using r False by (simp add: arr_inv_def isLocked_def)
  qed
qed

section \<open>Refinement of list operations\<close>

lemma list_shift_up:
  assumes "i \<le> n" "Suc n \<le> length d"
  shows "take (Suc n) (memmove_slots d (Suc i) i (n - i)) = take (Suc i) d @ take (n - i) (drop i d)"
  using assms by (simp add: memmove_slots_def min_def Suc_diff_le)

text \<open>C28: \<open>push_zero\<close> inserts a zero element before position \<open>index\<close>; every other element keeps its order.\<close>

theorem push_zero_inserts:
  assumes "arr_inv a" and "builtin_array_push_zero env a index = (a', Inr r)"
  shows "r = index \<and> 0 \<le> index \<and> index \<le> int (a_size a) \<and> arr_inv a' \<and>
    arr_list a' = take (nat index) (arr_list a) @ ae_zero env # drop (nat index) (arr_list a)"
proof -
  obtain b q where g: "array_grow env a = (b, q)" by fastforce
  have q: "q = Inr ()" using assms(2) g
    by (cases q) (auto simp: builtin_array_push_zero_def Let_def)
  from array_grow_cases[OF assms(1) g] q have b:
    "arr_inv b" "a_size b = a_size a + 1" "a_size b \<le> length (a_data b)" "take (a_size a) (a_data b) = arr_list a"
    by auto
  from assms(2) g q have i: "0 \<le> index" "nat index < a_size b" "r = index" and
    a': "a' = b\<lparr>a_data := memset_slots (ae_zero env)
      (memmove_slots (a_data b) (nat index + 1) (nat index) (a_size a - nat index)) (nat index) 1\<rparr>"
    by (auto simp: builtin_array_push_zero_def Let_def step_defs split: if_splits)
  let ?i = "nat index" and ?n = "a_size a" and ?d = "a_data b"
  have in_range: "?i \<le> ?n" "Suc ?n \<le> length ?d" using i b by auto
  have len: "length (a_data a') = length ?d"
    using in_range by (simp add: a' )
  have "arr_list a' = take (Suc ?n) (a_data a')" using b by (simp add: arr_list_def a')
  also have "\<dots> = take ?i ?d @ ae_zero env # take (?n - ?i) (drop ?i ?d)"
    using in_range by (simp add: a' memset_slots_def memmove_slots_def Suc_diff_le min_def)
  also have "\<dots> = take ?i (arr_list a) @ ae_zero env # drop ?i (arr_list a)"
    using in_range b(4)[symmetric] by (simp add: min_def drop_take)
  finally have lst: "arr_list a' = take ?i (arr_list a) @ ae_zero env # drop ?i (arr_list a)" .
  have "arr_inv a'" using b(1) len by (auto simp: arr_inv_def a')
  with lst i in_range show ?thesis by auto
qed


text \<open>\<open>push_back_zero\<close> appends one zero element and returns its index.\<close>

theorem push_back_zero_appends:
  assumes "arr_inv a" and "builtin_array_push_back_zero env a = (a', Inr r)"
  shows "r = int (a_size a) \<and> arr_inv a' \<and> arr_list a' = arr_list a @ [ae_zero env]"
proof -
  obtain b q where g: "array_grow env a = (b, q)" by fastforce
  have q: "q = Inr ()" using assms(2) g
    by (cases q) (auto simp: builtin_array_push_back_zero_def Let_def)
  from array_grow_cases[OF assms(1) g] q have b:
    "arr_inv b" "a_size b = a_size a + 1" "a_size b \<le> length (a_data b)" "take (a_size a) (a_data b) = arr_list a"
    by auto
  from assms(2) g q have "r = int (a_size a)" and
    a': "a' = b\<lparr>a_data := memset_slots (ae_zero env) (a_data b) (a_size a) 1\<rparr>"
    by (auto simp: builtin_array_push_back_zero_def Let_def step_defs)
  moreover have "take (a_size b) (a_data a') = arr_list a @ [ae_zero env]"
    using b length_arr_list[OF assms(1)] by (simp add: a' memset_slots_def)
  ultimately show ?thesis
    using b by (simp add: arr_inv_def a') (simp add: arr_list_def)
qed

section \<open>Resizing and erasing\<close>

lemma array_resize_ok:
  assumes "arr_inv a" "array_resize env a n z = (a', Inr ())"
  shows "arr_inv a' \<and> \<not> isLocked a \<and> a_size a' = n \<and>
    (n \<le> a_size a \<longrightarrow> arr_list a' = take n (arr_list a)) \<and>
    (z \<longrightarrow> a_size a \<le> n \<longrightarrow> arr_list a' = arr_list a @ replicate (n - a_size a) (ae_zero env))"
proof -
  have ok: "\<not> isLocked a" "n \<le> INT64_MAX"
    using assms(2) by (auto simp: array_resize_def step_defs split: if_splits)
  obtain b q where b: "ensure_capacity env a n = (b, q)"
    by fastforce
  have q: "q = Inr ()" using assms(2) ok b by (cases q) (auto simp: array_resize_def)
  from ensure_capacity_cases[OF assms(1) b ok(2)] q have r: "arr_inv b" "n \<le> a_capacity b"
    "a_size b = a_size a" "arr_list b = arr_list a" by auto
  have a': "a' = (if z \<and> n > a_size b
      then b\<lparr>a_data := memset_slots (ae_zero env) (a_data b) (a_size b) (n - a_size b), a_size := n\<rparr>
      else b\<lparr>a_size := n\<rparr>)"
    using assms(2) ok b q by (auto simp: array_resize_def done_with_def Let_def split: if_splits)
  have t: "take (a_size a) (a_data b) = arr_list a" using r by (metis arr_list_def)
  have inv: "arr_inv a'" using r ok a' by (auto simp: arr_inv_def)
  have sz: "a_size a' = n" using a' by simp
  have small: "arr_list a' = take n (arr_list a)" if "n \<le> a_size a"
    using that r(3) a' t[symmetric] by (simp add: arr_list_def min_def)
  have large: "arr_list a' = arr_list a @ replicate (n - a_size a) (ae_zero env)" if "z" "a_size a \<le> n"
  proof (cases "n = a_size a")
    case True
    with small assms(1) show ?thesis by simp
  next
    case False
    then have "a_data a' = memset_slots (ae_zero env) (a_data b) (a_size a) (n - a_size a)"
      using that r(3) a' by simp
    then show ?thesis
      using that t sz length_arr_list[OF assms(1)] by (simp add: arr_list_def[of a'] memset_slots_def)
  qed
  show ?thesis using inv sz ok small large by blast
qed

lemma array_resize_throw:
  assumes "arr_inv a" "array_resize env a n z = (a', Inl e)"
  shows "a' = a"
proof (cases "isLocked a \<or> n > INT64_MAX")
  case True
  with assms(2) show ?thesis by (auto simp: array_resize_def step_defs split: if_splits)
next
  case False
  obtain b q where b: "ensure_capacity env a n = (b, q)" by fastforce
  with False assms(2) have "q = Inl e \<and> a' = b"
    by (cases q) (auto simp: array_resize_def done_with_def Let_def split: if_splits)
  with ensure_capacity_cases[OF assms(1) b] False show ?thesis by auto
qed

text \<open>\<open>resize\<close> to a size the code accepts truncates the sequence or extends it with zero elements, and keeps the array well formed.\<close>

theorem resize_refines:
  assumes "arr_inv a" and "builtin_array_resize env a n = (a', Inr ())"
  shows "0 \<le> n \<and> arr_inv a' \<and>
    arr_list a' = take (nat n) (arr_list a) @ replicate (nat n - a_size a) (ae_zero env)"
proof -
  have n: "0 \<le> n" and r: "array_resize env a (nat n) True = (a', Inr ())"
    using assms(2) by (auto simp: builtin_array_resize_def step_defs split: if_splits)
  from array_resize_ok[OF assms(1) r] n assms(1) show ?thesis
    by (cases "nat n \<le> a_size a") auto
qed

lemma memmove_down_list:
  assumes "i + k \<le> n" "n \<le> length d"
  shows "take (n - k) (memmove_slots d i (i + k) (n - i - k)) = take i (take n d) @ drop (i + k) (take n d)"
proof -
  obtain j where n: "n = i + k + j" using assms(1) le_Suc_ex by blast
  have [simp]: "i + k + j - k = i + j" "i + k + j - i - k = j" by simp_all
  show ?thesis using assms(2) unfolding n
    by (simp add: memmove_slots_def drop_take min_absorb1)
qed

text \<open>\<open>erase\<close> of a range drops exactly the elements \<open>index \<dots> index+count-1\<close>.\<close>

theorem erase_range_refines:
  assumes "arr_inv a" and "builtin_array_erase_range env a i n = (a', Inr ())"
  shows "0 \<le> i \<and> 0 \<le> n \<and> arr_inv a' \<and>
    arr_list a' = take (nat i) (arr_list a) @ drop (nat i + nat n) (arr_list a)"
proof -
  let ?b = "a\<lparr>a_data := memmove_slots (a_data a) (nat i) (nat i + nat n) (a_size a - nat i - nat n)\<rparr>"
  have c: "0 \<le> i" "0 \<le> n" "nat i + nat n \<le> a_size a"
    and r: "array_resize env ?b (a_size a - nat n) False = (a', Inr ())"
    using assms(2) by (auto simp: builtin_array_erase_range_def step_defs Let_def split: if_splits)
  have inv: "arr_inv ?b" using assms(1) c by (auto simp: arr_inv_def)
  from array_resize_ok[OF inv r] c have "arr_inv a'" "arr_list a' = take (a_size a - nat n) (arr_list ?b)"
    by auto
  moreover have "take (a_size a - nat n) (arr_list ?b)
      = take (a_size a - nat n) (memmove_slots (a_data a) (nat i) (nat i + nat n) (a_size a - nat i - nat n))"
    by (simp add: arr_list_def min_def)
  ultimately show ?thesis
    using c assms(1) memmove_down_list[of "nat i" "nat n" "a_size a" "a_data a"]
    by (simp add: arr_list_def arr_inv_def)
qed

section \<open>The lock protocol\<close>

definition arr_lock_depth :: "'v arr \<Rightarrow> nat" where
  "arr_lock_depth a = unat (a_lock a)"

text \<open>The states a fresh array passes through when it is only locked and unlocked.\<close>

definition arr_lock_sound :: "'v arr \<Rightarrow> bool" where
  "arr_lock_sound a \<longleftrightarrow> \<not> a_shared a \<and> \<not> a_hopeless a \<and>
     a_magic a = (if a_lock a = 0 then 0 else DAS_ARRAY_MAGIC)"

interpretation arr_lock: lock_protocol array_lock array_unlock arr_lock_depth arr_lock_sound UINT32_MAX
proof
  fix a :: "'a arr"
  assume a: "arr_lock_sound a" "arr_lock_depth a < UINT32_MAX"
  note w = lock_word_inc[of "a_lock a", OF a(2)[unfolded arr_lock_depth_def]]
  show "\<exists>s'. array_lock a = (s', Inr ()) \<and> arr_lock_sound s' \<and> arr_lock_depth s' = Suc (arr_lock_depth a)
      \<and> array_unlock s' = (a, Inr ())"
    using a(1) w
    by (cases "a_lock a = 0")
      (auto simp: array_lock_def array_unlock_def done_with_def Let_def arr_lock_sound_def arr_lock_depth_def)
next
  fix a :: "'a arr"
  assume "arr_lock_sound a" "arr_lock_depth a = 0"
  then show "\<exists>e. array_unlock a = (a, Inl e)"
    by (auto simp: array_unlock_def throw_at_def arr_lock_sound_def arr_lock_depth_def unat_eq_zero)
next
  fix a :: "'a arr"
  assume a: "arr_lock_sound a" "arr_lock_depth a = UINT32_MAX"
  then have "a_lock a + 1 = 0" "a_lock a \<noteq> 0"
    using lock_word_full[of "a_lock a"] by (auto simp: arr_lock_depth_def UINT32_MAX_def)
  then show "\<exists>s' e. array_lock a = (s', Inl e)"
    using a(1) by (auto simp: array_lock_def throw_at_def Let_def arr_lock_sound_def)
qed

text \<open>C29: any run of lock and unlock requests that stays in range (no unlock without a lock before it, at most \<open>UINT32_MAX\<close> nested) succeeds on an unlocked array, leaves it locked exactly when more locks than unlocks were made, and a balanced run leaves the array exactly as it was; a run that leaves the range is stopped with an error.\<close>

theorem array_lock_runs:
  assumes "arr_lock_sound a" and "a_lock a = 0"
  shows "(case lock_height UINT32_MAX ops 0 of
      Some m \<Rightarrow> (\<exists>a'. lock_run array_lock array_unlock ops a = (a', Inr ()) \<and> (isLocked a' \<longleftrightarrow> m \<noteq> 0) \<and> (m = 0 \<longrightarrow> a' = a))
    | None \<Rightarrow> (\<exists>a' e. lock_run array_lock array_unlock ops a = (a', Inl e)))"
proof -
  have d: "arr_lock_depth a = 0" using assms by (simp add: arr_lock_depth_def)
  show ?thesis
  proof (cases "lock_height UINT32_MAX ops 0")
    case None
    then show ?thesis using arr_lock.run_fails_out_of_range[OF assms(1) d None] by simp
  next
    case (Some m)
    from arr_lock.run_from_unlocked[OF assms(1) d Some] show ?thesis
      using Some by (auto simp: isLocked_def arr_lock_depth_def unat_gt_0)
  qed
qed

theorem array_lock_runs_witness:
  "arr_lock_sound (zero_arr :: nat arr) \<and> a_lock (zero_arr :: nat arr) = 0 \<and>
   lock_height UINT32_MAX [Lock, Lock, Unlock, Unlock] 0 = Some 0 \<and>
   lock_run array_lock array_unlock [Lock, Lock, Unlock, Unlock] (zero_arr :: nat arr) = (zero_arr, Inr ())"
proof -
  have s: "arr_lock_sound (zero_arr :: nat arr)" "a_lock (zero_arr :: nat arr) = 0"
    by (simp_all add: arr_lock_sound_def zero_arr_def)
  have h: "lock_height UINT32_MAX [Lock, Lock, Unlock, Unlock] 0 = Some 0" by (simp add: UINT32_MAX_def)
  from array_lock_runs[OF s, of "[Lock, Lock, Unlock, Unlock]"] show ?thesis using s h by auto
qed

text \<open>While an array is locked none of the operations that would move or drop its elements through \<open>array_resize\<close>, \<open>array_reserve\<close>, \<open>array_grow\<close> or \<open>array_clear\<close> changes it: each throws and leaves the array as it was.\<close>

theorem locked_array_refuses:
  assumes "isLocked a"
  shows "(\<exists>e. array_clear a = (a, Inl e)) \<and> (\<exists>e. array_reserve env a n = (a, Inl e)) \<and>
    (\<exists>e. array_resize env a n z = (a, Inl e)) \<and> (\<exists>e. array_grow env a = (a, Inl e)) \<and>
    (\<exists>e. builtin_array_push_zero env a i = (a, Inl e)) \<and> (\<exists>e. builtin_array_push env a i = (a, Inl e)) \<and>
    (\<exists>e. builtin_array_push_back_zero env a = (a, Inl e)) \<and> (\<exists>e. builtin_array_push_back env a = (a, Inl e)) \<and>
    (\<exists>e. builtin_array_resize env a i = (a, Inl e)) \<and>
    (a_data a \<noteq> [] \<longrightarrow> \<not> a_hopeless a \<longrightarrow> (\<exists>e. builtin_array_free a = (a, Inl e)))"
  using assms by (simp add: arr_defs throw_at_def Let_def)

definition demo_env :: "nat arr_env" where
  "demo_env = \<lparr>ae_stride = 4, ae_zero = 0, ae_junk = 99, ae_grants = (\<lambda>_. True), ae_verySafe = False\<rparr>"

definition demo_arr :: "nat arr" where
  "demo_arr = zero_arr\<lparr>a_data := [10, 20, 30, 0], a_size := 3, a_capacity := 4\<rparr>"

lemma demo_arr_inv: "arr_inv demo_arr"
  by (simp add: arr_inv_def demo_arr_def zero_arr_def INT64_MAX_def)

lemma demo_arr_list: "arr_list demo_arr = [10, 20, 30]" "a_size demo_arr = 3"
  by (simp_all add: arr_list_def demo_arr_def zero_arr_def)

theorem locked_array_refuses_witness:
  "isLocked (demo_arr\<lparr>a_lock := 1\<rparr>) \<and> (\<exists>e. array_clear (demo_arr\<lparr>a_lock := 1\<rparr>) = (demo_arr\<lparr>a_lock := 1\<rparr>, Inl e))"
proof -
  have l: "isLocked (demo_arr\<lparr>a_lock := 1\<rparr>)" by (simp add: isLocked_def)
  show ?thesis using l locked_array_refuses[OF l] by blast
qed

text \<open>C30: erasing a range of a locked array is refused, yet the elements have been moved down by then: the error leaves the array with its tail shifted over the range.\<close>

theorem erase_locked_modifies:
  assumes "isLocked a" and "0 \<le> i" and "0 \<le> n" and "nat i + nat n \<le> a_size a"
  shows "\<exists>a' msg. builtin_array_erase_range env a i n = (a', Inl (ThrowError msg)) \<and> a_size a' = a_size a \<and>
    a_data a' = memmove_slots (a_data a) (nat i) (nat i + nat n) (a_size a - nat i - nat n)"
  using assms
  by (auto simp: builtin_array_erase_range_def array_resize_def isLocked_def throw_at_def Let_def)

theorem erase_locked_modifies_witness:
  "arr_list (fst (builtin_array_erase_range demo_env (demo_arr\<lparr>a_lock := 1\<rparr>) 0 1)) = [20, 30, 30]"
proof -
  let ?a = "demo_arr\<lparr>a_lock := 1\<rparr>"
  have h: "isLocked ?a" "nat 0 + nat 1 \<le> a_size ?a" by (simp_all add: isLocked_def demo_arr_list)
  from erase_locked_modifies[OF h(1) _ _ h(2), of demo_env] show ?thesis
    by (auto simp: arr_list_def demo_arr_def zero_arr_def memmove_slots_def)
qed

text \<open>An insertion at an index past the end (or negative) throws only after the array has been grown: when the growth succeeds the array is left one element longer, its last element being whatever its storage held.\<close>

theorem failed_push_grows:
  assumes "arr_inv a" and "array_grow env a = (b, Inr ())" and "index < 0 \<or> int (a_size a) < index"
  shows "\<exists>msg. builtin_array_push_zero env a index = (b, Inl (ThrowError msg)) \<and> a_size b = a_size a + 1 \<and>
    (\<exists>junk. arr_list b = arr_list a @ [junk])"
proof -
  from array_grow_cases[OF assms(1,2)] have b: "arr_inv b" "a_size b = a_size a + 1"
    "a_size b \<le> length (a_data b)" "take (a_size a) (a_data b) = arr_list a" by auto
  have "arr_list b = arr_list a @ [a_data b ! a_size a]"
    using b by (simp add: arr_list_def[of b] take_Suc_conv_app_nth)
  moreover have "\<exists>msg. builtin_array_push_zero env a index = (b, Inl (ThrowError msg))"
    using assms b by (auto simp: builtin_array_push_zero_def throw_at_def Let_def)
  ultimately show ?thesis using b by blast
qed

theorem failed_push_grows_witness:
  "arr_list (fst (builtin_array_push_zero demo_env demo_arr 7)) = [10, 20, 30, 0]"
proof -
  have g: "array_grow demo_env demo_arr = (demo_arr\<lparr>a_size := 4\<rparr>, Inr ())"
    by (simp add: array_grow_def ensure_capacity_def demo_arr_def demo_env_def zero_arr_def isLocked_def INT64_MAX_def done_with_def)
  from failed_push_grows[OF demo_arr_inv g, of 7] show ?thesis
    by (auto simp: demo_arr_list) (simp add: demo_arr_def zero_arr_def arr_list_def)
qed

theorem push_zero_inserts_witness:
  "\<exists>a'. builtin_array_push_zero demo_env demo_arr 1 = (a', Inr 1) \<and> arr_inv a' \<and> arr_list a' = [10, 0, 20, 30]"
proof -
  have g: "builtin_array_push_zero demo_env demo_arr 1 = (demo_arr\<lparr>a_data := [10, 0, 20, 30], a_size := 4\<rparr>, Inr 1)"
    by (simp add: builtin_array_push_zero_def array_grow_def ensure_capacity_def demo_arr_def demo_env_def
      zero_arr_def isLocked_def INT64_MAX_def done_with_def memmove_slots_def memset_slots_def)
  from push_zero_inserts[OF demo_arr_inv g] g show ?thesis by (auto simp: demo_arr_list demo_env_def)
qed

theorem push_back_zero_appends_witness:
  "\<exists>a'. builtin_array_push_back_zero demo_env demo_arr = (a', Inr 3) \<and> arr_inv a' \<and> arr_list a' = [10, 20, 30, 0]"
proof -
  have g: "builtin_array_push_back_zero demo_env demo_arr = (demo_arr\<lparr>a_data := [10, 20, 30, 0], a_size := 4\<rparr>, Inr 3)"
    by (simp add: builtin_array_push_back_zero_def array_grow_def ensure_capacity_def demo_arr_def demo_env_def
      zero_arr_def isLocked_def INT64_MAX_def done_with_def memset_slots_def)
  from push_back_zero_appends[OF demo_arr_inv g] g show ?thesis by (auto simp: demo_arr_list demo_env_def)
qed

theorem resize_refines_witness:
  "\<exists>a'. builtin_array_resize demo_env demo_arr 2 = (a', Inr ()) \<and> arr_inv a' \<and> arr_list a' = [10, 20]"
proof -
  have g: "builtin_array_resize demo_env demo_arr 2 = (demo_arr\<lparr>a_size := 2\<rparr>, Inr ())"
    by (simp add: builtin_array_resize_def array_resize_def ensure_capacity_def demo_arr_def demo_env_def
      zero_arr_def isLocked_def INT64_MAX_def done_with_def)
  from resize_refines[OF demo_arr_inv g] g show ?thesis by (auto simp: demo_arr_list)
qed

theorem erase_range_refines_witness:
  "\<exists>a'. builtin_array_erase_range demo_env demo_arr 0 2 = (a', Inr ()) \<and> arr_inv a' \<and> arr_list a' = [30]"
proof -
  have g: "builtin_array_erase_range demo_env demo_arr 0 2 = (demo_arr\<lparr>a_data := [30, 20, 30, 0], a_size := 1\<rparr>, Inr ())"
    by (simp add: builtin_array_erase_range_def array_resize_def ensure_capacity_def demo_arr_def demo_env_def
      zero_arr_def isLocked_def INT64_MAX_def done_with_def memmove_slots_def Let_def)
  from erase_range_refines[OF demo_arr_inv g] g show ?thesis by (auto simp: demo_arr_list)
qed

section \<open>Access, iteration, deletion\<close>

text \<open>An element access either throws or names a slot inside the live sequence, for an \<open>int\<close> index exactly the one it asks for; the safe form returns null instead of throwing.\<close>

theorem array_at_in_bounds:
  assumes "arr_inv a"
  shows "(case ArrayAt_compute a idx of
      Inl e \<Rightarrow> (idx < 0 \<or> int (a_size a) \<le> idx) \<and> SafeArrayAt_compute (Some a) idx = None
    | Inr i \<Rightarrow> int i = idx \<and> i < length (arr_list a) \<and> i < length (a_data a) \<and> SafeArrayAt_compute (Some a) idx = Some i)"
  using assms by (auto simp: ArrayAt_compute_def SafeArrayAt_compute_def arr_inv_def arr_list_def)

theorem array_at_in_bounds_witness:
  "ArrayAt_compute demo_arr 2 = Inr 2 \<and> SafeArrayAt_compute (Some demo_arr) 2 = Some 2"
  using array_at_in_bounds[OF demo_arr_inv, of 2]
  by (auto simp: ArrayAt_compute_def demo_arr_list split: sum.splits)

lemma array_for_loop_fold:
  assumes "it_data it < it_end it"
  shows "array_for_loop it body s = Some (fold body [it_data it ..< it_end it] s)"
  using assms
proof (induction "it_end it - it_data it" arbitrary: it s rule: less_induct)
  case less
  have step: "[it_data it ..< it_end it] = it_data it # [Suc (it_data it) ..< it_end it]"
    using less.prems by (simp add: upt_conv_Cons)
  show ?case
  proof (cases "Suc (it_data it) = it_end it")
    case True
    then show ?thesis
      by (subst array_for_loop.simps) (simp add: GoodArrayIterator_next_def Let_def step)
  next
    case False
    with less.prems less.hyps[of "it\<lparr>it_data := Suc (it_data it)\<rparr>"] show ?thesis
      by (subst array_for_loop.simps) (simp add: GoodArrayIterator_next_def Let_def step)
  qed
qed

lemma unlock_after_lock:
  assumes "arr_lock_sound a" "arr_lock_depth a < UINT32_MAX"
  obtains b where "array_lock a = (b, Inr ())" "array_unlock b = (a, Inr ())" "a_size b = a_size a" "isLocked b"
proof -
  from arr_lock.lock_ok[OF assms] obtain b where b: "array_lock a = (b, Inr ())" "array_unlock b = (a, Inr ())"
    "arr_lock_depth b = Suc (arr_lock_depth a)" by blast
  then have "a_size b = a_size a" "isLocked b"
    by (auto simp: array_lock_def step_defs Let_def isLocked_def arr_lock_depth_def split: if_splits)
  with b that show ?thesis by blast
qed

text \<open>A \<open>for\<close> over an array returns, visits the slots \<open>0, 1, \<dots>, size-1\<close> once each in that order, and leaves the array as it found it, the lock it took released.\<close>

theorem array_for_visits_all:
  assumes "arr_lock_sound a" and "arr_lock_depth a < UINT32_MAX"
  shows "ForWithIterator_array a body s = Some (a, Inr (fold body [0 ..< a_size a] s))"
proof -
  obtain b where b: "array_lock a = (b, Inr ())" "array_unlock b = (a, Inr ())" "a_size b = a_size a"
    using unlock_after_lock[OF assms] by blast
  have loop: "array_for_loop \<lparr>it_data = 0, it_end = a_size a\<rparr> body s = Some (fold body [0 ..< a_size a] s)"
    if "0 < a_size a"
    using array_for_loop_fold[of "\<lparr>it_data = 0, it_end = a_size a\<rparr>"] that by simp
  show ?thesis
    using b loop
    by (cases "a_size a = 0")
      (simp_all add: ForWithIterator_array_def GoodArrayIterator_first_def GoodArrayIterator_close_def done_with_def)
qed

theorem array_for_visits_all_witness:
  "ForWithIterator_array demo_arr (\<lambda>i acc. acc @ [a_data demo_arr ! i]) [] = Some (demo_arr, Inr [10, 20, 30])"
proof -
  have s: "arr_lock_sound demo_arr" "arr_lock_depth demo_arr < UINT32_MAX"
    by (simp_all add: arr_lock_sound_def arr_lock_depth_def demo_arr_def zero_arr_def UINT32_MAX_def)
  show ?thesis
    by (subst array_for_visits_all[OF s]) (simp add: demo_arr_def zero_arr_def upt_rec)
qed

lemma DeleteArray_rev_stops:
  assumes "\<forall>a\<in>set xs. \<not> (a_data a \<noteq> [] \<and> isLocked a)"
  shows "DeleteArray_rev (xs @ ys) =
    (case DeleteArray_rev ys of (ys', r) \<Rightarrow> (replicate (length xs) zero_arr @ ys', r))"
  using assms by (induction xs) (auto split: prod.splits)

text \<open>Deleting consecutive arrays zeroes the arrays after the last locked one, leaves that one and everything before it untouched and throws; when no array is locked all of them are freed.\<close>

theorem delete_arrays_from_last:
  assumes "\<forall>a\<in>set as. \<not> (a_data a \<noteq> [] \<and> isLocked a)"
  shows "DeleteArray_eval as = (replicate (length as) zero_arr, Inr ()) \<and>
    (a_data l \<noteq> [] \<and> isLocked l \<longrightarrow>
      (\<exists>e. DeleteArray_eval (bs @ l # as) = (bs @ l # replicate (length as) zero_arr, Inl e)))"
proof -
  have rev_ok: "\<forall>a\<in>set (rev as). \<not> (a_data a \<noteq> [] \<and> isLocked a)" using assms by simp
  show ?thesis
    using DeleteArray_rev_stops[OF rev_ok, of "[]"] DeleteArray_rev_stops[OF rev_ok, of "l # rev bs"]
    by (auto simp: DeleteArray_eval_def step_defs rev_replicate)
qed

theorem delete_arrays_from_last_witness:
  "DeleteArray_eval [demo_arr, demo_arr] = ([zero_arr, zero_arr], Inr ())"
proof -
  have h: "\<forall>a\<in>set [demo_arr, demo_arr]. \<not> (a_data a \<noteq> [] \<and> isLocked a)"
    by (simp add: demo_arr_def zero_arr_def isLocked_def)
  from delete_arrays_from_last[OF h] show ?thesis by (simp add: numeral_2_eq_2)
qed

end
