(* ===== verification/DasType.thy ===== *)
theory DasType
  imports Prelude
begin

text \<open>
  The basic types of the language (\<open>enum Type\<close> of \<open>debug_info.h\<close>), in the source's order and
  with its names (\<open>alias\<close> is \<open>aliasType\<close> here).
\<close>

datatype (plugins only: code size) das_type =
    none | autoinfer | aliasType | option | typeDecl | typeMacro | fakeContext | fakeLineInfo
  | anyArgument | tVoid | tBool | tInt8 | tUInt8 | tInt16 | tUInt16 | tInt64 | tUInt64
  | tInt | tInt2 | tInt3 | tInt4 | tUInt | tUInt2 | tUInt3 | tUInt4
  | tFloat | tFloat2 | tFloat3 | tFloat4 | tDouble | tRange | tURange | tRange64 | tURange64
  | tString | tStructure | tHandle | tEnumeration | tEnumeration8 | tEnumeration16
  | tEnumeration64 | tBitfield | tBitfield8 | tBitfield16 | tBitfield64 | tPointer
  | tFunction | tLambda | tIterator | tArray | tTable | tBlock | tTuple | tVariant | tFixedArray

end
