(* ===== verification/Probing.thy ===== *)
theory Probing
  imports Prelude
begin

text \<open>
  Open addressing with linear probing, as all the hashed regimes of \<open>runtime_table.h\<close> use it:
  the loop \<open>while(true) { \<dots>; index = (index + 1) & mask; }\<close>, the invariant that makes such a
  loop find its key, and the effect of inserting, erasing and moving entries on the finite map
  that the live slots represent. The slot marks (a 1-byte control or a 32-bit hash key) are
  abstracted by two predicates, \<open>E\<close> for empty and \<open>L\<close> for live; \<open>home\<close> is the number whose
  low bits give a key its first slot.
\<close>

section \<open>The probing loop\<close>

text \<open>
  \<open>body\<close> inspects one slot and either returns from the function (\<open>Inr\<close>) or goes on with its
  loop-carried variables (\<open>Inl\<close>). \<open>None\<close> is the loop that never returns.
\<close>

partial_function (option) probe_loop :: "nat \<Rightarrow> (nat \<Rightarrow> 's \<Rightarrow> 's + 'r) \<Rightarrow> nat \<Rightarrow> 's \<Rightarrow> 'r option" where
  "probe_loop msk body index st =
    (case body index st of Inr r \<Rightarrow> Some r
     | Inl st' \<Rightarrow> probe_loop msk body ((index + 1) AND msk) st')"

lemma probe_loop_run:
  assumes "is_pow2 c"
    and "\<And>d. d < D \<Longrightarrow> body ((h + d) mod c) (st d) = Inl (st (Suc d))"
    and "body ((h + D) mod c) (st D) = Inr r"
  shows "probe_loop (c - 1) body (h AND (c - 1)) (st 0) = Some r"
proof -
  note m = is_pow2_mask[OF assms(1)]
  have "probe_loop (c - 1) body ((h + (D - k)) mod c) (st (D - k)) = Some r" if "k \<le> D" for k
    using that
  proof (induction k)
    case 0
    then show ?case using assms(3) by (subst probe_loop.simps) simp
  next
    case (Suc k)
    then have d: "D - Suc k < D" "Suc (D - Suc k) = D - k" by auto
    have "((h + (D - Suc k)) mod c + 1) AND (c - 1) = (h + (D - k)) mod c"
      using mod_Suc_step[of h "D - Suc k" c] unfolding d(2) m by blast
    moreover have "body ((h + (D - Suc k)) mod c) (st (D - Suc k)) = Inl (st (D - k))"
      using assms(2)[OF d(1)] d(2) by simp
    ultimately show ?case using Suc by (subst probe_loop.simps) simp
  qed
  from this[of D] show ?thesis unfolding m by simp
qed

section \<open>Well-formed slots\<close>

definition slots_wf :: "('h \<Rightarrow> bool) \<Rightarrow> ('h \<Rightarrow> bool) \<Rightarrow> ('k \<Rightarrow> nat) \<Rightarrow> 'k list \<Rightarrow> 'h list \<Rightarrow> bool" where
  "slots_wf E L home ks hs \<longleftrightarrow>
     length ks = length hs \<and> is_pow2 (length hs) \<and> (\<forall>h. E h \<longrightarrow> \<not> L h) \<and>
     (\<exists>i<length hs. E (hs ! i)) \<and>
     (\<forall>i<length hs. L (hs ! i) \<longrightarrow>
        (\<forall>d<probe_dist (length hs) (home (ks ! i)) i. \<not> E (hs ! ((home (ks ! i) + d) mod length hs)))) \<and>
     (\<forall>i<length hs. \<forall>j<length hs. L (hs ! i) \<longrightarrow> L (hs ! j) \<longrightarrow> ks ! i = ks ! j \<longrightarrow> i = j)"

text \<open>The entries in slot order and the map they represent.\<close>

definition slots_entries :: "('h \<Rightarrow> bool) \<Rightarrow> 'k list \<Rightarrow> 'h list \<Rightarrow> 'v list \<Rightarrow> ('k \<times> 'v) list" where
  "slots_entries L ks hs vs = [(ks ! i, vs ! i). i \<leftarrow> [0..<length hs], L (hs ! i)]"

definition slots_map :: "('h \<Rightarrow> bool) \<Rightarrow> 'k list \<Rightarrow> 'h list \<Rightarrow> 'v list \<Rightarrow> 'k \<Rightarrow> 'v option" where
  "slots_map L ks hs vs = map_of (slots_entries L ks hs vs)"

definition distinct_live :: "('h \<Rightarrow> bool) \<Rightarrow> 'k list \<Rightarrow> 'h list \<Rightarrow> bool" where
  "distinct_live L ks hs \<longleftrightarrow>
     (\<forall>i<length hs. \<forall>j<length hs. L (hs ! i) \<longrightarrow> L (hs ! j) \<longrightarrow> ks ! i = ks ! j \<longrightarrow> i = j)"

lemma slots_wf_distinct: "slots_wf E L home ks hs \<Longrightarrow> distinct_live L ks hs"
  by (simp add: slots_wf_def distinct_live_def)

lemma in_slots_entries:
  "(k, v) \<in> set (slots_entries L ks hs vs) \<longleftrightarrow> (\<exists>i<length hs. L (hs ! i) \<and> ks ! i = k \<and> vs ! i = v)"
  by (auto simp: slots_entries_def)

lemma option_eq_by_Some: "(\<And>v. x = Some v \<longleftrightarrow> y = Some v) \<Longrightarrow> x = y"
  by (cases x; cases y) auto

lemma slots_map_iff:
  assumes "distinct_live L ks hs"
  shows "slots_map L ks hs vs k = Some v \<longleftrightarrow> (\<exists>i<length hs. L (hs ! i) \<and> ks ! i = k \<and> vs ! i = v)"
proof
  assume "slots_map L ks hs vs k = Some v"
  then show "\<exists>i<length hs. L (hs ! i) \<and> ks ! i = k \<and> vs ! i = v"
    unfolding slots_map_def by (auto dest!: map_of_SomeD simp: in_slots_entries)
next
  assume "\<exists>i<length hs. L (hs ! i) \<and> ks ! i = k \<and> vs ! i = v"
  then obtain i where i: "i < length hs" "L (hs ! i)" "ks ! i = k" "vs ! i = v" by blast
  then have "(k, v) \<in> set (slots_entries L ks hs vs)" by (auto simp: in_slots_entries)
  then have "k \<in> fst ` set (slots_entries L ks hs vs)" by force
  then obtain w where w: "map_of (slots_entries L ks hs vs) k = Some w"
    by (cases "map_of (slots_entries L ks hs vs) k") (auto simp: map_of_eq_None_iff)
  then have "(k, w) \<in> set (slots_entries L ks hs vs)" by (rule map_of_SomeD)
  then obtain j where j: "j < length hs" "L (hs ! j)" "ks ! j = k" "vs ! j = w"
    by (auto simp: in_slots_entries)
  with assms i have "i = j" unfolding distinct_live_def by blast
  with i j w show "slots_map L ks hs vs k = Some v" by (simp add: slots_map_def)
qed

lemma slots_map_None:
  "slots_map L ks hs vs k = None \<longleftrightarrow> (\<forall>i<length hs. L (hs ! i) \<longrightarrow> ks ! i \<noteq> k)"
proof -
  have "slots_map L ks hs vs k = None \<longleftrightarrow> (\<forall>v. (k, v) \<notin> set (slots_entries L ks hs vs))"
    by (auto simp: slots_map_def map_of_eq_None_iff image_iff)
  then show ?thesis by (auto simp: in_slots_entries)
qed

lemma slots_map_eqI:
  assumes "distinct_live L ks hs" "distinct_live L' ks' hs'"
    and "\<And>k v. (\<exists>i<length hs. L (hs ! i) \<and> ks ! i = k \<and> vs ! i = v)
      \<longleftrightarrow> (\<exists>i<length hs'. L' (hs' ! i) \<and> ks' ! i = k \<and> vs' ! i = v)"
  shows "slots_map L ks hs vs = slots_map L' ks' hs' vs'"
proof
  fix k
  have "slots_map L ks hs vs k = Some v \<longleftrightarrow> slots_map L' ks' hs' vs' k = Some v" for v
    unfolding slots_map_iff[OF assms(1)] slots_map_iff[OF assms(2)] by (rule assms(3))
  then show "slots_map L ks hs vs k = slots_map L' ks' hs' vs' k" by (rule option_eq_by_Some)
qed

lemma slots_map_empty: "(\<And>i. i < length hs \<Longrightarrow> \<not> L (hs ! i)) \<Longrightarrow> slots_map L ks hs vs = Map.empty"
  by (rule ext) (simp add: slots_map_None)

section \<open>Where a walk stops\<close>

text \<open>
  Walking from a key's home, the first slot that is empty or holds the key settles whether the
  key is present; it is reached within one lap.
\<close>

definition stops_at :: "('h \<Rightarrow> bool) \<Rightarrow> ('h \<Rightarrow> bool) \<Rightarrow> 'k list \<Rightarrow> 'h list \<Rightarrow> 'k \<Rightarrow> nat \<Rightarrow> bool" where
  "stops_at E L ks hs k i \<longleftrightarrow> E (hs ! i) \<or> (L (hs ! i) \<and> ks ! i = k)"

lemma walk_stops:
  assumes "slots_wf E L home ks hs"
  obtains D where "D < length hs" "stops_at E L ks hs k ((s + D) mod length hs)"
    "\<And>d. d < D \<Longrightarrow> \<not> stops_at E L ks hs k ((s + d) mod length hs)"
proof -
  let ?c = "length hs"
  from assms obtain e where e: "e < ?c" "E (hs ! e)" by (auto simp: slots_wf_def)
  let ?P = "\<lambda>d. stops_at E L ks hs k ((s + d) mod ?c)"
  have P: "?P (probe_dist ?c s e)" using e probe_dist_reaches[OF e(1), of s] by (simp add: stops_at_def)
  have "Least ?P \<le> probe_dist ?c s e" using P by (rule Least_le)
  then have "Least ?P < ?c" using probe_dist_lt[of ?c s e] e(1) by linarith
  then show ?thesis using that[of "Least ?P"] LeastI[of ?P, OF P] not_less_Least by blast
qed

lemma walk_result:
  assumes wf: "slots_wf E L home ks hs"
    and D: "D < length hs" "stops_at E L ks hs k ((home k + D) mod length hs)"
      "\<And>d. d < D \<Longrightarrow> \<not> stops_at E L ks hs k ((home k + d) mod length hs)"
  shows "E (hs ! ((home k + D) mod length hs)) \<longleftrightarrow> (\<forall>i<length hs. L (hs ! i) \<longrightarrow> ks ! i \<noteq> k)"
proof
  let ?c = "length hs" and ?j = "(home k + D) mod length hs"
  assume emp: "E (hs ! ?j)"
  show "\<forall>i<length hs. L (hs ! i) \<longrightarrow> ks ! i \<noteq> k"
  proof (intro allI impI notI)
    fix i assume i: "i < ?c" "L (hs ! i)" "ks ! i = k"
    let ?d = "probe_dist ?c (home k) i"
    have ri: "(home k + ?d) mod ?c = i" using probe_dist_reaches[OF i(1)] .
    have "stops_at E L ks hs k ((home k + ?d) mod ?c)" using i ri by (simp add: stops_at_def)
    with D(3) have "\<not> ?d < D" by blast
    moreover have "\<not> D < ?d"
      using wf i emp unfolding slots_wf_def by blast
    ultimately have "?d = D" by simp
    with ri emp i have "E (hs ! i)" by simp
    with i wf show False by (auto simp: slots_wf_def)
  qed
next
  assume none: "\<forall>i<length hs. L (hs ! i) \<longrightarrow> ks ! i \<noteq> k"
  have "(home k + D) mod length hs < length hs" using D(1) by (intro mod_less_divisor) linarith
  with none D(2) show "E (hs ! ((home k + D) mod length hs))" by (auto simp: stops_at_def)
qed

section \<open>Inserting and erasing\<close>

lemma slots_wf_insert:
  assumes wf: "slots_wf E L home ks hs"
    and i: "i < length hs" "\<not> L (hs ! i)"
    and path: "\<And>d. d < probe_dist (length hs) (home k) i \<Longrightarrow> \<not> E (hs ! ((home k + d) mod length hs))"
    and fresh: "\<forall>j<length hs. L (hs ! j) \<longrightarrow> ks ! j \<noteq> k"
    and h: "L h" "\<not> E h"
    and room: "\<exists>j<length hs. j \<noteq> i \<and> E (hs ! j)"
  shows "slots_wf E L home (ks[i := k]) (hs[i := h])"
  unfolding slots_wf_def length_list_update
proof (intro conjI)
  let ?c = "length hs"
  show "length ks = ?c" "is_pow2 ?c" "\<forall>h. E h \<longrightarrow> \<not> L h" using wf by (auto simp: slots_wf_def)
  then have lk: "length ks = ?c" by simp
  from room obtain j where "j < ?c" "j \<noteq> i" "E (hs ! j)" by blast
  then show "\<exists>j<?c. E (hs[i := h] ! j)" by (intro exI[of _ j]) simp
  have not_emp: "\<not> E (hs ! x) \<Longrightarrow> \<not> E (hs[i := h] ! x)" for x
    using h(2) by (cases "x = i") (use i in \<open>auto simp: nth_list_update\<close>)
  show "\<forall>x<?c. L (hs[i := h] ! x) \<longrightarrow> (\<forall>d<probe_dist ?c (home (ks[i := k] ! x)) x.
      \<not> E (hs[i := h] ! ((home (ks[i := k] ! x) + d) mod ?c)))"
  proof (intro allI impI)
    fix x d assume x: "x < ?c" "L (hs[i := h] ! x)" and d: "d < probe_dist ?c (home (ks[i := k] ! x)) x"
    show "\<not> E (hs[i := h] ! ((home (ks[i := k] ! x) + d) mod ?c))"
    proof (cases "x = i")
      case True
      with d lk i have "d < probe_dist ?c (home k) i" by simp
      from not_emp[OF path[OF this]] True lk i show ?thesis by simp
    next
      case False
      with x d wf have "\<not> E (hs ! ((home (ks ! x) + d) mod ?c))" by (auto simp: slots_wf_def)
      from not_emp[OF this] False show ?thesis by simp
    qed
  qed
  show "\<forall>x<?c. \<forall>y<?c. L (hs[i := h] ! x) \<longrightarrow> L (hs[i := h] ! y) \<longrightarrow> ks[i := k] ! x = ks[i := k] ! y \<longrightarrow> x = y"
  proof (intro allI impI)
    fix x y assume xy: "x < ?c" "y < ?c" "L (hs[i := h] ! x)" "L (hs[i := h] ! y)" "ks[i := k] ! x = ks[i := k] ! y"
    have d: "\<And>x y. x < ?c \<Longrightarrow> y < ?c \<Longrightarrow> L (hs ! x) \<Longrightarrow> L (hs ! y) \<Longrightarrow> ks ! x = ks ! y \<Longrightarrow> x = y"
      using wf by (auto simp: slots_wf_def)
    show "x = y"
      using xy d[of x y] fresh lk by (cases "x = i"; cases "y = i") auto
  qed
qed

lemma slots_map_insert:
  assumes "distinct_live L ks hs" "distinct_live L (ks[i := k]) (hs[i := h])"
    and "i < length hs" "length ks = length hs" "length vs = length hs" "\<not> L (hs ! i)" "L h"
  shows "slots_map L (ks[i := k]) (hs[i := h]) (vs[i := v]) = (slots_map L ks hs vs)(k \<mapsto> v)"
proof
  fix k'
  have upd: "slots_map L (ks[i := k]) (hs[i := h]) (vs[i := v]) k' = Some w \<longleftrightarrow>
      ((slots_map L ks hs vs)(k \<mapsto> v)) k' = Some w" for w
  proof (cases "k' = k")
    case True
    have live: "L (hs[i := h] ! i)" "ks[i := k] ! i = k" "vs[i := v] ! i = v" using assms by auto
    then have "slots_map L (ks[i := k]) (hs[i := h]) (vs[i := v]) k = Some v"
      using slots_map_iff[OF assms(2)] assms(3) by (metis length_list_update)
    with True show ?thesis by auto
  next
    case False
    have "(\<exists>x<length hs. L (hs[i := h] ! x) \<and> ks[i := k] ! x = k' \<and> vs[i := v] ! x = w) \<longleftrightarrow>
        (\<exists>x<length hs. L (hs ! x) \<and> ks ! x = k' \<and> vs ! x = w)"
      using False assms(3-7) by (metis nth_list_update_eq nth_list_update_neq)
    with False show ?thesis
      using slots_map_iff[OF assms(1), of vs k' w] slots_map_iff[OF assms(2), of "vs[i := v]" k' w] by simp
  qed
  show "slots_map L (ks[i := k]) (hs[i := h]) (vs[i := v]) k' = ((slots_map L ks hs vs)(k \<mapsto> v)) k'"
    using upd by (rule option_eq_by_Some)
qed

lemma slots_wf_erase:
  assumes wf: "slots_wf E L home ks hs" and "i < length hs" "\<not> L t" "\<not> E t" "\<not> E (hs ! i)"
  shows "slots_wf E L home ks (hs[i := t])"
proof -
  have eq: "E (hs[i := t] ! x) \<longleftrightarrow> E (hs ! x)" if "x < length hs" for x
    using that assms(2-5) by (cases "x = i") auto
  have live: "L (hs[i := t] ! x) \<Longrightarrow> L (hs ! x)" if "x < length hs" for x
    using that assms(3) by (cases "x = i") (auto simp: nth_list_update)
  have pos: "(y mod length hs) < length hs" for y using assms(2) by (cases hs) auto
  from wf show ?thesis
    unfolding slots_wf_def length_list_update using eq live pos by meson
qed

lemma slots_map_erase:
  assumes "distinct_live L ks hs" "i < length hs" "L (hs ! i)" "\<not> L t" "length vs = length hs"
  shows "slots_map L ks (hs[i := t]) (vs[i := z]) = (slots_map L ks hs vs)(ks ! i := None)"
proof
  fix k'
  have d': "distinct_live L ks (hs[i := t])"
    using assms(1,2,4) by (auto simp: distinct_live_def nth_list_update split: if_splits)
  show "slots_map L ks (hs[i := t]) (vs[i := z]) k' = ((slots_map L ks hs vs)(ks ! i := None)) k'"
  proof (cases "k' = ks ! i")
    case True
    have "\<forall>j<length hs. L (hs[i := t] ! j) \<longrightarrow> ks ! j \<noteq> ks ! i"
      using assms by (auto simp: distinct_live_def nth_list_update split: if_splits)
    with True show ?thesis by (simp add: slots_map_None)
  next
    case False
    have "slots_map L ks (hs[i := t]) (vs[i := z]) k' = Some w \<longleftrightarrow> slots_map L ks hs vs k' = Some w" for w
    proof -
      have "(\<exists>x<length hs. L (hs[i := t] ! x) \<and> ks ! x = k' \<and> vs[i := z] ! x = w) \<longleftrightarrow>
          (\<exists>x<length hs. L (hs ! x) \<and> ks ! x = k' \<and> vs ! x = w)"
        using False assms(4) by (metis nth_list_update_neq nth_list_update_eq)
      then show ?thesis using slots_map_iff[OF assms(1), of vs k' w] slots_map_iff[OF d', of "vs[i := z]" k' w] by simp
    qed
    from option_eq_by_Some[OF this] False show ?thesis by simp
  qed
qed

section \<open>Searching\<close>

text \<open>
  A probing loop that goes on at the slots where \<open>P\<close> fails stops at the first slot of the walk
  where \<open>P\<close> holds, with its loop-carried variables updated along the way.
\<close>

lemma probe_first:
  assumes c: "is_pow2 c" and ex: "\<exists>i<c. P i"
    and go: "\<And>i s. i < c \<Longrightarrow> \<not> P i \<Longrightarrow> body i s = Inl (upd i s)"
  shows "\<exists>D<c. P ((h + D) mod c) \<and> (\<forall>d<D. \<not> P ((h + d) mod c)) \<and>
    (\<forall>r. body ((h + D) mod c) (fold (\<lambda>d. upd ((h + d) mod c)) [0..<D] s0) = Inr r \<longrightarrow>
      probe_loop (c - 1) body (h AND (c - 1)) s0 = Some r)"
proof -
  from ex obtain e where e: "e < c" "P e" by blast
  let ?P = "\<lambda>d. P ((h + d) mod c)"
  let ?D = "Least ?P"
  have P: "?P (probe_dist c h e)" using e probe_dist_reaches[OF e(1), of h] by simp
  have D: "?P ?D" "\<forall>d<?D. \<not> ?P d" using LeastI[of ?P, OF P] not_less_Least by blast+
  have "?D \<le> probe_dist c h e" using P by (rule Least_le)
  then have lt: "?D < c" using probe_dist_lt[of c h e] e(1) by linarith
  have pos: "(h + d) mod c < c" for d using e(1) by (intro mod_less_divisor) linarith
  let ?st = "\<lambda>d. fold (\<lambda>d. upd ((h + d) mod c)) [0..<d] s0"
  have step: "body ((h + d) mod c) (?st d) = Inl (?st (Suc d))" if "d < ?D" for d
    using go[OF pos] D(2) that by simp
  have "probe_loop (c - 1) body (h AND (c - 1)) s0 = Some r" if "body ((h + ?D) mod c) (?st ?D) = Inr r" for r
    using probe_loop_run[of c ?D body h ?st r, OF c step that] by simp
  with D lt show ?thesis by blast
qed

text \<open>The search for a key: it stops at its slot, or at an empty slot when it has none.\<close>

lemma probe_search:
  assumes wf: "slots_wf E L home ks hs"
    and go: "\<And>i s. i < length hs \<Longrightarrow> \<not> stops_at E L ks hs k i \<Longrightarrow> body i s = Inl (upd i s)"
  obtains D j where "D < length hs" "j = (home k + D) mod length hs" "j < length hs"
    "stops_at E L ks hs k j" "E (hs ! j) \<longleftrightarrow> (\<forall>i<length hs. L (hs ! i) \<longrightarrow> ks ! i \<noteq> k)"
    "\<And>d. d < D \<Longrightarrow> \<not> stops_at E L ks hs k ((home k + d) mod length hs)"
    "\<And>r. body j (fold (\<lambda>d. upd ((home k + d) mod length hs)) [0..<D] s0) = Inr r \<Longrightarrow>
      probe_loop (length hs - 1) body (home k AND (length hs - 1)) s0 = Some r"
proof -
  let ?c = "length hs" and ?P = "stops_at E L ks hs k"
  have c: "is_pow2 ?c" and ex: "\<exists>i<?c. ?P i"
    using wf by (auto simp: slots_wf_def stops_at_def)
  obtain D where D: "D < ?c" "?P ((home k + D) mod ?c)" "\<forall>d<D. \<not> ?P ((home k + d) mod ?c)"
    "\<forall>r. body ((home k + D) mod ?c) (fold (\<lambda>d. upd ((home k + d) mod ?c)) [0..<D] s0) = Inr r \<longrightarrow>
      probe_loop (?c - 1) body (home k AND (?c - 1)) s0 = Some r"
    using probe_first[where P = ?P and body = body and upd = upd and h = "home k" and ?s0.0 = s0, OF c ex go] by blast
  have j: "(home k + D) mod ?c < ?c" using D(1) by (intro mod_less_divisor) linarith
  show ?thesis
    using that[of D "(home k + D) mod ?c"] D j walk_result[OF wf D(1,2)] by blast
qed

lemma probe_search_unit:
  fixes body :: "nat \<Rightarrow> unit \<Rightarrow> unit + 'r"
  assumes wf: "slots_wf E L home ks hs"
    and go: "\<And>i. i < length hs \<Longrightarrow> \<not> stops_at E L ks hs k i \<Longrightarrow> body i () = Inl ()"
  obtains j where "j < length hs"
    "stops_at E L ks hs k j" "E (hs ! j) \<longleftrightarrow> (\<forall>i<length hs. L (hs ! i) \<longrightarrow> ks ! i \<noteq> k)"
    "\<And>r. body j () = Inr r \<Longrightarrow> probe_loop (length hs - 1) body (home k AND (length hs - 1)) () = Some r"
proof -
  have go': "body i s = Inl ((\<lambda>_ _. ()) i s)" if "i < length hs" "\<not> stops_at E L ks hs k i" for i s
    using go[OF that] by simp
  show ?thesis
  proof (rule probe_search[where body = body and upd = "\<lambda>_ _. ()" and k = k and ?s0.0 = "()", OF wf go'])
    fix D j
    assume j: "j < length hs" "stops_at E L ks hs k j"
      "E (hs ! j) = (\<forall>i<length hs. L (hs ! i) \<longrightarrow> ks ! i \<noteq> k)"
      and run: "\<And>r. body j (fold (\<lambda>d _. ()) [0..<D] ()) = Inr r \<Longrightarrow>
        probe_loop (length hs - 1) body (home k AND (length hs - 1)) () = Some r"
    have "probe_loop (length hs - 1) body (home k AND (length hs - 1)) () = Some r" if "body j () = Inr r" for r
      using run[of r] that by simp
    with j that show ?thesis by blast
  qed simp_all
qed

section \<open>A hashed store\<close>

text \<open>
  The part of a table's state that an open-addressed regime keeps: marks, keys, values and the
  two counters. A slot is empty (mark 0), a tombstone (mark 1) or live.
\<close>

definition is_empty :: "'w::len word \<Rightarrow> bool" where "is_empty h \<longleftrightarrow> h = 0"
definition is_live :: "'w::len word \<Rightarrow> bool" where "is_live h \<longleftrightarrow> 1 < h"

definition store_ok :: "('k \<Rightarrow> nat) \<Rightarrow> 'v \<Rightarrow> 'k list \<Rightarrow> 'w::len word list \<Rightarrow> 'v list \<Rightarrow> nat \<Rightarrow> nat \<Rightarrow> bool" where
  "store_ok home z ks hs vs sz tomb \<longleftrightarrow>
     slots_wf is_empty is_live home ks hs \<and> length vs = length hs \<and>
     sz = count_if is_live hs \<and> tomb = count_if (\<lambda>h. \<not> is_empty h \<and> \<not> is_live h) hs \<and>
     (\<forall>i<length hs. \<not> is_live (hs ! i) \<longrightarrow> vs ! i = z)"

abbreviation store_map :: "'k list \<Rightarrow> 'w::len word list \<Rightarrow> 'v list \<Rightarrow> 'k \<Rightarrow> 'v option" where
  "store_map \<equiv> slots_map is_live"

lemma live_not_empty: "is_live h \<Longrightarrow> \<not> is_empty h"
  by (auto simp: is_live_def is_empty_def)

lemma store_counts:
  assumes "store_ok home z ks hs vs sz tomb"
  shows "count_if is_empty hs + sz + tomb = length hs" "sz + tomb < length hs"
proof -
  show 1: "count_if is_empty hs + sz + tomb = length hs"
    using assms count_if_split[of is_live is_empty hs] live_not_empty by (auto simp: store_ok_def)
  have "0 < count_if is_empty hs" using assms by (auto simp: store_ok_def slots_wf_def count_if_pos)
  with 1 show "sz + tomb < length hs" by simp
qed

lemma store_ok_empty:
  assumes "is_pow2 c" "length ks = c" "length vs = c" "\<forall>v\<in>set vs. v = z"
  shows "store_ok home z ks (replicate c (0 :: 'w::len word)) vs 0 0"
    and "store_map ks (replicate c (0 :: 'w::len word)) vs = Map.empty"
proof -
  have "0 < c" using assms(1) by (rule is_pow2_pos)
  then show "store_ok home z ks (replicate c (0 :: 'w word)) vs 0 0"
    using assms by (auto simp: store_ok_def slots_wf_def is_empty_def is_live_def)
  show "store_map ks (replicate c (0 :: 'w word)) vs = Map.empty"
    by (rule slots_map_empty) (simp add: is_live_def)
qed

lemma store_insert:
  assumes ok: "store_ok home z ks hs vs sz tomb"
    and j: "j < length hs" "\<not> is_live (hs ! j)"
    and path: "\<And>d. d < probe_dist (length hs) (home k) j \<Longrightarrow> \<not> is_empty (hs ! ((home k + d) mod length hs))"
    and fresh: "\<forall>i<length hs. is_live (hs ! i) \<longrightarrow> ks ! i \<noteq> k"
    and m: "is_live m"
    and room: "is_empty (hs ! j) \<Longrightarrow> sz + tomb + 1 < length hs"
  shows "store_ok home z (ks[j := k]) (hs[j := m]) (vs[j := v]) (sz + 1)
      (if is_empty (hs ! j) then tomb else tomb - 1)"
    and "store_map (ks[j := k]) (hs[j := m]) (vs[j := v]) = (store_map ks hs vs)(k \<mapsto> v)"
proof -
  have wf: "slots_wf is_empty is_live home ks hs" and lv: "length vs = length hs"
    using ok by (auto simp: store_ok_def)
  have lk: "length ks = length hs" using wf by (simp add: slots_wf_def)
  have "\<exists>i<length hs. i \<noteq> j \<and> is_empty (hs ! i)"
  proof (cases "is_empty (hs ! j)")
    case True
    with room store_counts(1)[OF ok] have "2 \<le> count_if is_empty hs" by simp
    with True j(1) show ?thesis using count_if_two[of j hs is_empty] by simp
  next
    case False
    with wf show ?thesis by (auto simp: slots_wf_def)
  qed
  with wf j path fresh m live_not_empty[OF m]
  have wf': "slots_wf is_empty is_live home (ks[j := k]) (hs[j := m])"
    by (intro slots_wf_insert)
  have nm: "\<not> is_empty m" using m by (rule live_not_empty)
  show "store_ok home z (ks[j := k]) (hs[j := m]) (vs[j := v]) (sz + 1)
      (if is_empty (hs ! j) then tomb else tomb - 1)"
    using ok wf' j m nm lv by (auto simp: store_ok_def count_if_update nth_list_update)
  show "store_map (ks[j := k]) (hs[j := m]) (vs[j := v]) = (store_map ks hs vs)(k \<mapsto> v)"
    using slots_wf_distinct[OF wf] slots_wf_distinct[OF wf'] j lk lv m by (intro slots_map_insert)
qed

lemma store_erase:
  fixes hs :: "'w::len word list"
  assumes ok: "store_ok home z ks hs vs sz tomb" and j: "j < length hs" "is_live (hs ! j)"
  shows "store_ok home z ks (hs[j := 1]) (vs[j := z]) (sz - 1) (tomb + 1)"
    and "store_map ks (hs[j := 1]) (vs[j := z]) = (store_map ks hs vs)(ks ! j := None)"
proof -
  have wf: "slots_wf is_empty is_live home ks hs" and lv: "length vs = length hs"
    using ok by (auto simp: store_ok_def)
  have one: "\<not> is_live (1 :: 'w word)" "\<not> is_empty (1 :: 'w word)" by (auto simp: is_live_def is_empty_def)
  have wf': "slots_wf is_empty is_live home ks (hs[j := 1])"
    using wf j one live_not_empty[OF j(2)] by (intro slots_wf_erase)
  show "store_ok home z ks (hs[j := 1]) (vs[j := z]) (sz - 1) (tomb + 1)"
    using ok wf' j one lv live_not_empty[OF j(2)]
    by (auto simp: store_ok_def count_if_update nth_list_update)
  show "store_map ks (hs[j := 1]) (vs[j := z]) = (store_map ks hs vs)(ks ! j := None)"
    using slots_wf_distinct[OF wf] j one(1) lv by (intro slots_map_erase)
qed

lemma store_write:
  assumes ok: "store_ok home z ks hs vs sz tomb" and j: "j < length hs" "is_live (hs ! j)"
  shows "store_ok home z ks hs (vs[j := v]) sz tomb"
    and "store_map ks hs (vs[j := v]) = (store_map ks hs vs)(ks ! j \<mapsto> v)"
proof -
  have d: "distinct_live is_live ks hs" and lv: "length vs = length hs"
    using ok slots_wf_distinct by (auto simp: store_ok_def)
  show "store_ok home z ks hs (vs[j := v]) sz tomb"
    using ok j by (auto simp: store_ok_def nth_list_update)
  show "store_map ks hs (vs[j := v]) = (store_map ks hs vs)(ks ! j \<mapsto> v)"
  proof
    fix k
    have "store_map ks hs (vs[j := v]) k = Some w \<longleftrightarrow> ((store_map ks hs vs)(ks ! j \<mapsto> v)) k = Some w" for w
    proof (cases "k = ks ! j")
      case True
      have "i = j" if "i < length hs" "is_live (hs ! i)" "ks ! i = ks ! j" for i
        using d that j by (auto simp: distinct_live_def)
      then have "(\<exists>i<length hs. is_live (hs ! i) \<and> ks ! i = ks ! j \<and> vs[j := v] ! i = w) \<longleftrightarrow> v = w"
        using j lv by (metis nth_list_update_eq)
      with True show ?thesis unfolding slots_map_iff[OF d] by simp
    next
      case False
      then have "vs[j := v] ! i = vs ! i" if "ks ! i = k" for i using that by (cases "i = j") auto
      with False show ?thesis by (auto simp: slots_map_iff[OF d])
    qed
    then show "store_map ks hs (vs[j := v]) k = ((store_map ks hs vs)(ks ! j \<mapsto> v)) k"
      by (rule option_eq_by_Some)
  qed
qed

text \<open>A slot that answers for a key.\<close>

lemma store_lookup:
  assumes "store_ok home z ks hs vs sz tomb"
  shows "store_map ks hs vs k = Some v \<longleftrightarrow> (\<exists>i<length hs. is_live (hs ! i) \<and> ks ! i = k \<and> vs ! i = v)"
    and "store_map ks hs vs k = None \<longleftrightarrow> (\<forall>i<length hs. is_live (hs ! i) \<longrightarrow> ks ! i \<noteq> k)"
  using slots_map_iff[of is_live ks hs vs k v] slots_wf_distinct[of is_empty is_live home ks hs] assms
  by (auto simp: store_ok_def slots_map_None)

text \<open>The first empty slot of a walk is where a fresh key goes.\<close>

lemma store_first_empty:
  assumes ok: "store_ok home z ks hs vs sz tomb"
    and go: "\<And>i s. i < length hs \<Longrightarrow> body i s = (if is_empty (hs ! i) then Inr i else Inl s)"
  shows "\<exists>j<length hs. probe_loop (length hs - 1) body (h AND (length hs - 1)) s0 = Some j \<and> is_empty (hs ! j) \<and>
    (\<forall>d<probe_dist (length hs) h j. \<not> is_empty (hs ! ((h + d) mod length hs)))"
proof -
  let ?c = "length hs"
  have c: "is_pow2 ?c" "\<exists>i<?c. is_empty (hs ! i)" using ok by (auto simp: store_ok_def slots_wf_def)
  obtain D where D: "D < ?c" "is_empty (hs ! ((h + D) mod ?c))" "\<forall>d<D. \<not> is_empty (hs ! ((h + d) mod ?c))"
    "\<forall>r. body ((h + D) mod ?c) (fold (\<lambda>d s. s) [0..<D] s0) = Inr r \<longrightarrow>
      probe_loop (?c - 1) body (h AND (?c - 1)) s0 = Some r"
    using probe_first[where P = "\<lambda>i. is_empty (hs ! i)" and h = h and ?s0.0 = s0 and upd = "\<lambda>_ s. s"
        and body = body, OF c] go by auto
  have pos: "(h + D) mod ?c < ?c" using D(1) by (intro mod_less_divisor) linarith
  have "probe_loop (?c - 1) body (h AND (?c - 1)) s0 = Some ((h + D) mod ?c)"
    using D(2,4) go[OF pos] by simp
  with D pos probe_dist_step[OF D(1)] show ?thesis by (intro exI[of _ "(h + D) mod ?c"]) simp
qed

section \<open>Walking for an insertion\<close>

text \<open>The walk of \<open>reserve\<close> remembers the first tombstone it passes.\<close>

definition remember_tomb :: "'w::len word list \<Rightarrow> nat \<Rightarrow> nat option \<Rightarrow> nat option" where
  "remember_tomb hs i s = (if \<not> is_empty (hs ! i) \<and> \<not> is_live (hs ! i) \<and> s = None then Some i else s)"

lemma remembered:
  assumes "fold (\<lambda>d. remember_tomb hs ((h + d) mod c)) [0..<D] None = Some i"
  shows "\<exists>d<D. i = (h + d) mod c \<and> \<not> is_empty (hs ! i) \<and> \<not> is_live (hs ! i)"
  using assms
proof (induction D)
  case (Suc D)
  show ?case
  proof (cases "fold (\<lambda>d. remember_tomb hs ((h + d) mod c)) [0..<D] None")
    case None
    with Suc.prems have "remember_tomb hs ((h + D) mod c) None = Some i" by simp
    then show ?thesis by (auto simp: remember_tomb_def split: if_splits)
  next
    case (Some x)
    with Suc.prems have "remember_tomb hs ((h + D) mod c) (Some x) = Some i" by simp
    then have "x = i" by (simp add: remember_tomb_def)
    with Suc.IH Some show ?thesis using less_SucI by blast
  qed
qed simp

text \<open>
  It ends at the slot of the key, or proves the key absent and offers a dead slot on the key's
  walk: the first tombstone, or the empty slot it stopped at when it passed none.
\<close>

lemma store_reserve_walk:
  assumes ok: "store_ok home z ks hs vs sz tomb"
    and go: "\<And>i s. i < length hs \<Longrightarrow> \<not> stops_at is_empty is_live ks hs k i \<Longrightarrow> body i s = Inl (remember_tomb hs i s)"
  obtains (found) j where "j < length hs" "is_live (hs ! j)" "ks ! j = k"
      "\<And>r. (\<And>s. body j s = Inr r) \<Longrightarrow> probe_loop (length hs - 1) body (home k AND (length hs - 1)) None = Some r"
    | (absent) j i s where "j < length hs" "is_empty (hs ! j)" "\<forall>i<length hs. is_live (hs ! i) \<longrightarrow> ks ! i \<noteq> k"
      "i = (case s of None \<Rightarrow> j | Some x \<Rightarrow> x)" "i < length hs" "\<not> is_live (hs ! i)"
      "is_empty (hs ! i) \<longleftrightarrow> s = None"
      "\<And>x. x < probe_dist (length hs) (home k) i \<Longrightarrow> \<not> is_empty (hs ! ((home k + x) mod length hs))"
      "\<And>r. body j s = Inr r \<Longrightarrow> probe_loop (length hs - 1) body (home k AND (length hs - 1)) None = Some r"
proof -
  let ?c = "length hs"
  have wf: "slots_wf is_empty is_live home ks hs" using ok by (simp add: store_ok_def)
  obtain D j where D: "D < ?c" "j = (home k + D) mod ?c" "j < ?c" "stops_at is_empty is_live ks hs k j"
    "is_empty (hs ! j) \<longleftrightarrow> (\<forall>i<?c. is_live (hs ! i) \<longrightarrow> ks ! i \<noteq> k)"
    "\<And>d. d < D \<Longrightarrow> \<not> stops_at is_empty is_live ks hs k ((home k + d) mod ?c)"
    "\<And>r. body j (fold (\<lambda>d. remember_tomb hs ((home k + d) mod ?c)) [0..<D] None) = Inr r \<Longrightarrow>
      probe_loop (?c - 1) body (home k AND (?c - 1)) None = Some r"
    using probe_search[where body = body and upd = "remember_tomb hs" and k = k and ?s0.0 = None, OF wf go] by blast
  define s where "s = fold (\<lambda>d. remember_tomb hs ((home k + d) mod ?c)) [0..<D] None"
  show ?thesis
  proof (cases "is_empty (hs ! j)")
    case False
    with D(4) have "is_live (hs ! j)" "ks ! j = k" by (auto simp: stops_at_def)
    then show ?thesis using found[of j] D(3,7) by blast
  next
    case True
    define i where "i = (case s of None \<Rightarrow> j | Some x \<Rightarrow> x)"
    obtain d where d: "d \<le> D" "i = (home k + d) mod ?c"
      "if s = None then is_empty (hs ! i) else \<not> is_empty (hs ! i) \<and> \<not> is_live (hs ! i)"
    proof (cases s)
      case None
      with that[of D] D(2) True i_def show ?thesis by simp
    next
      case (Some x)
      from remembered[of hs "home k" ?c D x] Some obtain d where
        "d < D" "x = (home k + d) mod ?c" "\<not> is_empty (hs ! x)" "\<not> is_live (hs ! x)" unfolding s_def by blast
      with that[of d] Some i_def show ?thesis by simp
    qed
    have i: "i < ?c" unfolding d(2) using D(1) by (intro mod_less_divisor) linarith
    have pd: "probe_dist ?c (home k) i = d"
      unfolding d(2) using d(1) D(1) by (intro probe_dist_step) simp
    have path: "\<not> is_empty (hs ! ((home k + x) mod ?c))" if "x < probe_dist ?c (home k) i" for x
      using D(6)[of x] that d(1) pd by (simp add: stops_at_def)
    have "\<not> is_live (hs ! i)" "is_empty (hs ! i) \<longleftrightarrow> s = None"
      using d(3) live_not_empty[of "hs ! i"] by (auto split: if_splits)
    with True D(3,5,7) i path show ?thesis
      by (intro absent[of j i s]) (auto simp: i_def s_def)
  qed
qed

end
