(* ===== verification/RtTable.thy ===== *)
theory RtTable
  imports Probing RtArray DasType
begin

text \<open>
  The runtime hash table (\<open>struct Table\<close> of \<open>arraytype.h\<close>, \<open>runtime_table.h\<close>,
  \<open>runtime_table.cpp\<close>, \<open>runtime_table_nodes.h\<close>). \<open>TableHash<KeyType>\<close> is a template; its
  two instances are modelled one by one. Keys that are not strings: open addressing at every
  capacity with a 1-byte control per slot (\<open>ctrl_\<close>). String keys: up to 8 slots dense with
  64-bit hashes, above that open addressing with 32-bit hash keys (\<open>str_\<close>).

  The one block behind \<open>data\<close> holds values, keys and hashes; the hashes are read at one of
  three widths. Here each width is a list of its own, and only the one the table's regime
  selects is in use. \<open>KeyCompare\<close> is equality of the key type; a string key is \<open>Some s\<close> or
  \<open>None\<close> for the null pointer. A result \<open>None\<close> of an operation is a probing loop that never
  returns.
\<close>

record ('v, 'k) table = "'v arr" +
  t_keys :: "'k list"
  t_ctrl :: "u8 list"
  t_hash64 :: "u64 list"
  t_hash32 :: "u32 list"
  t_tombstones :: nat

record ('v, 'k) tab_env =
  te_hash :: "'k \<Rightarrow> u64"       \<comment> \<open>\<open>hash_function(context, key)\<close>\<close>
  te_valueTypeSize :: nat
  te_keySize :: nat           \<comment> \<open>\<open>sizeof(KeyType)\<close>\<close>
  te_zero :: 'v
  te_junk :: 'k               \<comment> \<open>what a fresh key slot holds\<close>
  te_grants :: "nat \<Rightarrow> bool"

definition zero_table :: "('v, 'k) table" where
  "zero_table = arr.extend zero_arr
     \<lparr>t_keys = [], t_ctrl = [], t_hash64 = [], t_hash32 = [], t_tombstones = 0\<rparr>"

definition HASH_EMPTY64 :: nat where "HASH_EMPTY64 = 0"
definition HASH_KILLED64 :: nat where "HASH_KILLED64 = 1"
definition TABLE_MAX_LINEAR_CAPACITY :: nat where "TABLE_MAX_LINEAR_CAPACITY = 8"
definition minCapacity :: nat where "minCapacity = 8"
definition CTRL_EMPTY :: u8 where "CTRL_EMPTY = 0"
definition CTRL_TOMBSTONE :: u8 where "CTRL_TOMBSTONE = 1"
definition CTRL_OCCUPIED :: u8 where "CTRL_OCCUPIED = 2"

definition hashToHashKey :: "u32 \<Rightarrow> u32" where
  "hashToHashKey hash = (if hash \<le> 1 then 16777619 else hash)"

definition packed :: "('v, 'k) table \<Rightarrow> bool" where
  "packed tab \<longleftrightarrow> \<not> a_tableNoHash tab \<and> a_capacity tab \<le> TABLE_MAX_LINEAR_CAPACITY"

definition tableLiveSlot :: "('v, 'k) table \<Rightarrow> nat \<Rightarrow> bool" where
  "tableLiveSlot tab i \<longleftrightarrow>
    (if \<not> a_tableNoHash tab \<and> a_capacity tab \<le> TABLE_MAX_LINEAR_CAPACITY then i < a_size tab
     else if a_tableNoHash tab then t_ctrl tab ! i > CTRL_TOMBSTONE
     else unat (t_hash32 tab ! i) > HASH_KILLED64)"

definition tableHashSlotBytes :: "('v, 'k) table \<Rightarrow> nat" where
  "tableHashSlotBytes tab =
    (if \<not> a_tableNoHash tab \<and> a_capacity tab \<le> TABLE_MAX_LINEAR_CAPACITY then 8
     else if a_tableNoHash tab then 1 else 4)"

definition table_for_each :: "('v, 'k) table \<Rightarrow> ('k \<Rightarrow> 'v \<Rightarrow> 's \<Rightarrow> 's) \<Rightarrow> 's \<Rightarrow> 's" where
  "table_for_each tab fn s =
    fold (\<lambda>i s. if tableLiveSlot tab i then fn (t_keys tab ! i) (a_data tab ! i) s else s)
      [0..<a_capacity tab] s"

section \<open>Locking, clearing, freeing\<close>

definition table_lock :: "('v, 'k) table \<Rightarrow> (('v, 'k) table, unit) step" where
  "table_lock a =
    (if a_shared a \<or> a_hopeless a then done_with a ()
     else if a_lock a = 0 then
       (if a_magic a \<noteq> 0 then throw_at a ''table magic mismatch on first lock, was it moved or overwritten?''
        else done_with (a\<lparr>a_lock := 1, a_magic := DAS_ARRAY_MAGIC\<rparr>) ())
     else if a_magic a \<noteq> DAS_ARRAY_MAGIC then throw_at a ''table magic mismatch on lock, was it moved or overwritten?''
     else let a' = a\<lparr>a_lock := a_lock a + 1\<rparr> in
       if a_lock a' = 0 then throw_at a' ''table lock overflow, was it moved or overwritten?''
       else done_with a' ())"

definition table_unlock :: "('v, 'k) table \<Rightarrow> (('v, 'k) table, unit) step" where
  "table_unlock a =
    (if a_shared a \<or> a_hopeless a then done_with a ()
     else if a_magic a \<noteq> DAS_ARRAY_MAGIC then throw_at a ''table magic mismatch on unlock, was it moved or overwritten?''
     else if a_lock a = 0 then throw_at a ''table lock underflow, was it moved or overwritten?''
     else let a' = a\<lparr>a_lock := a_lock a - 1\<rparr> in
       done_with (if a_lock a' = 0 then a'\<lparr>a_magic := 0\<rparr> else a') ())"

text \<open>
  \<open>memset(arr.hashes, 0, capacity*tableHashSlotBytes)\<close> clears the width in use;
  \<open>memset(arr.data, 0, arr.keys - arr.data)\<close> clears the values. A null \<open>data\<close> is an
  unallocated table (capacity 0).
\<close>

definition table_clear :: "('v, 'k) tab_env \<Rightarrow> ('v, 'k) table \<Rightarrow> (('v, 'k) table, unit) step" where
  "table_clear env arr =
    (if isLocked arr then throw_at arr ''can't clear locked table''
     else let arr = (if a_capacity arr \<noteq> 0
            then arr\<lparr>t_ctrl := map (\<lambda>_. 0) (t_ctrl arr), t_hash64 := map (\<lambda>_. 0) (t_hash64 arr),
                     t_hash32 := map (\<lambda>_. 0) (t_hash32 arr), a_data := map (\<lambda>_. te_zero env) (a_data arr)\<rparr>
            else arr)
       in done_with (arr\<lparr>a_size := 0, t_tombstones := 0\<rparr>) ())"

definition builtin_table_free :: "('v, 'k) table \<Rightarrow> (('v, 'k) table, unit) step" where
  "builtin_table_free tab =
    (if a_capacity tab = 0 then done_with tab ()
     else if \<not> (\<not> isLocked tab \<or> a_hopeless tab) then throw_at tab ''can't delete locked table''
     else if a_hopeless tab then done_with (zero_table\<lparr>a_hopeless := True\<rparr>) ()
     else done_with zero_table ())"

fun DeleteTable_rev :: "('v, 'k) table list \<Rightarrow> (('v, 'k) table list, unit) step" where
  "DeleteTable_rev [] = done_with [] ()"
| "DeleteTable_rev (t # ts) =
    (if a_capacity t \<noteq> 0 \<and> isLocked t then throw_at (t # ts) ''deleting locked table''
     else case DeleteTable_rev ts of (ts', r) \<Rightarrow> (zero_table # ts', r))"

definition DeleteTable_eval :: "('v, 'k) table list \<Rightarrow> (('v, 'k) table list, unit) step" where
  "DeleteTable_eval ts = (case DeleteTable_rev (rev ts) of (ts', r) \<Rightarrow> (rev ts', r))"

section \<open>Steps that may not return\<close>

type_synonym ('v, 'k, 'r) tstep = "(('v, 'k) table, 'r) step option"

definition tbind :: "('s, 'r) step option \<Rightarrow> ('s \<Rightarrow> 'r \<Rightarrow> ('s, 'q) step option) \<Rightarrow> ('s, 'q) step option" where
  "tbind m f = Option.bind m (\<lambda>p. case snd p of Inl e \<Rightarrow> Some (fst p, Inl e) | Inr r \<Rightarrow> f (fst p) r)"

lemma tbind_simps [simp]:
  "tbind None f = None" "tbind (Some (s, Inl e)) f = Some (s, Inl e)" "tbind (Some (s, Inr r)) f = f s r"
  by (simp_all add: tbind_def)

lemma tbind_mono [partial_function_mono]:
  assumes "mono_option B" "\<And>s r. mono_option (\<lambda>f. C s r f)"
  shows "mono_option (\<lambda>f. tbind (B f) (\<lambda>s r. C s r f))"
  unfolding tbind_def
  by (intro bind_mono assms) (auto split: sum.splits simp: monotone_def intro: assms(2)[unfolded monotone_def, rule_format] option.leq_refl)

section \<open>Tables with keys that are not strings\<close>

definition ctrl_find :: "('v, 'k) table \<Rightarrow> 'k \<Rightarrow> u64 \<Rightarrow> int option" where
  "ctrl_find tab key hash =
    (if a_capacity tab = 0 then Some (-1)
     else probe_loop (a_capacity tab - 1)
       (\<lambda>index _.
          let c = t_ctrl tab ! index in
          if c = CTRL_EMPTY then Inr (-1)
          else if c = CTRL_OCCUPIED \<and> t_keys tab ! index = key then Inr (int index)
          else Inl ())
       (unat hash AND (a_capacity tab - 1)) ())"

definition ctrl_insertNew :: "('v, 'k) table \<Rightarrow> u64 \<Rightarrow> nat option" where
  "ctrl_insertNew tab hash =
     probe_loop (a_capacity tab - 1)
       (\<lambda>index _. if t_ctrl tab ! index = CTRL_EMPTY then Inr index else Inl ())
       (unat hash AND (a_capacity tab - 1)) ()"

text \<open>The loop over the old slots that moves every live entry into the new block.\<close>

fun ctrl_move :: "('v, 'k) tab_env \<Rightarrow> ('v, 'k) table \<Rightarrow> nat list \<Rightarrow> ('v, 'k) table \<Rightarrow> ('v, 'k) table option" where
  "ctrl_move env old [] newTab = Some newTab"
| "ctrl_move env old (i # is) newTab =
    (if t_ctrl old ! i > CTRL_TOMBSTONE then
       Option.bind (ctrl_insertNew newTab (te_hash env (t_keys old ! i))) (\<lambda>index.
         ctrl_move env old is (newTab\<lparr>
           t_ctrl := (t_ctrl newTab)[index := CTRL_OCCUPIED],
           t_keys := (t_keys newTab)[index := t_keys old ! i],
           a_data := (a_data newTab)[index := a_data old ! i]\<rparr>))
     else ctrl_move env old is newTab)"

definition ctrl_newTab :: "('v, 'k) tab_env \<Rightarrow> ('v, 'k) table \<Rightarrow> nat \<Rightarrow> ('v, 'k) table" where
  "ctrl_newTab env tab newCapacity =
     tab\<lparr>a_data := replicate newCapacity (te_zero env), a_capacity := newCapacity, a_magic := 0,
       a_tableNoHash := True, t_keys := replicate newCapacity (te_junk env),
       t_ctrl := replicate newCapacity CTRL_EMPTY, t_hash64 := [], t_hash32 := [], t_tombstones := 0\<rparr>"

definition ctrl_reserveInternal :: "('v, 'k) tab_env \<Rightarrow> ('v, 'k) table \<Rightarrow> nat \<Rightarrow> ('v, 'k, bool) tstep" where
  "ctrl_reserveInternal env tab newCapacity =
    (if \<not> (newCapacity \<noteq> 0 \<and> newCapacity AND (newCapacity - 1) = 0) then
       Some (tab, Inl (VerifyFailed ''newCapacity must be a nonzero power of 2''))
     else if a_magic tab \<noteq> 0 \<or> a_lock tab \<noteq> 0 then Some (throw_at tab ''can't grow a locked table'')
     else let perSlot = te_valueTypeSize env + te_keySize env + 1 in
       if newCapacity > UINT64_MAX div perSlot then
         Some (throw_at tab ''can't grow table, capacity*perSlot overflows uint64'')
       else if \<not> te_grants env (newCapacity * perSlot) then Some (tab, Inl OutOfMemory)
       else let newTab = ctrl_newTab env tab newCapacity in
         map_option (\<lambda>t. (t, Inr True))
           (if a_size tab \<noteq> 0 then ctrl_move env tab [0..<a_capacity tab] newTab else Some newTab))"

definition ctrl_grow :: "('v, 'k) tab_env \<Rightarrow> ('v, 'k) table \<Rightarrow> ('v, 'k, bool) tstep" where
  "ctrl_grow env tab =
    (if a_capacity tab > 2 ^ 62 then Some (throw_at tab ''table grow: capacity exceeds 2^62'')
     else ctrl_reserveInternal env tab (max minCapacity (a_capacity tab * 2)))"

definition ctrl_rehash :: "('v, 'k) tab_env \<Rightarrow> ('v, 'k) table \<Rightarrow> ('v, 'k, bool) tstep" where
  "ctrl_rehash env tab = ctrl_reserveInternal env tab (a_capacity tab)"

text \<open>\<open>while (newCapacity < size) newCapacity *= 2\<close> on \<open>uint64_t\<close>.\<close>

partial_function (option) double_until :: "nat \<Rightarrow> nat \<Rightarrow> nat option" where
  "double_until sz newCapacity =
    (if newCapacity < sz then double_until sz (newCapacity * 2 mod 2 ^ 64) else Some newCapacity)"

definition ctrl_reserve_size :: "('v, 'k) tab_env \<Rightarrow> ('v, 'k) table \<Rightarrow> nat \<Rightarrow> ('v, 'k, bool) tstep" where
  "ctrl_reserve_size env tab sz =
    (if sz \<le> a_capacity tab then Some (done_with tab True)
     else if sz > 2 ^ 62 then Some (throw_at tab ''table reserve: size exceeds 2^62'')
     else Option.bind (double_until sz (max minCapacity (a_capacity tab * 2)))
       (ctrl_reserveInternal env tab))"

text \<open>
  The second half of \<open>reserve\<close>: grow or rehash when the load asks for it, then walk, with
  \<open>insertI\<close> the first tombstone seen (\<open>~0\<close> in the code, \<open>None\<close> here).
\<close>

definition ctrl_reserve_load :: "('v, 'k) tab_env \<Rightarrow> ('v, 'k) table \<Rightarrow> ('v, 'k, bool) tstep" where
  "ctrl_reserve_load env tab =
    (if a_size tab \<ge> a_capacity tab div 2 then ctrl_grow env tab
     else if (a_capacity tab - a_size tab) div 2 < t_tombstones tab then ctrl_rehash env tab
     else Some (done_with tab True))"

definition ctrl_reserve_walk :: "('v, 'k) table \<Rightarrow> 'k \<Rightarrow> u64 \<Rightarrow> ('v, 'k, int) tstep" where
  "ctrl_reserve_walk tab key hash =
     probe_loop (a_capacity tab - 1)
       (\<lambda>index insertI.
          let c = t_ctrl tab ! index in
          if c = CTRL_EMPTY then
            Inr (if isLocked tab then throw_at tab ''can't insert into locked table''
                 else let idx = (case insertI of None \<Rightarrow> index | Some j \<Rightarrow> j);
                          tab = (if insertI = None then tab else tab\<lparr>t_tombstones := t_tombstones tab - 1\<rparr>)
                   in done_with (tab\<lparr>t_ctrl := (t_ctrl tab)[idx := CTRL_OCCUPIED],
                                    t_keys := (t_keys tab)[idx := key], a_size := a_size tab + 1\<rparr>) (int idx))
          else if c = CTRL_TOMBSTONE then Inl (if insertI = None then Some index else insertI)
          else if t_keys tab ! index = key then Inr (done_with tab (int index))
          else Inl insertI)
       (unat hash AND (a_capacity tab - 1)) None"

partial_function (option) ctrl_reserve ::
    "('v, 'k) tab_env \<Rightarrow> ('v, 'k) table \<Rightarrow> 'k \<Rightarrow> u64 \<Rightarrow> ('v, 'k, int) tstep" where
  "ctrl_reserve env tab key hash =
    (if a_capacity tab = 0 then
       (if isLocked tab then Some (throw_at tab ''can't insert into locked table'')
        else tbind (ctrl_reserveInternal env tab minCapacity) (\<lambda>tab _. ctrl_reserve env tab key hash))
     else tbind (ctrl_reserve_load env tab) (\<lambda>tab _. ctrl_reserve_walk tab key hash))"

definition ctrl_erase :: "('v, 'k) tab_env \<Rightarrow> ('v, 'k) table \<Rightarrow> 'k \<Rightarrow> u64 \<Rightarrow> ('v, 'k, int) tstep" where
  "ctrl_erase env tab key hash =
    (if a_capacity tab = 0 then Some (done_with tab (-1))
     else probe_loop (a_capacity tab - 1)
       (\<lambda>index _.
          let c = t_ctrl tab ! index in
          if c = CTRL_EMPTY then Inr (done_with tab (-1))
          else if c = CTRL_OCCUPIED \<and> t_keys tab ! index = key then
            Inr (done_with (tab\<lparr>a_size := a_size tab - 1, t_tombstones := t_tombstones tab + 1,
              t_ctrl := (t_ctrl tab)[index := CTRL_TOMBSTONE],
              a_data := (a_data tab)[index := te_zero env]\<rparr>) (int index))
          else Inl ())
       (unat hash AND (a_capacity tab - 1)) ())"

section \<open>Tables with string keys\<close>

text \<open>
  The packed regime (capacity 8): keys, values and 64-bit hashes dense in \<open>[0, size)\<close>. The scan
  visits all 8 slots and compares hashes only.
\<close>

fun scan_hash64 :: "u64 list \<Rightarrow> u64 \<Rightarrow> nat list \<Rightarrow> int" where
  "scan_hash64 hashes hash [] = -1"
| "scan_hash64 hashes hash (i # is) = (if hashes ! i = hash then int i else scan_hash64 hashes hash is)"

definition PackedPolicy_find :: "('v, 'k) table \<Rightarrow> u64 \<Rightarrow> int" where
  "PackedPolicy_find tab hash = scan_hash64 (t_hash64 tab) hash [0..<TABLE_MAX_LINEAR_CAPACITY]"

definition PackedPolicy_insertHash :: "('v, 'k) table \<Rightarrow> nat \<Rightarrow> u64 \<Rightarrow> ('v, 'k) table" where
  "PackedPolicy_insertHash tab slot hash = tab\<lparr>t_hash64 := (t_hash64 tab)[slot := hash]\<rparr>"

definition PackedPolicy_moveHash :: "('v, 'k) table \<Rightarrow> nat \<Rightarrow> nat \<Rightarrow> ('v, 'k) table" where
  "PackedPolicy_moveHash tab to from = tab\<lparr>t_hash64 := (t_hash64 tab)[to := t_hash64 tab ! from]\<rparr>"

definition PackedPolicy_clearHash :: "('v, 'k) table \<Rightarrow> nat \<Rightarrow> ('v, 'k) table" where
  "PackedPolicy_clearHash tab slot = tab\<lparr>t_hash64 := (t_hash64 tab)[slot := 0]\<rparr>"

definition str_find :: "('v, 'k) table \<Rightarrow> 'k \<Rightarrow> u64 \<Rightarrow> int option" where
  "str_find tab key hash =
    (if a_capacity tab = 0 then Some (-1)
     else if a_capacity tab \<le> TABLE_MAX_LINEAR_CAPACITY then Some (PackedPolicy_find tab hash)
     else let hashKey = hashToHashKey (ucast hash) in
       probe_loop (a_capacity tab - 1)
       (\<lambda>index _.
          let kh = t_hash32 tab ! index in
          if unat kh = HASH_EMPTY64 then Inr (-1)
          else if kh = hashKey \<and> t_keys tab ! index = key then Inr (int index)
          else Inl ())
       (unat hash AND (a_capacity tab - 1)) ())"

definition str_insertNew :: "('v, 'k) table \<Rightarrow> u64 \<Rightarrow> nat option" where
  "str_insertNew tab hash =
     probe_loop (a_capacity tab - 1)
       (\<lambda>index _. if unat (t_hash32 tab ! index) = HASH_EMPTY64 then Inr index else Inl ())
       (unat hash AND (a_capacity tab - 1)) ()"

definition str_place :: "('v, 'k) table \<Rightarrow> nat \<Rightarrow> u32 \<Rightarrow> 'k \<Rightarrow> 'v \<Rightarrow> ('v, 'k) table" where
  "str_place newTab index hashKey key val = newTab\<lparr>
     t_hash32 := (t_hash32 newTab)[index := hashKey],
     t_keys := (t_keys newTab)[index := key],
     a_data := (a_data newTab)[index := val]\<rparr>"

text \<open>From a packed source the full 64-bit hash picks the new slot; from a large one only the
  stored 32-bit key does, zero-extended by the call \<open>insertNew(newTab, hash)\<close>.\<close>

fun str_move_packed :: "('v, 'k) table \<Rightarrow> nat list \<Rightarrow> ('v, 'k) table \<Rightarrow> ('v, 'k) table option" where
  "str_move_packed old [] newTab = Some newTab"
| "str_move_packed old (i # is) newTab =
    (let hash = t_hash64 old ! i in
     Option.bind (str_insertNew newTab hash) (\<lambda>index.
       str_move_packed old is (str_place newTab index (hashToHashKey (ucast hash)) (t_keys old ! i) (a_data old ! i))))"

fun str_move_large :: "('v, 'k) table \<Rightarrow> nat list \<Rightarrow> ('v, 'k) table \<Rightarrow> ('v, 'k) table option" where
  "str_move_large old [] newTab = Some newTab"
| "str_move_large old (i # is) newTab =
    (let hash = t_hash32 old ! i in
     if unat hash > HASH_KILLED64 then
       Option.bind (str_insertNew newTab (ucast hash)) (\<lambda>index.
         str_move_large old is (str_place newTab index hash (t_keys old ! i) (a_data old ! i)))
     else str_move_large old is newTab)"

definition str_newTab :: "('v, 'k) tab_env \<Rightarrow> ('v, 'k) table \<Rightarrow> nat \<Rightarrow> ('v, 'k) table" where
  "str_newTab env tab newCapacity =
     tab\<lparr>a_data := replicate newCapacity (te_zero env), a_capacity := newCapacity, a_magic := 0,
       a_tableNoHash := False, t_keys := replicate newCapacity (te_junk env), t_ctrl := [],
       t_hash64 := (if newCapacity \<le> TABLE_MAX_LINEAR_CAPACITY then replicate newCapacity 0 else []),
       t_hash32 := (if newCapacity \<le> TABLE_MAX_LINEAR_CAPACITY then [] else replicate newCapacity 0),
       t_tombstones := 0\<rparr>"

definition str_perSlot :: "('v, 'k) tab_env \<Rightarrow> nat \<Rightarrow> nat" where
  "str_perSlot env newCapacity =
     te_valueTypeSize env + te_keySize env + (if newCapacity \<le> TABLE_MAX_LINEAR_CAPACITY then 8 else 4)"

definition str_reserveInternal :: "('v, 'k) tab_env \<Rightarrow> ('v, 'k) table \<Rightarrow> nat \<Rightarrow> ('v, 'k, bool) tstep" where
  "str_reserveInternal env tab newCapacity =
    (if \<not> (newCapacity \<noteq> 0 \<and> newCapacity AND (newCapacity - 1) = 0) then
       Some (tab, Inl (VerifyFailed ''newCapacity must be a nonzero power of 2''))
     else if a_magic tab \<noteq> 0 \<or> a_lock tab \<noteq> 0 then Some (throw_at tab ''can't grow a locked table'')
     else if newCapacity > UINT64_MAX div str_perSlot env newCapacity then
       Some (throw_at tab ''can't grow table, capacity*perSlot overflows uint64'')
     else if \<not> te_grants env (newCapacity * str_perSlot env newCapacity) then Some (tab, Inl OutOfMemory)
     else let newTab = str_newTab env tab newCapacity in
       map_option (\<lambda>t. (t, Inr True))
         (if a_size tab \<noteq> 0 then
            (if a_capacity tab \<le> TABLE_MAX_LINEAR_CAPACITY then str_move_packed tab [0..<a_size tab] newTab
             else str_move_large tab [0..<a_capacity tab] newTab)
          else Some newTab))"

definition str_grow :: "('v, 'k) tab_env \<Rightarrow> ('v, 'k) table \<Rightarrow> ('v, 'k, bool) tstep" where
  "str_grow env tab =
    (if a_capacity tab > 2 ^ 62 then Some (throw_at tab ''table grow: capacity exceeds 2^62'')
     else str_reserveInternal env tab (max minCapacity (a_capacity tab * 2)))"

definition str_rehash :: "('v, 'k) tab_env \<Rightarrow> ('v, 'k) table \<Rightarrow> ('v, 'k, bool) tstep" where
  "str_rehash env tab = str_reserveInternal env tab (a_capacity tab)"

definition str_reserve_size :: "('v, 'k) tab_env \<Rightarrow> ('v, 'k) table \<Rightarrow> nat \<Rightarrow> ('v, 'k, bool) tstep" where
  "str_reserve_size env tab sz =
    (if sz \<le> a_capacity tab then Some (done_with tab True)
     else if sz > 2 ^ 62 then Some (throw_at tab ''table reserve: size exceeds 2^62'')
     else Option.bind (double_until sz (max minCapacity (a_capacity tab * 2)))
       (str_reserveInternal env tab))"

definition str_reserve_load :: "('v, 'k) tab_env \<Rightarrow> ('v, 'k) table \<Rightarrow> ('v, 'k, bool) tstep" where
  "str_reserve_load env tab =
    (if a_size tab \<ge> a_capacity tab div 2 then str_grow env tab
     else if (a_capacity tab - a_size tab) div 2 < t_tombstones tab then str_rehash env tab
     else Some (done_with tab True))"

definition str_reserve_walk :: "('v, 'k) table \<Rightarrow> 'k \<Rightarrow> u64 \<Rightarrow> ('v, 'k, int) tstep" where
  "str_reserve_walk tab key hash =
    (let hashKey = hashToHashKey (ucast hash) in
     probe_loop (a_capacity tab - 1)
       (\<lambda>index insertI.
          let kh = t_hash32 tab ! index in
          if unat kh = HASH_EMPTY64 then
            Inr (if isLocked tab then throw_at tab ''can't insert into locked table''
                 else let idx = (case insertI of None \<Rightarrow> index | Some j \<Rightarrow> j);
                          tab = (if insertI = None then tab else tab\<lparr>t_tombstones := t_tombstones tab - 1\<rparr>)
                   in done_with (tab\<lparr>t_hash32 := (t_hash32 tab)[idx := hashKey],
                                    t_keys := (t_keys tab)[idx := key], a_size := a_size tab + 1\<rparr>) (int idx))
          else if unat kh = HASH_KILLED64 then Inl (if insertI = None then Some index else insertI)
          else if kh = hashKey \<and> t_keys tab ! index = key then Inr (done_with tab (int index))
          else Inl insertI)
       (unat hash AND (a_capacity tab - 1)) None)"

definition str_append_packed :: "('v, 'k) table \<Rightarrow> 'k \<Rightarrow> u64 \<Rightarrow> (('v, 'k) table, int) step" where
  "str_append_packed tab key hash =
    (let i = a_size tab; tab = PackedPolicy_insertHash tab i hash
     in done_with (tab\<lparr>t_keys := (t_keys tab)[i := key], a_size := a_size tab + 1\<rparr>) (int i))"

partial_function (option) str_reserve ::
    "('v, 'k) tab_env \<Rightarrow> ('v, 'k) table \<Rightarrow> 'k \<Rightarrow> u64 \<Rightarrow> ('v, 'k, int) tstep" where
  "str_reserve env tab key hash =
    (if a_capacity tab \<le> TABLE_MAX_LINEAR_CAPACITY then
       (let idx = (if a_capacity tab \<noteq> 0 then PackedPolicy_find tab hash else -1) in
        if idx \<ge> 0 then Some (done_with tab idx)
        else if isLocked tab then Some (throw_at tab ''can't insert into locked table'')
        else if a_size tab \<ge> a_capacity tab then
          tbind (str_reserveInternal env tab (if a_capacity tab = 0 then minCapacity else a_capacity tab * 4))
            (\<lambda>tab _. str_reserve env tab key hash)
        else Some (str_append_packed tab key hash))
     else tbind (str_reserve_load env tab) (\<lambda>tab _. str_reserve_walk tab key hash))"

definition reserveAfterPackedMiss ::
    "('v, 'k) tab_env \<Rightarrow> ('v, 'k) table \<Rightarrow> 'k \<Rightarrow> u64 \<Rightarrow> ('v, 'k, int) tstep" where
  "reserveAfterPackedMiss env tab key hash =
    (if isLocked tab then Some (throw_at tab ''can't insert into locked table'')
     else if a_size tab \<ge> a_capacity tab then
       tbind (str_reserveInternal env tab (a_capacity tab * 4)) (\<lambda>tab _. str_reserve env tab key hash)
     else Some (str_append_packed tab key hash))"

text \<open>Erasing from a packed table moves the last live slot into the hole.\<close>

definition str_erase_packed :: "('v, 'k) tab_env \<Rightarrow> ('v, 'k) table \<Rightarrow> u64 \<Rightarrow> (('v, 'k) table, int) step" where
  "str_erase_packed env tab hash =
    (let fidx = PackedPolicy_find tab hash in
     if fidx < 0 then done_with tab (-1)
     else let i = nat fidx; last = a_size tab - 1;
              tab = (if i \<noteq> last then
                       (PackedPolicy_moveHash tab i last)\<lparr>t_keys := (t_keys tab)[i := t_keys tab ! last],
                          a_data := (a_data tab)[i := a_data tab ! last]\<rparr>
                     else tab);
              tab = PackedPolicy_clearHash tab last
       in done_with (tab\<lparr>a_data := (a_data tab)[last := te_zero env], a_size := a_size tab - 1\<rparr>) (int i))"

definition str_erase :: "('v, 'k) tab_env \<Rightarrow> ('v, 'k) table \<Rightarrow> 'k \<Rightarrow> u64 \<Rightarrow> ('v, 'k, int) tstep" where
  "str_erase env tab key hash =
    (if a_capacity tab = 0 then Some (done_with tab (-1))
     else if a_capacity tab \<le> TABLE_MAX_LINEAR_CAPACITY then Some (str_erase_packed env tab hash)
     else let hashKey = hashToHashKey (ucast hash) in
       probe_loop (a_capacity tab - 1)
       (\<lambda>index _.
          let kh = t_hash32 tab ! index in
          if unat kh = HASH_EMPTY64 then Inr (done_with tab (-1))
          else if kh = hashKey \<and> t_keys tab ! index = key then
            Inr (done_with (tab\<lparr>a_size := a_size tab - 1, t_tombstones := t_tombstones tab + 1,
              t_hash32 := (t_hash32 tab)[index := 1],
              a_data := (a_data tab)[index := te_zero env]\<rparr>) (int index))
          else Inl ())
       (unat hash AND (a_capacity tab - 1)) ())"

section \<open>The table nodes of the interpreter\<close>

text \<open>
  \<open>SimNode_Table*<KeyType>::compute\<close>, over the two instances of \<open>TableHash\<close>. The address of a
  value is named by its slot; a null pointer is \<open>None\<close>.
\<close>

definition tab_reserve :: "bool \<Rightarrow> ('v, 'k) tab_env \<Rightarrow> ('v, 'k) table \<Rightarrow> 'k \<Rightarrow> u64 \<Rightarrow> ('v, 'k, int) tstep" where
  "tab_reserve isString env = (if isString then str_reserve env else ctrl_reserve env)"

definition tab_find :: "bool \<Rightarrow> ('v, 'k) table \<Rightarrow> 'k \<Rightarrow> u64 \<Rightarrow> int option" where
  "tab_find isString = (if isString then str_find else ctrl_find)"

definition tab_erase :: "bool \<Rightarrow> ('v, 'k) tab_env \<Rightarrow> ('v, 'k) table \<Rightarrow> 'k \<Rightarrow> u64 \<Rightarrow> ('v, 'k, int) tstep" where
  "tab_erase isString env = (if isString then str_erase env else ctrl_erase env)"

definition TableIndex_compute :: "bool \<Rightarrow> ('v, 'k) tab_env \<Rightarrow> ('v, 'k) table \<Rightarrow> 'k \<Rightarrow> ('v, 'k, nat) tstep" where
  "TableIndex_compute isString env tab key =
    (if isLocked tab then Some (throw_at tab ''can't insert to a locked table'')
     else tbind (tab_reserve isString env tab key (te_hash env key)) (\<lambda>tab index. Some (done_with tab (nat index))))"

definition TableFind_compute :: "bool \<Rightarrow> ('v, 'k) tab_env \<Rightarrow> ('v, 'k) table \<Rightarrow> 'k \<Rightarrow> nat option option" where
  "TableFind_compute isString env tab key =
     map_option (\<lambda>index. if index \<noteq> -1 then Some (nat index) else None) (tab_find isString tab key (te_hash env key))"

definition SafeTableIndex_compute :: "bool \<Rightarrow> ('v, 'k) tab_env \<Rightarrow> ('v, 'k) table option \<Rightarrow> 'k \<Rightarrow> nat option option" where
  "SafeTableIndex_compute isString env tab key = (case tab of None \<Rightarrow> Some None
     | Some tab \<Rightarrow> map_option (\<lambda>index. if index \<noteq> -1 then Some (nat index) else None)
         (tab_find isString tab key (te_hash env key)))"

definition KeyExists_compute :: "bool \<Rightarrow> ('v, 'k) tab_env \<Rightarrow> ('v, 'k) table \<Rightarrow> 'k \<Rightarrow> bool option" where
  "KeyExists_compute isString env tab key =
     map_option (\<lambda>index. index \<noteq> -1) (tab_find isString tab key (te_hash env key))"

definition TableErase_compute :: "bool \<Rightarrow> ('v, 'k) tab_env \<Rightarrow> ('v, 'k) table \<Rightarrow> 'k \<Rightarrow> ('v, 'k, bool) tstep" where
  "TableErase_compute isString env tab key =
    (if isLocked tab then Some (throw_at tab ''can't erase from locked table'')
     else tbind (tab_erase isString env tab key (te_hash env key)) (\<lambda>tab r. Some (done_with tab (r \<noteq> -1))))"

definition TableSetInsert_eval :: "bool \<Rightarrow> ('v, 'k) tab_env \<Rightarrow> ('v, 'k) table \<Rightarrow> 'k \<Rightarrow> ('v, 'k, unit) tstep" where
  "TableSetInsert_eval isString env tab key =
    (if isLocked tab then Some (throw_at tab ''can't insert to a locked table'')
     else tbind (tab_reserve isString env tab key (te_hash env key)) (\<lambda>tab _. Some (done_with tab ())))"

text \<open>The dispatch of \<open>table_reserve_impl\<close> on the key's basic type.\<close>

definition table_key_types :: "das_type list" where
  "table_key_types = [tBool, tInt8, tUInt8, tInt16, tUInt16, tInt64, tUInt64, tEnumeration, tEnumeration8,
     tEnumeration16, tEnumeration64, tBitfield, tBitfield8, tBitfield16, tBitfield64, tInt, tInt2, tInt3, tInt4,
     tUInt, tUInt2, tUInt3, tUInt4, tFloat, tFloat2, tFloat3, tFloat4, tRange, tURange, tRange64, tURange64,
     tString, tPointer, tDouble]"

definition table_reserve_impl ::
    "('v, 'k) tab_env \<Rightarrow> ('v, 'k) table \<Rightarrow> das_type \<Rightarrow> nat \<Rightarrow> ('v, 'k, bool) tstep" where
  "table_reserve_impl env arr baseType newCapacity =
    (if isLocked arr then Some (throw_at arr ''can't reserve locked table'')
     else if newCapacity = 0 then Some (done_with arr True)
     else if baseType \<notin> set table_key_types then Some (throw_at arr ''usupported table reserve type'')
     else if baseType = tString then str_reserve_size env arr newCapacity
     else ctrl_reserve_size env arr newCapacity)"

section \<open>Iterating and looking a key up by its value\<close>

function nextValid :: "('v, 'k) table \<Rightarrow> nat \<Rightarrow> nat" where
  "nextValid tab index =
    (if index < a_capacity tab then (if tableLiveSlot tab index then index else nextValid tab (index + 1)) else index)"
  by auto
termination by (relation "measure (\<lambda>(tab, index). a_capacity tab - index)") auto

declare nextValid.simps [simp del]

text \<open>
  \<open>TableIterator\<close>: \<open>data\<close> is the slot number from \<open>originData\<close>, \<open>table_end\<close> is the capacity.
\<close>

definition TableIterator_first :: "('v, 'k) table \<Rightarrow> (('v, 'k) table, nat \<times> bool) step" where
  "TableIterator_first t = then_step (table_lock t) (\<lambda>t _. done_with t (nextValid t 0, a_size t \<noteq> 0))"

definition TableIterator_next :: "('v, 'k) table \<Rightarrow> nat \<Rightarrow> nat \<times> bool" where
  "TableIterator_next t data = (let index = nextValid t (data + 1) in (index, index \<noteq> a_capacity t))"

definition TableIterator_close :: "('v, 'k) table \<Rightarrow> (('v, 'k) table, unit) step" where
  "TableIterator_close t = table_unlock t"

partial_function (option) table_for_loop ::
    "('v, 'k) table \<Rightarrow> nat \<Rightarrow> (nat \<Rightarrow> 's \<Rightarrow> 's) \<Rightarrow> 's \<Rightarrow> 's option" where
  "table_for_loop t data body s =
    (let s' = body data s; (data', more) = TableIterator_next t data
     in if more then table_for_loop t data' body s' else Some s')"

definition ForWithIterator_table ::
    "('v, 'k) table \<Rightarrow> (nat \<Rightarrow> 's \<Rightarrow> 's) \<Rightarrow> 's \<Rightarrow> (('v, 'k) table, 's) step option" where
  "ForWithIterator_table t body s = (case TableIterator_first t of
      (t, Inl e) \<Rightarrow> Some (t, Inl e)
    | (t, Inr (data, needLoop)) \<Rightarrow>
        (case (if needLoop then table_for_loop t data body s else Some s) of
           None \<Rightarrow> None
         | Some s' \<Rightarrow> Some (then_step (TableIterator_close t) (\<lambda>t _. done_with t s'))))"

text \<open>\<open>builtin_table_get_key\<close>: the value pointer is given as its byte offset from \<open>tab.data\<close>.\<close>

definition builtin_table_get_key :: "('v, 'k) table \<Rightarrow> int \<Rightarrow> nat \<Rightarrow> das_error + 'k" where
  "builtin_table_get_key tab offset value_stride =
    (if offset < 0 \<or> offset \<ge> int (a_capacity tab * value_stride) then
       Inl (ThrowError ''get_key: value pointer is not inside the table'')
     else if nat offset mod value_stride \<noteq> 0 then
       Inl (ThrowError ''get_key: value pointer is not aligned to value stride'')
     else let index = nat offset div value_stride in
       if \<not> tableLiveSlot tab index then
         Inl (ThrowError ''get_key: value points to an empty or deleted table slot'')
       else Inr (t_keys tab ! index))"

end
