(* ===== verification/CtrlTable.thy ===== *)
theory CtrlTable
  imports RtTable
begin

text \<open>
  Correctness of the tables whose keys are not strings. \<open>ctrl_map\<close> is the finite map a table
  stands for; \<open>ctrl_inv\<close> says that every live key is reachable by probing from its home slot.
\<close>

definition ctrl_home :: "('v, 'k) tab_env \<Rightarrow> 'k \<Rightarrow> nat" where
  "ctrl_home env k = unat (te_hash env k)"

definition ctrl_map :: "('v, 'k) table \<Rightarrow> 'k \<Rightarrow> 'v option" where
  "ctrl_map t = store_map (t_keys t) (t_ctrl t) (a_data t)"

definition ctrl_inv :: "('v, 'k) tab_env \<Rightarrow> ('v, 'k) table \<Rightarrow> bool" where
  "ctrl_inv env t \<longleftrightarrow>
    (if a_capacity t = 0 then a_size t = 0 \<and> t_tombstones t = 0 \<and> t_ctrl t = []
     else a_tableNoHash t \<and> 8 \<le> a_capacity t \<and> length (t_ctrl t) = a_capacity t \<and> (\<forall>c\<in>set (t_ctrl t). c \<le> 2)
       \<and> store_ok (ctrl_home env) (te_zero env) (t_keys t) (t_ctrl t) (a_data t) (a_size t) (t_tombstones t))"

lemma ctrl_inv_zero [simp]: "ctrl_inv env zero_table" "ctrl_map zero_table = Map.empty"
  by (simp_all add: ctrl_inv_def ctrl_map_def zero_table_def zero_arr_def arr.defs slots_map_def slots_entries_def fun_eq_iff)

lemma ctrl_map_unallocated:
  assumes "ctrl_inv env t" "a_capacity t = 0"
  shows "ctrl_map t = Map.empty"
  using assms by (auto simp: ctrl_map_def ctrl_inv_def intro: slots_map_empty)

lemma ctrl_marks:
  fixes c :: u8
  assumes "c \<le> 2"
  shows "c = CTRL_EMPTY \<longleftrightarrow> is_empty c" "c = CTRL_OCCUPIED \<longleftrightarrow> is_live c" "CTRL_TOMBSTONE < c \<longleftrightarrow> is_live c"
    "c = CTRL_TOMBSTONE \<longleftrightarrow> \<not> is_empty c \<and> \<not> is_live c"
proof -
  have "unat c \<le> 2" using assms by (simp add: word_le_nat_alt)
  then have "unat c = 0 \<or> unat c = 1 \<or> unat c = 2" by auto
  then have "unat c = unat (0 :: u8) \<or> unat c = unat (1 :: u8) \<or> unat c = unat (2 :: u8)" by simp
  then have "c = 0 \<or> c = 1 \<or> c = 2" by (meson unsigned_word_eqI)
  then show "c = CTRL_EMPTY \<longleftrightarrow> is_empty c" "c = CTRL_OCCUPIED \<longleftrightarrow> is_live c" "CTRL_TOMBSTONE < c \<longleftrightarrow> is_live c"
    "c = CTRL_TOMBSTONE \<longleftrightarrow> \<not> is_empty c \<and> \<not> is_live c"
    by (auto simp: CTRL_EMPTY_def CTRL_OCCUPIED_def CTRL_TOMBSTONE_def is_empty_def is_live_def)
qed

lemma ctrl_mark_live [simp]: "is_live CTRL_OCCUPIED" "CTRL_OCCUPIED \<le> 2" "CTRL_EMPTY = 0"
  by (simp_all add: is_live_def CTRL_OCCUPIED_def CTRL_EMPTY_def)

lemma ctrl_inv_allocated:
  assumes "ctrl_inv env t" "a_capacity t \<noteq> 0"
  shows "store_ok (ctrl_home env) (te_zero env) (t_keys t) (t_ctrl t) (a_data t) (a_size t) (t_tombstones t)"
    "length (t_ctrl t) = a_capacity t" "8 \<le> a_capacity t" "a_tableNoHash t"
    "\<And>i. i < a_capacity t \<Longrightarrow> t_ctrl t ! i \<le> 2" "is_pow2 (a_capacity t)"
    "length (t_keys t) = a_capacity t" "length (a_data t) = a_capacity t"
  using assms by (auto simp: ctrl_inv_def store_ok_def slots_wf_def)

section \<open>Finding\<close>

lemma ctrl_find_cases:
  assumes inv: "ctrl_inv env t" and h: "hash = te_hash env k"
  shows "\<exists>r. ctrl_find t k hash = Some r \<and>
    (if r = -1 then ctrl_map t k = None
     else 0 \<le> r \<and> nat r < a_capacity t \<and> is_live (t_ctrl t ! nat r) \<and> t_keys t ! nat r = k \<and>
       ctrl_map t k = Some (a_data t ! nat r))"
proof (cases "a_capacity t = 0")
  case True
  then show ?thesis using ctrl_map_unallocated[OF inv] by (simp add: ctrl_find_def)
next
  case False
  note st = ctrl_inv_allocated[OF inv False]
  have wf: "slots_wf is_empty is_live (ctrl_home env) (t_keys t) (t_ctrl t)"
    using st(1) by (simp add: store_ok_def)
  let ?body = "\<lambda>index (_ :: unit). let c = t_ctrl t ! index in
      if c = CTRL_EMPTY then Inr (-1)
      else if c = CTRL_OCCUPIED \<and> t_keys t ! index = k then Inr (int index) else Inl ()"
  have go: "?body i () = Inl ()" if "i < length (t_ctrl t)" "\<not> stops_at is_empty is_live (t_keys t) (t_ctrl t) k i" for i
    using that ctrl_marks[OF st(5)[of i]] st(2) by (auto simp: stops_at_def Let_def)
  obtain j where j: "j < length (t_ctrl t)" "stops_at is_empty is_live (t_keys t) (t_ctrl t) k j"
    "is_empty (t_ctrl t ! j) \<longleftrightarrow> (\<forall>i<length (t_ctrl t). is_live (t_ctrl t ! i) \<longrightarrow> t_keys t ! i \<noteq> k)"
    "\<And>r. ?body j () = Inr r \<Longrightarrow> probe_loop (length (t_ctrl t) - 1) ?body (ctrl_home env k AND (length (t_ctrl t) - 1)) () = Some r"
    using probe_search_unit[where body = ?body and k = k, OF wf go] by blast
  have m: "t_ctrl t ! j \<le> 2" using st(5) j(1) st(2) by simp
  have run: "ctrl_find t k hash = Some (if is_empty (t_ctrl t ! j) then -1 else int j)"
  proof -
    have "?body j () = Inr (if is_empty (t_ctrl t ! j) then -1 else int j)"
      using j(2) ctrl_marks[OF m] by (auto simp: stops_at_def Let_def)
    from j(4)[OF this] show ?thesis
      using False by (simp add: ctrl_find_def st(2) h ctrl_home_def)
  qed
  show ?thesis
  proof (cases "is_empty (t_ctrl t ! j)")
    case True
    with j(3) run store_lookup(2)[OF st(1), of k] show ?thesis by (simp add: ctrl_map_def)
  next
    case False
    with j(2) have "is_live (t_ctrl t ! j)" "t_keys t ! j = k" by (auto simp: stops_at_def)
    with False j(1) run store_lookup(1)[OF st(1), of k "a_data t ! j"] show ?thesis
      by (auto simp: ctrl_map_def st(2))
  qed
qed

section \<open>Moving into a fresh block\<close>

lemma ctrl_insertNew_ok:
  assumes ok: "store_ok (ctrl_home env) z ks hs vs n 0" and t: "t_ctrl t = hs" "a_capacity t = length hs"
  shows "\<exists>j<length hs. ctrl_insertNew t h = Some j \<and> is_empty (hs ! j) \<and>
    (\<forall>d<probe_dist (length hs) (unat h) j. \<not> is_empty (hs ! ((unat h + d) mod length hs)))"
  using store_first_empty[OF ok, of "\<lambda>index _. if hs ! index = CTRL_EMPTY then Inr index else Inl ()" "unat h" "()"]
  by (simp add: ctrl_insertNew_def t is_empty_def)

definition moved :: "('v, 'k) table \<Rightarrow> nat list \<Rightarrow> ('k \<times> 'v) list" where
  "moved old is = [(t_keys old ! i, a_data old ! i). i \<leftarrow> is, is_live (t_ctrl old ! i)]"

lemma ctrl_move_ok:
  assumes old: "distinct_live is_live (t_keys old) (t_ctrl old)" "\<And>i. i < length (t_ctrl old) \<Longrightarrow> t_ctrl old ! i \<le> 2"
  shows "distinct is \<Longrightarrow> \<forall>i\<in>set is. i < length (t_ctrl old) \<Longrightarrow>
    store_ok (ctrl_home env) z (t_keys new) (t_ctrl new) (a_data new) n 0 \<Longrightarrow>
    a_capacity new = length (t_ctrl new) \<Longrightarrow> \<forall>c\<in>set (t_ctrl new). c \<le> 2 \<Longrightarrow>
    \<forall>i\<in>set is. is_live (t_ctrl old ! i) \<longrightarrow> store_map (t_keys new) (t_ctrl new) (a_data new) (t_keys old ! i) = None \<Longrightarrow>
    n + length (moved old is) < length (t_ctrl new) \<Longrightarrow>
    \<exists>hs ks vs. ctrl_move env old is new = Some (new\<lparr>t_ctrl := hs, t_keys := ks, a_data := vs\<rparr>) \<and>
      length hs = length (t_ctrl new) \<and> (\<forall>c\<in>set hs. c \<le> 2) \<and>
      store_ok (ctrl_home env) z ks hs vs (n + length (moved old is)) 0 \<and>
      store_map ks hs vs = store_map (t_keys new) (t_ctrl new) (a_data new) ++ map_of (moved old is)"
proof (induction "is" arbitrary: new n)
  case Nil
  then show ?case
    by (intro exI[of _ "t_ctrl new"] exI[of _ "t_keys new"] exI[of _ "a_data new"]) (simp add: moved_def)
next
  case (Cons i "is")
  have ci: "i < length (t_ctrl old)" and mi: "t_ctrl old ! i \<le> 2" using Cons.prems(2) old(2) by auto
  show ?case
  proof (cases "is_live (t_ctrl old ! i)")
    case False
    have "ctrl_move env old (i # is) new = ctrl_move env old is new"
      using False ctrl_marks(3)[OF mi] by simp
    moreover have "moved old (i # is) = moved old is" using False by (simp add: moved_def)
    ultimately show ?thesis using Cons.IH[of new n] Cons.prems by simp
  next
    case True
    let ?k = "t_keys old ! i" and ?v = "a_data old ! i" and ?c = "length (t_ctrl new)"
    note ok = Cons.prems(3)
    obtain j where j: "j < ?c" "ctrl_insertNew new (te_hash env ?k) = Some j" "is_empty (t_ctrl new ! j)"
      "\<And>d. d < probe_dist ?c (ctrl_home env ?k) j \<Longrightarrow> \<not> is_empty (t_ctrl new ! ((ctrl_home env ?k + d) mod ?c))"
      using ctrl_insertNew_ok[OF ok, of new "te_hash env ?k"] Cons.prems(4) by (auto simp: ctrl_home_def)
    have mv: "moved old (i # is) = (?k, ?v) # moved old is" using True by (simp add: moved_def)
    let ?new = "new\<lparr>t_ctrl := (t_ctrl new)[j := CTRL_OCCUPIED], t_keys := (t_keys new)[j := ?k], a_data := (a_data new)[j := ?v]\<rparr>"
    have run: "ctrl_move env old (i # is) new = ctrl_move env old is ?new"
      using True j(2) ctrl_marks(3)[OF mi] by simp
    have nl: "\<not> is_live (t_ctrl new ! j)" using j(3) live_not_empty by blast
    have fresh: "\<forall>x<?c. is_live (t_ctrl new ! x) \<longrightarrow> t_keys new ! x \<noteq> ?k"
      using Cons.prems(6) True store_lookup(2)[OF ok] by simp
    have room: "n + 0 + 1 < ?c" using Cons.prems(7) mv by simp
    note ins = store_insert[OF ok j(1) nl j(4) fresh ctrl_mark_live(1) room, of ?v]
    have ok': "store_ok (ctrl_home env) z (t_keys ?new) (t_ctrl ?new) (a_data ?new) (n + 1) 0"
      using ins(1) j(3) by simp
    have map': "store_map (t_keys ?new) (t_ctrl ?new) (a_data ?new) =
        (store_map (t_keys new) (t_ctrl new) (a_data new))(?k \<mapsto> ?v)"
      using ins(2) by simp
    have disj: "\<forall>x\<in>set is. is_live (t_ctrl old ! x) \<longrightarrow> t_keys old ! x \<noteq> ?k"
    proof (intro ballI impI)
      fix x assume x: "x \<in> set is" "is_live (t_ctrl old ! x)"
      then have "x \<noteq> i" "x < length (t_ctrl old)" using Cons.prems(1,2) by auto
      with old(1) True ci x show "t_keys old ! x \<noteq> ?k" unfolding distinct_live_def by blast
    qed
    have le2: "\<forall>c\<in>set (t_ctrl ?new). c \<le> 2"
      using Cons.prems(5) set_update_subset_insert[of "t_ctrl new" j CTRL_OCCUPIED] by auto
    have none: "\<forall>x\<in>set is. is_live (t_ctrl old ! x) \<longrightarrow>
        store_map (t_keys ?new) (t_ctrl ?new) (a_data ?new) (t_keys old ! x) = None"
      using Cons.prems(6) disj unfolding map' by simp
    have len: "length (t_ctrl ?new) = ?c" "a_capacity ?new = length (t_ctrl ?new)" using Cons.prems(4) by simp_all
    have dk: "?k \<notin> dom (map_of (moved old is))"
      using disj by (auto simp: moved_def dom_map_of_conv_image_fst)
    have room': "n + 1 + length (moved old is) < length (t_ctrl ?new)" using Cons.prems(7) mv by simp
    have d: "distinct is" "\<forall>x\<in>set is. x < length (t_ctrl old)" using Cons.prems(1,2) by auto
    obtain hs ks vs where r: "ctrl_move env old is ?new = Some (?new\<lparr>t_ctrl := hs, t_keys := ks, a_data := vs\<rparr>)"
      "length hs = length (t_ctrl ?new)" "\<forall>c\<in>set hs. c \<le> 2"
      "store_ok (ctrl_home env) z ks hs vs (n + 1 + length (moved old is)) 0"
      "store_map ks hs vs = store_map (t_keys ?new) (t_ctrl ?new) (a_data ?new) ++ map_of (moved old is)"
      using Cons.IH[OF d ok' len(2) le2 none room'] by blast
    have "store_map ks hs vs = store_map (t_keys new) (t_ctrl new) (a_data new) ++ map_of (moved old (i # is))"
      unfolding r(5) map' mv using map_add_upd_left[OF dk] by simp
    moreover have "ctrl_move env old (i # is) new = Some (new\<lparr>t_ctrl := hs, t_keys := ks, a_data := vs\<rparr>)"
      unfolding run r(1) by simp
    moreover have "length hs = length (t_ctrl new)"
      "store_ok (ctrl_home env) z ks hs vs (n + length (moved old (i # is))) 0"
      using r(2,4) mv by simp_all
    ultimately show ?thesis using r(3) by blast
  qed
qed

lemma moved_all: "moved t [0..<length (t_ctrl t)] = slots_entries is_live (t_keys t) (t_ctrl t) (a_data t)"
  by (simp add: moved_def slots_entries_def)

lemma length_slots_entries: "length (slots_entries L ks hs vs) = count_if L hs"
proof -
  have "length (concat (map (\<lambda>i. if L (hs ! i) then [(ks ! i, vs ! i)] else []) is)) =
      length (filter L (map (\<lambda>i. hs ! i) is))" for "is"
    by (induction "is") auto
  from this[of "[0..<length hs]"] show ?thesis
    unfolding slots_entries_def count_if_def map_nth by simp
qed

section \<open>Reallocation\<close>

text \<open>
  \<open>reserveInternal\<close> into a block that holds all entries with room to spare: either it throws
  and the table is as before, or the table has the new capacity, no tombstones and the same map.
\<close>

lemma ctrl_reserveInternal_cases:
  assumes inv: "ctrl_inv env t" and cap: "is_pow2 newCap" "8 \<le> newCap" "a_size t < newCap"
  shows "(\<exists>e. ctrl_reserveInternal env t newCap = Some (t, Inl e)) \<or>
    (\<exists>t'. ctrl_reserveInternal env t newCap = Some (t', Inr True) \<and> a_magic t = 0 \<and> a_lock t = 0 \<and>
      ctrl_inv env t' \<and> a_capacity t' = newCap \<and> a_size t' = a_size t \<and> t_tombstones t' = 0 \<and>
      a_lock t' = 0 \<and> a_magic t' = 0 \<and> a_shared t' = a_shared t \<and> a_hopeless t' = a_hopeless t \<and> ctrl_map t' = ctrl_map t)"
proof (cases "(a_magic t \<noteq> 0 \<or> a_lock t \<noteq> 0) \<or>
    newCap > UINT64_MAX div (te_valueTypeSize env + te_keySize env + 1) \<or>
    \<not> te_grants env (newCap * (te_valueTypeSize env + te_keySize env + 1))")
  case True
  then show ?thesis
    using pow2_test[OF cap(1)] cap(2) by (auto simp: ctrl_reserveInternal_def throw_at_def Let_def)
next
  case False
  let ?new = "ctrl_newTab env t newCap"
  have run: "ctrl_reserveInternal env t newCap = map_option (\<lambda>t. (t, Inr True))
      (if a_size t \<noteq> 0 then ctrl_move env t [0..<a_capacity t] ?new else Some ?new)"
    using False pow2_test[OF cap(1)] cap(2) by (auto simp: ctrl_reserveInternal_def Let_def)
  note emp = store_ok_empty[OF cap(1), where ks = "replicate newCap (te_junk env)" and z = "te_zero env"
      and vs = "replicate newCap (te_zero env)"]
  have ok: "store_ok (ctrl_home env) (te_zero env) (t_keys ?new) (t_ctrl ?new) (a_data ?new) 0 0"
    and map0: "store_map (t_keys ?new) (t_ctrl ?new) (a_data ?new) = Map.empty"
    using emp by (simp_all add: ctrl_newTab_def)
  have flds: "a_capacity ?new = newCap" "a_size ?new = a_size t" "a_lock ?new = a_lock t" "a_magic ?new = 0"
    "a_shared ?new = a_shared t" "a_hopeless ?new = a_hopeless t" "a_tableNoHash ?new" "t_tombstones ?new = 0"
    "length (t_ctrl ?new) = newCap" "\<forall>c\<in>set (t_ctrl ?new). c \<le> 2"
    by (auto simp: ctrl_newTab_def)
  show ?thesis
  proof (cases "a_size t = 0")
    case True
    have "ctrl_inv env ?new" using ok flds cap True by (simp add: ctrl_inv_def)
    moreover have "ctrl_map t = Map.empty"
    proof (cases "a_capacity t = 0")
      case False
      note st = ctrl_inv_allocated[OF inv False]
      have "count_if is_live (t_ctrl t) = 0" using st(1) True by (simp add: store_ok_def)
      then have "\<forall>i<length (t_ctrl t). \<not> is_live (t_ctrl t ! i)"
        using count_if_pos[of is_live "t_ctrl t"] by auto
      then show ?thesis unfolding ctrl_map_def by (intro slots_map_empty) simp
    qed (rule ctrl_map_unallocated[OF inv])
    ultimately show ?thesis using run True False flds map0 by (simp add: ctrl_map_def)
  next
    case nz: False
    have capt: "a_capacity t \<noteq> 0" using inv nz by (cases "a_capacity t = 0") (auto simp: ctrl_inv_def)
    note st = ctrl_inv_allocated[OF inv capt]
    have dl: "distinct_live is_live (t_keys t) (t_ctrl t)"
      using st(1) slots_wf_distinct by (auto simp: store_ok_def)
    have len: "length (moved t [0..<length (t_ctrl t)]) = a_size t"
      using st(1) by (simp add: moved_all length_slots_entries store_ok_def)
    obtain hs ks vs where r: "ctrl_move env t [0..<a_capacity t] ?new = Some (?new\<lparr>t_ctrl := hs, t_keys := ks, a_data := vs\<rparr>)"
      "length hs = length (t_ctrl ?new)" "\<forall>c\<in>set hs. c \<le> 2"
      "store_ok (ctrl_home env) (te_zero env) ks hs vs (0 + length (moved t [0..<length (t_ctrl t)])) 0"
      "store_map ks hs vs = store_map (t_keys ?new) (t_ctrl ?new) (a_data ?new) ++ map_of (moved t [0..<length (t_ctrl t)])"
      using ctrl_move_ok[of t "[0..<length (t_ctrl t)]" env "te_zero env" ?new 0, OF dl]
        st(2,5) ok flds map0 len cap by auto
    let ?t' = "?new\<lparr>t_ctrl := hs, t_keys := ks, a_data := vs\<rparr>"
    have "ctrl_inv env ?t'" using r(2-4) len flds cap by (simp add: ctrl_inv_def)
    moreover have "ctrl_map ?t' = ctrl_map t"
      using r(5) map0 by (simp add: ctrl_map_def moved_all slots_map_def)
    ultimately show ?thesis using run r(1) nz False flds by auto
  qed
qed

section \<open>Reserving\<close>

lemma ctrl_reserve_walk_cases:
  assumes inv: "ctrl_inv env t" and cap: "a_capacity t \<noteq> 0" and h: "hash = te_hash env k"
    and room: "a_size t + t_tombstones t + 1 < a_capacity t"
  shows "(\<exists>i<a_capacity t. ctrl_reserve_walk t k hash = Some (t, Inr (int i)) \<and> is_live (t_ctrl t ! i) \<and> t_keys t ! i = k
        \<and> ctrl_map t k = Some (a_data t ! i)) \<or>
    (ctrl_map t k = None \<and> isLocked t \<and> (\<exists>e. ctrl_reserve_walk t k hash = Some (t, Inl e))) \<or>
    (ctrl_map t k = None \<and> \<not> isLocked t \<and> (\<exists>t' i. ctrl_reserve_walk t k hash = Some (t', Inr (int i)) \<and> i < a_capacity t'
        \<and> ctrl_inv env t' \<and> a_capacity t' = a_capacity t \<and> is_live (t_ctrl t' ! i) \<and> t_keys t' ! i = k \<and>
        a_size t' = a_size t + 1 \<and> a_lock t' = a_lock t \<and> a_magic t' = a_magic t \<and>
        a_shared t' = a_shared t \<and> a_hopeless t' = a_hopeless t \<and> ctrl_map t' = (ctrl_map t)(k \<mapsto> te_zero env)))"
proof -
  note st = ctrl_inv_allocated[OF inv cap]
  note ok = st(1)
  let ?c = "length (t_ctrl t)" and ?hs = "t_ctrl t"
  define body where "body = (\<lambda>index insertI.
      let c = t_ctrl t ! index in
      if c = CTRL_EMPTY then
        Inr (if isLocked t then throw_at t ''can't insert into locked table''
             else let idx = (case insertI of None \<Rightarrow> index | Some j \<Rightarrow> j);
                      tab = (if insertI = None then t else t\<lparr>t_tombstones := t_tombstones t - 1\<rparr>)
               in done_with (tab\<lparr>t_ctrl := (t_ctrl tab)[idx := CTRL_OCCUPIED],
                                t_keys := (t_keys tab)[idx := k], a_size := a_size tab + 1\<rparr>) (int idx))
      else if c = CTRL_TOMBSTONE then Inl (if insertI = None then Some index else insertI)
      else if t_keys t ! index = k then Inr (done_with t (int index))
      else Inl insertI)"
  have eq: "ctrl_reserve_walk t k hash = probe_loop (?c - 1) body (ctrl_home env k AND (?c - 1)) None"
    unfolding ctrl_reserve_walk_def body_def h ctrl_home_def st(2) by simp
  have go: "body i s = Inl (remember_tomb ?hs i s)"
    if "i < ?c" "\<not> stops_at is_empty is_live (t_keys t) ?hs k i" for i s
    using that ctrl_marks[OF st(5)[of i]] st(2) by (auto simp: body_def stops_at_def remember_tomb_def Let_def)
  show ?thesis
  proof (rule store_reserve_walk[where body = body and k = k, OF ok go])
    fix j assume j: "j < ?c" "is_live (?hs ! j)" "t_keys t ! j = k"
      and run: "\<And>r. (\<And>s. body j s = Inr r) \<Longrightarrow> probe_loop (?c - 1) body (ctrl_home env k AND (?c - 1)) None = Some r"
    have m: "?hs ! j \<le> 2" using st(2,5) j(1) by simp
    have "body j s = Inr (done_with t (int j))" for s
      using j ctrl_marks[OF m] live_not_empty[OF j(2)] by (auto simp: body_def Let_def)
    from run[OF this] j eq store_lookup(1)[OF ok, of k "a_data t ! j"] show ?thesis
      by (auto simp: done_with_def ctrl_map_def st(2))
  next
    fix j i s
    assume j: "j < ?c" "is_empty (?hs ! j)" and fresh: "\<forall>i<?c. is_live (?hs ! i) \<longrightarrow> t_keys t ! i \<noteq> k"
      and i: "i = (case s of None \<Rightarrow> j | Some x \<Rightarrow> x)" "i < ?c" "\<not> is_live (?hs ! i)"
      and es: "is_empty (?hs ! i) \<longleftrightarrow> s = None"
      and path: "\<And>x. x < probe_dist ?c (ctrl_home env k) i \<Longrightarrow> \<not> is_empty (?hs ! ((ctrl_home env k + x) mod ?c))"
      and run: "\<And>r. body j s = Inr r \<Longrightarrow> probe_loop (?c - 1) body (ctrl_home env k AND (?c - 1)) None = Some r"
    have m: "?hs ! j \<le> 2" using st(2,5) j(1) by simp
    have none: "ctrl_map t k = None" using fresh store_lookup(2)[OF ok, of k] by (simp add: ctrl_map_def)
    show ?thesis
    proof (cases "isLocked t")
      case True
      then have "body j s = Inr (throw_at t ''can't insert into locked table'')"
        using j(2) ctrl_marks[OF m] by (simp add: body_def Let_def)
      from run[OF this] eq none True show ?thesis by (simp add: throw_at_def)
    next
      case nl: False
      have same: "(a_data t)[i := te_zero env] = a_data t"
        using ok i(2,3) by (simp add: store_ok_def) (metis list_update_id)
      note ins = store_insert[OF ok i(2,3) path fresh ctrl_mark_live(1), of "te_zero env", unfolded same]
      let ?t' = "(if s = None then t else t\<lparr>t_tombstones := t_tombstones t - 1\<rparr>)
        \<lparr>t_ctrl := ?hs[i := CTRL_OCCUPIED], t_keys := (t_keys t)[i := k], a_size := a_size t + 1\<rparr>"
      have "body j s = Inr (done_with ?t' (int i))"
        using j(2) nl ctrl_marks[OF m] by (simp add: body_def Let_def i(1) split: option.splits)
      note r = run[OF this]
      have "\<forall>c\<in>set (?hs[i := CTRL_OCCUPIED]). c \<le> 2"
        using inv cap set_update_subset_insert[of ?hs i CTRL_OCCUPIED] by (auto simp: ctrl_inv_def)
      then have "ctrl_inv env ?t'"
        using ins(1) es st room by (cases s) (simp_all add: ctrl_inv_def)
      moreover have "ctrl_map ?t' = (ctrl_map t)(k \<mapsto> te_zero env)"
        using ins(2) room st(2) by (simp add: ctrl_map_def)
      moreover have "is_live (t_ctrl ?t' ! i)" "t_keys ?t' ! i = k" using i(2) st(2,7) by simp_all
      ultimately show ?thesis using r eq none nl i(2) st(2) by (simp add: done_with_def)
    qed
  qed
qed

lemma ctrl_reserve_load_cases:
  assumes inv: "ctrl_inv env t" and cap: "a_capacity t \<noteq> 0"
  shows "(\<exists>e. ctrl_reserve_load env t = Some (t, Inl e)) \<or>
    (\<exists>t'. ctrl_reserve_load env t = Some (t', Inr True) \<and> ctrl_inv env t' \<and> a_capacity t' \<noteq> 0 \<and>
      a_size t' + t_tombstones t' + 1 < a_capacity t' \<and> a_size t' = a_size t \<and>
      a_lock t' = a_lock t \<and> a_magic t' = a_magic t \<and> a_shared t' = a_shared t \<and> a_hopeless t' = a_hopeless t \<and>
      ctrl_map t' = ctrl_map t \<and> (a_lock t \<noteq> 0 \<longrightarrow> t' = t))"
proof -
  note st = ctrl_inv_allocated[OF inv cap]
  have lt: "a_size t < a_capacity t" using store_counts(2)[OF st(1)] st(2) by simp
  show ?thesis
  proof (cases "a_size t \<ge> a_capacity t div 2")
    case True
    have mx: "max minCapacity (a_capacity t * 2) = a_capacity t * 2" using st(3) by (simp add: minCapacity_def)
    have p: "is_pow2 (a_capacity t * 2)" "8 \<le> a_capacity t * 2" "a_size t < a_capacity t * 2"
      using is_pow2_double[OF st(6)] st(3) lt by auto
    show ?thesis
    proof (cases "a_capacity t > 2 ^ 62")
      case True
      with \<open>a_size t \<ge> a_capacity t div 2\<close> show ?thesis
        by (simp add: ctrl_reserve_load_def ctrl_grow_def throw_at_def)
    next
      case False
      then have "ctrl_reserve_load env t = ctrl_reserveInternal env t (a_capacity t * 2)"
        using True mx by (simp add: ctrl_reserve_load_def ctrl_grow_def)
      with ctrl_reserveInternal_cases[OF inv p] lt st(3) show ?thesis by fastforce
    qed
  next
    case False
    show ?thesis
    proof (cases "(a_capacity t - a_size t) div 2 < t_tombstones t")
      case True
      then have "ctrl_reserve_load env t = ctrl_reserveInternal env t (a_capacity t)"
        using False by (simp add: ctrl_reserve_load_def ctrl_rehash_def)
      with ctrl_reserveInternal_cases[OF inv st(6,3) lt] False st(3) show ?thesis by fastforce
    next
      case nt: False
      have "ctrl_reserve_load env t = Some (t, Inr True)"
        using False nt by (simp add: ctrl_reserve_load_def done_with_def)
      moreover have "a_size t + t_tombstones t + 1 < a_capacity t" using False nt st(3) by linarith
      ultimately show ?thesis using inv cap by simp
    qed
  qed
qed

text \<open>What \<open>reserve\<close> hands back: the slot of the key, in a table that maps the key as before or to zero.\<close>

definition reserved_in :: "('v, 'k) tab_env \<Rightarrow> ('v, 'k) table \<Rightarrow> 'k \<Rightarrow> ('v, 'k) table \<Rightarrow> int \<Rightarrow> bool" where
  "reserved_in env t k t' r \<longleftrightarrow> ctrl_inv env t' \<and> 0 \<le> r \<and> nat r < a_capacity t' \<and> is_live (t_ctrl t' ! nat r) \<and>
     t_keys t' ! nat r = k \<and>
     ctrl_map t' = (if ctrl_map t k = None then (ctrl_map t)(k \<mapsto> te_zero env) else ctrl_map t) \<and>
     a_lock t' = a_lock t \<and> a_magic t' = a_magic t \<and> a_shared t' = a_shared t \<and> a_hopeless t' = a_hopeless t"

lemma ctrl_reserve_allocated:
  assumes inv: "ctrl_inv env t" and cap: "a_capacity t \<noteq> 0" and h: "hash = te_hash env k"
  shows "\<exists>t' r. ctrl_reserve env t k hash = Some (t', r) \<and>
    (case r of Inl e \<Rightarrow> ctrl_inv env t' \<and> ctrl_map t' = ctrl_map t \<and> (a_lock t = 0 \<longrightarrow> t' = t)
     | Inr i \<Rightarrow> reserved_in env t k t' i) \<and> (isLocked t \<longrightarrow> t' = t)"
proof -
  have run: "ctrl_reserve env t k hash = tbind (ctrl_reserve_load env t) (\<lambda>tab _. ctrl_reserve_walk tab k hash)"
    using cap by (subst ctrl_reserve.simps) simp
  from ctrl_reserve_load_cases[OF inv cap] show ?thesis
  proof
    assume "\<exists>e. ctrl_reserve_load env t = Some (t, Inl e)"
    with run inv show ?thesis by auto
  next
    assume "\<exists>t'. ctrl_reserve_load env t = Some (t', Inr True) \<and> ctrl_inv env t' \<and> a_capacity t' \<noteq> 0 \<and>
      a_size t' + t_tombstones t' + 1 < a_capacity t' \<and> a_size t' = a_size t \<and>
      a_lock t' = a_lock t \<and> a_magic t' = a_magic t \<and> a_shared t' = a_shared t \<and> a_hopeless t' = a_hopeless t \<and>
      ctrl_map t' = ctrl_map t \<and> (a_lock t \<noteq> 0 \<longrightarrow> t' = t)"
    then obtain u where u: "ctrl_reserve_load env t = Some (u, Inr True)" "ctrl_inv env u" "a_capacity u \<noteq> 0"
      "a_size u + t_tombstones u + 1 < a_capacity u" "ctrl_map u = ctrl_map t" "a_lock t \<noteq> 0 \<longrightarrow> u = t"
      "a_lock u = a_lock t" "a_magic u = a_magic t" "a_shared u = a_shared t" "a_hopeless u = a_hopeless t" by blast
    have run': "ctrl_reserve env t k hash = ctrl_reserve_walk u k hash" using run u(1) by simp
    from ctrl_reserve_walk_cases[OF u(2,3) h u(4)] show ?thesis
    proof (elim disjE exE conjE)
      fix i assume "i < a_capacity u" "ctrl_reserve_walk u k hash = Some (u, Inr (int i))" "is_live (t_ctrl u ! i)"
        "t_keys u ! i = k" "ctrl_map u k = Some (a_data u ! i)"
      with run' u show ?thesis by (auto simp: reserved_in_def isLocked_def)
    next
      fix e assume "ctrl_map u k = None" "isLocked u" "ctrl_reserve_walk u k hash = Some (u, Inl e)"
      with run' u show ?thesis by (auto simp: isLocked_def)
    next
      fix t' i assume "ctrl_map u k = None" "\<not> isLocked u" "ctrl_reserve_walk u k hash = Some (t', Inr (int i))"
        "i < a_capacity t'" "ctrl_inv env t'" "is_live (t_ctrl t' ! i)" "t_keys t' ! i = k"
        "a_lock t' = a_lock u" "a_magic t' = a_magic u" "a_shared t' = a_shared u" "a_hopeless t' = a_hopeless u"
        "ctrl_map t' = (ctrl_map u)(k \<mapsto> te_zero env)"
      with run' u show ?thesis by (auto simp: reserved_in_def isLocked_def)
    qed
  qed
qed

lemma ctrl_reserve_cases:
  assumes inv: "ctrl_inv env t" and h: "hash = te_hash env k"
  shows "\<exists>t' r. ctrl_reserve env t k hash = Some (t', r) \<and>
    (case r of Inl e \<Rightarrow> ctrl_inv env t' \<and> ctrl_map t' = ctrl_map t \<and> a_lock t' = a_lock t | Inr i \<Rightarrow> reserved_in env t k t' i) \<and>
    (isLocked t \<longrightarrow> t' = t)"
proof (cases "a_capacity t = 0")
  case False
  from ctrl_reserve_allocated[OF inv False h] show ?thesis by (elim exE conjE) (auto simp: isLocked_def split: sum.splits)
next
  case True
  show ?thesis
  proof (cases "isLocked t")
    case True
    with \<open>a_capacity t = 0\<close> inv show ?thesis by (subst ctrl_reserve.simps) (auto simp: throw_at_def)
  next
    case False
    have run: "ctrl_reserve env t k hash =
        tbind (ctrl_reserveInternal env t minCapacity) (\<lambda>tab _. ctrl_reserve env tab k hash)"
      using True False by (subst ctrl_reserve.simps) simp
    have p: "is_pow2 minCapacity" "8 \<le> minCapacity" "a_size t < minCapacity"
      using inv True by (auto simp: minCapacity_def ctrl_inv_def)
    from ctrl_reserveInternal_cases[OF inv p] show ?thesis
    proof
      assume "\<exists>e. ctrl_reserveInternal env t minCapacity = Some (t, Inl e)"
      with run inv show ?thesis by auto
    next
      assume "\<exists>t'. ctrl_reserveInternal env t minCapacity = Some (t', Inr True) \<and> a_magic t = 0 \<and> a_lock t = 0 \<and>
        ctrl_inv env t' \<and> a_capacity t' = minCapacity \<and> a_size t' = a_size t \<and> t_tombstones t' = 0 \<and>
        a_lock t' = 0 \<and> a_magic t' = 0 \<and> a_shared t' = a_shared t \<and> a_hopeless t' = a_hopeless t \<and> ctrl_map t' = ctrl_map t"
      then obtain u where u: "ctrl_reserveInternal env t minCapacity = Some (u, Inr True)" "a_magic t = 0" "a_lock t = 0"
        "ctrl_inv env u" "a_capacity u \<noteq> 0" "a_lock u = 0" "a_magic u = 0" "a_shared u = a_shared t"
        "a_hopeless u = a_hopeless t" "ctrl_map u = ctrl_map t"
        by (auto simp: minCapacity_def)
      have same: "reserved_in env u k v i = reserved_in env t k v i" for v i
        using u(2,3,6-) by (simp add: reserved_in_def)
      have "ctrl_reserve env t k hash = ctrl_reserve env u k hash" using run u(1) by simp
      with ctrl_reserve_allocated[OF u(4,5) h] u(3,6,10) False show ?thesis
        unfolding same by (fastforce split: sum.splits)
    qed
  qed
qed

section \<open>Erasing\<close>

lemma ctrl_erase_cases:
  assumes inv: "ctrl_inv env t" and h: "hash = te_hash env k"
  shows "\<exists>t' r. ctrl_erase env t k hash = Some (t', Inr r) \<and> ctrl_inv env t' \<and> a_capacity t' = a_capacity t \<and>
    ctrl_map t' = (ctrl_map t)(k := None) \<and> (r = -1 \<longleftrightarrow> ctrl_map t k = None) \<and> (r = -1 \<longrightarrow> t' = t) \<and>
    a_lock t' = a_lock t \<and> a_magic t' = a_magic t \<and> a_shared t' = a_shared t \<and> a_hopeless t' = a_hopeless t"
proof (cases "a_capacity t = 0")
  case True
  then show ?thesis using ctrl_map_unallocated[OF inv] inv by (simp add: ctrl_erase_def done_with_def)
next
  case False
  note st = ctrl_inv_allocated[OF inv False]
  have wf: "slots_wf is_empty is_live (ctrl_home env) (t_keys t) (t_ctrl t)"
    using st(1) by (simp add: store_ok_def)
  let ?del = "\<lambda>i. t\<lparr>a_size := a_size t - 1, t_tombstones := t_tombstones t + 1,
              t_ctrl := (t_ctrl t)[i := CTRL_TOMBSTONE], a_data := (a_data t)[i := te_zero env]\<rparr>"
  let ?body = "\<lambda>index (_ :: unit). let c = t_ctrl t ! index in
          if c = CTRL_EMPTY then Inr (done_with t (-1))
          else if c = CTRL_OCCUPIED \<and> t_keys t ! index = k then Inr (done_with (?del index) (int index))
          else Inl ()"
  have go: "?body i () = Inl ()" if "i < length (t_ctrl t)" "\<not> stops_at is_empty is_live (t_keys t) (t_ctrl t) k i" for i
    using that ctrl_marks[OF st(5)[of i]] st(2) by (auto simp: stops_at_def Let_def)
  obtain j where j: "j < length (t_ctrl t)" "stops_at is_empty is_live (t_keys t) (t_ctrl t) k j"
    "is_empty (t_ctrl t ! j) \<longleftrightarrow> (\<forall>i<length (t_ctrl t). is_live (t_ctrl t ! i) \<longrightarrow> t_keys t ! i \<noteq> k)"
    "\<And>r. ?body j () = Inr r \<Longrightarrow> probe_loop (length (t_ctrl t) - 1) ?body (ctrl_home env k AND (length (t_ctrl t) - 1)) () = Some r"
    using probe_search_unit[where body = ?body and k = k, OF wf go] by blast
  have run: "ctrl_erase env t k hash = Some r" if "?body j () = Inr r" for r
    using j(4)[OF that] False unfolding ctrl_erase_def st(2) h ctrl_home_def by simp
  have m: "t_ctrl t ! j \<le> 2" using st(5) j(1) st(2) by simp
  show ?thesis
  proof (cases "is_empty (t_ctrl t ! j)")
    case True
    then have "?body j () = Inr (done_with t (-1))" using ctrl_marks[OF m] by (simp add: Let_def)
    moreover have "ctrl_map t k = None" using True j(3) store_lookup(2)[OF st(1), of k] by (simp add: ctrl_map_def)
    ultimately show ?thesis using run inv by (auto simp: done_with_def fun_upd_idem)
  next
    case ne: False
    with j(2) have l: "is_live (t_ctrl t ! j)" "t_keys t ! j = k" by (auto simp: stops_at_def)
    then have "?body j () = Inr (done_with (?del j) (int j))" using ne ctrl_marks[OF m] by (simp add: Let_def)
    note r = run[OF this]
    note er = store_erase[OF st(1) j(1) l(1)]
    have "\<forall>c\<in>set ((t_ctrl t)[j := CTRL_TOMBSTONE]). c \<le> 2"
      using inv False set_update_subset_insert[of "t_ctrl t" j CTRL_TOMBSTONE]
      by (auto simp: ctrl_inv_def CTRL_TOMBSTONE_def)
    then have "ctrl_inv env (?del j)" using er(1) st by (simp add: ctrl_inv_def CTRL_TOMBSTONE_def)
    moreover have "ctrl_map (?del j) = (ctrl_map t)(k := None)"
      using er(2) l(2) by (simp add: ctrl_map_def CTRL_TOMBSTONE_def)
    moreover have "ctrl_map t k \<noteq> None" using ne j(3) store_lookup(2)[OF st(1), of k] by (simp add: ctrl_map_def)
    ultimately show ?thesis using r by (simp add: done_with_def)
  qed
qed

end
