(* ===== verification/MapTable.thy ===== *)
theory MapTable
  imports RtTable
begin

text \<open>
  What the interpreter relies on when it evaluates \<open>t[k] = v\<close>, \<open>t?[k]\<close>, \<open>key_exists\<close> and
  \<open>erase\<close> on a table, stated as a finite-map contract of the table nodes. The client of the
  contract is a script's sequence of table accesses: run on the nodes it gives the answers a
  finite map would give, and when a node throws, the table stands for the map as it was after
  the accesses before the throw.
\<close>

datatype ('k, 'v) access = Put 'k 'v | Touch 'k | Get 'k | Has 'k | Del 'k

datatype 'v answer = Done | Value "'v option" | Truth bool

text \<open>\<open>t[k] = v\<close> and \<open>t[k]\<close> evaluate \<open>TableIndex\<close> first; the assignment writes to the slot it names.\<close>

definition table_load :: "('v, 'k) table \<Rightarrow> nat \<Rightarrow> 'v" where
  "table_load t i = a_data t ! i"

definition table_store :: "('v, 'k) table \<Rightarrow> nat \<Rightarrow> 'v \<Rightarrow> ('v, 'k) table" where
  "table_store t i v = t\<lparr>a_data := (a_data t)[i := v]\<rparr>"

fun access_key :: "('k, 'v) access \<Rightarrow> 'k" where
  "access_key (Put k v) = k" | "access_key (Touch k) = k" | "access_key (Get k) = k"
| "access_key (Has k) = k" | "access_key (Del k) = k"

definition run_access :: "bool \<Rightarrow> ('v, 'k) tab_env \<Rightarrow> ('k, 'v) access \<Rightarrow> ('v, 'k) table \<Rightarrow> ('v, 'k, 'v answer) tstep" where
  "run_access isString env op t = (case op of
      Put k v \<Rightarrow> tbind (TableIndex_compute isString env t k) (\<lambda>t i. Some (done_with (table_store t i v) Done))
    | Touch k \<Rightarrow> tbind (TableIndex_compute isString env t k) (\<lambda>t i. Some (done_with t (Value (Some (table_load t i)))))
    | Get k \<Rightarrow> map_option (\<lambda>r. done_with t (Value (map_option (table_load t) r))) (TableFind_compute isString env t k)
    | Has k \<Rightarrow> map_option (\<lambda>b. done_with t (Truth b)) (KeyExists_compute isString env t k)
    | Del k \<Rightarrow> tbind (TableErase_compute isString env t k) (\<lambda>t b. Some (done_with t (Truth b))))"

fun run_accesses :: "bool \<Rightarrow> ('v, 'k) tab_env \<Rightarrow> ('k, 'v) access list \<Rightarrow> ('v, 'k) table \<Rightarrow> ('v, 'k, 'v answer list) tstep" where
  "run_accesses isString env [] t = Some (done_with t [])"
| "run_accesses isString env (op # ops) t =
    tbind (run_access isString env op t) (\<lambda>t a. tbind (run_accesses isString env ops t) (\<lambda>t as. Some (done_with t (a # as))))"

text \<open>The specification: the same accesses on a finite map whose missing values are zero.\<close>

fun map_access :: "'v \<Rightarrow> ('k, 'v) access \<Rightarrow> ('k \<Rightarrow> 'v option) \<Rightarrow> ('k \<Rightarrow> 'v option) \<times> 'v answer" where
  "map_access z (Put k v) m = (m(k \<mapsto> v), Done)"
| "map_access z (Touch k) m = (case m k of None \<Rightarrow> (m(k \<mapsto> z), Value (Some z)) | Some v \<Rightarrow> (m, Value (Some v)))"
| "map_access z (Get k) m = (m, Value (m k))"
| "map_access z (Has k) m = (m, Truth (m k \<noteq> None))"
| "map_access z (Del k) m = (m(k := None), Truth (m k \<noteq> None))"

fun map_accesses :: "'v \<Rightarrow> ('k, 'v) access list \<Rightarrow> ('k \<Rightarrow> 'v option) \<Rightarrow> ('k \<Rightarrow> 'v option) \<times> 'v answer list" where
  "map_accesses z [] m = (m, [])"
| "map_accesses z (op # ops) m =
    (let (m', a) = map_access z op m; (m'', as) = map_accesses z ops m' in (m'', a # as))"

locale table_contract =
  fixes isString :: bool
    and env :: "('v, 'k) tab_env"
    and keys :: "'k set"
    and good :: "('v, 'k) table \<Rightarrow> bool"
    and holds :: "('v, 'k) table \<Rightarrow> 'k \<Rightarrow> nat \<Rightarrow> bool"
    and amap :: "('v, 'k) table \<Rightarrow> 'k \<Rightarrow> 'v option"
  assumes find_law: "good t \<Longrightarrow> k \<in> keys \<Longrightarrow>
      \<exists>r. tab_find isString t k (te_hash env k) = Some r \<and>
        (if r = -1 then amap t k = None else 0 \<le> r \<and> holds t k (nat r))"
    and index_law: "good t \<Longrightarrow> k \<in> keys \<Longrightarrow>
      \<exists>t' r. TableIndex_compute isString env t k = Some (t', r) \<and> good t' \<and>
        (case r of Inl e \<Rightarrow> amap t' = amap t
         | Inr i \<Rightarrow> holds t' k i \<and> amap t' = (if amap t k = None then (amap t)(k \<mapsto> te_zero env) else amap t))"
    and erase_law: "good t \<Longrightarrow> k \<in> keys \<Longrightarrow>
      \<exists>t'. TableErase_compute isString env t k = Some (t', Inr (amap t k \<noteq> None)) \<and> good t' \<and> amap t' = (amap t)(k := None)"
    and load_law: "good t \<Longrightarrow> holds t k i \<Longrightarrow> amap t k = Some (table_load t i)"
    and store_law: "good t \<Longrightarrow> holds t k i \<Longrightarrow> good (table_store t i v) \<and> amap (table_store t i v) = (amap t)(k \<mapsto> v)"
begin

lemma access_refines:
  assumes t: "good t" and k: "access_key op \<in> keys"
  shows "\<exists>t' r. run_access isString env op t = Some (t', r) \<and> good t' \<and>
    (case r of Inl e \<Rightarrow> amap t' = amap t | Inr a \<Rightarrow> (amap t', a) = map_access (te_zero env) op (amap t))"
proof (cases op)
  case (Put k v)
  from index_law[OF t, of k] k Put obtain t' r where r: "TableIndex_compute isString env t k = Some (t', r)" "good t'"
    "case r of Inl e \<Rightarrow> amap t' = amap t
     | Inr i \<Rightarrow> holds t' k i \<and> amap t' = (if amap t k = None then (amap t)(k \<mapsto> te_zero env) else amap t)" by auto
  then show ?thesis
    using Put store_law[of t' k _ v] by (cases r) (auto simp: run_access_def done_with_def fun_eq_iff split: if_splits)
next
  case (Touch k)
  from index_law[OF t, of k] k Touch obtain t' r where r: "TableIndex_compute isString env t k = Some (t', r)" "good t'"
    "case r of Inl e \<Rightarrow> amap t' = amap t
     | Inr i \<Rightarrow> holds t' k i \<and> amap t' = (if amap t k = None then (amap t)(k \<mapsto> te_zero env) else amap t)" by auto
  then show ?thesis
    using Touch load_law[of t' k] by (cases r) (auto simp: run_access_def done_with_def split: if_splits option.splits)
next
  case (Get k)
  with k have "k \<in> keys" by simp
  from find_law[OF t this] obtain r where r: "tab_find isString t k (te_hash env k) = Some r"
    "if r = -1 then amap t k = None else 0 \<le> r \<and> holds t k (nat r)" by blast
  then have "TableFind_compute isString env t k = Some (if r = -1 then None else Some (nat r))"
    "amap t k = map_option (table_load t) (if r = -1 then None else Some (nat r))"
    using load_law[OF t, of k] by (auto simp: TableFind_compute_def split: if_splits)
  with Get t show ?thesis by (simp add: run_access_def done_with_def)
next
  case (Has k)
  with k have "k \<in> keys" by simp
  from find_law[OF t this] obtain r where r: "tab_find isString t k (te_hash env k) = Some r"
    "if r = -1 then amap t k = None else 0 \<le> r \<and> holds t k (nat r)" by blast
  then have "KeyExists_compute isString env t k = Some (amap t k \<noteq> None)"
    using load_law[OF t, of k] by (auto simp: KeyExists_compute_def split: if_splits)
  with Has t show ?thesis by (simp add: run_access_def done_with_def)
next
  case (Del k)
  from erase_law[OF t, of k] k Del show ?thesis
    by (auto simp: run_access_def done_with_def)
qed

lemma accesses_refine:
  assumes "good t" "\<forall>op\<in>set ops. access_key op \<in> keys"
  shows "\<exists>t' r. run_accesses isString env ops t = Some (t', r) \<and> good t' \<and>
    (case r of Inl e \<Rightarrow> \<exists>n<length ops. amap t' = fst (map_accesses (te_zero env) (take n ops) (amap t))
     | Inr as \<Rightarrow> (amap t', as) = map_accesses (te_zero env) ops (amap t))"
  using assms
proof (induction ops arbitrary: t)
  case Nil
  then show ?case by (simp add: done_with_def)
next
  case (Cons op ops)
  from access_refines[of t op] Cons.prems obtain t1 r where r: "run_access isString env op t = Some (t1, r)" "good t1"
    "case r of Inl e \<Rightarrow> amap t1 = amap t | Inr a \<Rightarrow> (amap t1, a) = map_access (te_zero env) op (amap t)" by auto
  show ?case
  proof (cases r)
    case (Inl e)
    with r show ?thesis by (auto intro!: exI[of _ 0])
  next
    case (Inr a)
    with r(3) have a: "map_access (te_zero env) op (amap t) = (amap t1, a)" by simp
    from Cons.IH[OF r(2)] Cons.prems obtain t2 q where q: "run_accesses isString env ops t1 = Some (t2, q)" "good t2"
      "case q of Inl e \<Rightarrow> \<exists>n<length ops. amap t2 = fst (map_accesses (te_zero env) (take n ops) (amap t1))
       | Inr as \<Rightarrow> (amap t2, as) = map_accesses (te_zero env) ops (amap t1)" by auto
    show ?thesis
    proof (cases q)
      case (Inl e)
      with q obtain n where "n < length ops" "amap t2 = fst (map_accesses (te_zero env) (take n ops) (amap t1))" by auto
      then have "Suc n < length (op # ops)"
        "amap t2 = fst (map_accesses (te_zero env) (take (Suc n) (op # ops)) (amap t))"
        by (simp_all add: a split_beta)
      with Inl q r(1) \<open>r = Inr a\<close> show ?thesis by (auto simp: done_with_def)
    next
      case (Inr as)
      with q(3) have "map_accesses (te_zero env) ops (amap t1) = (amap t2, as)" by simp
      with a Inr q r(1) \<open>r = Inr a\<close> show ?thesis by (auto simp: done_with_def)
    qed
  qed
qed

end

end
