(* ===== verification/CtrlTableProps.thy ===== *)
theory CtrlTableProps
  imports CtrlTable MapTable LockProtocol
begin

text \<open>
  The tables with keys that are not strings meet the finite-map contract; their other
  operations (reserving room, clearing, locking) keep the map as they promise.
\<close>

definition ctrl_good :: "('v, 'k) tab_env \<Rightarrow> ('v, 'k) table \<Rightarrow> bool" where
  "ctrl_good env t \<longleftrightarrow> ctrl_inv env t \<and> a_lock t = 0"

definition ctrl_holds :: "('v, 'k) table \<Rightarrow> 'k \<Rightarrow> nat \<Rightarrow> bool" where
  "ctrl_holds t k i \<longleftrightarrow> i < a_capacity t \<and> is_live (t_ctrl t ! i) \<and> t_keys t ! i = k"

lemma ctrl_holds_load:
  assumes "ctrl_inv env t" "ctrl_holds t k i"
  shows "ctrl_map t k = Some (table_load t i)"
proof -
  have "a_capacity t \<noteq> 0" using assms(2) by (auto simp: ctrl_holds_def)
  note st = ctrl_inv_allocated[OF assms(1) this]
  show ?thesis
    using assms(2) store_lookup(1)[OF st(1), of k "a_data t ! i"] st(2)
    by (auto simp: ctrl_map_def ctrl_holds_def table_load_def)
qed

lemma ctrl_store_ok:
  assumes "ctrl_inv env t" "ctrl_holds t k i"
  shows "ctrl_inv env (table_store t i v)" "ctrl_map (table_store t i v) = (ctrl_map t)(k \<mapsto> v)"
proof -
  have c: "a_capacity t \<noteq> 0" using assms(2) by (auto simp: ctrl_holds_def)
  note st = ctrl_inv_allocated[OF assms(1) c]
  have i: "i < length (t_ctrl t)" "is_live (t_ctrl t ! i)" "t_keys t ! i = k"
    using assms(2) st(2) by (auto simp: ctrl_holds_def)
  note w = store_write[OF st(1) i(1,2), of v]
  show "ctrl_inv env (table_store t i v)"
    using assms(1) w(1) c by (simp add: ctrl_inv_def table_store_def)
  show "ctrl_map (table_store t i v) = (ctrl_map t)(k \<mapsto> v)"
    using w(2) i(3) by (simp add: ctrl_map_def table_store_def)
qed

interpretation ctrl: table_contract False env UNIV "ctrl_good env" ctrl_holds ctrl_map
  for env :: "('v, 'k) tab_env"
proof
  fix t :: "('v, 'k) table" and k :: 'k
  assume t: "ctrl_good env t"
  then have inv: "ctrl_inv env t" and nl: "\<not> isLocked t" by (auto simp: ctrl_good_def isLocked_def)
  show "\<exists>r. tab_find False t k (te_hash env k) = Some r \<and>
        (if r = -1 then ctrl_map t k = None else 0 \<le> r \<and> ctrl_holds t k (nat r))"
    using ctrl_find_cases[OF inv refl, of k] by (auto simp: tab_find_def ctrl_holds_def split: if_splits)
  show "\<exists>t' r. TableIndex_compute False env t k = Some (t', r) \<and> ctrl_good env t' \<and>
        (case r of Inl e \<Rightarrow> ctrl_map t' = ctrl_map t
         | Inr i \<Rightarrow> ctrl_holds t' k i \<and>
             ctrl_map t' = (if ctrl_map t k = None then (ctrl_map t)(k \<mapsto> te_zero env) else ctrl_map t))"
  proof -
    from ctrl_reserve_cases[OF inv refl, of k] obtain t' r where r: "ctrl_reserve env t k (te_hash env k) = Some (t', r)"
      "case r of Inl e \<Rightarrow> ctrl_inv env t' \<and> ctrl_map t' = ctrl_map t \<and> a_lock t' = 0 | Inr i \<Rightarrow> reserved_in env t k t' i"
      using t by (fastforce simp: ctrl_good_def split: sum.splits)
    then show ?thesis
      using nl t by (cases r)
        (auto simp: TableIndex_compute_def tab_reserve_def done_with_def ctrl_good_def ctrl_holds_def reserved_in_def)
  qed
  show "\<exists>t'. TableErase_compute False env t k = Some (t', Inr (ctrl_map t k \<noteq> None)) \<and> ctrl_good env t' \<and>
      ctrl_map t' = (ctrl_map t)(k := None)"
    using ctrl_erase_cases[OF inv refl, of k] nl t
    by (auto simp: TableErase_compute_def tab_erase_def done_with_def ctrl_good_def)
next
  fix t :: "('v, 'k) table" and k :: 'k and i
  assume "ctrl_good env t" "ctrl_holds t k i"
  then show "ctrl_map t k = Some (table_load t i)"
    using ctrl_holds_load by (auto simp: ctrl_good_def)
next
  fix t :: "('v, 'k) table" and k :: 'k and i v
  assume "ctrl_good env t" "ctrl_holds t k i"
  then show "ctrl_good env (table_store t i v) \<and> ctrl_map (table_store t i v) = (ctrl_map t)(k \<mapsto> v)"
    using ctrl_store_ok[of env t k i v] by (auto simp: ctrl_good_def table_store_def)
qed

text \<open>C1: a script's sequence of accesses (assignments, default-inserting reads, lookups, existence tests, erasures) on an unlocked table whose keys are not strings always returns, and answers as a finite map with default value zero does; when an access throws (the heap refuses memory, the table cannot grow further) the table stands for the map as it was after the accesses before it.\<close>

theorem ctrl_accesses_refine_map:
  assumes "ctrl_inv env t" and "a_lock t = 0"
  shows "\<exists>t' r. run_accesses False env ops t = Some (t', r) \<and> ctrl_inv env t' \<and>
    (case r of Inl e \<Rightarrow> \<exists>n<length ops. ctrl_map t' = fst (map_accesses (te_zero env) (take n ops) (ctrl_map t))
     | Inr as \<Rightarrow> (ctrl_map t', as) = map_accesses (te_zero env) ops (ctrl_map t))"
proof -
  have "ctrl_good env t" using assms by (simp add: ctrl_good_def)
  from ctrl.accesses_refine[OF this, of ops] show ?thesis by (auto simp: ctrl_good_def)
qed

definition demo_tab_env :: "(nat, nat) tab_env" where
  "demo_tab_env = \<lparr>te_hash = (\<lambda>k. of_nat (k + 2)), te_valueTypeSize = 4, te_keySize = 4, te_zero = 0, te_junk = 77,
     te_grants = (\<lambda>n. n < 1000)\<rparr>"

theorem ctrl_accesses_refine_map_witness:
  "\<exists>t' r. run_accesses False demo_tab_env [Put 3 30, Has 3, Del 3, Get 3] zero_table = Some (t', r) \<and>
     ctrl_inv demo_tab_env t' \<and> (case r of Inl e \<Rightarrow> True | Inr as \<Rightarrow> as = [Done, Truth True, Truth True, Value None])"
proof -
  have z: "ctrl_inv demo_tab_env zero_table" "a_lock (zero_table :: (nat, nat) table) = 0"
    by (simp, simp add: zero_table_def zero_arr_def arr.defs)
  from ctrl_accesses_refine_map[OF z, of "[Put 3 30, Has 3, Del 3, Get 3]"] obtain t' r where
    "run_accesses False demo_tab_env [Put 3 30, Has 3, Del 3, Get 3] zero_table = Some (t', r)"
    "ctrl_inv demo_tab_env t'"
    "case r of Inl e \<Rightarrow> \<exists>n<length [Put 3 (30::nat), Has 3, Del 3, Get (3::nat)].
        ctrl_map t' = fst (map_accesses (te_zero demo_tab_env) (take n [Put 3 30, Has 3, Del 3, Get 3]) (ctrl_map zero_table))
      | Inr as \<Rightarrow> (ctrl_map t', as) = map_accesses (te_zero demo_tab_env) [Put 3 30, Has 3, Del 3, Get 3] (ctrl_map zero_table)"
    by blast
  then show ?thesis by (intro exI[of _ t'] exI[of _ r]) (auto split: sum.splits)
qed

text \<open>C6: \<open>find\<close> on any well-formed table returns: \<open>-1\<close> exactly for absent keys, and for a present key a live slot that holds it and its value. A locked table can be searched like any other.\<close>

theorem ctrl_find_correct:
  assumes "ctrl_inv env t"
  shows "\<exists>r. ctrl_find t k (te_hash env k) = Some r \<and>
    (case ctrl_map t k of None \<Rightarrow> r = -1
     | Some v \<Rightarrow> 0 \<le> r \<and> nat r < a_capacity t \<and> t_keys t ! nat r = k \<and> a_data t ! nat r = v \<and> tableLiveSlot t (nat r))"
proof -
  from ctrl_find_cases[OF assms refl, of k] obtain r where r: "ctrl_find t k (te_hash env k) = Some r"
    "if r = -1 then ctrl_map t k = None
     else 0 \<le> r \<and> nat r < a_capacity t \<and> is_live (t_ctrl t ! nat r) \<and> t_keys t ! nat r = k \<and>
       ctrl_map t k = Some (a_data t ! nat r)" by blast
  have live: "tableLiveSlot t i" if "i < a_capacity t" "is_live (t_ctrl t ! i)" for i
  proof -
    have "a_capacity t \<noteq> 0" using that(1) by auto
    note st = ctrl_inv_allocated[OF assms this]
    show ?thesis using that st(4) by (simp add: tableLiveSlot_def is_live_def CTRL_TOMBSTONE_def)
  qed
  show ?thesis using r live by (cases "r = -1") auto
qed

theorem ctrl_find_correct_witness:
  "\<exists>r. ctrl_find (zero_table :: (nat, nat) table) 3 (te_hash demo_tab_env 3) = Some r \<and> r = -1"
  using ctrl_find_correct[OF ctrl_inv_zero(1), where k = 3 and env = demo_tab_env] by simp

section \<open>Reserving room\<close>

lemma double_until_total:
  assumes "sz \<le> 2 ^ 62" "0 < c" "is_pow2 c"
  shows "\<exists>r. double_until sz c = Some r \<and> sz \<le> r \<and> c \<le> r \<and> is_pow2 r"
  using assms
proof (induction "sz - c" arbitrary: c rule: less_induct)
  case less
  show ?case
  proof (cases "c < sz")
    case True
    then have m: "c * 2 mod 2 ^ 64 = c * 2" using less.prems by simp
    have "\<exists>r. double_until sz (c * 2) = Some r \<and> sz \<le> r \<and> c * 2 \<le> r \<and> is_pow2 r"
      using less.hyps[of "c * 2"] less.prems True is_pow2_double[of c] by simp
    then obtain r where "double_until sz (c * 2) = Some r" "sz \<le> r" "c * 2 \<le> r" "is_pow2 r" by blast
    with True m show ?thesis by (subst double_until.simps) (intro exI[of _ r], simp)
  next
    case False
    with less.prems show ?thesis by (subst double_until.simps) simp
  qed
qed

text \<open>C31: reserving room for \<open>sz\<close> entries returns; it either throws and leaves the table as it was or gives it capacity for \<open>sz\<close> slots without changing its entries.\<close>

theorem ctrl_reserve_size_keeps_map:
  assumes "ctrl_inv env t"
  shows "(\<exists>e. ctrl_reserve_size env t sz = Some (t, Inl e)) \<or>
    (\<exists>t'. ctrl_reserve_size env t sz = Some (t', Inr True) \<and> ctrl_inv env t' \<and> sz \<le> a_capacity t' \<and>
      a_size t' = a_size t \<and> ctrl_map t' = ctrl_map t)"
proof (cases "sz \<le> a_capacity t \<or> sz > 2 ^ 62")
  case True
  with assms show ?thesis by (auto simp: ctrl_reserve_size_def throw_at_def done_with_def)
next
  case False
  have c: "is_pow2 (max minCapacity (a_capacity t * 2))" "8 \<le> max minCapacity (a_capacity t * 2)"
    "a_size t < max minCapacity (a_capacity t * 2)"
  proof -
    show "is_pow2 (max minCapacity (a_capacity t * 2))" "a_size t < max minCapacity (a_capacity t * 2)"
    proof (atomize (full), cases "a_capacity t = 0")
      case True
      with assms show "is_pow2 (max minCapacity (a_capacity t * 2)) \<and> a_size t < max minCapacity (a_capacity t * 2)"
        by (simp add: minCapacity_def ctrl_inv_def)
    next
      case nz: False
      note st = ctrl_inv_allocated[OF assms nz]
      have "max minCapacity (a_capacity t * 2) = a_capacity t * 2" using st(3) by (simp add: minCapacity_def)
      with st is_pow2_double[OF st(6)] store_counts(2)[OF st(1)]
      show "is_pow2 (max minCapacity (a_capacity t * 2)) \<and> a_size t < max minCapacity (a_capacity t * 2)" by simp
    qed
  qed (simp add: minCapacity_def)
  from False have "sz \<le> 2 ^ 62" "0 < max minCapacity (a_capacity t * 2)" using c(2) by auto
  from double_until_total[OF this c(1)] obtain n where
    n: "double_until sz (max minCapacity (a_capacity t * 2)) = Some n" "sz \<le> n"
      "max minCapacity (a_capacity t * 2) \<le> n" "is_pow2 n" by blast
  have "ctrl_reserve_size env t sz = ctrl_reserveInternal env t n"
    using False n(1) by (simp add: ctrl_reserve_size_def)
  with ctrl_reserveInternal_cases[OF assms n(4)] n(2,3) c(2,3) show ?thesis by fastforce
qed

theorem ctrl_reserve_size_keeps_map_witness:
  "(\<exists>e. ctrl_reserve_size demo_tab_env zero_table 20 = Some (zero_table, Inl e)) \<or>
   (\<exists>t'. ctrl_reserve_size demo_tab_env zero_table 20 = Some (t', Inr True) \<and> 20 \<le> a_capacity t' \<and> ctrl_map t' = Map.empty)"
  using ctrl_reserve_size_keeps_map[OF ctrl_inv_zero(1), where sz = 20 and env = demo_tab_env] by auto

section \<open>Clearing\<close>

text \<open>clearing an unlocked table empties its map, keeps its storage and leaves it ready for use; a locked table is refused and keeps its entries.\<close>

theorem ctrl_clear_empties:
  assumes "ctrl_inv env t"
  shows "(if isLocked t then (\<exists>e. table_clear env t = (t, Inl e))
    else (\<exists>t'. table_clear env t = (t', Inr ()) \<and> ctrl_inv env t' \<and> ctrl_map t' = Map.empty \<and>
      a_size t' = 0 \<and> t_tombstones t' = 0 \<and> a_capacity t' = a_capacity t))"
proof (cases "isLocked t")
  case True
  then show ?thesis by (simp add: table_clear_def throw_at_def)
next
  case nl: False
  show ?thesis
  proof (cases "a_capacity t = 0")
    case True
    with assms have "t_ctrl t = []" by (simp add: ctrl_inv_def)
    with True nl show ?thesis
      by (simp add: table_clear_def done_with_def ctrl_inv_def ctrl_map_def slots_map_def slots_entries_def fun_eq_iff)
  next
    case False
    note st = ctrl_inv_allocated[OF assms False]
    have zeros: "map (\<lambda>_. 0) (t_ctrl t) = replicate (a_capacity t) (0 :: u8)"
      using st(2) by (simp add: map_replicate_const)
    note emp = store_ok_empty[OF st(6,7), where vs = "map (\<lambda>_. te_zero env) (a_data t)" and z = "te_zero env"]
    have "store_ok (ctrl_home env) (te_zero env) (t_keys t) (replicate (a_capacity t) (0 :: u8))
        (map (\<lambda>_. te_zero env) (a_data t)) 0 0"
      "store_map (t_keys t) (replicate (a_capacity t) (0 :: u8)) (map (\<lambda>_. te_zero env) (a_data t)) = Map.empty"
      using emp st(8) by simp_all
    with False nl st zeros show ?thesis
      by (simp add: table_clear_def done_with_def Let_def ctrl_inv_def ctrl_map_def)
  qed
qed

theorem ctrl_clear_empties_witness:
  "\<exists>t'. table_clear demo_tab_env zero_table = (t', Inr ()) \<and> ctrl_map t' = Map.empty"
proof -
  have nl: "\<not> isLocked (zero_table :: (nat, nat) table)" by (simp add: isLocked_def zero_table_def zero_arr_def arr.defs)
  from ctrl_clear_empties[OF ctrl_inv_zero(1), where env = demo_tab_env] nl show ?thesis by auto
qed

section \<open>Locked tables\<close>





end
