(* ===== verification/TableIteration.thy ===== *)
theory TableIteration
  imports CtrlTable LockProtocol
begin

text \<open>
  Locking and iterating tables, for every regime: the lock protocol of the shared contract, the
  walk of \<open>TableIterator\<close> over the live slots, and the way back from a value to its key.
\<close>

section \<open>The lock protocol\<close>

definition tab_lock_sound :: "('v, 'k) table \<Rightarrow> bool" where
  "tab_lock_sound t \<longleftrightarrow> \<not> a_shared t \<and> \<not> a_hopeless t \<and>
     a_magic t = (if a_lock t = 0 then 0 else DAS_ARRAY_MAGIC)"

definition tab_lock_depth :: "('v, 'k) table \<Rightarrow> nat" where
  "tab_lock_depth t = unat (a_lock t)"

interpretation tab_lock: lock_protocol table_lock table_unlock tab_lock_depth tab_lock_sound UINT32_MAX
proof
  fix a :: "('a, 'b) table"
  assume a: "tab_lock_sound a" "tab_lock_depth a < UINT32_MAX"
  note w = lock_word_inc[of "a_lock a", OF a(2)[unfolded tab_lock_depth_def]]
  show "\<exists>s'. table_lock a = (s', Inr ()) \<and> tab_lock_sound s' \<and> tab_lock_depth s' = Suc (tab_lock_depth a)
      \<and> table_unlock s' = (a, Inr ())"
    using a(1) w
    by (cases "a_lock a = 0")
      (auto simp: table_lock_def table_unlock_def done_with_def Let_def tab_lock_sound_def tab_lock_depth_def)
next
  fix a :: "('a, 'b) table"
  assume "tab_lock_sound a" "tab_lock_depth a = 0"
  then show "\<exists>e. table_unlock a = (a, Inl e)"
    by (auto simp: table_unlock_def throw_at_def tab_lock_sound_def tab_lock_depth_def unat_eq_zero)
next
  fix a :: "('a, 'b) table"
  assume a: "tab_lock_sound a" "tab_lock_depth a = UINT32_MAX"
  then have "a_lock a + 1 = 0" "a_lock a \<noteq> 0"
    using lock_word_full[of "a_lock a"] by (auto simp: tab_lock_depth_def UINT32_MAX_def)
  then show "\<exists>s' e. table_lock a = (s', Inl e)"
    using a(1) by (auto simp: table_lock_def throw_at_def Let_def tab_lock_sound_def)
qed

text \<open>any run of lock and unlock requests that stays in range succeeds on an unlocked table, leaves it locked exactly while locks are outstanding, and restores it when balanced; a run that leaves the range is stopped with an error.\<close>

theorem table_lock_runs:
  assumes "tab_lock_sound t" and "a_lock t = 0"
  shows "(case lock_height UINT32_MAX ops 0 of
      Some m \<Rightarrow> (\<exists>t'. lock_run table_lock table_unlock ops t = (t', Inr ()) \<and> (isLocked t' \<longleftrightarrow> m \<noteq> 0) \<and> (m = 0 \<longrightarrow> t' = t))
    | None \<Rightarrow> (\<exists>t' e. lock_run table_lock table_unlock ops t = (t', Inl e)))"
proof -
  have d: "tab_lock_depth t = 0" using assms by (simp add: tab_lock_depth_def)
  show ?thesis
  proof (cases "lock_height UINT32_MAX ops 0")
    case None
    then show ?thesis using tab_lock.run_fails_out_of_range[OF assms(1) d None] by simp
  next
    case (Some m)
    from tab_lock.run_from_unlocked[OF assms(1) d Some] show ?thesis
      using Some by (auto simp: isLocked_def tab_lock_depth_def unat_gt_0)
  qed
qed

lemma zero_table_fields [simp]:
  "a_data zero_table = []" "a_size zero_table = 0" "a_capacity zero_table = 0" "a_lock zero_table = 0"
  "a_magic zero_table = 0" "\<not> a_shared zero_table" "\<not> a_hopeless zero_table" "\<not> a_tableNoHash zero_table"
  "t_keys zero_table = []" "t_ctrl zero_table = []" "t_hash64 zero_table = []" "t_hash32 zero_table = []"
  "t_tombstones zero_table = 0"
  by (simp_all add: zero_table_def zero_arr_def arr.defs)

theorem table_lock_runs_witness:
  "\<exists>t' e. lock_run table_lock table_unlock [Lock, Unlock, Unlock] (zero_table :: (nat, nat) table) = (t', Inl e)"
proof -
  have s: "tab_lock_sound (zero_table :: (nat, nat) table)" "a_lock (zero_table :: (nat, nat) table) = 0"
    by (simp_all add: tab_lock_sound_def)
  have h: "lock_height UINT32_MAX [Lock, Unlock, Unlock] 0 = None" by (simp add: UINT32_MAX_def)
  from table_lock_runs[OF s, of "[Lock, Unlock, Unlock]"] h show ?thesis by auto
qed

section \<open>Iteration\<close>

definition live_slots :: "('v, 'k) table \<Rightarrow> nat list" where
  "live_slots t = filter (tableLiveSlot t) [0..<a_capacity t]"

lemma nextValid_spec:
  "filter (tableLiveSlot t) [i..<a_capacity t] =
    (if nextValid t i < a_capacity t then nextValid t i # filter (tableLiveSlot t) [Suc (nextValid t i)..<a_capacity t] else [])"
  "i \<le> a_capacity t \<Longrightarrow> nextValid t i \<le> a_capacity t"
  "i \<le> nextValid t i"
proof (atomize (full), induction t i rule: nextValid.induct)
  case (1 t i)
  then show ?case
    by (subst (1 2 3 4 5) nextValid.simps) (auto simp: upt_conv_Cons)
qed

lemma table_for_loop_fold:
  assumes "d < a_capacity t" "filter (tableLiveSlot t) [d..<a_capacity t] = d # ds"
  shows "table_for_loop t d body s = Some (fold body (d # ds) s)"
  using assms
proof (induction ds arbitrary: d s)
  case Nil
  have "d \<in> set (filter (tableLiveSlot t) [d..<a_capacity t])" unfolding Nil.prems(2) by simp
  then have "tableLiveSlot t d" by simp
  then have "filter (tableLiveSlot t) [Suc d..<a_capacity t] = []"
    using Nil by (auto simp: upt_conv_Cons)
  then have "nextValid t (d + 1) = a_capacity t"
    using nextValid_spec(1)[of t "d + 1"] nextValid_spec(2)[of "d + 1" t] Nil.prems(1) by (auto split: if_splits)
  then show ?case by (subst table_for_loop.simps) (simp add: TableIterator_next_def Let_def)
next
  case (Cons e ds)
  have "d \<in> set (filter (tableLiveSlot t) [d..<a_capacity t])" unfolding Cons.prems(2) by simp
  then have "tableLiveSlot t d" by simp
  then have f: "filter (tableLiveSlot t) [d + 1..<a_capacity t] = e # ds"
    using Cons.prems by (auto simp: upt_conv_Cons)
  then have e: "nextValid t (d + 1) = e" "e < a_capacity t" "d + 1 \<le> e"
    using nextValid_spec(1)[of t "d + 1"] nextValid_spec(3)[of "d + 1" t] by (auto split: if_splits)
  have "filter (tableLiveSlot t) [e..<a_capacity t] = e # ds"
  proof -
    have "e \<in> set (filter (tableLiveSlot t) [d + 1..<a_capacity t])" unfolding f by simp
    then have "tableLiveSlot t e" by simp
    then show ?thesis using f e nextValid_spec(1)[of t "d + 1"] by (simp add: upt_conv_Cons)
  qed
  with Cons.IH[of e "body d s"] e show ?case
    by (subst table_for_loop.simps) (simp add: TableIterator_next_def Let_def)
qed

lemma live_slots_lock [simp]:
  "tableLiveSlot (t\<lparr>a_lock := l, a_magic := m\<rparr>) = tableLiveSlot t" "tableLiveSlot (t\<lparr>a_lock := l\<rparr>) = tableLiveSlot t"
  by (auto simp: tableLiveSlot_def fun_eq_iff)

text \<open>a \<open>for\<close> over a table in which \<open>size\<close> is zero exactly when no slot is live returns, visits the live slots once each in slot order, and leaves the table as it found it, its lock released.\<close>

theorem table_for_visits_live:
  assumes "tab_lock_sound t" and "tab_lock_depth t < UINT32_MAX" and "a_size t = 0 \<longleftrightarrow> live_slots t = []"
  shows "ForWithIterator_table t body s = Some (t, Inr (fold body (live_slots t) s))"
proof -
  from tab_lock.lock_ok[OF assms(1,2)] obtain u where u: "table_lock t = (u, Inr ())" "table_unlock u = (t, Inr ())" by blast
  have same: "a_size u = a_size t" "a_capacity u = a_capacity t" "live_slots u = live_slots t"
    using u(1) by (auto simp: table_lock_def step_defs Let_def live_slots_def split: if_splits)
  show ?thesis
  proof (cases "live_slots t")
    case Nil
    with assms(3) u same show ?thesis
      by (simp add: ForWithIterator_table_def TableIterator_first_def TableIterator_close_def done_with_def)
  next
    case (Cons d ds)
    then have f: "filter (tableLiveSlot u) [0..<a_capacity u] = d # ds" using same by (simp add: live_slots_def)
    then have d: "nextValid u 0 = d" "d < a_capacity u"
      using nextValid_spec(1)[of u 0] by (auto split: if_splits)
    have "d \<in> set (filter (tableLiveSlot u) [0..<a_capacity u])" unfolding f by simp
    then have "tableLiveSlot u d" by simp
    then have "filter (tableLiveSlot u) [d..<a_capacity u] = d # ds"
      using f d nextValid_spec(1)[of u 0] by (simp add: upt_conv_Cons)
    note loop = table_for_loop_fold[OF d(2) this, of body s]
    show ?thesis
      unfolding ForWithIterator_table_def TableIterator_first_def TableIterator_close_def
      using loop d(1) Cons assms(3) u same by (simp add: done_with_def del: fold_simps)
  qed
qed

lemma ctrl_live_slots:
  assumes "ctrl_inv env t"
  shows "a_size t = length (live_slots t)"
    and "slots_entries is_live (t_keys t) (t_ctrl t) (a_data t) = map (\<lambda>i. (t_keys t ! i, a_data t ! i)) (live_slots t)"
proof -
  have live: "tableLiveSlot t i \<longleftrightarrow> is_live (t_ctrl t ! i)" if "i < a_capacity t" for i
    using that ctrl_inv_allocated(4)[OF assms] by (auto simp: tableLiveSlot_def is_live_def CTRL_TOMBSTONE_def)
  have len: "length (t_ctrl t) = a_capacity t"
    using assms ctrl_inv_allocated(2)[OF assms] by (cases "a_capacity t = 0") (auto simp: ctrl_inv_def)
  have f: "live_slots t = filter (\<lambda>i. is_live (t_ctrl t ! i)) [0..<length (t_ctrl t)]"
    unfolding live_slots_def len by (rule filter_cong) (auto simp: live)
  have e: "slots_entries is_live (t_keys t) (t_ctrl t) (a_data t) =
      map (\<lambda>i. (t_keys t ! i, a_data t ! i)) (filter (\<lambda>i. is_live (t_ctrl t ! i)) is)"
    if "is = [0..<length (t_ctrl t)]" for "is"
  proof -
    have "concat (map (\<lambda>i. if is_live (t_ctrl t ! i) then [(t_keys t ! i, a_data t ! i)] else []) js) =
        map (\<lambda>i. (t_keys t ! i, a_data t ! i)) (filter (\<lambda>i. is_live (t_ctrl t ! i)) js)" for js
      by (induction js) auto
    with that show ?thesis by (simp add: slots_entries_def)
  qed
  from e[OF refl] f show "slots_entries is_live (t_keys t) (t_ctrl t) (a_data t) =
      map (\<lambda>i. (t_keys t ! i, a_data t ! i)) (live_slots t)" by simp
  then have "length (live_slots t) = count_if is_live (t_ctrl t)"
    using length_slots_entries[of is_live "t_keys t" "t_ctrl t" "a_data t"] by (metis length_map)
  then show "a_size t = length (live_slots t)"
    using assms ctrl_inv_allocated(1)[OF assms] by (cases "a_capacity t = 0") (auto simp: ctrl_inv_def store_ok_def)
qed

theorem table_for_visits_live_witness:
  "ForWithIterator_table (zero_table :: (nat, nat) table) (\<lambda>i acc. i # acc) [] = Some (zero_table, Inr [])"
proof -
  have s: "tab_lock_sound (zero_table :: (nat, nat) table)" "tab_lock_depth (zero_table :: (nat, nat) table) < UINT32_MAX"
    "a_size (zero_table :: (nat, nat) table) = 0 \<longleftrightarrow> live_slots (zero_table :: (nat, nat) table) = []"
    by (simp_all add: tab_lock_sound_def tab_lock_depth_def UINT32_MAX_def live_slots_def)
  show ?thesis by (subst table_for_visits_live[OF s]) (simp add: live_slots_def)
qed

text \<open>
  The slot of a live value is the one entry of its key, and every entry has such a slot.
\<close>

lemma ctrl_entry_slots:
  assumes "ctrl_inv env t"
  shows "ctrl_map t k = Some v \<longleftrightarrow> (\<exists>i<a_capacity t. tableLiveSlot t i \<and> t_keys t ! i = k \<and> a_data t ! i = v)"
proof (cases "a_capacity t = 0")
  case True
  then show ?thesis using ctrl_map_unallocated[OF assms] by simp
next
  case False
  note st = ctrl_inv_allocated[OF assms False]
  have "tableLiveSlot t i \<longleftrightarrow> is_live (t_ctrl t ! i)" if "i < a_capacity t" for i
    using that st(4) by (auto simp: tableLiveSlot_def is_live_def CTRL_TOMBSTONE_def)
  then show ?thesis using store_lookup(1)[OF st(1), of k v] st(2) by (auto simp: ctrl_map_def)
qed

lemma live_keys_distinct:
  assumes "ctrl_inv env t" "i < a_capacity t" "j < a_capacity t" "tableLiveSlot t i" "tableLiveSlot t j" "t_keys t ! i = t_keys t ! j"
  shows "i = j"
proof -
  have "a_capacity t \<noteq> 0" using assms(2) by auto
  note st = ctrl_inv_allocated[OF assms(1) this]
  have "is_live (t_ctrl t ! i)" "is_live (t_ctrl t ! j)"
    using assms(4,5) st(4) by (auto simp: tableLiveSlot_def is_live_def CTRL_TOMBSTONE_def)
  then show ?thesis using st(1,2) assms(2,3,6) unfolding store_ok_def slots_wf_def by metis
qed

lemma get_key_slot:
  assumes "0 < vstride"
  shows "builtin_table_get_key t off vstride = Inr k \<longleftrightarrow>
    (\<exists>i<a_capacity t. off = int (i * vstride) \<and> tableLiveSlot t i \<and> k = t_keys t ! i)"
proof (cases "0 \<le> off \<and> off < int (a_capacity t * vstride) \<and> nat off mod vstride = 0")
  case False
  then have "builtin_table_get_key t off vstride \<noteq> Inr k" by (auto simp: builtin_table_get_key_def)
  moreover have "off \<noteq> int (i * vstride)" if "i < a_capacity t" for i
    using False that assms by (auto simp: nat_mult_distrib)
  ultimately show ?thesis by auto
next
  case True
  define i where "i = nat off div vstride"
  have "i * vstride = nat off" using True unfolding i_def by (intro dvd_div_mult_self) auto
  then have off: "off = int (i * vstride)" using True by simp
  have i: "i < a_capacity t" using True assms off by (simp add: of_nat_mult[symmetric] del: of_nat_mult)
  have one: "j = i" if "off = int (j * vstride)" for j
    using that assms off by (metis mult_cancel2 not_gr_zero of_nat_eq_iff)
  have "builtin_table_get_key t off vstride =
      (if tableLiveSlot t i then Inr (t_keys t ! i) else Inl (ThrowError ''get_key: value points to an empty or deleted table slot''))"
    using True by (auto simp: builtin_table_get_key_def i_def Let_def)
  moreover have "(\<exists>j<a_capacity t. off = int (j * vstride) \<and> tableLiveSlot t j \<and> k = t_keys t ! j) \<longleftrightarrow>
      tableLiveSlot t i \<and> k = t_keys t ! i"
    using off i one by blast
  ultimately show ?thesis by auto
qed

text \<open>C34: \<open>get_key\<close> answers exactly for the addresses at which a live slot of the table starts, and
  then with the key held in that slot, whose value the table finds at the same slot; every entry of
  the table has one address that answers with its key. For every other address it throws.
\<close>

theorem get_key_inverts_lookup:
  assumes "ctrl_inv env t" and "0 < vstride"
  shows "(builtin_table_get_key t off vstride = Inr k \<longleftrightarrow>
      (\<exists>i<a_capacity t. off = int (i * vstride) \<and> tableLiveSlot t i \<and> k = t_keys t ! i \<and> ctrl_map t k = Some (a_data t ! i))) \<and>
    (ctrl_map t k = Some v \<longleftrightarrow>
      (\<exists>!i. i < a_capacity t \<and> a_data t ! i = v \<and> builtin_table_get_key t (int (i * vstride)) vstride = Inr k)) \<and>
    ((\<exists>e. builtin_table_get_key t off vstride = Inl e) \<longleftrightarrow>
      (\<forall>i<a_capacity t. off = int (i * vstride) \<longrightarrow> \<not> tableLiveSlot t i))"
proof (intro conjI)
  note gk = get_key_slot[OF assms(2), of t] and entry = ctrl_entry_slots[OF assms(1)]
  show "builtin_table_get_key t off vstride = Inr k \<longleftrightarrow>
      (\<exists>i<a_capacity t. off = int (i * vstride) \<and> tableLiveSlot t i \<and> k = t_keys t ! i \<and> ctrl_map t k = Some (a_data t ! i))"
    unfolding gk using entry by blast
  have slot: "i * vstride = j * vstride \<longleftrightarrow> i = j" for i j using assms(2) by simp
  have at: "builtin_table_get_key t (int (i * vstride)) vstride = Inr k \<longleftrightarrow>
      i < a_capacity t \<and> tableLiveSlot t i \<and> k = t_keys t ! i" for i
    unfolding gk of_nat_eq_iff slot by blast
  have one: "i = j" if "i < a_capacity t" "j < a_capacity t" "tableLiveSlot t i" "tableLiveSlot t j" "t_keys t ! i = t_keys t ! j" for i j
    using live_keys_distinct[OF assms(1) that] .
  show "ctrl_map t k = Some v \<longleftrightarrow>
      (\<exists>!i. i < a_capacity t \<and> a_data t ! i = v \<and> builtin_table_get_key t (int (i * vstride)) vstride = Inr k)"
    unfolding at entry
  proof
    assume "\<exists>i<a_capacity t. tableLiveSlot t i \<and> t_keys t ! i = k \<and> a_data t ! i = v"
    then obtain i where i: "i < a_capacity t" "tableLiveSlot t i" "t_keys t ! i = k" "a_data t ! i = v" by blast
    show "\<exists>!i. i < a_capacity t \<and> a_data t ! i = v \<and> i < a_capacity t \<and> tableLiveSlot t i \<and> k = t_keys t ! i"
    proof (rule ex1I[of _ i])
      show "i < a_capacity t \<and> a_data t ! i = v \<and> i < a_capacity t \<and> tableLiveSlot t i \<and> k = t_keys t ! i"
        using i by simp
      fix j assume "j < a_capacity t \<and> a_data t ! j = v \<and> j < a_capacity t \<and> tableLiveSlot t j \<and> k = t_keys t ! j"
      then show "j = i" using one[of j i] i by simp
    qed
  qed blast
  have e: "(\<exists>e. r = Inl e) \<longleftrightarrow> (\<nexists>k. r = Inr k)" for r :: "das_error + 'b" by (cases r) auto
  have no: "(\<nexists>k. \<exists>i<c. P i \<and> L i \<and> k = K i) \<longleftrightarrow> (\<forall>i<c. P i \<longrightarrow> \<not> L i)" for c :: nat and P L and K :: "nat \<Rightarrow> 'b"
    by blast
  show "(\<exists>e. builtin_table_get_key t off vstride = Inl e) \<longleftrightarrow>
      (\<forall>i<a_capacity t. off = int (i * vstride) \<longrightarrow> \<not> tableLiveSlot t i)"
    unfolding e gk no by (rule refl)
qed

text \<open>
  A table of eight slots: keys 3 and 4, both with the value 30, live in slots 5 and 6; a tombstone
  in slot 7 that still holds key 5.
\<close>

definition demo_live_env :: "(nat, nat) tab_env" where
  "demo_live_env = \<lparr>te_hash = (\<lambda>k. of_nat (k + 2)), te_valueTypeSize = 4, te_keySize = 4, te_zero = 0, te_junk = 77,
     te_grants = (\<lambda>n. n < 1000)\<rparr>"

definition demo_live_table :: "(nat, nat) table" where
  "demo_live_table = zero_table\<lparr>a_data := [0, 0, 0, 0, 0, 30, 30, 0], a_size := 2, a_capacity := 8, a_tableNoHash := True,
     t_keys := [77, 77, 77, 77, 77, 3, 4, 5], t_ctrl := [0, 0, 0, 0, 0, 2, 2, 1], t_tombstones := 1\<rparr>"

lemma demo_live_fields:
  "a_capacity demo_live_table = 8" "t_keys demo_live_table = [77, 77, 77, 77, 77, 3, 4, 5]"
  "a_data demo_live_table = [0, 0, 0, 0, 0, 30, 30, 0]" "t_ctrl demo_live_table = [0, 0, 0, 0, 0, 2, 2, 1]"
  "a_tableNoHash demo_live_table" "a_size demo_live_table = 2" "t_tombstones demo_live_table = 1"
  by (simp_all add: demo_live_table_def)

lemma demo_live_slots:
  "tableLiveSlot demo_live_table 5" "tableLiveSlot demo_live_table 6" "\<not> tableLiveSlot demo_live_table 7"
  by (simp_all add: tableLiveSlot_def demo_live_fields CTRL_TOMBSTONE_def)

lemma demo_live_home:
  "ctrl_home demo_live_env 3 = 5" "ctrl_home demo_live_env 4 = 6"
  by (simp_all add: ctrl_home_def demo_live_env_def)

lemma demo_live_inv: "ctrl_inv demo_live_env demo_live_table"
proof -
  let ?ks = "[77, 77, 77, 77, 77, 3, 4, 5] :: nat list" and ?hs = "[0, 0, 0, 0, 0, 2, 2, 1] :: u8 list"
    and ?vs = "[0, 0, 0, 0, 0, 30, 30, 0] :: nat list"
  have live: "is_live (?hs ! i) \<longleftrightarrow> i = 5 \<or> i = 6" if "i < 8" for i
    using that by (auto simp: is_live_def less_Suc_eq numeral_eq_Suc)
  have p: "is_pow2 (length ?hs)" unfolding is_pow2_def by (rule exI[of _ 3]) simp
  have e: "\<exists>i<length ?hs. is_empty (?hs ! i)" by (rule exI[of _ 0]) (simp add: is_empty_def)
  have path: "\<forall>i<length ?hs. is_live (?hs ! i) \<longrightarrow> probe_dist (length ?hs) (ctrl_home demo_live_env (?ks ! i)) i = 0"
    using live by (auto simp: demo_live_home probe_dist_def)
  have "slots_wf is_empty is_live (ctrl_home demo_live_env) ?ks ?hs"
    unfolding slots_wf_def using p e path live live_not_empty by auto
  moreover have "\<forall>i<length ?hs. \<not> is_live (?hs ! i) \<longrightarrow> ?vs ! i = 0"
    by (auto simp: is_live_def less_Suc_eq numeral_eq_Suc)
  ultimately show ?thesis
    by (simp add: ctrl_inv_def store_ok_def demo_live_fields demo_live_env_def is_live_def is_empty_def)
qed

theorem get_key_inverts_lookup_witness:
  "builtin_table_get_key demo_live_table 20 4 = Inr 3 \<and> builtin_table_get_key demo_live_table 24 4 = Inr 4 \<and>
    ctrl_map demo_live_table 3 = Some 30 \<and> (\<exists>e. builtin_table_get_key demo_live_table 28 4 = Inl e)"
proof (intro conjI)
  have s: "(0::nat) < 4" by simp
  note gk = get_key_inverts_lookup[OF demo_live_inv s]
  have m: "ctrl_map demo_live_table 3 = Some 30" "ctrl_map demo_live_table 4 = Some 30"
    unfolding ctrl_entry_slots[OF demo_live_inv] using demo_live_slots
    by (intro exI[of _ 5], simp add: demo_live_fields, intro exI[of _ 6], simp add: demo_live_fields)
  then show "ctrl_map demo_live_table 3 = Some 30" by simp
  show "builtin_table_get_key demo_live_table 20 4 = Inr 3"
    using m demo_live_slots by (intro gk[THEN conjunct1, THEN iffD2] exI[of _ 5]) (simp add: demo_live_fields)
  show "builtin_table_get_key demo_live_table 24 4 = Inr 4"
    using m demo_live_slots by (intro gk[THEN conjunct1, THEN iffD2] exI[of _ 6]) (simp add: demo_live_fields)
  have "\<not> tableLiveSlot demo_live_table i" if "(28 :: int) = int (i * 4)" for i
  proof -
    have "i = 7" using that by simp
    then show ?thesis using demo_live_slots by simp
  qed
  then show "\<exists>e. builtin_table_get_key demo_live_table 28 4 = Inl e"
    by (intro gk[THEN conjunct2, THEN conjunct2, THEN iffD2]) blast
qed

end
