(* ===== verification/StrTable.thy ===== *)
theory StrTable
  imports RtTable
begin

text \<open>
  Correctness of the tables with string keys, in both regimes and across the promotion from one
  to the other. It holds for a set \<open>K\<close> of keys that is well hashed: no two of them share a
  64-bit hash (the code says it treats a collision as impossible), the low 32 bits of no hash
  are 0 or 1 (a hash that has such low bits is lost, see \<open>LostKey\<close>), and the heap grants
  no block above 4 GiB, so a capacity never exceeds what the stored 32-bit hash can address.
\<close>

definition well_hashed :: "('v, 'k) tab_env \<Rightarrow> 'k set \<Rightarrow> bool" where
  "well_hashed env K \<longleftrightarrow> inj_on (te_hash env) K \<and> (\<forall>k\<in>K. 1 < (ucast (te_hash env k) :: u32)) \<and>
     (\<forall>n. te_grants env n \<longrightarrow> n \<le> 2 ^ 32)"

definition str_home :: "('v, 'k) tab_env \<Rightarrow> 'k \<Rightarrow> nat" where
  "str_home env k = unat (ucast (te_hash env k) :: u32)"

definition str_map :: "('v, 'k) table \<Rightarrow> 'k \<Rightarrow> 'v option" where
  "str_map t = (if a_capacity t \<le> 8 then store_map (t_keys t) (t_hash64 t) (a_data t)
     else store_map (t_keys t) (t_hash32 t) (a_data t))"

definition packed_ok :: "('v, 'k) tab_env \<Rightarrow> 'k set \<Rightarrow> ('v, 'k) table \<Rightarrow> bool" where
  "packed_ok env K t \<longleftrightarrow> a_size t \<le> 8 \<and> t_tombstones t = 0 \<and>
     length (t_hash64 t) = 8 \<and> length (t_keys t) = 8 \<and> length (a_data t) = 8 \<and>
     (\<forall>i<a_size t. t_keys t ! i \<in> K \<and> t_hash64 t ! i = te_hash env (t_keys t ! i)) \<and>
     (\<forall>i<8. a_size t \<le> i \<longrightarrow> t_hash64 t ! i = 0 \<and> a_data t ! i = te_zero env) \<and>
     (\<forall>i<a_size t. \<forall>j<a_size t. t_keys t ! i = t_keys t ! j \<longrightarrow> i = j)"

definition large_ok :: "('v, 'k) tab_env \<Rightarrow> 'k set \<Rightarrow> ('v, 'k) table \<Rightarrow> bool" where
  "large_ok env K t \<longleftrightarrow> a_capacity t \<le> 2 ^ 32 \<and> length (t_hash32 t) = a_capacity t \<and>
     store_ok (str_home env) (te_zero env) (t_keys t) (t_hash32 t) (a_data t) (a_size t) (t_tombstones t) \<and>
     (\<forall>i<a_capacity t. is_live (t_hash32 t ! i) \<longrightarrow>
        t_keys t ! i \<in> K \<and> t_hash32 t ! i = ucast (te_hash env (t_keys t ! i)))"

definition str_inv :: "('v, 'k) tab_env \<Rightarrow> 'k set \<Rightarrow> ('v, 'k) table \<Rightarrow> bool" where
  "str_inv env K t \<longleftrightarrow> \<not> a_tableNoHash t \<and>
    (if a_capacity t = 0 then a_size t = 0 \<and> t_tombstones t = 0 \<and> t_hash64 t = []
     else if a_capacity t \<le> 8 then a_capacity t = 8 \<and> packed_ok env K t
     else large_ok env K t)"

lemma str_map_unallocated:
  assumes "str_inv env K t" "a_capacity t = 0"
  shows "str_map t = Map.empty"
  using assms by (auto simp: str_map_def str_inv_def intro: slots_map_empty)

lemma unat_low32: "unat (ucast (h :: u64) :: u32) = unat h mod 2 ^ 32"
  by (simp add: unsigned_ucast_eq take_bit_eq_mod)

lemma unat_zero_extend: "unat (ucast (w :: u32) :: u64) = unat w"
proof -
  have "unat w < 2 ^ 64" using unsigned_less[of w, where 'a = nat] by simp
  then show ?thesis by (simp add: unsigned_ucast_eq take_bit_nat_eq_self)
qed

lemma ex_less_Suc: "(\<exists>i<n + 1. P i) \<longleftrightarrow> (\<exists>i<n. P i) \<or> P (n :: nat)"
  by (auto simp: less_Suc_eq)

lemma low_bits_live: "1 < (ucast (h :: u64) :: u32) \<Longrightarrow> is_live h"
proof -
  assume "1 < (ucast h :: u32)"
  then have "1 < unat (ucast h :: u32)" by (simp add: word_less_nat_alt)
  also have "\<dots> \<le> unat h" by (simp add: unat_low32)
  finally show "is_live h" by (simp add: is_live_def word_less_nat_alt)
qed

lemma hashKey_id: "1 < (h :: u32) \<Longrightarrow> hashToHashKey h = h"
  by (auto simp: hashToHashKey_def dest: leD)

lemma well_hashed_key:
  assumes "well_hashed env K" "k \<in> K"
  shows "is_live (te_hash env k)" "is_live (ucast (te_hash env k) :: u32)"
    "hashToHashKey (ucast (te_hash env k)) = ucast (te_hash env k)"
  using assms low_bits_live hashKey_id by (auto simp: well_hashed_def is_live_def)

text \<open>The low 32 bits of the hash pick the same first slot as all 64.\<close>

lemma pow2_le_dvd:
  assumes "is_pow2 c" "c \<le> 2 ^ 32"
  shows "c dvd 2 ^ 32"
proof -
  obtain n where n: "c = 2 ^ n" using assms(1) by (auto simp: is_pow2_def)
  with assms(2) have "n \<le> 32" by (metis power_le_imp_le_exp one_less_numeral_iff semiring_norm(76))
  from le_imp_power_dvd[OF this, of 2] n show ?thesis by simp
qed

lemma low_bits_home:
  assumes "is_pow2 c" "c \<le> 2 ^ 32"
  shows "unat (h :: u64) AND (c - 1) = unat (ucast h :: u32) AND (c - 1)"
  unfolding is_pow2_mask[OF assms(1)] unat_low32 using pow2_le_dvd[OF assms] by (simp only: mod_mod_cancel)

section \<open>The packed regime\<close>

lemma packed_live:
  assumes "well_hashed env K" "packed_ok env K t" "i < 8"
  shows "is_live (t_hash64 t ! i) \<longleftrightarrow> i < a_size t"
  using assms well_hashed_key(1)[OF assms(1)]
  by (cases "i < a_size t") (auto simp: packed_ok_def is_live_def)

lemma packed_distinct:
  assumes "well_hashed env K" "packed_ok env K t"
  shows "distinct_live is_live (t_keys t) (t_hash64 t)"
  using assms packed_live[OF assms] by (auto simp: distinct_live_def packed_ok_def)

lemma scan_hash64_spec:
  "scan_hash64 hs h is = -1 \<and> (\<forall>i\<in>set is. hs ! i \<noteq> h) \<or>
   (\<exists>i\<in>set is. scan_hash64 hs h is = int i \<and> hs ! i = h)"
  by (induction "is") auto

lemma packed_find:
  assumes wh: "well_hashed env K" and ok: "packed_ok env K t" and k: "k \<in> K"
  shows "PackedPolicy_find t (te_hash env k) = -1 \<and> (\<forall>i<a_size t. t_keys t ! i \<noteq> k) \<or>
    (\<exists>i<a_size t. PackedPolicy_find t (te_hash env k) = int i \<and> t_keys t ! i = k)"
proof -
  from scan_hash64_spec[of "t_hash64 t" "te_hash env k" "[0..<TABLE_MAX_LINEAR_CAPACITY]"] show ?thesis
  proof
    assume a: "scan_hash64 (t_hash64 t) (te_hash env k) [0..<TABLE_MAX_LINEAR_CAPACITY] = - 1 \<and>
      (\<forall>i\<in>set [0..<TABLE_MAX_LINEAR_CAPACITY]. t_hash64 t ! i \<noteq> te_hash env k)"
    with ok have "t_keys t ! i \<noteq> k" if "i < a_size t" for i
      using that by (auto simp: packed_ok_def TABLE_MAX_LINEAR_CAPACITY_def)
    with a show ?thesis by (simp add: PackedPolicy_find_def)
  next
    assume "\<exists>i\<in>set [0..<TABLE_MAX_LINEAR_CAPACITY].
      scan_hash64 (t_hash64 t) (te_hash env k) [0..<TABLE_MAX_LINEAR_CAPACITY] = int i \<and> t_hash64 t ! i = te_hash env k"
    then obtain i where i: "i < 8" "PackedPolicy_find t (te_hash env k) = int i" "t_hash64 t ! i = te_hash env k"
      by (auto simp: PackedPolicy_find_def TABLE_MAX_LINEAR_CAPACITY_def)
    then have s: "i < a_size t" using packed_live[OF wh ok i(1)] well_hashed_key(1)[OF wh k] by simp
    with ok i(3) have "te_hash env (t_keys t ! i) = te_hash env k" "t_keys t ! i \<in> K" by (auto simp: packed_ok_def)
    with wh k have "t_keys t ! i = k" by (auto simp: well_hashed_def inj_on_def)
    with i s show ?thesis by blast
  qed
qed

lemma packed_lookup:
  assumes "well_hashed env K" "packed_ok env K t"
  shows "store_map (t_keys t) (t_hash64 t) (a_data t) k = Some v \<longleftrightarrow> (\<exists>i<a_size t. t_keys t ! i = k \<and> a_data t ! i = v)"
    and "store_map (t_keys t) (t_hash64 t) (a_data t) k = None \<longleftrightarrow> (\<forall>i<a_size t. t_keys t ! i \<noteq> k)"
proof -
  have len: "length (t_hash64 t) = 8" "a_size t \<le> 8" using assms(2) by (auto simp: packed_ok_def)
  have eq: "i < 8 \<and> is_live (t_hash64 t ! i) \<longleftrightarrow> i < a_size t" for i
    using packed_live[OF assms, of i] len(2) by linarith
  show "store_map (t_keys t) (t_hash64 t) (a_data t) k = Some v \<longleftrightarrow> (\<exists>i<a_size t. t_keys t ! i = k \<and> a_data t ! i = v)"
    unfolding slots_map_iff[OF packed_distinct[OF assms]] len(1) using eq by blast
  show "store_map (t_keys t) (t_hash64 t) (a_data t) k = None \<longleftrightarrow> (\<forall>i<a_size t. t_keys t ! i \<noteq> k)"
    unfolding slots_map_None len(1) using eq by blast
qed

text \<open>The map of a packed table, read off its dense prefix.\<close>

lemma packed_map_eqI:
  assumes "well_hashed env K" "packed_ok env K t"
    and "\<And>k v. m k = Some v \<longleftrightarrow> (\<exists>i<a_size t. t_keys t ! i = k \<and> a_data t ! i = v)"
  shows "store_map (t_keys t) (t_hash64 t) (a_data t) = m"
  using packed_lookup(1)[OF assms(1,2)] assms(3) by (intro ext option_eq_by_Some) simp

lemma packed_append:
  assumes wh: "well_hashed env K" and ok: "packed_ok env K t" and k: "k \<in> K"
    and room: "a_size t < 8" and fresh: "\<forall>i<a_size t. t_keys t ! i \<noteq> k"
  shows "\<exists>t'. str_append_packed t k (te_hash env k) = (t', Inr (int (a_size t))) \<and> packed_ok env K t' \<and>
    a_size t' = a_size t + 1 \<and> t_keys t' ! a_size t = k \<and> a_capacity t' = a_capacity t \<and>
    a_tableNoHash t' = a_tableNoHash t \<and>
    a_lock t' = a_lock t \<and> a_magic t' = a_magic t \<and>
    store_map (t_keys t') (t_hash64 t') (a_data t') =
      (store_map (t_keys t) (t_hash64 t) (a_data t))(k \<mapsto> te_zero env)"
proof -
  let ?n = "a_size t"
  let ?t' = "t\<lparr>t_hash64 := (t_hash64 t)[?n := te_hash env k], t_keys := (t_keys t)[?n := k], a_size := ?n + 1\<rparr>"
  have run: "str_append_packed t k (te_hash env k) = (?t', Inr (int ?n))"
    by (simp add: str_append_packed_def PackedPolicy_insertHash_def done_with_def Let_def)
  have ok': "packed_ok env K ?t'"
    using ok k room fresh by (auto simp: packed_ok_def nth_list_update less_Suc_eq)
  have "store_map (t_keys ?t') (t_hash64 ?t') (a_data ?t') =
      (store_map (t_keys t) (t_hash64 t) (a_data t))(k \<mapsto> te_zero env)"
  proof (rule packed_map_eqI[OF wh ok'])
    fix k' v
    have z: "a_data t ! ?n = te_zero env" and len: "length (t_keys t) = 8" using ok room by (auto simp: packed_ok_def)
    have "(\<exists>i<a_size ?t'. t_keys ?t' ! i = k' \<and> a_data ?t' ! i = v) \<longleftrightarrow>
        (\<exists>i<?n. t_keys t ! i = k' \<and> a_data t ! i = v) \<or> k = k' \<and> te_zero env = v"
      using room z len by (auto simp: ex_less_Suc[unfolded Suc_eq_plus1[symmetric]])
    with packed_lookup(1)[OF wh ok, of k' v] fresh
    show "((store_map (t_keys t) (t_hash64 t) (a_data t))(k \<mapsto> te_zero env)) k' = Some v \<longleftrightarrow>
        (\<exists>i<a_size ?t'. t_keys ?t' ! i = k' \<and> a_data ?t' ! i = v)" by auto
  qed
  with run ok' show ?thesis using ok room by (auto simp: packed_ok_def intro!: exI[of _ ?t'])
qed

lemma packed_erase:
  assumes wh: "well_hashed env K" and ok: "packed_ok env K t" and k: "k \<in> K"
  shows "\<exists>t' r. str_erase_packed env t (te_hash env k) = (t', Inr r) \<and> packed_ok env K t' \<and>
    (r = -1 \<longleftrightarrow> (\<forall>i<a_size t. t_keys t ! i \<noteq> k)) \<and> a_capacity t' = a_capacity t \<and>
    a_tableNoHash t' = a_tableNoHash t \<and> a_lock t' = a_lock t \<and> a_magic t' = a_magic t \<and>
    store_map (t_keys t') (t_hash64 t') (a_data t') = (store_map (t_keys t) (t_hash64 t) (a_data t))(k := None)"
  using packed_find[OF wh ok k]
proof
  assume a: "PackedPolicy_find t (te_hash env k) = -1 \<and> (\<forall>i<a_size t. t_keys t ! i \<noteq> k)"
  then have "store_map (t_keys t) (t_hash64 t) (a_data t) k = None" using packed_lookup(2)[OF wh ok] by simp
  with a ok show ?thesis by (auto simp: str_erase_packed_def done_with_def fun_upd_idem)
next
  assume "\<exists>i<a_size t. PackedPolicy_find t (te_hash env k) = int i \<and> t_keys t ! i = k"
  then obtain i where i: "i < a_size t" "PackedPolicy_find t (te_hash env k) = int i" "t_keys t ! i = k" by blast
  let ?l = "a_size t - 1"
  have sz: "a_size t \<le> 8" and len: "length (t_keys t) = 8" "length (t_hash64 t) = 8" "length (a_data t) = 8"
    using ok by (auto simp: packed_ok_def)
  let ?t' = "t\<lparr>t_keys := (t_keys t)[i := t_keys t ! ?l],
      t_hash64 := (t_hash64 t)[i := t_hash64 t ! ?l, ?l := 0],
      a_data := (a_data t)[i := a_data t ! ?l, ?l := te_zero env], a_size := ?l\<rparr>"
  have run: "str_erase_packed env t (te_hash env k) = (?t', Inr (int i))"
    by (cases "i = ?l")
      (simp_all add: str_erase_packed_def PackedPolicy_moveHash_def PackedPolicy_clearHash_def done_with_def Let_def i(2))
  have key: "t_keys ?t' ! x = (if x = i then t_keys t ! ?l else t_keys t ! x)" for x
    using i sz len by (simp add: nth_list_update)
  have val: "x < ?l \<Longrightarrow> a_data ?t' ! x = (if x = i then a_data t ! ?l else a_data t ! x)" for x
    using i sz len by (simp add: nth_list_update)
  have dk: "x < a_size t \<Longrightarrow> y < a_size t \<Longrightarrow> t_keys t ! x = t_keys t ! y \<Longrightarrow> x = y" for x y
    using ok by (auto simp: packed_ok_def)
  have ok': "packed_ok env K ?t'"
    unfolding packed_ok_def
  proof (intro conjI allI impI)
    show "a_size ?t' \<le> 8" "t_tombstones ?t' = 0" "length (t_hash64 ?t') = 8" "length (t_keys ?t') = 8" "length (a_data ?t') = 8"
      using ok by (auto simp: packed_ok_def)
    fix x
    show "t_keys ?t' ! x \<in> K" "t_hash64 ?t' ! x = te_hash env (t_keys ?t' ! x)" if "x < a_size ?t'"
      using that ok i by (auto simp: packed_ok_def nth_list_update)
    show "t_hash64 ?t' ! x = 0" "a_data ?t' ! x = te_zero env" if "x < 8" "a_size ?t' \<le> x"
      using that ok i by (auto simp: packed_ok_def nth_list_update)
    show "x = y" if "x < a_size ?t'" "y < a_size ?t'" "t_keys ?t' ! x = t_keys ?t' ! y" for y
    proof -
      have b: "x < a_size t" "y < a_size t" "?l < a_size t" "x \<noteq> ?l" "y \<noteq> ?l" using that(1,2) by auto
      show ?thesis
        using that(3) dk[OF b(1,2)] dk[OF b(1,3)] dk[OF b(3,2)] b(4,5) unfolding key by (auto split: if_splits)
    qed
  qed
  have "store_map (t_keys ?t') (t_hash64 ?t') (a_data ?t') = (store_map (t_keys t) (t_hash64 t) (a_data t))(k := None)"
  proof (rule packed_map_eqI[OF wh ok'])
    fix k' v
    have "(\<exists>x<?l. t_keys ?t' ! x = k' \<and> a_data ?t' ! x = v) \<longleftrightarrow> k' \<noteq> k \<and> (\<exists>x<a_size t. t_keys t ! x = k' \<and> a_data t ! x = v)"
    proof
      assume "\<exists>x<?l. t_keys ?t' ! x = k' \<and> a_data ?t' ! x = v"
      then obtain x where x: "x < ?l" "t_keys ?t' ! x = k'" "a_data ?t' ! x = v" by blast
      show "k' \<noteq> k \<and> (\<exists>x<a_size t. t_keys t ! x = k' \<and> a_data t ! x = v)"
      proof (cases "x = i")
        case True
        with x key val have e: "t_keys t ! ?l = k'" "a_data t ! ?l = v" by auto
        have "k' \<noteq> k" using dk[of ?l i] e(1) i x(1) True by auto
        with e i show ?thesis by (intro conjI exI[of _ ?l]) auto
      next
        case False
        with x key val have e: "t_keys t ! x = k'" "a_data t ! x = v" by auto
        have "k' \<noteq> k" using dk[of x i, OF less_trans[OF x(1)] i(1)] e(1) i False by auto
        with e x(1) show ?thesis by (intro conjI exI[of _ x]) auto
      qed
    next
      assume a: "k' \<noteq> k \<and> (\<exists>x<a_size t. t_keys t ! x = k' \<and> a_data t ! x = v)"
      then obtain x where x: "x < a_size t" "t_keys t ! x = k'" "a_data t ! x = v" by blast
      with a i have xi: "x \<noteq> i" by auto
      show "\<exists>x<?l. t_keys ?t' ! x = k' \<and> a_data ?t' ! x = v"
      proof (cases "x = ?l")
        case True
        with xi i have "i < ?l" by auto
        with True x key val show ?thesis by (intro exI[of _ i]) auto
      next
        case False
        with x have "x < ?l" by auto
        with xi x key val show ?thesis by (intro exI[of _ x]) auto
      qed
    qed
    with packed_lookup(1)[OF wh ok, of k' v]
    show "((store_map (t_keys t) (t_hash64 t) (a_data t))(k := None)) k' = Some v \<longleftrightarrow>
        (\<exists>x<a_size ?t'. t_keys ?t' ! x = k' \<and> a_data ?t' ! x = v)" by simp
  qed
  with run ok' i show ?thesis by auto
qed

section \<open>The large regime\<close>

lemma hash_marks:
  "unat kh = HASH_EMPTY64 \<longleftrightarrow> is_empty kh" "HASH_KILLED64 < unat kh \<longleftrightarrow> is_live kh"
  "unat kh = HASH_KILLED64 \<longleftrightarrow> \<not> is_empty kh \<and> \<not> is_live (kh :: u32)"
proof -
  show "unat kh = HASH_EMPTY64 \<longleftrightarrow> is_empty kh" by (simp add: HASH_EMPTY64_def is_empty_def unat_eq_zero)
  show live: "HASH_KILLED64 < unat kh \<longleftrightarrow> is_live kh" by (simp add: HASH_KILLED64_def is_live_def word_less_nat_alt)
  have "is_empty kh \<longleftrightarrow> unat kh = 0" by (simp add: is_empty_def unat_eq_zero)
  with live show "unat kh = HASH_KILLED64 \<longleftrightarrow> \<not> is_empty kh \<and> \<not> is_live kh" by (auto simp: HASH_KILLED64_def)
qed

lemma large_facts:
  assumes "large_ok env K t"
  shows "store_ok (str_home env) (te_zero env) (t_keys t) (t_hash32 t) (a_data t) (a_size t) (t_tombstones t)"
    "length (t_hash32 t) = a_capacity t" "a_capacity t \<le> 2 ^ 32" "is_pow2 (a_capacity t)"
    "length (t_keys t) = a_capacity t" "length (a_data t) = a_capacity t"
    "\<And>i. i < a_capacity t \<Longrightarrow> is_live (t_hash32 t ! i) \<Longrightarrow> t_hash32 t ! i = ucast (te_hash env (t_keys t ! i))"
    "\<And>i. i < a_capacity t \<Longrightarrow> is_live (t_hash32 t ! i) \<Longrightarrow> t_keys t ! i \<in> K"
    "unat (te_hash env k) AND (a_capacity t - 1) = str_home env k AND (a_capacity t - 1)"
  using assms low_bits_home[of "a_capacity t" "te_hash env k"]
  by (auto simp: large_ok_def store_ok_def slots_wf_def str_home_def)

lemma large_match:
  assumes wh: "well_hashed env K" and ok: "large_ok env K t" and k: "k \<in> K" and i: "i < a_capacity t"
  shows "t_hash32 t ! i = hashToHashKey (ucast (te_hash env k)) \<and> t_keys t ! i = k \<longleftrightarrow>
    is_live (t_hash32 t ! i) \<and> t_keys t ! i = k"
  using large_facts(7)[OF ok i] well_hashed_key(2,3)[OF wh k] by auto

lemma large_find:
  assumes wh: "well_hashed env K" and ok: "large_ok env K t" and k: "k \<in> K" and cap: "8 < a_capacity t"
  shows "\<exists>r. str_find t k (te_hash env k) = Some r \<and>
    (if r = -1 then store_map (t_keys t) (t_hash32 t) (a_data t) k = None
     else 0 \<le> r \<and> nat r < a_capacity t \<and> is_live (t_hash32 t ! nat r) \<and> t_keys t ! nat r = k)"
proof -
  note st = large_facts[OF ok]
  have wf: "slots_wf is_empty is_live (str_home env) (t_keys t) (t_hash32 t)" using st(1) by (simp add: store_ok_def)
  let ?hk = "hashToHashKey (ucast (te_hash env k))"
  let ?body = "\<lambda>index (_ :: unit). let kh = t_hash32 t ! index in
          if unat kh = HASH_EMPTY64 then Inr (-1)
          else if kh = ?hk \<and> t_keys t ! index = k then Inr (int index) else Inl ()"
  have go: "?body i () = Inl ()" if "i < length (t_hash32 t)" "\<not> stops_at is_empty is_live (t_keys t) (t_hash32 t) k i" for i
    using that large_match[OF wh ok k, of i] st(2) by (auto simp: stops_at_def Let_def hash_marks)
  obtain j where j: "j < length (t_hash32 t)" "stops_at is_empty is_live (t_keys t) (t_hash32 t) k j"
    "is_empty (t_hash32 t ! j) \<longleftrightarrow> (\<forall>i<length (t_hash32 t). is_live (t_hash32 t ! i) \<longrightarrow> t_keys t ! i \<noteq> k)"
    "\<And>r. ?body j () = Inr r \<Longrightarrow>
      probe_loop (length (t_hash32 t) - 1) ?body (str_home env k AND (length (t_hash32 t) - 1)) () = Some r"
    using probe_search_unit[where body = ?body and k = k, OF wf go] by blast
  have "?body j () = Inr (if is_empty (t_hash32 t ! j) then -1 else int j)"
    using j(1,2) large_match[OF wh ok k, of j] st(2) by (auto simp: stops_at_def Let_def hash_marks)
  from j(4)[OF this] have run: "str_find t k (te_hash env k) = Some (if is_empty (t_hash32 t ! j) then -1 else int j)"
    using cap unfolding str_find_def st(2,9) TABLE_MAX_LINEAR_CAPACITY_def Let_def by simp
  show ?thesis
  proof (cases "is_empty (t_hash32 t ! j)")
    case True
    with run j(3) store_lookup(2)[OF st(1), of k] show ?thesis by simp
  next
    case False
    with run j(1,2) st(2) show ?thesis by (auto simp: stops_at_def)
  qed
qed

lemma large_reserve_walk:
  assumes wh: "well_hashed env K" and ok: "large_ok env K t" and k: "k \<in> K" and cap: "8 < a_capacity t"
    and room: "a_size t + t_tombstones t + 1 < a_capacity t"
  shows "(\<exists>i<a_capacity t. str_reserve_walk t k (te_hash env k) = Some (t, Inr (int i)) \<and> is_live (t_hash32 t ! i) \<and>
        t_keys t ! i = k) \<or>
    (store_map (t_keys t) (t_hash32 t) (a_data t) k = None \<and> isLocked t \<and>
        (\<exists>e. str_reserve_walk t k (te_hash env k) = Some (t, Inl e))) \<or>
    (store_map (t_keys t) (t_hash32 t) (a_data t) k = None \<and> \<not> isLocked t \<and>
      (\<exists>t' i. str_reserve_walk t k (te_hash env k) = Some (t', Inr (int i)) \<and> i < a_capacity t'
        \<and> large_ok env K t' \<and> a_capacity t' = a_capacity t \<and> is_live (t_hash32 t' ! i) \<and> t_keys t' ! i = k \<and>
        a_tableNoHash t' = a_tableNoHash t \<and> a_lock t' = a_lock t \<and> a_magic t' = a_magic t \<and>
        store_map (t_keys t') (t_hash32 t') (a_data t') = (store_map (t_keys t) (t_hash32 t) (a_data t))(k \<mapsto> te_zero env)))"
proof -
  note st = large_facts[OF ok]
  let ?c = "length (t_hash32 t)" and ?hs = "t_hash32 t" and ?hk = "hashToHashKey (ucast (te_hash env k))"
  define body where "body = (\<lambda>index insertI.
          let kh = t_hash32 t ! index in
          if unat kh = HASH_EMPTY64 then
            Inr (if isLocked t then throw_at t ''can't insert into locked table''
                 else let idx = (case insertI of None \<Rightarrow> index | Some j \<Rightarrow> j);
                          tab = (if insertI = None then t else t\<lparr>t_tombstones := t_tombstones t - 1\<rparr>)
                   in done_with (tab\<lparr>t_hash32 := (t_hash32 tab)[idx := ?hk],
                                    t_keys := (t_keys tab)[idx := k], a_size := a_size tab + 1\<rparr>) (int idx))
          else if unat kh = HASH_KILLED64 then Inl (if insertI = None then Some index else insertI)
          else if kh = ?hk \<and> t_keys t ! index = k then Inr (done_with t (int index))
          else Inl insertI)"
  have eq: "str_reserve_walk t k (te_hash env k) = probe_loop (?c - 1) body (str_home env k AND (?c - 1)) None"
    unfolding str_reserve_walk_def body_def st(2,9) Let_def by simp
  have go: "body i s = Inl (remember_tomb ?hs i s)"
    if "i < ?c" "\<not> stops_at is_empty is_live (t_keys t) ?hs k i" for i s
    using that large_match[OF wh ok k, of i] st(2)
    by (auto simp: body_def stops_at_def remember_tomb_def Let_def hash_marks)
  show ?thesis
  proof (rule store_reserve_walk[where body = body and k = k, OF st(1) go])
    fix j assume j: "j < ?c" "is_live (?hs ! j)" "t_keys t ! j = k"
      and run: "\<And>r. (\<And>s. body j s = Inr r) \<Longrightarrow> probe_loop (?c - 1) body (str_home env k AND (?c - 1)) None = Some r"
    have "body j s = Inr (done_with t (int j))" for s
      using j large_match[OF wh ok k, of j] live_not_empty[OF j(2)] st(2) by (auto simp: body_def Let_def hash_marks)
    from run[OF this] j eq show ?thesis by (auto simp: done_with_def st(2))
  next
    fix j i s
    assume j: "j < ?c" "is_empty (?hs ! j)" and fresh: "\<forall>i<?c. is_live (?hs ! i) \<longrightarrow> t_keys t ! i \<noteq> k"
      and i: "i = (case s of None \<Rightarrow> j | Some x \<Rightarrow> x)" "i < ?c" "\<not> is_live (?hs ! i)"
      and es: "is_empty (?hs ! i) \<longleftrightarrow> s = None"
      and path: "\<And>x. x < probe_dist ?c (str_home env k) i \<Longrightarrow> \<not> is_empty (?hs ! ((str_home env k + x) mod ?c))"
      and run: "\<And>r. body j s = Inr r \<Longrightarrow> probe_loop (?c - 1) body (str_home env k AND (?c - 1)) None = Some r"
    have none: "store_map (t_keys t) (t_hash32 t) (a_data t) k = None" using fresh store_lookup(2)[OF st(1), of k] by simp
    show ?thesis
    proof (cases "isLocked t")
      case True
      then have "body j s = Inr (throw_at t ''can't insert into locked table'')"
        using j(2) by (simp add: body_def Let_def hash_marks)
      from run[OF this] eq none True show ?thesis by (simp add: throw_at_def)
    next
      case nl: False
      have hk: "?hk = ucast (te_hash env k)" "is_live ?hk" using well_hashed_key[OF wh k] by auto
      have same: "(a_data t)[i := te_zero env] = a_data t"
        using st(1) i(2,3) by (simp add: store_ok_def) (metis list_update_id)
      note ins = store_insert[OF st(1) i(2,3) path fresh hk(2), of "te_zero env", unfolded same]
      let ?t' = "(if s = None then t else t\<lparr>t_tombstones := t_tombstones t - 1\<rparr>)
        \<lparr>t_hash32 := ?hs[i := ?hk], t_keys := (t_keys t)[i := k], a_size := a_size t + 1\<rparr>"
      have "body j s = Inr (done_with ?t' (int i))"
        using j(2) nl by (simp add: body_def Let_def i(1) hash_marks split: option.splits)
      note r = run[OF this]
      have "large_ok env K ?t'"
        unfolding large_ok_def
      proof (intro conjI allI impI)
        show "a_capacity ?t' \<le> 2 ^ 32" "length (t_hash32 ?t') = a_capacity ?t'" using st by simp_all
        show "store_ok (str_home env) (te_zero env) (t_keys ?t') (t_hash32 ?t') (a_data ?t') (a_size ?t') (t_tombstones ?t')"
          using ins(1) es st room by (cases s) simp_all
        fix x assume "x < a_capacity ?t'" "is_live (t_hash32 ?t' ! x)"
        then show "t_keys ?t' ! x \<in> K" "t_hash32 ?t' ! x = ucast (te_hash env (t_keys ?t' ! x))"
          using st(5,7,8) hk(1) k i(2) st(2) by (auto simp: nth_list_update split: if_splits)
      qed
      moreover have "store_map (t_keys ?t') (t_hash32 ?t') (a_data ?t') =
          (store_map (t_keys t) (t_hash32 t) (a_data t))(k \<mapsto> te_zero env)"
        using ins(2) room st(2) by simp
      moreover have "is_live (t_hash32 ?t' ! i)" "t_keys ?t' ! i = k" using i(2) st(2,5) hk(2) by simp_all
      ultimately show ?thesis using r eq none nl i(2) st(2)
        by (intro disjI2 conjI exI[of _ ?t'] exI[of _ i]) (simp_all add: done_with_def)
    qed
  qed
qed

lemma large_erase:
  assumes wh: "well_hashed env K" and ok: "large_ok env K t" and k: "k \<in> K" and cap: "8 < a_capacity t"
  shows "\<exists>t' r. str_erase env t k (te_hash env k) = Some (t', Inr r) \<and> large_ok env K t' \<and> a_capacity t' = a_capacity t \<and>
    store_map (t_keys t') (t_hash32 t') (a_data t') = (store_map (t_keys t) (t_hash32 t) (a_data t))(k := None) \<and>
    (r = -1 \<longleftrightarrow> store_map (t_keys t) (t_hash32 t) (a_data t) k = None) \<and>
    a_tableNoHash t' = a_tableNoHash t \<and> a_lock t' = a_lock t \<and> a_magic t' = a_magic t"
proof -
  note st = large_facts[OF ok]
  have wf: "slots_wf is_empty is_live (str_home env) (t_keys t) (t_hash32 t)" using st(1) by (simp add: store_ok_def)
  let ?hk = "hashToHashKey (ucast (te_hash env k))"
  let ?del = "\<lambda>i. t\<lparr>a_size := a_size t - 1, t_tombstones := t_tombstones t + 1,
              t_hash32 := (t_hash32 t)[i := 1], a_data := (a_data t)[i := te_zero env]\<rparr>"
  let ?body = "\<lambda>index (_ :: unit). let kh = t_hash32 t ! index in
          if unat kh = HASH_EMPTY64 then Inr (done_with t (-1))
          else if kh = ?hk \<and> t_keys t ! index = k then Inr (done_with (?del index) (int index)) else Inl ()"
  have go: "?body i () = Inl ()" if "i < length (t_hash32 t)" "\<not> stops_at is_empty is_live (t_keys t) (t_hash32 t) k i" for i
    using that large_match[OF wh ok k, of i] st(2) by (auto simp: stops_at_def Let_def hash_marks)
  obtain j where j: "j < length (t_hash32 t)" "stops_at is_empty is_live (t_keys t) (t_hash32 t) k j"
    "is_empty (t_hash32 t ! j) \<longleftrightarrow> (\<forall>i<length (t_hash32 t). is_live (t_hash32 t ! i) \<longrightarrow> t_keys t ! i \<noteq> k)"
    "\<And>r. ?body j () = Inr r \<Longrightarrow>
      probe_loop (length (t_hash32 t) - 1) ?body (str_home env k AND (length (t_hash32 t) - 1)) () = Some r"
    using probe_search_unit[where body = ?body and k = k, OF wf go] by blast
  have run: "str_erase env t k (te_hash env k) = Some r" if "?body j () = Inr r" for r
    using j(4)[OF that] cap unfolding str_erase_def st(2,9) TABLE_MAX_LINEAR_CAPACITY_def Let_def by simp
  show ?thesis
  proof (cases "is_empty (t_hash32 t ! j)")
    case True
    then have "?body j () = Inr (done_with t (-1))" by (simp add: Let_def hash_marks)
    moreover have "store_map (t_keys t) (t_hash32 t) (a_data t) k = None"
      using True j(3) store_lookup(2)[OF st(1), of k] by simp
    ultimately show ?thesis using run ok by (auto simp: done_with_def fun_upd_idem)
  next
    case ne: False
    with j(2) have l: "is_live (t_hash32 t ! j)" "t_keys t ! j = k" by (auto simp: stops_at_def)
    then have "?body j () = Inr (done_with (?del j) (int j))"
      using ne large_match[OF wh ok k, of j] j(1) st(2) by (simp add: Let_def hash_marks)
    note r = run[OF this]
    note er = store_erase[OF st(1) j(1) l(1)]
    have "(t_hash32 t)[j := 1] ! x = t_hash32 t ! x" if "x < a_capacity t" "is_live ((t_hash32 t)[j := 1] ! x)" for x
      using that st(2) by (cases "x = j") (auto simp: is_live_def)
    then have "large_ok env K (?del j)"
      using er(1) st(2,3,7,8) by (simp add: large_ok_def)
    moreover have "store_map (t_keys t) (t_hash32 t) (a_data t) k \<noteq> None"
      using ne j(3) store_lookup(2)[OF st(1), of k] by simp
    ultimately show ?thesis using r er(2) l(2) by (simp add: done_with_def)
  qed
qed

section \<open>Moving into a fresh block\<close>

text \<open>Both move loops place a list of entries one after the other.\<close>

fun place_all :: "('v, 'k) tab_env \<Rightarrow> ('k \<times> 'v) list \<Rightarrow> ('v, 'k) table \<Rightarrow> ('v, 'k) table option" where
  "place_all env [] new = Some new"
| "place_all env ((k, v) # es) new = Option.bind (str_insertNew new (te_hash env k)) (\<lambda>j.
     place_all env es (str_place new j (ucast (te_hash env k)) k v))"

lemma str_place_sel [simp]:
  "a_capacity (str_place t j h k v) = a_capacity t" "t_tombstones (str_place t j h k v) = t_tombstones t"
  "t_hash32 (str_place t j h k v) = (t_hash32 t)[j := h]" "t_keys (str_place t j h k v) = (t_keys t)[j := k]"
  "a_data (str_place t j h k v) = (a_data t)[j := v]"
  by (simp_all add: str_place_def)

lemma move_packed_places:
  assumes "well_hashed env K" "\<forall>i\<in>set is. t_hash64 old ! i = te_hash env (t_keys old ! i) \<and> t_keys old ! i \<in> K"
  shows "str_move_packed old is new = place_all env (map (\<lambda>i. (t_keys old ! i, a_data old ! i)) is) new"
  using assms(2)
proof (induction "is" arbitrary: new)
  case (Cons i "is")
  then show ?case using well_hashed_key(3)[OF assms(1), of "t_keys old ! i"]
    by (simp add: Let_def cong: Option.bind_cong)
qed simp

lemma str_insertNew_low:
  assumes "is_pow2 (a_capacity new)" "a_capacity new \<le> 2 ^ 32"
  shows "str_insertNew new (ucast (ucast h :: u32)) = str_insertNew new h"
proof -
  have "unat (ucast (ucast h :: u32) :: u64) = unat (ucast h :: u32)" by (rule unat_zero_extend)
  then have "unat (ucast (ucast h :: u32) :: u64) AND (a_capacity new - 1) = unat h AND (a_capacity new - 1)"
    using low_bits_home[OF assms, of h] by simp
  then show ?thesis by (simp add: str_insertNew_def)
qed

lemma move_large_places:
  assumes "\<forall>i\<in>set is. is_live (t_hash32 old ! i) \<longrightarrow> t_hash32 old ! i = ucast (te_hash env (t_keys old ! i))"
  shows "is_pow2 (a_capacity new) \<Longrightarrow> a_capacity new \<le> 2 ^ 32 \<Longrightarrow>
    str_move_large old is new =
      place_all env (map (\<lambda>i. (t_keys old ! i, a_data old ! i)) (filter (\<lambda>i. is_live (t_hash32 old ! i)) is)) new"
  using assms
proof (induction "is" arbitrary: new)
  case (Cons i "is")
  show ?case
  proof (cases "is_live (t_hash32 old ! i)")
    case True
    with Cons.prems have "t_hash32 old ! i = ucast (te_hash env (t_keys old ! i))" by simp
    with True Cons.IH Cons.prems str_insertNew_low[OF Cons.prems(1,2), of "te_hash env (t_keys old ! i)"] show ?thesis
      by (simp add: Let_def hash_marks)
  next
    case False
    with Cons show ?thesis by (simp add: Let_def hash_marks)
  qed
qed simp

lemma place_all_ok:
  assumes wh: "well_hashed env K"
  shows "large_ok env K (new\<lparr>a_size := n\<rparr>) \<Longrightarrow> t_tombstones new = 0 \<Longrightarrow> distinct (map fst es) \<Longrightarrow> fst ` set es \<subseteq> K \<Longrightarrow>
    \<forall>k\<in>fst ` set es. store_map (t_keys new) (t_hash32 new) (a_data new) k = None \<Longrightarrow>
    n + length es < a_capacity new \<Longrightarrow>
    \<exists>hs ks vs. place_all env es new = Some (new\<lparr>t_hash32 := hs, t_keys := ks, a_data := vs\<rparr>) \<and>
      large_ok env K (new\<lparr>t_hash32 := hs, t_keys := ks, a_data := vs, a_size := n + length es\<rparr>) \<and>
      store_map ks hs vs = store_map (t_keys new) (t_hash32 new) (a_data new) ++ map_of es"
proof (induction es arbitrary: new n)
  case Nil
  then show ?case
    by (intro exI[of _ "t_hash32 new"] exI[of _ "t_keys new"] exI[of _ "a_data new"]) simp
next
  case (Cons e es)
  obtain k v where e: "e = (k, v)" by fastforce
  have k: "k \<in> K" using Cons.prems(4) e by simp
  note st = large_facts[OF Cons.prems(1), simplified]
  have ok: "store_ok (str_home env) (te_zero env) (t_keys new) (t_hash32 new) (a_data new) n 0"
    using st(1) Cons.prems(2) by simp
  let ?c = "length (t_hash32 new)"
  let ?body = "\<lambda>index (_::unit). if unat (t_hash32 new ! index) = HASH_EMPTY64 then Inr index else Inl ()"
  obtain j where j: "j < ?c" "str_insertNew new (te_hash env k) = Some j" "is_empty (t_hash32 new ! j)"
    "\<forall>d<probe_dist ?c (str_home env k) j. \<not> is_empty (t_hash32 new ! ((str_home env k + d) mod ?c))"
  proof -
    have "?body i s = (if is_empty (t_hash32 new ! i) then Inr i else Inl s)" for i s by (simp add: hash_marks)
    from store_first_empty[OF ok this, of "str_home env k" "()"] st(2) st(9)[of k] that show ?thesis
      by (auto simp: str_insertNew_def)
  qed
  have nl: "\<not> is_live (t_hash32 new ! j)" using j(3) live_not_empty by blast
  have fresh: "\<forall>x<?c. is_live (t_hash32 new ! x) \<longrightarrow> t_keys new ! x \<noteq> k"
    using Cons.prems(5) e store_lookup(2)[OF ok, of k] by simp
  have room: "n + 0 + 1 < ?c" using Cons.prems(6) st(2) by simp
  note hk = well_hashed_key(2)[OF wh k]
  note ins = store_insert[OF ok j(1) nl j(4)[rule_format] fresh hk room, of v]
  let ?new = "str_place new j (ucast (te_hash env k)) k v"
  have lok: "large_ok env K (?new\<lparr>a_size := n + 1\<rparr>)"
    unfolding large_ok_def
  proof (intro conjI allI impI)
    show "a_capacity (?new\<lparr>a_size := n + 1\<rparr>) \<le> 2 ^ 32"
      "length (t_hash32 (?new\<lparr>a_size := n + 1\<rparr>)) = a_capacity (?new\<lparr>a_size := n + 1\<rparr>)" using st by simp_all
    show "store_ok (str_home env) (te_zero env) (t_keys (?new\<lparr>a_size := n + 1\<rparr>)) (t_hash32 (?new\<lparr>a_size := n + 1\<rparr>))
        (a_data (?new\<lparr>a_size := n + 1\<rparr>)) (a_size (?new\<lparr>a_size := n + 1\<rparr>)) (t_tombstones (?new\<lparr>a_size := n + 1\<rparr>))"
      using ins(1) j(3) Cons.prems(2) by simp
    fix x assume x: "x < a_capacity (?new\<lparr>a_size := n + 1\<rparr>)" "is_live (t_hash32 (?new\<lparr>a_size := n + 1\<rparr>) ! x)"
    then show "t_keys (?new\<lparr>a_size := n + 1\<rparr>) ! x \<in> K"
      "t_hash32 (?new\<lparr>a_size := n + 1\<rparr>) ! x = ucast (te_hash env (t_keys (?new\<lparr>a_size := n + 1\<rparr>) ! x))"
      using st(5,7,8) k j(1) st(2) by (cases "x = j"; simp)+
  qed
  have map': "store_map (t_keys ?new) (t_hash32 ?new) (a_data ?new) =
      (store_map (t_keys new) (t_hash32 new) (a_data new))(k \<mapsto> v)"
    using ins(2) by simp
  have d: "distinct (map fst es)" "fst ` set es \<subseteq> K" "k \<notin> fst ` set es" using Cons.prems(3,4) e by auto
  have none: "\<forall>x\<in>fst ` set es. store_map (t_keys ?new) (t_hash32 ?new) (a_data ?new) x = None"
    unfolding map' using Cons.prems(5) d(3) e by auto
  have room': "n + 1 + length es < a_capacity ?new" using Cons.prems(6) by simp
  have tomb: "t_tombstones ?new = 0" using Cons.prems(2) by simp
  obtain hs ks vs where r: "place_all env es ?new = Some (?new\<lparr>t_hash32 := hs, t_keys := ks, a_data := vs\<rparr>)"
    "large_ok env K (?new\<lparr>t_hash32 := hs, t_keys := ks, a_data := vs, a_size := n + 1 + length es\<rparr>)"
    "store_map ks hs vs = store_map (t_keys ?new) (t_hash32 ?new) (a_data ?new) ++ map_of es"
    using Cons.IH[OF lok tomb d(1,2) none room'] by blast
  have same: "?new\<lparr>t_hash32 := hs, t_keys := ks, a_data := vs\<rparr> = new\<lparr>t_hash32 := hs, t_keys := ks, a_data := vs\<rparr>"
    by (simp add: str_place_def)
  have "place_all env (e # es) new = Some (new\<lparr>t_hash32 := hs, t_keys := ks, a_data := vs\<rparr>)"
    using e j(2) r(1) same by simp
  moreover have "large_ok env K (new\<lparr>t_hash32 := hs, t_keys := ks, a_data := vs, a_size := n + length (e # es)\<rparr>)"
    using r(2) by (simp add: str_place_def)
  moreover have "store_map ks hs vs = store_map (t_keys new) (t_hash32 new) (a_data new) ++ map_of (e # es)"
  proof -
    have "k \<notin> dom (map_of es)" using d(3) by (simp add: dom_map_of_conv_image_fst)
    from map_add_upd_left[OF this] show ?thesis unfolding r(3) map' e by simp
  qed
  ultimately show ?case by blast
qed

section \<open>Reallocation\<close>

lemma large_entries:
  assumes ok: "large_ok env K t" and "hs = t_hash32 t"
  defines "es \<equiv> map (\<lambda>i. (t_keys t ! i, a_data t ! i)) (filter (\<lambda>i. is_live (hs ! i)) [0..<a_capacity t])"
  shows "slots_entries is_live (t_keys t) hs (a_data t) = es" "distinct (map fst es)" "fst ` set es \<subseteq> K"
    "length es = a_size t"
proof -
  note st = large_facts[OF ok]
  have "concat (map (\<lambda>i. if is_live (hs ! i) then [(t_keys t ! i, a_data t ! i)] else []) js) =
      map (\<lambda>i. (t_keys t ! i, a_data t ! i)) (filter (\<lambda>i. is_live (hs ! i)) js)" for js
    by (induction js) auto
  then show eq: "slots_entries is_live (t_keys t) hs (a_data t) = es"
    using assms(2) st(2) by (simp add: slots_entries_def es_def)
  show "fst ` set es \<subseteq> K" using st(8) assms(2) by (auto simp: es_def)
  have dl: "distinct_live is_live (t_keys t) (t_hash32 t)" using st(1) slots_wf_distinct by (auto simp: store_ok_def)
  show "distinct (map fst es)"
    using dl st(2) assms(2) by (auto simp: es_def distinct_map inj_on_def distinct_live_def)
  have "length es = count_if is_live (t_hash32 t)"
  proof -
    have "length (filter (\<lambda>i. is_live (t_hash32 t ! i)) js) = length (filter is_live (map (\<lambda>i. t_hash32 t ! i) js))" for js
      by (induction js) auto
    from this[of "[0..<length (t_hash32 t)]"] show ?thesis
      unfolding es_def count_if_def assms(2) st(2)[symmetric] map_nth by simp
  qed
  then show "length es = a_size t" using st(1) by (simp add: store_ok_def)
qed

lemma packed_entries:
  assumes wh: "well_hashed env K" and ok: "packed_ok env K t"
  defines "es \<equiv> map (\<lambda>i. (t_keys t ! i, a_data t ! i)) [0..<a_size t]"
  shows "map_of es = store_map (t_keys t) (t_hash64 t) (a_data t)" "distinct (map fst es)" "fst ` set es \<subseteq> K"
proof -
  show d: "distinct (map fst es)" using ok by (auto simp: es_def packed_ok_def distinct_map inj_on_def)
  show "fst ` set es \<subseteq> K" using ok by (auto simp: es_def packed_ok_def)
  have "map_of es k = Some v \<longleftrightarrow> (\<exists>i<a_size t. t_keys t ! i = k \<and> a_data t ! i = v)" for k v
    unfolding map_of_eq_Some_iff[OF d] by (auto simp: es_def)
  from packed_map_eqI[OF wh ok this] show "map_of es = store_map (t_keys t) (t_hash64 t) (a_data t)" by simp
qed

text \<open>The entries the move loop visits, and the map they make up.\<close>

definition str_entries :: "('v, 'k) table \<Rightarrow> ('k \<times> 'v) list" where
  "str_entries t = map (\<lambda>i. (t_keys t ! i, a_data t ! i))
     (if a_capacity t \<le> 8 then [0..<a_size t] else filter (\<lambda>i. is_live (t_hash32 t ! i)) [0..<a_capacity t])"

lemma str_entries_facts:
  assumes wh: "well_hashed env K" and inv: "str_inv env K t" and cap: "a_capacity t \<noteq> 0"
  shows "map_of (str_entries t) = str_map t" "distinct (map fst (str_entries t))" "fst ` set (str_entries t) \<subseteq> K"
    "length (str_entries t) = a_size t"
proof -
  have "map_of (str_entries t) = str_map t \<and> distinct (map fst (str_entries t)) \<and> fst ` set (str_entries t) \<subseteq> K \<and>
      length (str_entries t) = a_size t"
  proof (cases "a_capacity t \<le> 8")
  case True
  with inv cap have "packed_ok env K t" by (auto simp: str_inv_def)
  from packed_entries[OF wh this] True
  show "map_of (str_entries t) = str_map t \<and> distinct (map fst (str_entries t)) \<and> fst ` set (str_entries t) \<subseteq> K \<and>
      length (str_entries t) = a_size t"
    by (simp add: str_entries_def str_map_def)
next
  case False
  with inv cap have "large_ok env K t" by (auto simp: str_inv_def)
  from large_entries[OF this refl] False
  show "map_of (str_entries t) = str_map t \<and> distinct (map fst (str_entries t)) \<and> fst ` set (str_entries t) \<subseteq> K \<and>
      length (str_entries t) = a_size t"
    by (simp add: str_entries_def str_map_def slots_map_def)
  qed
  then show "map_of (str_entries t) = str_map t" "distinct (map fst (str_entries t))" "fst ` set (str_entries t) \<subseteq> K"
    "length (str_entries t) = a_size t" by blast+
qed

lemma str_newTab_sel [simp]:
  "a_capacity (str_newTab env t c) = c" "a_size (str_newTab env t c) = a_size t" "a_lock (str_newTab env t c) = a_lock t"
  "a_magic (str_newTab env t c) = 0" "\<not> a_tableNoHash (str_newTab env t c)" "t_tombstones (str_newTab env t c) = 0"
  by (simp_all add: str_newTab_def)

lemma str_newTab_large:
  assumes "is_pow2 c" "8 < c" "c \<le> 2 ^ 32"
  shows "large_ok env K ((str_newTab env t c)\<lparr>a_size := 0\<rparr>)"
    "store_map (t_keys (str_newTab env t c)) (t_hash32 (str_newTab env t c)) (a_data (str_newTab env t c)) = Map.empty"
proof -
  note emp = store_ok_empty[OF assms(1), where ks = "replicate c (te_junk env)" and z = "te_zero env"
      and vs = "replicate c (te_zero env)" and 'w = 32]
  show "large_ok env K ((str_newTab env t c)\<lparr>a_size := 0\<rparr>)"
    using emp(1) assms by (simp add: large_ok_def str_newTab_def TABLE_MAX_LINEAR_CAPACITY_def is_live_def)
  show "store_map (t_keys (str_newTab env t c)) (t_hash32 (str_newTab env t c)) (a_data (str_newTab env t c)) = Map.empty"
    using emp(2) assms by (simp add: str_newTab_def TABLE_MAX_LINEAR_CAPACITY_def)
qed

lemma str_move_ok:
  assumes wh: "well_hashed env K" and inv: "str_inv env K t" and cap: "a_capacity t \<noteq> 0"
    and c: "is_pow2 c" "8 < c" "c \<le> 2 ^ 32" "a_size t < c"
  shows "\<exists>t'. (if a_capacity t \<le> TABLE_MAX_LINEAR_CAPACITY then str_move_packed t [0..<a_size t] (str_newTab env t c)
       else str_move_large t [0..<a_capacity t] (str_newTab env t c)) = Some t' \<and>
     str_inv env K t' \<and> str_map t' = str_map t \<and> a_capacity t' = c \<and> a_size t' = a_size t \<and> t_tombstones t' = 0 \<and>
     a_lock t' = a_lock t \<and> a_magic t' = 0"
proof -
  let ?new = "str_newTab env t c"
  have run: "(if a_capacity t \<le> TABLE_MAX_LINEAR_CAPACITY then str_move_packed t [0..<a_size t] ?new
       else str_move_large t [0..<a_capacity t] ?new) = place_all env (str_entries t) ?new"
  proof (cases "a_capacity t \<le> 8")
    case True
    with inv cap have "packed_ok env K t" by (auto simp: str_inv_def)
    then have "\<forall>i\<in>set [0..<a_size t]. t_hash64 t ! i = te_hash env (t_keys t ! i) \<and> t_keys t ! i \<in> K"
      by (auto simp: packed_ok_def)
    from move_packed_places[OF wh this] True show ?thesis by (simp add: str_entries_def TABLE_MAX_LINEAR_CAPACITY_def)
  next
    case False
    with inv cap have "large_ok env K t" by (auto simp: str_inv_def)
    then have "\<forall>i\<in>set [0..<a_capacity t]. is_live (t_hash32 t ! i) \<longrightarrow> t_hash32 t ! i = ucast (te_hash env (t_keys t ! i))"
      using large_facts(7) by auto
    from move_large_places[OF this, of ?new] False c show ?thesis
      by (simp add: str_entries_def TABLE_MAX_LINEAR_CAPACITY_def)
  qed
  note es = str_entries_facts[OF wh inv cap]
  note new1 = str_newTab_large(1)[OF c(1-3), where env = env and t = t and K = K]
  note new2 = str_newTab_large(2)[OF c(1-3), where env = env and t = t]
  have none: "\<forall>k\<in>fst ` set (str_entries t). store_map (t_keys ?new) (t_hash32 ?new) (a_data ?new) k = None"
    using new2 by simp
  have room: "0 + length (str_entries t) < a_capacity ?new" using es(4) c(4) by simp
  from place_all_ok[OF wh new1 _ es(2,3) none room] obtain hs ks vs where
    r: "place_all env (str_entries t) ?new = Some (?new\<lparr>t_hash32 := hs, t_keys := ks, a_data := vs\<rparr>)"
    "large_ok env K (?new\<lparr>t_hash32 := hs, t_keys := ks, a_data := vs, a_size := 0 + length (str_entries t)\<rparr>)"
    "store_map ks hs vs = store_map (t_keys ?new) (t_hash32 ?new) (a_data ?new) ++ map_of (str_entries t)"
    by auto
  let ?t' = "?new\<lparr>t_hash32 := hs, t_keys := ks, a_data := vs\<rparr>"
  have same: "?t'\<lparr>a_size := a_size t\<rparr> = ?t'" by (simp add: str_newTab_def)
  have "large_ok env K (?t'\<lparr>a_size := a_size t\<rparr>)" using r(2) es(4) by simp
  then have lok: "large_ok env K ?t'" by (simp only: same)
  have "str_inv env K ?t'" using lok c by (simp add: str_inv_def)
  moreover have "str_map ?t' = str_map t" using r(3) new2 es(1) c by (simp add: str_map_def)
  ultimately show ?thesis using run r(1) by simp
qed

text \<open>
  \<open>reserveInternal\<close> is called for the first packed block and for larger, open-addressed ones.
\<close>

lemma str_reserveInternal_cases:
  assumes wh: "well_hashed env K" and inv: "str_inv env K t" and p: "is_pow2 c" "a_size t < c"
    and c: "8 < c \<or> c = 8 \<and> a_capacity t = 0"
  shows "(\<exists>e. str_reserveInternal env t c = Some (t, Inl e)) \<or>
    (\<exists>t'. str_reserveInternal env t c = Some (t', Inr True) \<and> a_magic t = 0 \<and> a_lock t = 0 \<and>
      str_inv env K t' \<and> a_capacity t' = c \<and> a_size t' = a_size t \<and> t_tombstones t' = 0 \<and>
      a_lock t' = 0 \<and> a_magic t' = 0 \<and> str_map t' = str_map t)"
proof (cases "(a_magic t \<noteq> 0 \<or> a_lock t \<noteq> 0) \<or> c > UINT64_MAX div str_perSlot env c \<or>
    \<not> te_grants env (c * str_perSlot env c)")
  case True
  then show ?thesis using pow2_test[OF p(1)] is_pow2_pos[OF p(1)]
    by (auto simp: str_reserveInternal_def throw_at_def Let_def)
next
  case False
  let ?new = "str_newTab env t c"
  have "c \<le> c * str_perSlot env c" by (simp add: str_perSlot_def)
  also have "\<dots> \<le> 2 ^ 32" using False wh by (simp add: well_hashed_def)
  finally have c32: "c \<le> 2 ^ 32" .
  have run: "str_reserveInternal env t c = map_option (\<lambda>t. (t, Inr True))
      (if a_size t \<noteq> 0 then
            (if a_capacity t \<le> TABLE_MAX_LINEAR_CAPACITY then str_move_packed t [0..<a_size t] ?new
             else str_move_large t [0..<a_capacity t] ?new)
          else Some ?new)"
    using False pow2_test[OF p(1)] is_pow2_pos[OF p(1)] by (auto simp: str_reserveInternal_def Let_def)
  show ?thesis
  proof (cases "a_size t = 0")
    case True
    have "str_map t = Map.empty"
    proof (cases "a_capacity t = 0")
      case nz: False
      from str_entries_facts(1,4)[OF wh inv nz] True show ?thesis by simp
    qed (rule str_map_unallocated[OF inv])
    moreover have "str_inv env K ?new \<and> str_map ?new = Map.empty"
      using c
    proof
      assume "8 < c"
      have "?new\<lparr>a_size := 0\<rparr> = ?new" using True by (simp add: str_newTab_def)
      with str_newTab_large(1)[OF p(1) \<open>8 < c\<close> c32, where env = env and t = t and K = K]
        str_newTab_large(2)[OF p(1) \<open>8 < c\<close> c32, where env = env and t = t] \<open>8 < c\<close> show ?thesis
        by (simp add: str_inv_def str_map_def)
    next
      assume "c = 8 \<and> a_capacity t = 0"
      then have "packed_ok env K ?new" "str_map ?new = Map.empty"
        using True by (auto simp: packed_ok_def str_newTab_def TABLE_MAX_LINEAR_CAPACITY_def str_map_def is_live_def
            intro: slots_map_empty)
      with \<open>c = 8 \<and> a_capacity t = 0\<close> show ?thesis by (simp add: str_inv_def)
    qed
    ultimately show ?thesis using run True False by simp
  next
    case nz: False
    then have cap: "a_capacity t \<noteq> 0" using inv by (cases "a_capacity t = 0") (auto simp: str_inv_def)
    with c have c8: "8 < c" by simp
    from str_move_ok[OF wh inv cap p(1) c8 c32 p(2)] run nz False show ?thesis by auto
  qed
qed

section \<open>Reserving\<close>

lemma str_reserve_load_cases:
  assumes wh: "well_hashed env K" and inv: "str_inv env K t" and cap: "8 < a_capacity t"
  shows "(\<exists>e. str_reserve_load env t = Some (t, Inl e)) \<or>
    (\<exists>t'. str_reserve_load env t = Some (t', Inr True) \<and> str_inv env K t' \<and> 8 < a_capacity t' \<and>
      a_size t' + t_tombstones t' + 1 < a_capacity t' \<and>
      a_lock t' = a_lock t \<and> str_map t' = str_map t \<and> (a_lock t \<noteq> 0 \<longrightarrow> t' = t))"
proof -
  have ok: "large_ok env K t" using inv cap by (simp add: str_inv_def)
  note st = large_facts[OF ok]
  have lt: "a_size t < a_capacity t" using store_counts(2)[OF st(1)] st(2) by simp
  consider "a_capacity t div 2 \<le> a_size t" "a_capacity t > 2 ^ 62"
    | "a_capacity t div 2 \<le> a_size t" "a_capacity t \<le> 2 ^ 62"
    | "a_size t < a_capacity t div 2" "(a_capacity t - a_size t) div 2 < t_tombstones t"
    | "a_size t < a_capacity t div 2" "t_tombstones t \<le> (a_capacity t - a_size t) div 2" by linarith
  then show ?thesis
  proof cases
    case 1
    then show ?thesis by (simp add: str_reserve_load_def str_grow_def throw_at_def)
  next
    case 2
    have mx: "max minCapacity (a_capacity t * 2) = a_capacity t * 2" using cap by (simp add: minCapacity_def)
    have "str_reserve_load env t = str_reserveInternal env t (a_capacity t * 2)"
      using 2 mx by (simp add: str_reserve_load_def str_grow_def)
    with str_reserveInternal_cases[OF wh inv is_pow2_double[OF st(4)]] lt cap show ?thesis by fastforce
  next
    case 3
    then have "str_reserve_load env t = str_reserveInternal env t (a_capacity t)"
      by (simp add: str_reserve_load_def str_rehash_def)
    with str_reserveInternal_cases[OF wh inv st(4) lt] 3 cap show ?thesis by fastforce
  next
    case 4
    then have "str_reserve_load env t = Some (t, Inr True)" by (simp add: str_reserve_load_def done_with_def)
    moreover have "a_size t + t_tombstones t + 1 < a_capacity t" using 4 cap by linarith
    ultimately show ?thesis using inv cap by simp
  qed
qed

definition str_holds :: "('v, 'k) table \<Rightarrow> 'k \<Rightarrow> nat \<Rightarrow> bool" where
  "str_holds t k i \<longleftrightarrow> i < a_capacity t \<and> tableLiveSlot t i \<and> t_keys t ! i = k"

lemma str_holds_packed:
  assumes "\<not> a_tableNoHash t" "a_capacity t = 8" "a_size t \<le> 8"
  shows "str_holds t k i \<longleftrightarrow> i < a_size t \<and> t_keys t ! i = k"
  using assms by (auto simp: str_holds_def tableLiveSlot_def TABLE_MAX_LINEAR_CAPACITY_def)

lemma str_holds_large:
  assumes "\<not> a_tableNoHash t" "8 < a_capacity t"
  shows "str_holds t k i \<longleftrightarrow> i < a_capacity t \<and> is_live (t_hash32 t ! i) \<and> t_keys t ! i = k"
  using assms by (auto simp: str_holds_def tableLiveSlot_def TABLE_MAX_LINEAR_CAPACITY_def hash_marks)

definition str_reserved :: "('v, 'k) tab_env \<Rightarrow> 'k set \<Rightarrow> ('v, 'k) table \<Rightarrow> 'k \<Rightarrow> ('v, 'k) table \<Rightarrow> int \<Rightarrow> bool" where
  "str_reserved env K t k t' r \<longleftrightarrow> str_inv env K t' \<and> 0 \<le> r \<and> str_holds t' k (nat r) \<and> a_lock t' = a_lock t \<and>
     str_map t' = (if str_map t k = None then (str_map t)(k \<mapsto> te_zero env) else str_map t)"

definition str_reserve_result ::
    "('v, 'k) tab_env \<Rightarrow> 'k set \<Rightarrow> ('v, 'k) table \<Rightarrow> 'k \<Rightarrow> ('v, 'k, int) tstep \<Rightarrow> bool" where
  "str_reserve_result env K t k res \<longleftrightarrow> (\<exists>t' r. res = Some (t', r) \<and>
     (case r of Inl e \<Rightarrow> str_inv env K t' \<and> str_map t' = str_map t \<and> a_lock t' = a_lock t
      | Inr i \<Rightarrow> str_reserved env K t k t' i) \<and> (isLocked t \<longrightarrow> t' = t))"

lemma str_reserve_result_carry:
  assumes "str_reserve_result env K u k res" "str_map u = str_map t" "a_lock u = a_lock t" "\<not> isLocked t"
  shows "str_reserve_result env K t k res"
proof -
  have same: "str_reserved env K u k t' i = str_reserved env K t k t' i" for t' i
    using assms(2,3) by (simp add: str_reserved_def)
  from assms(1) obtain t' r where "res = Some (t', r)"
    "case r of Inl e \<Rightarrow> str_inv env K t' \<and> str_map t' = str_map u \<and> a_lock t' = a_lock u
      | Inr i \<Rightarrow> str_reserved env K u k t' i" by (auto simp: str_reserve_result_def)
  with assms(2-4) same show ?thesis by (cases r) (auto simp: str_reserve_result_def)
qed

lemma str_map_large: "8 < a_capacity t \<Longrightarrow> str_map t = store_map (t_keys t) (t_hash32 t) (a_data t)"
  by (simp add: str_map_def)

lemma str_map_packed: "a_capacity t \<le> 8 \<Longrightarrow> str_map t = store_map (t_keys t) (t_hash64 t) (a_data t)"
  by (simp add: str_map_def)

lemma str_reserve_large:
  assumes wh: "well_hashed env K" and inv: "str_inv env K t" and cap: "8 < a_capacity t" and k: "k \<in> K"
  shows "str_reserve_result env K t k (str_reserve env t k (te_hash env k))"
proof -
  have run: "str_reserve env t k (te_hash env k) =
      tbind (str_reserve_load env t) (\<lambda>tab _. str_reserve_walk tab k (te_hash env k))"
    using cap by (subst str_reserve.simps) (simp add: TABLE_MAX_LINEAR_CAPACITY_def)
  from str_reserve_load_cases[OF wh inv cap] show ?thesis
  proof
    assume "\<exists>e. str_reserve_load env t = Some (t, Inl e)"
    with run inv show ?thesis by (auto simp: str_reserve_result_def)
  next
    assume "\<exists>t'. str_reserve_load env t = Some (t', Inr True) \<and> str_inv env K t' \<and> 8 < a_capacity t' \<and>
      a_size t' + t_tombstones t' + 1 < a_capacity t' \<and>
      a_lock t' = a_lock t \<and> str_map t' = str_map t \<and> (a_lock t \<noteq> 0 \<longrightarrow> t' = t)"
    then obtain u where u: "str_reserve_load env t = Some (u, Inr True)" "str_inv env K u" "8 < a_capacity u"
      "a_size u + t_tombstones u + 1 < a_capacity u" "a_lock u = a_lock t" "str_map u = str_map t"
      "a_lock t \<noteq> 0 \<longrightarrow> u = t" by blast
    have ok: "large_ok env K u" "\<not> a_tableNoHash u" using u(2,3) by (auto simp: str_inv_def)
    have run': "str_reserve env t k (te_hash env k) = str_reserve_walk u k (te_hash env k)" using run u(1) by simp
    from large_reserve_walk[OF wh ok(1) k u(3,4)] show ?thesis
    proof (elim disjE exE conjE)
      fix i assume i: "i < a_capacity u" "str_reserve_walk u k (te_hash env k) = Some (u, Inr (int i))"
        "is_live (t_hash32 u ! i)" "t_keys u ! i = k"
      have "str_map u k \<noteq> None"
        using i large_facts(1,2)[OF ok(1)] u(3) store_lookup(2)[OF large_facts(1)[OF ok(1)], of k] by (auto simp: str_map_large)
      with run' i u ok show ?thesis
        by (auto simp: str_reserve_result_def str_reserved_def isLocked_def str_holds_large)
    next
      fix e assume "isLocked u" "str_reserve_walk u k (te_hash env k) = Some (u, Inl e)"
      with run' u show ?thesis by (auto simp: str_reserve_result_def isLocked_def)
    next
      fix t' i assume w: "store_map (t_keys u) (t_hash32 u) (a_data u) k = None" "\<not> isLocked u"
        "str_reserve_walk u k (te_hash env k) = Some (t', Inr (int i))" "i < a_capacity t'" "large_ok env K t'"
        "a_capacity t' = a_capacity u" "is_live (t_hash32 t' ! i)" "t_keys t' ! i = k"
        "a_tableNoHash t' = a_tableNoHash u" "a_lock t' = a_lock u"
        "store_map (t_keys t') (t_hash32 t') (a_data t') = (store_map (t_keys u) (t_hash32 u) (a_data u))(k \<mapsto> te_zero env)"
      have "str_inv env K t'" using w ok u(3) by (simp add: str_inv_def)
      moreover have "str_map t' = (str_map t)(k \<mapsto> te_zero env)" "str_map t k = None"
        using w u(3,6) str_map_large[of t'] str_map_large[of u] by simp_all
      ultimately show ?thesis using run' w u ok
        by (auto simp: str_reserve_result_def str_reserved_def isLocked_def str_holds_large)
    qed
  qed
qed

lemma str_reserve_packed:
  assumes wh: "well_hashed env K" and inv: "str_inv env K t" and cap: "a_capacity t = 8" and k: "k \<in> K"
  shows "str_reserve_result env K t k (str_reserve env t k (te_hash env k))"
proof -
  have ok: "packed_ok env K t" "\<not> a_tableNoHash t" using inv cap by (auto simp: str_inv_def)
  have sz: "a_size t \<le> 8" using ok by (simp add: packed_ok_def)
  note map = str_map_packed[of t, unfolded cap, OF order_refl]
  from packed_find[OF wh ok(1) k] show ?thesis
  proof
    assume "\<exists>i<a_size t. PackedPolicy_find t (te_hash env k) = int i \<and> t_keys t ! i = k"
    then obtain i where i: "i < a_size t" "PackedPolicy_find t (te_hash env k) = int i" "t_keys t ! i = k" by blast
    have "str_reserve env t k (te_hash env k) = Some (t, Inr (int i))"
      using cap i by (subst str_reserve.simps) (simp add: TABLE_MAX_LINEAR_CAPACITY_def done_with_def)
    moreover have "str_map t k \<noteq> None" using packed_lookup(2)[OF wh ok(1), of k] i map by auto
    ultimately show ?thesis
      using inv i str_holds_packed[OF ok(2) cap sz] by (auto simp: str_reserve_result_def str_reserved_def)
  next
    assume a: "PackedPolicy_find t (te_hash env k) = -1 \<and> (\<forall>i<a_size t. t_keys t ! i \<noteq> k)"
    then have none: "str_map t k = None" using packed_lookup(2)[OF wh ok(1), of k] map by simp
    show ?thesis
    proof (cases "isLocked t")
      case True
      then have "str_reserve env t k (te_hash env k) = Some (throw_at t ''can't insert into locked table'')"
        using cap a by (subst str_reserve.simps) (simp add: TABLE_MAX_LINEAR_CAPACITY_def)
      with inv show ?thesis by (auto simp: str_reserve_result_def throw_at_def)
    next
      case nl: False
      show ?thesis
      proof (cases "a_size t = 8")
        case False
        then have room: "a_size t < 8" using sz by simp
        from packed_append[OF wh ok(1) k room] a obtain t' where
          t': "str_append_packed t k (te_hash env k) = (t', Inr (int (a_size t)))" "packed_ok env K t'"
          "a_size t' = a_size t + 1" "t_keys t' ! a_size t = k" "a_capacity t' = a_capacity t"
          "a_tableNoHash t' = a_tableNoHash t" "a_lock t' = a_lock t"
          "store_map (t_keys t') (t_hash64 t') (a_data t') = (store_map (t_keys t) (t_hash64 t) (a_data t))(k \<mapsto> te_zero env)"
          by blast
        have "str_reserve env t k (te_hash env k) = Some (t', Inr (int (a_size t)))"
          using cap a nl room t'(1) by (subst str_reserve.simps) (simp add: TABLE_MAX_LINEAR_CAPACITY_def)
        moreover have "str_inv env K t'" using t' ok cap by (simp add: str_inv_def)
        moreover have "str_map t' = (str_map t)(k \<mapsto> te_zero env)"
          using t'(8) t'(5) cap str_map_packed[of t'] map by simp
        moreover have "str_holds t' k (a_size t)"
          using str_holds_packed[of t' k "a_size t"] t' ok cap room by simp
        ultimately show ?thesis using t' none nl by (auto simp: str_reserve_result_def str_reserved_def)
      next
        case True
        have run: "str_reserve env t k (te_hash env k) =
            tbind (str_reserveInternal env t 32) (\<lambda>tab _. str_reserve env tab k (te_hash env k))"
          using cap a nl True by (subst str_reserve.simps) (simp add: TABLE_MAX_LINEAR_CAPACITY_def)
        have p: "is_pow2 (32 :: nat)" "a_size t < 32" using is_pow2_quad[OF is_pow2_8] True by simp_all
        have "(8::nat) < 32 \<or> (32::nat) = 8 \<and> a_capacity t = 0" by simp
        from str_reserveInternal_cases[OF wh inv p this] show ?thesis
        proof (elim disjE)
          assume "\<exists>e. str_reserveInternal env t 32 = Some (t, Inl e)"
          with run inv show ?thesis by (auto simp: str_reserve_result_def)
        next
          assume "\<exists>t'. str_reserveInternal env t 32 = Some (t', Inr True) \<and> a_magic t = 0 \<and> a_lock t = 0 \<and>
            str_inv env K t' \<and> a_capacity t' = 32 \<and> a_size t' = a_size t \<and> t_tombstones t' = 0 \<and>
            a_lock t' = 0 \<and> a_magic t' = 0 \<and> str_map t' = str_map t"
          then obtain u where u: "str_reserveInternal env t 32 = Some (u, Inr True)" "a_lock t = 0"
            "str_inv env K u" "8 < a_capacity u" "a_lock u = 0" "str_map u = str_map t" by auto
          have "str_reserve env t k (te_hash env k) = str_reserve env u k (te_hash env k)" using run u(1) by simp
          with str_reserve_result_carry[OF str_reserve_large[OF wh u(3,4) k]] u nl show ?thesis by simp
        qed
      qed
    qed
  qed
qed

lemma str_reserve_ok:
  assumes wh: "well_hashed env K" and inv: "str_inv env K t" and k: "k \<in> K"
  shows "str_reserve_result env K t k (str_reserve env t k (te_hash env k))"
proof -
  consider "8 < a_capacity t" | "a_capacity t = 8" | "a_capacity t = 0"
    using inv by (cases "a_capacity t = 0"; cases "a_capacity t \<le> 8") (auto simp: str_inv_def)
  then show ?thesis
  proof cases
    case 1
    then show ?thesis using str_reserve_large[OF wh inv _ k] by simp
  next
    case 2
    then show ?thesis using str_reserve_packed[OF wh inv _ k] by simp
  next
    case 3
    show ?thesis
    proof (cases "isLocked t")
      case True
      then have "str_reserve env t k (te_hash env k) = Some (throw_at t ''can't insert into locked table'')"
        using 3 by (subst str_reserve.simps) (simp add: TABLE_MAX_LINEAR_CAPACITY_def)
      with inv show ?thesis by (auto simp: str_reserve_result_def throw_at_def)
    next
      case nl: False
      have s0: "a_size t = 0" using inv 3 by (simp add: str_inv_def)
      have run: "str_reserve env t k (te_hash env k) =
          tbind (str_reserveInternal env t 8) (\<lambda>tab _. str_reserve env tab k (te_hash env k))"
        using 3 nl s0 by (subst str_reserve.simps) (simp add: TABLE_MAX_LINEAR_CAPACITY_def minCapacity_def)
      have "a_size t < 8" "(8::nat) < 8 \<or> (8::nat) = 8 \<and> a_capacity t = 0" using s0 3 by simp_all
      from str_reserveInternal_cases[OF wh inv is_pow2_8 this] show ?thesis
      proof (elim disjE)
        assume "\<exists>e. str_reserveInternal env t 8 = Some (t, Inl e)"
        with run inv show ?thesis by (auto simp: str_reserve_result_def)
      next
        assume "\<exists>t'. str_reserveInternal env t 8 = Some (t', Inr True) \<and> a_magic t = 0 \<and> a_lock t = 0 \<and>
          str_inv env K t' \<and> a_capacity t' = 8 \<and> a_size t' = a_size t \<and> t_tombstones t' = 0 \<and>
          a_lock t' = 0 \<and> a_magic t' = 0 \<and> str_map t' = str_map t"
        then obtain u where u: "str_reserveInternal env t 8 = Some (u, Inr True)" "a_lock t = 0"
          "str_inv env K u" "a_capacity u = 8" "a_lock u = 0" "str_map u = str_map t" by auto
        have "str_reserve env t k (te_hash env k) = str_reserve env u k (te_hash env k)" using run u(1) by simp
        with str_reserve_result_carry[OF str_reserve_packed[OF wh u(3,4) k]] u nl show ?thesis by simp
      qed
    qed
  qed
qed

end
