(* ===== verification/StrTableProps.thy ===== *)
theory StrTableProps
  imports StrTable MapTable TableIteration
begin

text \<open>
  The tables with string keys meet the same finite-map contract, for well-hashed keys.
\<close>

lemma str_find_ok:
  assumes wh: "well_hashed env K" and inv: "str_inv env K t" and k: "k \<in> K"
  shows "\<exists>r. str_find t k (te_hash env k) = Some r \<and>
    (if r = -1 then str_map t k = None else 0 \<le> r \<and> str_holds t k (nat r))"
proof -
  consider "8 < a_capacity t" | "a_capacity t = 8" | "a_capacity t = 0"
    using inv by (cases "a_capacity t = 0"; cases "a_capacity t \<le> 8") (auto simp: str_inv_def)
  then show ?thesis
  proof cases
    case 1
    then have "large_ok env K t" "\<not> a_tableNoHash t" using inv by (auto simp: str_inv_def)
    with large_find[OF wh _ k 1] show ?thesis
      using 1 by (auto simp: str_map_large str_holds_large split: if_splits)
  next
    case 2
    then have ok: "packed_ok env K t" "\<not> a_tableNoHash t" using inv by (auto simp: str_inv_def)
    then have sz: "a_size t \<le> 8" by (simp add: packed_ok_def)
    have run: "str_find t k (te_hash env k) = Some (PackedPolicy_find t (te_hash env k))"
      using 2 by (simp add: str_find_def TABLE_MAX_LINEAR_CAPACITY_def)
    from packed_find[OF wh ok(1) k] run packed_lookup(2)[OF wh ok(1), of k] str_holds_packed[OF ok(2) 2 sz] 2
    show ?thesis by (auto simp: str_map_packed)
  next
    case 3
    with str_map_unallocated[OF inv 3] show ?thesis by (simp add: str_find_def)
  qed
qed

lemma str_erase_ok:
  assumes wh: "well_hashed env K" and inv: "str_inv env K t" and k: "k \<in> K"
  shows "\<exists>t' r. str_erase env t k (te_hash env k) = Some (t', Inr r) \<and> str_inv env K t' \<and>
    str_map t' = (str_map t)(k := None) \<and> (r = -1 \<longleftrightarrow> str_map t k = None) \<and> a_lock t' = a_lock t"
proof -
  consider "8 < a_capacity t" | "a_capacity t = 8" | "a_capacity t = 0"
    using inv by (cases "a_capacity t = 0"; cases "a_capacity t \<le> 8") (auto simp: str_inv_def)
  then show ?thesis
  proof cases
    case 1
    then have "large_ok env K t" "\<not> a_tableNoHash t" using inv by (auto simp: str_inv_def)
    with large_erase[OF wh _ k 1] 1 show ?thesis by (fastforce simp: str_map_large str_inv_def)
  next
    case 2
    then have ok: "packed_ok env K t" "\<not> a_tableNoHash t" using inv by (auto simp: str_inv_def)
    have "str_erase env t k (te_hash env k) = Some (str_erase_packed env t (te_hash env k))"
      using 2 by (simp add: str_erase_def TABLE_MAX_LINEAR_CAPACITY_def)
    with packed_erase[OF wh ok(1) k] packed_lookup(2)[OF wh ok(1), of k] 2 ok(2) show ?thesis
      by (fastforce simp: str_map_packed str_inv_def)
  next
    case 3
    with str_map_unallocated[OF inv 3] inv show ?thesis by (simp add: str_erase_def done_with_def)
  qed
qed

lemma str_holds_load:
  assumes wh: "well_hashed env K" and inv: "str_inv env K t" and h: "str_holds t k i"
  shows "str_map t k = Some (table_load t i)"
proof -
  consider "8 < a_capacity t" | "a_capacity t = 8"
    using inv h by (cases "a_capacity t = 0"; cases "a_capacity t \<le> 8") (auto simp: str_inv_def str_holds_def)
  then show ?thesis
  proof cases
    case 1
    then have ok: "large_ok env K t" "\<not> a_tableNoHash t" using inv by (auto simp: str_inv_def)
    note st = large_facts[OF ok(1)]
    show ?thesis
      using h str_holds_large[OF ok(2) 1] store_lookup(1)[OF st(1), of k "a_data t ! i"] st(2) 1
      by (auto simp: str_map_large table_load_def)
  next
    case 2
    then have ok: "packed_ok env K t" "\<not> a_tableNoHash t" using inv by (auto simp: str_inv_def)
    then have sz: "a_size t \<le> 8" by (simp add: packed_ok_def)
    show ?thesis
      using h str_holds_packed[OF ok(2) 2 sz] packed_lookup(1)[OF wh ok(1), of k "a_data t ! i"] 2
      by (auto simp: str_map_packed table_load_def)
  qed
qed

lemma str_store_ok:
  assumes wh: "well_hashed env K" and inv: "str_inv env K t" and h: "str_holds t k i"
  shows "str_inv env K (table_store t i v)" "str_map (table_store t i v) = (str_map t)(k \<mapsto> v)"
proof -
  have both: "str_inv env K (table_store t i v) \<and> str_map (table_store t i v) = (str_map t)(k \<mapsto> v)"
  proof -
    consider "8 < a_capacity t" | "a_capacity t = 8"
      using inv h by (cases "a_capacity t = 0"; cases "a_capacity t \<le> 8") (auto simp: str_inv_def str_holds_def)
    then show ?thesis
    proof cases
      case 1
      then have ok: "large_ok env K t" "\<not> a_tableNoHash t" using inv by (auto simp: str_inv_def)
      note st = large_facts[OF ok(1)]
      have i: "i < length (t_hash32 t)" "is_live (t_hash32 t ! i)" "t_keys t ! i = k"
        using h str_holds_large[OF ok(2) 1] st(2) by auto
      note w = store_write[OF st(1) i(1,2), of v]
      have "large_ok env K (table_store t i v)" using ok(1) w(1) by (simp add: large_ok_def table_store_def)
      with ok(2) 1 w(2) i(3) show ?thesis by (simp add: str_inv_def str_map_def table_store_def)
    next
      case 2
      then have ok: "packed_ok env K t" "\<not> a_tableNoHash t" using inv by (auto simp: str_inv_def)
      then have sz: "a_size t \<le> 8" by (simp add: packed_ok_def)
      have i: "i < a_size t" "t_keys t ! i = k" using h str_holds_packed[OF ok(2) 2 sz] by auto
      have ok': "packed_ok env K (table_store t i v)"
        using ok(1) i(1) by (auto simp: packed_ok_def table_store_def)
      have dk: "x < a_size t \<Longrightarrow> t_keys t ! x = k \<Longrightarrow> x = i" for x using ok(1) i by (auto simp: packed_ok_def)
      have len: "length (a_data t) = 8" using ok(1) by (simp add: packed_ok_def)
      have "store_map (t_keys (table_store t i v)) (t_hash64 (table_store t i v)) (a_data (table_store t i v)) =
          (str_map t)(k \<mapsto> v)"
      proof (rule packed_map_eqI[OF wh ok'])
        fix k' w
        have "(\<exists>x<a_size t. t_keys t ! x = k' \<and> (a_data t)[i := v] ! x = w) \<longleftrightarrow>
            (if k' = k then w = v else \<exists>x<a_size t. t_keys t ! x = k' \<and> a_data t ! x = w)"
        proof (cases "k' = k")
          case True
          have "(a_data t)[i := v] ! i = v" using i(1) sz len by simp
          with True dk i show ?thesis by metis
        next
          case False
          have "x \<noteq> i" if "t_keys t ! x = k'" for x using that i(2) False by auto
          then have "(a_data t)[i := v] ! x = a_data t ! x" if "t_keys t ! x = k'" for x
            using that by (metis nth_list_update_neq)
          with False show ?thesis by auto
        qed
        then show "((str_map t)(k \<mapsto> v)) k' = Some w \<longleftrightarrow>
            (\<exists>x<a_size (table_store t i v). t_keys (table_store t i v) ! x = k' \<and> a_data (table_store t i v) ! x = w)"
          using packed_lookup(1)[OF wh ok(1), of k' w] 2 by (auto simp: table_store_def str_map_packed)
      qed
      with ok(2) ok' 2 show ?thesis by (simp add: str_inv_def str_map_def table_store_def)
    qed
  qed
  then show "str_inv env K (table_store t i v)" "str_map (table_store t i v) = (str_map t)(k \<mapsto> v)" by blast+
qed

definition str_good :: "('v, 'k) tab_env \<Rightarrow> 'k set \<Rightarrow> ('v, 'k) table \<Rightarrow> bool" where
  "str_good env K t \<longleftrightarrow> well_hashed env K \<and> str_inv env K t \<and> a_lock t = 0"

interpretation str: table_contract True env K "str_good env K" str_holds str_map
  for env :: "('v, 'k) tab_env" and K :: "'k set"
proof
  fix t :: "('v, 'k) table" and k :: 'k
  assume t: "str_good env K t" and k: "k \<in> K"
  then have wh: "well_hashed env K" and inv: "str_inv env K t" and nl: "\<not> isLocked t"
    by (auto simp: str_good_def isLocked_def)
  show "\<exists>r. tab_find True t k (te_hash env k) = Some r \<and>
        (if r = -1 then str_map t k = None else 0 \<le> r \<and> str_holds t k (nat r))"
    using str_find_ok[OF wh inv k] by (simp add: tab_find_def)
  from str_reserve_ok[OF wh inv k] obtain t' r where r: "str_reserve env t k (te_hash env k) = Some (t', r)"
    "case r of Inl e \<Rightarrow> str_inv env K t' \<and> str_map t' = str_map t \<and> a_lock t' = a_lock t
      | Inr i \<Rightarrow> str_reserved env K t k t' i" by (auto simp: str_reserve_result_def)
  then show "\<exists>t' r. TableIndex_compute True env t k = Some (t', r) \<and> str_good env K t' \<and>
        (case r of Inl e \<Rightarrow> str_map t' = str_map t
         | Inr i \<Rightarrow> str_holds t' k i \<and> str_map t' = (if str_map t k = None then (str_map t)(k \<mapsto> te_zero env) else str_map t))"
    using nl t by (cases r)
      (auto simp: TableIndex_compute_def tab_reserve_def done_with_def str_good_def str_reserved_def)
  show "\<exists>t'. TableErase_compute True env t k = Some (t', Inr (str_map t k \<noteq> None)) \<and> str_good env K t' \<and>
      str_map t' = (str_map t)(k := None)"
    using str_erase_ok[OF wh inv k] nl t
    by (auto simp: TableErase_compute_def tab_erase_def done_with_def str_good_def)
next
  fix t :: "('v, 'k) table" and k :: 'k and i
  assume "str_good env K t" "str_holds t k i"
  then show "str_map t k = Some (table_load t i)" using str_holds_load by (auto simp: str_good_def)
next
  fix t :: "('v, 'k) table" and k :: 'k and i v
  assume "str_good env K t" "str_holds t k i"
  then show "str_good env K (table_store t i v) \<and> str_map (table_store t i v) = (str_map t)(k \<mapsto> v)"
    using str_store_ok[of env K t k i v] by (auto simp: str_good_def table_store_def)
qed

text \<open>C2: for string keys that are well hashed, a script's accesses to an unlocked table always return and answer as a finite map does, through the packed regime, the promotion to open addressing and every later growth; a throw leaves the map of the accesses before it.\<close>

theorem str_accesses_refine_map:
  assumes "well_hashed env K" and "str_inv env K t" and "a_lock t = 0" and "\<forall>op\<in>set ops. access_key op \<in> K"
  shows "\<exists>t' r. run_accesses True env ops t = Some (t', r) \<and> str_inv env K t' \<and>
    (case r of Inl e \<Rightarrow> \<exists>n<length ops. str_map t' = fst (map_accesses (te_zero env) (take n ops) (str_map t))
     | Inr as \<Rightarrow> (str_map t', as) = map_accesses (te_zero env) ops (str_map t))"
proof -
  have "str_good env K t" using assms by (simp add: str_good_def)
  from str.accesses_refine[OF this assms(4)] show ?thesis by (auto simp: str_good_def)
qed

lemma str_inv_zero [simp]: "str_inv env K zero_table" "str_map zero_table = Map.empty"
  by (simp_all add: str_inv_def str_map_def slots_map_def slots_entries_def fun_eq_iff)

text \<open>\<open>reserveAfterPackedMiss\<close>, the shortcut of compiled code that has scanned the packed slots itself, does exactly what \<open>reserve\<close> does when that scan found nothing.\<close>

theorem packed_miss_shortcut:
  assumes "0 < a_capacity t" and "a_capacity t \<le> TABLE_MAX_LINEAR_CAPACITY" and "PackedPolicy_find t hash = -1"
  shows "reserveAfterPackedMiss env t k hash = str_reserve env t k hash"
  using assms by (subst str_reserve.simps) (simp add: reserveAfterPackedMiss_def)

definition demo_str_env :: "(nat, nat) tab_env" where
  "demo_str_env = \<lparr>te_hash = (\<lambda>k. of_nat (k + 2)), te_valueTypeSize = 4, te_keySize = 8, te_zero = 0, te_junk = 77,
     te_grants = (\<lambda>n. n < 1000)\<rparr>"

theorem packed_miss_shortcut_witness:
  "reserveAfterPackedMiss demo_str_env (zero_table\<lparr>a_capacity := 8, t_hash64 := replicate 8 0\<rparr>) 3 5 =
   str_reserve demo_str_env (zero_table\<lparr>a_capacity := 8, t_hash64 := replicate 8 0\<rparr>) 3 5"
proof -
  let ?t = "zero_table\<lparr>a_capacity := 8, t_hash64 := replicate 8 0\<rparr>"
  have "PackedPolicy_find ?t 5 = -1"
    by (simp add: PackedPolicy_find_def TABLE_MAX_LINEAR_CAPACITY_def upt_rec)
  then show ?thesis by (intro packed_miss_shortcut) (simp_all add: TABLE_MAX_LINEAR_CAPACITY_def)
qed

end
