(* ===== verification/Hashing.thy ===== *)
theory Hashing
  imports Prelude
begin

text \<open>
  The hash functions of \<open>anyhash.h\<close> that feed the tables, and the multiply-and-fold they are
  built on (\<open>wyhash.h\<close>, 64-bit build). A string is hashed two bytes at a time. The header has
  two versions of that loop; the fast one reads a \<open>uint16_t\<close> before it looks at the first
  byte. The block is the list of readable bytes, terminator included; \<open>None\<close> is a read past it.
\<close>

definition DAS_WYHASH_SEED :: u64 where "DAS_WYHASH_SEED = 0x1234567890abcdef"
definition FNV_offset_basis :: u64 where "FNV_offset_basis = 14695981039346656037"
definition FNV_prime :: u64 where "FNV_prime = 1099511628211"

definition wymum :: "u64 \<Rightarrow> u64 \<Rightarrow> u64 \<times> u64" where
  "wymum A B = (let r = unat A * unat B in (of_nat r, of_nat (r div 2 ^ 64)))"

definition wymix :: "u64 \<Rightarrow> u64 \<Rightarrow> u64" where
  "wymix A B = (let (a, b) = wymum A B in a XOR b)"

text \<open>\<open>h <= HASH_KILLED64 ? 1099511628211 : h\<close>, which every hash function ends with.\<close>

definition clamp_hash :: "u64 \<Rightarrow> u64" where
  "clamp_hash h = (if h \<le> 1 then 1099511628211 else h)"

definition hash_uint32 :: "u32 \<Rightarrow> u64" where
  "hash_uint32 v = clamp_hash (wymix (ucast v) DAS_WYHASH_SEED)"

definition hash_uint64 :: "u64 \<Rightarrow> u64" where
  "hash_uint64 v = clamp_hash (wymix v DAS_WYHASH_SEED)"

fun hash_safe_loop :: "u8 list \<Rightarrow> u64 \<Rightarrow> u64 option" where
  "hash_safe_loop [] h = None"
| "hash_safe_loop (b0 # rest) h =
    (if b0 = 0 then Some h
     else case rest of [] \<Rightarrow> None
       | b1 # more \<Rightarrow>
          let v = (ucast b0 :: u64) OR push_bit 8 (ucast b1);
              h' = (h XOR v) * FNV_prime
          in if v < 0x100 then Some h' else hash_safe_loop more h')"

fun hash_fast_loop :: "u8 list \<Rightarrow> u64 \<Rightarrow> u64 option" where
  "hash_fast_loop (b0 # b1 # more) h =
    (let v = (ucast b0 :: u64) OR push_bit 8 (ucast b1) in
     if v AND 0xff = 0 then Some h
     else let h' = (h XOR v) * FNV_prime
          in if v < 0x100 then Some h' else hash_fast_loop more h')"
| "hash_fast_loop _ h = None"

definition hash_blockz64_safe :: "u8 list option \<Rightarrow> u64 option" where
  "hash_blockz64_safe block = (case block of None \<Rightarrow> Some FNV_offset_basis
     | Some b \<Rightarrow> map_option clamp_hash (hash_safe_loop b FNV_offset_basis))"

definition hash_blockz64_fast :: "u8 list option \<Rightarrow> u64 option" where
  "hash_blockz64_fast block = (case block of None \<Rightarrow> Some FNV_offset_basis
     | Some b \<Rightarrow> map_option clamp_hash (hash_fast_loop b FNV_offset_basis))"

text \<open>A string key: null, or the bytes before the terminator.\<close>

definition hash_string :: "u8 list option \<Rightarrow> u64" where
  "hash_string s = the (hash_blockz64_safe (map_option (\<lambda>b. b @ [0]) s))"

lemma clamp_hash_live: "1 < clamp_hash h"
  by (simp add: clamp_hash_def not_le)

lemma pair_low_byte: "((ucast (b0 :: u8) :: u64) OR push_bit 8 (ucast (b1 :: u8))) AND 0xff = ucast b0"
proof (rule bit_word_eqI)
  fix n assume "n < LENGTH(64)"
  have m: "(255 :: u64) = mask 8" by (simp add: mask_eq_exp_minus_1)
  have "bit (0xff :: u64) n \<longleftrightarrow> n < 8" unfolding m using \<open>n < LENGTH(64)\<close> by (simp only: bit_mask_iff) simp
  then show "bit (((ucast b0 :: u64) OR push_bit 8 (ucast b1)) AND 0xff) n = bit (ucast b0 :: u64) n"
    using bit_imp_le_length[of b0 n] \<open>n < LENGTH(64)\<close> by (auto simp: bit_simps)
qed

lemma unat_byte: "unat (ucast (b :: u8) :: u64) = unat b"
proof -
  have "unat b < 2 ^ 64" using unsigned_less[of b, where 'a = nat] by simp
  then show ?thesis by (simp add: unsigned_ucast_eq take_bit_nat_eq_self)
qed

lemma low_byte_zero: "(ucast (b :: u8) :: u64) = 0 \<longleftrightarrow> b = 0"
  using unat_byte[of b] by (metis unat_eq_zero)

lemma byte_small: "(ucast (b :: u8) :: u64) < 256"
  using unsigned_less[of b, where 'a = nat] by (simp add: word_less_nat_alt unat_byte)

text \<open>The two versions of the string hash agree: whatever the fast loop returns the safe one returns too, and the fast loop returns whenever one more byte is readable behind the terminator; without that byte it can read out of bounds, as it does on the empty string.\<close>

theorem hash_versions_agree:
  "(\<forall>h. hash_blockz64_fast (Some b) = Some h \<longrightarrow> hash_blockz64_safe (Some b) = Some h) \<and>
   (\<forall>h g. hash_blockz64_safe (Some b) = Some h \<longrightarrow> hash_blockz64_fast (Some (b @ [g])) = Some h) \<and>
   hash_blockz64_fast (Some [0]) = None"
proof -
  have agree: "hash_fast_loop b h0 = Some h \<Longrightarrow> hash_safe_loop b h0 = Some h" for h h0
  proof (induction b h0 rule: hash_fast_loop.induct)
    case (1 b0 b1 more h0)
    then show ?case by (auto simp: Let_def pair_low_byte low_byte_zero split: if_splits)
  qed simp_all
  have more: "hash_safe_loop b h0 = Some h \<Longrightarrow> hash_fast_loop (b @ [g]) h0 = Some h" for h h0 g
  proof (induction b h0 rule: hash_safe_loop.induct)
    case (2 b0 rest h0)
    show ?case
    proof (cases rest)
      case Nil
      with 2 show ?thesis by (auto simp: Let_def pair_low_byte low_byte_zero split: if_splits)
    next
      case (Cons b1 bs)
      with 2 show ?thesis by (auto simp: Let_def pair_low_byte low_byte_zero split: if_splits)
    qed
  qed simp
  show ?thesis
    using agree more by (auto simp: hash_blockz64_fast_def hash_blockz64_safe_def)
qed

theorem hash_versions_agree_witness:
  "\<exists>h. hash_blockz64_safe (Some [102, 0]) = Some h \<and> hash_blockz64_fast (Some [102, 0, 7]) = Some h"
proof -
  obtain h where h: "hash_blockz64_safe (Some [102, 0]) = Some h"
    by (simp add: hash_blockz64_safe_def Let_def byte_small)
  with hash_versions_agree[of "[102, 0]"] have "hash_blockz64_fast (Some ([102, 0] @ [7])) = Some h" by blast
  with h show ?thesis by simp
qed

lemma hash_safe_loop_total:
  "\<exists>h. hash_safe_loop (b @ [0]) h0 = Some h"
proof (induction b h0 rule: hash_safe_loop.induct)
  case (2 b0 rest h0)
  then show ?case by (cases rest) (auto simp: Let_def byte_small)
qed simp

text \<open>hashing a zero-terminated string reads inside its block and returns, and no hash of a key is one of the two values 0 and 1 that mark empty and erased slots.\<close>

theorem hashes_avoid_marks:
  "hash_blockz64_safe (Some (b @ [0])) = Some (hash_string (Some b)) \<and>
   1 < hash_string s \<and> 1 < hash_uint32 v \<and> 1 < hash_uint64 w"
proof -
  have total: "hash_blockz64_safe (Some (b @ [0])) = Some (hash_string (Some b))" for b
    using hash_safe_loop_total[of b FNV_offset_basis] by (auto simp: hash_string_def hash_blockz64_safe_def)
  moreover have "1 < hash_string s"
  proof (cases s)
    case None
    then show ?thesis by (simp add: hash_string_def hash_blockz64_safe_def FNV_offset_basis_def)
  next
    case (Some b)
    with total[of b] show ?thesis
      by (auto simp: hash_blockz64_safe_def) (metis clamp_hash_live)
  qed
  ultimately show ?thesis by (simp add: hash_uint32_def hash_uint64_def clamp_hash_live)
qed

end
