(* ===== verification/LostKey.thy ===== *)
theory LostKey
  imports StrTableProps Hashing
begin

text \<open>
  What happens to the keys the string-table contract leaves out. A large string table stores
  32 bits of a hash, with 0 and 1 remapped to 16777619 (\<open>hashToHashKey\<close>); when it is
  reallocated, the remapped value is all that is left, and \<open>insertNew\<close> uses it to pick the
  slot, while \<open>find\<close> still starts from the real hash. In the packed regime the key itself is
  never compared, so two keys with one hash are one key.
\<close>

definition str_env :: "(nat \<Rightarrow> bool) \<Rightarrow> (nat, u8 list option) tab_env" where
  "str_env grants = \<lparr>te_hash = hash_string, te_valueTypeSize = 4, te_keySize = 8, te_zero = 0, te_junk = None,
     te_grants = grants\<rparr>"

definition key_foo :: "u8 list option" where "key_foo = Some [102, 111, 111]"
definition key_bar :: "u8 list option" where "key_bar = Some [98, 97, 114]"

lemma hash_foo: "hash_string key_foo = 10659555259659281474" by code_simp
lemma hash_bar: "hash_string key_bar = 8214642720745973589" by code_simp

lemma foo_bar_well_hashed: "well_hashed (str_env (\<lambda>n. n < 10000)) {key_foo, key_bar}"
proof -
  have "inj_on hash_string {key_foo, key_bar}" by (simp add: inj_on_def hash_foo hash_bar)
  moreover have "1 < (ucast (hash_string key_foo) :: u32)" "1 < (ucast (hash_string key_bar) :: u32)"
    by (simp_all add: hash_foo hash_bar)
  ultimately show ?thesis by (simp add: well_hashed_def str_env_def)
qed

theorem str_accesses_refine_map_witness:
  "\<exists>t' r. run_accesses True (str_env (\<lambda>n. n < 10000)) [Put key_foo 1, Put key_bar 2, Del key_foo, Get key_bar] zero_table
      = Some (t', r) \<and> (case r of Inl e \<Rightarrow> True | Inr as \<Rightarrow> as = [Done, Done, Truth True, Value (Some 2)])"
proof -
  let ?ops = "[Put key_foo 1, Put key_bar 2, Del key_foo, Get key_bar] :: (u8 list option, nat) access list"
  have k: "\<forall>op\<in>set ?ops. access_key op \<in> {key_foo, key_bar}" by simp
  have ne: "key_foo \<noteq> key_bar" by (simp add: key_foo_def key_bar_def)
  from str_accesses_refine_map[OF foo_bar_well_hashed str_inv_zero(1) _ k] obtain t' r where
    "run_accesses True (str_env (\<lambda>n. n < 10000)) ?ops zero_table = Some (t', r)"
    "case r of Inl e \<Rightarrow> \<exists>n<length ?ops. str_map t' =
        fst (map_accesses (te_zero (str_env (\<lambda>n. n < 10000))) (take n ?ops) (str_map zero_table))
      | Inr as \<Rightarrow> (str_map t', as) = map_accesses (te_zero (str_env (\<lambda>n. n < 10000))) ?ops (str_map zero_table)"
    by auto
  then show ?thesis using ne by (intro exI[of _ t'] exI[of _ r]) (auto split: sum.splits)
qed

section \<open>A lost key\<close>

lemma low_zero_or_one:
  assumes "(ucast (h :: u64) :: u32) \<le> 1"
  obtains s where "s < 2" "unat h AND 15 = s" "unat h AND 31 = s"
proof -
  have "unat (ucast h :: u32) \<le> 1" using assms by (simp add: word_le_nat_alt)
  then have l: "unat h mod 2 ^ 32 \<le> 1" by (simp add: unat_low32)
  have m: "unat h AND 15 = unat h mod 2 ^ 4" "unat h AND 31 = unat h mod 2 ^ 5"
    using and_pow2_mask[of "unat h" 4] and_pow2_mask[of "unat h" 5] by simp_all
  have "unat h mod 2 ^ 4 = unat h mod 2 ^ 32 mod 2 ^ 4" "unat h mod 2 ^ 5 = unat h mod 2 ^ 32 mod 2 ^ 5"
    by (simp_all only: mod_mod_cancel le_imp_power_dvd numeral_le_iff semiring_norm)
  moreover have "x mod 2 ^ 4 = x" "x mod 2 ^ 5 = x" if "x \<le> 1" for x :: nat using that by auto
  ultimately show ?thesis using that[of "unat h mod 2 ^ 32"] l m by auto
qed

lemma str_move_large_append:
  "str_move_large t (is @ js) new = Option.bind (str_move_large t is new) (str_move_large t js)"
proof (induction "is" arbitrary: new)
  case (Cons i "is")
  then show ?case by (cases "str_insertNew new (ucast (t_hash32 t ! i))") (simp_all add: Let_def)
qed simp

text \<open>C3: a string key whose 64-bit hash has 0 or 1 in its low 32 bits, inserted into a fresh table of 16 slots, is found at once; after one growth of the table to 32 slots it is still counted, but no lookup finds it any more.\<close>

theorem key_lost_on_growth:
  assumes low: "(ucast (te_hash env k) :: u32) \<le> 1"
    and mem: "te_grants env (16 * (te_valueTypeSize env + te_keySize env + 4))"
      "te_grants env (32 * (te_valueTypeSize env + te_keySize env + 4))"
    and small: "te_valueTypeSize env + te_keySize env < 2 ^ 33"
  shows "\<exists>t1 t2 t3 i. str_reserve_size env zero_table 16 = Some (t1, Inr True) \<and>
    str_reserve env t1 k (te_hash env k) = Some (t2, Inr i) \<and> str_find t2 k (te_hash env k) = Some i \<and>
    str_grow env t2 = Some (t3, Inr True) \<and> a_size t3 = 1 \<and> str_find t3 k (te_hash env k) = Some (-1)"
proof -
  let ?h = "te_hash env k" and ?p = "te_valueTypeSize env + te_keySize env + 4"
  from low_zero_or_one[OF low] obtain s where s: "s < 2" "unat ?h AND 15 = s" "unat ?h AND 31 = s" by blast
  have hk: "hashToHashKey (ucast ?h) = 16777619" using low by (simp add: hashToHashKey_def)
  have fits: "16 \<le> UINT64_MAX div ?p" "32 \<le> UINT64_MAX div ?p"
    using small by (auto simp: less_eq_div_iff_mult_less_eq UINT64_MAX_def)
  let ?t1 = "str_newTab env zero_table 16"
  have pow: "(16::nat) AND 15 = 0" "(32::nat) AND 31 = 0" by (simp_all add: and_pow2_mask[of _ 4, simplified] and_pow2_mask[of _ 5, simplified])
  have r1: "str_reserve_size env zero_table 16 = Some (?t1, Inr True)"
  proof -
    have "double_until 16 8 = Some 16" by (subst double_until.simps, simp, subst double_until.simps, simp)
    then show ?thesis
      using fits(1) mem(1) pow by (simp add: str_reserve_size_def minCapacity_def str_reserveInternal_def str_perSlot_def
          TABLE_MAX_LINEAR_CAPACITY_def not_less)
  qed
  let ?t2 = "?t1\<lparr>t_hash32 := (replicate 16 0)[s := 16777619], t_keys := (replicate 16 (te_junk env))[s := k], a_size := 1\<rparr>"
  have h1: "t_hash32 ?t1 = replicate 16 0" "t_keys ?t1 = replicate 16 (te_junk env)"
    "a_data ?t1 = replicate 16 (te_zero env)" "\<not> isLocked ?t1"
    by (simp_all add: str_newTab_def TABLE_MAX_LINEAR_CAPACITY_def isLocked_def)
  have walk: "str_reserve_walk ?t1 k ?h = Some (?t2, Inr (int s))"
    unfolding str_reserve_walk_def Let_def hk
    by (subst probe_loop.simps) (use s h1 in \<open>simp add: HASH_EMPTY64_def done_with_def\<close>)
  have r2: "str_reserve env ?t1 k ?h = Some (?t2, Inr (int s))"
    using walk by (subst str_reserve.simps)
      (simp add: TABLE_MAX_LINEAR_CAPACITY_def str_reserve_load_def done_with_def)
  have f2: "str_find ?t2 k ?h = Some (int s)"
    unfolding str_find_def Let_def hk
    by (subst probe_loop.simps) (use s in \<open>simp add: HASH_EMPTY64_def TABLE_MAX_LINEAR_CAPACITY_def\<close>)
  define t2 where "t2 = ?t2"
  let ?n = "str_newTab env t2 32"
  let ?t3 = "str_place ?n 19 16777619 k (te_zero env)"
  have n: "t_hash32 ?n = replicate 32 0" "a_capacity ?n = 32" "a_size ?n = 1"
    by (simp_all add: str_newTab_def TABLE_MAX_LINEAR_CAPACITY_def t2_def)
  have ins: "str_insertNew ?n (ucast (16777619 :: u32)) = Some 19"
  proof -
    have "unat (ucast (16777619 :: u32) :: u64) AND 31 = 19"
      using and_pow2_mask[of 16777619 5] by (simp add: unat_zero_extend)
    then show ?thesis unfolding str_insertNew_def n
      by (subst probe_loop.simps) (simp add: HASH_EMPTY64_def)
  qed
  have t2: "t_hash32 t2 = (replicate 16 0)[s := 16777619]" "t_keys t2 ! s = k" "a_data t2 ! s = te_zero env"
    "a_size t2 = 1" "a_capacity t2 = 16" "a_lock t2 = 0" "a_magic t2 = 0"
    using s(1) by (simp_all add: t2_def h1)
  have skip: "str_move_large t2 is new = Some new" if "s \<notin> set is" "\<forall>i\<in>set is. i < 16" for "is" new
    using that by (induction "is") (auto simp: Let_def HASH_KILLED64_def t2(1))
  have app: "str_move_large t2 (is @ js) new = Option.bind (str_move_large t2 is new) (str_move_large t2 js)" for "is" js new
    by (rule str_move_large_append)
  have "[0..<16] = [0..<s] @ [s..<16]" using s(1) upt_add_eq_append[of 0 s "16 - s"] by simp
  then have split: "[0..<16] = [0..<s] @ [s] @ [Suc s..<16]" using s(1) by (simp add: upt_conv_Cons)
  have one: "str_move_large t2 [s] ?n = Some ?t3"
    using s(1) ins t2(2,3) by (simp add: Let_def HASH_KILLED64_def t2(1))
  have move: "str_move_large t2 [0..<16] ?n = Some ?t3"
    unfolding split app using s(1) skip[of "[0..<s]"] skip[of "[Suc s..<16]"] one
    by (simp del: str_move_large.simps)
  have r3: "str_grow env t2 = Some (?t3, Inr True)"
    using fits(2) mem(2) pow move by (simp add: str_grow_def minCapacity_def str_reserveInternal_def str_perSlot_def
          TABLE_MAX_LINEAR_CAPACITY_def not_less t2(4-))
  have f3: "str_find ?t3 k ?h = Some (-1)"
    unfolding str_find_def Let_def hk
    by (subst probe_loop.simps) (use s n in \<open>simp add: HASH_EMPTY64_def TABLE_MAX_LINEAR_CAPACITY_def\<close>)
  show ?thesis
    using r1 r2 f2 r3 f3 n(3) unfolding t2_def
    by (intro exI[of _ ?t1] exI[of _ ?t2] exI[of _ "str_place (str_newTab env ?t2 32) 19 16777619 k (te_zero env)"] exI[of _ "int s"])
      (simp add: str_place_def)
qed

text \<open>\<open>aa0q5os6\<close> is such a string.\<close>

definition key_lost :: "u8 list option" where "key_lost = Some [97, 97, 48, 113, 53, 111, 115, 54]"

lemma hash_lost: "hash_string key_lost = 0xb0539a7600000000" by code_simp

theorem key_lost_on_growth_witness:
  "\<exists>t1 t2 t3 i. str_reserve (str_env (\<lambda>_. True)) t1 key_lost (hash_string key_lost) = Some (t2, Inr i) \<and>
    str_find t2 key_lost (hash_string key_lost) = Some i \<and> str_grow (str_env (\<lambda>_. True)) t2 = Some (t3, Inr True) \<and>
    str_find t3 key_lost (hash_string key_lost) = Some (-1)"
proof -
  let ?e = "str_env (\<lambda>_. True)"
  have "(ucast (0xb0539a7600000000 :: u64) :: u32) \<le> 1" by code_simp
  then have "(ucast (te_hash ?e key_lost) :: u32) \<le> 1" by (simp only: str_env_def tab_env.simps hash_lost)
  moreover have "te_grants ?e n" for n by (simp add: str_env_def)
  moreover have "te_valueTypeSize ?e + te_keySize ?e < 2 ^ 33" by (simp add: str_env_def)
  ultimately have "\<exists>t1 t2 t3 i. str_reserve_size ?e zero_table 16 = Some (t1, Inr True) \<and>
    str_reserve ?e t1 key_lost (te_hash ?e key_lost) = Some (t2, Inr i) \<and> str_find t2 key_lost (te_hash ?e key_lost) = Some i \<and>
    str_grow ?e t2 = Some (t3, Inr True) \<and> a_size t3 = 1 \<and> str_find t3 key_lost (te_hash ?e key_lost) = Some (-1)"
    by (intro key_lost_on_growth)
  moreover have "te_hash ?e = hash_string" by (simp add: str_env_def)
  ultimately show ?thesis by auto
qed

section \<open>One hash, one key\<close>

text \<open>C33: in a packed string table a key is identified by its 64-bit hash alone: reserving a second key with the hash of a live one returns the first key's slot and changes nothing. The null string and the empty string are such a pair.\<close>

theorem packed_keys_collide:
  assumes "0 < a_capacity t" and "a_capacity t \<le> TABLE_MAX_LINEAR_CAPACITY"
    and "i < TABLE_MAX_LINEAR_CAPACITY" and "t_hash64 t ! i = hash"
  shows "\<exists>j. str_reserve env t k hash = Some (t, Inr (int j)) \<and> j \<le> i \<and> t_hash64 t ! j = hash"
proof -
  have scan: "\<exists>j\<in>set is. scan_hash64 hs h is = int j \<and> hs ! j = h \<and> j \<le> i"
    if "i \<in> set is" "sorted is" "hs ! i = h" for "is" hs and h :: u64
    using that by (induction "is") auto
  have "i \<in> set [0..<TABLE_MAX_LINEAR_CAPACITY]" using assms(3) by simp
  from scan[OF this sorted_upt assms(4)] obtain j where "PackedPolicy_find t hash = int j" "t_hash64 t ! j = hash" "j \<le> i"
    by (auto simp: PackedPolicy_find_def)
  then show ?thesis using assms(1,2) by (subst str_reserve.simps) (auto simp: done_with_def)
qed

lemma null_empty_collide: "hash_string None = hash_string (Some [])"
  by code_simp

theorem packed_keys_collide_witness:
  "let t = zero_table\<lparr>a_size := 1, a_capacity := 8, t_keys := replicate 8 None, t_hash64 := (replicate 8 0)[0 := hash_string None],
      a_data := [5, 0, 0, 0, 0, 0, 0, 0]\<rparr>
   in str_reserve (str_env (\<lambda>_. True)) t (Some []) (hash_string (Some [])) = Some (t, Inr 0)"
proof -
  let ?t = "zero_table\<lparr>a_size := 1, a_capacity := 8, t_keys := replicate 8 None, t_hash64 := (replicate 8 0)[0 := hash_string None],
      a_data := [5, 0, 0, 0, 0, 0, 0, 0]\<rparr> :: (nat, u8 list option) table"
  have "0 < a_capacity ?t" "a_capacity ?t \<le> TABLE_MAX_LINEAR_CAPACITY" "0 < TABLE_MAX_LINEAR_CAPACITY"
    "t_hash64 ?t ! 0 = hash_string (Some [])"
    by (simp_all add: TABLE_MAX_LINEAR_CAPACITY_def null_empty_collide)
  from packed_keys_collide[OF this, of "str_env (\<lambda>_. True)" "Some []"] show ?thesis by (auto simp: Let_def)
qed

end
