(* ===== verification/HandleRegistry.thy ===== *)
theory HandleRegistry
  imports Prelude
begin

text \<open>
  The handle registry (\<open>misc/handle_registry.h\<close>): C++ objects owned by shared pointers,
  exposed to scripts as 64-bit handles \<open>(generation << 32) | (index + 1)\<close>. The model keeps
  the slot vector with its intrusive free list; the type parameter stands for the pointee.
  Every operation runs under the registry's mutex, so a concurrent execution is a sequence
  of the operations below. The leak-report hooks of \<open>misc/handle_registry.cpp\<close> follow
  at the end.
\<close>

record 'p slot =
  s_ptr :: "'p option"
  s_generation :: u32
  s_next_free :: u32
  s_in_use :: bool

record 'p registry =
  r_slots :: "'p slot list"
  r_free_head :: u32

definition new_slot :: "'p slot" where
  "new_slot = \<lparr>s_ptr = None, s_generation = 1, s_next_free = 0, s_in_use = False\<rparr>"

definition new_registry :: "'p registry" where
  "new_registry = \<lparr>r_slots = [], r_free_head = 0\<rparr>"

section \<open>Handle values\<close>

definition make_handle :: "u32 \<Rightarrow> u32 \<Rightarrow> u64" where
  "make_handle gen idx = push_bit 32 (ucast gen) OR ucast (idx + 1)"

definition handle_idx :: "u64 \<Rightarrow> u32" where
  "handle_idx h = ucast (h AND 0xFFFFFFFF) - 1"

definition handle_gen :: "u64 \<Rightarrow> u32" where
  "handle_gen h = ucast (drop_bit 32 h)"

lemma low_mask_32: "(0xFFFFFFFF :: u64) = mask 32"
  by (simp add: mask_eq_exp_minus_1)

lemma handle_low: "(ucast (h AND 0xFFFFFFFF) :: u32) = ucast (h :: u64)"
  unfolding low_mask_32 by (rule bit_word_eqI) (auto simp: bit_simps)

lemma handle_idx_make [simp]: "handle_idx (make_handle gen idx) = idx"
proof -
  have "(ucast (make_handle gen idx) :: u32) = idx + 1"
    unfolding make_handle_def by (rule bit_word_eqI) (auto simp: bit_simps)
  then show ?thesis by (simp add: handle_idx_def handle_low)
qed

lemma handle_gen_make [simp]: "handle_gen (make_handle gen idx) = gen"
  unfolding handle_gen_def make_handle_def by (rule bit_word_eqI) (auto simp: bit_simps dest: bit_imp_le_length)

lemma make_handle_parts [simp]: "make_handle (handle_gen h) (handle_idx h) = h"
  unfolding handle_idx_def handle_gen_def make_handle_def handle_low
  by (rule bit_word_eqI) (auto simp: bit_simps)

lemma make_handle_zero: "make_handle gen idx = 0 \<Longrightarrow> idx = -1"
  by (metis handle_idx_make handle_idx_def and_zero_eq diff_0 unsigned_0 bit.conj_zero_left)

section \<open>Operations\<close>

definition acquire :: "'p registry \<Rightarrow> 'p option \<Rightarrow> 'p registry \<times> u64" where
  "acquire r p = (case p of None \<Rightarrow> (r, 0) | Some q \<Rightarrow>
    let (idx, r1) =
          (if r_free_head r \<noteq> 0
           then (r_free_head r - 1, r\<lparr>r_free_head := s_next_free (r_slots r ! unat (r_free_head r - 1))\<rparr>)
           else (of_nat (length (r_slots r)), r\<lparr>r_slots := r_slots r @ [new_slot]\<rparr>));
        s = r_slots r1 ! unat idx
    in (r1\<lparr>r_slots := (r_slots r1)[unat idx := s\<lparr>s_ptr := Some q, s_in_use := True, s_next_free := 0\<rparr>]\<rparr>,
        make_handle (s_generation s) idx))"

definition release :: "'p registry \<Rightarrow> u64 \<Rightarrow> 'p registry \<times> bool" where
  "release r h =
    (if h = 0 then (r, False)
     else let idx = handle_idx h; gen = handle_gen h in
       if unat idx \<ge> length (r_slots r) then (r, False)
       else let s = r_slots r ! unat idx in
         if \<not> s_in_use s \<or> s_generation s \<noteq> gen then (r, False)
         else (r\<lparr>r_slots := (r_slots r)[unat idx := s\<lparr>s_ptr := None, s_in_use := False,
                   s_generation := s_generation s + 1, s_next_free := r_free_head r\<rparr>],
                 r_free_head := idx + 1\<rparr>, True))"

definition lookup :: "'p registry \<Rightarrow> u64 \<Rightarrow> 'p option" where
  "lookup r h =
    (if h = 0 then None
     else let idx = handle_idx h; gen = handle_gen h in
       if unat idx \<ge> length (r_slots r) then None
       else let s = r_slots r ! unat idx in
         if \<not> s_in_use s \<or> s_generation s \<noteq> gen then None else s_ptr s)"

definition is_alive :: "'p registry \<Rightarrow> u64 \<Rightarrow> bool" where
  "is_alive r h =
    (if h = 0 then False
     else let idx = handle_idx h; gen = handle_gen h in
       if unat idx \<ge> length (r_slots r) then False
       else let s = r_slots r ! unat idx in s_in_use s \<and> s_generation s = gen)"

definition live_count :: "'p registry \<Rightarrow> nat" where
  "live_count r = count_if s_in_use (r_slots r)"

text \<open>The calls \<open>cb(h, s.ptr)\<close> that \<open>for_each_live\<close> makes, in order.\<close>

fun live_from :: "nat \<Rightarrow> 'p slot list \<Rightarrow> (u64 \<times> 'p option) list" where
  "live_from i [] = []"
| "live_from i (s # ss) =
    (if s_in_use s then (make_handle (s_generation s) (of_nat i), s_ptr s) # live_from (Suc i) ss
     else live_from (Suc i) ss)"

definition for_each_live :: "'p registry \<Rightarrow> (u64 \<times> 'p option) list" where
  "for_each_live r = live_from 0 (r_slots r)"

section \<open>Invariant\<close>

text \<open>
  The free list threads exactly the unused slots, each once, and a slot in use holds an
  object. \<open>chain ss hp fl\<close>: following \<open>next_free\<close> from \<open>hp\<close> visits the slots \<open>fl\<close>.
\<close>

fun chain :: "'p slot list \<Rightarrow> u32 \<Rightarrow> nat list \<Rightarrow> bool" where
  "chain ss hp [] \<longleftrightarrow> hp = 0"
| "chain ss hp (i # fl) \<longleftrightarrow> hp = of_nat (Suc i) \<and> chain ss (s_next_free (ss ! i)) fl"

definition free_slots :: "'p slot list \<Rightarrow> nat set" where
  "free_slots ss = {i. i < length ss \<and> \<not> s_in_use (ss ! i)}"

definition slots_ok :: "'p slot list \<Rightarrow> bool" where
  "slots_ok ss \<longleftrightarrow> length ss < 2 ^ 32 \<and> (\<forall>s\<in>set ss. s_in_use s \<longleftrightarrow> s_ptr s \<noteq> None)"

definition registry_ok :: "'p registry \<Rightarrow> bool" where
  "registry_ok r \<longleftrightarrow> slots_ok (r_slots r) \<and>
    (\<exists>fl. distinct fl \<and> set fl = free_slots (r_slots r) \<and> chain (r_slots r) (r_free_head r) fl)"

definition has_room :: "'p registry \<Rightarrow> bool" where
  "has_room r \<longleftrightarrow> length (r_slots r) < 2 ^ 32 - 1"

lemma chain_update: "i \<notin> set fl \<Longrightarrow> chain (ss[i := s]) hp fl = chain ss hp fl"
  by (induction ss hp fl rule: chain.induct) auto

lemma chain_append: "\<forall>i\<in>set fl. i < length ss \<Longrightarrow> chain (ss @ [s]) hp fl = chain ss hp fl"
  by (induction ss hp fl rule: chain.induct) (auto simp: nth_append)

lemma chain_head: "chain ss hp fl \<Longrightarrow> hp \<noteq> 0 \<Longrightarrow> \<exists>i fl'. fl = i # fl' \<and> hp = of_nat (Suc i)"
  by (cases fl) auto

lemma free_slots_update:
  "i < length ss \<Longrightarrow> free_slots (ss[i := s]) = (if s_in_use s then free_slots ss - {i} else insert i (free_slots ss))"
  by (auto simp: free_slots_def nth_list_update)

lemma unat_idx: "i < 2 ^ 32 \<Longrightarrow> unat (of_nat i :: u32) = i"
  by (simp add: unsigned_of_nat take_bit_nat_eq_self)

lemma suc_idx_nonzero: "Suc i < 2 ^ 32 \<Longrightarrow> (of_nat (Suc i) :: u32) \<noteq> 0"
  using unat_idx[of "Suc i"] by (metis nat.distinct(1) unat_0)

lemma new_registry_ok [simp]: "registry_ok new_registry"
  by (auto simp: registry_ok_def slots_ok_def new_registry_def free_slots_def)

text \<open>
  The slot an acquire takes: the head of the free list or a fresh slot at the end; in both
  cases an unused one, and the other slots stay as they are.
\<close>

definition slot_at :: "'p registry \<Rightarrow> nat \<Rightarrow> 'p slot option" where
  "slot_at r i = (if i < length (r_slots r) then Some (r_slots r ! i) else None)"

lemma acquire_cases:
  assumes ok: "registry_ok r" and room: "has_room r" and run: "acquire r (Some q) = (r', h)"
  obtains i s where "i < 2 ^ 32 - 1" "\<not> (\<exists>t. slot_at r i = Some t \<and> s_in_use t)"
    "s_generation s = (case slot_at r i of Some t \<Rightarrow> s_generation t | None \<Rightarrow> 1)"
    "s_in_use s" "s_ptr s = Some q" "h = make_handle (s_generation s) (of_nat i)"
    "\<And>j. slot_at r' j = (if j = i then Some s else slot_at r j)"
    "registry_ok r'" "length (r_slots r') \<le> Suc (length (r_slots r))"
proof -
  let ?ss = "r_slots r"
  from ok obtain fl where fl: "distinct fl" "set fl = free_slots ?ss" "chain ?ss (r_free_head r) fl"
    and sok: "slots_ok ?ss" by (auto simp: registry_ok_def)
  let ?upd = "\<lambda>s. s\<lparr>s_ptr := Some q, s_in_use := True, s_next_free := 0\<rparr>"
  show ?thesis
  proof (cases "r_free_head r = 0")
    case True
    let ?n = "length ?ss"
    have n: "?n < 2 ^ 32 - 1" using room by (simp add: has_room_def)
    have fln: "fl = []"
    proof (rule ccontr)
      assume "fl \<noteq> []"
      then obtain i fl' where i: "fl = i # fl'" "of_nat (Suc i) = (0::u32)" using fl(3) True by (cases fl) auto
      with fl(2) have "i < ?n" by (auto simp: free_slots_def)
      with i(2) n show False using suc_idx_nonzero[of i] by linarith
    qed
    have un: "unat (of_nat ?n :: u32) = ?n" using n by (intro unat_idx) simp
    have r': "r' = r\<lparr>r_slots := ?ss @ [?upd new_slot]\<rparr>" "h = make_handle 1 (of_nat ?n)"
      using run True un by (auto simp: acquire_def Let_def new_slot_def)
    have "free_slots (?ss @ [?upd new_slot]) = {}"
      using fl(2) fln by (auto simp: free_slots_def nth_append)
    then have "registry_ok r'"
      using r' sok n True by (auto simp: registry_ok_def slots_ok_def)
    then show ?thesis using r' n
      by (intro that[of ?n "?upd new_slot"]) (auto simp: slot_at_def new_slot_def nth_append)
  next
    case False
    then obtain i fl' where i: "fl = i # fl'" "r_free_head r = of_nat (Suc i)" using fl chain_head by metis
    then have il: "i < length ?ss" "\<not> s_in_use (?ss ! i)" using fl(2) by (auto simp: free_slots_def)
    have n: "length ?ss < 2 ^ 32 - 1" using room by (simp add: has_room_def)
    have "r_free_head r - 1 = of_nat i" using i(2) by simp
    then have un: "unat (r_free_head r - 1) = i" "r_free_head r - 1 = of_nat i"
      using il n by (auto simp: unat_idx)
    have r': "r' = r\<lparr>r_free_head := s_next_free (?ss ! i), r_slots := ?ss[i := ?upd (?ss ! i)]\<rparr>"
      "h = make_handle (s_generation (?ss ! i)) (of_nat i)"
      using run False un by (auto simp: acquire_def Let_def)
    have "slots_ok (?ss[i := ?upd (?ss ! i)])" using sok by (auto simp: slots_ok_def dest!: set_update_subset_insert[THEN subsetD])
    moreover have "distinct fl'" "set fl' = free_slots (?ss[i := ?upd (?ss ! i)])" "chain (?ss[i := ?upd (?ss ! i)]) (s_next_free (?ss ! i)) fl'"
      using fl i il by (auto simp: free_slots_update chain_update)
    ultimately have "registry_ok r'" using r' by (auto simp: registry_ok_def)
    then show ?thesis using r' il n
      by (intro that[of i "?upd (?ss ! i)"]) (auto simp: slot_at_def)
  qed
qed


section \<open>Handles against the slots\<close>

abbreviation slot_of :: "'p registry \<Rightarrow> u64 \<Rightarrow> 'p slot option" where
  "slot_of r h \<equiv> slot_at r (unat (handle_idx h))"

lemma handle_eqI: "handle_idx g = handle_idx h \<Longrightarrow> handle_gen g = handle_gen h \<Longrightarrow> g = h"
  by (metis make_handle_parts)

lemma handle_idx_zero: "handle_idx 0 = -1"
  by (simp add: handle_idx_def)

lemma slot_of_zero: "registry_ok r \<Longrightarrow> slot_of r 0 = None"
  by (auto simp: slot_at_def registry_ok_def slots_ok_def handle_idx_zero unsigned_minus_1_eq_mask mask_eq_exp_minus_1)

lemma is_alive_slot:
  "registry_ok r \<Longrightarrow> is_alive r h \<longleftrightarrow> (\<exists>s. slot_of r h = Some s \<and> s_in_use s \<and> s_generation s = handle_gen h)"
  using slot_of_zero[of r] by (auto simp: is_alive_def Let_def slot_at_def split: if_splits)

lemma lookup_slot:
  "registry_ok r \<Longrightarrow> lookup r h = (case slot_of r h of None \<Rightarrow> None
     | Some s \<Rightarrow> if s_in_use s \<and> s_generation s = handle_gen h then s_ptr s else None)"
  using slot_of_zero[of r] by (auto simp: lookup_def Let_def slot_at_def split: if_splits option.splits)

lemma slot_ptr: "registry_ok r \<Longrightarrow> slot_at r i = Some s \<Longrightarrow> s_in_use s \<longleftrightarrow> s_ptr s \<noteq> None"
  by (auto simp: registry_ok_def slots_ok_def slot_at_def split: if_splits)

lemma is_alive_lookup: "registry_ok r \<Longrightarrow> is_alive r h \<longleftrightarrow> lookup r h \<noteq> None"
  by (auto simp: is_alive_slot lookup_slot slot_ptr split: option.splits)

lemma make_handle_nonzero: "i < 2 ^ 32 - 1 \<Longrightarrow> make_handle g (of_nat i) \<noteq> 0"
proof
  assume i: "i < 2 ^ 32 - 1" and "make_handle g (of_nat i) = 0"
  then have "(of_nat i :: u32) = -1" by (metis handle_idx_make handle_idx_zero)
  then have "unat (of_nat i :: u32) = unat (-1 :: u32)" by simp
  with i show False by (simp add: unat_idx unsigned_minus_1_eq_mask mask_eq_exp_minus_1)
qed

lemma acquire_map:
  assumes ok: "registry_ok r" and room: "has_room r" and run: "acquire r (Some q) = (r', h)"
  shows "registry_ok r' \<and> h \<noteq> 0 \<and> lookup r h = None \<and> lookup r' = (lookup r)(h \<mapsto> q)"
proof -
  obtain i s where i: "i < 2 ^ 32 - 1" "\<not> (\<exists>t. slot_at r i = Some t \<and> s_in_use t)"
    "s_in_use s" "s_ptr s = Some q" "h = make_handle (s_generation s) (of_nat i)"
    "\<And>j. slot_at r' j = (if j = i then Some s else slot_at r j)" "registry_ok r'"
    using ok room run by (rule acquire_cases) blast
  have un: "unat (of_nat i :: u32) = i" using i(1) by (intro unat_idx) simp
  have old: "lookup r g = None" if "unat (handle_idx g) = i" for g
    using i(2) that ok by (auto simp: lookup_slot split: option.splits)
  have "lookup r' g = ((lookup r)(h \<mapsto> q)) g" for g
  proof (cases "unat (handle_idx g) = i")
    case True
    then have "handle_idx g = of_nat i" using un by (simp add: word_unat_eq_iff)
    then have "g = h \<longleftrightarrow> handle_gen g = s_generation s"
      using i(5) by (metis handle_eqI handle_gen_make handle_idx_make)
    with True i old show ?thesis by (auto simp: lookup_slot)
  next
    case False
    with un i(5) have "g \<noteq> h" by auto
    with False i ok show ?thesis by (simp add: lookup_slot)
  qed
  moreover have "lookup r h = None" using i(5) un by (intro old) simp
  ultimately show ?thesis using i by (auto simp: make_handle_nonzero)
qed

lemma release_cases:
  assumes ok: "registry_ok r" and run: "release r h = (r', b)"
  shows "b = is_alive r h \<and> registry_ok r' \<and> length (r_slots r') = length (r_slots r) \<and>
    (if b then \<exists>s s'. slot_of r h = Some s \<and> \<not> s_in_use s' \<and> s_ptr s' = None \<and> s_generation s' = s_generation s + 1 \<and>
       (\<forall>j. slot_at r' j = (if j = unat (handle_idx h) then Some s' else slot_at r j)) else r' = r)"
proof (cases "is_alive r h")
  case False
  then show ?thesis using ok run by (auto simp: release_def is_alive_def Let_def split: if_splits)
next
  case True
  let ?ss = "r_slots r" and ?i = "unat (handle_idx h)"
  let ?s = "?ss ! ?i"
  let ?t = "?s\<lparr>s_ptr := None, s_in_use := False, s_generation := s_generation ?s + 1, s_next_free := r_free_head r\<rparr>"
  have h: "?i < length ?ss" "s_in_use ?s"
    using True ok by (auto simp: is_alive_slot slot_at_def split: if_splits)
  have r': "b" "r' = r\<lparr>r_slots := ?ss[?i := ?t], r_free_head := handle_idx h + 1\<rparr>"
    using True run h by (auto simp: release_def is_alive_def Let_def split: if_splits)
  from ok obtain fl where fl: "distinct fl" "set fl = free_slots ?ss" "chain ?ss (r_free_head r) fl"
    and sok: "slots_ok ?ss" by (auto simp: registry_ok_def)
  have ni: "?i \<notin> set fl" using fl(2) h by (auto simp: free_slots_def)
  have "slots_ok (?ss[?i := ?t])" using sok by (auto simp: slots_ok_def dest!: set_update_subset_insert[THEN subsetD])
  moreover have "distinct (?i # fl)" using fl(1) ni by simp
  moreover have "set (?i # fl) = free_slots (?ss[?i := ?t])" using fl(2) h by (simp add: free_slots_update)
  moreover have "chain (?ss[?i := ?t]) (handle_idx h + 1) (?i # fl)"
    using fl(3) ni h by (simp add: chain_update)
  ultimately have ok': "registry_ok r'" unfolding r' registry_ok_def
    by (intro conjI exI[of _ "?i # fl"]) simp_all
  then show ?thesis using r' h True
    by (auto simp: slot_at_def intro!: exI[of _ ?t])
qed

lemma release_map:
  assumes ok: "registry_ok r" and run: "release r h = (r', b)"
  shows "registry_ok r' \<and> (b \<longleftrightarrow> lookup r h \<noteq> None) \<and> lookup r' = (lookup r)(h := None)"
proof -
  note c = release_cases[OF ok run]
  have b: "b \<longleftrightarrow> lookup r h \<noteq> None" using c ok by (simp add: is_alive_lookup)
  show ?thesis
  proof (cases b)
    case False
    with c b show ?thesis by auto
  next
    case True
    with c obtain s s' where s: "slot_of r h = Some s" "\<not> s_in_use s'"
      "\<And>j. slot_at r' j = (if j = unat (handle_idx h) then Some s' else slot_at r j)" "registry_ok r'" by auto
    have gen: "s_generation s = handle_gen h" using c True s(1) ok by (auto simp: is_alive_slot)
    have "lookup r' g = ((lookup r)(h := None)) g" for g
    proof (cases "handle_idx g = handle_idx h")
      case True
      then have "g \<noteq> h \<Longrightarrow> handle_gen g \<noteq> handle_gen h" by (metis handle_eqI)
      with True s gen ok show ?thesis by (auto simp: lookup_slot)
    next
      case False
      then have "g \<noteq> h" "unat (handle_idx g) \<noteq> unat (handle_idx h)" using word_unat_eq_iff by blast+
      with s ok show ?thesis by (simp add: lookup_slot)
    qed
    with s b True show ?thesis by auto
  qed
qed

section \<open>The contract: a finite map from live handles to objects\<close>

datatype 'p handle_op = Acquire "'p option" | Release u64 | Lookup u64 | IsAlive u64
datatype 'p handle_answer = Handle u64 | Released bool | Found "'p option" | Alive bool

text \<open>
  One call against the abstract map \<open>m\<close>: the map after it, or \<open>None\<close> when the answer is
  not one the contract allows. The contract leaves the choice of a handle open: a non-zero
  value that is not live.
\<close>

fun spec_call :: "(u64 \<Rightarrow> 'p option) \<Rightarrow> 'p handle_op \<Rightarrow> 'p handle_answer \<Rightarrow> (u64 \<Rightarrow> 'p option) option" where
  "spec_call m (Acquire None) (Handle h) = (if h = 0 then Some m else None)"
| "spec_call m (Acquire (Some q)) (Handle h) = (if h \<noteq> 0 \<and> m h = None then Some (m(h \<mapsto> q)) else None)"
| "spec_call m (Release h) (Released b) = (if b = (m h \<noteq> None) then Some (m(h := None)) else None)"
| "spec_call m (Lookup h) (Found p) = (if p = m h then Some m else None)"
| "spec_call m (IsAlive h) (Alive b) = (if b = (m h \<noteq> None) then Some m else None)"
| "spec_call m _ _ = None"

fun spec_calls :: "(u64 \<Rightarrow> 'p option) \<Rightarrow> 'p handle_op list \<Rightarrow> 'p handle_answer list \<Rightarrow> (u64 \<Rightarrow> 'p option) option" where
  "spec_calls m [] [] = Some m"
| "spec_calls m (op # ops) (a # as) = (case spec_call m op a of None \<Rightarrow> None | Some m' \<Rightarrow> spec_calls m' ops as)"
| "spec_calls m _ _ = None"

fun registry_call :: "'p registry \<Rightarrow> 'p handle_op \<Rightarrow> 'p registry \<times> 'p handle_answer" where
  "registry_call r (Acquire p) = (case acquire r p of (r', h) \<Rightarrow> (r', Handle h))"
| "registry_call r (Release h) = (case release r h of (r', b) \<Rightarrow> (r', Released b))"
| "registry_call r (Lookup h) = (r, Found (lookup r h))"
| "registry_call r (IsAlive h) = (r, Alive (is_alive r h))"

fun run_calls :: "('s \<Rightarrow> 'p handle_op \<Rightarrow> 's \<times> 'p handle_answer) \<Rightarrow> 's \<Rightarrow> 'p handle_op list \<Rightarrow> 's \<times> 'p handle_answer list" where
  "run_calls call s [] = (s, [])"
| "run_calls call s (op # ops) = (let (s', a) = call s op; (s'', as) = run_calls call s' ops in (s'', a # as))"

locale handle_contract =
  fixes call :: "'s \<Rightarrow> 'p handle_op \<Rightarrow> 's \<times> 'p handle_answer"
    and view :: "'s \<Rightarrow> u64 \<Rightarrow> 'p option"
    and used :: "'s \<Rightarrow> nat"
    and limit :: nat
    and inv :: "'s \<Rightarrow> bool"
  assumes call_ok: "inv s \<Longrightarrow> used s < limit \<Longrightarrow> call s op = (s', a) \<Longrightarrow>
      inv s' \<and> spec_call (view s) op a = Some (view s')"
    and call_used: "inv s \<Longrightarrow> used s < limit \<Longrightarrow> call s op = (s', a) \<Longrightarrow> used s' \<le> Suc (used s)"
begin

lemma calls_ok:
  "inv s \<Longrightarrow> used s + length ops \<le> limit \<Longrightarrow> run_calls call s ops = (s', as) \<Longrightarrow>
    inv s' \<and> spec_calls (view s) ops as = Some (view s') \<and> used s' \<le> used s + length ops"
proof (induction ops arbitrary: s as)
  case (Cons op ops)
  obtain s1 a as' where st: "call s op = (s1, a)" "run_calls call s1 ops = (s', as')" "as = a # as'"
    using Cons.prems(3) by (auto simp: Let_def split: prod.splits)
  have lim: "used s < limit" using Cons.prems by simp
  note one = call_ok[OF Cons.prems(1) lim st(1)] call_used[OF Cons.prems(1) lim st(1)]
  have "used s1 + length ops \<le> limit" using one Cons.prems by simp
  with one st(2) Cons.IH have "inv s' \<and> spec_calls (view s1) ops as' = Some (view s') \<and> used s' \<le> used s1 + length ops" by blast
  with one st show ?case by simp
qed simp

end

abbreviation registry_used :: "'p registry \<Rightarrow> nat" where
  "registry_used r \<equiv> length (r_slots r)"

lemma acquire_used:
  "registry_ok r \<Longrightarrow> has_room r \<Longrightarrow> acquire r p = (r', h) \<Longrightarrow> registry_used r' \<le> Suc (registry_used r)"
  by (cases p) (auto simp: acquire_def[of r None] elim: acquire_cases)

lemma registry_call_ok:
  assumes "registry_ok r" "has_room r" "registry_call r op = (r', a)"
  shows "registry_ok r' \<and> spec_call (lookup r) op a = Some (lookup r')"
proof (cases op)
  case (Acquire p)
  with assms show ?thesis
    by (cases p) (auto simp: acquire_def[of r None] dest: acquire_map split: prod.splits)
next
  case (Release h)
  with assms show ?thesis by (auto dest: release_map split: prod.splits)
qed (use assms in \<open>auto simp: is_alive_lookup\<close>)

lemma registry_call_used:
  assumes "registry_ok r" "has_room r" "registry_call r op = (r', a)"
  shows "registry_used r' \<le> Suc (registry_used r)"
proof (cases op)
  case (Release h)
  with assms show ?thesis using release_cases[OF assms(1), of h] by (auto split: prod.splits)
qed (use assms acquire_used in \<open>auto split: prod.splits\<close>)

interpretation registry: handle_contract registry_call lookup registry_used "2 ^ 32 - 1" registry_ok
  using registry_call_ok registry_call_used by unfold_locales (auto simp: has_room_def)

section \<open>Enumeration of the live handles\<close>

lemma live_from_count: "length (live_from i ss) = count_if s_in_use ss"
  by (induction i ss rule: live_from.induct) auto

lemma live_from_set:
  "x \<in> set (live_from i ss) \<longleftrightarrow>
    (\<exists>k<length ss. s_in_use (ss ! k) \<and> x = (make_handle (s_generation (ss ! k)) (of_nat (i + k)), s_ptr (ss ! k)))"
  by (induction i ss rule: live_from.induct) (auto simp add: Ex_less_Suc2 simp del: of_nat_add)

lemma live_from_handles:
  "(h, p) \<in> set (live_from i ss) \<Longrightarrow> \<exists>k. handle_idx h = of_nat k \<and> i \<le> k \<and> k < i + length ss"
  unfolding live_from_set by (elim exE conjE) (rule exI[of _ "i + k" for k], simp del: of_nat_add)

lemma live_from_distinct:
  "i + length ss < 2 ^ 32 \<Longrightarrow> distinct (map fst (live_from i ss))"
proof (induction i ss rule: live_from.induct)
  case (2 i s ss)
  have "make_handle (s_generation s) (of_nat i) \<notin> fst ` set (live_from (Suc i) ss)"
  proof
    assume "make_handle (s_generation s) (of_nat i) \<in> fst ` set (live_from (Suc i) ss)"
    then obtain p where "(make_handle (s_generation s) (of_nat i), p) \<in> set (live_from (Suc i) ss)" by auto
    from live_from_handles[OF this] obtain k
      where "(of_nat i :: u32) = of_nat k" "Suc i \<le> k" "k < Suc i + length ss" by auto
    with 2(3) have "unat (of_nat i :: u32) = i" "unat (of_nat k :: u32) = k" using unat_idx[of i] unat_idx[of k] by simp_all
    with \<open>(of_nat i :: u32) = of_nat k\<close> \<open>Suc i \<le> k\<close> show False by simp
  qed
  with 2 show ?case by auto
qed simp

lemma for_each_live_map:
  assumes ok: "registry_ok r"
  shows "distinct (map fst (for_each_live r)) \<and> set (for_each_live r) = {(h, Some q) | h q. lookup r h = Some q}"
proof
  have len: "length (r_slots r) < 2 ^ 32" using ok by (simp add: registry_ok_def slots_ok_def)
  then show "distinct (map fst (for_each_live r))" by (simp add: for_each_live_def live_from_distinct)
  have "(h, p) \<in> set (for_each_live r) \<longleftrightarrow> p \<noteq> None \<and> lookup r h = p" for h p
  proof
    assume "(h, p) \<in> set (for_each_live r)"
    then obtain k where k: "k < length (r_slots r)" "s_in_use (r_slots r ! k)" "p = s_ptr (r_slots r ! k)"
      "h = make_handle (s_generation (r_slots r ! k)) (of_nat k)"
      by (auto simp: for_each_live_def live_from_set)
    have "unat (of_nat k :: u32) = k" using k(1) len by (intro unat_idx) simp
    then have "slot_of r h = Some (r_slots r ! k)" using k by (simp add: slot_at_def)
    with k ok show "p \<noteq> None \<and> lookup r h = p" by (auto simp: lookup_slot dest: slot_ptr)
  next
    assume p: "p \<noteq> None \<and> lookup r h = p"
    then obtain s where s: "slot_of r h = Some s" "s_in_use s" "s_generation s = handle_gen h" "s_ptr s = p"
      using ok by (auto simp: lookup_slot split: option.splits if_splits)
    moreover have "h = make_handle (s_generation s) (of_nat (unat (handle_idx h)))"
      using s(3) by simp
    ultimately show "(h, p) \<in> set (for_each_live r)"
      by (auto simp: for_each_live_def live_from_set slot_at_def split: if_splits intro!: exI[of _ "unat (handle_idx h)"])
  qed
  then show "set (for_each_live r) = {(h, Some q) | h q. lookup r h = Some q}" by auto
qed

lemma live_count_card:
  assumes ok: "registry_ok r"
  shows "live_count r = card (dom (lookup r))"
proof -
  have "live_count r = length (map fst (for_each_live r))"
    by (simp add: live_count_def for_each_live_def live_from_count)
  also have "\<dots> = card (set (map fst (for_each_live r)))"
    using for_each_live_map[OF ok] distinct_card by metis
  also have "set (map fst (for_each_live r)) = dom (lookup r)"
    using for_each_live_map[OF ok] by (force simp: dom_def)
  finally show ?thesis .
qed

section \<open>Stale handles\<close>

text \<open>
  \<open>stale r h d\<close>: the slot of \<open>h\<close> has been released between once and \<open>d\<close> times since
  \<open>h\<close> was live.
\<close>

definition stale :: "'p registry \<Rightarrow> u64 \<Rightarrow> nat \<Rightarrow> bool" where
  "stale r h d \<longleftrightarrow> (\<exists>s k. slot_of r h = Some s \<and> 1 \<le> k \<and> k \<le> d \<and> s_generation s = handle_gen h + of_nat k)"

lemma stale_mono: "stale r h d \<Longrightarrow> d \<le> d' \<Longrightarrow> stale r h d'"
  unfolding stale_def by (meson le_trans)

lemma stale_lookup:
  assumes "registry_ok r" "stale r h d" "d < 2 ^ 32"
  shows "lookup r h = None"
proof -
  from assms(2) obtain s k where k: "slot_of r h = Some s" "1 \<le> k" "k \<le> d" "s_generation s = handle_gen h + of_nat k"
    by (auto simp: stale_def)
  have "unat (of_nat k :: u32) = k" using k assms(3) by (intro unat_idx) simp
  with k(2) have "(of_nat k :: u32) \<noteq> 0" by (metis not_one_le_zero unat_0)
  with k assms(1) show ?thesis by (simp add: lookup_slot)
qed

lemma release_stale:
  assumes "registry_ok r" "release r h = (r', True)"
  shows "stale r' h 1"
proof -
  from release_cases[OF assms] obtain s s' where s: "slot_of r h = Some s" "s_generation s' = s_generation s + 1"
    "slot_of r' h = Some s'" "is_alive r h" by auto
  then have "s_generation s = handle_gen h" using assms(1) by (auto simp: is_alive_slot)
  with s show ?thesis by (auto simp: stale_def intro!: exI[of _ "1::nat"])
qed

lemma registry_call_stale:
  assumes ok: "registry_ok r" and room: "has_room r" and run: "registry_call r op = (r', a)" and st: "stale r h d"
  shows "stale r' h (Suc d)"
proof -
  from st obtain s k where k: "slot_of r h = Some s" "1 \<le> k" "k \<le> d" "s_generation s = handle_gen h + of_nat k"
    by (auto simp: stale_def)
  let ?i = "unat (handle_idx h)"
  have "\<exists>s' k'. slot_of r' h = Some s' \<and> k \<le> k' \<and> k' \<le> Suc k \<and> s_generation s' = handle_gen h + of_nat k'"
  proof (cases op)
    case (Acquire p)
    show ?thesis
    proof (cases p)
      case None
      with Acquire run k show ?thesis by (auto simp: acquire_def)
    next
      case (Some q)
      then obtain g where "acquire r (Some q) = (r', g)" using run Acquire by (auto split: prod.splits)
      from ok room this obtain i t where it: "s_generation t = (case slot_at r i of Some t \<Rightarrow> s_generation t | None \<Rightarrow> 1)"
        "\<And>j. slot_at r' j = (if j = i then Some t else slot_at r j)"
        by (rule acquire_cases) (rule that)
      then show ?thesis using k by (cases "i = ?i") auto
    qed
  next
    case (Release g)
    then obtain b where "release r g = (r', b)" using run by (auto split: prod.splits)
    from release_cases[OF ok this] have c: "r' = r \<or> (\<exists>t t'. slot_of r g = Some t \<and> s_generation t' = s_generation t + 1 \<and>
      (\<forall>j. slot_at r' j = (if j = unat (handle_idx g) then Some t' else slot_at r j)))" by (auto split: if_splits)
    show ?thesis
    proof (cases "r' = r")
      case True
      with k show ?thesis by auto
    next
      case False
      with c obtain t t' where t: "slot_of r g = Some t" "s_generation t' = s_generation t + 1"
        "\<And>j. slot_at r' j = (if j = unat (handle_idx g) then Some t' else slot_at r j)" by auto
      show ?thesis
      proof (cases "unat (handle_idx g) = ?i")
        case True
        with t k have "slot_of r' h = Some t'" "s_generation t' = handle_gen h + of_nat (Suc k)" by auto
        then show ?thesis by (intro exI[of _ t'] exI[of _ "Suc k"]) simp
      next
        case False
        with t k show ?thesis by auto
      qed
    qed
  qed (use run k in auto)
  with k show ?thesis unfolding stale_def by (meson le_trans Suc_le_mono)
qed

lemma run_calls_stale:
  "registry_ok r \<Longrightarrow> registry_used r + length ops \<le> 2 ^ 32 - 1 \<Longrightarrow> stale r h d \<Longrightarrow>
    stale (fst (run_calls registry_call r ops)) h (d + length ops)"
proof (induction ops arbitrary: r d)
  case (Cons op ops)
  obtain r1 a where st: "registry_call r op = (r1, a)" by (cases "registry_call r op")
  have room: "has_room r" using Cons.prems by (simp add: has_room_def)
  have "registry_ok r1" "registry_used r1 \<le> Suc (registry_used r)" "stale r1 h (Suc d)"
    using registry_call_ok[OF Cons.prems(1) room st] registry_call_used[OF Cons.prems(1) room st]
      registry_call_stale[OF Cons.prems(1) room st Cons.prems(3)] by auto
  with Cons.IH[of r1 "Suc d"] Cons.prems(2) st show ?case by (simp add: split_beta)
qed simp

section \<open>Leak-report hooks\<close>

text \<open>
  \<open>handleRegistry_registerDump\<close> and \<open>registerCount\<close> add a function pointer once; a
  pointer is a value of type \<open>'f\<close> compared by equality. \<open>countAll\<close> calls every hook, in
  order, on what the hooks before it left, and adds the answers as \<open>uint64_t\<close>.
\<close>

definition register_hook :: "'f list \<Rightarrow> 'f \<Rightarrow> 'f list" where
  "register_hook hooks fn = (if fn \<in> set hooks then hooks else hooks @ [fn])"

definition handleRegistry_dumpAll :: "('f \<Rightarrow> 's \<Rightarrow> 's) \<Rightarrow> 'f list \<Rightarrow> 's \<Rightarrow> 's" where
  "handleRegistry_dumpAll run hooks s = fold run hooks s"

definition handleRegistry_countAll :: "('f \<Rightarrow> 's \<Rightarrow> 's \<times> u64) \<Rightarrow> 'f list \<Rightarrow> 's \<Rightarrow> 's \<times> u64" where
  "handleRegistry_countAll run hooks s = fold (\<lambda>fn (s, total). case run fn s of (s', n) \<Rightarrow> (s', total + n)) hooks (s, 0)"

lemma register_hook_distinct: "distinct hooks \<Longrightarrow> distinct (register_hook hooks fn)"
  by (simp add: register_hook_def)

section \<open>Properties\<close>

text \<open>C22: Every sequence of acquire, release, lookup and is_alive calls on a registry whose
  slots cannot run out answers as a finite map from live handles to objects does: acquire of
  an object returns a non-zero handle that is not live and makes it map to the object, release
  and is_alive answer whether the handle is live, release removes it and no other handle,
  lookup returns the object of a live handle and null for any other 64-bit value. Afterwards
  the free list is intact, the live count is the size of the map and the enumeration lists
  each live handle once, with its object.\<close>

theorem registry_calls_refine_map:
  assumes "registry_ok r" "length (r_slots r) + length ops \<le> 2 ^ 32 - 1"
    and "run_calls registry_call r ops = (r', answers)"
  shows "registry_ok r' \<and> spec_calls (lookup r) ops answers = Some (lookup r') \<and>
    live_count r' = card (dom (lookup r')) \<and>
    distinct (map fst (for_each_live r')) \<and> set (for_each_live r') = {(h, Some q) | h q. lookup r' h = Some q}"
  using registry.calls_ok[OF assms] live_count_card[of r'] for_each_live_map[of r'] by blast

lemma registry_calls_refine_map_witness:
  "let ops = [Acquire (Some ''a''), Acquire (Some ''b''), Release 0x100000001, Acquire (Some ''c''), Lookup 0x100000001, Lookup 0x200000001] in
   \<exists>r'. run_calls registry_call new_registry ops =
     (r', [Handle 0x100000001, Handle 0x100000002, Released True, Handle 0x200000001, Found None, Found (Some ''c'')]) \<and>
     registry_ok r' \<and> live_count r' = card (dom (lookup r'))"
proof -
  let ?ops = "[Acquire (Some ''a''), Acquire (Some ''b''), Release 0x100000001, Acquire (Some ''c''), Lookup 0x100000001, Lookup 0x200000001]"
  have run: "snd (run_calls registry_call new_registry ?ops) =
    [Handle 0x100000001, Handle 0x100000002, Released True, Handle 0x200000001, Found None, Found (Some ''c'')]"
    by code_simp
  have "registry_used new_registry + length ?ops \<le> 2 ^ 32 - 1" by (simp add: new_registry_def)
  note ok = registry_calls_refine_map[OF new_registry_ok this, of "fst (run_calls registry_call new_registry ?ops)" "snd (run_calls registry_call new_registry ?ops)"]
  show ?thesis unfolding Let_def
    using run ok by (intro exI[of _ "fst (run_calls registry_call new_registry ?ops)"]) (simp add: prod_eq_iff)
qed

text \<open>C24: A released handle stays dead: whatever calls follow its release, fewer than
  \<open>2^32 - 1\<close> of them, it is not alive and lookup returns null for it, although its slot
  may have been handed out again any number of times.\<close>

theorem stale_handle_never_resolves:
  assumes "registry_ok r" "release r h = (r1, True)" "length (r_slots r) + length ops \<le> 2 ^ 32 - 2"
    and "run_calls registry_call r1 ops = (r', answers)"
  shows "lookup r' h = None \<and> \<not> is_alive r' h"
proof -
  have r1: "registry_ok r1" "registry_used r1 = registry_used r" using release_cases[OF assms(1,2)] by auto
  have st: "stale r' h (1 + length ops)"
    using run_calls_stale[OF r1(1) _ release_stale[OF assms(1,2)], of ops] assms(3,4) r1(2) by simp
  have "registry_ok r'" using registry.calls_ok[OF r1(1) _ assms(4)] assms(3) r1(2) by simp
  with stale_lookup[OF this st] assms(3) show ?thesis by (simp add: is_alive_lookup)
qed

lemma stale_handle_never_resolves_witness:
  "let r = fst (acquire new_registry (Some ''a'')); r1 = fst (release r 0x100000001);
       r' = fst (run_calls registry_call r1 [Acquire (Some ''b''), Acquire (Some ''c'')])
   in lookup r' 0x100000001 = None \<and> \<not> is_alive r' 0x100000001 \<and> lookup r' 0x200000001 = Some ''b''"
proof -
  let ?r = "fst (acquire new_registry (Some ''a''))"
  let ?r1 = "fst (release ?r 0x100000001)" and ?ops = "[Acquire (Some ''b''), Acquire (Some ''c'')]"
  have "has_room new_registry" by (simp add: has_room_def new_registry_def)
  then have ok: "registry_ok ?r" using acquire_map[OF new_registry_ok, of "''a''"] by (metis prod.collapse)
  have rel: "release ?r 0x100000001 = (?r1, True)" by (simp add: prod_eq_iff) code_simp
  have "registry_used ?r = 1" by code_simp
  then have len: "registry_used ?r + length ?ops \<le> 2 ^ 32 - 2" by simp
  show ?thesis
    using stale_handle_never_resolves[OF ok rel len, OF prod.collapse[symmetric]]
    unfolding Let_def by (intro conjI) (blast, blast, code_simp)
qed

end
