(* ===== verification/HeapContract.thy ===== *)
theory HeapContract
  imports Prelude
begin

text \<open>
  What a heap promises its client: every allocation returns a block apart from the blocks
  the client holds. A block is an address and a size; the client's blocks are a list. The
  locale proves the promise for whole runs from the two single calls.
\<close>

section \<open>Regions of memory\<close>

fun apart :: "nat \<times> nat \<Rightarrow> nat \<times> nat \<Rightarrow> bool" where
  "apart (a, n) (b, k) \<longleftrightarrow> a + n \<le> b \<or> b + k \<le> a"

lemma apart_sym: "apart x y = apart y x"
  by (cases x; cases y) auto

definition disjoint_regions :: "(nat \<times> nat) list \<Rightarrow> bool" where
  "disjoint_regions rs = sorted_wrt apart rs"

lemma disjoint_regions_middle:
  "disjoint_regions (P @ r # Q) \<longleftrightarrow> disjoint_regions (P @ Q) \<and> (\<forall>s\<in>set (P @ Q). apart r s)"
  by (auto simp: disjoint_regions_def sorted_wrt_append apart_sym)

lemma disjoint_regions_move: "disjoint_regions (P @ r # Q) = disjoint_regions (r # P @ Q)"
  using disjoint_regions_middle[of P r Q] disjoint_regions_middle[of "[]" r "P @ Q"] by simp

lemma apart_within:
  "apart (a, k) (b, l) \<Longrightarrow> a \<le> p \<Longrightarrow> p + n \<le> a + k \<Longrightarrow> b \<le> q \<Longrightarrow> q + m \<le> b + l \<Longrightarrow> apart (p, n) (q, m)"
  by auto

lemma disjoint_regions_append:
  "disjoint_regions (xs @ ys) \<longleftrightarrow> disjoint_regions xs \<and> disjoint_regions ys \<and> (\<forall>x\<in>set xs. \<forall>y\<in>set ys. apart x y)"
  by (simp add: disjoint_regions_def sorted_wrt_append)

lemma disjoint_regions_apart: "disjoint_regions rs \<Longrightarrow> x \<in> set rs \<Longrightarrow> y \<in> set rs \<Longrightarrow> x \<noteq> y \<Longrightarrow> apart x y"
proof -
  assume d: "disjoint_regions rs" and x: "x \<in> set rs" and y: "y \<in> set rs" and ne: "x \<noteq> y"
  from x obtain P Q where PQ: "rs = P @ x # Q" by (meson split_list)
  with d have "\<forall>s\<in>set (P @ Q). apart x s" unfolding PQ disjoint_regions_middle by blast
  with y ne PQ show "apart x y" by auto
qed

section \<open>Runs of a client\<close>

text \<open>
  \<open>Alloc base n\<close> carries the address that the system returns if the allocator asks it for
  memory during the call.
\<close>

datatype heap_call = Alloc nat nat | Free nat nat

text \<open>
  Serving the calls: \<open>None\<close> when a call throws, an allocation returns null, or a block that
  overlaps one the client holds.
\<close>

fun serve :: "('s \<Rightarrow> nat \<Rightarrow> nat \<Rightarrow> ('s, nat) step) \<Rightarrow> ('s \<Rightarrow> nat \<Rightarrow> nat \<Rightarrow> ('s, 'u) step) \<Rightarrow>
    's \<Rightarrow> (nat \<times> nat) list \<Rightarrow> heap_call list \<Rightarrow> ('s \<times> (nat \<times> nat) list) option" where
  "serve alloc free s m [] = Some (s, m)"
| "serve alloc free s m (Alloc base n # calls) = (case alloc s base n of
     (s', Inr p) \<Rightarrow> if p \<noteq> 0 \<and> list_all (apart (p, n)) m then serve alloc free s' ((p, n) # m) calls else None
   | (s', Inl e) \<Rightarrow> None)"
| "serve alloc free s m (Free p n # calls) = (case free s p n of
     (s', Inr u) \<Rightarrow> serve alloc free s' (remove1 (p, n) m) calls
   | (s', Inl e) \<Rightarrow> None)"

text \<open>The client frees only blocks it holds, and the system keeps its promise at every call.\<close>

fun client_ok :: "('s \<Rightarrow> nat \<Rightarrow> nat \<Rightarrow> ('s, nat) step) \<Rightarrow> ('s \<Rightarrow> nat \<Rightarrow> nat \<Rightarrow> ('s, 'u) step) \<Rightarrow> ('s \<Rightarrow> nat \<Rightarrow> nat \<Rightarrow> bool) \<Rightarrow>
    's \<Rightarrow> (nat \<times> nat) list \<Rightarrow> heap_call list \<Rightarrow> bool" where
  "client_ok alloc free ready s m [] = True"
| "client_ok alloc free ready s m (Alloc base n # calls) = (ready s base n \<and> (case alloc s base n of
     (s', Inr p) \<Rightarrow> client_ok alloc free ready s' ((p, n) # m) calls | (s', Inl e) \<Rightarrow> True))"
| "client_ok alloc free ready s m (Free p n # calls) = ((p, n) \<in> set m \<and> (case free s p n of
     (s', Inr u) \<Rightarrow> client_ok alloc free ready s' (remove1 (p, n) m) calls | (s', Inl e) \<Rightarrow> True))"

locale heap_contract =
  fixes alloc :: "'s \<Rightarrow> nat \<Rightarrow> nat \<Rightarrow> ('s, nat) step"
    and free :: "'s \<Rightarrow> nat \<Rightarrow> nat \<Rightarrow> ('s, 'u) step"
    and ready :: "'s \<Rightarrow> nat \<Rightarrow> nat \<Rightarrow> bool"
    and holds :: "'s \<Rightarrow> (nat \<times> nat) list \<Rightarrow> bool"
  assumes alloc_ok: "holds s m \<Longrightarrow> ready s base n \<Longrightarrow>
      \<exists>s' p. alloc s base n = (s', Inr p) \<and> p \<noteq> 0 \<and> list_all (apart (p, n)) m \<and> holds s' ((p, n) # m)"
    and free_ok: "holds s m \<Longrightarrow> (p, n) \<in> set m \<Longrightarrow> \<exists>s' u. free s p n = (s', Inr u) \<and> holds s' (remove1 (p, n) m)"
begin

lemma run_ok:
  "holds s m \<Longrightarrow> client_ok alloc free ready s m calls \<Longrightarrow> \<exists>s' m'. serve alloc free s m calls = Some (s', m') \<and> holds s' m'"
proof (induction calls arbitrary: s m)
  case (Cons c calls)
  show ?case
  proof (cases c)
    case (Alloc base n)
    with Cons.prems alloc_ok[of s m base n] obtain s' p where r: "alloc s base n = (s', Inr p)" "p \<noteq> 0" "list_all (apart (p, n)) m"
      "holds s' ((p, n) # m)" by auto
    with Alloc Cons.prems(2) have "client_ok alloc free ready s' ((p, n) # m) calls" by simp
    from Cons.IH[OF r(4) this] r Alloc show ?thesis by simp
  next
    case (Free p n)
    with Cons.prems free_ok[of s m p n] obtain s' u where r: "free s p n = (s', Inr u)" "holds s' (remove1 (p, n) m)" by auto
    with Free Cons.prems(2) have "client_ok alloc free ready s' (remove1 (p, n) m) calls" by simp
    from Cons.IH[OF r(2) this] r Free show ?thesis by simp
  qed
qed simp

end

end
