(* ===== verification/Deck.thy ===== *)
theory Deck
  imports Prelude
begin

text \<open>
  A deck of the persistent heap (\<open>struct Deck\<close> of \<open>misc/memory_model.h\<close>): a block of
  \<open>total\<close> slots of one size, with a bitset of the slots in use, and the bitset the garbage
  collector marks. A chain of decks (the \<open>next\<close> pointers) is a list. Addresses, sizes and
  counters are \<open>nat\<close>: the operating system grants no block that reaches \<open>2^64\<close>, so none of
  the sums wraps. \<open>das_aligned_alloc16\<close> is outside the model: the address it returns is an
  argument. \<open>DAS_ASSERT\<close> is compiled out (\<open>DAS_NO_ASSERTIONS\<close>).
\<close>

section \<open>Bit tricks\<close>

definition das_clz :: "u32 \<Rightarrow> nat" where
  "das_clz x = 32 - bit_length (unat x)"

definition das_popcount :: "u32 \<Rightarrow> nat" where
  "das_popcount x = length (filter (bit x) [0..<32])"

lemma highest_bit:
  assumes "x \<noteq> 0"
  shows "31 - das_clz x < 32" "bit x (31 - das_clz x)"
proof -
  have n: "0 < unat x" using assms by (simp add: unat_gt_0)
  have "unat x < 2 ^ 32" using unsigned_less[of x] by simp
  then have le: "bit_length (unat x) \<le> 32" by (rule bit_length_le)
  with bit_length_top[OF n] have j: "31 - das_clz x = bit_length (unat x) - 1" by (simp add: das_clz_def)
  show "31 - das_clz x < 32" by simp
  show "bit x (31 - das_clz x)" using bit_length_top(2)[OF n] unfolding j by (simp add: bit_unsigned_iff)
qed

section \<open>Bitsets of 32-bit words\<close>

definition bitset_test :: "u32 list \<Rightarrow> nat \<Rightarrow> bool" where
  "bitset_test ws n \<longleftrightarrow> bit (ws ! (n div 32)) (n mod 32)"

definition bitset :: "u32 list \<Rightarrow> nat set" where
  "bitset ws = {n. n < 32 * length ws \<and> bitset_test ws n}"

lemma finite_bitset [simp]: "finite (bitset ws)"
  unfolding bitset_def by (rule finite_subset[of _ "{..<32 * length ws}"]) auto

lemma bitset_subset: "bitset ws \<subseteq> {..<32 * length ws}"
  by (auto simp: bitset_def)

lemma bitset_zero [simp]: "bitset (replicate n 0) = {}"
  by (auto simp: bitset_def bitset_test_def)

lemma bitset_Cons: "bitset (w # ws) = {j. j < 32 \<and> bit w j} \<union> (\<lambda>n. n + 32) ` bitset ws"
proof (rule set_eqI)
  fix n
  show "n \<in> bitset (w # ws) \<longleftrightarrow> n \<in> {j. j < 32 \<and> bit w j} \<union> (\<lambda>n. n + 32) ` bitset ws"
  proof (cases "n < 32")
    case True
    then show ?thesis by (auto simp: bitset_def bitset_test_def)
  next
    case False
    then obtain k where k: "n = k + 32" by (metis le_add_diff_inverse2 not_less)
    have "(k + 32) div 32 = Suc (k div 32)" by simp
    then show ?thesis unfolding k by (auto simp: bitset_def bitset_test_def)
  qed
qed

lemma das_popcount_card: "das_popcount w = card {j. j < 32 \<and> bit w j}"
proof -
  have "das_popcount w = card (set (filter (bit w) [0..<32]))"
    unfolding das_popcount_def by (rule distinct_card[symmetric]) simp
  also have "set (filter (bit w) [0..<32]) = {j. j < 32 \<and> bit w j}" by auto
  finally show ?thesis .
qed

lemma popcount_bitset: "sum_list (map das_popcount ws) = card (bitset ws)"
proof (induction ws)
  case (Cons w ws)
  have "card (bitset (w # ws)) = card {j. j < 32 \<and> bit w j} + card ((\<lambda>n. n + 32) ` bitset ws)"
    unfolding bitset_Cons by (rule card_Un_disjoint) auto
  also have "card ((\<lambda>n. n + 32) ` bitset ws) = card (bitset ws)" by (rule card_image) (simp add: inj_on_def)
  finally show ?case using Cons by (simp add: das_popcount_card)
qed (simp add: bitset_def)

lemma bitset_update:
  assumes i: "i < length ws" and j: "j < 32"
    and w: "\<And>k. k < 32 \<Longrightarrow> bit w k = (if k = j then v else bit (ws ! i) k)"
  shows "bitset (ws[i := w]) = (if v then insert (32 * i + j) (bitset ws) else bitset ws - {32 * i + j})"
proof (rule set_eqI)
  fix n :: nat
  have mod: "n mod 32 < 32" by simp
  have eq: "n = 32 * i + j \<longleftrightarrow> n div 32 = i \<and> n mod 32 = j" using j by auto
  show "n \<in> bitset (ws[i := w]) \<longleftrightarrow> n \<in> (if v then insert (32 * i + j) (bitset ws) else bitset ws - {32 * i + j})"
    using i j w[OF mod] eq by (cases "n div 32 = i") (auto simp: bitset_def bitset_test_def)
qed

lemma bit_or_one: "k < 32 \<Longrightarrow> bit (b OR push_bit j 1 :: u32) k = (if k = j then True else bit b k)"
  by (auto simp: bit_simps)

lemma bit_xor_one: "bit b j \<Longrightarrow> k < 32 \<Longrightarrow> bit (b XOR push_bit j 1 :: u32) k = (if k = j then False else bit b k)"
  by (auto simp: bit_simps)

lemma bit_not_word: "j < 32 \<Longrightarrow> bit (NOT b :: u32) j \<longleftrightarrow> \<not> bit b j"
  by (simp add: bit_simps)

lemma full_word: "(NOT b = (0 :: u32)) \<longleftrightarrow> (\<forall>j<32. bit b j)"
  by (auto simp: bit_eq_iff bit_simps)

section \<open>Decks\<close>

record deck =
  d_data :: nat
  d_bits :: "u32 list"
  d_gc_bits :: "u32 list"
  d_total :: nat
  d_size :: nat
  d_totalBytes :: nat
  d_look :: nat
  d_allocated :: nat
  d_gc_allocated :: nat

definition deck_total :: "nat \<Rightarrow> nat" where
  "deck_total ne = (ne + 31) - (ne + 31) mod 32"

text \<open>The constructor; \<open>base\<close> is the address of the block the system returns for \<open>data\<close>.\<close>

definition new_deck :: "nat \<Rightarrow> nat \<Rightarrow> nat \<Rightarrow> deck" where
  "new_deck base ne es = \<lparr>d_data = base, d_bits = replicate (deck_total ne div 32) 0, d_gc_bits = [],
     d_total = deck_total ne, d_size = es, d_totalBytes = deck_total ne * es, d_look = 0,
     d_allocated = 0, d_gc_allocated = 0\<rparr>"

definition deck_reset :: "deck \<Rightarrow> deck" where
  "deck_reset d = d\<lparr>d_bits := replicate (d_total d div 32) 0, d_look := 0, d_allocated := 0\<rparr>"

definition deck_beforeGC :: "deck \<Rightarrow> deck" where
  "deck_beforeGC d = d\<lparr>d_gc_bits := replicate (d_total d div 32) 0, d_look := 0, d_gc_allocated := 0\<rparr>"

definition deck_afterGC :: "deck \<Rightarrow> deck" where
  "deck_afterGC d =
    (if d_total d div 32 * 4 \<noteq> 0 then d\<lparr>d_bits := d_gc_bits d, d_gc_bits := [], d_allocated := d_gc_allocated d\<rparr>
     else d\<lparr>d_allocated := d_gc_allocated d\<rparr>)"

definition deck_isOwnPtr :: "deck \<Rightarrow> nat \<Rightarrow> bool" where
  "deck_isOwnPtr d ptr \<longleftrightarrow> d_data d \<le> ptr \<and> ptr < d_data d + d_totalBytes d"

definition deck_idx :: "deck \<Rightarrow> nat \<Rightarrow> nat" where
  "deck_idx d ptr = (ptr - d_data d) div d_size d"

definition deck_isAllocatedPtr :: "deck \<Rightarrow> nat \<Rightarrow> bool" where
  "deck_isAllocatedPtr d ptr =
    (let uidx = deck_idx d ptr; i = uidx div 32; j = uidx mod 32; b = d_bits d ! i
     in b AND push_bit j 1 \<noteq> 0)"

text \<open>The scan for a word with a free slot, from \<open>look\<close> once around the bitset.\<close>

fun deck_scan :: "nat \<Rightarrow> deck \<Rightarrow> deck \<times> nat" where
  "deck_scan 0 d = (d, 0)"
| "deck_scan (Suc t) d =
    (let maxt = d_total d div 32; b = d_bits d ! d_look d; nb = NOT b in
     if nb \<noteq> 0 then
       let j = 31 - das_clz nb; ofs = d_look d * 32 + j
       in (d\<lparr>d_bits := (d_bits d)[d_look d := b OR push_bit j 1], d_allocated := d_allocated d + 1\<rparr>,
           d_data d + ofs * d_size d)
     else
       let look = d_look d + 1 in deck_scan t (d\<lparr>d_look := if look = maxt then 0 else look\<rparr>))"

definition deck_allocate :: "deck \<Rightarrow> deck \<times> nat" where
  "deck_allocate d = (if d_allocated d = d_total d then (d, 0) else deck_scan (d_total d div 32) d)"

definition deck_free :: "deck \<Rightarrow> nat \<Rightarrow> deck" where
  "deck_free d ptr =
    (let uidx = deck_idx d ptr; i = uidx div 32; j = uidx mod 32; b = d_bits d ! i
     in d\<lparr>d_bits := (d_bits d)[i := b XOR push_bit j 1], d_look := i,
          d_allocated := (d_allocated d + 2 ^ 64 - 1) mod 2 ^ 64\<rparr>)"

definition deck_mark :: "deck \<Rightarrow> nat \<Rightarrow> deck \<times> bool" where
  "deck_mark d ptr =
    (let uidx = deck_idx d ptr; i = uidx div 32; j = uidx mod 32; b = d_gc_bits d ! i
     in if b AND push_bit j 1 = 0
        then (d\<lparr>d_gc_bits := (d_gc_bits d)[i := b OR push_bit j 1], d_gc_allocated := d_gc_allocated d + 1\<rparr>, True)
        else (d, False))"

section \<open>Invariant and slots in use\<close>

definition deck_used :: "deck \<Rightarrow> nat set" where
  "deck_used d = bitset (d_bits d)"

definition deck_marked :: "deck \<Rightarrow> nat set" where
  "deck_marked d = bitset (d_gc_bits d)"

definition deck_wf :: "deck \<Rightarrow> bool" where
  "deck_wf d \<longleftrightarrow> 0 < d_size d \<and> d_total d = 32 * length (d_bits d) \<and> d_totalBytes d = d_total d * d_size d \<and>
    d_total d < 2 ^ 64 \<and> (d_look d < length (d_bits d) \<or> d_look d = 0) \<and> d_allocated d = card (deck_used d)"

definition deck_slot :: "deck \<Rightarrow> nat \<Rightarrow> nat" where
  "deck_slot d i = d_data d + i * d_size d"

text \<open>What no operation after the constructor changes.\<close>

definition same_shape :: "deck \<Rightarrow> deck \<Rightarrow> bool" where
  "same_shape d d' \<longleftrightarrow> d_data d' = d_data d \<and> d_total d' = d_total d \<and> d_size d' = d_size d \<and> d_totalBytes d' = d_totalBytes d"

lemma same_shape_refl [simp]: "same_shape d d" by (simp add: same_shape_def)

lemma same_shape_trans: "same_shape d d' \<Longrightarrow> same_shape d' d'' \<Longrightarrow> same_shape d d''"
  by (simp add: same_shape_def)

lemma same_shape_slot: "same_shape d d' \<Longrightarrow> deck_slot d' = deck_slot d"
  by (simp add: same_shape_def deck_slot_def fun_eq_iff)

lemma same_shape_own: "same_shape d d' \<Longrightarrow> deck_isOwnPtr d' = deck_isOwnPtr d"
  by (simp add: same_shape_def deck_isOwnPtr_def fun_eq_iff)

lemma same_shape_idx: "same_shape d d' \<Longrightarrow> deck_idx d' = deck_idx d"
  by (simp add: same_shape_def deck_idx_def fun_eq_iff)

lemma deck_used_lt: "deck_wf d \<Longrightarrow> i \<in> deck_used d \<Longrightarrow> i < d_total d"
  using bitset_subset by (fastforce simp: deck_wf_def deck_used_def)

lemma deck_total_mult: "deck_total ne = 32 * (deck_total ne div 32)"
proof -
  have "deck_total ne = 32 * ((ne + 31) div 32)" unfolding deck_total_def
    by (metis minus_mod_eq_mult_div)
  then show ?thesis by simp
qed

lemma deck_total_bounds: "ne \<le> deck_total ne" "deck_total ne \<le> ne + 31"
  using mod_less_divisor[of 32 "ne + 31"] unfolding deck_total_def by linarith+

lemma new_deck_wf:
  assumes "0 < es" "ne + 31 < 2 ^ 64"
  shows "deck_wf (new_deck base ne es)" "deck_used (new_deck base ne es) = {}"
  using assms deck_total_bounds(2)[of ne] deck_total_mult[of ne]
  by (simp_all add: deck_wf_def new_deck_def deck_used_def)

lemma deck_reset_wf:
  "deck_wf d \<Longrightarrow> deck_wf (deck_reset d) \<and> deck_used (deck_reset d) = {} \<and> same_shape d (deck_reset d)"
  by (auto simp: deck_wf_def deck_reset_def deck_used_def same_shape_def)

lemma deck_idx_slot: "0 < d_size d \<Longrightarrow> deck_idx d (deck_slot d i) = i"
  by (simp add: deck_idx_def deck_slot_def)

lemma deck_own_idx:
  assumes "deck_wf d" "deck_isOwnPtr d ptr"
  shows "deck_idx d ptr < d_total d"
  using assms unfolding deck_wf_def deck_isOwnPtr_def deck_idx_def
  by (metis less_mult_imp_div_less add_diff_inverse_nat nat_add_left_cancel_less not_less)

lemma deck_slot_own: "deck_wf d \<Longrightarrow> i < d_total d \<Longrightarrow> deck_isOwnPtr d (deck_slot d i)"
  by (simp add: deck_wf_def deck_isOwnPtr_def deck_slot_def)

lemma bit_test_word: "j < 32 \<Longrightarrow> (b AND push_bit j 1 \<noteq> (0 :: u32)) \<longleftrightarrow> bit b j"
  by (simp add: and_exp_eq_0_iff_not_bit push_bit_eq_mult)

lemma deck_isAllocatedPtr_used:
  assumes "deck_wf d" "deck_isOwnPtr d ptr"
  shows "deck_isAllocatedPtr d ptr \<longleftrightarrow> deck_idx d ptr \<in> deck_used d"
  using assms deck_own_idx[OF assms]
  by (simp add: deck_isAllocatedPtr_def Let_def and_exp_eq_0_iff_not_bit push_bit_eq_mult deck_used_def bitset_def
      bitset_test_def deck_wf_def)

section \<open>Allocation\<close>

lemma probe_dist_lt_full:
  assumes "i < c" "s < c" "i \<noteq> s"
  shows "probe_dist c ((s + 1) mod c) i < probe_dist c s i"
proof -
  let ?d = "probe_dist c s i"
  have c: "0 < c" using assms by simp
  have r: "(s + ?d) mod c = i" using assms by (intro probe_dist_reaches) simp
  have "?d \<noteq> 0" using r assms by (intro notI) simp
  then obtain e where e: "?d = Suc e" using not0_implies_Suc by blast
  then have "(s + 1 + e) mod c = i" using r by simp
  moreover have "e < c" using e probe_dist_lt[OF c, of s i] by simp
  ultimately have "probe_dist c (s + 1) i = e" using probe_dist_step by metis
  moreover have "probe_dist c ((s + 1) mod c) i = probe_dist c (s + 1) i" by (simp add: probe_dist_def)
  ultimately show ?thesis using e by simp
qed

lemma deck_scan_ok:
  "deck_wf d \<Longrightarrow> k < length (d_bits d) \<Longrightarrow> NOT (d_bits d ! k) \<noteq> 0 \<Longrightarrow> probe_dist (length (d_bits d)) (d_look d) k < t \<Longrightarrow>
    \<exists>i d'. deck_scan t d = (d', deck_slot d i) \<and> i < d_total d \<and> i \<notin> deck_used d \<and> deck_used d' = insert i (deck_used d) \<and>
      deck_wf d' \<and> same_shape d d'"
proof (induction t d rule: deck_scan.induct)
  case (2 t d)
  let ?b = "d_bits d ! d_look d" and ?c = "length (d_bits d)"
  have maxt: "d_total d div 32 = ?c" using 2(2) by (simp add: deck_wf_def)
  have lk: "d_look d < ?c" using 2(2,3) by (auto simp: deck_wf_def)
  show ?case
  proof (cases "NOT ?b = 0")
    case False
    let ?j = "31 - das_clz (NOT ?b)"
    let ?i = "d_look d * 32 + ?j"
    let ?bits = "(d_bits d)[d_look d := ?b OR push_bit ?j 1]"
    have j: "?j < 32" "\<not> bit ?b ?j" using highest_bit[OF False] by (simp_all add: bit_not_word)
    have dm: "?i div 32 = d_look d" "?i mod 32 = ?j" using j(1) by simp_all
    have i: "?i < 32 * ?c" using lk j(1) by simp
    have ni: "?i \<notin> bitset (d_bits d)" unfolding bitset_def bitset_test_def using dm j(2) by simp
    have ins: "bitset ?bits = insert ?i (bitset (d_bits d))"
      using bitset_update[OF lk j(1), of "?b OR push_bit ?j 1" True] bit_or_one by (simp add: mult.commute)
    let ?d' = "d\<lparr>d_bits := ?bits, d_allocated := d_allocated d + 1\<rparr>"
    have scan: "deck_scan (Suc t) d = (?d', deck_slot d ?i)" using False by (simp add: Let_def deck_slot_def)
    have "deck_wf ?d'" using 2(2) ins ni by (simp add: deck_wf_def deck_used_def)
    moreover have "same_shape d ?d'" by (simp add: same_shape_def)
    ultimately show ?thesis using scan i ni ins 2(2)
      by (intro exI[of _ ?i] exI[of _ ?d']) (simp add: deck_used_def deck_wf_def)
  next
    case True
    let ?d = "d\<lparr>d_look := if d_look d + 1 = ?c then 0 else d_look d + 1\<rparr>"
    have look: "d_look ?d = (d_look d + 1) mod ?c" using lk by simp
    have "k \<noteq> d_look d" using True 2(4) by auto
    then have dist: "probe_dist ?c (d_look ?d) k < t"
      unfolding look using probe_dist_lt_full[OF 2(3) lk] 2(5) by simp
    have "deck_wf ?d" using 2(2) lk by (auto simp: deck_wf_def deck_used_def)
    with 2(1)[of "d_total d div 32" ?b "NOT ?b" "d_look d + 1"] True maxt 2(3,4) dist
    have "\<exists>i d'. deck_scan t ?d = (d', deck_slot ?d i) \<and> i < d_total ?d \<and> i \<notin> deck_used ?d \<and> deck_used d' = insert i (deck_used ?d) \<and>
      deck_wf d' \<and> same_shape ?d d'" by simp
    then obtain i d' where r: "deck_scan t ?d = (d', deck_slot ?d i)" "i < d_total d" "i \<notin> deck_used d"
      "deck_used d' = insert i (deck_used d)" "deck_wf d'" "same_shape ?d d'" by (auto simp: deck_used_def)
    have "deck_scan (Suc t) d = deck_scan t ?d" using True maxt by (simp add: Let_def)
    moreover have "deck_slot ?d i = deck_slot d i" by (simp add: deck_slot_def)
    moreover have "same_shape d d'" using r(6) by (simp add: same_shape_def)
    ultimately show ?thesis using r by metis
  qed
qed simp

lemma deck_has_free_word:
  assumes wf: "deck_wf d" and room: "d_allocated d \<noteq> d_total d"
  shows "\<exists>k<length (d_bits d). NOT (d_bits d ! k) \<noteq> 0"
proof (rule ccontr)
  assume "\<not> ?thesis"
  then have full: "\<And>k j. k < length (d_bits d) \<Longrightarrow> j < 32 \<Longrightarrow> bit (d_bits d ! k) j" by (auto simp: full_word)
  have "bitset (d_bits d) = {..<32 * length (d_bits d)}" using full by (auto simp: bitset_def bitset_test_def)
  then have "card (deck_used d) = d_total d" using wf by (simp add: deck_used_def deck_wf_def)
  with wf room show False by (simp add: deck_wf_def)
qed

lemma deck_allocate_full: "d_allocated d = d_total d \<Longrightarrow> deck_allocate d = (d, 0)"
  by (simp add: deck_allocate_def)

lemma deck_allocate_ok:
  assumes wf: "deck_wf d" and room: "d_allocated d \<noteq> d_total d"
  shows "\<exists>i d'. deck_allocate d = (d', deck_slot d i) \<and> i < d_total d \<and> i \<notin> deck_used d \<and> deck_used d' = insert i (deck_used d) \<and>
      deck_wf d' \<and> same_shape d d'"
proof -
  from deck_has_free_word[OF assms] obtain k where k: "k < length (d_bits d)" "NOT (d_bits d ! k) \<noteq> 0" by blast
  have "probe_dist (length (d_bits d)) (d_look d) k < length (d_bits d)" by (rule probe_dist_lt) (use k in auto)
  moreover have "d_total d div 32 = length (d_bits d)" using wf by (simp add: deck_wf_def)
  ultimately show ?thesis using deck_scan_ok[OF wf k] room by (simp add: deck_allocate_def)
qed

section \<open>Free and garbage collection\<close>

lemma deck_free_ok:
  assumes wf: "deck_wf d" and used: "deck_idx d ptr \<in> deck_used d"
  shows "deck_used (deck_free d ptr) = deck_used d - {deck_idx d ptr} \<and> deck_wf (deck_free d ptr) \<and> same_shape d (deck_free d ptr)"
proof -
  let ?n = "deck_idx d ptr"
  let ?i = "?n div 32" and ?j = "?n mod 32"
  have i: "?i < length (d_bits d)" "?j < 32" "bit (d_bits d ! ?i) ?j"
    using used by (auto simp: deck_used_def bitset_def bitset_test_def)
  have upd: "bitset ((d_bits d)[?i := d_bits d ! ?i XOR push_bit ?j 1]) = deck_used d - {?n}"
    using bitset_update[OF i(1,2), of "d_bits d ! ?i XOR push_bit ?j 1" False] bit_xor_one[OF i(3)]
    by (simp add: deck_used_def)
  have "0 < card (deck_used d)" using used by (simp add: card_gt_0_iff deck_used_def) blast
  moreover have "card (deck_used d) \<le> d_total d"
    using wf card_mono[OF _ bitset_subset, of "d_bits d"] by (simp add: deck_used_def deck_wf_def)
  moreover have "d_total d < 2 ^ 64" using wf by (simp add: deck_wf_def)
  ultimately obtain c where c: "card (deck_used d) = Suc c" "c < 2 ^ 64"
    using gr0_implies_Suc[of "card (deck_used d)"] by auto
  have al: "(d_allocated d + 2 ^ 64 - 1) mod 2 ^ 64 = card (deck_used d) - 1"
    using wf c by (simp add: deck_wf_def)
  have "deck_used (deck_free d ptr) = deck_used d - {?n}"
    using upd by (simp add: deck_free_def Let_def deck_used_def)
  moreover have "deck_wf (deck_free d ptr)"
    using wf i al upd used by (simp add: deck_wf_def deck_free_def Let_def deck_used_def)
  moreover have "same_shape d (deck_free d ptr)" by (simp add: same_shape_def deck_free_def Let_def)
  ultimately show ?thesis by simp
qed

text \<open>A collection in progress: the mark bits have the shape of the bitset.\<close>

definition deck_gc_wf :: "deck \<Rightarrow> bool" where
  "deck_gc_wf d \<longleftrightarrow> length (d_gc_bits d) = length (d_bits d) \<and> d_gc_allocated d = card (deck_marked d)"

lemma deck_beforeGC_ok:
  "deck_wf d \<Longrightarrow> deck_wf (deck_beforeGC d) \<and> deck_gc_wf (deck_beforeGC d) \<and> deck_marked (deck_beforeGC d) = {} \<and>
    deck_used (deck_beforeGC d) = deck_used d \<and> same_shape d (deck_beforeGC d)"
  by (auto simp: deck_wf_def deck_gc_wf_def deck_beforeGC_def deck_marked_def deck_used_def same_shape_def)

lemma deck_mark_ok:
  assumes wf: "deck_wf d" "deck_gc_wf d" and own: "deck_isOwnPtr d ptr" and run: "deck_mark d ptr = (d', b)"
  shows "deck_wf d' \<and> deck_gc_wf d' \<and> deck_used d' = deck_used d \<and> same_shape d d' \<and>
    deck_marked d' = insert (deck_idx d ptr) (deck_marked d) \<and> (b \<longleftrightarrow> deck_idx d ptr \<notin> deck_marked d)"
proof -
  let ?n = "deck_idx d ptr"
  let ?i = "?n div 32" and ?j = "?n mod 32"
  have n: "?n < 32 * length (d_gc_bits d)" using deck_own_idx[OF wf(1) own] wf by (simp add: deck_wf_def deck_gc_wf_def)
  then have i: "?i < length (d_gc_bits d)" "?j < 32" by auto
  have in_iff: "?n \<in> deck_marked d \<longleftrightarrow> bit (d_gc_bits d ! ?i) ?j"
    using n by (simp add: deck_marked_def bitset_def bitset_test_def)
  show ?thesis
  proof (cases "bit (d_gc_bits d ! ?i) ?j")
    case True
    then have "d_gc_bits d ! ?i AND push_bit ?j 1 \<noteq> 0" using bit_test_word[OF i(2)] by blast
    then have "d' = d" "\<not> b" using run by (simp_all add: deck_mark_def Let_def)
    then show ?thesis using wf in_iff True by auto
  next
    case False
    let ?d' = "d\<lparr>d_gc_bits := (d_gc_bits d)[?i := d_gc_bits d ! ?i OR push_bit ?j 1], d_gc_allocated := d_gc_allocated d + 1\<rparr>"
    have "d_gc_bits d ! ?i AND push_bit ?j 1 = 0" using False bit_test_word[OF i(2)] by blast
    then have r: "d' = ?d'" "b" using run by (simp_all add: deck_mark_def Let_def)
    have ins: "deck_marked ?d' = insert ?n (deck_marked d)"
      using bitset_update[OF i, of "d_gc_bits d ! ?i OR push_bit ?j 1" True] bit_or_one by (simp add: deck_marked_def)
    have "deck_gc_wf ?d'" using wf(2) ins False in_iff by (simp add: deck_gc_wf_def deck_marked_def)
    with r ins False in_iff wf(1) show ?thesis by (simp add: deck_wf_def deck_used_def same_shape_def)
  qed
qed

lemma deck_afterGC_ok:
  assumes "deck_wf d" "deck_gc_wf d"
  shows "deck_used (deck_afterGC d) = deck_marked d \<and> deck_wf (deck_afterGC d) \<and> same_shape d (deck_afterGC d)"
  using assms by (cases "d_bits d") (auto simp: deck_wf_def deck_gc_wf_def deck_afterGC_def deck_marked_def deck_used_def same_shape_def)

end
