(* ===== verification/MemoryModel.thy ===== *)
theory MemoryModel
  imports Deck "HOL-Library.AList"
begin

text \<open>
  The allocator of the persistent heap (\<open>struct Shoe\<close> and \<open>struct MemoryModel\<close> of
  \<open>misc/memory_model.h\<close> and \<open>misc/memory_model.cpp\<close>): blocks of up to 256 bytes come from
  chains of decks, one chain per size class, larger ones from the system. Built without
  \<open>DAS_SANITIZER\<close> and with \<open>trackAllocations\<close> off.
\<close>

section \<open>Shoe\<close>

definition DAS_MAX_SHOE_ALLOCATION :: nat where "DAS_MAX_SHOE_ALLOCATION = 256"
definition DAS_MAX_SHOE_CUNKS :: nat where "DAS_MAX_SHOE_CUNKS = DAS_MAX_SHOE_ALLOCATION div 16"

text \<open>
  \<open>lastChunk\<close> points to a deck: its size class and the number of decks behind it in the
  chain, which does not change when a deck is pushed in front.
\<close>

record shoe =
  sh_chunks :: "deck list list"
  sh_lastChunk :: "(nat \<times> nat) option"

definition new_shoe :: shoe where
  "new_shoe = \<lparr>sh_chunks = replicate DAS_MAX_SHOE_CUNKS [], sh_lastChunk = None\<rparr>"

definition round16 :: "nat \<Rightarrow> nat" where
  "round16 sz = (sz + 15) - (sz + 15) mod 16"

definition shoe_reset :: "shoe \<Rightarrow> shoe" where
  "shoe_reset sh = sh\<lparr>sh_chunks := map (map deck_reset) (sh_chunks sh)\<rparr>"

definition shoe_beforeGC :: "shoe \<Rightarrow> shoe" where
  "shoe_beforeGC sh = sh\<lparr>sh_chunks := map (map deck_beforeGC) (sh_chunks sh)\<rparr>"

fun chain_allocate :: "deck list \<Rightarrow> deck list \<times> nat" where
  "chain_allocate [] = ([], 0)"
| "chain_allocate (ch # next) =
    (case deck_allocate ch of (ch', res) \<Rightarrow>
      if res \<noteq> 0 then (ch' # next, res)
      else (case chain_allocate next of (next', res') \<Rightarrow> (ch' # next', res')))"

text \<open>\<open>si = (size >> 4) - 1\<close> is out of the array for a size of 0.\<close>

definition shoe_allocate :: "shoe \<Rightarrow> nat \<Rightarrow> (shoe, nat) step" where
  "shoe_allocate sh size0 =
    (let sz = round16 size0 in
     if sz = 0 \<or> sz > DAS_MAX_SHOE_ALLOCATION then (sh, Inl (UndefinedBehaviour ''chunk index out of range''))
     else let si = sz div 16 - 1 in
       case chain_allocate (sh_chunks sh ! si) of (ch, res) \<Rightarrow>
         done_with (sh\<lparr>sh_chunks := (sh_chunks sh)[si := ch]\<rparr>) res)"

fun chain_free :: "nat \<Rightarrow> deck list \<Rightarrow> deck list option" where
  "chain_free ptr [] = None"
| "chain_free ptr (ch # next) =
    (if deck_isOwnPtr ch ptr then Some (deck_free ch ptr # next)
     else map_option (\<lambda>next'. ch # next') (chain_free ptr next))"

definition shoe_free :: "shoe \<Rightarrow> nat \<Rightarrow> nat \<Rightarrow> (shoe, unit) step" where
  "shoe_free sh ptr size0 =
    (let sz = round16 size0 in
     if sz = 0 \<or> sz > DAS_MAX_SHOE_ALLOCATION then (sh, Inl (UndefinedBehaviour ''chunk index out of range''))
     else let si = sz div 16 - 1 in
       case chain_free ptr (sh_chunks sh ! si) of
         Some ch \<Rightarrow> done_with (sh\<lparr>sh_chunks := (sh_chunks sh)[si := ch]\<rparr>) ()
       | None \<Rightarrow> (sh, Inl (VerifyFailed ''deleting pointer, which is not a chunk pointer (or chunk size mismatch)'')))"

definition shoe_deck :: "shoe \<Rightarrow> nat \<times> nat \<Rightarrow> deck" where
  "shoe_deck sh ref = rev (sh_chunks sh ! fst ref) ! snd ref"

definition shoe_put :: "shoe \<Rightarrow> nat \<times> nat \<Rightarrow> deck \<Rightarrow> shoe" where
  "shoe_put sh ref d = sh\<lparr>sh_chunks := (sh_chunks sh)[fst ref := rev ((rev (sh_chunks sh ! fst ref))[snd ref := d])]\<rparr>"

text \<open>
  The search that \<open>mark\<close>, \<open>isOwnPtr\<close> and \<open>isAllocatedPtr\<close> share: first the chunk found
  last, then the chain of the size class, which updates \<open>lastChunk\<close>.
\<close>

fun chain_find :: "nat \<Rightarrow> (nat \<times> nat) option \<Rightarrow> nat \<Rightarrow> deck list \<Rightarrow> nat option" where
  "chain_find si lastc ptr [] = None"
| "chain_find si lastc ptr (ch # next) =
    (if lastc \<noteq> Some (si, length next) \<and> deck_isOwnPtr ch ptr then Some (length next) else chain_find si lastc ptr next)"

definition last_owns :: "shoe \<Rightarrow> nat \<Rightarrow> bool" where
  "last_owns sh ptr = (case sh_lastChunk sh of None \<Rightarrow> False | Some ref \<Rightarrow> deck_isOwnPtr (shoe_deck sh ref) ptr)"

definition shoe_search :: "shoe \<Rightarrow> nat \<Rightarrow> nat \<Rightarrow> (shoe, (nat \<times> nat) option) step" where
  "shoe_search sh ptr sz =
    (if last_owns sh ptr then done_with sh (sh_lastChunk sh)
     else if sz div 16 = 0 \<or> sz div 16 > DAS_MAX_SHOE_CUNKS then (sh, Inl (UndefinedBehaviour ''chunk index out of range''))
     else let si = sz div 16 - 1 in
       case chain_find si (sh_lastChunk sh) ptr (sh_chunks sh ! si) of
         None \<Rightarrow> done_with sh None
       | Some k \<Rightarrow> done_with (sh\<lparr>sh_lastChunk := Some (si, k)\<rparr>) (Some (si, k)))"

definition shoe_mark :: "shoe \<Rightarrow> nat \<Rightarrow> nat \<Rightarrow> (shoe, bool) step" where
  "shoe_mark sh ptr sz = then_step (shoe_search sh ptr (round16 sz)) (\<lambda>sh found. case found of
     None \<Rightarrow> done_with sh False
   | Some ref \<Rightarrow> (case deck_mark (shoe_deck sh ref) ptr of (d, b) \<Rightarrow> done_with (shoe_put sh ref d) b))"

definition shoe_isOwnPtr :: "shoe \<Rightarrow> nat \<Rightarrow> nat \<Rightarrow> (shoe, bool) step" where
  "shoe_isOwnPtr sh ptr sz = then_step (shoe_search sh ptr sz) (\<lambda>sh found. done_with sh (found \<noteq> None))"

definition shoe_isAllocatedPtr :: "shoe \<Rightarrow> nat \<Rightarrow> nat \<Rightarrow> (shoe, bool) step" where
  "shoe_isAllocatedPtr sh ptr sz = then_step (shoe_search sh ptr sz) (\<lambda>sh found. case found of
     None \<Rightarrow> done_with sh False
   | Some ref \<Rightarrow> done_with sh (deck_isAllocatedPtr (shoe_deck sh ref) ptr))"

text \<open>\<open>getStats\<close>: depth, pages, bytes and total bytes.\<close>

definition shoe_depth :: "shoe \<Rightarrow> nat" where
  "shoe_depth sh = foldr max (map length (sh_chunks sh)) 0"

definition shoe_totalChunks :: "shoe \<Rightarrow> nat" where
  "shoe_totalChunks sh = sum_list (map length (sh_chunks sh))"

definition shoe_bytesAllocated :: "shoe \<Rightarrow> nat" where
  "shoe_bytesAllocated sh = sum_list (map (\<lambda>d. d_allocated d * d_size d) (concat (sh_chunks sh)))"

definition shoe_totalBytesAllocated :: "shoe \<Rightarrow> nat" where
  "shoe_totalBytesAllocated sh = sum_list (map (\<lambda>d. d_total d * d_size d + d_total d div 32 * 4) (concat (sh_chunks sh)))"

section \<open>MemoryModel\<close>

definition DAS_PAGE_GC_MASK :: u64 where "DAS_PAGE_GC_MASK = 0x8000000000000000"

definition default_initial_size :: nat where "default_initial_size = 65536"

record mm =
  mm_customGrow :: "(nat \<Rightarrow> nat) option"
  mm_alignMask :: nat
  mm_totalAllocated :: u64
  mm_maxAllocated :: u64
  mm_initialSize :: nat
  mm_maxShoeAllocation :: nat
  mm_shoe :: shoe
  mm_bigStuff :: "(nat \<times> u64) list"

definition new_mm :: mm where
  "new_mm = \<lparr>mm_customGrow = None, mm_alignMask = 15, mm_totalAllocated = 0, mm_maxAllocated = 0, mm_initialSize = 0,
     mm_maxShoeAllocation = DAS_MAX_SHOE_ALLOCATION, mm_shoe = new_shoe, mm_bigStuff = []\<rparr>"

definition mm_setInitialSize :: "mm \<Rightarrow> nat \<Rightarrow> mm" where
  "mm_setInitialSize mm sz = mm\<lparr>mm_initialSize := sz\<rparr>"

text \<open>\<open>(size + alignMask) & ~alignMask\<close> on \<open>uint64_t\<close>.\<close>

definition align_up :: "nat \<Rightarrow> nat \<Rightarrow> nat" where
  "align_up am sz = (let t = (sz + am) mod 2 ^ 64 in t - (t AND am))"

definition mm_grow :: "mm \<Rightarrow> nat \<Rightarrow> mm \<times> nat" where
  "mm_grow mm si = (case sh_chunks (mm_shoe mm) ! si of
     ch # next \<Rightarrow> (mm, case mm_customGrow mm of Some f \<Rightarrow> f (d_total ch) | None \<Rightarrow> d_total ch * 2)
   | [] \<Rightarrow> (let mm' = if mm_initialSize mm = 0 then mm\<lparr>mm_initialSize := default_initial_size\<rparr> else mm
           in (mm', mm_initialSize mm' div ((si + 1) * 16))))"

text \<open>
  \<open>base\<close> is the address that \<open>das_aligned_alloc16\<close> returns if the call reaches it.
\<close>

definition mm_allocate :: "mm \<Rightarrow> nat \<Rightarrow> nat \<Rightarrow> (mm, nat) step" where
  "mm_allocate mm base size0 =
    (if size0 = 0 then done_with mm 0
     else let sz = align_up (mm_alignMask mm) size0;
         total = mm_totalAllocated mm + of_nat sz;
         mm1 = mm\<lparr>mm_totalAllocated := total, mm_maxAllocated := max (mm_maxAllocated mm) total\<rparr> in
       if sz > mm_maxShoeAllocation mm then
         done_with (mm1\<lparr>mm_bigStuff := AList.update base (of_nat sz) (mm_bigStuff mm1)\<rparr>) base
       else then_step (case shoe_allocate (mm_shoe mm1) sz of (sh, r) \<Rightarrow> (mm1\<lparr>mm_shoe := sh\<rparr>, r)) (\<lambda>mm2 res.
         if res \<noteq> 0 then done_with mm2 res
         else let size16 = round16 sz; si = size16 div 16 - 1 in
           case mm_grow mm2 si of (mm3, ne) \<Rightarrow>
             (case deck_allocate (new_deck base ne size16) of (d, p) \<Rightarrow>
               done_with (mm3\<lparr>mm_shoe := (mm_shoe mm3)\<lparr>sh_chunks :=
                 (sh_chunks (mm_shoe mm3))[si := d # sh_chunks (mm_shoe mm3) ! si]\<rparr>\<rparr>) p)))"

definition mm_free :: "mm \<Rightarrow> nat \<Rightarrow> nat \<Rightarrow> (mm, bool) step" where
  "mm_free mm ptr size0 =
    (if size0 = 0 then done_with mm True
     else let sz = align_up (mm_alignMask mm) size0 in
       if sz \<le> mm_maxShoeAllocation mm then
         then_step (case shoe_free (mm_shoe mm) ptr sz of (sh, r) \<Rightarrow> (mm\<lparr>mm_shoe := sh\<rparr>, r)) (\<lambda>mm1 _.
           done_with (mm1\<lparr>mm_totalAllocated := mm_totalAllocated mm1 - of_nat sz\<rparr>) True)
       else if map_of (mm_bigStuff mm) ptr \<noteq> None then
         done_with (mm\<lparr>mm_bigStuff := AList.delete ptr (mm_bigStuff mm),
           mm_totalAllocated := mm_totalAllocated mm - of_nat sz\<rparr>) True
       else done_with mm False)"

text \<open>
  \<open>reallocate\<close> copies \<open>min(size, nsize)\<close> bytes; the contents of memory are a function from
  addresses to bytes.
\<close>

definition memcpy :: "(nat \<Rightarrow> u8) \<Rightarrow> nat \<Rightarrow> nat \<Rightarrow> nat \<Rightarrow> nat \<Rightarrow> u8" where
  "memcpy mem dst src n = (\<lambda>a. if dst \<le> a \<and> a < dst + n then mem (src + (a - dst)) else mem a)"

definition mm_reallocate :: "(nat \<Rightarrow> u8) \<Rightarrow> mm \<Rightarrow> nat \<Rightarrow> nat \<Rightarrow> nat \<Rightarrow> nat \<Rightarrow> (mm \<times> (nat \<Rightarrow> u8), nat) step" where
  "mm_reallocate mem mm base ptr size0 nsize0 =
    (if ptr = 0 then (case mm_allocate mm base nsize0 of (mm', r) \<Rightarrow> ((mm', mem), r))
     else let sz = align_up (mm_alignMask mm) size0; nsize = align_up (mm_alignMask mm) nsize0 in
       then_step (case mm_allocate mm base nsize of (mm', r) \<Rightarrow> ((mm', mem), r)) (\<lambda>(mm1, _) nptr.
         if nptr = 0 then ((mm1, mem), Inl (VerifyFailed ''out of memory?''))
         else let mem' = memcpy mem nptr ptr (min sz nsize) in
           then_step (case mm_free mm1 ptr sz of (mm', r) \<Rightarrow> ((mm', mem'), r)) (\<lambda>s _. done_with s nptr)))"

definition mm_reset :: "mm \<Rightarrow> mm" where
  "mm_reset mm = mm\<lparr>mm_bigStuff := [], mm_shoe := shoe_reset (mm_shoe mm)\<rparr>"

definition mm_isOwnPtr :: "mm \<Rightarrow> nat \<Rightarrow> nat \<Rightarrow> (mm, bool) step" where
  "mm_isOwnPtr mm ptr sz =
    (if sz \<le> mm_maxShoeAllocation mm then (case shoe_isOwnPtr (mm_shoe mm) ptr sz of (sh, r) \<Rightarrow> (mm\<lparr>mm_shoe := sh\<rparr>, r))
     else done_with mm (map_of (mm_bigStuff mm) ptr \<noteq> None))"

definition mm_isAllocatedPtr :: "mm \<Rightarrow> nat \<Rightarrow> nat \<Rightarrow> (mm, bool) step" where
  "mm_isAllocatedPtr mm ptr sz =
    (if sz \<le> mm_maxShoeAllocation mm then (case shoe_isAllocatedPtr (mm_shoe mm) ptr sz of (sh, r) \<Rightarrow> (mm\<lparr>mm_shoe := sh\<rparr>, r))
     else done_with mm (map_of (mm_bigStuff mm) ptr \<noteq> None))"

definition mm_totalAlignedMemoryAllocated :: "mm \<Rightarrow> nat" where
  "mm_totalAlignedMemoryAllocated mm = shoe_totalBytesAllocated (mm_shoe mm) + sum_list (map (unat \<circ> snd) (mm_bigStuff mm))"

section \<open>Garbage collection\<close>

text \<open>\<open>PersistentHeapAllocator::mark()\<close>, \<open>mark(ptr, len)\<close> and \<open>MemoryModel::sweep\<close>.\<close>

definition mm_begin_mark :: "mm \<Rightarrow> mm" where
  "mm_begin_mark mm = mm\<lparr>mm_shoe := shoe_beforeGC (mm_shoe mm)\<rparr>"

definition mm_mark :: "mm \<Rightarrow> nat \<Rightarrow> nat \<Rightarrow> (mm, bool) step" where
  "mm_mark mm ptr len =
    (let sz = align_up 15 len in
     if sz \<le> mm_maxShoeAllocation mm then
       (case shoe_mark (mm_shoe mm) ptr sz of (sh, r) \<Rightarrow> (mm\<lparr>mm_shoe := sh\<rparr>, r))
     else (case map_of (mm_bigStuff mm) ptr of
         Some v \<Rightarrow> done_with (mm\<lparr>mm_bigStuff := AList.update ptr (v OR DAS_PAGE_GC_MASK) (mm_bigStuff mm)\<rparr>)
                    (v AND DAS_PAGE_GC_MASK = 0)
       | None \<Rightarrow> done_with mm False))"

definition deck_live_bytes :: "deck \<Rightarrow> u64" where
  "deck_live_bytes d = of_nat (sum_list (map das_popcount (d_bits d)) * d_size d)"

definition mm_sweep :: "mm \<Rightarrow> mm" where
  "mm_sweep mm =
    (let chunks = map (map deck_afterGC) (sh_chunks (mm_shoe mm));
         kept = map (\<lambda>(p, v). (p, v AND NOT DAS_PAGE_GC_MASK)) (filter (\<lambda>(p, v). v AND DAS_PAGE_GC_MASK \<noteq> 0) (mm_bigStuff mm))
     in mm\<lparr>mm_totalAllocated := sum_list (map deck_live_bytes (concat chunks)) + sum_list (map snd kept),
           mm_shoe := (mm_shoe mm)\<lparr>sh_chunks := chunks\<rparr>, mm_bigStuff := kept\<rparr>)"

end
