(* ===== verification/MemoryInv.thy ===== *)
theory MemoryInv
  imports MemoryModel HeapContract
begin

text \<open>
  The invariant of the persistent heap's allocator and the effect of its operations on the
  set of live blocks: an address and the size of the slot behind it.
\<close>

section \<open>Shoes\<close>

definition deck_region :: "deck \<Rightarrow> nat \<times> nat" where
  "deck_region d = (d_data d, d_totalBytes d)"

definition deck_blocks :: "deck \<Rightarrow> (nat \<times> nat) set" where
  "deck_blocks d = (\<lambda>i. (deck_slot d i, d_size d)) ` deck_used d"

definition shoe_decks :: "shoe \<Rightarrow> deck list" where
  "shoe_decks sh = concat (sh_chunks sh)"

definition shoe_live :: "shoe \<Rightarrow> (nat \<times> nat) set" where
  "shoe_live sh = (\<Union>d\<in>set (shoe_decks sh). deck_blocks d)"

definition shoe_regions :: "shoe \<Rightarrow> (nat \<times> nat) list" where
  "shoe_regions sh = map deck_region (shoe_decks sh)"

definition class_ok :: "nat \<Rightarrow> deck \<Rightarrow> bool" where
  "class_ok si d \<longleftrightarrow> deck_wf d \<and> d_size d = 16 * (si + 1) \<and> 0 < d_data d \<and> 16 dvd d_data d"

definition shoe_wf :: "shoe \<Rightarrow> bool" where
  "shoe_wf sh \<longleftrightarrow> length (sh_chunks sh) = DAS_MAX_SHOE_CUNKS \<and>
    (\<forall>si<DAS_MAX_SHOE_CUNKS. \<forall>d\<in>set (sh_chunks sh ! si). class_ok si d) \<and>
    (case sh_lastChunk sh of None \<Rightarrow> True | Some (si, k) \<Rightarrow> si < DAS_MAX_SHOE_CUNKS \<and> k < length (sh_chunks sh ! si)) \<and>
    disjoint_regions (shoe_regions sh)"

lemma DAS_MAX_SHOE_CUNKS_eq: "DAS_MAX_SHOE_CUNKS = 16"
  by (simp add: DAS_MAX_SHOE_CUNKS_def DAS_MAX_SHOE_ALLOCATION_def)

lemma same_shape_region: "same_shape d d' \<Longrightarrow> deck_region d' = deck_region d"
  by (simp add: same_shape_def deck_region_def)

lemma same_shape_class: "class_ok si d \<Longrightarrow> same_shape d d' \<Longrightarrow> deck_wf d' \<Longrightarrow> class_ok si d'"
  by (simp add: class_ok_def same_shape_def)

lemma deck_block_own: "deck_wf d \<Longrightarrow> (p, n) \<in> deck_blocks d \<Longrightarrow> deck_isOwnPtr d p"
  by (auto simp: deck_blocks_def intro!: deck_slot_own deck_used_lt)

lemma deck_block_size: "(p, n) \<in> deck_blocks d \<Longrightarrow> n = d_size d"
  by (auto simp: deck_blocks_def)

lemma deck_block_iff:
  "0 < d_size d \<Longrightarrow> (deck_slot d i, d_size d) \<in> deck_blocks d \<longleftrightarrow> i \<in> deck_used d"
  by (auto simp: deck_blocks_def deck_slot_def)

lemma apart_not_both: "apart (deck_region d) (deck_region e) \<Longrightarrow> deck_isOwnPtr d p \<Longrightarrow> \<not> deck_isOwnPtr e p"
  by (auto simp: deck_region_def deck_isOwnPtr_def)

lemma shoe_deck_wf:
  assumes "shoe_wf sh" "d \<in> set (shoe_decks sh)"
  shows "\<exists>si<DAS_MAX_SHOE_CUNKS. class_ok si d \<and> d \<in> set (sh_chunks sh ! si)"
proof -
  from assms(2) obtain i where i: "i < length (sh_chunks sh)" "d \<in> set (sh_chunks sh ! i)"
    by (auto simp: shoe_decks_def in_set_conv_nth[of _ "sh_chunks sh"])
  with assms(1) show ?thesis by (auto simp: shoe_wf_def intro: exI[of _ i])
qed

lemma chunk_in_decks: "shoe_wf sh \<Longrightarrow> si < DAS_MAX_SHOE_CUNKS \<Longrightarrow> d \<in> set (sh_chunks sh ! si) \<Longrightarrow> d \<in> set (shoe_decks sh)"
  unfolding shoe_wf_def shoe_decks_def by (metis UN_I nth_mem set_concat)

text \<open>Replacing one deck, in the middle of one chain, by another.\<close>

lemma concat_replace:
  assumes "si < length cs"
  obtains P Q where "\<And>zs. concat (cs[si := xs @ zs @ ys]) = P @ zs @ Q"
proof
  show "concat (cs[si := xs @ zs @ ys]) = (concat (take si cs) @ xs) @ zs @ (ys @ concat (drop (Suc si) cs))" for zs
    using assms by (simp add: upd_conv_take_nth_drop)
qed

lemma shoe_split:
  assumes wf: "shoe_wf sh" and si: "si < DAS_MAX_SHOE_CUNKS" and ch: "sh_chunks sh ! si = xs @ d # ys"
  obtains P Q where "shoe_decks sh = P @ d # Q" "\<And>d'. shoe_decks (sh\<lparr>sh_chunks := (sh_chunks sh)[si := xs @ d' # ys]\<rparr>) = P @ d' # Q"
    "\<And>e. e \<in> set (P @ Q) \<Longrightarrow> apart (deck_region d) (deck_region e)"
proof -
  have len: "si < length (sh_chunks sh)" using wf si by (simp add: shoe_wf_def)
  from len obtain P Q where PQ: "\<And>zs. concat ((sh_chunks sh)[si := xs @ zs @ ys]) = P @ zs @ Q"
    by (rule concat_replace) blast
  have new: "concat ((sh_chunks sh)[si := xs @ e # ys]) = P @ e # Q" for e using PQ[of "[e]"] by simp
  have old: "concat (sh_chunks sh) = P @ d # Q" using new[of d] ch list_update_id[of "sh_chunks sh" si] by simp
  have "disjoint_regions (map deck_region P @ deck_region d # map deck_region Q)"
    using wf old by (simp add: shoe_wf_def shoe_regions_def shoe_decks_def)
  then have "\<And>e. e \<in> set (P @ Q) \<Longrightarrow> apart (deck_region d) (deck_region e)"
    unfolding disjoint_regions_middle by auto
  with old new show ?thesis by (intro that[of P Q]) (simp_all add: shoe_decks_def)
qed

lemma shoe_replace:
  assumes wf: "shoe_wf sh" and si: "si < DAS_MAX_SHOE_CUNKS" and ch: "sh_chunks sh ! si = xs @ d # ys"
    and d': "same_shape d d'" "deck_wf d'"
  defines "sh' \<equiv> sh\<lparr>sh_chunks := (sh_chunks sh)[si := xs @ d' # ys]\<rparr>"
  shows "shoe_wf sh'" "shoe_regions sh' = shoe_regions sh"
    "shoe_live sh' = (shoe_live sh - deck_blocks d) \<union> deck_blocks d'" "deck_blocks d \<subseteq> shoe_live sh"
    "\<And>e p n. e \<in> set (shoe_decks sh) \<Longrightarrow> deck_isOwnPtr e p \<Longrightarrow> deck_isOwnPtr d p \<Longrightarrow> e = d"
proof -
  from wf si ch obtain P Q where PQ: "shoe_decks sh = P @ d # Q" "shoe_decks sh' = P @ d' # Q"
    "\<And>e. e \<in> set (P @ Q) \<Longrightarrow> apart (deck_region d) (deck_region e)"
    unfolding sh'_def by (rule shoe_split) blast
  have len: "si < length (sh_chunks sh)" using wf si by (simp add: shoe_wf_def)
  have cls: "class_ok si d" using wf si ch by (auto simp: shoe_wf_def)
  show regs: "shoe_regions sh' = shoe_regions sh"
    using PQ same_shape_region[OF d'(1)] by (simp add: shoe_regions_def)
  have cls': "class_ok si d'" using cls d' by (rule same_shape_class)
  have "class_ok j e" if "j < DAS_MAX_SHOE_CUNKS" "e \<in> set (sh_chunks sh' ! j)" for j e
  proof (cases "j = si")
    case True
    with that len ch have "e \<in> set xs \<union> {d'} \<union> set ys" by (simp add: sh'_def)
    with cls' wf si ch show ?thesis unfolding True shoe_wf_def by auto
  next
    case False
    with that wf show ?thesis by (simp add: sh'_def shoe_wf_def)
  qed
  moreover have "length (sh_chunks sh' ! j) = length (sh_chunks sh ! j)" for j
    using len ch by (cases "j = si") (simp_all add: sh'_def)
  ultimately show "shoe_wf sh'"
    using wf regs by (auto simp: shoe_wf_def sh'_def split: option.splits)
  show own: "e = d" if e: "e \<in> set (shoe_decks sh)" "deck_isOwnPtr e p" "deck_isOwnPtr d p" for e p
    using e PQ(1,3) apart_not_both[of d e p] by auto
  have "deck_blocks e \<inter> deck_blocks d = {}" if "e \<in> set (P @ Q)" for e
  proof (rule ccontr)
    assume "\<not> ?thesis"
    then obtain b where b: "b \<in> deck_blocks e" "b \<in> deck_blocks d" by blast
    have "e \<in> set (shoe_decks sh)" using that PQ(1) by auto
    then have "deck_wf e" using shoe_deck_wf[OF wf] by (auto simp: class_ok_def)
    with b cls have "deck_isOwnPtr e (fst b)" "deck_isOwnPtr d (fst b)"
      by (metis class_ok_def deck_block_own prod.collapse)+
    with PQ(3)[OF that] show False using apart_not_both by blast
  qed
  then show "shoe_live sh' = (shoe_live sh - deck_blocks d) \<union> deck_blocks d'"
    unfolding shoe_live_def PQ(1,2) by auto
  show "deck_blocks d \<subseteq> shoe_live sh" unfolding shoe_live_def PQ(1) by auto
qed

text \<open>Applying an operation to every deck.\<close>

lemma shoe_map:
  assumes wf: "shoe_wf sh"
    and f: "\<And>d. d \<in> set (shoe_decks sh) \<Longrightarrow> deck_wf d \<Longrightarrow> deck_wf (f d) \<and> same_shape d (f d)"
  defines "sh' \<equiv> sh\<lparr>sh_chunks := map (map f) (sh_chunks sh)\<rparr>"
  shows "shoe_wf sh'" "shoe_regions sh' = shoe_regions sh" "shoe_decks sh' = map f (shoe_decks sh)"
proof -
  show decks: "shoe_decks sh' = map f (shoe_decks sh)"
    by (simp add: shoe_decks_def sh'_def map_concat)
  have wfd: "deck_wf d" if "d \<in> set (shoe_decks sh)" for d
    using shoe_deck_wf[OF wf that] by (auto simp: class_ok_def)
  show regs: "shoe_regions sh' = shoe_regions sh"
    using f wfd same_shape_region by (simp add: shoe_regions_def decks)
  have "class_ok si d'" if si: "si < DAS_MAX_SHOE_CUNKS" "d' \<in> set (sh_chunks sh' ! si)" for si d'
  proof -
    from si wf obtain d where d: "d \<in> set (sh_chunks sh ! si)" "d' = f d" by (auto simp: sh'_def shoe_wf_def)
    then have "class_ok si d" using wf si by (auto simp: shoe_wf_def)
    with f[OF chunk_in_decks[OF wf si(1) d(1)]] d(2) show ?thesis by (auto simp: class_ok_def same_shape_def)
  qed
  with wf regs show "shoe_wf sh'" by (auto simp: shoe_wf_def sh'_def split: option.splits)
qed

lemma shoe_last_irrelevant:
  "shoe_decks (sh\<lparr>sh_lastChunk := x\<rparr>) = shoe_decks sh" "shoe_live (sh\<lparr>sh_lastChunk := x\<rparr>) = shoe_live sh"
  "shoe_regions (sh\<lparr>sh_lastChunk := x\<rparr>) = shoe_regions sh"
  by (simp_all add: shoe_decks_def shoe_live_def shoe_regions_def)

section \<open>Shoe operations\<close>

lemma round16_eq: "round16 s = 16 * ((s + 15) div 16)"
  by (simp add: round16_def minus_mod_eq_mult_div)

lemma round16_class:
  assumes "0 < s" "s \<le> 256"
  shows "round16 s div 16 - 1 < DAS_MAX_SHOE_CUNKS" "round16 s = 16 * ((round16 s div 16 - 1) + 1)" "s \<le> round16 s"
    "round16 s \<le> 256" "0 < round16 s" "round16 (round16 s) = round16 s"
  using assms unfolding round16_eq DAS_MAX_SHOE_CUNKS_eq by auto

definition chain_ok :: "nat \<Rightarrow> deck list \<Rightarrow> bool" where
  "chain_ok si ch \<longleftrightarrow> (\<forall>d\<in>set ch. class_ok si d)"

definition chain_full :: "deck list \<Rightarrow> bool" where
  "chain_full ch \<longleftrightarrow> (\<forall>d\<in>set ch. d_allocated d = d_total d)"

lemma deck_slot_pos: "class_ok si d \<Longrightarrow> deck_slot d i \<noteq> 0"
  by (simp add: class_ok_def deck_slot_def)

lemma chain_allocate_full: "chain_full ch \<Longrightarrow> chain_allocate ch = (ch, 0)"
  by (induction ch) (auto simp: chain_full_def deck_allocate_full)

lemma chain_allocate_ok:
  "chain_ok si ch \<Longrightarrow> \<not> chain_full ch \<Longrightarrow>
    \<exists>xs d ys i d'. ch = xs @ d # ys \<and> chain_allocate ch = (xs @ d' # ys, deck_slot d i) \<and> i < d_total d \<and> i \<notin> deck_used d \<and>
      deck_used d' = insert i (deck_used d) \<and> deck_wf d' \<and> same_shape d d'"
proof (induction ch)
  case (Cons c ch)
  have c: "class_ok si c" using Cons.prems by (simp add: chain_ok_def)
  show ?case
  proof (cases "d_allocated c = d_total c")
    case True
    with Cons.prems have "chain_ok si ch" "\<not> chain_full ch" by (auto simp: chain_ok_def chain_full_def)
    with Cons.IH obtain xs d ys i d' where r: "ch = xs @ d # ys" "chain_allocate ch = (xs @ d' # ys, deck_slot d i)" "i < d_total d"
      "i \<notin> deck_used d" "deck_used d' = insert i (deck_used d)" "deck_wf d'" "same_shape d d'" by blast
    with True show ?thesis
      by (intro exI[of _ "c # xs"] exI[of _ d] exI[of _ ys] exI[of _ i] exI[of _ d']) (simp add: deck_allocate_full)
  next
    case False
    with deck_allocate_ok[of c] c obtain i d' where r: "deck_allocate c = (d', deck_slot c i)" "i < d_total c" "i \<notin> deck_used c"
      "deck_used d' = insert i (deck_used c)" "deck_wf d'" "same_shape c d'" by (auto simp: class_ok_def)
    with deck_slot_pos[OF c] show ?thesis
      by (intro exI[of _ "[]"] exI[of _ c] exI[of _ ch] exI[of _ i] exI[of _ d']) simp
  qed
qed (simp add: chain_full_def)

lemma chain_free_ok:
  "\<exists>d\<in>set ch. deck_isOwnPtr d ptr \<Longrightarrow>
    \<exists>xs d ys. ch = xs @ d # ys \<and> deck_isOwnPtr d ptr \<and> chain_free ptr ch = Some (xs @ deck_free d ptr # ys)"
proof (induction ch)
  case (Cons c ch)
  show ?case
  proof (cases "deck_isOwnPtr c ptr")
    case True
    then show ?thesis by (intro exI[of _ "[]"] exI[of _ c] exI[of _ ch]) simp
  next
    case False
    with Cons obtain xs d ys where "ch = xs @ d # ys" "deck_isOwnPtr d ptr" "chain_free ptr ch = Some (xs @ deck_free d ptr # ys)"
      by auto
    with False show ?thesis by (intro exI[of _ "c # xs"] exI[of _ d] exI[of _ ys]) simp
  qed
qed simp

lemma same_shape_blocks:
  "same_shape d d' \<Longrightarrow> deck_blocks d' = (\<lambda>i. (deck_slot d i, d_size d)) ` deck_used d'"
  using same_shape_slot[of d d'] by (simp add: deck_blocks_def same_shape_def)

lemma insert_block:
  assumes "same_shape d d'" "deck_used d' = insert i (deck_used d)"
  shows "deck_blocks d' = insert (deck_slot d i, d_size d) (deck_blocks d)"
  unfolding same_shape_blocks[OF assms(1)] assms(2) by (simp add: deck_blocks_def)

lemma remove_block:
  assumes "0 < d_size d" "same_shape d d'" "deck_used d' = deck_used d - {i}"
  shows "deck_blocks d' = deck_blocks d - {(deck_slot d i, d_size d)}"
proof -
  have "inj (\<lambda>i. (deck_slot d i, d_size d))" using assms(1) by (auto simp: inj_on_def deck_slot_def)
  from image_set_diff[OF this, of "deck_used d" "{i}"] show ?thesis
    unfolding same_shape_blocks[OF assms(2)] assms(3) by (simp add: deck_blocks_def)
qed

lemma class_chain: "shoe_wf sh \<Longrightarrow> si < DAS_MAX_SHOE_CUNKS \<Longrightarrow> chain_ok si (sh_chunks sh ! si)"
  by (simp add: shoe_wf_def chain_ok_def)

lemma shoe_allocate_ok:
  assumes wf: "shoe_wf sh" and s: "0 < s" "s \<le> 256"
  defines "si \<equiv> round16 s div 16 - 1"
  assumes room: "\<not> chain_full (sh_chunks sh ! si)"
  shows "\<exists>sh' p. shoe_allocate sh s = (sh', Inr p) \<and> shoe_wf sh' \<and> shoe_regions sh' = shoe_regions sh \<and> 0 < p \<and> 16 dvd p \<and>
    (p, round16 s) \<notin> shoe_live sh \<and> shoe_live sh' = insert (p, round16 s) (shoe_live sh)"
proof -
  note r = round16_class[OF s, folded si_def]
  have ch: "chain_ok si (sh_chunks sh ! si)" using class_chain[OF wf r(1)] .
  from chain_allocate_ok[OF ch room] obtain xs d ys i d' where a: "sh_chunks sh ! si = xs @ d # ys"
    "chain_allocate (sh_chunks sh ! si) = (xs @ d' # ys, deck_slot d i)" "i < d_total d" "i \<notin> deck_used d"
    "deck_used d' = insert i (deck_used d)" "deck_wf d'" "same_shape d d'" by blast
  have d: "class_ok si d" using ch a(1) by (auto simp: chain_ok_def)
  then have sz: "d_size d = round16 s" "0 < d_size d" using r(2) by (simp_all add: class_ok_def)
  let ?sh' = "sh\<lparr>sh_chunks := (sh_chunks sh)[si := xs @ d' # ys]\<rparr>"
  note rep = shoe_replace[OF wf r(1) a(1,7,6)]
  have run: "shoe_allocate sh s = (?sh', Inr (deck_slot d i))"
    using a(2) r(4,5) unfolding shoe_allocate_def Let_def si_def[symmetric] by (simp add: done_with_def DAS_MAX_SHOE_ALLOCATION_def)
  have fresh: "(deck_slot d i, round16 s) \<notin> shoe_live sh"
  proof
    assume "(deck_slot d i, round16 s) \<in> shoe_live sh"
    then obtain e where e: "e \<in> set (shoe_decks sh)" "(deck_slot d i, round16 s) \<in> deck_blocks e" by (auto simp: shoe_live_def)
    have "deck_wf e" using shoe_deck_wf[OF wf e(1)] by (auto simp: class_ok_def)
    then have "deck_isOwnPtr e (deck_slot d i)" using e(2) deck_block_own by blast
    moreover have "deck_isOwnPtr d (deck_slot d i)" using a(3) d by (intro deck_slot_own) (simp_all add: class_ok_def)
    ultimately have "e = d" using rep(5)[OF e(1)] by blast
    with e(2) sz a(4) deck_block_iff[of d i] show False by simp
  qed
  have "16 dvd deck_slot d i" using d by (simp add: class_ok_def deck_slot_def)
  moreover have "shoe_live ?sh' = insert (deck_slot d i, round16 s) (shoe_live sh)"
    unfolding rep(3) insert_block[OF a(7,5)] sz(1) using rep(4) by blast
  ultimately show ?thesis using run fresh rep(1,2) deck_slot_pos[OF d, of i] by blast
qed

lemma shoe_allocate_none:
  assumes wf: "shoe_wf sh" and s: "0 < s" "s \<le> 256"
    and full: "chain_full (sh_chunks sh ! (round16 s div 16 - 1))"
  shows "shoe_allocate sh s = (sh, Inr 0)"
  using round16_class[OF s] chain_allocate_full[OF full]
  by (simp add: shoe_allocate_def Let_def done_with_def DAS_MAX_SHOE_ALLOCATION_def)

lemma shoe_free_ok:
  assumes wf: "shoe_wf sh" and s: "0 < s" "s \<le> 256" and live: "(p, round16 s) \<in> shoe_live sh"
  shows "\<exists>sh'. shoe_free sh p s = (sh', Inr ()) \<and> shoe_wf sh' \<and> shoe_regions sh' = shoe_regions sh \<and>
    shoe_live sh' = shoe_live sh - {(p, round16 s)}"
proof -
  let ?si = "round16 s div 16 - 1"
  note r = round16_class[OF s]
  from live obtain d where d: "d \<in> set (shoe_decks sh)" "(p, round16 s) \<in> deck_blocks d" by (auto simp: shoe_live_def)
  from shoe_deck_wf[OF wf d(1)] obtain sj where sj: "sj < DAS_MAX_SHOE_CUNKS" "class_ok sj d" "d \<in> set (sh_chunks sh ! sj)" by blast
  have "16 * (sj + 1) = round16 s" using deck_block_size[OF d(2)] sj(2) by (simp add: class_ok_def)
  then have si: "sj = ?si" using r(2) by simp
  have dwf: "deck_wf d" using sj(2) by (simp add: class_ok_def)
  then have own: "deck_isOwnPtr d p" using d(2) deck_block_own by blast
  from chain_free_ok[of "sh_chunks sh ! ?si" p] sj(3) own obtain xs e ys where e: "sh_chunks sh ! ?si = xs @ e # ys" "deck_isOwnPtr e p"
    "chain_free p (sh_chunks sh ! ?si) = Some (xs @ deck_free e p # ys)" unfolding si by blast
  from wf r(1) e(1) obtain P Q where PQ: "shoe_decks sh = P @ e # Q" "\<And>f. f \<in> set (P @ Q) \<Longrightarrow> apart (deck_region e) (deck_region f)"
    by (rule shoe_split) blast
  have "d = e" using d(1) PQ apart_not_both[of e d p] own e(2) by auto
  note e = e[folded this]
  from d(2) obtain i where i: "p = deck_slot d i" "i \<in> deck_used d" "d_size d = round16 s" by (auto simp: deck_blocks_def)
  have sz: "0 < d_size d" using dwf by (simp add: deck_wf_def)
  have idx: "deck_idx d p = i" using i(1) sz by (simp add: deck_idx_slot)
  note fr = deck_free_ok[OF dwf, of p, unfolded idx, OF i(2)]
  note rep = shoe_replace[OF wf r(1) e(1), of "deck_free d p"]
  let ?sh' = "sh\<lparr>sh_chunks := (sh_chunks sh)[?si := xs @ deck_free d p # ys]\<rparr>"
  have run: "shoe_free sh p s = (?sh', Inr ())"
    using e(3) r(4,5) by (simp add: shoe_free_def Let_def done_with_def DAS_MAX_SHOE_ALLOCATION_def)
  have blocks: "deck_blocks (deck_free d p) = deck_blocks d - {(p, round16 s)}"
    using remove_block[OF sz, of "deck_free d p" i] fr i by simp
  have "shoe_live ?sh' = shoe_live sh - {(p, round16 s)}"
  proof -
    have "(p, round16 s) \<in> deck_blocks d" "deck_blocks d \<subseteq> shoe_live sh" using d(2) rep(4) fr by auto
    then show ?thesis using rep(3) fr unfolding blocks by blast
  qed
  with run rep(1,2) fr show ?thesis by blast
qed

section \<open>The memory model\<close>

definition big_size :: "u64 \<Rightarrow> nat" where
  "big_size v = unat (v AND NOT DAS_PAGE_GC_MASK)"

definition big_regions :: "(nat \<times> u64) list \<Rightarrow> (nat \<times> nat) list" where
  "big_regions big = map (\<lambda>(p, v). (p, big_size v)) big"

definition mm_regions :: "mm \<Rightarrow> (nat \<times> nat) list" where
  "mm_regions mm = shoe_regions (mm_shoe mm) @ big_regions (mm_bigStuff mm)"

definition mm_live :: "mm \<Rightarrow> (nat \<times> nat) set" where
  "mm_live mm = shoe_live (mm_shoe mm) \<union> set (big_regions (mm_bigStuff mm))"

text \<open>The two masks in use: 15 for the heap, 3 for the string heap.\<close>

definition mask_ok :: "nat \<Rightarrow> bool" where
  "mask_ok am \<longleftrightarrow> am = 15 \<or> am = 3"

definition mm_wf :: "mm \<Rightarrow> bool" where
  "mm_wf mm \<longleftrightarrow> shoe_wf (mm_shoe mm) \<and> mask_ok (mm_alignMask mm) \<and> mm_maxShoeAllocation mm = 256 \<and>
    distinct (map fst (mm_bigStuff mm)) \<and>
    (\<forall>(p, v)\<in>set (mm_bigStuff mm). 0 < p \<and> 16 dvd p \<and> 256 < big_size v) \<and> disjoint_regions (mm_regions mm)"

definition slot_size :: "mm \<Rightarrow> nat \<Rightarrow> nat" where
  "slot_size mm n = (let a = align_up (mm_alignMask mm) n in if a \<le> 256 then round16 a else a)"

text \<open>
  What \<open>mm_allocate\<close> asks of the system, and the system's promise: a block at a 16-aligned
  address, apart from the blocks it granted before, below \<open>2^63\<close>.
\<close>

definition mm_request :: "mm \<Rightarrow> nat \<Rightarrow> nat option" where
  "mm_request mm n =
    (let a = align_up (mm_alignMask mm) n; si = round16 a div 16 - 1 in
     if a > 256 then Some a
     else if chain_full (sh_chunks (mm_shoe mm) ! si) then Some (deck_total (snd (mm_grow mm si)) * round16 a)
     else None)"

definition system_grants :: "(nat \<times> nat) list \<Rightarrow> nat \<Rightarrow> nat \<Rightarrow> bool" where
  "system_grants regions base len \<longleftrightarrow>
    0 < len \<and> 0 < base \<and> 16 dvd base \<and> base + len < 2 ^ 63 \<and> list_all (apart (base, len)) regions"

definition mm_ready :: "mm \<Rightarrow> nat \<Rightarrow> nat \<Rightarrow> bool" where
  "mm_ready mm base n \<longleftrightarrow> 0 < n \<and> n < 2 ^ 63 \<and>
    (case mm_request mm n of None \<Rightarrow> True | Some len \<Rightarrow> system_grants (mm_regions mm) base len)"

lemma align_up_eq:
  assumes "mask_ok am" "n < 2 ^ 63"
  shows "align_up am n = (n + am) div (am + 1) * (am + 1)"
proof -
  have "n + am < 2 ^ 64" using assms by (auto simp: mask_ok_def)
  then have t: "(n + am) mod 2 ^ 64 = n + am" by simp
  have a: "(n + am) AND am = (n + am) mod (am + 1)"
    using assms(1) and_pow2_mask[of "n + 15" 4] and_pow2_mask[of "n + 3" 2] by (auto simp: mask_ok_def)
  show ?thesis unfolding align_up_def Let_def t a by (simp add: minus_mod_eq_div_mult)
qed

lemma align_up_bounds:
  assumes "mask_ok am" "n < 2 ^ 63" "0 < n"
  shows "n \<le> align_up am n" "align_up am n \<le> n + am" "0 < align_up am n" "align_up am n < 2 ^ 64"
proof -
  have "(n + am) mod (am + 1) \<le> am" "(n + am) div (am + 1) * (am + 1) + (n + am) mod (am + 1) = n + am"
    using mod_less_divisor[of "am + 1" "n + am"] div_mult_mod_eq[of "n + am" "am + 1"] by linarith+
  then show ge: "n \<le> align_up am n" and le: "align_up am n \<le> n + am" unfolding align_up_eq[OF assms(1,2)] by linarith+
  show "0 < align_up am n" using ge assms(3) by linarith
  show "align_up am n < 2 ^ 64" using le assms by (auto simp: mask_ok_def)
qed

lemma slot_size_ge:
  assumes "mm_wf mm" "n < 2 ^ 63" "0 < n"
  shows "n \<le> slot_size mm n" "align_up (mm_alignMask mm) n \<le> slot_size mm n"
proof -
  let ?a = "align_up (mm_alignMask mm) n"
  have a: "n \<le> ?a" "0 < ?a" using align_up_bounds[OF _ assms(2,3)] assms(1) by (simp_all add: mm_wf_def)
  then show "?a \<le> slot_size mm n" using round16_class(3)[of ?a] by (auto simp: slot_size_def Let_def)
  with a show "n \<le> slot_size mm n" by linarith
qed

lemma gc_mask_eq: "DAS_PAGE_GC_MASK = 2 ^ 63"
  by (simp add: DAS_PAGE_GC_MASK_def)

lemma big_size_of_nat:
  assumes "n < 2 ^ 63"
  shows "big_size (of_nat n) = n" "(of_nat n :: u64) AND DAS_PAGE_GC_MASK = 0"
proof -
  have un: "unat (of_nat n :: u64) = n" using assms by (simp add: unsigned_of_nat take_bit_nat_eq_self)
  have "\<not> bit (of_nat n :: u64) 63"
  proof
    assume "bit (of_nat n :: u64) 63"
    then have "bit n 63" by (simp add: bit_of_nat_iff)
    then have "2 ^ 63 \<le> n" by (metis bit_nat_iff div_eq_0_iff even_zero linorder_not_less bit_iff_odd)
    with assms show False by simp
  qed
  then show z: "(of_nat n :: u64) AND DAS_PAGE_GC_MASK = 0"
    unfolding gc_mask_eq using and_exp_eq_0_iff_not_bit by blast
  have "(of_nat n :: u64) AND NOT DAS_PAGE_GC_MASK = of_nat n"
  proof (rule bit_word_eqI)
    fix k assume "k < LENGTH(64)"
    have "\<not> (bit (of_nat n :: u64) k \<and> bit DAS_PAGE_GC_MASK k)" using z by (metis bit_and_iff bit_0_eq bot_apply bot_bool_def)
    then show "bit ((of_nat n :: u64) AND NOT DAS_PAGE_GC_MASK) k = bit (of_nat n :: u64) k"
      using \<open>k < LENGTH(64)\<close> by (auto simp: bit_simps)
  qed
  then show "big_size (of_nat n) = n" by (simp add: big_size_def un)
qed

lemma shoe_live_region:
  assumes "shoe_wf sh" "(p, n) \<in> shoe_live sh"
  shows "\<exists>(b, l)\<in>set (shoe_regions sh). b \<le> p \<and> p + n \<le> b + l"
proof -
  from assms(2) obtain d where d: "d \<in> set (shoe_decks sh)" "(p, n) \<in> deck_blocks d" by (auto simp: shoe_live_def)
  with shoe_deck_wf[OF assms(1) d(1)] have wf: "deck_wf d" by (auto simp: class_ok_def)
  from d(2) obtain i where i: "p = deck_slot d i" "n = d_size d" "i \<in> deck_used d" by (auto simp: deck_blocks_def)
  have "i < d_total d" using deck_used_lt[OF wf i(3)] .
  then have "(i + 1) * d_size d \<le> d_total d * d_size d" by (intro mult_right_mono) simp_all
  then have "p + n \<le> d_data d + d_totalBytes d" using i wf by (simp add: deck_slot_def deck_wf_def)
  moreover have "d_data d \<le> p" using i by (simp add: deck_slot_def)
  moreover have "deck_region d \<in> set (shoe_regions sh)" using d(1) by (simp add: shoe_regions_def)
  ultimately show ?thesis by (auto simp: deck_region_def intro!: bexI[of _ "deck_region d"])
qed

text \<open>Live blocks are apart from each other.\<close>

lemma shoe_live_apart:
  assumes wf: "shoe_wf sh" and b: "b \<in> shoe_live sh" "c \<in> shoe_live sh" "b \<noteq> c"
  shows "apart b c"
proof -
  from b obtain d e where d: "d \<in> set (shoe_decks sh)" "b \<in> deck_blocks d" and e: "e \<in> set (shoe_decks sh)" "c \<in> deck_blocks e"
    by (auto simp: shoe_live_def)
  obtain i where i: "b = (deck_slot d i, d_size d)" "i \<in> deck_used d" using d(2) by (auto simp: deck_blocks_def)
  obtain j where j: "c = (deck_slot e j, d_size e)" "j \<in> deck_used e" using e(2) by (auto simp: deck_blocks_def)
  show ?thesis
  proof (cases "d = e")
    case True
    with i j b(3) have "i < j \<or> j < i" by (metis linorder_neqE_nat)
    then have "i + 1 \<le> j \<or> j + 1 \<le> i" by linarith
    then have "(i + 1) * d_size d \<le> j * d_size d \<or> (j + 1) * d_size d \<le> i * d_size d" using mult_le_mono1 by blast
    with i j True show ?thesis by (auto simp: deck_slot_def)
  next
    case False
    from d(1) obtain P Q where PQ: "shoe_decks sh = P @ d # Q" by (meson split_list)
    have "disjoint_regions (map deck_region P @ deck_region d # map deck_region Q)"
      using wf PQ by (simp add: shoe_wf_def shoe_regions_def)
    moreover have "e \<in> set (P @ Q)" using e(1) PQ False by auto
    ultimately have ap: "apart (deck_region d) (deck_region e)" unfolding disjoint_regions_middle by auto
    have wfd: "deck_wf d" "deck_wf e" using shoe_deck_wf[OF wf d(1)] shoe_deck_wf[OF wf e(1)] by (auto simp: class_ok_def)
    have "i < d_total d" "j < d_total e" using deck_used_lt wfd i(2) j(2) by auto
    then have "(i + 1) * d_size d \<le> d_total d * d_size d" "(j + 1) * d_size e \<le> d_total e * d_size e"
      by (intro mult_right_mono, simp, simp)+
    with ap i j wfd show ?thesis by (auto simp: deck_region_def deck_slot_def deck_wf_def)
  qed
qed

lemma mm_live_apart:
  assumes wf: "mm_wf mm" and b: "b \<in> mm_live mm" "c \<in> mm_live mm" "b \<noteq> c"
  shows "apart b c"
proof -
  have swf: "shoe_wf (mm_shoe mm)" and dis: "disjoint_regions (shoe_regions (mm_shoe mm))" "disjoint_regions (big_regions (mm_bigStuff mm))"
    "\<And>x y. x \<in> set (shoe_regions (mm_shoe mm)) \<Longrightarrow> y \<in> set (big_regions (mm_bigStuff mm)) \<Longrightarrow> apart x y"
    using wf by (auto simp: mm_wf_def mm_regions_def disjoint_regions_append)
  have mixed: "apart x y" if "x \<in> shoe_live (mm_shoe mm)" "y \<in> set (big_regions (mm_bigStuff mm))" for x y
  proof -
    obtain p n where x: "x = (p, n)" by (cases x)
    with shoe_live_region[OF swf, of p n] that(1) obtain a l where r: "(a, l) \<in> set (shoe_regions (mm_shoe mm))" "a \<le> p" "p + n \<le> a + l"
      by auto
    from dis(3)[OF r(1) that(2)] r(2,3) show ?thesis unfolding x by (cases y) auto
  qed
  from b(1,2) show ?thesis unfolding mm_live_def
    using shoe_live_apart[OF swf _ _ b(3)] disjoint_regions_apart[OF dis(2) _ _ b(3)] mixed[of b c] mixed[of c b]
    by (auto simp: apart_sym)
qed

end
