(* ===== verification/MemoryAlloc.thy ===== *)
theory MemoryAlloc
  imports MemoryInv
begin

text \<open>
  Allocation, release and reallocation of the persistent heap keep its invariant and change
  the set of live blocks by the block they hand out or take back.
\<close>

definition unmarked :: "mm \<Rightarrow> bool" where
  "unmarked mm \<longleftrightarrow> (\<forall>(p, v)\<in>set (mm_bigStuff mm). v AND DAS_PAGE_GC_MASK = 0)"

lemma mm_live_region:
  assumes wf: "mm_wf mm" and live: "(p, n) \<in> mm_live mm"
  shows "\<exists>(b, l)\<in>set (mm_regions mm). b \<le> p \<and> p + n \<le> b + l"
proof (cases "(p, n) \<in> shoe_live (mm_shoe mm)")
  case True
  with shoe_live_region[of "mm_shoe mm" p n] wf show ?thesis by (fastforce simp: mm_wf_def mm_regions_def)
next
  case False
  with live have "(p, n) \<in> set (mm_regions mm)" by (auto simp: mm_live_def mm_regions_def)
  then show ?thesis by (intro bexI[of _ "(p, n)"]) auto
qed

lemma granted_fresh:
  assumes wf: "mm_wf mm" and g: "system_grants (mm_regions mm) base len" and r: "base \<le> p" "p < base + len" "0 < n"
  shows "(p, n) \<notin> mm_live mm"
proof
  assume "(p, n) \<in> mm_live mm"
  from mm_live_region[OF wf this] obtain b l where "(b, l) \<in> set (mm_regions mm)" "b \<le> p" "p + n \<le> b + l" by auto
  with g r show False by (auto simp: system_grants_def list_all_iff)
qed

lemma AList_update_fresh: "p \<notin> fst ` set al \<Longrightarrow> AList.update p v al = al @ [(p, v)]"
  by (induction al) auto

lemma mm_slot_pos: "mm_wf mm \<Longrightarrow> (p, n) \<in> mm_live mm \<Longrightarrow> 0 < n"
proof -
  assume wf: "mm_wf mm" and live: "(p, n) \<in> mm_live mm"
  show "0 < n"
  proof (cases "(p, n) \<in> shoe_live (mm_shoe mm)")
    case True
    then obtain d where d: "d \<in> set (shoe_decks (mm_shoe mm))" "(p, n) \<in> deck_blocks d" by (auto simp: shoe_live_def)
    with wf show ?thesis using shoe_deck_wf[of "mm_shoe mm" d] by (auto simp: mm_wf_def class_ok_def deck_wf_def dest!: deck_block_size)
  next
    case False
    with live wf show ?thesis by (auto simp: mm_live_def big_regions_def mm_wf_def)
  qed
qed

section \<open>Allocation\<close>

lemma mm_allocate_big:
  assumes wf: "mm_wf mm" and n: "0 < n" "n < 2 ^ 63" and big: "256 < align_up (mm_alignMask mm) n"
    and g: "system_grants (mm_regions mm) base (align_up (mm_alignMask mm) n)"
  defines "a \<equiv> align_up (mm_alignMask mm) n"
  defines "mm' \<equiv> mm\<lparr>mm_totalAllocated := mm_totalAllocated mm + of_nat a,
      mm_maxAllocated := max (mm_maxAllocated mm) (mm_totalAllocated mm + of_nat a),
      mm_bigStuff := mm_bigStuff mm @ [(base, of_nat a)]\<rparr>"
  shows "mm_allocate mm base n = (mm', Inr base) \<and> mm_wf mm' \<and> (unmarked mm \<longrightarrow> unmarked mm') \<and>
    mm_live mm' = insert (base, a) (mm_live mm)"
proof -
  have a: "a < 2 ^ 63" "0 < a" "256 < a" using g big by (auto simp: system_grants_def a_def)
  have fresh: "base \<notin> fst ` set (mm_bigStuff mm)"
  proof
    assume "base \<in> fst ` set (mm_bigStuff mm)"
    then obtain v where v: "(base, v) \<in> set (mm_bigStuff mm)" by auto
    then have "(base, big_size v) \<in> mm_live mm" by (auto simp: mm_live_def big_regions_def)
    moreover have "256 < big_size v" using wf v by (auto simp: mm_wf_def)
    ultimately show False using granted_fresh[OF wf g, of base "big_size v"] a by (simp add: a_def)
  qed
  have run: "mm_allocate mm base n = (mm', Inr base)"
    using n big wf AList_update_fresh[OF fresh] by (simp add: mm_allocate_def Let_def done_with_def mm_wf_def mm'_def a_def)
  have regs: "mm_regions mm' = mm_regions mm @ [(base, a)]"
    using big_size_of_nat(1)[OF a(1)] by (simp add: mm_regions_def big_regions_def mm'_def)
  have "disjoint_regions (mm_regions mm @ [(base, a)])"
    unfolding disjoint_regions_middle using wf g by (auto simp: mm_wf_def system_grants_def list_all_iff a_def)
  then have "mm_wf mm'" unfolding mm_wf_def regs
    using wf fresh a g big_size_of_nat(1)[OF a(1)] by (auto simp: mm_wf_def mm'_def system_grants_def)
  moreover have "unmarked mm \<longrightarrow> unmarked mm'" using big_size_of_nat(2)[OF a(1)] by (auto simp: unmarked_def mm'_def)
  moreover have "mm_live mm' = insert (base, a) (mm_live mm)"
    using big_size_of_nat(1)[OF a(1)] by (auto simp: mm_live_def big_regions_def mm'_def)
  ultimately show ?thesis using run by blast
qed

text \<open>Pushing a fresh deck in front of a chain.\<close>

lemma shoe_push:
  assumes wf: "shoe_wf sh" and si: "si < DAS_MAX_SHOE_CUNKS" and d: "class_ok si d"
    and apart: "list_all (apart (deck_region d)) (shoe_regions sh)"
  defines "sh' \<equiv> sh\<lparr>sh_chunks := (sh_chunks sh)[si := d # sh_chunks sh ! si]\<rparr>"
  shows "shoe_wf sh'" "shoe_live sh' = shoe_live sh \<union> deck_blocks d"
    "\<exists>P Q. shoe_regions sh = P @ Q \<and> shoe_regions sh' = P @ deck_region d # Q"
proof -
  have len: "si < length (sh_chunks sh)" using wf si by (simp add: shoe_wf_def)
  from len obtain P Q where PQ: "\<And>zs. concat ((sh_chunks sh)[si := [] @ zs @ sh_chunks sh ! si]) = P @ zs @ Q"
    by (rule concat_replace) blast
  have old: "shoe_decks sh = P @ Q" using PQ[of "[]"] by (simp add: shoe_decks_def)
  have new: "shoe_decks sh' = P @ d # Q" using PQ[of "[d]"] by (simp add: shoe_decks_def sh'_def)
  show regs: "\<exists>P Q. shoe_regions sh = P @ Q \<and> shoe_regions sh' = P @ deck_region d # Q"
    using old new by (intro exI[of _ "map deck_region P"] exI[of _ "map deck_region Q"]) (simp add: shoe_regions_def)
  have dis: "disjoint_regions (shoe_regions sh')"
    using regs apart wf by (auto simp: shoe_wf_def disjoint_regions_middle list_all_iff)
  have "class_ok j e" if "j < DAS_MAX_SHOE_CUNKS" "e \<in> set (sh_chunks sh' ! j)" for j e
    using that wf d len by (cases "j = si") (auto simp: sh'_def shoe_wf_def)
  moreover have "length (sh_chunks sh ! j) \<le> length (sh_chunks sh' ! j)" for j
    using len by (cases "j = si") (simp_all add: sh'_def)
  ultimately show "shoe_wf sh'"
    using wf dis by (auto simp: shoe_wf_def sh'_def intro: less_le_trans split: option.splits)
  show "shoe_live sh' = shoe_live sh \<union> deck_blocks d" unfolding shoe_live_def old new by auto
qed

lemma mm_grow_shoe: "mm_shoe (fst (mm_grow mm si)) = mm_shoe mm" "mm_bigStuff (fst (mm_grow mm si)) = mm_bigStuff mm"
  "mm_totalAllocated (fst (mm_grow mm si)) = mm_totalAllocated mm" "mm_alignMask (fst (mm_grow mm si)) = mm_alignMask mm"
  "mm_maxShoeAllocation (fst (mm_grow mm si)) = mm_maxShoeAllocation mm"
  by (auto simp: mm_grow_def Let_def split: list.splits)

text \<open>What every allocation does.\<close>

definition allocates :: "mm \<Rightarrow> nat \<Rightarrow> mm \<Rightarrow> nat \<Rightarrow> bool" where
  "allocates mm n mm' p \<longleftrightarrow> mm_wf mm' \<and> (unmarked mm \<longrightarrow> unmarked mm') \<and> 0 < p \<and> 16 dvd p \<and> (p, slot_size mm n) \<notin> mm_live mm \<and>
    mm_live mm' = insert (p, slot_size mm n) (mm_live mm) \<and> mm_alignMask mm' = mm_alignMask mm \<and>
    mm_totalAllocated mm' = mm_totalAllocated mm + of_nat (align_up (mm_alignMask mm) n)"

lemma mm_allocate_deck:
  assumes wf: "mm_wf mm" and n: "0 < n" "n < 2 ^ 63" and small: "align_up (mm_alignMask mm) n \<le> 256"
  defines "a \<equiv> align_up (mm_alignMask mm) n"
  defines "si \<equiv> round16 a div 16 - 1"
  assumes room: "\<not> chain_full (sh_chunks (mm_shoe mm) ! si)"
  shows "\<exists>mm' p. mm_allocate mm base n = (mm', Inr p) \<and> allocates mm n mm' p"
proof -
  have a: "0 < a" "a \<le> 256" using align_up_bounds(3)[OF _ n(2,1)] wf small by (auto simp: mm_wf_def a_def)
  have swf: "shoe_wf (mm_shoe mm)" using wf by (simp add: mm_wf_def)
  from shoe_allocate_ok[OF swf a room[unfolded si_def]] obtain sh' p where s: "shoe_allocate (mm_shoe mm) a = (sh', Inr p)"
    "shoe_wf sh'" "shoe_regions sh' = shoe_regions (mm_shoe mm)" "0 < p" "16 dvd p" "(p, round16 a) \<notin> shoe_live (mm_shoe mm)"
    "shoe_live sh' = insert (p, round16 a) (shoe_live (mm_shoe mm))" by blast
  let ?mm' = "mm\<lparr>mm_totalAllocated := mm_totalAllocated mm + of_nat a,
      mm_maxAllocated := max (mm_maxAllocated mm) (mm_totalAllocated mm + of_nat a), mm_shoe := sh'\<rparr>"
  have run: "mm_allocate mm base n = (?mm', Inr p)"
    using n a s(1,4) wf unfolding a_def by (simp add: mm_allocate_def Let_def done_with_def mm_wf_def)
  have ss: "slot_size mm n = round16 a" using a by (simp add: slot_size_def a_def)
  have "mm_wf ?mm'" using wf s by (simp add: mm_wf_def mm_regions_def)
  moreover have "(p, round16 a) \<notin> mm_live mm"
    using s(6) wf round16_class(4)[OF a] by (auto simp: mm_live_def mm_wf_def big_regions_def)
  moreover have "mm_live ?mm' = insert (p, round16 a) (mm_live mm)" using s(7) by (simp add: mm_live_def)
  ultimately show ?thesis using run s ss by (auto simp: allocates_def unmarked_def a_def)
qed

lemma mm_grow_frame:
  "mm_grow (mm\<lparr>mm_totalAllocated := t, mm_maxAllocated := u\<rparr>) si =
    (case mm_grow mm si of (mm', ne) \<Rightarrow> (mm'\<lparr>mm_totalAllocated := t, mm_maxAllocated := u\<rparr>, ne))"
  by (simp add: mm_grow_def Let_def split: list.split)

lemma mm_allocate_fresh:
  assumes wf: "mm_wf mm" and n: "0 < n" "n < 2 ^ 63" and small: "align_up (mm_alignMask mm) n \<le> 256"
  defines "a \<equiv> align_up (mm_alignMask mm) n"
  defines "si \<equiv> round16 a div 16 - 1"
  assumes full: "chain_full (sh_chunks (mm_shoe mm) ! si)"
    and g: "system_grants (mm_regions mm) base (deck_total (snd (mm_grow mm si)) * round16 a)"
  shows "\<exists>mm' p. mm_allocate mm base n = (mm', Inr p) \<and> allocates mm n mm' p"
proof -
  have a: "0 < a" "a \<le> 256" using align_up_bounds(3)[OF _ n(2,1)] wf small by (auto simp: mm_wf_def a_def)
  note r = round16_class[OF a, folded si_def]
  have swf: "shoe_wf (mm_shoe mm)" using wf by (simp add: mm_wf_def)
  obtain mm3 ne where gr: "mm_grow mm si = (mm3, ne)" by (cases "mm_grow mm si")
  have fr3: "mm_shoe mm3 = mm_shoe mm" "mm_bigStuff mm3 = mm_bigStuff mm" "mm_alignMask mm3 = mm_alignMask mm"
    "mm_maxShoeAllocation mm3 = mm_maxShoeAllocation mm" using mm_grow_shoe[of mm si] gr by simp_all
  let ?t = "mm_totalAllocated mm + of_nat a"
  let ?u = "max (mm_maxAllocated mm) ?t"
  let ?d = "new_deck base ne (round16 a)"
  have len: "0 < deck_total ne * round16 a" "base + deck_total ne * round16 a < 2 ^ 63" "0 < base" "16 dvd base"
    "list_all (apart (base, deck_total ne * round16 a)) (mm_regions mm)"
    using g gr by (simp_all add: system_grants_def)
  then have "deck_total ne \<le> deck_total ne * round16 a" by simp
  moreover have "(2::nat) ^ 63 + 31 < 2 ^ 64" by simp
  ultimately have "ne + 31 < 2 ^ 64" using len(2) deck_total_bounds(1)[of ne] by linarith
  note dwf = new_deck_wf[OF r(5) this, of base]
  have "d_allocated ?d \<noteq> d_total ?d" using len(1) by (simp add: new_deck_def)
  from deck_allocate_ok[OF dwf(1) this] obtain i d where d: "deck_allocate ?d = (d, deck_slot ?d i)" "i < d_total ?d"
    "deck_used d = {i}" "deck_wf d" "same_shape ?d d" using dwf(2) by auto
  let ?p = "deck_slot ?d i"
  have cls: "class_ok si d" using d(4,5) len(3,4) r(2) by (simp add: class_ok_def same_shape_def new_deck_def)
  have reg: "deck_region d = (base, deck_total ne * round16 a)"
    using same_shape_region[OF d(5)] by (simp add: deck_region_def new_deck_def)
  have blk: "deck_blocks d = {(?p, round16 a)}"
    unfolding same_shape_blocks[OF d(5)] d(3) by (simp add: new_deck_def)
  have ap: "list_all (apart (deck_region d)) (shoe_regions (mm_shoe mm))" "list_all (apart (deck_region d)) (big_regions (mm_bigStuff mm))"
    using len(5) unfolding reg mm_regions_def by simp_all
  note push = shoe_push[OF swf r(1) cls ap(1)]
  let ?sh = "(mm_shoe mm)\<lparr>sh_chunks := (sh_chunks (mm_shoe mm))[si := d # sh_chunks (mm_shoe mm) ! si]\<rparr>"
  let ?mm' = "mm3\<lparr>mm_totalAllocated := ?t, mm_maxAllocated := ?u, mm_shoe := ?sh\<rparr>"
  have none: "shoe_allocate (mm_shoe mm) a = (mm_shoe mm, Inr 0)"
    using shoe_allocate_none[OF swf a] full by (simp add: si_def)
  have am: "align_up (mm_alignMask mm) n = a" "\<not> mm_maxShoeAllocation mm < a" "n \<noteq> 0" using a n wf by (simp_all add: a_def mm_wf_def)
  have self: "mm\<lparr>mm_totalAllocated := ?t, mm_maxAllocated := ?u, mm_shoe := mm_shoe mm\<rparr> = mm\<lparr>mm_totalAllocated := ?t, mm_maxAllocated := ?u\<rparr>"
    by simp
  have run: "mm_allocate mm base n = (?mm', Inr ?p)"
    unfolding mm_allocate_def Let_def am(1) si_def[symmetric]
    using am(2,3) none gr d(1) fr3(1) by (simp add: mm_grow_frame done_with_def self)
  have i: "base \<le> ?p" "?p < base + deck_total ne * round16 a"
    using deck_slot_own[OF dwf(1) d(2)] by (simp_all add: deck_isOwnPtr_def new_deck_def)
  have fresh: "(?p, round16 a) \<notin> mm_live mm" using granted_fresh[OF wf g, of ?p "round16 a"] i r(5) gr by simp
  have live: "mm_live ?mm' = insert (?p, round16 a) (mm_live mm)"
    using push(2) blk fr3(2) by (auto simp: mm_live_def)
  from push(3) obtain P Q where PQ: "shoe_regions (mm_shoe mm) = P @ Q" "shoe_regions ?sh = P @ deck_region d # Q" by blast
  have "disjoint_regions (mm_regions mm)" using wf by (simp add: mm_wf_def)
  then have "disjoint_regions (mm_regions ?mm')"
    using ap PQ fr3(2) disjoint_regions_middle[of P "deck_region d" "Q @ big_regions (mm_bigStuff mm)"]
    by (auto simp: mm_regions_def list_all_iff)
  then have "mm_wf ?mm'" using wf push(1) fr3 by (simp add: mm_wf_def)
  moreover have "slot_size mm n = round16 a" using a by (simp add: slot_size_def a_def)
  moreover have "16 dvd ?p" using len(4) r(2) by (simp add: deck_slot_def new_deck_def)
  moreover have "0 < ?p" using i(1) len(3) by linarith
  ultimately show ?thesis using run live fresh fr3 am(1) by (auto simp: allocates_def unmarked_def)
qed

lemma mm_allocate_ok:
  assumes wf: "mm_wf mm" and ready: "mm_ready mm base n"
  shows "\<exists>mm' p. mm_allocate mm base n = (mm', Inr p) \<and> allocates mm n mm' p"
proof -
  let ?a = "align_up (mm_alignMask mm) n"
  have n: "0 < n" "n < 2 ^ 63" using ready by (simp_all add: mm_ready_def)
  consider "256 < ?a" | "?a \<le> 256" "\<not> chain_full (sh_chunks (mm_shoe mm) ! (round16 ?a div 16 - 1))"
    | "?a \<le> 256" "chain_full (sh_chunks (mm_shoe mm) ! (round16 ?a div 16 - 1))" by linarith
  then show ?thesis
  proof cases
    case 1
    then have g: "system_grants (mm_regions mm) base ?a" using ready by (simp add: mm_ready_def mm_request_def)
    have ss: "slot_size mm n = ?a" using 1 by (simp add: slot_size_def)
    have "(base, ?a) \<notin> mm_live mm" using granted_fresh[OF wf g, of base ?a] 1 by simp
    with mm_allocate_big[OF wf n 1 g] ss g show ?thesis by (auto simp: allocates_def system_grants_def)
  next
    case 2
    from mm_allocate_deck[OF wf n 2(1,2)] show ?thesis .
  next
    case 3
    then have "system_grants (mm_regions mm) base (deck_total (snd (mm_grow mm (round16 ?a div 16 - 1))) * round16 ?a)"
      using ready by (simp add: mm_ready_def mm_request_def Let_def)
    from mm_allocate_fresh[OF wf n 3(1,2) this] show ?thesis .
  qed
qed

section \<open>Release\<close>

definition frees :: "mm \<Rightarrow> nat \<Rightarrow> nat \<Rightarrow> mm \<Rightarrow> bool" where
  "frees mm p n mm' \<longleftrightarrow> mm_wf mm' \<and> (unmarked mm \<longrightarrow> unmarked mm') \<and> mm_live mm' = mm_live mm - {(p, slot_size mm n)} \<and>
    mm_alignMask mm' = mm_alignMask mm \<and> mm_totalAllocated mm' = mm_totalAllocated mm - of_nat (align_up (mm_alignMask mm) n)"

lemma big_regions_delete:
  "distinct (map fst big) \<Longrightarrow> map_of big p = Some v \<Longrightarrow>
    \<exists>P Q. big = P @ (p, v) # Q \<and> AList.delete p big = P @ Q"
proof (induction big)
  case (Cons x big)
  obtain q w where x: "x = (q, w)" by (cases x)
  show ?case
  proof (cases "q = p")
    case True
    have "p \<notin> fst ` set big" using Cons.prems x True by simp
    then have "AList.delete p big = big" by (rule delete_id)
    with Cons.prems x True show ?thesis by (intro exI[of _ "[]"] exI[of _ big]) auto
  next
    case False
    with Cons x obtain P Q where "big = P @ (p, v) # Q" "AList.delete p big = P @ Q" by auto
    with x False show ?thesis by (intro exI[of _ "x # P"] exI[of _ Q]) auto
  qed
qed simp

lemma mm_free_ok:
  assumes wf: "mm_wf mm" and n: "0 < n" "n < 2 ^ 63" and live: "(p, slot_size mm n) \<in> mm_live mm"
  shows "\<exists>mm'. mm_free mm p n = (mm', Inr True) \<and> frees mm p n mm'"
proof -
  let ?a = "align_up (mm_alignMask mm) n"
  have swf: "shoe_wf (mm_shoe mm)" using wf by (simp add: mm_wf_def)
  have a0: "0 < ?a" using align_up_bounds(3)[OF _ n(2,1)] wf by (simp add: mm_wf_def)
  show ?thesis
  proof (cases "?a \<le> 256")
    case True
    then have ss: "slot_size mm n = round16 ?a" by (simp add: slot_size_def)
    have "(p, round16 ?a) \<in> shoe_live (mm_shoe mm)"
      using live ss wf round16_class(4)[OF a0 True] by (auto simp: mm_live_def big_regions_def mm_wf_def)
    from shoe_free_ok[OF swf a0 True this] obtain sh' where s: "shoe_free (mm_shoe mm) p ?a = (sh', Inr ())" "shoe_wf sh'"
      "shoe_regions sh' = shoe_regions (mm_shoe mm)" "shoe_live sh' = shoe_live (mm_shoe mm) - {(p, round16 ?a)}" by blast
    let ?mm' = "mm\<lparr>mm_shoe := sh', mm_totalAllocated := mm_totalAllocated mm - of_nat ?a\<rparr>"
    have run: "mm_free mm p n = (?mm', Inr True)"
      using n True s(1) wf by (simp add: mm_free_def Let_def done_with_def mm_wf_def)
    have "mm_wf ?mm'" using wf s by (simp add: mm_wf_def mm_regions_def)
    moreover have "mm_live ?mm' = mm_live mm - {(p, round16 ?a)}"
      using s(4) wf round16_class(4)[OF a0 True] by (auto simp: mm_live_def big_regions_def mm_wf_def)
    ultimately show ?thesis using run ss by (auto simp: frees_def unmarked_def)
  next
    case False
    then have ss: "slot_size mm n = ?a" by (simp add: slot_size_def)
    have "(p, ?a) \<notin> shoe_live (mm_shoe mm)"
    proof
      assume "(p, ?a) \<in> shoe_live (mm_shoe mm)"
      then obtain d where d: "d \<in> set (shoe_decks (mm_shoe mm))" "(p, ?a) \<in> deck_blocks d" by (auto simp: shoe_live_def)
      obtain si where "si < DAS_MAX_SHOE_CUNKS" "class_ok si d" using shoe_deck_wf[OF swf d(1)] by blast
      with deck_block_size[OF d(2)] False show False by (simp add: class_ok_def DAS_MAX_SHOE_CUNKS_eq)
    qed
    with live ss obtain v where v: "(p, v) \<in> set (mm_bigStuff mm)" "big_size v = ?a" by (auto simp: mm_live_def big_regions_def)
    have dist: "distinct (map fst (mm_bigStuff mm))" using wf by (simp add: mm_wf_def)
    have mo: "map_of (mm_bigStuff mm) p = Some v" using v(1) dist by (rule map_of_is_SomeI[rotated])
    from big_regions_delete[OF dist mo] obtain P Q where PQ: "mm_bigStuff mm = P @ (p, v) # Q" "AList.delete p (mm_bigStuff mm) = P @ Q" by blast
    let ?mm' = "mm\<lparr>mm_bigStuff := P @ Q, mm_totalAllocated := mm_totalAllocated mm - of_nat ?a\<rparr>"
    have run: "mm_free mm p n = (?mm', Inr True)"
      using n False mo PQ(2) wf by (simp add: mm_free_def Let_def done_with_def mm_wf_def)
    have "disjoint_regions ((shoe_regions (mm_shoe mm) @ big_regions P) @ (p, ?a) # big_regions Q)"
      using wf PQ(1) v(2) by (simp add: mm_wf_def mm_regions_def big_regions_def)
    then have dis: "disjoint_regions (shoe_regions (mm_shoe mm) @ big_regions (P @ Q))"
      "\<forall>x\<in>set (big_regions (P @ Q)). apart (p, ?a) x"
      unfolding disjoint_regions_middle by (simp_all add: big_regions_def)
    have "mm_wf ?mm'" using wf PQ(1) dis(1) by (auto simp: mm_wf_def mm_regions_def)
    moreover have "(p, ?a) \<notin> set (big_regions (P @ Q))" using dis(2) a0 by auto
    then have "mm_live ?mm' = mm_live mm - {(p, ?a)}"
      using PQ(1) v(2) \<open>(p, ?a) \<notin> shoe_live (mm_shoe mm)\<close> by (auto simp: mm_live_def big_regions_def)
    ultimately show ?thesis using run ss PQ(1) by (auto simp: frees_def unmarked_def)
  qed
qed

end
