(* ===== verification/MemoryGC.thy ===== *)
theory MemoryGC
  imports MemoryAlloc
begin

text \<open>
  Mark and sweep: after a collection exactly the marked blocks are live.
\<close>

definition shoe_marked :: "shoe \<Rightarrow> (nat \<times> nat) set" where
  "shoe_marked sh = (\<Union>d\<in>set (shoe_decks sh). (\<lambda>i. (deck_slot d i, d_size d)) ` deck_marked d)"

definition mm_marked :: "mm \<Rightarrow> (nat \<times> nat) set" where
  "mm_marked mm = shoe_marked (mm_shoe mm) \<union> set (big_regions (filter (\<lambda>(p, v). v AND DAS_PAGE_GC_MASK \<noteq> 0) (mm_bigStuff mm)))"

definition gc_ok :: "mm \<Rightarrow> bool" where
  "gc_ok mm \<longleftrightarrow> mm_wf mm \<and> (\<forall>d\<in>set (shoe_decks (mm_shoe mm)). deck_gc_wf d)"

section \<open>Finding the deck of a pointer\<close>

lemma chain_find_Some:
  "chain_find si lastc ptr ch = Some k \<Longrightarrow> k < length ch \<and> deck_isOwnPtr (rev ch ! k) ptr"
  by (induction ch) (auto simp: nth_append split: if_splits)

lemma chain_find_None:
  "chain_find si lastc ptr ch = None \<Longrightarrow> k < length ch \<Longrightarrow> deck_isOwnPtr (rev ch ! k) ptr \<Longrightarrow> lastc = Some (si, k)"
  by (induction ch) (auto simp: nth_append less_Suc_eq split: if_splits)

definition ref_ok :: "shoe \<Rightarrow> nat \<times> nat \<Rightarrow> bool" where
  "ref_ok sh ref \<longleftrightarrow> fst ref < DAS_MAX_SHOE_CUNKS \<and> snd ref < length (sh_chunks sh ! fst ref)"

lemma shoe_wf_last: "shoe_wf sh \<Longrightarrow> sh_lastChunk sh = Some ref \<Longrightarrow> ref_ok sh ref"
  by (cases ref) (simp add: shoe_wf_def ref_ok_def)

lemma shoe_wf_set_last: "shoe_wf sh \<Longrightarrow> ref_ok sh ref \<Longrightarrow> shoe_wf (sh\<lparr>sh_lastChunk := Some ref\<rparr>)"
  by (cases ref) (simp add: shoe_wf_def ref_ok_def shoe_last_irrelevant)

lemma shoe_deck_in:
  assumes "shoe_wf sh" "ref_ok sh ref"
  shows "shoe_deck sh ref \<in> set (sh_chunks sh ! fst ref)" "shoe_deck sh ref \<in> set (shoe_decks sh)"
proof -
  show a: "shoe_deck sh ref \<in> set (sh_chunks sh ! fst ref)"
    using assms(2) nth_mem[of "snd ref" "rev (sh_chunks sh ! fst ref)"] by (simp add: ref_ok_def shoe_deck_def)
  show "shoe_deck sh ref \<in> set (shoe_decks sh)"
    using chunk_in_decks[OF assms(1) _ a] assms(2) by (simp add: ref_ok_def)
qed

lemma rev_split:
  assumes "k < length ch"
  obtains xs ys where "ch = xs @ rev ch ! k # ys" "\<And>d. rev ((rev ch)[k := d]) = xs @ d # ys"
proof
  let ?r = "rev ch"
  have k: "k < length ?r" using assms by simp
  show "rev (?r[k := d]) = rev (drop (Suc k) ?r) @ d # rev (take k ?r)" for d
    using k by (simp add: upd_conv_take_nth_drop)
  from this[of "?r ! k"] show "ch = rev (drop (Suc k) ?r) @ ?r ! k # rev (take k ?r)" by simp
qed

lemma owner_unique:
  assumes wf: "shoe_wf sh" and d: "d \<in> set (shoe_decks sh)" "deck_isOwnPtr d p" and e: "e \<in> set (shoe_decks sh)" "deck_isOwnPtr e p"
  shows "e = d"
proof -
  from d(1) obtain P Q where PQ: "shoe_decks sh = P @ d # Q" by (meson split_list)
  have "disjoint_regions (map deck_region P @ deck_region d # map deck_region Q)"
    using wf PQ by (simp add: shoe_wf_def shoe_regions_def)
  then have "\<forall>x\<in>set (P @ Q). apart (deck_region d) (deck_region x)" unfolding disjoint_regions_middle by auto
  with e d(2) PQ show ?thesis using apart_not_both[of d e p] by auto
qed

lemma shoe_search_ok:
  assumes wf: "shoe_wf sh" and si: "si < DAS_MAX_SHOE_CUNKS" and d: "d \<in> set (sh_chunks sh ! si)" "deck_isOwnPtr d p"
  shows "\<exists>ref. shoe_search sh p (16 * (si + 1)) = (sh\<lparr>sh_lastChunk := Some ref\<rparr>, Inr (Some ref)) \<and> ref_ok sh ref \<and> shoe_deck sh ref = d"
proof (cases "last_owns sh p")
  case True
  then obtain ref where ref: "sh_lastChunk sh = Some ref" "deck_isOwnPtr (shoe_deck sh ref) p"
    by (auto simp: last_owns_def split: option.splits)
  have ok: "ref_ok sh ref" using shoe_wf_last[OF wf ref(1)] .
  have "shoe_deck sh ref = d"
    using owner_unique[OF wf chunk_in_decks[OF wf si d(1)] d(2) shoe_deck_in(2)[OF wf ok] ref(2)] .
  moreover have "sh\<lparr>sh_lastChunk := Some ref\<rparr> = sh" using ref(1) by simp
  ultimately show ?thesis using True ref(1) ok by (intro exI[of _ ref]) (simp add: shoe_search_def done_with_def)
next
  case False
  let ?ch = "sh_chunks sh ! si"
  obtain k where k: "k < length ?ch" "rev ?ch ! k = d"
    using d(1) by (metis in_set_conv_nth length_rev set_rev)
  have "sh_lastChunk sh \<noteq> Some (si, k)"
    using False d(2) k by (auto simp: last_owns_def shoe_deck_def)
  then obtain k' where k': "chain_find si (sh_lastChunk sh) p ?ch = Some k'"
    using chain_find_None[of si "sh_lastChunk sh" p ?ch k] k d(2) by fastforce
  note c = chain_find_Some[OF k']
  have ok: "ref_ok sh (si, k')" using c si by (simp add: ref_ok_def)
  have "shoe_deck sh (si, k') = d"
    using owner_unique[OF wf chunk_in_decks[OF wf si d(1)] d(2) shoe_deck_in(2)[OF wf ok]] c by (simp add: shoe_deck_def)
  with False k' ok si show ?thesis by (auto simp: shoe_search_def done_with_def)
qed

section \<open>Marking\<close>

lemma shoe_mark_ok:
  assumes wf: "shoe_wf sh" and gc: "\<forall>d\<in>set (shoe_decks sh). deck_gc_wf d" and s: "0 < s" "s \<le> 256"
    and live: "(p, round16 s) \<in> shoe_live sh"
  shows "\<exists>sh' b. shoe_mark sh p s = (sh', Inr b) \<and> shoe_wf sh' \<and> (\<forall>d\<in>set (shoe_decks sh'). deck_gc_wf d) \<and>
    shoe_regions sh' = shoe_regions sh \<and> shoe_live sh' = shoe_live sh \<and>
    shoe_marked sh' = insert (p, round16 s) (shoe_marked sh) \<and> (b \<longleftrightarrow> (p, round16 s) \<notin> shoe_marked sh)"
proof -
  let ?si = "round16 s div 16 - 1"
  note r = round16_class[OF s]
  from live obtain d where d: "d \<in> set (shoe_decks sh)" "(p, round16 s) \<in> deck_blocks d" by (auto simp: shoe_live_def)
  from shoe_deck_wf[OF wf d(1)] obtain sj where sj: "sj < DAS_MAX_SHOE_CUNKS" "class_ok sj d" "d \<in> set (sh_chunks sh ! sj)" by blast
  have dwf: "deck_wf d" using sj(2) by (simp add: class_ok_def)
  have own: "deck_isOwnPtr d p" using dwf d(2) deck_block_own by blast
  have sz: "16 * (sj + 1) = round16 s" using deck_block_size[OF d(2)] sj(2) by (simp add: class_ok_def)
  from shoe_search_ok[OF wf sj(1,3) own] obtain ref where ref: "shoe_search sh p (round16 s) = (sh\<lparr>sh_lastChunk := Some ref\<rparr>, Inr (Some ref))"
    "ref_ok sh ref" "shoe_deck sh ref = d" unfolding sz by blast
  let ?sh1 = "sh\<lparr>sh_lastChunk := Some ref\<rparr>"
  obtain d' b where mk: "deck_mark d p = (d', b)" by (cases "deck_mark d p")
  note m = deck_mark_ok[OF dwf gc[rule_format, OF d(1)] own mk]
  from d(2) obtain i where i: "p = deck_slot d i" "i \<in> deck_used d" "d_size d = round16 s" by (auto simp: deck_blocks_def)
  have idx: "deck_idx d p = i" using i(1) dwf by (simp add: deck_idx_slot deck_wf_def)
  have klt: "snd ref < length (sh_chunks sh ! fst ref)" using ref(2) by (simp add: ref_ok_def)
  obtain xs ys where xy: "sh_chunks sh ! fst ref = xs @ rev (sh_chunks sh ! fst ref) ! snd ref # ys"
    "\<And>e. rev ((rev (sh_chunks sh ! fst ref))[snd ref := e]) = xs @ e # ys"
    by (rule rev_split[OF klt]) blast
  have ch: "sh_chunks ?sh1 ! fst ref = xs @ d # ys" using xy(1) ref(3) by (simp add: shoe_deck_def)
  have wf1: "shoe_wf ?sh1" using shoe_wf_set_last[OF wf ref(2)] .
  have si: "fst ref < DAS_MAX_SHOE_CUNKS" using ref(2) by (simp add: ref_ok_def)
  have put: "shoe_put ?sh1 ref d' = ?sh1\<lparr>sh_chunks := (sh_chunks ?sh1)[fst ref := xs @ d' # ys]\<rparr>"
    using xy(2) by (simp add: shoe_put_def)
  note rep = shoe_replace[OF wf1 si ch, of d', folded put]
  obtain P Q where PQ0: "shoe_decks ?sh1 = P @ d # Q"
    "\<And>e. shoe_decks (?sh1\<lparr>sh_chunks := (sh_chunks ?sh1)[fst ref := xs @ e # ys]\<rparr>) = P @ e # Q"
    by (rule shoe_split[OF wf1 si ch]) (rule that)
  note PQ = PQ0(1) PQ0(2)[of d', folded put]
  have old: "shoe_decks sh = P @ d # Q" using PQ(1) by (simp add: shoe_last_irrelevant)
  have run: "shoe_mark sh p s = (shoe_put ?sh1 ref d', Inr b)"
    unfolding shoe_mark_def ref(1) using ref(3) mk by (simp add: shoe_deck_def done_with_def)
  have blk: "deck_blocks d' = deck_blocks d" using same_shape_blocks[of d d'] m by (simp add: deck_blocks_def)
  have live': "shoe_live (shoe_put ?sh1 ref d') = shoe_live sh" unfolding shoe_live_def PQ(2) old using blk by simp
  have shp: "same_shape d d'" using m by simp
  have sl: "deck_slot d' = deck_slot d" "d_size d' = d_size d"
    using same_shape_slot[OF shp] shp by (simp_all add: same_shape_def)
  have marked: "shoe_marked (shoe_put ?sh1 ref d') = insert (p, round16 s) (shoe_marked sh)"
    unfolding shoe_marked_def PQ(2) old using m idx i by (simp add: sl)
  have in_iff: "(p, round16 s) \<in> shoe_marked sh \<longleftrightarrow> i \<in> deck_marked d"
  proof
    assume "(p, round16 s) \<in> shoe_marked sh"
    then obtain e j where e: "e \<in> set (shoe_decks sh)" "j \<in> deck_marked e" "p = deck_slot e j" by (auto simp: shoe_marked_def)
    have ewf: "deck_wf e" using shoe_deck_wf[OF wf e(1)] by (auto simp: class_ok_def)
    have "j < d_total e" using e(2) gc e(1) ewf bitset_subset[of "d_gc_bits e"]
      by (auto simp: deck_marked_def deck_gc_wf_def deck_wf_def)
    then have "deck_isOwnPtr e p" using ewf e(3) by (simp add: deck_slot_own)
    then have "e = d" using owner_unique[OF wf d(1) own e(1)] by simp
    with e i dwf show "i \<in> deck_marked d" by (simp add: deck_slot_def deck_wf_def)
  next
    assume "i \<in> deck_marked d"
    with i d(1) show "(p, round16 s) \<in> shoe_marked sh"
      by (auto simp: shoe_marked_def intro!: bexI[of _ d] image_eqI[of _ _ i])
  qed
  have regs: "shoe_regions (shoe_put ?sh1 ref d') = shoe_regions sh" using rep(2) m by (simp add: shoe_last_irrelevant)
  have gcs: "\<forall>e\<in>set (shoe_decks (shoe_put ?sh1 ref d')). deck_gc_wf e" using gc m unfolding PQ(2) old by simp
  have wf': "shoe_wf (shoe_put ?sh1 ref d')" using rep(1) m by simp
  have bb: "b \<longleftrightarrow> (p, round16 s) \<notin> shoe_marked sh" using m in_iff idx by simp
  show ?thesis
    by (intro exI[of _ "shoe_put ?sh1 ref d'"] exI[of _ b] conjI)
      (rule run, rule wf', rule gcs, rule regs, rule live', rule marked, rule bb)
qed


lemma big_regions_update:
  "distinct (map fst big) \<Longrightarrow> map_of big p = Some v \<Longrightarrow>
    \<exists>P Q. big = P @ (p, v) # Q \<and> AList.update p w big = P @ (p, w) # Q"
proof (induction big)
  case (Cons x big)
  obtain q u where x: "x = (q, u)" by (cases x)
  show ?case
  proof (cases "q = p")
    case True
    with Cons.prems x show ?thesis by (intro exI[of _ "[]"] exI[of _ big]) simp
  next
    case False
    with Cons x obtain P Q where "big = P @ (p, v) # Q" "AList.update p w big = P @ (p, w) # Q" by auto
    with x False show ?thesis by (intro exI[of _ "x # P"] exI[of _ Q]) simp
  qed
qed simp

lemma big_size_mark: "big_size (v OR DAS_PAGE_GC_MASK) = big_size v"
proof -
  have "(v OR DAS_PAGE_GC_MASK) AND NOT DAS_PAGE_GC_MASK = v AND NOT DAS_PAGE_GC_MASK"
    by (rule bit_word_eqI) (auto simp: bit_simps)
  then show ?thesis by (simp add: big_size_def)
qed

lemma gc_mask_nonzero [simp]: "DAS_PAGE_GC_MASK \<noteq> 0"
  by (simp add: DAS_PAGE_GC_MASK_def)

lemma mark_bit: "(v OR DAS_PAGE_GC_MASK) AND DAS_PAGE_GC_MASK \<noteq> 0"
proof -
  have "(v OR DAS_PAGE_GC_MASK) AND DAS_PAGE_GC_MASK = DAS_PAGE_GC_MASK"
    by (rule bit_word_eqI) (auto simp: bit_simps)
  then show ?thesis by (simp add: DAS_PAGE_GC_MASK_def)
qed

lemma align16_round:
  assumes "mask_ok am" "0 < n" "n < 2 ^ 63"
  shows "align_up 15 n = round16 (align_up am n)" "align_up am n \<le> 256 \<longleftrightarrow> align_up 15 n \<le> 256"
proof -
  have m15: "mask_ok 15" by (simp add: mask_ok_def)
  have a15: "align_up 15 n = (n + 15) div 16 * 16" using align_up_eq[OF m15 assms(3)] by simp
  have am: "align_up am n = (n + am) div (am + 1) * (am + 1)" using align_up_eq[OF assms(1,3)] by simp
  from assms(1) consider "am = 15" | "am = 3" by (auto simp: mask_ok_def)
  then show "align_up 15 n = round16 (align_up am n)"
  proof cases
    case 1
    then show ?thesis using a15 by (simp add: round16_eq)
  next
    case 2
    have "((n + 3) div 4 * 4 + 15) div 4 = (n + 15) div 4" by simp
    then have "((n + 3) div 4 * 4 + 15) div (4 * 4) = (n + 15) div (4 * 4)" by (simp only: div_mult2_eq)
    then have "((n + 3) div 4 * 4 + 15) div 16 = (n + 15) div 16" by simp
    then show ?thesis using a15 am 2 by (simp add: round16_eq)
  qed
  from assms(1) show "align_up am n \<le> 256 \<longleftrightarrow> align_up 15 n \<le> 256"
    using a15 am by (auto simp: mask_ok_def)
qed

lemma mm_mark_ok:
  assumes gc: "gc_ok mm" and n: "0 < n" "n < 2 ^ 63" and live: "(p, slot_size mm n) \<in> mm_live mm"
  shows "\<exists>mm' b. mm_mark mm p n = (mm', Inr b) \<and> gc_ok mm' \<and> mm_live mm' = mm_live mm \<and> mm_alignMask mm' = mm_alignMask mm \<and>
    mm_marked mm' = insert (p, slot_size mm n) (mm_marked mm) \<and> (b \<longleftrightarrow> (p, slot_size mm n) \<notin> mm_marked mm)"
proof -
  let ?a = "align_up (mm_alignMask mm) n" and ?s = "align_up 15 n"
  have wf: "mm_wf mm" and mo: "mask_ok (mm_alignMask mm)" using gc by (simp_all add: gc_ok_def mm_wf_def)
  note al = align16_round[OF mo n]
  have swf: "shoe_wf (mm_shoe mm)" using wf by (simp add: mm_wf_def)
  have a0: "0 < ?a" using align_up_bounds(3)[OF mo n(2,1)] .
  have s0: "0 < ?s" using align_up_bounds(3)[of 15, OF _ n(2,1)] by (simp add: mask_ok_def)
  show ?thesis
  proof (cases "?a \<le> 256")
    case True
    then have s: "?s \<le> 256" using al(2) by blast
    have rr: "round16 ?s = ?s" unfolding al(1) using round16_class(6)[OF a0 True] .
    have "slot_size mm n = round16 ?a" using True by (simp add: slot_size_def)
    then have ss: "slot_size mm n = round16 ?s" using rr al(1) by metis
    have big: "(p, round16 ?s) \<notin> set (big_regions (filter P (mm_bigStuff mm)))" for P
      using wf s rr by (auto simp: mm_wf_def big_regions_def)
    have "(p, round16 ?s) \<in> shoe_live (mm_shoe mm)"
      using live ss big[of "\<lambda>_. True"] by (simp add: mm_live_def)
    from shoe_mark_ok[OF swf _ s0 s this] gc obtain sh' b where m: "shoe_mark (mm_shoe mm) p ?s = (sh', Inr b)" "shoe_wf sh'"
      "\<forall>d\<in>set (shoe_decks sh'). deck_gc_wf d" "shoe_regions sh' = shoe_regions (mm_shoe mm)" "shoe_live sh' = shoe_live (mm_shoe mm)"
      "shoe_marked sh' = insert (p, round16 ?s) (shoe_marked (mm_shoe mm))" "b \<longleftrightarrow> (p, round16 ?s) \<notin> shoe_marked (mm_shoe mm)"
      by (auto simp: gc_ok_def)
    let ?mm' = "mm\<lparr>mm_shoe := sh'\<rparr>"
    have run: "mm_mark mm p n = (?mm', Inr b)" using s m(1) wf by (simp add: mm_mark_def mm_wf_def)
    have "gc_ok ?mm'" using wf m by (simp add: gc_ok_def mm_wf_def mm_regions_def)
    then show ?thesis using run m ss big[of "\<lambda>(p, v). v AND DAS_PAGE_GC_MASK \<noteq> 0"]
      by (intro exI[of _ ?mm'] exI[of _ b]) (simp add: mm_live_def mm_marked_def)
  next
    case False
    then have s: "\<not> ?s \<le> 256" using al(2) by blast
    have ss: "slot_size mm n = ?a" using False by (simp add: slot_size_def)
    have nsh: "(p, ?a) \<notin> (\<lambda>i. (deck_slot d i, d_size d)) ` X" if "d \<in> set (shoe_decks (mm_shoe mm))" for d X
      using shoe_deck_wf[OF swf that] False by (auto simp: class_ok_def DAS_MAX_SHOE_CUNKS_eq)
    then have "(p, ?a) \<notin> shoe_live (mm_shoe mm)" by (auto simp: shoe_live_def deck_blocks_def)
    with live ss obtain v where v: "(p, v) \<in> set (mm_bigStuff mm)" "big_size v = ?a" by (auto simp: mm_live_def big_regions_def)
    have dist: "distinct (map fst (mm_bigStuff mm))" using wf by (simp add: mm_wf_def)
    have mo: "map_of (mm_bigStuff mm) p = Some v" using v(1) dist by (rule map_of_is_SomeI[rotated])
    let ?w = "v OR DAS_PAGE_GC_MASK"
    have upd: "\<exists>P Q. mm_bigStuff mm = P @ (p, v) # Q \<and> AList.update p ?w (mm_bigStuff mm) = P @ (p, ?w) # Q"
      using big_regions_update[OF dist mo] .
    then obtain P Q where PQ: "mm_bigStuff mm = P @ (p, v) # Q" "AList.update p ?w (mm_bigStuff mm) = P @ (p, ?w) # Q" by blast
    have bs: "big_size ?w = big_size v" by (rule big_size_mark)
    let ?mm' = "mm\<lparr>mm_bigStuff := P @ (p, ?w) # Q\<rparr>"
    have run: "mm_mark mm p n = (?mm', Inr (v AND DAS_PAGE_GC_MASK = 0))"
      using s mo PQ wf by (simp add: mm_mark_def mm_wf_def done_with_def)
    have regs: "big_regions (P @ (p, ?w) # Q) = big_regions (mm_bigStuff mm)" using PQ(1) bs by (simp add: big_regions_def)
    have "mm_wf ?mm'" using wf PQ(1) bs regs by (simp add: mm_wf_def mm_regions_def)
    then have "gc_ok ?mm'" using gc by (simp add: gc_ok_def)
    moreover have "mm_live ?mm' = mm_live mm" using regs by (simp add: mm_live_def)
    moreover have "mm_marked ?mm' = insert (p, ?a) (mm_marked mm)"
      using PQ(1) bs mark_bit[of v] v(2) by (auto simp: mm_marked_def big_regions_def)
    moreover have "(p, ?a) \<notin> shoe_marked (mm_shoe mm)" using nsh by (auto simp: shoe_marked_def)
    then have "(p, ?a) \<in> mm_marked mm \<longleftrightarrow> (\<exists>u. (p, u) \<in> set (mm_bigStuff mm) \<and> big_size u = ?a \<and> u AND DAS_PAGE_GC_MASK \<noteq> 0)"
      by (force simp: mm_marked_def big_regions_def)
    then have "(p, ?a) \<in> mm_marked mm \<longleftrightarrow> v AND DAS_PAGE_GC_MASK \<noteq> 0"
      using v dist by (auto dest: eq_key_imp_eq_value)
    ultimately show ?thesis using run ss by (intro exI[of _ ?mm'] exI[of _ "v AND DAS_PAGE_GC_MASK = 0"]) simp
  qed
qed

section \<open>Sweep\<close>

lemma begin_mark_ok:
  assumes wf: "mm_wf mm" and um: "unmarked mm"
  shows "gc_ok (mm_begin_mark mm) \<and> mm_live (mm_begin_mark mm) = mm_live mm \<and> mm_marked (mm_begin_mark mm) = {} \<and>
    mm_alignMask (mm_begin_mark mm) = mm_alignMask mm"
proof -
  have swf: "shoe_wf (mm_shoe mm)" using wf by (simp add: mm_wf_def)
  have f: "deck_wf d \<Longrightarrow> deck_wf (deck_beforeGC d) \<and> same_shape d (deck_beforeGC d)" for d using deck_beforeGC_ok by blast
  note sm = shoe_map[OF swf f, folded shoe_beforeGC_def]
  have wfd: "deck_wf d" if "d \<in> set (shoe_decks (mm_shoe mm))" for d
    using shoe_deck_wf[OF swf that] by (auto simp: class_ok_def)
  have blk: "deck_blocks (deck_beforeGC d) = deck_blocks d" if "deck_wf d" for d
    using deck_beforeGC_ok[OF that] same_shape_blocks[of d "deck_beforeGC d"] by (simp add: deck_blocks_def)
  have "mm_wf (mm_begin_mark mm)" using wf sm by (simp add: mm_wf_def mm_begin_mark_def mm_regions_def)
  then have "gc_ok (mm_begin_mark mm)"
    using wfd deck_beforeGC_ok by (auto simp: gc_ok_def mm_begin_mark_def sm(3))
  moreover have "mm_live (mm_begin_mark mm) = mm_live mm"
    using wfd blk by (simp add: mm_live_def mm_begin_mark_def shoe_live_def sm(3))
  moreover have "shoe_marked (shoe_beforeGC (mm_shoe mm)) = {}"
    using wfd deck_beforeGC_ok by (auto simp: shoe_marked_def sm(3))
  moreover have "filter (\<lambda>(p, v). v AND DAS_PAGE_GC_MASK \<noteq> 0) (mm_bigStuff mm) = []"
    using um by (auto simp: unmarked_def filter_empty_conv)
  ultimately show ?thesis by (simp add: mm_marked_def mm_begin_mark_def big_regions_def)
qed

lemma big_size_clear: "big_size (v AND NOT DAS_PAGE_GC_MASK) = big_size v" "(v AND NOT DAS_PAGE_GC_MASK) AND DAS_PAGE_GC_MASK = 0"
  "v AND NOT DAS_PAGE_GC_MASK = of_nat (big_size v)"
proof -
  have "(v AND NOT DAS_PAGE_GC_MASK) AND NOT DAS_PAGE_GC_MASK = v AND NOT DAS_PAGE_GC_MASK"
    by (rule bit_word_eqI) (auto simp: bit_simps)
  then show "big_size (v AND NOT DAS_PAGE_GC_MASK) = big_size v" by (simp add: big_size_def)
  show "(v AND NOT DAS_PAGE_GC_MASK) AND DAS_PAGE_GC_MASK = 0" by (rule bit_word_eqI) (auto simp: bit_simps)
  show "v AND NOT DAS_PAGE_GC_MASK = of_nat (big_size v)" by (simp add: big_size_def)
qed

lemma deck_live_sum:
  assumes "deck_wf d"
  shows "deck_live_bytes d = of_nat (sum snd (deck_blocks d))"
proof -
  have inj: "inj_on (\<lambda>i. (deck_slot d i, d_size d)) (deck_used d)"
    using assms by (auto simp: inj_on_def deck_slot_def deck_wf_def)
  have "sum snd (deck_blocks d) = card (deck_used d) * d_size d"
    unfolding deck_blocks_def sum.reindex[OF inj] by simp
  then show ?thesis by (simp add: deck_live_bytes_def popcount_bitset deck_used_def)
qed

lemma finite_blocks [simp]: "finite (deck_blocks d)"
  by (simp add: deck_blocks_def deck_used_def)

lemma decks_live_sum:
  "\<forall>d\<in>set ds. deck_wf d \<Longrightarrow> disjoint_regions (map deck_region ds) \<Longrightarrow>
    sum_list (map deck_live_bytes ds) = of_nat (sum snd (\<Union>d\<in>set ds. deck_blocks d))"
proof (induction ds)
  case (Cons d ds)
  have ap: "apart (deck_region d) (deck_region e)" if "e \<in> set ds" for e
    using Cons.prems(2) that by (simp add: disjoint_regions_def)
  have "deck_blocks d \<inter> deck_blocks e = {}" if "e \<in> set ds" for e
  proof (rule ccontr)
    assume "\<not> ?thesis"
    then obtain p n where b: "(p, n) \<in> deck_blocks d" "(p, n) \<in> deck_blocks e" by auto
    have "deck_isOwnPtr d p" "deck_isOwnPtr e p" using b that Cons.prems(1) deck_block_own by auto
    with apart_not_both[OF ap[OF that]] show False by blast
  qed
  then have "deck_blocks d \<inter> (\<Union>e\<in>set ds. deck_blocks e) = {}" by blast
  then have "sum snd (deck_blocks d \<union> (\<Union>e\<in>set ds. deck_blocks e)) = sum snd (deck_blocks d) + sum snd (\<Union>e\<in>set ds. deck_blocks e)"
    by (intro sum.union_disjoint) simp_all
  then show ?case using Cons by (simp add: deck_live_sum disjoint_regions_def)
qed simp

lemma big_live_sum:
  "distinct (map fst big) \<Longrightarrow> sum_list (map (\<lambda>(p, v). v AND NOT DAS_PAGE_GC_MASK) big) = of_nat (sum snd (set (big_regions big)))"
proof (induction big)
  case (Cons x big)
  obtain p v where x: "x = (p, v)" by (cases x)
  have "(p, big_size v) \<notin> set (big_regions big)" using Cons.prems x by (force simp: big_regions_def)
  with Cons x show ?case by (simp add: big_regions_def big_size_clear(3))
qed (simp add: big_regions_def)

lemma mm_sweep_ok:
  assumes gc: "gc_ok mm"
  shows "mm_wf (mm_sweep mm)" "unmarked (mm_sweep mm)" "mm_live (mm_sweep mm) = mm_marked mm"
    "mm_totalAllocated (mm_sweep mm) = of_nat (sum snd (mm_marked mm))" "mm_alignMask (mm_sweep mm) = mm_alignMask mm"
proof -
  let ?sh = "mm_shoe mm" and ?big = "filter (\<lambda>(p, v). v AND DAS_PAGE_GC_MASK \<noteq> 0) (mm_bigStuff mm)"
  let ?kept = "map (\<lambda>(p, v). (p, v AND NOT DAS_PAGE_GC_MASK)) ?big"
  have wf: "mm_wf mm" and gcd: "\<And>d. d \<in> set (shoe_decks ?sh) \<Longrightarrow> deck_gc_wf d" using gc by (auto simp: gc_ok_def)
  have swf: "shoe_wf ?sh" using wf by (simp add: mm_wf_def)
  let ?sh' = "?sh\<lparr>sh_chunks := map (map deck_afterGC) (sh_chunks ?sh)\<rparr>"
  have f: "deck_wf (deck_afterGC d) \<and> same_shape d (deck_afterGC d)" if "d \<in> set (shoe_decks ?sh)" "deck_wf d" for d
    using deck_afterGC_ok[OF that(2) gcd[OF that(1)]] by blast
  note sm = shoe_map[OF swf f]
  have wfd: "deck_wf d" if "d \<in> set (shoe_decks ?sh)" for d using shoe_deck_wf[OF swf that] by (auto simp: class_ok_def)
  have blk: "deck_blocks (deck_afterGC d) = (\<lambda>i. (deck_slot d i, d_size d)) ` deck_marked d" if "d \<in> set (shoe_decks ?sh)" for d
    using deck_afterGC_ok[OF wfd[OF that] gcd[OF that]] same_shape_blocks[of d "deck_afterGC d"] by simp
  have shl: "shoe_live ?sh' = shoe_marked ?sh" using blk by (simp add: shoe_live_def shoe_marked_def sm(3))
  have regs: "big_regions ?kept = big_regions ?big" by (auto simp: big_regions_def big_size_clear(1))
  have state: "mm_shoe (mm_sweep mm) = ?sh'" "mm_bigStuff (mm_sweep mm) = ?kept" "mm_alignMask (mm_sweep mm) = mm_alignMask mm"
    "mm_maxShoeAllocation (mm_sweep mm) = mm_maxShoeAllocation mm"
    by (simp_all add: mm_sweep_def Let_def)
  show "mm_alignMask (mm_sweep mm) = mm_alignMask mm" by (rule state(3))
  show live: "mm_live (mm_sweep mm) = mm_marked mm" by (simp add: mm_live_def mm_marked_def state shl regs)
  show "unmarked (mm_sweep mm)" by (auto simp: unmarked_def state big_size_clear(2))
  have dist: "distinct (map fst ?big)" using wf by (simp add: mm_wf_def distinct_map_filter)
  have "map fst ?kept = map fst ?big" by (simp add: comp_def case_prod_beta)
  then have dk: "distinct (map fst ?kept)" using dist by metis
  have "sorted_wrt apart (big_regions (mm_bigStuff mm))"
    using wf by (simp add: mm_wf_def mm_regions_def disjoint_regions_append disjoint_regions_def[of "big_regions _"])
  then have "sorted_wrt apart (big_regions ?big)"
    unfolding big_regions_def sorted_wrt_map by (rule sorted_wrt_filter)
  moreover have "set (big_regions ?big) \<subseteq> set (big_regions (mm_bigStuff mm))" by (auto simp: big_regions_def)
  ultimately have "disjoint_regions (shoe_regions ?sh @ big_regions ?big)"
    using wf by (auto simp: mm_wf_def mm_regions_def disjoint_regions_def sorted_wrt_append)
  then show wf': "mm_wf (mm_sweep mm)"
    using wf sm dk unfolding mm_wf_def mm_regions_def state regs by (auto simp: big_size_clear(1))
  have "disjoint_regions (map deck_region (shoe_decks ?sh'))" using sm(1) by (simp add: shoe_wf_def shoe_regions_def)
  moreover have "\<forall>d\<in>set (shoe_decks ?sh'). deck_wf d" using shoe_deck_wf[OF sm(1)] by (auto simp: class_ok_def)
  ultimately have s1: "sum_list (map deck_live_bytes (shoe_decks ?sh')) = of_nat (sum snd (shoe_live ?sh'))"
    using decks_live_sum by (simp add: shoe_live_def)
  have "map snd ?kept = map (\<lambda>(p, v). v AND NOT DAS_PAGE_GC_MASK) ?big" by auto
  with big_live_sum[OF dist] have s2: "sum_list (map snd ?kept) = of_nat (sum snd (set (big_regions ?big)))" by (simp only:)
  have "shoe_marked ?sh \<inter> set (big_regions ?big) = {}"
  proof (rule ccontr)
    assume "\<not> ?thesis"
    then obtain p n where b: "(p, n) \<in> shoe_live ?sh'" "(p, n) \<in> set (big_regions ?big)" unfolding shl by auto
    then obtain d where d: "d \<in> set (shoe_decks ?sh')" "(p, n) \<in> deck_blocks d" by (auto simp: shoe_live_def)
    from shoe_deck_wf[OF sm(1) d(1)] deck_block_size[OF d(2)] have "n \<le> 256" by (auto simp: class_ok_def DAS_MAX_SHOE_CUNKS_eq)
    moreover have "256 < n" using b(2) wf by (auto simp: big_regions_def mm_wf_def)
    ultimately show False by simp
  qed
  moreover have "finite (shoe_marked ?sh)" unfolding shl[symmetric] by (simp add: shoe_live_def)
  ultimately have "sum snd (mm_marked mm) = sum snd (shoe_live ?sh') + sum snd (set (big_regions ?big))"
    unfolding mm_marked_def shl by (intro sum.union_disjoint) simp_all
  then show "mm_totalAllocated (mm_sweep mm) = of_nat (sum snd (mm_marked mm))"
    using s1 s2 by (simp add: mm_sweep_def Let_def shoe_decks_def)
qed

end
