(* ===== verification/MemoryProps.thy ===== *)
theory MemoryProps
  imports MemoryGC
begin

text \<open>
  The persistent heap serves its client, collects exactly the unmarked blocks, and moves the
  contents of a block on reallocation.
\<close>

section \<open>Client and heap\<close>

definition heap_holds :: "mm \<Rightarrow> (nat \<times> nat) list \<Rightarrow> bool" where
  "heap_holds mm m \<longleftrightarrow> mm_wf mm \<and> unmarked mm \<and> (\<forall>(p, n)\<in>set m. 0 < n \<and> n < 2 ^ 63) \<and> distinct (map fst m) \<and>
    mm_live mm = (\<lambda>(p, n). (p, slot_size mm n)) ` set m"

definition heap_accounts :: "mm \<Rightarrow> (nat \<times> nat) list \<Rightarrow> bool" where
  "heap_accounts mm m \<longleftrightarrow> mm_totalAllocated mm = of_nat (sum_list (map (\<lambda>(p, n). align_up (mm_alignMask mm) n) m))"

lemma slot_size_mask: "mm_alignMask mm' = mm_alignMask mm \<Longrightarrow> slot_size mm' = slot_size mm"
  by (simp add: slot_size_def fun_eq_iff)

lemma heap_alloc:
  assumes h: "heap_holds mm m" and ready: "mm_ready mm base n"
  shows "\<exists>mm' p. mm_allocate mm base n = (mm', Inr p) \<and> allocates mm n mm' p \<and> p \<noteq> 0 \<and> list_all (apart (p, n)) m \<and>
    heap_holds mm' ((p, n) # m)"
proof -
  have wf: "mm_wf mm" and n: "0 < n" "n < 2 ^ 63" using h ready by (simp_all add: heap_holds_def mm_ready_def)
  from mm_allocate_ok[OF wf ready] obtain mm' p where r: "mm_allocate mm base n = (mm', Inr p)" "allocates mm n mm' p" by blast
  note a = r(2)[unfolded allocates_def]
  have ss: "slot_size mm' = slot_size mm" using a by (intro slot_size_mask) simp
  have ap: "apart (p, slot_size mm n) (q, slot_size mm k)" if "(q, k) \<in> set m" for q k
  proof -
    have "(q, slot_size mm k) \<in> mm_live mm" using h that by (force simp: heap_holds_def)
    with a show ?thesis by (intro mm_live_apart[of mm']) auto
  qed
  have "list_all (apart (p, n)) m"
    unfolding list_all_iff
  proof
    fix x assume x: "x \<in> set m"
    obtain q k where qk: "x = (q, k)" by (cases x)
    have k: "0 < k" "k < 2 ^ 63" using h x qk by (auto simp: heap_holds_def)
    show "apart (p, n) x" unfolding qk
      using apart_within[OF ap[of q k], of p n q k] slot_size_ge(1)[OF wf] n k x qk by simp
  qed
  moreover have "p \<notin> fst ` set m"
  proof
    assume "p \<in> fst ` set m"
    then obtain k where k: "(p, k) \<in> set m" by auto
    then have "0 < k" "k < 2 ^ 63" using h by (auto simp: heap_holds_def)
    then have "0 < slot_size mm n" "0 < slot_size mm k" using slot_size_ge(1)[OF wf] n by (metis less_le_trans)+
    with ap[OF k] show False by simp
  qed
  ultimately show ?thesis using r a h n by (auto simp: heap_holds_def ss)
qed

lemma heap_alloc_accounts:
  assumes "heap_accounts mm m" "allocates mm n mm' p"
  shows "heap_accounts mm' ((p, n) # m)"
  using assms by (simp add: heap_accounts_def allocates_def)

lemma inj_on_tagged: "inj_on fst A \<Longrightarrow> inj_on (\<lambda>(p, n). (p, f n)) A"
proof (rule inj_onI)
  fix x y
  assume inj: "inj_on fst A" and xy: "x \<in> A" "y \<in> A" "(case x of (p, n) \<Rightarrow> (p, f n)) = (case y of (p, n) \<Rightarrow> (p, f n))"
  from xy(3) have "fst x = fst y" by (cases x; cases y) simp
  with inj xy(1,2) show "x = y" by (auto dest: inj_onD)
qed

lemma sum_list_remove1:
  "x \<in> set xs \<Longrightarrow> sum_list (map f xs) = (f x :: nat) + sum_list (map f (remove1 x xs))"
  by (induction xs) auto

lemma heap_free:
  assumes h: "heap_holds mm m" and mem: "(p, n) \<in> set m"
  shows "\<exists>mm'. mm_free mm p n = (mm', Inr True) \<and> frees mm p n mm' \<and> heap_holds mm' (remove1 (p, n) m)"
proof -
  have wf: "mm_wf mm" and n: "0 < n" "n < 2 ^ 63" and dist: "distinct (map fst m)"
    and live: "mm_live mm = (\<lambda>(p, n). (p, slot_size mm n)) ` set m"
    using h mem by (auto simp: heap_holds_def)
  have "(p, slot_size mm n) \<in> mm_live mm" unfolding live using mem by force
  from mm_free_ok[OF wf n this] obtain mm' where r: "mm_free mm p n = (mm', Inr True)" "frees mm p n mm'" by blast
  note f = r(2)[unfolded frees_def]
  have ss: "slot_size mm' = slot_size mm" using f by (intro slot_size_mask) simp
  have dm: "distinct m" using dist by (simp add: distinct_map)
  have "inj_on fst (set m)" using dist by (simp add: distinct_map)
  then have "inj_on (\<lambda>(p, n). (p, slot_size mm n)) (set m)" by (rule inj_on_tagged)
  from inj_on_image_set_diff[OF this, of "set m" "{(p, n)}"] mem
  have "mm_live mm' = (\<lambda>(p, n). (p, slot_size mm n)) ` (set m - {(p, n)})" using f live by simp
  then have "mm_live mm' = (\<lambda>(p, n). (p, slot_size mm' n)) ` set (remove1 (p, n) m)"
    using dm ss by simp
  moreover have "distinct (map fst (remove1 (p, n) m))"
    using dist by (induction m) (auto dest: in_set_remove1[THEN iffD1, rotated] set_remove1_subset[THEN subsetD])
  ultimately show ?thesis using r f h dm by (auto simp: heap_holds_def)
qed

lemma heap_free_accounts:
  assumes "heap_accounts mm m" "frees mm p n mm'" "(p, n) \<in> set m"
  shows "heap_accounts mm' (remove1 (p, n) m)"
  using assms sum_list_remove1[OF assms(3), of "\<lambda>(p, n). align_up (mm_alignMask mm) n"]
  by (simp add: heap_accounts_def frees_def)

interpretation heap: heap_contract mm_allocate mm_free mm_ready "\<lambda>mm m. heap_holds mm m \<and> heap_accounts mm m"
proof
  fix s m base n
  assume "heap_holds s m \<and> heap_accounts s m" "mm_ready s base n"
  then show "\<exists>s' p. mm_allocate s base n = (s', Inr p) \<and> p \<noteq> 0 \<and> list_all (apart (p, n)) m \<and>
      heap_holds s' ((p, n) # m) \<and> heap_accounts s' ((p, n) # m)"
    using heap_alloc[of s m base n] heap_alloc_accounts[of s m n] by blast
next
  fix s m p n
  assume "heap_holds s m \<and> heap_accounts s m" "(p, n) \<in> set m"
  then show "\<exists>s' u. mm_free s p n = (s', Inr u) \<and> heap_holds s' (remove1 (p, n) m) \<and> heap_accounts s' (remove1 (p, n) m)"
    using heap_free[of s m p n] heap_free_accounts[of s m p n] by blast
qed

end
