(* ===== verification/HeapAllocator.thy ===== *)
theory HeapAllocator
  imports MemoryProps
begin

text \<open>
  Collection, reallocation and reset of the persistent heap, and \<open>PersistentHeapAllocator\<close>
  around it.
\<close>

section \<open>Collection\<close>

text \<open>
  \<open>Context::collectHeap\<close> on the heap: \<open>heap->mark()\<close>, a \<open>mark\<close> call for every block the
  walk reaches, \<open>heap->sweep()\<close>.
\<close>

fun mm_mark_all :: "mm \<Rightarrow> (nat \<times> nat) list \<Rightarrow> (mm, unit) step" where
  "mm_mark_all mm [] = done_with mm ()"
| "mm_mark_all mm ((p, n) # marks) = then_step (mm_mark mm p n) (\<lambda>mm' _. mm_mark_all mm' marks)"

definition mm_collect :: "mm \<Rightarrow> (nat \<times> nat) list \<Rightarrow> (mm, unit) step" where
  "mm_collect mm marks = then_step (mm_mark_all (mm_begin_mark mm) marks) (\<lambda>mm' _. done_with (mm_sweep mm') ())"

lemma mm_mark_all_ok:
  assumes "gc_ok mm" "\<forall>(p, n)\<in>set marks. 0 < n \<and> n < 2 ^ 63 \<and> (p, slot_size mm n) \<in> mm_live mm"
  shows "\<exists>mm'. mm_mark_all mm marks = (mm', Inr ()) \<and> gc_ok mm' \<and> mm_alignMask mm' = mm_alignMask mm \<and>
    mm_marked mm' = mm_marked mm \<union> (\<lambda>(p, n). (p, slot_size mm n)) ` set marks"
  using assms
proof (induction marks arbitrary: mm)
  case (Cons b marks)
  obtain p n where b: "b = (p, n)" by (cases b)
  with Cons.prems mm_mark_ok[of mm n p] obtain mm1 c where m: "mm_mark mm p n = (mm1, Inr c)" "gc_ok mm1"
    "mm_live mm1 = mm_live mm" "mm_alignMask mm1 = mm_alignMask mm" "mm_marked mm1 = insert (p, slot_size mm n) (mm_marked mm)"
    by auto
  have ss: "slot_size mm1 = slot_size mm" using m(4) by (rule slot_size_mask)
  have "\<forall>(p, n)\<in>set marks. 0 < n \<and> n < 2 ^ 63 \<and> (p, slot_size mm1 n) \<in> mm_live mm1" using Cons.prems(2) m(3) ss by simp
  from Cons.IH[OF m(2) this] obtain mm' where "mm_mark_all mm1 marks = (mm', Inr ())" "gc_ok mm'" "mm_alignMask mm' = mm_alignMask mm1"
    "mm_marked mm' = mm_marked mm1 \<union> (\<lambda>(p, n). (p, slot_size mm1 n)) ` set marks" by blast
  with m b ss show ?case by simp
qed (simp add: done_with_def)

lemma sum_list_slots:
  assumes "distinct (map fst m)"
  shows "sum snd ((\<lambda>(p, n). (p, f n)) ` set m) = sum_list (map (\<lambda>(p, n). f n) m)"
proof -
  have "inj_on fst (set m)" and d: "distinct m" using assms by (simp_all add: distinct_map)
  from sum.reindex[OF inj_on_tagged[OF this(1)], of snd f]
  have "sum snd ((\<lambda>(p, n). (p, f n)) ` set m) = sum (\<lambda>(p, n). f n) (set m)" by (simp add: comp_def case_prod_beta)
  then show ?thesis using sum_list_distinct_conv_sum_set[OF d, of "\<lambda>(p, n). f n"] by simp
qed

lemma mm_collect_ok:
  assumes h: "heap_holds mm m" and marks: "set marks \<subseteq> set m"
  shows "\<exists>mm'. mm_collect mm marks = (mm', Inr ()) \<and> heap_holds mm' (filter (\<lambda>b. b \<in> set marks) m) \<and>
    mm_alignMask mm' = mm_alignMask mm \<and>
    mm_totalAllocated mm' = of_nat (sum_list (map (\<lambda>(p, n). slot_size mm n) (filter (\<lambda>b. b \<in> set marks) m)))"
proof -
  let ?m' = "filter (\<lambda>b. b \<in> set marks) m"
  have wf: "mm_wf mm" and um: "unmarked mm" and sz: "\<forall>(p, n)\<in>set m. 0 < n \<and> n < 2 ^ 63" and dist: "distinct (map fst m)"
    and live: "mm_live mm = (\<lambda>(p, n). (p, slot_size mm n)) ` set m"
    using h by (auto simp: heap_holds_def)
  let ?mm0 = "mm_begin_mark mm"
  note b = begin_mark_ok[OF wf um]
  have ss: "slot_size ?mm0 = slot_size mm" using b by (intro slot_size_mask) simp
  have "\<forall>(p, n)\<in>set marks. 0 < n \<and> n < 2 ^ 63 \<and> (p, slot_size ?mm0 n) \<in> mm_live ?mm0"
    using marks sz b live ss by force
  from mm_mark_all_ok[OF _ this] b obtain mm1 where m1: "mm_mark_all ?mm0 marks = (mm1, Inr ())" "gc_ok mm1"
    "mm_alignMask mm1 = mm_alignMask mm" "mm_marked mm1 = (\<lambda>(p, n). (p, slot_size mm n)) ` set marks"
    using ss by auto
  note s = mm_sweep_ok[OF m1(2)]
  have set': "set ?m' = set marks" using marks by auto
  have ss': "slot_size (mm_sweep mm1) = slot_size mm" using s(5) m1(3) by (intro slot_size_mask) simp
  have dist': "distinct (map fst ?m')" using dist by (simp add: distinct_map_filter)
  have "heap_holds (mm_sweep mm1) ?m'"
    unfolding heap_holds_def using s(1,2) sz dist' s(3) m1(4) set' ss' by auto
  moreover have "mm_totalAllocated (mm_sweep mm1) = of_nat (sum_list (map (\<lambda>(p, n). slot_size mm n) ?m'))"
    using s(4) sum_list_slots[OF dist', of "slot_size mm"] unfolding m1(4) set' by simp
  moreover have "mm_collect mm marks = (mm_sweep mm1, Inr ())" by (simp add: mm_collect_def m1(1) done_with_def)
  ultimately show ?thesis using s(5) m1(3) by auto
qed

section \<open>Reallocation\<close>

lemma align_up_idem:
  assumes "mask_ok am" "n < 2 ^ 63" "align_up am n < 2 ^ 63"
  shows "align_up am (align_up am n) = align_up am n"
proof -
  define k where "k = (n + am) div (am + 1)"
  have a: "align_up am n = k * (am + 1)" using align_up_eq[OF assms(1,2)] by (simp add: k_def)
  have "(am + k * (am + 1)) div (am + 1) = k + am div (am + 1)" by (rule div_mult_self1) simp
  then have "(k * (am + 1) + am) div (am + 1) = k" by (simp only: add.commute) simp
  then show ?thesis using align_up_eq[OF assms(1,3)] unfolding a by simp
qed

lemma big_size_lt: "big_size v < 2 ^ 63"
proof -
  have b: "bit DAS_PAGE_GC_MASK n \<longleftrightarrow> n = 63" for n
    unfolding gc_mask_eq bit_exp_iff by auto
  have "v AND NOT DAS_PAGE_GC_MASK = take_bit 63 v"
    by (rule bit_word_eqI) (auto simp: bit_and_iff bit_not_iff bit_take_bit_iff b)
  then have "big_size v = take_bit 63 (unat v)" by (simp add: big_size_def unsigned_take_bit_eq)
  with take_bit_nat_less_exp[of 63 "unat v"] show ?thesis by (simp only:)
qed

lemma slot_size_lt: "mm_wf mm \<Longrightarrow> (p, n) \<in> mm_live mm \<Longrightarrow> n < 2 ^ 63"
proof -
  assume wf: "mm_wf mm" and live: "(p, n) \<in> mm_live mm"
  show "n < 2 ^ 63"
  proof (cases "(p, n) \<in> shoe_live (mm_shoe mm)")
    case True
    then obtain d where d: "d \<in> set (shoe_decks (mm_shoe mm))" "(p, n) \<in> deck_blocks d" by (auto simp: shoe_live_def)
    obtain si where "si < DAS_MAX_SHOE_CUNKS" "class_ok si d" using shoe_deck_wf[OF _ d(1)] wf by (auto simp: mm_wf_def)
    with deck_block_size[OF d(2)] show ?thesis by (simp add: class_ok_def DAS_MAX_SHOE_CUNKS_eq)
  next
    case False
    with live big_size_lt show ?thesis by (auto simp: mm_live_def big_regions_def)
  qed
qed

lemma slot_size_align:
  assumes "mm_wf mm" "n < 2 ^ 63" "align_up (mm_alignMask mm) n < 2 ^ 63"
  shows "slot_size mm (align_up (mm_alignMask mm) n) = slot_size mm n"
  using align_up_idem[OF _ assms(2,3)] assms(1) by (simp add: slot_size_def mm_wf_def)

lemma memcpy_dst: "i < n \<Longrightarrow> memcpy mem dst src n (dst + i) = mem (src + i)"
  by (simp add: memcpy_def)

lemma memcpy_apart: "apart (dst, n) (r, k) \<Longrightarrow> i < k \<Longrightarrow> memcpy mem dst src n (r + i) = mem (r + i)"
  by (auto simp: memcpy_def)

lemma mm_reallocate_ok:
  assumes h: "heap_holds mm m" and mem: "(ptr, n) \<in> set m" "ptr \<noteq> 0" and k: "0 < k" "k < 2 ^ 63"
    and ready: "mm_ready mm base (align_up (mm_alignMask mm) k)"
  shows "\<exists>mm' mem' q. mm_reallocate bytes mm base ptr n k = ((mm', mem'), Inr q) \<and> q \<noteq> 0 \<and>
    heap_holds mm' ((q, k) # remove1 (ptr, n) m) \<and>
    (\<forall>i<min n k. mem' (q + i) = bytes (ptr + i)) \<and>
    (\<forall>(r, l)\<in>set (remove1 (ptr, n) m). \<forall>i<l. mem' (r + i) = bytes (r + i))"
proof -
  let ?am = "mm_alignMask mm"
  let ?n = "align_up ?am n" and ?k = "align_up ?am k"
  have wf: "mm_wf mm" and mo: "mask_ok ?am" using h by (simp_all add: heap_holds_def mm_wf_def)
  have n: "0 < n" "n < 2 ^ 63" using h mem by (auto simp: heap_holds_def)
  have live: "(ptr, slot_size mm n) \<in> mm_live mm" using h mem by (force simp: heap_holds_def)
  have n63: "?n < 2 ^ 63" using slot_size_ge(2)[OF wf n(2,1)] slot_size_lt[OF wf live] by linarith
  have k63: "?k < 2 ^ 63" using ready by (simp add: mm_ready_def)
  from heap_alloc[OF h ready] obtain mm1 q where a: "mm_allocate mm base ?k = (mm1, Inr q)" "allocates mm ?k mm1 q" "q \<noteq> 0"
    "list_all (apart (q, ?k)) m" "heap_holds mm1 ((q, ?k) # m)" by blast
  note al = a(2)[unfolded allocates_def]
  have ss1: "slot_size mm1 = slot_size mm" using al by (intro slot_size_mask) simp
  have wf1: "mm_wf mm1" using al by simp
  have n0: "0 < ?n" using align_up_bounds(3)[OF mo n(2,1)] .
  have "(ptr, slot_size mm1 ?n) \<in> mm_live mm1"
    using al live slot_size_align[OF wf n(2) n63] by (simp add: ss1)
  from mm_free_ok[OF wf1 n0 n63 this] obtain mm2 where f: "mm_free mm1 ptr ?n = (mm2, Inr True)" "frees mm1 ptr ?n mm2" by blast
  note fr = f(2)[unfolded frees_def]
  have ss2: "slot_size mm2 = slot_size mm" using fr ss1 by (metis slot_size_mask)
  have dist: "distinct (map fst m)" and sz: "\<forall>(p, n)\<in>set m. 0 < n \<and> n < 2 ^ 63"
    and lv: "mm_live mm = (\<lambda>(p, n). (p, slot_size mm n)) ` set m" using h by (auto simp: heap_holds_def)
  have qn: "q \<notin> fst ` set m" using a(5) by (simp add: heap_holds_def)
  let ?m' = "remove1 (ptr, n) m"
  have dm: "distinct m" using dist by (simp add: distinct_map)
  have sub: "set ?m' = set m - {(ptr, n)}" using dm by simp
  have inj: "inj_on (\<lambda>(p, n). (p, slot_size mm n)) (set m)"
    using dist by (intro inj_on_tagged) (simp add: distinct_map)
  have lv': "(\<lambda>(p, n). (p, slot_size mm n)) ` set ?m' = mm_live mm - {(ptr, slot_size mm n)}"
    unfolding sub lv using inj_on_image_set_diff[OF inj, of "set m" "{(ptr, n)}"] mem(1) by simp
  have "ptr \<noteq> q" using qn mem(1) by force
  then have lv2: "mm_live mm2 = insert (q, slot_size mm k) ((\<lambda>(p, n). (p, slot_size mm n)) ` set ?m')"
    unfolding lv' using fr al slot_size_align[OF wf n(2) n63] slot_size_align[OF wf k(2) k63] ss1 by auto
  have dist': "distinct (map fst ?m')"
    using dist by (induction m) (auto dest: set_remove1_subset[THEN subsetD])
  have "q \<notin> fst ` set ?m'" using qn sub by auto
  then have holds: "heap_holds mm2 ((q, k) # ?m')"
    unfolding heap_holds_def using fr al h sz sub dist' lv2 ss2 k by (auto simp: heap_holds_def)
  let ?mem = "memcpy bytes q ptr (min ?n ?k)"
  have run: "mm_reallocate bytes mm base ptr n k = ((mm2, ?mem), Inr q)"
    using mem(2) a(1,3) f(1) by (simp add: mm_reallocate_def Let_def done_with_def)
  have "n \<le> ?n" "k \<le> ?k" using align_up_bounds(1)[OF mo] n k by auto
  then have copy: "\<forall>i<min n k. ?mem (q + i) = bytes (ptr + i)" by (simp add: memcpy_dst)
  have "\<forall>i<l. ?mem (r + i) = bytes (r + i)" if "(r, l) \<in> set ?m'" for r l
  proof -
    have "apart (q, ?k) (r, l)" using a(4) that sub by (auto simp: list_all_iff)
    then have "apart (q, min ?n ?k) (r, l)" by auto
    then show ?thesis by (simp add: memcpy_apart)
  qed
  then have others: "\<forall>(r, l)\<in>set ?m'. \<forall>i<l. ?mem (r + i) = bytes (r + i)" by blast
  show ?thesis using run a(3) holds copy others by blast
qed

section \<open>Reset\<close>

lemma mm_reset_ok:
  assumes "heap_holds mm m"
  shows "heap_holds (mm_reset mm) []" "mm_totalAllocated (mm_reset mm) = mm_totalAllocated mm"
proof -
  have wf: "mm_wf mm" using assms by (simp add: heap_holds_def)
  then have swf: "shoe_wf (mm_shoe mm)" by (simp add: mm_wf_def)
  have f: "deck_wf d \<Longrightarrow> deck_wf (deck_reset d) \<and> same_shape d (deck_reset d)" for d using deck_reset_wf by blast
  note sm = shoe_map[OF swf f, folded shoe_reset_def]
  have wfd: "deck_wf d" if "d \<in> set (shoe_decks (mm_shoe mm))" for d
    using shoe_deck_wf[OF swf that] by (auto simp: class_ok_def)
  have "shoe_live (shoe_reset (mm_shoe mm)) = {}"
    using wfd deck_reset_wf by (auto simp: shoe_live_def sm(3) deck_blocks_def)
  moreover have "disjoint_regions (shoe_regions (mm_shoe mm))" using swf by (simp add: shoe_wf_def)
  ultimately show "heap_holds (mm_reset mm) []"
    using wf sm by (simp add: heap_holds_def mm_wf_def mm_reset_def mm_regions_def mm_live_def big_regions_def unmarked_def)
  show "mm_totalAllocated (mm_reset mm) = mm_totalAllocated mm" by (simp add: mm_reset_def)
qed

section \<open>The heap allocator around the model\<close>

text \<open>
  \<open>PersistentHeapAllocator\<close>: the counters of \<open>AnyHeapAllocator\<close> and the limit.
\<close>

record persistent_heap =
  h_limit :: u64
  h_totalAllocations :: u64
  h_totalBytesAllocated :: u64
  h_totalBytesDeleted :: u64
  h_model :: mm

definition with_model :: "persistent_heap \<Rightarrow> (mm, 'r) step \<Rightarrow> (persistent_heap, 'r) step" where
  "with_model h r = (h\<lparr>h_model := fst r\<rparr>, snd r)"

definition heap_impl_allocate :: "persistent_heap \<Rightarrow> nat \<Rightarrow> nat \<Rightarrow> (persistent_heap, nat) step" where
  "heap_impl_allocate h base sz =
    (if h_limit h = 0 \<or> mm_totalAllocated (h_model h) + of_nat sz \<le> h_limit h then
       let h1 = h\<lparr>h_totalAllocations := h_totalAllocations h + 1, h_totalBytesAllocated := h_totalBytesAllocated h + of_nat sz\<rparr>
       in with_model h1 (mm_allocate (h_model h) base sz)
     else done_with h 0)"

definition heap_impl_free :: "persistent_heap \<Rightarrow> nat \<Rightarrow> nat \<Rightarrow> (persistent_heap, unit) step" where
  "heap_impl_free h ptr sz =
    (let h1 = h\<lparr>h_totalBytesDeleted := h_totalBytesDeleted h + of_nat sz\<rparr>
     in then_step (with_model h1 (mm_free (h_model h) ptr sz)) (\<lambda>h2 _. done_with h2 ()))"

definition heap_impl_reallocate :: "(nat \<Rightarrow> u8) \<Rightarrow> persistent_heap \<Rightarrow> nat \<Rightarrow> nat \<Rightarrow> nat \<Rightarrow> nat \<Rightarrow>
    (persistent_heap \<times> (nat \<Rightarrow> u8), nat) step" where
  "heap_impl_reallocate bytes h base ptr oldSize newSize =
    (if h_limit h = 0 \<or> mm_totalAllocated (h_model h) + of_nat newSize - of_nat oldSize \<le> h_limit h then
       let h1 = h\<lparr>h_totalAllocations := h_totalAllocations h + 1,
                  h_totalBytesAllocated := h_totalBytesAllocated h + (of_nat newSize - of_nat oldSize)\<rparr>
       in (case mm_reallocate bytes (h_model h) base ptr oldSize newSize of ((mm', bytes'), r) \<Rightarrow> ((h1\<lparr>h_model := mm'\<rparr>, bytes'), r))
     else ((h, bytes), Inr 0))"

definition heap_reset :: "persistent_heap \<Rightarrow> persistent_heap" where
  "heap_reset h = h\<lparr>h_model := mm_reset (h_model h)\<rparr>"


end
