(* ===== verification/HeapProps.thy ===== *)
theory HeapProps
  imports HeapAllocator "HOL-Library.Code_Target_Nat"
begin

text \<open>
  The properties of the persistent heap, with concrete runs evaluated on a heap of 512-byte
  decks.
\<close>

lemma align_up_code [code]:
  "align_up am sz = (let t = (sz + am) mod 2 ^ 64 in t - (if am = 15 then t mod 16 else if am = 3 then t mod 4 else t AND am))"
  using and_pow2_mask[of _ 4] and_pow2_mask[of _ 2] by (simp add: align_up_def Let_def)

definition witness_mm :: mm where "witness_mm = mm_setInitialSize new_mm 512"

lemma new_shoe_wf: "shoe_wf new_shoe"
  by (auto simp: shoe_wf_def new_shoe_def DAS_MAX_SHOE_CUNKS_eq shoe_regions_def shoe_decks_def disjoint_regions_def)

lemma witness_mm_holds [simp]: "heap_holds witness_mm []" "heap_accounts witness_mm []"
  using new_shoe_wf
  by (simp_all add: heap_holds_def heap_accounts_def witness_mm_def mm_setInitialSize_def new_mm_def mm_wf_def mask_ok_def
    DAS_MAX_SHOE_ALLOCATION_def mm_regions_def big_regions_def shoe_regions_def shoe_decks_def new_shoe_def disjoint_regions_def
    unmarked_def mm_live_def shoe_live_def)

text \<open>The run the witnesses share: a small and a large block, and the large one freed and replaced.\<close>

abbreviation witness_calls :: "heap_call list" where
  "witness_calls \<equiv> [Alloc 4096 24, Alloc 8192 300, Free 8192 300, Alloc 8192 600]"

definition witness_run_ok :: bool where
  "witness_run_ok \<longleftrightarrow> client_ok mm_allocate mm_free mm_ready witness_mm [] witness_calls \<and>
    (case serve mm_allocate mm_free witness_mm [] witness_calls of None \<Rightarrow> False
     | Some (mm, m) \<Rightarrow> m = [(8192, 600), (5088, 24)] \<and> mm_alignMask mm = 15 \<and> mm_ready mm 16384 (align_up 15 700))"

lemma witness_run: "witness_run_ok"
  by code_simp

lemma witness_client: "client_ok mm_allocate mm_free mm_ready witness_mm [] witness_calls"
  using witness_run by (simp only: witness_run_ok_def)

lemma witness_state:
  obtains mm where "serve mm_allocate mm_free witness_mm [] witness_calls = Some (mm, [(8192, 600), (5088, 24)])"
    "heap_holds mm [(8192, 600), (5088, 24)]" "mm_alignMask mm = 15" "mm_ready mm 16384 (align_up 15 700)"
    "mm_totalAllocated mm = 640"
proof -
  from heap.run_ok[OF conjI[OF witness_mm_holds] witness_client] witness_run obtain mm where
    r: "serve mm_allocate mm_free witness_mm [] witness_calls = Some (mm, [(8192, 600), (5088, 24)])"
    "heap_holds mm [(8192, 600), (5088, 24)]" "heap_accounts mm [(8192, 600), (5088, 24)]" "mm_alignMask mm = 15"
    "mm_ready mm 16384 (align_up 15 700)"
    by (auto simp: witness_run_ok_def split: option.splits)
  moreover have "mm_totalAllocated mm = 640" using r(3,4) by (simp add: heap_accounts_def align_up_code)
  ultimately show ?thesis using that by blast
qed

text \<open>C4: A client that frees only blocks it holds is served: whatever sequence of allocations
  and frees it makes, as long as the system grants apart blocks when the allocator asks for
  memory, every call returns, every allocation returns a non-null block that does not overlap
  any block the client holds, the bitsets, counters and size-class chains stay consistent with
  exactly the client's blocks in use, and \<open>bytesAllocated\<close> is the sum of their aligned sizes.\<close>

theorem heap_serves_client:
  assumes "heap_holds mm m \<and> heap_accounts mm m" "client_ok mm_allocate mm_free mm_ready mm m calls"
  shows "\<exists>mm' m'. serve mm_allocate mm_free mm m calls = Some (mm', m') \<and> heap_holds mm' m' \<and> heap_accounts mm' m'"
  using heap.run_ok[OF assms] by blast

lemma heap_serves_client_witness:
  "\<exists>mm'. serve mm_allocate mm_free witness_mm [] witness_calls = Some (mm', [(8192, 600), (5088, 24)]) \<and>
     heap_holds mm' [(8192, 600), (5088, 24)]"
proof -
  obtain mm where "serve mm_allocate mm_free witness_mm [] witness_calls = Some (mm, [(8192, 600), (5088, 24)])"
    by (rule witness_state)
  with heap_serves_client[OF conjI[OF witness_mm_holds] witness_client] show ?thesis by auto
qed

text \<open>C7: A collection that marks some of the client's blocks and sweeps leaves exactly the
  marked blocks in use: none of them is lost, every other one is free again, and
  \<open>bytesAllocated\<close> is recomputed as the sum of the slots of the survivors.\<close>

theorem collect_keeps_marked:
  assumes "heap_holds mm m" "set marks \<subseteq> set m"
  shows "\<exists>mm'. mm_collect mm marks = (mm', Inr ()) \<and> heap_holds mm' (filter (\<lambda>b. b \<in> set marks) m) \<and>
    mm_totalAllocated mm' = of_nat (sum_list (map (\<lambda>(p, n). slot_size mm n) (filter (\<lambda>b. b \<in> set marks) m)))"
  using mm_collect_ok[OF assms] by blast

lemma collect_keeps_marked_witness:
  "\<exists>mm m mm'. serve mm_allocate mm_free witness_mm [] witness_calls = Some (mm, m) \<and>
     mm_collect mm [(8192, 600)] = (mm', Inr ()) \<and> heap_holds mm' [(8192, 600)] \<and> mm_totalAllocated mm' = 608"
proof -
  obtain mm where r: "serve mm_allocate mm_free witness_mm [] witness_calls = Some (mm, [(8192, 600), (5088, 24)])"
    "heap_holds mm [(8192, 600), (5088, 24)]" "mm_alignMask mm = 15"
    by (rule witness_state)
  have "slot_size mm 600 = 608" using r(3) by (simp add: slot_size_def align_up_code)
  with collect_keeps_marked[OF r(2), of "[(8192, 600)]"] r(1) show ?thesis by auto
qed

text \<open>C25: \<open>reallocate\<close> of a block the client holds returns a non-null block of the new size
  whose first bytes, up to the smaller of the two sizes, are those of the old block; the old
  block is freed, every other block of the client keeps its contents, and the new block
  overlaps none of them.\<close>

theorem reallocate_keeps_contents:
  assumes "heap_holds mm m" "(ptr, n) \<in> set m" "ptr \<noteq> 0" "0 < k" "k < 2 ^ 63"
    and "mm_ready mm base (align_up (mm_alignMask mm) k)"
  shows "\<exists>mm' mem' q. mm_reallocate bytes mm base ptr n k = ((mm', mem'), Inr q) \<and> q \<noteq> 0 \<and>
    heap_holds mm' ((q, k) # remove1 (ptr, n) m) \<and>
    (\<forall>i<min n k. mem' (q + i) = bytes (ptr + i)) \<and>
    (\<forall>(r, l)\<in>set (remove1 (ptr, n) m). \<forall>i<l. mem' (r + i) = bytes (r + i))"
  using mm_reallocate_ok[OF assms] .

lemma reallocate_keeps_contents_witness:
  "\<exists>mm m mm' mem' q. serve mm_allocate mm_free witness_mm [] witness_calls = Some (mm, m) \<and>
     mm_reallocate of_nat mm 16384 5088 24 700 = ((mm', mem'), Inr q) \<and>
     heap_holds mm' [(q, 700), (8192, 600)] \<and> mem' (q + 23) = of_nat 5111"
proof -
  obtain mm where r: "serve mm_allocate mm_free witness_mm [] witness_calls = Some (mm, [(8192, 600), (5088, 24)])"
    "heap_holds mm [(8192, 600), (5088, 24)]" "mm_alignMask mm = 15" "mm_ready mm 16384 (align_up 15 700)"
    by (rule witness_state)
  from r(3,4) have ready: "mm_ready mm 16384 (align_up (mm_alignMask mm) 700)" by simp
  from reallocate_keeps_contents[OF r(2), of 5088 24 700 16384 of_nat] ready r(1) show ?thesis by fastforce
qed

text \<open>\<open>reset\<close> frees every block, yet \<open>bytesAllocated\<close> keeps the charge of the freed
  blocks, so a heap with a limit refuses requests after a reset that it would grant when new:
  whenever the old charge plus the request exceed the limit, \<open>impl_allocate\<close> returns null on
  the empty heap.\<close>

theorem reset_keeps_charge:
  assumes "heap_holds (h_model h) m" "h_limit h \<noteq> 0" "h_limit h < mm_totalAllocated (h_model h) + of_nat n"
  shows "mm_live (h_model (heap_reset h)) = {} \<and> heap_impl_allocate (heap_reset h) base n = (heap_reset h, Inr 0)"
  using mm_reset_ok[OF assms(1)] assms(2,3)
  by (auto simp: heap_reset_def heap_impl_allocate_def heap_holds_def done_with_def)

lemma reset_keeps_charge_witness:
  "\<exists>h. h_limit h = 1024 \<and> mm_live (h_model (heap_reset h)) = {} \<and> heap_impl_allocate (heap_reset h) 65536 500 = (heap_reset h, Inr 0)"
proof -
  obtain mm where r: "heap_holds mm [(8192, 600), (5088, 24)]" "mm_totalAllocated mm = 640" by (rule witness_state)
  let ?h = "\<lparr>h_limit = 1024, h_totalAllocations = 3, h_totalBytesAllocated = 924, h_totalBytesDeleted = 300, h_model = mm\<rparr>"
  from reset_keeps_charge[of ?h "[(8192, 600), (5088, 24)]" 500 65536] r show ?thesis by (intro exI[of _ ?h]) simp
qed

end
