(* ===== verification/LinearHeap.thy ===== *)
theory LinearHeap
  imports HeapContract MemoryModel
begin

text \<open>
  The linear (bump) allocator: \<open>HeapChunk\<close> and \<open>LinearChunkAllocator\<close> of
  \<open>misc/memory_model.h\<close> and \<open>misc/memory_model.cpp\<close>. Chunk sizes and offsets are
  \<open>uint32_t\<close>, written out as remainders by \<open>2^32\<close>. \<open>os i\<close> is the address the system
  returns for the \<open>i\<close>-th block a call asks for.
\<close>

record heap_chunk =
  c_data :: nat
  c_size :: nat
  c_offset :: nat

definition new_chunk :: "nat \<Rightarrow> nat \<Rightarrow> heap_chunk" where
  "new_chunk base s = (let t = (s + 15) mod 2 ^ 32 in \<lparr>c_data = base, c_size = t - t mod 16, c_offset = 0\<rparr>)"

definition chunk_allocate :: "heap_chunk \<Rightarrow> nat \<Rightarrow> (heap_chunk \<times> nat) option" where
  "chunk_allocate ch s =
    (if c_offset ch + s > c_size ch then None else Some (ch\<lparr>c_offset := c_offset ch + s\<rparr>, c_data ch + c_offset ch))"

definition chunk_free :: "heap_chunk \<Rightarrow> nat \<Rightarrow> nat \<Rightarrow> heap_chunk" where
  "chunk_free ch ptr s = (if ptr + s = c_data ch + c_offset ch then ch\<lparr>c_offset := c_offset ch - s\<rparr> else ch)"

definition chunk_isOwnPtr :: "heap_chunk \<Rightarrow> nat \<Rightarrow> bool" where
  "chunk_isOwnPtr ch ptr \<longleftrightarrow> c_data ch \<le> ptr \<and> ptr < c_data ch + c_size ch"

record linear =
  l_customGrow :: "(nat \<Rightarrow> nat) option"
  l_unadjustedInitialSize :: nat
  l_initialSize :: nat
  l_alignMask :: nat
  l_chunk :: "heap_chunk list"

definition new_linear :: linear where
  "new_linear = \<lparr>l_customGrow = None, l_unadjustedInitialSize = 0, l_initialSize = 0, l_alignMask = 15, l_chunk = []\<rparr>"

definition linear_setInitialSize :: "linear \<Rightarrow> nat \<Rightarrow> (linear, unit) step" where
  "linear_setInitialSize l sz =
    (if sz > UINT32_MAX then (l, Inl (VerifyFailed ''LinearChunkAllocator::setInitialSize exceeds the per-chunk uint32 cap''))
     else done_with (l\<lparr>l_unadjustedInitialSize := sz, l_initialSize := sz\<rparr>) ())"

definition linear_isOwnPtrQnD :: "linear \<Rightarrow> nat \<Rightarrow> bool" where
  "linear_isOwnPtrQnD l ptr = (case l_chunk l of [] \<Rightarrow> False | ch # _ \<Rightarrow> chunk_isOwnPtr ch ptr)"

definition linear_isOwnPtr :: "linear \<Rightarrow> nat \<Rightarrow> bool" where
  "linear_isOwnPtr l ptr = list_ex (\<lambda>ch. chunk_isOwnPtr ch ptr) (l_chunk l)"

definition linear_grow :: "linear \<Rightarrow> nat \<Rightarrow> nat" where
  "linear_grow l sz = min (case l_customGrow l of Some f \<Rightarrow> f sz | None \<Rightarrow> sz * 2) UINT32_MAX"

text \<open>The loop of \<open>allocate\<close>: try the first chunk, push another one in front.\<close>

partial_function (option) linear_loop :: "(nat \<Rightarrow> nat) \<Rightarrow> nat \<Rightarrow> linear \<Rightarrow> nat \<Rightarrow> (linear \<times> nat) option" where
  "linear_loop os i l s = (case l_chunk l of [] \<Rightarrow> None | ch # rest \<Rightarrow>
     (case chunk_allocate ch s of
        Some (ch', res) \<Rightarrow> Some (l\<lparr>l_chunk := ch' # rest\<rparr>, res)
      | None \<Rightarrow> linear_loop os (i + 1) (l\<lparr>l_chunk := new_chunk (os i) (max (linear_grow l (c_size ch)) s) # ch # rest\<rparr>) s))"

text \<open>\<open>None\<close>: the call does not return.\<close>

definition linear_allocate :: "(nat \<Rightarrow> nat) \<Rightarrow> linear \<Rightarrow> nat \<Rightarrow> (linear, nat) step option" where
  "linear_allocate os l s0 =
    (if s0 = 0 then Some (done_with l 0)
     else let s = align_up (l_alignMask l) s0 in
       if s > UINT32_MAX then Some (l, Inl (VerifyFailed ''LinearChunkAllocator: single allocation exceeds the per-chunk uint32 cap''))
       else if l_chunk l = [] then
         let l1 = if l_initialSize l = 0 then l\<lparr>l_initialSize := default_initial_size\<rparr> else l;
             l2 = l1\<lparr>l_chunk := [new_chunk (os 0) (max (l_initialSize l1) s mod 2 ^ 32)]\<rparr>
         in map_option (\<lambda>(l', p). done_with l' p) (linear_loop os 1 l2 s)
       else map_option (\<lambda>(l', p). done_with l' p) (linear_loop os 0 l s))"

fun chunks_free :: "nat \<Rightarrow> nat \<Rightarrow> heap_chunk list \<Rightarrow> heap_chunk list" where
  "chunks_free ptr s [] = []"
| "chunks_free ptr s (ch # rest) = (if chunk_isOwnPtr ch ptr then chunk_free ch ptr s # rest else ch # chunks_free ptr s rest)"

definition linear_free :: "linear \<Rightarrow> nat \<Rightarrow> nat \<Rightarrow> (linear, unit) step" where
  "linear_free l ptr s0 = (let s = align_up (l_alignMask l) s0 in done_with (l\<lparr>l_chunk := chunks_free ptr (s mod 2 ^ 32) (l_chunk l)\<rparr>) ())"

text \<open>
  \<open>reallocate\<close> copies into whatever \<open>allocate\<close> returns; copying to a null pointer is
  undefined when there is something to copy.
\<close>

definition linear_reallocate :: "(nat \<Rightarrow> nat) \<Rightarrow> (nat \<Rightarrow> u8) \<Rightarrow> linear \<Rightarrow> nat \<Rightarrow> nat \<Rightarrow> nat \<Rightarrow> (linear \<times> (nat \<Rightarrow> u8), nat) step option" where
  "linear_reallocate os bytes l ptr s0 n0 =
    (if ptr = 0 then map_option (\<lambda>(l', r). ((l', bytes), r)) (linear_allocate os l n0)
     else let s = align_up (l_alignMask l) s0; n = align_up (l_alignMask l) n0 in
       map_option (\<lambda>(l1, r). case r of
           Inl e \<Rightarrow> ((l1, bytes), Inl e)
         | Inr nptr \<Rightarrow> if nptr = 0 \<and> min s n \<noteq> 0 then ((l1, bytes), Inl (UndefinedBehaviour ''memcpy to null''))
             else ((fst (linear_free l1 ptr s), memcpy bytes nptr ptr (min s n)), Inr nptr))
         (linear_allocate os l n))"

definition linear_bytesAllocated :: "linear \<Rightarrow> nat" where
  "linear_bytesAllocated l = sum_list (map c_offset (l_chunk l))"

definition linear_totalAlignedMemoryAllocated :: "linear \<Rightarrow> nat" where
  "linear_totalAlignedMemoryAllocated l = sum_list (map c_size (l_chunk l))"

definition linear_depth :: "linear \<Rightarrow> nat" where
  "linear_depth l = length (l_chunk l)"

definition linear_reset :: "linear \<Rightarrow> linear" where
  "linear_reset l = (case l_chunk l of
     _ # _ # _ \<Rightarrow> (let maxAllocated = (linear_bytesAllocated l + 1023) - (linear_bytesAllocated l + 1023) mod 1024
       in l\<lparr>l_initialSize := min UINT32_MAX (max (l_initialSize l) maxAllocated), l_chunk := []\<rparr>)
   | [ch] \<Rightarrow> l\<lparr>l_chunk := [ch\<lparr>c_offset := 0\<rparr>]\<rparr>
   | [] \<Rightarrow> l)"

definition linear_shrink :: "linear \<Rightarrow> linear" where
  "linear_shrink l =
    (let l1 = l\<lparr>l_initialSize := l_unadjustedInitialSize l\<rparr> in
     case l_chunk l of [ch] \<Rightarrow> if c_offset ch = 0 then l1\<lparr>l_chunk := []\<rparr> else l1 | _ \<Rightarrow> l1)"

definition store_bytes :: "(nat \<Rightarrow> u8) \<Rightarrow> nat \<Rightarrow> u8 list \<Rightarrow> nat \<Rightarrow> u8" where
  "store_bytes bytes p xs = (\<lambda>a. if p \<le> a \<and> a < p + length xs then xs ! (a - p) else bytes a)"

definition linear_allocateName :: "(nat \<Rightarrow> nat) \<Rightarrow> (nat \<Rightarrow> u8) \<Rightarrow> linear \<Rightarrow> u8 list \<Rightarrow> (linear \<times> (nat \<Rightarrow> u8), nat) step option" where
  "linear_allocateName os bytes l name =
    (if name = [] then Some ((l, bytes), Inr 0)
     else let len = length name mod 2 ^ 32 in
       map_option (\<lambda>(l1, r). case r of
           Inl e \<Rightarrow> ((l1, bytes), Inl e)
         | Inr str \<Rightarrow> if str \<noteq> 0 then ((l1, store_bytes bytes str (take len name @ [0])), Inr str) else ((l1, bytes), Inr 0))
         (linear_allocate os l ((len + 1) mod 2 ^ 32)))"

end
