(* ===== verification/LinearProps.thy ===== *)
theory LinearProps
  imports LinearHeap MemoryInv
begin

text \<open>
  The linear allocator keeps its client's blocks apart while no chunk size reaches the
  32-bit limit, and what happens at the limit.
\<close>

section \<open>Invariant\<close>

definition chunk_region :: "heap_chunk \<Rightarrow> nat \<times> nat" where
  "chunk_region ch = (c_data ch, c_size ch)"

definition chunk_ok :: "heap_chunk \<Rightarrow> bool" where
  "chunk_ok ch \<longleftrightarrow> 0 < c_data ch \<and> c_offset ch \<le> c_size ch"

definition linear_wf :: "linear \<Rightarrow> bool" where
  "linear_wf l \<longleftrightarrow> mask_ok (l_alignMask l) \<and> list_all chunk_ok (l_chunk l) \<and> disjoint_regions (map chunk_region (l_chunk l))"

definition aligned_block :: "linear \<Rightarrow> nat \<times> nat \<Rightarrow> nat \<times> nat" where
  "aligned_block l = (\<lambda>(p, n). (p, align_up (l_alignMask l) n))"

definition in_chunk :: "heap_chunk \<Rightarrow> nat \<times> nat \<Rightarrow> bool" where
  "in_chunk ch = (\<lambda>(p, n). c_data ch \<le> p \<and> p + n \<le> c_data ch + c_offset ch)"

definition linear_holds :: "linear \<Rightarrow> (nat \<times> nat) list \<Rightarrow> bool" where
  "linear_holds l m \<longleftrightarrow> linear_wf l \<and> (\<forall>(p, n)\<in>set m. 0 < n \<and> align_up (l_alignMask l) n \<le> UINT32_MAX \<and> n < 2 ^ 63) \<and>
    (\<forall>b\<in>set m. \<exists>ch\<in>set (l_chunk l). in_chunk ch (aligned_block l b)) \<and> disjoint_regions (map (aligned_block l) m)"

text \<open>
  The request to the system, and the sizes below which no chunk size wraps: the request, the
  initial size and the grown size are at most \<open>2^32 - 16\<close>.
\<close>

definition linear_request :: "linear \<Rightarrow> nat \<Rightarrow> nat option" where
  "linear_request l s = (case l_chunk l of
     [] \<Rightarrow> Some (max (if l_initialSize l = 0 then default_initial_size else l_initialSize l) s)
   | ch # _ \<Rightarrow> (if c_offset ch + s > c_size ch then Some (max (linear_grow l (c_size ch)) s) else None))"

definition linear_ready :: "linear \<Rightarrow> nat \<Rightarrow> nat \<Rightarrow> bool" where
  "linear_ready l base n \<longleftrightarrow> 0 < n \<and> n < 2 ^ 63 \<and>
    (let s = align_up (l_alignMask l) n in s \<le> 2 ^ 32 - 16 \<and>
      (case linear_request l s of None \<Rightarrow> True
       | Some k \<Rightarrow> k \<le> 2 ^ 32 - 16 \<and> system_grants (map chunk_region (l_chunk l)) base (round16 k)))"

lemma linear_loop_room:
  "l_chunk l = ch # rest \<Longrightarrow> chunk_allocate ch s = Some (ch', p) \<Longrightarrow> linear_loop os i l s = Some (l\<lparr>l_chunk := ch' # rest\<rparr>, p)"
  by (subst linear_loop.simps) simp

lemma linear_loop_full:
  "l_chunk l = ch # rest \<Longrightarrow> chunk_allocate ch s = None \<Longrightarrow>
    linear_loop os i l s = linear_loop os (i + 1) (l\<lparr>l_chunk := new_chunk (os i) (max (linear_grow l (c_size ch)) s) # ch # rest\<rparr>) s"
  by (subst linear_loop.simps) simp

lemma new_chunk_size: "k \<le> 2 ^ 32 - 16 \<Longrightarrow> c_size (new_chunk base k) = round16 k \<and> k \<le> round16 k"
  by (simp add: new_chunk_def Let_def round16_def)

section \<open>Allocation and release\<close>

lemma aligned_block_mask: "l_alignMask l' = l_alignMask l \<Longrightarrow> aligned_block l' = aligned_block l"
  by (simp add: aligned_block_def)

lemma bump:
  assumes h: "linear_holds l m" and ch: "l_chunk l = ch # rest" and n: "0 < n" "n < 2 ^ 63"
    and s: "s = align_up (l_alignMask l) n" "s \<le> UINT32_MAX" and room: "c_offset ch + s \<le> c_size ch"
  defines "l' \<equiv> l\<lparr>l_chunk := ch\<lparr>c_offset := c_offset ch + s\<rparr> # rest\<rparr>" and "p \<equiv> c_data ch + c_offset ch"
  shows "linear_loop os i l s = Some (l', p)" "p \<noteq> 0" "list_all (apart (p, n)) m" "linear_holds l' ((p, n) # m)"
proof -
  let ?ch = "ch\<lparr>c_offset := c_offset ch + s\<rparr>"
  have wf: "linear_wf l" and blocks: "\<forall>b\<in>set m. \<exists>c\<in>set (ch # rest). in_chunk c (aligned_block l b)"
    and dis: "disjoint_regions (map (aligned_block l) m)" using h ch by (auto simp: linear_holds_def)
  have al: "n \<le> s" using align_up_bounds(1)[OF _ n(2,1)] wf s(1) by (simp add: linear_wf_def)
  show "linear_loop os i l s = Some (l', p)"
    using linear_loop_room[OF ch, of s ?ch p] room by (simp add: chunk_allocate_def l'_def p_def)
  show "p \<noteq> 0" using wf ch by (simp add: linear_wf_def chunk_ok_def p_def)
  have reg: "\<And>c. c \<in> set rest \<Longrightarrow> apart (chunk_region ch) (chunk_region c)"
    and offs: "\<And>c. c \<in> set (ch # rest) \<Longrightarrow> c_offset c \<le> c_size c"
    using wf ch by (auto simp: linear_wf_def disjoint_regions_def chunk_ok_def list_all_iff)
  have ap: "apart (p, s) (aligned_block l b)" if b: "b \<in> set m" for b
  proof -
    obtain q k where qk: "aligned_block l b = (q, k)" by (cases "aligned_block l b")
    from blocks b obtain c where c: "c \<in> set (ch # rest)" "in_chunk c (q, k)" unfolding qk[symmetric] by blast
    show ?thesis
    proof (cases "c = ch")
      case True
      with c qk show ?thesis by (auto simp: in_chunk_def p_def)
    next
      case False
      with c have cr: "c \<in> set rest" by simp
      have "c_data c \<le> q" "q + k \<le> c_data c + c_size c" using c(2) offs[OF c(1)] by (auto simp: in_chunk_def)
      moreover have "c_data ch \<le> p" "p + s \<le> c_data ch + c_size ch" using room by (simp_all add: p_def)
      ultimately show ?thesis unfolding qk using reg[OF cr] by (auto simp: chunk_region_def)
    qed
  qed
  show "list_all (apart (p, n)) m"
    unfolding list_all_iff
  proof
    fix b assume b: "b \<in> set m"
    obtain q k where qk: "b = (q, k)" by (cases b)
    have "k \<le> align_up (l_alignMask l) k" using align_up_bounds(1)[of "l_alignMask l" k] h b qk by (auto simp: linear_holds_def linear_wf_def)
    with ap[OF b] al qk show "apart (p, n) b" by (auto simp: aligned_block_def)
  qed
  have am: "aligned_block l' = aligned_block l" by (simp add: aligned_block_def l'_def)
  have new: "in_chunk ?ch (aligned_block l (p, n))" using s(1) by (simp add: in_chunk_def aligned_block_def p_def)
  have old: "\<exists>c\<in>set (?ch # rest). in_chunk c (aligned_block l b)" if "b \<in> set m" for b
  proof -
    from blocks that obtain c where c: "c \<in> set (ch # rest)" "in_chunk c (aligned_block l b)" by blast
    show ?thesis
    proof (cases "c = ch")
      case True
      with c(2) have "in_chunk ?ch (aligned_block l b)" by (auto simp: in_chunk_def)
      then show ?thesis by simp
    next
      case False
      with c show ?thesis by auto
    qed
  qed
  have "linear_wf l'" using wf ch room by (simp add: linear_wf_def l'_def chunk_ok_def chunk_region_def)
  moreover have "disjoint_regions (map (aligned_block l) ((p, n) # m))"
    using dis ap s(1) by (simp add: disjoint_regions_def aligned_block_def)
  ultimately show "linear_holds l' ((p, n) # m)"
    unfolding linear_holds_def am using h n s new old by (auto simp: l'_def linear_holds_def)
qed

lemma push_chunk:
  assumes h: "linear_holds l m" and k: "0 < k" "k \<le> 2 ^ 32 - 16"
    and g: "system_grants (map chunk_region (l_chunk l)) base (round16 k)"
    and l2: "l_alignMask l2 = l_alignMask l" "l_chunk l2 = new_chunk base k # l_chunk l"
  shows "linear_holds l2 m"
proof -
  have sz: "c_size (new_chunk base k) = round16 k" "c_data (new_chunk base k) = base" "c_offset (new_chunk base k) = 0"
    using new_chunk_size[OF k(2)] by (simp_all add: new_chunk_def Let_def)
  have "linear_wf l2" using h g l2 sz
    by (auto simp: linear_holds_def linear_wf_def disjoint_regions_def system_grants_def chunk_region_def chunk_ok_def list_all_iff)
  then show ?thesis using h l2 aligned_block_mask[OF l2(1)] by (auto simp: linear_holds_def)
qed

definition linear_alloc_step :: "linear \<Rightarrow> nat \<Rightarrow> nat \<Rightarrow> (linear, nat) step" where
  "linear_alloc_step l base n = (case linear_allocate (\<lambda>_. base) l n of
     Some r \<Rightarrow> r | None \<Rightarrow> (l, Inl (UndefinedBehaviour ''the call does not return'')))"

lemma linear_alloc_ok:
  assumes h: "linear_holds l m" and ready: "linear_ready l base n"
  shows "\<exists>l' p. linear_alloc_step l base n = (l', Inr p) \<and> p \<noteq> 0 \<and> list_all (apart (p, n)) m \<and> linear_holds l' ((p, n) # m)"
proof -
  let ?s = "align_up (l_alignMask l) n"
  have n: "0 < n" "n < 2 ^ 63" and s: "?s \<le> 2 ^ 32 - 16" using ready by (simp_all add: linear_ready_def Let_def)
  have wf: "linear_wf l" using h by (simp add: linear_holds_def)
  have s0: "0 < ?s" using align_up_bounds(3)[OF _ n(2,1)] wf by (simp add: linear_wf_def)
  have smax: "?s \<le> UINT32_MAX" using s by (simp add: UINT32_MAX_def)
  show ?thesis
  proof (cases "l_chunk l")
    case Nil
    let ?l1 = "if l_initialSize l = 0 then l\<lparr>l_initialSize := default_initial_size\<rparr> else l"
    let ?k = "max (l_initialSize ?l1) ?s"
    let ?ch = "new_chunk base ?k"
    let ?l2 = "?l1\<lparr>l_chunk := [?ch]\<rparr>"
    have k: "?k \<le> 2 ^ 32 - 16" "system_grants (map chunk_region (l_chunk l)) base (round16 ?k)" "0 < ?k"
      using ready Nil s0 by (auto simp: linear_ready_def linear_request_def Let_def max_def split: if_splits)
    have l2: "l_alignMask ?l2 = l_alignMask l" "l_chunk ?l2 = [?ch]" by auto
    have h2: "linear_holds ?l2 m" using push_chunk[OF h k(3,1,2), of ?l2] l2 Nil by simp
    have room: "c_offset ?ch + ?s \<le> c_size ?ch" using new_chunk_size[OF k(1), of base] by (simp add: new_chunk_def Let_def)
    have km: "?k mod 2 ^ 32 = ?k" using k(1) by (intro mod_less) simp
    note b1 = bump(1)[OF h2 l2(2) n _ smax room, where os = "\<lambda>_. base" and i = 1, unfolded l2(1), OF refl]
    note b = bump(2-4)[OF h2 l2(2) n _ smax room, unfolded l2(1), OF refl]
    have "linear_allocate (\<lambda>_. base) l n = map_option (\<lambda>(l', p). done_with l' p) (linear_loop (\<lambda>_. base) 1 ?l2 ?s)"
      unfolding linear_allocate_def Let_def using n smax Nil km by simp
    then have "linear_alloc_step l base n = (?l2\<lparr>l_chunk := ?ch\<lparr>c_offset := c_offset ?ch + ?s\<rparr> # []\<rparr>, Inr (c_data ?ch + c_offset ?ch))"
      unfolding linear_alloc_step_def b1 by (simp add: done_with_def)
    with b show ?thesis by blast
  next
    case (Cons ch rest)
    show ?thesis
    proof (cases "c_offset ch + ?s \<le> c_size ch")
      case True
      note b1 = bump(1)[OF h Cons n refl smax True, where os = "\<lambda>_. base" and i = 0]
      note b = bump(2-4)[OF h Cons n refl smax True]
      have "linear_alloc_step l base n = (l\<lparr>l_chunk := ch\<lparr>c_offset := c_offset ch + ?s\<rparr> # rest\<rparr>, Inr (c_data ch + c_offset ch))"
        unfolding linear_alloc_step_def linear_allocate_def Let_def using n smax Cons b1 by (simp add: done_with_def)
      with b show ?thesis by blast
    next
      case False
      let ?k = "max (linear_grow l (c_size ch)) ?s"
      let ?ch = "new_chunk base ?k"
      let ?l2 = "l\<lparr>l_chunk := ?ch # ch # rest\<rparr>"
      have k: "?k \<le> 2 ^ 32 - 16" "system_grants (map chunk_region (l_chunk l)) base (round16 ?k)" "0 < ?k"
        using ready Cons False s0 by (auto simp: linear_ready_def linear_request_def Let_def)
      have l2: "l_alignMask ?l2 = l_alignMask l" "l_chunk ?l2 = ?ch # ch # rest" by auto
      have h2: "linear_holds ?l2 m" using push_chunk[OF h k(3,1,2), of ?l2] l2 Cons by simp
      have room: "c_offset ?ch + ?s \<le> c_size ?ch" using new_chunk_size[OF k(1), of base] by (simp add: new_chunk_def Let_def)
      note b1 = bump(1)[OF h2 l2(2) n _ smax room, where os = "\<lambda>_. base" and i = "0 + 1", unfolded l2(1), OF refl]
    note b = bump(2-4)[OF h2 l2(2) n _ smax room, unfolded l2(1), OF refl]
      have "linear_loop (\<lambda>_. base) 0 l ?s = linear_loop (\<lambda>_. base) (0 + 1) ?l2 ?s"
        using linear_loop_full[OF Cons, of ?s "\<lambda>_. base" 0] False by (simp add: chunk_allocate_def)
      then have "linear_alloc_step l base n = (?l2\<lparr>l_chunk := ?ch\<lparr>c_offset := c_offset ?ch + ?s\<rparr> # ch # rest\<rparr>, Inr (c_data ?ch + c_offset ?ch))"
        unfolding linear_alloc_step_def linear_allocate_def Let_def using n smax Cons b1 by (simp add: done_with_def)
      with b show ?thesis by blast
    qed
  qed
qed

lemma chunks_free_split:
  assumes "chunk_isOwnPtr c p" "c \<in> set cs"
    and "\<And>d. d \<in> set cs \<Longrightarrow> chunk_isOwnPtr d p \<Longrightarrow> d = c"
  shows "\<exists>xs ys. cs = xs @ c # ys \<and> chunks_free p s cs = xs @ chunk_free c p s # ys"
  using assms(2,3)
proof (induction cs)
  case (Cons d cs)
  show ?case
  proof (cases "chunk_isOwnPtr d p")
    case True
    with Cons.prems have "d = c" by simp
    with True show ?thesis by (intro exI[of _ "[]"] exI[of _ cs]) simp
  next
    case False
    have "c \<in> set cs" using Cons.prems(1) assms(1) False by auto
    then obtain xs ys where "cs = xs @ c # ys" "chunks_free p s cs = xs @ chunk_free c p s # ys"
      using Cons.IH[OF _ Cons.prems(2)] by (meson list.set_intros(2))
    with False show ?thesis by (intro exI[of _ "d # xs"] exI[of _ ys]) simp
  qed
qed simp

lemma linear_free_ok:
  assumes h: "linear_holds l m" and mem: "(p, n) \<in> set m"
  shows "\<exists>l'. linear_free l p n = (l', Inr ()) \<and> linear_holds l' (remove1 (p, n) m)"
proof -
  let ?s = "align_up (l_alignMask l) n"
  have wf: "linear_wf l" and n: "0 < n" "n < 2 ^ 63" and smax: "?s \<le> UINT32_MAX" and dis: "disjoint_regions (map (aligned_block l) m)"
    using h mem by (auto simp: linear_holds_def)
  have s0: "0 < ?s" using align_up_bounds(3)[OF _ n(2,1)] wf by (simp add: linear_wf_def)
  have sm: "?s mod 2 ^ 32 = ?s" using smax by (intro mod_less) (simp add: UINT32_MAX_def)
  from mem obtain P Q where PQ: "m = P @ (p, n) # Q" "remove1 (p, n) m = P @ Q"
    by (metis split_list_first remove1_append remove1.simps(2))
  have rest: "disjoint_regions (map (aligned_block l) (P @ Q))" and ap: "\<And>b. b \<in> set (P @ Q) \<Longrightarrow> apart (p, ?s) (aligned_block l b)"
    using dis unfolding PQ(1) by (simp_all add: disjoint_regions_middle aligned_block_def[of l] ball_Un) (auto simp: aligned_block_def)
  from h mem obtain c where c: "c \<in> set (l_chunk l)" "in_chunk c (p, ?s)" by (auto simp: linear_holds_def aligned_block_def)
  have cok: "c_offset c \<le> c_size c" using wf c(1) by (auto simp: linear_wf_def list_all_iff chunk_ok_def)
  have own: "chunk_isOwnPtr c p" using c(2) cok s0 by (auto simp: in_chunk_def chunk_isOwnPtr_def)
  have uniq: "d = c" if "d \<in> set (l_chunk l)" "chunk_isOwnPtr d p" for d
  proof (rule ccontr)
    assume "d \<noteq> c"
    from c(1) obtain X Y where XY: "l_chunk l = X @ c # Y" by (meson split_list)
    have "disjoint_regions (map chunk_region X @ chunk_region c # map chunk_region Y)" using wf XY by (simp add: linear_wf_def)
    then have "apart (chunk_region c) (chunk_region d)" using that(1) \<open>d \<noteq> c\<close> XY unfolding disjoint_regions_middle by auto
    with own that(2) show False by (auto simp: chunk_region_def chunk_isOwnPtr_def)
  qed
  from chunks_free_split[OF own c(1) uniq, of ?s] obtain xs ys where xy: "l_chunk l = xs @ c # ys"
    "chunks_free p ?s (l_chunk l) = xs @ chunk_free c p ?s # ys" by blast
  let ?c = "chunk_free c p ?s"
  let ?l' = "l\<lparr>l_chunk := xs @ ?c # ys\<rparr>"
  have run: "linear_free l p n = (?l', Inr ())" unfolding linear_free_def Let_def sm xy(2) by (simp add: done_with_def)
  have am: "aligned_block ?l' = aligned_block l" by (simp add: aligned_block_def)
  have shape: "c_data ?c = c_data c" "c_size ?c = c_size c" "c_offset ?c \<le> c_offset c" by (auto simp: chunk_free_def)
  have "linear_wf ?l'" using wf xy(1) shape by (auto simp: linear_wf_def chunk_ok_def chunk_region_def list_all_iff)
  moreover have "\<exists>d\<in>set (l_chunk ?l'). in_chunk d (aligned_block l b)" if b: "b \<in> set (P @ Q)" for b
  proof -
    have bm: "b \<in> set m" using b PQ(1) by auto
    with h obtain d where d: "d \<in> set (l_chunk l)" "in_chunk d (aligned_block l b)" by (auto simp: linear_holds_def)
    show ?thesis
    proof (cases "d = c")
      case False
      with d xy(1) show ?thesis by auto
    next
      case True
      obtain q k where qk: "aligned_block l b = (q, k)" by (cases "aligned_block l b")
      have k0: "0 < k"
      proof -
        obtain r j where b': "b = (r, j)" by (cases b)
        with bm h have "0 < j" "j < 2 ^ 63" by (auto simp: linear_holds_def)
        with align_up_bounds(3)[of "l_alignMask l" j] wf qk b' show ?thesis by (simp add: aligned_block_def linear_wf_def)
      qed
      have "in_chunk ?c (q, k)"
        using d(2) True qk ap[OF b] k0 c(2) s0 by (auto simp: in_chunk_def chunk_free_def)
      then show ?thesis using qk by auto
    qed
  qed
  ultimately have "linear_holds ?l' (P @ Q)"
    unfolding linear_holds_def am using rest h PQ(1) by (auto simp: linear_holds_def)
  with run PQ(2) show ?thesis by auto
qed

interpretation linear: heap_contract linear_alloc_step linear_free linear_ready linear_holds
proof
  fix s m base n
  assume "linear_holds s m" "linear_ready s base n"
  then show "\<exists>s' p. linear_alloc_step s base n = (s', Inr p) \<and> p \<noteq> 0 \<and> list_all (apart (p, n)) m \<and> linear_holds s' ((p, n) # m)"
    by (rule linear_alloc_ok)
next
  fix s m p n
  assume "linear_holds s m" "(p, n) \<in> set m"
  then show "\<exists>s' u. linear_free s p n = (s', Inr u) \<and> linear_holds s' (remove1 (p, n) m)"
    using linear_free_ok by blast
qed

section \<open>At the 32-bit limit\<close>

lemma new_chunk_wraps: "2 ^ 32 - 16 < k \<Longrightarrow> k \<le> UINT32_MAX \<Longrightarrow> c_size (new_chunk base k) = 0"
proof -
  assume k: "2 ^ 32 - 16 < k" "k \<le> UINT32_MAX"
  then have "(k + 15) mod 2 ^ 32 = k + 15 - 2 ^ 32" by (subst le_mod_geq) (simp_all add: UINT32_MAX_def)
  moreover have "k + 15 - 2 ^ 32 < 16" using k by (simp add: UINT32_MAX_def)
  ultimately show ?thesis by (simp add: new_chunk_def Let_def)
qed

lemma linear_grow_max: "linear_grow l x \<le> UINT32_MAX"
  by (simp add: linear_grow_def)

definition wrapping_size :: "nat \<Rightarrow> bool" where
  "wrapping_size s \<longleftrightarrow> 2 ^ 32 - 16 < s \<and> s \<le> UINT32_MAX"

lemma wrapping_chunk: "wrapping_size s \<Longrightarrow> c_size (new_chunk base (max (linear_grow l x) s)) = 0"
  unfolding wrapping_size_def using linear_grow_max[of l x] by (intro new_chunk_wraps) auto

lemma linear_loop_diverges:
  assumes "linear_loop os i l s = Some r"
  shows "wrapping_size s \<longrightarrow> (\<forall>ch rest. l_chunk l = ch # rest \<longrightarrow> c_offset ch + s \<le> c_size ch)"
proof (rule linear_loop.raw_induct[OF _ assms])
  fix loop os i l s r
  assume IH: "\<And>os i l s y. loop os i l s = Some y \<Longrightarrow>
      wrapping_size s \<longrightarrow> (\<forall>ch rest. l_chunk l = ch # rest \<longrightarrow> c_offset ch + s \<le> c_size ch)"
    and run: "(case l_chunk l of [] \<Rightarrow> None | ch # rest \<Rightarrow>
     (case chunk_allocate ch s of
        None \<Rightarrow> loop os (i + 1) (l\<lparr>l_chunk := new_chunk (os i) (max (linear_grow l (c_size ch)) s) # ch # rest\<rparr>) s
      | Some (ch', res) \<Rightarrow> Some (l\<lparr>l_chunk := ch' # rest\<rparr>, res))) = Some r"
  show "wrapping_size s \<longrightarrow> (\<forall>ch rest. l_chunk l = ch # rest \<longrightarrow> c_offset ch + s \<le> c_size ch)"
  proof (intro impI allI, rule ccontr)
    fix ch rest
    assume w: "wrapping_size s" and ch: "l_chunk l = ch # rest" and full: "\<not> c_offset ch + s \<le> c_size ch"
    from full have "chunk_allocate ch s = None" by (simp add: chunk_allocate_def)
    with run ch have "loop os (i + 1) (l\<lparr>l_chunk := new_chunk (os i) (max (linear_grow l (c_size ch)) s) # ch # rest\<rparr>) s = Some r"
      by simp
    from IH[OF this] w have "s \<le> c_size (new_chunk (os i) (max (linear_grow l (c_size ch)) s))" by auto
    with w show False by (simp add: wrapping_chunk wrapping_size_def)
  qed
qed

text \<open>
  \<open>reset\<close> clamps the next initial size to \<open>UINT32_MAX\<close>, which the chunk's constructor rounds up to 0.
\<close>

lemma reset_size_wraps:
  assumes "l_chunk l = c1 # c2 # cs" "UINT32_MAX \<le> linear_bytesAllocated l"
  shows "l_initialSize (linear_reset l) = UINT32_MAX \<and> c_size (new_chunk base (l_initialSize (linear_reset l))) = 0"
proof -
  let ?b = "linear_bytesAllocated l"
  have "?b \<le> (?b + 1023) - (?b + 1023) mod 1024" using mod_less_divisor[of 1024 "?b + 1023"] by linarith
  then have "l_initialSize (linear_reset l) = UINT32_MAX" using assms by (simp add: linear_reset_def Let_def)
  then show ?thesis using new_chunk_wraps[of UINT32_MAX base] by (simp add: UINT32_MAX_def)
qed

section \<open>Properties\<close>

text \<open>C15: The linear allocator serves its client: whatever sequence of allocations and frees
  of held blocks it makes, while the requests and the grown chunk sizes stay at or below
  \<open>2^32 - 16\<close> and the system grants apart blocks, every call returns, every allocation
  returns a non-null block that overlaps none the client holds, and every block stays inside
  the used part of one chunk: a free of the most recent block of a chunk takes its bytes back,
  any other free leaves them in use.\<close>

theorem linear_serves_client:
  assumes "linear_holds l m" "client_ok linear_alloc_step linear_free linear_ready l m calls"
  shows "\<exists>l' m'. serve linear_alloc_step linear_free l m calls = Some (l', m') \<and> linear_holds l' m'"
  using linear.run_ok[OF assms] .

lemma linear_serves_client_witness:
  "\<exists>l'. serve linear_alloc_step linear_free new_linear [] [Alloc 65536 24, Alloc 0 100, Free 65568 100, Alloc 0 8] =
     Some (l', [(65568, 8), (65536, 24)]) \<and> linear_holds l' [(65568, 8), (65536, 24)]"
proof -
  let ?calls = "[Alloc 65536 24, Alloc 0 100, Free 65568 100, Alloc 0 8]"
  have 0: "linear_holds new_linear []"
    by (simp add: linear_holds_def linear_wf_def new_linear_def mask_ok_def disjoint_regions_def)
  have a: "align_up 15 24 = 32" "align_up 15 100 = 112" "align_up 15 8 = 16" by (simp_all add: align_up_eq mask_ok_def)
  let ?l = "\<lambda>x. new_linear\<lparr>l_initialSize := 65536, l_chunk := [\<lparr>c_data = 65536, c_size = 65536, c_offset = x\<rparr>]\<rparr>"
  have nc: "new_chunk 65536 65536 = \<lparr>c_data = 65536, c_size = 65536, c_offset = 0\<rparr>" by (simp add: new_chunk_def)
  have s1: "linear_alloc_step new_linear 65536 24 = (?l 32, Inr 65536)"
    by (simp add: linear_alloc_step_def linear_allocate_def new_linear_def a UINT32_MAX_def default_initial_size_def done_with_def
        linear_loop.simps nc chunk_allocate_def)
  have s2: "linear_alloc_step (?l 32) 0 100 = (?l 144, Inr 65568)"
    by (simp add: linear_alloc_step_def linear_allocate_def new_linear_def a UINT32_MAX_def done_with_def
        linear_loop.simps chunk_allocate_def)
  have s3: "linear_free (?l 144) 65568 100 = (?l 32, Inr ())"
    by (simp add: linear_free_def new_linear_def a chunk_isOwnPtr_def chunk_free_def done_with_def)
  have s4: "linear_alloc_step (?l 32) 0 8 = (?l 48, Inr 65568)"
    by (simp add: linear_alloc_step_def linear_allocate_def new_linear_def a UINT32_MAX_def done_with_def
        linear_loop.simps chunk_allocate_def)
  have ok: "client_ok linear_alloc_step linear_free linear_ready new_linear [] ?calls"
    using s1 s2 s3 s4 by (simp add: linear_ready_def linear_request_def new_linear_def a system_grants_def round16_def default_initial_size_def)
  have "serve linear_alloc_step linear_free new_linear [] ?calls = Some (?l 48, [(65568, 8), (65536, 24)])"
    using s1 s2 s3 s4 by simp
  with linear_serves_client[OF 0 ok] show ?thesis by auto
qed

text \<open>C40: A string of between \<open>2^32 - 15\<close> and \<open>2^32 - 4\<close> bytes never gets allocated and the
  call never returns: with the 4-byte alignment of the string heaps the size passes the check
  against \<open>UINT32_MAX\<close>, but rounding it up to 16 in the chunk's constructor wraps to an empty
  chunk, so the loop pushes empty chunks for ever.\<close>

theorem linear_string_allocate_diverges:
  assumes "l_alignMask l = 3" "2 ^ 32 - 15 \<le> n" "n \<le> 2 ^ 32 - 4"
    and "case l_chunk l of [] \<Rightarrow> l_initialSize l \<le> UINT32_MAX | ch # _ \<Rightarrow> c_size ch < c_offset ch + n"
  shows "linear_allocate os l n = None"
proof -
  let ?s = "align_up 3 n"
  have m: "mask_ok 3" "n < 2 ^ 63" using assms by (simp_all add: mask_ok_def)
  have s: "?s = (n + 3) div 4 * 4" using align_up_eq[OF m] by simp
  have s2: "n \<le> ?s" "?s \<le> UINT32_MAX" "2 ^ 32 - 16 < ?s" using assms(2,3) unfolding s by (simp_all add: UINT32_MAX_def)
  have w: "wrapping_size ?s" "0 < ?s" using s2 by (simp_all add: wrapping_size_def)
  have n0: "n \<noteq> 0" using assms(2) by auto
  show ?thesis
  proof (cases "l_chunk l")
    case Nil
    let ?l1 = "if l_initialSize l = 0 then l\<lparr>l_initialSize := default_initial_size\<rparr> else l"
    let ?k = "max (l_initialSize ?l1) ?s"
    have k: "?k \<le> UINT32_MAX" "2 ^ 32 - 16 < ?k" using assms(4) s2 Nil by (auto simp: default_initial_size_def UINT32_MAX_def)
    then have km: "?k mod 2 ^ 32 = ?k" by (intro mod_less) (simp add: UINT32_MAX_def)
    have "c_size (new_chunk (os 0) ?k) = 0" using k by (intro new_chunk_wraps)
    then have "linear_loop os 1 (?l1\<lparr>l_chunk := [new_chunk (os 0) ?k]\<rparr>) ?s \<noteq> Some r" for r
      using linear_loop_diverges[of os 1 "?l1\<lparr>l_chunk := [new_chunk (os 0) ?k]\<rparr>" ?s r] w by auto
    then have "linear_loop os 1 (?l1\<lparr>l_chunk := [new_chunk (os 0) ?k]\<rparr>) ?s = None" by (metis not_None_eq)
    then show ?thesis unfolding linear_allocate_def Let_def assms(1) using n0 s2 Nil km by simp
  next
    case (Cons ch rest)
    have "linear_loop os 0 l ?s \<noteq> Some r" for r
      using linear_loop_diverges[of os 0 l ?s r] w s2(1) assms(4) Cons by auto
    then have "linear_loop os 0 l ?s = None" by (metis not_None_eq)
    then show ?thesis unfolding linear_allocate_def Let_def assms(1) using n0 s2 Cons by simp
  qed
qed

lemma linear_string_allocate_diverges_witness:
  "linear_allocate (\<lambda>i. 16 * (i + 1)) (new_linear\<lparr>l_alignMask := 3\<rparr>) 4294967290 = None"
  by (rule linear_string_allocate_diverges) (simp_all add: new_linear_def)

end
