(* ===== verification/CallState.thy ===== *)
theory CallState
  imports Prelude
begin

text \<open>
  The call machinery of a context: \<open>StackAllocator\<close> (\<open>simulate/heap.h\<close>), the calls and block
  invocations of \<open>Context\<close> (\<open>simulate/simulate.h\<close>, \<open>simulate_nodes.h\<close>) and the exception
  handlers of \<open>simulate_exceptions.cpp\<close>, in the default build: stack walking on
  (\<open>DAS_ENABLE_STACK_WALK\<close>), exceptions by \<open>setjmp\<close>/\<open>longjmp\<close> (\<open>DAS_ENABLE_EXCEPTIONS\<close> 0).
  What a function or a block computes is an argument, the effect of evaluating its code.
  Pointers are \<open>int\<close>, 0 is null.
\<close>

type_synonym ptr = int

section \<open>The stack allocator\<close>

record stack_alloc =
  st_stack :: ptr
  st_evalTop :: ptr
  st_stackTop :: ptr
  st_stackSize :: nat

definition st_reset :: "stack_alloc \<Rightarrow> stack_alloc" where
  "st_reset st = st\<lparr>st_evalTop := st_stack st + int (st_stackSize st), st_stackTop := st_stack st + int (st_stackSize st)\<rparr>"

text \<open>\<open>mem\<close>: the block to use, the caller's or the one the system returns.\<close>

definition new_stack :: "nat \<Rightarrow> ptr \<Rightarrow> stack_alloc" where
  "new_stack sz mem = st_reset \<lparr>st_stack = (if sz \<noteq> 0 then mem else 0), st_evalTop = 0, st_stackTop = 0, st_stackSize = sz\<rparr>"

definition st_letGo :: "stack_alloc \<Rightarrow> stack_alloc" where
  "st_letGo st = st\<lparr>st_stack := 0\<rparr>"

definition st_copy :: "stack_alloc \<Rightarrow> stack_alloc \<Rightarrow> stack_alloc" where
  "st_copy st src = st\<lparr>st_stack := st_stack src, st_evalTop := st_evalTop src, st_stackTop := st_stackTop src,
     st_stackSize := st_stackSize src\<rparr>"

definition st_empty :: "stack_alloc \<Rightarrow> bool" where
  "st_empty st \<longleftrightarrow> st_stackTop st = st_stack st + int (st_stackSize st)"

text \<open>\<open>push\<close>: \<open>None\<close> when it returns false, otherwise the state and the watermark \<open>EP, SP\<close>.\<close>

definition st_push :: "stack_alloc \<Rightarrow> nat \<Rightarrow> (stack_alloc \<times> ptr \<times> ptr) option" where
  "st_push st sz =
    (if st_stackTop st - int sz < st_stack st then None
     else Some (st\<lparr>st_stackTop := st_stackTop st - int sz, st_evalTop := st_stackTop st - int sz\<rparr>, st_evalTop st, st_stackTop st))"

definition st_watermark :: "stack_alloc \<Rightarrow> ptr \<times> ptr" where
  "st_watermark st = (st_evalTop st, st_stackTop st)"

definition st_pop :: "stack_alloc \<Rightarrow> ptr \<Rightarrow> ptr \<Rightarrow> stack_alloc" where
  "st_pop st EP SP = st\<lparr>st_evalTop := EP, st_stackTop := SP\<rparr>"

definition st_invoke :: "stack_alloc \<Rightarrow> nat \<Rightarrow> stack_alloc \<times> ptr \<times> ptr" where
  "st_invoke st et = (st\<lparr>st_evalTop := st_stack st + int et\<rparr>, st_evalTop st, st_stackTop st)"

definition st_push_invoke :: "stack_alloc \<Rightarrow> nat \<Rightarrow> nat \<Rightarrow> (stack_alloc \<times> ptr \<times> ptr) option" where
  "st_push_invoke st sz et =
    (if st_stackTop st - int sz < st_stack st then None
     else Some (st\<lparr>st_stackTop := st_stackTop st - int sz, st_evalTop := st_stack st + int et\<rparr>, st_evalTop st, st_stackTop st))"

definition st_spi :: "stack_alloc \<Rightarrow> u32" where "st_spi st = of_int (st_evalTop st - st_stack st)"
definition st_api :: "stack_alloc \<Rightarrow> u32" where "st_api st = of_int (st_stackTop st - st_stack st)"
definition st_top :: "stack_alloc \<Rightarrow> ptr" where "st_top st = st_stack st + int (st_stackSize st)"
definition st_free_size :: "stack_alloc \<Rightarrow> u32" where "st_free_size st = of_int (st_stackTop st - st_stack st)"

definition st_is_stack_ptr :: "stack_alloc \<Rightarrow> ptr \<Rightarrow> bool" where
  "st_is_stack_ptr st p \<longleftrightarrow> st_stack st \<le> p \<and> p \<le> st_stack st + int (st_stackSize st)"

section \<open>The context\<close>

record prologue =
  p_block :: bool
  p_info :: ptr
  p_arguments :: ptr
  p_cmres :: ptr
  p_line :: ptr

definition sizeof_Prologue :: nat where "sizeof_Prologue = 32"

record sim_function =
  f_stackSize :: nat
  f_fastcall :: bool
  f_debugInfo :: ptr
  f_mangledName :: string

record block =
  b_self :: ptr
  b_stackOffset :: nat
  b_argumentsOffset :: nat
  b_functionArguments :: ptr

text \<open>
  \<open>c_throwBuf\<close>: a handler is installed. \<open>c_prologues\<close> and \<open>c_blockArguments\<close> are the parts of
  stack memory that the call machinery itself writes.
\<close>

record ctx =
  c_stack :: stack_alloc
  c_abiThisBlockArg :: ptr
  c_abiArg :: ptr
  c_abiCMRES :: ptr
  c_stopFlags :: u32
  c_fastCallDepth :: u32
  c_exception :: "string option"
  c_last_exception :: "string option"
  c_throwBuf :: bool
  c_prologues :: "ptr \<Rightarrow> prologue"
  c_blockArguments :: "ptr \<Rightarrow> ptr \<times> ptr"

type_synonym 'v code = "ctx \<Rightarrow> (ctx, 'v) step"

definition stopForBreak :: u32 where "stopForBreak = 1"
definition stopForReturn :: u32 where "stopForReturn = 2"
definition stopForContinue :: u32 where "stopForContinue = 4"

text \<open>
  \<open>throw_fatal_error\<close>: jump to the handler, or report and leave the process.
\<close>

definition throw_fatal_error :: "string \<Rightarrow> 'v code" where
  "throw_fatal_error msg c =
    (let c1 = c\<lparr>c_exception := Some (msg @ [CHR 0x0A])\<rparr>
     in (c1, Inl (if c_throwBuf c then ThrowError msg else VerifyFailed ''unhandled exception'')))"

section \<open>Calls\<close>

definition fill_prologue :: "ctx \<Rightarrow> ptr \<Rightarrow> prologue \<Rightarrow> ctx" where
  "fill_prologue c at p = c\<lparr>c_prologues := (c_prologues c)(at := p)\<rparr>"

definition call :: "sim_function \<Rightarrow> ptr \<Rightarrow> ptr \<Rightarrow> 'v code \<Rightarrow> 'v code" where
  "call fn args line body c =
    (case st_push (c_stack c) (f_stackSize fn) of
       None \<Rightarrow> throw_fatal_error (''stack overflow while calling '' @ f_mangledName fn) c
     | Some (st, EP, SP) \<Rightarrow>
         let aa = c_abiArg c;
             c1 = fill_prologue (c\<lparr>c_stack := st, c_abiArg := args\<rparr>) (st_evalTop st)
               \<lparr>p_block = False, p_info = f_debugInfo fn, p_arguments = args, p_cmres = 0, p_line = line\<rparr>
         in then_step (body c1) (\<lambda>c2 res.
           done_with (c2\<lparr>c_stopFlags := 0, c_abiArg := aa, c_stack := st_pop (c_stack c2) EP SP\<rparr>) res))"

definition callOrFastcall :: "sim_function \<Rightarrow> ptr \<Rightarrow> ptr \<Rightarrow> 'v code \<Rightarrow> 'v code" where
  "callOrFastcall fn args line body c =
    (if f_fastcall fn then
       if unat (c_fastCallDepth c) * sizeof_Prologue > unat (st_free_size (c_stack c))
       then throw_fatal_error (''stack overflow, fast call depth limit exceeded while calling '' @ f_mangledName fn) c
       else let aa = c_abiArg c; c1 = c\<lparr>c_fastCallDepth := c_fastCallDepth c + 1, c_abiArg := args\<rparr>
         in then_step (body c1) (\<lambda>c2 res.
           done_with (c2\<lparr>c_stopFlags := 0, c_abiArg := aa, c_fastCallDepth := c_fastCallDepth c2 - 1\<rparr>) res)
     else
       case st_push (c_stack c) (f_stackSize fn) of
         None \<Rightarrow> throw_fatal_error (''stack overflow while calling '' @ f_mangledName fn) c
       | Some (st, EP, SP) \<Rightarrow>
           let aa = c_abiArg c;
               c1 = fill_prologue (c\<lparr>c_stack := st, c_abiArg := args\<rparr>) (st_evalTop st)
                 \<lparr>p_block = False, p_info = f_debugInfo fn, p_arguments = args, p_cmres = 0, p_line = line\<rparr>
           in then_step (body c1) (\<lambda>c2 res.
             done_with (c2\<lparr>c_stopFlags := 0, c_abiArg := aa, c_stack := st_pop (c_stack c2) EP SP\<rparr>) res))"

definition callWithCopyOnReturn :: "sim_function \<Rightarrow> ptr \<Rightarrow> ptr \<Rightarrow> ptr \<Rightarrow> 'v code \<Rightarrow> 'v code" where
  "callWithCopyOnReturn fn args cmres line body c =
    (case st_push (c_stack c) (f_stackSize fn) of
       None \<Rightarrow> throw_fatal_error (''stack overflow while calling '' @ f_mangledName fn) c
     | Some (st, EP, SP) \<Rightarrow>
         let aa = c_abiArg c; acm = c_abiCMRES c;
             c1 = fill_prologue (c\<lparr>c_stack := st, c_abiArg := args, c_abiCMRES := cmres\<rparr>) (st_evalTop st)
               \<lparr>p_block = False, p_info = f_debugInfo fn, p_arguments = args, p_cmres = cmres, p_line = line\<rparr>
         in then_step (body c1) (\<lambda>c2 res.
           done_with (c2\<lparr>c_stopFlags := 0, c_abiArg := aa, c_abiCMRES := acm, c_stack := st_pop (c_stack c2) EP SP\<rparr>) res))"

text \<open>\<open>callEx\<close> runs \<open>when\<close> instead of the code; it saves \<open>cmres\<close>, not \<open>abiCMRES\<close>.\<close>

definition callEx :: "sim_function \<Rightarrow> ptr \<Rightarrow> ptr \<Rightarrow> ptr \<Rightarrow> 'v code \<Rightarrow> 'v code" where
  "callEx fn args cmres line when c =
    (case st_push (c_stack c) (f_stackSize fn) of
       None \<Rightarrow> throw_fatal_error (''stack overflow while calling '' @ f_mangledName fn) c
     | Some (st, EP, SP) \<Rightarrow>
         let aa = c_abiArg c; acm = cmres;
             c1 = fill_prologue (c\<lparr>c_stack := st, c_abiArg := args, c_abiCMRES := cmres\<rparr>) (st_evalTop st)
               \<lparr>p_block = False, p_info = f_debugInfo fn, p_arguments = args, p_cmres = cmres, p_line = line\<rparr>
         in then_step (when c1) (\<lambda>c2 res.
           done_with (c2\<lparr>c_stopFlags := 0, c_abiArg := aa, c_abiCMRES := acm, c_stack := st_pop (c_stack c2) EP SP\<rparr>) res))"

text \<open>
  \<open>SimNode_FastCall<argCount>::eval\<close>: the arguments are evaluated, by \<open>eval_args\<close>, into the
  local array at \<open>args\<close> after the depth is counted up.
\<close>

definition FastCall_eval :: "sim_function \<Rightarrow> unit code \<Rightarrow> ptr \<Rightarrow> 'v code \<Rightarrow> 'v code" where
  "FastCall_eval fn eval_args args body c =
    (if unat (c_fastCallDepth c) * sizeof_Prologue > unat (st_free_size (c_stack c))
     then throw_fatal_error (''stack overflow, fast call depth limit exceeded while calling '' @ f_mangledName fn) c
     else then_step (eval_args (c\<lparr>c_fastCallDepth := c_fastCallDepth c + 1\<rparr>)) (\<lambda>c1 _.
       let aa = c_abiArg c1; c2 = c1\<lparr>c_abiArg := args\<rparr>
       in then_step (body c2) (\<lambda>c3 res.
         done_with (c3\<lparr>c_stopFlags := c_stopFlags c3 AND NOT (stopForReturn OR stopForBreak OR stopForContinue),
           c_abiArg := aa, c_fastCallDepth := c_fastCallDepth c3 - 1\<rparr>) res)))"

text \<open>\<open>SimNode_FastCall<-1>::eval\<close>: any number of arguments; the depth is neither counted nor checked.\<close>

definition FastCallN_eval :: "unit code \<Rightarrow> ptr \<Rightarrow> 'v code \<Rightarrow> 'v code" where
  "FastCallN_eval eval_args args body c =
    then_step (eval_args c) (\<lambda>c1 _.
      let aa = c_abiArg c1; c2 = c1\<lparr>c_abiArg := args\<rparr>
      in then_step (body c2) (\<lambda>c3 res.
        done_with (c3\<lparr>c_stopFlags := c_stopFlags c3 AND NOT (stopForReturn OR stopForBreak OR stopForContinue),
          c_abiArg := aa\<rparr>) res))"

definition invoke :: "block \<Rightarrow> ptr \<Rightarrow> ptr \<Rightarrow> ptr \<Rightarrow> 'v code \<Rightarrow> 'v code" where
  "invoke blk args cmres line body c =
    (let STB = st_stack (c_stack c) in
     case st_push_invoke (c_stack c) sizeof_Prologue (b_stackOffset blk) of
       None \<Rightarrow> throw_fatal_error ''stack overflow during invoke'' c
     | Some (st, EP, SP) \<Rightarrow>
         let c1 = fill_prologue (c\<lparr>c_stack := st\<rparr>) (st_stackTop st)
               \<lparr>p_block = True, p_info = b_self blk, p_arguments = args, p_cmres = cmres, p_line = line\<rparr>;
             save = b_argumentsOffset blk \<noteq> 0 \<or> cmres \<noteq> 0;
             ba = STB + int (b_argumentsOffset blk);
             saveArguments = c_blockArguments c1 ba;
             TBA = c_abiThisBlockArg c1;
             c2 = if save then c1\<lparr>c_blockArguments := (c_blockArguments c1)(ba := (args, cmres)), c_abiThisBlockArg := args\<rparr> else c1;
             saveFunctionArguments = c_abiArg c2
         in then_step (body (c2\<lparr>c_abiArg := b_functionArguments blk\<rparr>)) (\<lambda>c3 res.
           let c4 = c3\<lparr>c_abiArg := saveFunctionArguments\<rparr>;
               c5 = if save then c4\<lparr>c_blockArguments := (c_blockArguments c4)(ba := saveArguments), c_abiThisBlockArg := TBA\<rparr> else c4
           in done_with (c5\<lparr>c_stack := st_pop (c_stack c5) EP SP\<rparr>) res))"

text \<open>
  \<open>invokeEx\<close> evaluates the block's body through \<open>when\<close>; everything else is as in \<open>invoke\<close>,
  but for the message.
\<close>

definition invokeEx :: "block \<Rightarrow> ptr \<Rightarrow> ptr \<Rightarrow> ptr \<Rightarrow> 'v code \<Rightarrow> 'v code" where
  "invokeEx blk args cmres line when c =
    (case st_push_invoke (c_stack c) sizeof_Prologue (b_stackOffset blk) of
       None \<Rightarrow> throw_fatal_error ''stack overflow during invokeEx'' c
     | Some _ \<Rightarrow> invoke blk args cmres line when c)"

section \<open>Handlers\<close>

text \<open>\<open>evalWithCatch\<close> on a node, on a function, and \<open>runWithCatch\<close>: the value and whether it completed.\<close>

definition with_catch :: "'v code \<Rightarrow> ctx \<Rightarrow> (ctx, 'v option) step" where
  "with_catch body c =
    (let aa = c_abiArg c; acm = c_abiCMRES c; atba = c_abiThisBlockArg c; (EP, SP) = st_watermark (c_stack c); JB = c_throwBuf c in
     case body (c\<lparr>c_throwBuf := True\<rparr>) of
       (c1, Inr v) \<Rightarrow> done_with (c1\<lparr>c_throwBuf := JB\<rparr>) (Some v)
     | (c1, Inl (ThrowError _)) \<Rightarrow>
         done_with (c1\<lparr>c_abiArg := aa, c_abiCMRES := acm, c_abiThisBlockArg := atba, c_stack := st_pop (c_stack c1) EP SP, c_throwBuf := JB\<rparr>) None
     | (c1, Inl e) \<Rightarrow> (c1, Inl e))"

definition evalWithCatch_fn :: "sim_function \<Rightarrow> ptr \<Rightarrow> ptr \<Rightarrow> 'v code \<Rightarrow> ctx \<Rightarrow> (ctx, 'v option) step" where
  "evalWithCatch_fn fn args res body c = with_catch (callWithCopyOnReturn fn args res 0 body) c"

definition clearException :: "ctx \<Rightarrow> ctx" where
  "clearException c = c\<lparr>c_stopFlags := 0, c_exception := None, c_last_exception := None\<rparr>"

text \<open>\<open>restart\<close>, allowed outside every evaluation.\<close>

definition restart :: "ctx \<Rightarrow> ctx" where
  "restart c = c\<lparr>c_stopFlags := 0, c_fastCallDepth := 0, c_exception := None, c_last_exception := None\<rparr>"

definition runWithCatchAndClear :: "'v code \<Rightarrow> ctx \<Rightarrow> (ctx, bool) step" where
  "runWithCatchAndClear body c = then_step (with_catch body c) (\<lambda>c1 ok.
     if ok = None then done_with (clearException c1) False else done_with c1 True)"

text \<open>
  \<open>SimNode_TryCatch::eval\<close>. The process leaves on errors other than a panic.
\<close>

definition TryCatch_eval :: "'v code \<Rightarrow> 'v code \<Rightarrow> ctx \<Rightarrow> (ctx, unit) step" where
  "TryCatch_eval try_block catch_block c =
    (let aa = c_abiArg c; acm = c_abiCMRES c; (EP, SP) = st_watermark (c_stack c); JB = c_throwBuf c in
     case try_block (c\<lparr>c_throwBuf := True\<rparr>) of
       (c1, Inr v) \<Rightarrow> done_with (c1\<lparr>c_throwBuf := JB\<rparr>) ()
     | (c1, Inl (ThrowError _)) \<Rightarrow>
         let c2 = c1\<lparr>c_throwBuf := JB, c_abiArg := aa, c_abiCMRES := acm, c_stack := st_pop (c_stack c1) EP SP, c_stopFlags := 0,
               c_last_exception := c_exception c1, c_exception := None\<rparr>
         in then_step (catch_block c2) (\<lambda>c3 _. done_with (c3\<lparr>c_throwBuf := JB\<rparr>) ())
     | (c1, Inl e) \<Rightarrow> (c1, Inl e))"

text \<open>\<open>builtin_try_recover\<close>: the two blocks invoked without arguments.\<close>

definition builtin_try_recover :: "block \<Rightarrow> 'v code \<Rightarrow> block \<Rightarrow> 'v code \<Rightarrow> ptr \<Rightarrow> ctx \<Rightarrow> (ctx, unit) step" where
  "builtin_try_recover try_blk try_body catch_blk catch_body at =
    TryCatch_eval (invoke try_blk 0 0 at try_body) (invoke catch_blk 0 0 at catch_body)"

text \<open>
  \<open>das_try_recover\<close>, the version for compiled code: \<open>catch_block\<close> runs while \<open>throwBuf\<close> still
  is the handler's own buffer, so a panic inside it jumps back to the same \<open>setjmp\<close>, which
  runs \<open>catch_block\<close> again. \<open>None\<close>: it does not return.
\<close>

partial_function (option) recover_loop :: "(ctx \<Rightarrow> (ctx, unit) step) \<Rightarrow> ctx \<Rightarrow> (ctx, unit) step option" where
  "recover_loop catch_block c = (case catch_block c of
     (c1, Inl (ThrowError _)) \<Rightarrow> recover_loop catch_block c1
   | r \<Rightarrow> Some r)"

definition das_try_recover :: "(ctx \<Rightarrow> (ctx, unit) step) \<Rightarrow> (ctx \<Rightarrow> (ctx, unit) step) \<Rightarrow> ctx \<Rightarrow> (ctx, unit) step option" where
  "das_try_recover try_block catch_block c =
    (let aa = c_abiArg c; acm = c_abiCMRES c; (EP, SP) = st_watermark (c_stack c); JB = c_throwBuf c in
     case try_block (c\<lparr>c_throwBuf := True\<rparr>) of
       (c1, Inr v) \<Rightarrow> Some (done_with (c1\<lparr>c_throwBuf := JB\<rparr>) ())
     | (c1, Inl (ThrowError _)) \<Rightarrow> map_option (\<lambda>r. then_step r (\<lambda>c2 _.
           done_with (c2\<lparr>c_throwBuf := JB, c_abiArg := aa, c_abiCMRES := acm, c_stack := st_pop (c_stack c2) EP SP, c_stopFlags := 0,
             c_last_exception := c_exception c2, c_exception := None\<rparr>) ())) (recover_loop catch_block c1)
     | (c1, Inl e) \<Rightarrow> Some (c1, Inl e))"

end
