(* ===== verification/CallStateProps.thy ===== *)
theory CallStateProps
  imports CallState
begin

text \<open>
  What the call machinery keeps: programs as trees of calls, block invocations, panics and
  handlers, run by the operations of \<open>CallState\<close>.
\<close>

section \<open>Programs over the call machinery\<close>

datatype act =
    Panic string
  | DoCall sim_function ptr ptr "act list"
  | DoCallOrFast sim_function ptr ptr "act list"
  | DoFastCall sim_function "act list" ptr "act list"
  | DoFastCallN "act list" ptr "act list"
  | DoCallCopy sim_function ptr ptr ptr "act list"
  | DoInvoke block ptr ptr ptr "act list"
  | DoInvokeEx block ptr ptr ptr "act list"
  | TryCatch "act list" "act list"
  | TryRecover block "act list" block "act list" ptr
  | RunWithCatch "act list"

fun run_all :: "unit code list \<Rightarrow> unit code" where
  "run_all [] c = done_with c ()"
| "run_all (f # fs) c = then_step (f c) (\<lambda>c' _. run_all fs c')"

fun exec :: "act \<Rightarrow> unit code" where
  "exec (Panic msg) = throw_fatal_error msg"
| "exec (DoCall fn args line as) = call fn args line (run_all (map exec as))"
| "exec (DoCallOrFast fn args line as) = callOrFastcall fn args line (run_all (map exec as))"
| "exec (DoFastCall fn pre args as) = FastCall_eval fn (run_all (map exec pre)) args (run_all (map exec as))"
| "exec (DoFastCallN pre args as) = FastCallN_eval (run_all (map exec pre)) args (run_all (map exec as))"
| "exec (DoCallCopy fn args cmres line as) = callWithCopyOnReturn fn args cmres line (run_all (map exec as))"
| "exec (DoInvoke blk args cmres line as) = invoke blk args cmres line (run_all (map exec as))"
| "exec (DoInvokeEx blk args cmres line as) = invokeEx blk args cmres line (run_all (map exec as))"
| "exec (TryCatch as bs) = TryCatch_eval (run_all (map exec as)) (run_all (map exec bs))"
| "exec (TryRecover b1 as b2 bs at) = builtin_try_recover b1 (run_all (map exec as)) b2 (run_all (map exec bs)) at"
| "exec (RunWithCatch as) = (\<lambda>c. then_step (with_catch (run_all (map exec as)) c) (\<lambda>c' _. done_with c' ()))"

definition exec_all :: "act list \<Rightarrow> unit code" where
  "exec_all as = run_all (map exec as)"

text \<open>Every frame has room for its prologue, as the compiler's allocation of stack slots starts at \<open>sizeof(Prologue)\<close>.\<close>

fun frames_fit :: "act \<Rightarrow> bool" where
  "frames_fit (Panic _) = True"
| "frames_fit (DoCall fn _ _ as) = (sizeof_Prologue \<le> f_stackSize fn \<and> list_all frames_fit as)"
| "frames_fit (DoCallOrFast fn _ _ as) = (sizeof_Prologue \<le> f_stackSize fn \<and> list_all frames_fit as)"
| "frames_fit (DoFastCall _ pre _ as) = (list_all frames_fit pre \<and> list_all frames_fit as)"
| "frames_fit (DoFastCallN pre _ as) = (list_all frames_fit pre \<and> list_all frames_fit as)"
| "frames_fit (DoCallCopy fn _ _ _ as) = (sizeof_Prologue \<le> f_stackSize fn \<and> list_all frames_fit as)"
| "frames_fit (DoInvoke _ _ _ _ as) = list_all frames_fit as"
| "frames_fit (DoInvokeEx _ _ _ _ as) = list_all frames_fit as"
| "frames_fit (TryCatch as bs) = (list_all frames_fit as \<and> list_all frames_fit bs)"
| "frames_fit (TryRecover _ as _ bs _) = (list_all frames_fit as \<and> list_all frames_fit bs)"
| "frames_fit (RunWithCatch as) = list_all frames_fit as"

fun no_handlers :: "act \<Rightarrow> bool" where
  "no_handlers (Panic _) = True"
| "no_handlers (DoCall _ _ _ as) = list_all no_handlers as"
| "no_handlers (DoCallOrFast _ _ _ as) = list_all no_handlers as"
| "no_handlers (DoFastCall _ pre _ as) = (list_all no_handlers pre \<and> list_all no_handlers as)"
| "no_handlers (DoFastCallN pre _ as) = (list_all no_handlers pre \<and> list_all no_handlers as)"
| "no_handlers (DoCallCopy _ _ _ _ as) = list_all no_handlers as"
| "no_handlers (DoInvoke _ _ _ _ as) = list_all no_handlers as"
| "no_handlers (DoInvokeEx _ _ _ _ as) = list_all no_handlers as"
| "no_handlers (TryCatch _ _) = False"
| "no_handlers (TryRecover _ _ _ _ _) = False"
| "no_handlers (RunWithCatch _) = False"

section \<open>What a code keeps\<close>

definition same_base :: "ctx \<Rightarrow> ctx \<Rightarrow> bool" where
  "same_base c c' \<longleftrightarrow> st_stack (c_stack c') = st_stack (c_stack c) \<and> st_stackSize (c_stack c') = st_stackSize (c_stack c)"

definition callers_kept :: "ctx \<Rightarrow> ctx \<Rightarrow> bool" where
  "callers_kept c c' \<longleftrightarrow> (\<forall>a. c_prologues c' a = c_prologues c a \<or>
     st_stack (c_stack c) \<le> a \<and> a + int sizeof_Prologue \<le> st_stackTop (c_stack c))"

definition same_frame :: "ctx \<Rightarrow> ctx \<Rightarrow> bool" where
  "same_frame c c' \<longleftrightarrow> c_stack c' = c_stack c \<and> c_abiArg c' = c_abiArg c \<and> c_abiCMRES c' = c_abiCMRES c"

definition same_rest :: "ctx \<Rightarrow> ctx \<Rightarrow> bool" where
  "same_rest c c' \<longleftrightarrow> c_abiThisBlockArg c' = c_abiThisBlockArg c \<and> c_fastCallDepth c' = c_fastCallDepth c \<and>
     c_blockArguments c' = c_blockArguments c \<and> c_exception c' = c_exception c \<and> c_last_exception c' = c_last_exception c"

text \<open>
  On every outcome the stack keeps its memory and the callers' prologues, the handler in force
  is the one of the entry unless the process left; on a normal return the frame is back.
\<close>

definition outcome :: "ctx \<Rightarrow> (ctx, 'v) step \<Rightarrow> bool" where
  "outcome c out \<longleftrightarrow> same_base c (fst out) \<and> callers_kept c (fst out) \<and>
     (case snd out of Inr _ \<Rightarrow> same_frame c (fst out) \<and> c_throwBuf (fst out) = c_throwBuf c
      | Inl (ThrowError m) \<Rightarrow> c_throwBuf c \<and> c_throwBuf (fst out) \<and> c_exception (fst out) = Some (m @ [CHR 0x0A])
      | Inl e \<Rightarrow> e = VerifyFailed ''unhandled exception'')"

definition keeps :: "'v code \<Rightarrow> bool" where
  "keeps f \<longleftrightarrow> (\<forall>c. outcome c (f c))"

definition entered :: "ctx \<Rightarrow> ctx \<Rightarrow> bool" where
  "entered c c1 \<longleftrightarrow> same_base c c1 \<and> callers_kept c c1 \<and> st_stackTop (c_stack c1) \<le> st_stackTop (c_stack c)"

definition leaves :: "ctx \<Rightarrow> ctx \<Rightarrow> ctx \<Rightarrow> bool" where
  "leaves c c2 c3 \<longleftrightarrow> c_prologues c3 = c_prologues c2 \<and> same_base c2 c3 \<and> same_frame c c3"

lemma callers_kept_trans:
  "entered c c1 \<Longrightarrow> callers_kept c1 c2 \<Longrightarrow> callers_kept c c2"
  by (simp add: entered_def callers_kept_def same_base_def) (metis order_trans)

lemma outcome_throw [intro]: "outcome c (throw_fatal_error msg c)"
  by (simp add: throw_fatal_error_def Let_def outcome_def same_base_def callers_kept_def)

lemma outcome_around:
  assumes body: "keeps body" and pre: "entered c c1" "c_throwBuf c1 = c_throwBuf c"
    and post: "\<And>c2. same_base c c2 \<Longrightarrow> same_frame c1 c2 \<Longrightarrow> c_throwBuf c2 = c_throwBuf c \<Longrightarrow>
      leaves c c2 (post c2) \<and> c_throwBuf (post c2) = c_throwBuf c"
  shows "outcome c (then_step (body c1) (\<lambda>c2 res. done_with (post c2) (g res)))"
proof -
  obtain c2 r where b: "body c1 = (c2, r)" by (cases "body c1")
  have o: "outcome c1 (c2, r)" using body unfolding keeps_def b[symmetric] by blast
  then have k: "same_base c c2" "callers_kept c c2"
    using pre callers_kept_trans[of c c1 c2] by (auto simp: outcome_def entered_def same_base_def)
  show ?thesis
  proof (cases r)
    case (Inl e)
    with o k pre(2) show ?thesis by (cases e) (simp_all add: b outcome_def)
  next
    case (Inr v)
    with o have "same_frame c1 c2" "c_throwBuf c2 = c_throwBuf c" using pre(2) by (simp_all add: outcome_def)
    with post[OF k(1)] k Inr show ?thesis
      by (auto simp: b outcome_def done_with_def leaves_def same_base_def callers_kept_def)
  qed
qed

lemma st_pop_sel [simp]: "st_stack (st_pop st EP SP) = st_stack st" "st_stackSize (st_pop st EP SP) = st_stackSize st"
  by (simp_all add: st_pop_def)

lemma st_push_Some:
  assumes "st_push st n = Some (st', EP, SP)"
  shows "st_stack st' = st_stack st" "st_stackSize st' = st_stackSize st" "st_evalTop st' = st_stackTop st'"
    "st_stackTop st' = st_stackTop st - int n" "st_stack st \<le> st_stackTop st'" "st_pop st' EP SP = st"
  using assms by (auto simp: st_push_def st_pop_def split: if_splits)

lemma st_push_invoke_Some:
  assumes "st_push_invoke st n et = Some (st', EP, SP)"
  shows "st_stack st' = st_stack st" "st_stackSize st' = st_stackSize st"
    "st_stackTop st' = st_stackTop st - int n" "st_stack st \<le> st_stackTop st'" "st_pop st' EP SP = st"
  using assms by (auto simp: st_push_invoke_def st_pop_def split: if_splits)

lemma entered_push:
  assumes "st_push (c_stack c) n = Some (st, EP, SP)" "sizeof_Prologue \<le> n" "c_stack c1 = st"
    "c_prologues c1 = (c_prologues c)(st_evalTop st := p)"
  shows "entered c c1"
  using st_push_Some[OF assms(1)] assms(2-4) by (simp add: entered_def same_base_def callers_kept_def)

lemma entered_push_invoke:
  assumes "st_push_invoke (c_stack c) sizeof_Prologue et = Some (st, EP, SP)" "c_stack c1 = st"
    "c_prologues c1 = (c_prologues c)(st_stackTop st := p)"
  shows "entered c c1"
  using st_push_invoke_Some[OF assms(1)] assms(2-3) by (simp add: entered_def same_base_def callers_kept_def)

lemma entered_refl: "c_stack c1 = c_stack c \<Longrightarrow> c_prologues c1 = c_prologues c \<Longrightarrow> entered c c1"
  by (simp add: entered_def same_base_def callers_kept_def)

section \<open>The operations keep it\<close>

lemma keeps_call: "keeps body \<Longrightarrow> sizeof_Prologue \<le> f_stackSize fn \<Longrightarrow> keeps (call fn args line body)"
  unfolding keeps_def[of "call fn args line body"] call_def Let_def
  by (auto split: option.splits prod.splits intro!: outcome_around entered_push
      simp: fill_prologue_def leaves_def same_base_def same_frame_def st_push_Some(6))

lemma keeps_callWithCopyOnReturn:
  "keeps body \<Longrightarrow> sizeof_Prologue \<le> f_stackSize fn \<Longrightarrow> keeps (callWithCopyOnReturn fn args cmres line body)"
  unfolding keeps_def[of "callWithCopyOnReturn fn args cmres line body"] callWithCopyOnReturn_def Let_def
  by (auto split: option.splits prod.splits intro!: outcome_around entered_push
      simp: fill_prologue_def leaves_def same_base_def same_frame_def st_push_Some(6))

lemma callOrFastcall_slow: "\<not> f_fastcall fn \<Longrightarrow> callOrFastcall fn args line body = call fn args line body"
  by (rule ext) (simp add: callOrFastcall_def call_def)

lemma keeps_callOrFastcall:
  assumes "keeps body" "sizeof_Prologue \<le> f_stackSize fn"
  shows "keeps (callOrFastcall fn args line body)"
proof (cases "f_fastcall fn")
  case True
  with assms(1) show ?thesis
    unfolding keeps_def[of "callOrFastcall fn args line body"] callOrFastcall_def Let_def
    by (auto intro!: outcome_around entered_refl simp: leaves_def same_base_def same_frame_def)
next
  case False
  with assms show ?thesis by (simp add: callOrFastcall_slow keeps_call)
qed

lemma keeps_seq:
  assumes f: "keeps f" and g: "keeps g"
  shows "keeps (\<lambda>c. then_step (f c) (\<lambda>c' _. g c'))"
  unfolding keeps_def
proof
  fix c
  obtain c1 r where b: "f c = (c1, r)" by force
  have o: "outcome c (c1, r)" using f unfolding keeps_def b[symmetric] by blast
  show "outcome c (then_step (f c) (\<lambda>c' _. g c'))"
  proof (cases r)
    case (Inl e)
    with o show ?thesis by (cases e) (simp_all add: b outcome_def)
  next
    case (Inr v)
    have o1: "outcome c1 (g c1)" using g by (simp add: keeps_def)
    have e: "entered c c1" "same_frame c c1" "c_throwBuf c1 = c_throwBuf c"
      using o Inr by (simp_all add: outcome_def entered_def same_frame_def)
    obtain c2 r2 where b2: "g c1 = (c2, r2)" by force
    have k: "same_base c c2" "callers_kept c c2"
      using o1 e callers_kept_trans[OF e(1), of c2] by (auto simp: b2 outcome_def entered_def same_base_def)
    show ?thesis
      using o1 e k unfolding b Inr then_step_done b2
      by (auto simp: outcome_def same_frame_def split: sum.splits das_error.splits)
  qed
qed

lemma outcome_depth: "outcome (c\<lparr>c_fastCallDepth := d\<rparr>) out \<longleftrightarrow> outcome c out"
  by (auto simp: outcome_def same_base_def callers_kept_def same_frame_def split: sum.splits das_error.splits)

lemma keeps_FastCall:
  assumes "keeps eval_args" "keeps body" shows "keeps (FastCall_eval fn eval_args args body)"
proof -
  let ?call = "\<lambda>c. then_step (body (c\<lparr>c_abiArg := args\<rparr>)) (\<lambda>c3 res.
    done_with (c3\<lparr>c_stopFlags := c_stopFlags c3 AND NOT (stopForReturn OR stopForBreak OR stopForContinue),
      c_abiArg := c_abiArg c, c_fastCallDepth := c_fastCallDepth c3 - 1\<rparr>) res)"
  have "keeps ?call" unfolding keeps_def
    using assms(2) by (auto intro!: outcome_around entered_refl simp: leaves_def same_base_def same_frame_def)
  with assms(1) have "keeps (\<lambda>c. then_step (eval_args c) (\<lambda>c' _. ?call c'))" by (rule keeps_seq)
  then have "outcome (c\<lparr>c_fastCallDepth := d\<rparr>) (then_step (eval_args (c\<lparr>c_fastCallDepth := d\<rparr>)) (\<lambda>c' _. ?call c'))" for c d
    unfolding keeps_def by blast
  then show ?thesis unfolding keeps_def FastCall_eval_def Let_def by (auto simp: outcome_depth)
qed

lemma keeps_FastCallN:
  assumes "keeps eval_args" "keeps body" shows "keeps (FastCallN_eval eval_args args body)"
proof -
  let ?call = "\<lambda>c. then_step (body (c\<lparr>c_abiArg := args\<rparr>)) (\<lambda>c3 res.
    done_with (c3\<lparr>c_stopFlags := c_stopFlags c3 AND NOT (stopForReturn OR stopForBreak OR stopForContinue),
      c_abiArg := c_abiArg c\<rparr>) res)"
  have "keeps ?call" unfolding keeps_def
    using assms(2) by (auto intro!: outcome_around entered_refl simp: leaves_def same_base_def same_frame_def)
  from keeps_seq[OF assms(1) this] show ?thesis by (simp add: FastCallN_eval_def Let_def keeps_def)
qed

lemma keeps_invoke: "keeps body \<Longrightarrow> keeps (invoke blk args cmres line body)"
  unfolding keeps_def[of "invoke blk args cmres line body"] invoke_def Let_def
  by (auto split: option.splits prod.splits intro!: outcome_around entered_push_invoke
      simp: fill_prologue_def leaves_def same_base_def same_frame_def st_push_invoke_Some(5))

lemma keeps_invokeEx: "keeps body \<Longrightarrow> keeps (invokeEx blk args cmres line body)"
  using keeps_invoke[of body blk args cmres line]
  by (auto simp: keeps_def invokeEx_def split: option.splits)

text \<open>A body run under a handler of its own.\<close>

lemma guarded:
  assumes "keeps body" "body (c\<lparr>c_throwBuf := True\<rparr>) = (c1, r)"
  shows "same_base c c1" "callers_kept c c1" "\<And>v. r = Inr v \<Longrightarrow> same_frame c c1"
    "\<And>m. r = Inl (ThrowError m) \<Longrightarrow> c_exception c1 = Some (m @ [CHR 0x0A])"
    "\<And>e. r = Inl e \<Longrightarrow> \<forall>m. e \<noteq> ThrowError m \<Longrightarrow> e = VerifyFailed ''unhandled exception''"
proof -
  have "outcome (c\<lparr>c_throwBuf := True\<rparr>) (c1, r)" using assms unfolding keeps_def by metis
  then have o: "same_base c c1" "callers_kept c c1" "case r of Inr _ \<Rightarrow> same_frame c c1 | Inl (ThrowError m) \<Rightarrow>
      c_exception c1 = Some (m @ [CHR 0x0A]) | Inl e \<Rightarrow> e = VerifyFailed ''unhandled exception''"
    by (auto simp: outcome_def same_base_def callers_kept_def same_frame_def split: sum.splits das_error.splits)
  then show "same_base c c1" "callers_kept c c1" "\<And>v. r = Inr v \<Longrightarrow> same_frame c c1"
    "\<And>m. r = Inl (ThrowError m) \<Longrightarrow> c_exception c1 = Some (m @ [CHR 0x0A])" by simp_all
  fix e assume "r = Inl e" "\<forall>m. e \<noteq> ThrowError m"
  with o(3) show "e = VerifyFailed ''unhandled exception''" by (cases e) auto
qed

lemma pop_watermark:
  "st_watermark st = (EP, SP) \<Longrightarrow> st_stack st1 = st_stack st \<Longrightarrow> st_stackSize st1 = st_stackSize st \<Longrightarrow> st_pop st1 EP SP = st"
  by (auto simp: st_watermark_def st_pop_def)

lemma outcome_unhandled:
  "same_base c c1 \<Longrightarrow> callers_kept c c1 \<Longrightarrow> outcome c (c1, Inl (VerifyFailed ''unhandled exception''))"
  by (simp add: outcome_def)

lemma keeps_with_catch: "keeps body \<Longrightarrow> keeps (with_catch body)"
  unfolding keeps_def[of "with_catch body"]
proof
  fix c :: ctx assume body: "keeps body"
  obtain EP SP where w: "st_watermark (c_stack c) = (EP, SP)" by force
  obtain c1 r where b: "body (c\<lparr>c_throwBuf := True\<rparr>) = (c1, r)" by force
  note g = guarded[OF body b]
  show "outcome c (with_catch body c)"
  proof (cases r)
    case (Inr v)
    with g(1,2) g(3)[OF Inr] show ?thesis
      by (auto simp: with_catch_def w b outcome_def done_with_def same_base_def callers_kept_def same_frame_def)
  next
    case (Inl e)
    show ?thesis
    proof (cases "\<exists>m. e = ThrowError m")
      case True
      with Inl g(1,2) pop_watermark[OF w, of "c_stack c1"] show ?thesis
        by (auto simp: with_catch_def w b outcome_def done_with_def same_base_def callers_kept_def same_frame_def)
    next
      case False
      then have "e = VerifyFailed ''unhandled exception''" using g(5)[OF Inl] by simp
      with g(1,2) Inl show ?thesis by (simp add: with_catch_def w b outcome_unhandled)
    qed
  qed
qed

text \<open>The state a \<open>catch_block\<close> starts from.\<close>

definition recovered :: "ctx \<Rightarrow> string \<Rightarrow> ctx \<Rightarrow> bool" where
  "recovered c msg c2 \<longleftrightarrow> same_frame c c2 \<and> callers_kept c c2 \<and> c_throwBuf c2 = c_throwBuf c \<and> c_stopFlags c2 = 0 \<and>
     c_exception c2 = None \<and> c_last_exception c2 = Some (msg @ [CHR 0x0A])"

lemma TryCatch_throw:
  assumes "keeps try_block" "try_block (c\<lparr>c_throwBuf := True\<rparr>) = (c1, Inl (ThrowError msg))"
  shows "\<exists>c2. recovered c msg c2 \<and> TryCatch_eval try_block catch_block c =
    then_step (catch_block c2) (\<lambda>c3 _. done_with (c3\<lparr>c_throwBuf := c_throwBuf c\<rparr>) ())"
proof -
  obtain EP SP where w: "st_watermark (c_stack c) = (EP, SP)" by force
  note g = guarded[OF assms]
  let ?c2 = "c1\<lparr>c_throwBuf := c_throwBuf c, c_abiArg := c_abiArg c, c_abiCMRES := c_abiCMRES c, c_stack := st_pop (c_stack c1) EP SP,
    c_stopFlags := 0, c_last_exception := c_exception c1, c_exception := None\<rparr>"
  have "recovered c msg ?c2"
    using g(1,2) g(4)[OF refl] pop_watermark[OF w, of "c_stack c1"]
    by (simp add: recovered_def same_frame_def callers_kept_def same_base_def)
  moreover have "TryCatch_eval try_block catch_block c =
    then_step (catch_block ?c2) (\<lambda>c3 _. done_with (c3\<lparr>c_throwBuf := c_throwBuf c\<rparr>) ())"
    by (simp add: TryCatch_eval_def w assms(2) Let_def)
  ultimately show ?thesis by (intro exI conjI)
qed

lemma recovered_entered: "recovered c msg c2 \<Longrightarrow> entered c c2 \<and> c_throwBuf c2 = c_throwBuf c"
  by (simp add: recovered_def entered_def same_base_def same_frame_def)

lemma keeps_TryCatch:
  assumes "keeps try_block" "keeps catch_block"
  shows "keeps (TryCatch_eval try_block catch_block)"
  unfolding keeps_def
proof
  fix c :: ctx
  obtain c1 r where b: "try_block (c\<lparr>c_throwBuf := True\<rparr>) = (c1, r)" by force
  note g = guarded[OF assms(1) b]
  show "outcome c (TryCatch_eval try_block catch_block c)"
  proof (cases r)
    case (Inr v)
    with g(1,2) g(3)[OF Inr] show ?thesis
      by (auto simp: TryCatch_eval_def b outcome_def done_with_def same_base_def callers_kept_def same_frame_def split: prod.splits)
  next
    case (Inl e)
    show ?thesis
    proof (cases "\<exists>m. e = ThrowError m")
      case True
      then obtain m where e: "e = ThrowError m" by blast
      obtain c2 where c2: "recovered c m c2" and eq: "TryCatch_eval try_block catch_block c =
          then_step (catch_block c2) (\<lambda>c3 _. done_with (c3\<lparr>c_throwBuf := c_throwBuf c\<rparr>) ())"
        using TryCatch_throw[OF assms(1)] b Inl e by metis
      show ?thesis unfolding eq
        by (rule outcome_around[OF assms(2), where post = "\<lambda>c3. c3\<lparr>c_throwBuf := c_throwBuf c\<rparr>" and g = "\<lambda>_. ()"])
          (use recovered_entered[OF c2] c2 in \<open>auto simp: leaves_def same_base_def same_frame_def recovered_def outcome_def\<close>)
    next
      case False
      then have "e = VerifyFailed ''unhandled exception''" using g(5)[OF Inl] by simp
      with g(1,2) Inl show ?thesis by (simp add: TryCatch_eval_def b outcome_unhandled split: prod.split)
    qed
  qed
qed

lemma keeps_TryRecover: "keeps b1 \<Longrightarrow> keeps b2 \<Longrightarrow> keeps (builtin_try_recover k1 b1 k2 b2 at)"
proof -
  assume "keeps b1" "keeps b2"
  then have "keeps (TryCatch_eval (invoke k1 0 0 at b1) (invoke k2 0 0 at b2))" by (intro keeps_TryCatch keeps_invoke)
  moreover have "builtin_try_recover k1 b1 k2 b2 at = TryCatch_eval (invoke k1 0 0 at b1) (invoke k2 0 0 at b2)"
    by (rule ext) (simp add: builtin_try_recover_def)
  ultimately show ?thesis by simp
qed

lemma keeps_after:
  assumes "keeps f"
  shows "keeps (\<lambda>c. then_step (f c) (\<lambda>c' r. done_with c' (g r)))"
  unfolding keeps_def
proof
  fix c
  obtain c1 r where b: "f c = (c1, r)" by force
  have "outcome c (c1, r)" using assms unfolding keeps_def b[symmetric] by blast
  then show "outcome c (then_step (f c) (\<lambda>c' r. done_with c' (g r)))"
    by (cases r) (auto simp: b outcome_def done_with_def split: das_error.splits)
qed

lemma keeps_run_all: "list_all keeps fs \<Longrightarrow> keeps (run_all fs)"
proof (induction fs)
  case Nil
  show ?case by (simp add: keeps_def outcome_def done_with_def same_base_def callers_kept_def same_frame_def)
next
  case (Cons f fs)
  then have f: "keeps f" and fs: "keeps (run_all fs)" by simp_all
  have "run_all (f # fs) = (\<lambda>c. then_step (f c) (\<lambda>c' _. run_all fs c'))" by (rule ext) simp
  with keeps_seq[OF f fs] show ?case by simp
qed

lemma keeps_exec: "frames_fit a \<Longrightarrow> keeps (exec a)"
proof (induction a rule: exec.induct)
  case (1 msg)
  then show ?case by (simp add: keeps_def outcome_throw)
qed (auto simp: list_all_iff
    intro!: keeps_call keeps_callOrFastcall keeps_FastCall keeps_FastCallN keeps_callWithCopyOnReturn keeps_invoke keeps_invokeEx
      keeps_TryCatch keeps_TryRecover keeps_after[OF keeps_with_catch] keeps_run_all)

lemma keeps_exec_all: "list_all frames_fit as \<Longrightarrow> keeps (exec_all as)"
  unfolding exec_all_def by (rule keeps_run_all) (auto simp: list_all_iff intro: keeps_exec)

section \<open>Programs without handlers\<close>

definition keeps_rest :: "'v code \<Rightarrow> bool" where
  "keeps_rest f \<longleftrightarrow> (\<forall>c c' v. f c = (c', Inr v) \<longrightarrow> same_rest c c')"

lemma keeps_restI: "(\<And>c c' v. f c = (c', Inr v) \<Longrightarrow> same_rest c c') \<Longrightarrow> keeps_rest f"
  by (simp add: keeps_rest_def)

lemma rest_around:
  assumes "keeps_rest body" "then_step (body c1) (\<lambda>c2 res. done_with (post c2) (g res)) = (c', Inr v)"
    "\<And>c2. same_rest c1 c2 \<Longrightarrow> same_rest c (post c2)"
  shows "same_rest c c'"
  using assms unfolding keeps_rest_def then_step_eq_Inr by (auto simp: done_with_def)

lemma throw_not_Inr [simp]: "throw_fatal_error msg c \<noteq> (c', Inr v)"
  by (simp add: throw_fatal_error_def)

lemma rest_call: "keeps_rest body \<Longrightarrow> keeps_rest (call fn args line body)"
  by (rule keeps_restI) (auto simp: call_def Let_def fill_prologue_def split: option.splits elim!: rest_around, (simp_all add: same_rest_def)?)

lemma rest_callWithCopyOnReturn: "keeps_rest body \<Longrightarrow> keeps_rest (callWithCopyOnReturn fn args cmres line body)"
  by (rule keeps_restI)
    (auto simp: callWithCopyOnReturn_def Let_def fill_prologue_def split: option.splits elim!: rest_around, (simp_all add: same_rest_def)?)

lemma rest_FastCall:
  assumes "keeps_rest eval_args" "keeps_rest body" shows "keeps_rest (FastCall_eval fn eval_args args body)"
proof (rule keeps_restI)
  fix c c' v assume "FastCall_eval fn eval_args args body c = (c', Inr v)"
  then obtain c1 u c3 where r: "eval_args (c\<lparr>c_fastCallDepth := c_fastCallDepth c + 1\<rparr>) = (c1, Inr u)"
    "body (c1\<lparr>c_abiArg := args\<rparr>) = (c3, Inr v)"
    "c' = c3\<lparr>c_stopFlags := c_stopFlags c3 AND NOT (stopForReturn OR stopForBreak OR stopForContinue),
      c_abiArg := c_abiArg c1, c_fastCallDepth := c_fastCallDepth c3 - 1\<rparr>"
    by (auto simp: FastCall_eval_def Let_def then_step_eq_Inr done_with_def split: if_splits)
  have "same_rest (c\<lparr>c_fastCallDepth := c_fastCallDepth c + 1\<rparr>) c1" "same_rest (c1\<lparr>c_abiArg := args\<rparr>) c3"
    using assms r(1,2) unfolding keeps_rest_def by blast+
  then show "same_rest c c'" by (simp add: r(3) same_rest_def)
qed

lemma rest_FastCallN:
  assumes "keeps_rest eval_args" "keeps_rest body" shows "keeps_rest (FastCallN_eval eval_args args body)"
proof (rule keeps_restI)
  fix c c' v assume "FastCallN_eval eval_args args body c = (c', Inr v)"
  then obtain c1 u c3 where r: "eval_args c = (c1, Inr u)" "body (c1\<lparr>c_abiArg := args\<rparr>) = (c3, Inr v)"
    "c' = c3\<lparr>c_stopFlags := c_stopFlags c3 AND NOT (stopForReturn OR stopForBreak OR stopForContinue), c_abiArg := c_abiArg c1\<rparr>"
    by (auto simp: FastCallN_eval_def Let_def then_step_eq_Inr done_with_def)
  have "same_rest c c1" "same_rest (c1\<lparr>c_abiArg := args\<rparr>) c3"
    using assms r(1,2) unfolding keeps_rest_def by blast+
  then show "same_rest c c'" by (simp add: r(3) same_rest_def)
qed

lemma rest_callOrFastcall: "keeps_rest body \<Longrightarrow> keeps_rest (callOrFastcall fn args line body)"
proof (cases "f_fastcall fn")
  case True
  assume "keeps_rest body"
  with True show ?thesis
    by (intro keeps_restI) (auto simp: callOrFastcall_def Let_def split: if_splits elim!: rest_around, (simp_all add: same_rest_def)?)
qed (simp add: callOrFastcall_slow rest_call)

lemma rest_invoke: "keeps_rest body \<Longrightarrow> keeps_rest (invoke blk args cmres line body)"
  by (rule keeps_restI)
    (auto simp: invoke_def Let_def fill_prologue_def split: option.splits elim!: rest_around, (simp_all add: same_rest_def)?)

lemma rest_invokeEx: "keeps_rest body \<Longrightarrow> keeps_rest (invokeEx blk args cmres line body)"
  using rest_invoke[of body blk args cmres line]
  by (auto simp: keeps_rest_def invokeEx_def split: option.splits)

lemma rest_run_all: "list_all keeps_rest fs \<Longrightarrow> keeps_rest (run_all fs)"
proof (induction fs)
  case Nil
  show ?case by (rule keeps_restI) (simp add: done_with_def same_rest_def)
next
  case (Cons f fs)
  then have k: "keeps_rest f" "keeps_rest (run_all fs)" by simp_all
  show ?case
  proof (rule keeps_restI)
    fix c c' v assume "run_all (f # fs) c = (c', Inr v)"
    then obtain c1 u where "f c = (c1, Inr u)" "run_all fs c1 = (c', Inr v)" by (auto simp: then_step_eq_Inr)
    with k have "same_rest c c1" "same_rest c1 c'" unfolding keeps_rest_def by blast+
    then show "same_rest c c'" by (simp add: same_rest_def)
  qed
qed

lemma rest_exec: "no_handlers a \<Longrightarrow> keeps_rest (exec a)"
proof (induction a rule: exec.induct)
  case (1 msg)
  then show ?case by (simp add: keeps_rest_def)
qed (auto simp: list_all_iff
    intro!: rest_call rest_callOrFastcall rest_FastCall rest_FastCallN rest_callWithCopyOnReturn rest_invoke rest_invokeEx rest_run_all)

lemma rest_exec_all: "list_all no_handlers as \<Longrightarrow> keeps_rest (exec_all as)"
  unfolding exec_all_def by (rule rest_run_all) (auto simp: list_all_iff intro: rest_exec)

section \<open>Properties\<close>

text \<open>C12: Whatever tree of calls, fast calls, block invocations, panics and handlers a program
  runs, when it returns the stack, \<open>abiArg\<close>, \<open>abiCMRES\<close> and the handler are those of the
  entry, and without handlers also \<open>abiThisBlockArg\<close>, \<open>fastCallDepth\<close>, the block arguments and
  the exceptions. On every outcome the prologues written lie below the entry's \<open>stackTop\<close> and
  inside the stack, so no caller's frame is overwritten. A panic surfaces only if a handler
  was installed; without one the process leaves.\<close>

theorem program_restores_context:
  assumes fit: "list_all frames_fit as" and run: "exec_all as c = (c', r)"
  shows "st_stack (c_stack c') = st_stack (c_stack c) \<and> st_stackSize (c_stack c') = st_stackSize (c_stack c) \<and>
    (\<forall>a. c_prologues c' a = c_prologues c a \<or> st_stack (c_stack c) \<le> a \<and> a + int sizeof_Prologue \<le> st_stackTop (c_stack c)) \<and>
    (case r of
        Inr _ \<Rightarrow> c_stack c' = c_stack c \<and> c_abiArg c' = c_abiArg c \<and> c_abiCMRES c' = c_abiCMRES c \<and> c_throwBuf c' = c_throwBuf c \<and>
          (list_all no_handlers as \<longrightarrow> c_abiThisBlockArg c' = c_abiThisBlockArg c \<and> c_fastCallDepth c' = c_fastCallDepth c \<and>
             c_blockArguments c' = c_blockArguments c \<and> c_exception c' = c_exception c \<and> c_last_exception c' = c_last_exception c)
      | Inl (ThrowError m) \<Rightarrow> c_throwBuf c \<and> c_exception c' = Some (m @ [CHR 0x0A])
      | Inl e \<Rightarrow> e = VerifyFailed ''unhandled exception'')"
proof -
  have "outcome c (c', r)" using keeps_exec_all[OF fit] unfolding keeps_def run[symmetric] by blast
  moreover have "same_rest c c'" if "list_all no_handlers as" "r = Inr v" for v
    using rest_exec_all[OF that(1)] run that(2) unfolding keeps_rest_def by blast
  ultimately show ?thesis
    by (auto simp: outcome_def same_base_def callers_kept_def same_frame_def same_rest_def split: sum.splits das_error.splits)
qed

definition demo_fn :: sim_function where
  "demo_fn = \<lparr>f_stackSize = 48, f_fastcall = False, f_debugInfo = 0, f_mangledName = ''f''\<rparr>"

definition demo_ctx :: ctx where
  "demo_ctx = \<lparr>c_stack = new_stack 256 4096, c_abiThisBlockArg = 0, c_abiArg = 0, c_abiCMRES = 0, c_stopFlags = 0,
     c_fastCallDepth = 0, c_exception = None, c_last_exception = None, c_throwBuf = False,
     c_prologues = (\<lambda>_. \<lparr>p_block = False, p_info = 0, p_arguments = 0, p_cmres = 0, p_line = 0\<rparr>), c_blockArguments = (\<lambda>_. (0, 0))\<rparr>"

lemma program_restores_context_witness:
  "let as = [DoCall demo_fn 64 0 [TryCatch [DoCall demo_fn 128 0 [Panic ''no'']] []]] in
    \<exists>c'. exec_all as demo_ctx = (c', Inr ()) \<and> c_stack c' = c_stack demo_ctx \<and> c_last_exception c' = Some (''no'' @ [CHR 0x0A])"
proof -
  let ?as = "[DoCall demo_fn 64 0 [TryCatch [DoCall demo_fn 128 0 [Panic ''no'']] []]]"
  obtain c' r where run: "exec_all ?as demo_ctx = (c', r)" by force
  have r: "r = Inr ()" "c_last_exception c' = Some (''no'' @ [CHR 0x0A])"
    using run by (auto simp: exec_all_def call_def demo_ctx_def demo_fn_def st_push_def new_stack_def st_reset_def fill_prologue_def
        TryCatch_eval_def st_watermark_def throw_fatal_error_def st_pop_def done_with_def Let_def)
  have "list_all frames_fit ?as" by (simp add: demo_fn_def sizeof_Prologue_def)
  from program_restores_context[OF this run] r run show ?thesis by simp
qed

text \<open>C19: A panic inside a \<open>try\<close> block, however deep, hands over to the \<open>recover\<close> block in the
  frame of the handler: same stack, \<open>abiArg\<close>, \<open>abiCMRES\<close> and outer handler, no stop flags, and
  the message moved to \<open>last_exception\<close>; the prologues of the handler's callers are untouched.
  The outcome is that of the \<open>recover\<close> block, a panic of its own going to the outer handler.\<close>

theorem recover_resumes_frame:
  assumes "list_all frames_fit as" "exec_all as (c\<lparr>c_throwBuf := True\<rparr>) = (c1, Inl (ThrowError msg))"
  shows "\<exists>c2. c_stack c2 = c_stack c \<and> c_abiArg c2 = c_abiArg c \<and> c_abiCMRES c2 = c_abiCMRES c \<and> c_throwBuf c2 = c_throwBuf c \<and>
    c_stopFlags c2 = 0 \<and> c_exception c2 = None \<and> c_last_exception c2 = Some (msg @ [CHR 0x0A]) \<and>
    (\<forall>a \<ge> st_stackTop (c_stack c). c_prologues c2 a = c_prologues c a) \<and>
    exec (TryCatch as bs) c = then_step (exec_all bs c2) (\<lambda>c3 _. done_with (c3\<lparr>c_throwBuf := c_throwBuf c\<rparr>) ())"
proof -
  obtain c2 where r: "recovered c msg c2" and
    e: "TryCatch_eval (exec_all as) (exec_all bs) c = then_step (exec_all bs c2) (\<lambda>c3 _. done_with (c3\<lparr>c_throwBuf := c_throwBuf c\<rparr>) ())"
    using TryCatch_throw[OF keeps_exec_all[OF assms(1)] assms(2)] by blast
  have "\<forall>a \<ge> st_stackTop (c_stack c). c_prologues c2 a = c_prologues c a"
    using r by (force simp: recovered_def callers_kept_def sizeof_Prologue_def)
  with r e show ?thesis by (intro exI[of _ c2]) (simp add: recovered_def same_frame_def exec_all_def)
qed

lemma recover_resumes_frame_witness:
  "\<exists>c2. c_stack c2 = new_stack 256 4096 \<and> c_last_exception c2 = Some (''no'' @ [CHR 0x0A]) \<and>
    exec (TryCatch [DoCall demo_fn 128 0 [Panic ''no'']] []) demo_ctx = (c2, Inr ())"
proof -
  let ?as = "[DoCall demo_fn 128 0 [Panic ''no'']]"
  have fit: "list_all frames_fit ?as" by (simp add: demo_fn_def sizeof_Prologue_def)
  have "\<exists>c1. exec_all ?as (demo_ctx\<lparr>c_throwBuf := True\<rparr>) = (c1, Inl (ThrowError ''no''))"
    by (auto simp: exec_all_def call_def demo_ctx_def demo_fn_def st_push_def new_stack_def st_reset_def fill_prologue_def
        throw_fatal_error_def Let_def)
  then obtain c1 where "exec_all ?as (demo_ctx\<lparr>c_throwBuf := True\<rparr>) = (c1, Inl (ThrowError ''no''))" ..
  from recover_resumes_frame[OF fit this, of "[]"] obtain c2 where c2: "c_stack c2 = c_stack demo_ctx"
    "c_last_exception c2 = Some (''no'' @ [CHR 0x0A])"
    "exec (TryCatch ?as []) demo_ctx = then_step (exec_all [] c2) (\<lambda>c3 _. done_with (c3\<lparr>c_throwBuf := c_throwBuf demo_ctx\<rparr>) ())"
    by blast
  have "c_stack demo_ctx = new_stack 256 4096" by (simp add: demo_ctx_def)
  with c2 show ?thesis
    by (intro exI[of _ "c2\<lparr>c_throwBuf := c_throwBuf demo_ctx\<rparr>"]) (simp add: exec_all_def done_with_def del: exec.simps)
qed

section \<open>What a handler does not restore\<close>

text \<open>A fast call that panics under a handler leaves \<open>fastCallDepth\<close> incremented.\<close>

definition leaking :: "sim_function \<Rightarrow> ptr \<Rightarrow> string \<Rightarrow> act" where
  "leaking fn args msg = TryCatch [DoFastCall fn [] args [Panic msg]] []"

lemma leaking_step:
  assumes "unat (c_fastCallDepth c) * sizeof_Prologue \<le> unat (st_free_size (c_stack c))"
  shows "\<exists>c'. exec (leaking fn args msg) c = (c', Inr ()) \<and> c_stack c' = c_stack c \<and> c_fastCallDepth c' = c_fastCallDepth c + 1"
  using assms
  by (auto simp: leaking_def TryCatch_eval_def FastCall_eval_def throw_fatal_error_def done_with_def st_watermark_def st_pop_def Let_def)

lemma leaking_run:
  assumes "(unat (c_fastCallDepth c) + n) * sizeof_Prologue \<le> unat (st_free_size (c_stack c)) + sizeof_Prologue" "0 < n"
  shows "\<exists>c'. exec_all (replicate n (leaking fn args msg)) c = (c', Inr ()) \<and> c_stack c' = c_stack c \<and>
    c_fastCallDepth c' = c_fastCallDepth c + of_nat n"
  using assms
proof (induction n arbitrary: c)
  case (Suc n)
  have le: "unat (c_fastCallDepth c) * sizeof_Prologue \<le> unat (st_free_size (c_stack c))"
    using Suc.prems by (simp add: sizeof_Prologue_def)
  from leaking_step[OF this] obtain c1 where c1: "exec (leaking fn args msg) c = (c1, Inr ())"
    "c_stack c1 = c_stack c" "c_fastCallDepth c1 = c_fastCallDepth c + 1" by blast
  have "unat (st_free_size (c_stack c)) < 2 ^ 32" using unsigned_less[of "st_free_size (c_stack c)", where 'a = nat] by simp
  show ?case
  proof (cases "n = 0")
    case True
    with c1 show ?thesis by (simp add: exec_all_def done_with_def)
  next
    case False
    have "unat (c_fastCallDepth c + 1) = unat (c_fastCallDepth c) + 1"
      using le \<open>unat (st_free_size (c_stack c)) < 2 ^ 32\<close> by (simp add: sizeof_Prologue_def unat_word_ariths)
    with Suc.IH[of c1] Suc.prems c1 False show ?thesis by (auto simp: exec_all_def algebra_simps)
  qed
qed simp

text \<open>C38: The leak adds up: after enough recovered panics inside fast calls, with nothing left
  running and the stack as it was, every fast call is refused as a stack overflow, although
  the same call was possible before; only \<open>restart\<close> clears it.\<close>

theorem recovered_fast_calls_overflow:
  assumes "c_fastCallDepth c = 0"
  shows "\<exists>n c'. exec_all (replicate n (leaking fn args msg)) c = (c', Inr ()) \<and> c_stack c' = c_stack c \<and>
    unat (c_fastCallDepth c) * sizeof_Prologue \<le> unat (st_free_size (c_stack c)) \<and>
    FastCall_eval fn' eval_args' args' body c' =
      throw_fatal_error (''stack overflow, fast call depth limit exceeded while calling '' @ f_mangledName fn') c' \<and>
    c_fastCallDepth (restart c') = 0"
proof -
  let ?f = "unat (st_free_size (c_stack c))"
  let ?n = "?f div sizeof_Prologue + 1"
  have f: "?f < 2 ^ 32" using unsigned_less[of "st_free_size (c_stack c)", where 'a = nat] by simp
  have "?f div sizeof_Prologue * sizeof_Prologue \<le> ?f" by simp
  then have "(unat (c_fastCallDepth c) + ?n) * sizeof_Prologue \<le> ?f + sizeof_Prologue" using assms by simp
  from leaking_run[OF this] obtain c' where c': "exec_all (replicate ?n (leaking fn args msg)) c = (c', Inr ())"
    "c_stack c' = c_stack c" "c_fastCallDepth c' = of_nat ?n" using assms by (metis add_0 zero_less_Suc add.commute plus_1_eq_Suc)
  have "unat (c_fastCallDepth c') = ?n"
  proof -
    have "?n < 2 ^ 32" using f by (simp add: sizeof_Prologue_def)
    then have "?n mod 2 ^ LENGTH(32) = ?n" by (intro mod_less) simp
    then show ?thesis unfolding c'(3) unat_of_nat .
  qed
  moreover have "?f < ?n * sizeof_Prologue" by (simp add: sizeof_Prologue_def)
  ultimately have "FastCall_eval fn' eval_args' args' body c' =
      throw_fatal_error (''stack overflow, fast call depth limit exceeded while calling '' @ f_mangledName fn') c'"
    using c'(2) by (simp add: FastCall_eval_def)
  with c' assms show ?thesis by (intro exI[of _ ?n] exI[of _ c']) (simp add: restart_def)
qed

lemma recovered_fast_calls_overflow_witness:
  "\<exists>n c'. exec_all (replicate n (leaking demo_fn 0 ''no'')) demo_ctx = (c', Inr ()) \<and>
    FastCall_eval demo_fn (exec_all []) 0 (exec_all []) c' =
      throw_fatal_error (''stack overflow, fast call depth limit exceeded while calling '' @ ''f'') c'"
proof -
  have "c_fastCallDepth demo_ctx = 0" by (simp add: demo_ctx_def)
  from recovered_fast_calls_overflow[OF this, of demo_fn 0 "''no''" demo_fn "exec_all []" 0 "exec_all []"] show ?thesis
    by (auto simp: demo_fn_def)
qed

lemma recover_loop_diverges:
  assumes "recover_loop f c = Some r"
  shows "f = exec_all [Panic m] \<longrightarrow> \<not> c_throwBuf c"
proof (rule recover_loop.raw_induct[OF _ assms])
  fix loop f c r
  assume IH: "\<And>f c r. loop f c = Some r \<Longrightarrow> f = exec_all [Panic m] \<longrightarrow> \<not> c_throwBuf c"
    and run: "(case f c of (c1, Inl (ThrowError _)) \<Rightarrow> loop f c1 | r \<Rightarrow> Some r) = Some r"
  show "f = exec_all [Panic m] \<longrightarrow> \<not> c_throwBuf c"
  proof (intro impI notI)
    assume f: "f = exec_all [Panic m]" and t: "c_throwBuf c"
    then have "loop f (c\<lparr>c_exception := Some (m @ [CHR 0x0A])\<rparr>) = Some r"
      using run by (simp add: exec_all_def throw_fatal_error_def Let_def)
    from IH[OF this] f t show False by simp
  qed
qed

text \<open>C39: A panic in the recover block of compiled code (\<open>das_try_recover\<close>) never leaves it: the
  handler installed for the \<open>try\<close> block still is the one in force, so the panic starts the
  recover block again, for ever. In the interpreter the same program hands the panic to the
  outer handler.\<close>

theorem compiled_recover_panic_diverges:
  assumes "list_all frames_fit as" "exec_all as (c\<lparr>c_throwBuf := True\<rparr>) = (c1, Inl (ThrowError m))" "c_throwBuf c"
  shows "das_try_recover (exec_all as) (exec_all [Panic m2]) c = None \<and>
    (\<exists>c2. TryCatch_eval (exec_all as) (exec_all [Panic m2]) c = (c2, Inl (ThrowError m2)) \<and> c_stack c2 = c_stack c)"
proof -
  let ?catch = "exec_all [Panic m2]"
  have o: "outcome (c\<lparr>c_throwBuf := True\<rparr>) (c1, Inl (ThrowError m) :: das_error + unit)"
    using keeps_exec_all[OF assms(1)] unfolding keeps_def assms(2)[symmetric] by blast
  then have "c_throwBuf c1" by (simp add: outcome_def)
  with recover_loop_diverges[of ?catch c1 _ m2] have "recover_loop ?catch c1 = None" by (cases "recover_loop ?catch c1") auto
  with assms(2) have d: "das_try_recover (exec_all as) ?catch c = None" by (simp add: das_try_recover_def split: prod.split)
  obtain c2 where c2: "recovered c m c2" "TryCatch_eval (exec_all as) ?catch c =
      then_step (?catch c2) (\<lambda>c3 _. done_with (c3\<lparr>c_throwBuf := c_throwBuf c\<rparr>) ())"
    using TryCatch_throw[OF keeps_exec_all[OF assms(1)] assms(2)] by blast
  from c2(1) have "c_throwBuf c2" "c_stack c2 = c_stack c" using assms(3) by (simp_all add: recovered_def same_frame_def)
  with c2(2) d show ?thesis by (simp add: exec_all_def throw_fatal_error_def Let_def)
qed

lemma compiled_recover_panic_diverges_witness:
  "das_try_recover (exec_all [Panic ''a'']) (exec_all [Panic ''b'']) (demo_ctx\<lparr>c_throwBuf := True\<rparr>) = None"
proof -
  have "\<exists>c1. exec_all [Panic ''a''] (demo_ctx\<lparr>c_throwBuf := True\<rparr>\<lparr>c_throwBuf := True\<rparr>) = (c1, Inl (ThrowError ''a''))"
    by (simp add: exec_all_def throw_fatal_error_def Let_def)
  then obtain c1 where c1: "exec_all [Panic ''a''] (demo_ctx\<lparr>c_throwBuf := True\<rparr>\<lparr>c_throwBuf := True\<rparr>) = (c1, Inl (ThrowError ''a''))" ..
  show ?thesis using compiled_recover_panic_diverges[OF _ c1, of "''b''"] by simp
qed

section \<open>\<open>callEx\<close>\<close>

lemma callEx_abiCMRES:
  "callEx fn args cmres line when c = (c', Inr v) \<Longrightarrow> c_abiCMRES c' = cmres"
  by (auto simp: callEx_def throw_fatal_error_def then_step_eq_Inr done_with_def Let_def split: option.splits)

end
