(* ===== verification/TypeModel.thy ===== *)
theory TypeModel
  imports DasType
begin

text \<open>
  The compiler's types: \<open>TypeDecl\<close> (\<open>ast/ast_typedecl.h\<close>), the structures it refers to and
  what it asks of a handled type's annotation. A \<open>TypeDecl\<close> owns its component types, so it is
  a tree; structures, enumerations and annotations are shared and named by their index in the
  environment. The members \<open>fixedDimExpr\<close> and \<open>typeMacroExpr\<close> (expressions), \<open>at\<close> (the source
  location) and \<open>module\<close> are left out. The functions modelled here do not look at the contents of these, but for the
  text of a macro type, which is a parameter of \<open>getMangledName\<close>.
\<close>

record td_flags =
  f_ref :: bool
  f_constant :: bool
  f_temporary :: bool
  f_implicit :: bool
  f_removeRef :: bool
  f_removeConstant :: bool
  f_removeDim :: bool
  f_removeTemporary :: bool
  f_explicitConst :: bool
  f_aotAlias :: bool
  f_smartPtr :: bool
  f_smartPtrNative :: bool
  f_isExplicit :: bool
  f_isNativeDim :: bool
  f_isTag :: bool
  f_explicitRef :: bool
  f_isPrivateAlias :: bool
  f_autoToAlias :: bool
  f_safeWhenUninitialized :: bool
  f_enumStubBinding :: bool
  f_enumStubIsUnsigned :: bool
  f_aliasCacheValid :: bool
  f_aliasCacheHasAlias :: bool

datatype type_decl = TypeDecl
  (baseType: das_type)
  (structType: "nat option")
  (enumType: "nat option")
  (annotation: "nat option")
  (firstType: "type_decl option")
  (secondType: "type_decl option")
  (argTypes: "type_decl list")
  (argNames: "string list")
  (fixedDim: int)
  (flags: td_flags)
  (td_alias: string)

abbreviation "dimAuto \<equiv> (-1 :: int)"
abbreviation "dimConst \<equiv> (-2 :: int)"

definition no_flags :: td_flags where
  "no_flags = \<lparr>f_ref = False, f_constant = False, f_temporary = False, f_implicit = False, f_removeRef = False,
     f_removeConstant = False, f_removeDim = False, f_removeTemporary = False, f_explicitConst = False, f_aotAlias = False,
     f_smartPtr = False, f_smartPtrNative = False, f_isExplicit = False, f_isNativeDim = False, f_isTag = False,
     f_explicitRef = False, f_isPrivateAlias = False, f_autoToAlias = False, f_safeWhenUninitialized = False,
     f_enumStubBinding = False, f_enumStubIsUnsigned = False, f_aliasCacheValid = False, f_aliasCacheHasAlias = False\<rparr>"

text \<open>\<open>TypeDecl(Type tt)\<close> and \<open>TypeDecl(Structure * sp)\<close>.\<close>

definition new_type :: "das_type \<Rightarrow> type_decl" where
  "new_type tt = TypeDecl tt None None None None None [] [] 0 no_flags ''''"

definition new_struct_type :: "nat \<Rightarrow> type_decl" where
  "new_struct_type s = TypeDecl tStructure (Some s) None None None None [] [] 0 no_flags ''''"

fun opt_list :: "'a option \<Rightarrow> 'a list" where
  "opt_list None = []"
| "opt_list (Some x) = [x]"

lemma set_opt_list [simp]: "x \<in> set (opt_list o') \<longleftrightarrow> o' = Some x"
  by (cases o') auto

lemma argTypes_size [termination_simp]: "u \<in> set (argTypes t) \<Longrightarrow> size u < size t"
  by (cases t) (auto simp: less_Suc_eq_le trans_le_add2 trans_le_add1 dest!: size_list_estimation'[where f = size, OF _ order_refl])

lemma firstType_size [termination_simp]: "firstType t = Some u \<Longrightarrow> size u < size t"
  by (cases t) auto

lemma secondType_size [termination_simp]: "secondType t = Some u \<Longrightarrow> size u < size t"
  by (cases t) auto

lemma type_size_pos: "0 < size (t::type_decl)"
  by (cases t) simp

lemmas parts_size = argTypes_size firstType_size secondType_size type_size_pos

section \<open>The environment\<close>

text \<open>The results of the virtual methods of a \<open>TypeAnnotation\<close>; some take the set of visited things.\<close>

type_synonym visited = "(nat + nat) set"

record ann_decl =
  an_isRefType :: bool
  an_canMove :: bool
  an_canCopy :: bool
  an_canClone :: bool
  an_isPod :: bool
  an_isRawPod :: bool
  an_hasNonTrivialCtor :: bool
  an_hasNonTrivialDtor :: bool
  an_hasNonTrivialCopy :: bool
  an_canBePlacedInContainer :: bool
  an_isLocal :: bool
  an_needInScope :: bool
  an_canNew :: bool
  an_canDelete :: bool
  an_needDelete :: bool
  an_canDeletePtr :: bool
  an_isShareable :: bool
  an_canSubstitute :: "nat \<Rightarrow> bool"
  an_canBeSubstituted :: "nat \<Rightarrow> bool"
  an_sizeOf :: nat
  an_alignOf :: nat
  an_hasStringData :: "visited \<Rightarrow> bool \<times> visited"
  an_canAot :: "nat set \<Rightarrow> bool \<times> nat set"

record field_decl =
  fd_name :: string
  fd_type :: type_decl
  fd_init :: bool
  fd_do_not_delete :: bool

record struct_decl =
  sd_name :: string
  sd_fields :: "field_decl list"
  sd_parent :: "nat option"
  sd_isClass :: bool
  sd_circular :: bool
  sd_safeWhenUninitialized :: bool
  sd_hasDefaultInitializer :: bool
  sd_cppLayout :: bool
  sd_cppLayoutNotPod :: bool

record env =
  e_structs :: "struct_decl list"
  e_anns :: "nat \<Rightarrow> ann_decl"
  e_enums :: "nat \<Rightarrow> das_type"

definition struct_of :: "env \<Rightarrow> nat \<Rightarrow> struct_decl" where
  "struct_of E s = e_structs E ! s"

definition ann_of :: "env \<Rightarrow> type_decl \<Rightarrow> ann_decl" where
  "ann_of E t = e_anns E (the (annotation t))"

definition field_types :: "env \<Rightarrow> nat \<Rightarrow> type_decl list" where
  "field_types E s = map fd_type (sd_fields (struct_of E s))"

end
