(* ===== verification/TypeClasses.thy ===== *)
theory TypeClasses
  imports TypeModel
begin

text \<open>
  The classifications of a type that look at its base type only (\<open>ast_typedecl.h\<close> inlines and
  \<open>ast_typedecl.cpp\<close>), vector types and swizzle masks. Assertions are off: a query outside
  its domain returns what the code falls through to.
\<close>

section \<open>Kinds\<close>

definition isRange :: "type_decl \<Rightarrow> bool" where
  "isRange t \<longleftrightarrow> baseType t = tRange \<or> baseType t = tURange \<or> baseType t = tRange64 \<or> baseType t = tURange64"

definition isString :: "type_decl \<Rightarrow> bool" where "isString t \<longleftrightarrow> baseType t = tString"
definition isArray :: "type_decl \<Rightarrow> bool" where "isArray t \<longleftrightarrow> baseType t = tFixedArray"
definition isFixedArray :: "type_decl \<Rightarrow> bool" where "isFixedArray t \<longleftrightarrow> baseType t = tFixedArray"
definition isHandle :: "type_decl \<Rightarrow> bool" where "isHandle t \<longleftrightarrow> baseType t = tHandle"
definition isStructure :: "type_decl \<Rightarrow> bool" where "isStructure t \<longleftrightarrow> baseType t = tStructure"
definition isTuple :: "type_decl \<Rightarrow> bool" where "isTuple t \<longleftrightarrow> baseType t = tTuple"
definition isFunction :: "type_decl \<Rightarrow> bool" where "isFunction t \<longleftrightarrow> baseType t = tFunction"
definition isVariant :: "type_decl \<Rightarrow> bool" where "isVariant t \<longleftrightarrow> baseType t = tVariant"
definition isVoid :: "type_decl \<Rightarrow> bool" where "isVoid t \<longleftrightarrow> baseType t = tVoid"
definition isPointer :: "type_decl \<Rightarrow> bool" where "isPointer t \<longleftrightarrow> baseType t = tPointer"
definition isIterator :: "type_decl \<Rightarrow> bool" where "isIterator t \<longleftrightarrow> baseType t = tIterator"
definition isLambda :: "type_decl \<Rightarrow> bool" where "isLambda t \<longleftrightarrow> baseType t = tLambda"
definition isAnyType :: "type_decl \<Rightarrow> bool" where "isAnyType t \<longleftrightarrow> baseType t = anyArgument"
definition isBool :: "type_decl \<Rightarrow> bool" where "isBool t \<longleftrightarrow> baseType t = tBool"
definition isConst :: "type_decl \<Rightarrow> bool" where "isConst t = f_constant (flags t)"

definition isSmartPointer :: "type_decl \<Rightarrow> bool" where
  "isSmartPointer t \<longleftrightarrow> baseType t = tPointer \<and> f_smartPtr (flags t)"

definition isVoidPointer :: "type_decl \<Rightarrow> bool" where
  "isVoidPointer t \<longleftrightarrow> isPointer t \<and> (case firstType t of None \<Rightarrow> True | Some u \<Rightarrow> isVoid u)"

definition isBitfield :: "type_decl \<Rightarrow> bool" where
  "isBitfield t \<longleftrightarrow> baseType t \<in> {tBitfield, tBitfield8, tBitfield16, tBitfield64}"

definition isEnumT :: "type_decl \<Rightarrow> bool" where
  "isEnumT t \<longleftrightarrow> baseType t \<in> {tEnumeration, tEnumeration8, tEnumeration16, tEnumeration64}"

definition isEnum :: "type_decl \<Rightarrow> bool" where "isEnum t = isEnumT t"

definition isMoveableValue :: "type_decl \<Rightarrow> bool" where
  "isMoveableValue t \<longleftrightarrow> isPointer t \<and> f_smartPtr (flags t) \<or> isLambda t \<or> isIterator t"

definition isGoodIteratorType :: "type_decl \<Rightarrow> bool" where
  "isGoodIteratorType t \<longleftrightarrow> baseType t = tIterator \<and> firstType t \<noteq> None"
definition isGoodBlockType :: "type_decl \<Rightarrow> bool" where "isGoodBlockType t \<longleftrightarrow> baseType t = tBlock"
definition isGoodFunctionType :: "type_decl \<Rightarrow> bool" where "isGoodFunctionType t \<longleftrightarrow> baseType t = tFunction"
definition isGoodLambdaType :: "type_decl \<Rightarrow> bool" where "isGoodLambdaType t \<longleftrightarrow> baseType t = tLambda"
definition isGoodArrayType :: "type_decl \<Rightarrow> bool" where
  "isGoodArrayType t \<longleftrightarrow> baseType t = tArray \<and> firstType t \<noteq> None"
definition isGoodTupleType :: "type_decl \<Rightarrow> bool" where "isGoodTupleType t \<longleftrightarrow> baseType t = tTuple"
definition isGoodVariantType :: "type_decl \<Rightarrow> bool" where "isGoodVariantType t \<longleftrightarrow> baseType t = tVariant"
definition isGoodTableType :: "type_decl \<Rightarrow> bool" where
  "isGoodTableType t \<longleftrightarrow> baseType t = tTable \<and> firstType t \<noteq> None \<and> secondType t \<noteq> None"

definition isClass :: "env \<Rightarrow> type_decl \<Rightarrow> bool" where
  "isClass E t \<longleftrightarrow> isStructure t \<and> (case structType t of None \<Rightarrow> False | Some s \<Rightarrow> sd_isClass (struct_of E s))"

definition isRefType :: "env \<Rightarrow> type_decl \<Rightarrow> bool" where
  "isRefType E t = (if baseType t = tHandle then an_isRefType (ann_of E t)
     else baseType t = tTuple \<or> baseType t = tVariant \<or> baseType t = tStructure \<or> baseType t = tArray \<or>
       baseType t = tTable \<or> baseType t = tBlock \<or> baseType t = tIterator \<or> baseType t = tFixedArray)"

definition isRef :: "env \<Rightarrow> type_decl \<Rightarrow> bool" where
  "isRef E t \<longleftrightarrow> f_ref (flags t) \<or> isRefType E t"

definition isRefOrPointer :: "env \<Rightarrow> type_decl \<Rightarrow> bool" where
  "isRefOrPointer E t \<longleftrightarrow> isRef E t \<or> isPointer t"

definition isTempType :: "env \<Rightarrow> type_decl \<Rightarrow> bool \<Rightarrow> bool" where
  "isTempType E t refMatters \<longleftrightarrow> f_ref (flags t) \<and> refMatters \<or> isRefType E t \<or> isPointer t \<or> isString t \<or>
     baseType t = tIterator \<or> baseType t = autoinfer \<or> baseType t = aliasType"

definition isSimpleType :: "env \<Rightarrow> type_decl \<Rightarrow> bool" where
  "isSimpleType E t = (if baseType t = none \<or> baseType t = tVoid \<or> baseType t = autoinfer \<or> baseType t = aliasType \<or>
       baseType t = option \<or> baseType t = anyArgument \<or> baseType t = typeDecl \<or> baseType t = typeMacro then False
     else \<not> isRefType E t)"

definition isSimpleType_of :: "env \<Rightarrow> type_decl \<Rightarrow> das_type \<Rightarrow> bool" where
  "isSimpleType_of E t typ \<longleftrightarrow> baseType t = typ \<and> isSimpleType E t"

definition canWrite :: "env \<Rightarrow> type_decl \<Rightarrow> bool" where
  "canWrite E t = (let cw = baseType t = tPointer \<or> baseType t = anyArgument \<or> isRef E t in
     if baseType t \<noteq> tPointer then cw \<and> \<not> f_constant (flags t)
     else case firstType t of Some u \<Rightarrow> cw \<and> \<not> f_constant (flags u) | None \<Rightarrow> cw)"

definition isReturnType :: "type_decl \<Rightarrow> bool" where
  "isReturnType t = (if isGoodBlockType t then False else True)"

definition maxBitfieldBits :: "type_decl \<Rightarrow> int" where
  "maxBitfieldBits t = (case baseType t of tBitfield \<Rightarrow> 32 | tBitfield8 \<Rightarrow> 8 | tBitfield16 \<Rightarrow> 16 | tBitfield64 \<Rightarrow> 64 | _ \<Rightarrow> 0)"

section \<open>Numbers\<close>

definition isFloatOrDouble :: "type_decl \<Rightarrow> bool" where
  "isFloatOrDouble t \<longleftrightarrow> baseType t \<in> {tFloat, tDouble}"

definition isInteger :: "type_decl \<Rightarrow> bool" where
  "isInteger t \<longleftrightarrow> baseType t \<in> {tInt, tUInt, tBitfield, tBitfield8, tBitfield16, tBitfield64, tInt8, tUInt8, tInt16, tUInt16, tInt64, tUInt64}"

definition isSignedInteger :: "type_decl \<Rightarrow> bool" where
  "isSignedInteger t \<longleftrightarrow> baseType t \<in> {tInt, tInt8, tInt16, tInt64}"

definition isUnsignedInteger :: "type_decl \<Rightarrow> bool" where
  "isUnsignedInteger t \<longleftrightarrow> baseType t \<in> {tUInt, tBitfield, tBitfield8, tBitfield16, tBitfield64, tUInt8, tUInt16, tUInt64}"

definition isSignedIntegerOrIntVec :: "type_decl \<Rightarrow> bool" where
  "isSignedIntegerOrIntVec t \<longleftrightarrow> baseType t \<in> {tInt, tInt8, tInt16, tInt64, tInt2, tInt3, tInt4}"

definition isUnsignedIntegerOrIntVec :: "type_decl \<Rightarrow> bool" where
  "isUnsignedIntegerOrIntVec t \<longleftrightarrow> baseType t \<in> {tUInt, tBitfield, tBitfield8, tBitfield16, tBitfield64, tUInt8, tUInt16, tUInt64,
     tUInt2, tUInt3, tUInt4}"

definition isNumeric :: "type_decl \<Rightarrow> bool" where
  "isNumeric t \<longleftrightarrow> baseType t \<in> {tInt, tUInt, tBitfield, tBitfield8, tBitfield16, tBitfield64, tInt8, tUInt8, tInt16, tUInt16,
     tInt64, tUInt64, tFloat, tDouble}"

definition isNumericStorage :: "type_decl \<Rightarrow> bool" where
  "isNumericStorage t \<longleftrightarrow> baseType t \<in> {tInt8, tUInt8, tInt16, tUInt16}"

definition isNumericComparable :: "type_decl \<Rightarrow> bool" where
  "isNumericComparable t \<longleftrightarrow> baseType t \<in> {tInt, tUInt, tBitfield, tBitfield8, tBitfield16, tBitfield64, tInt64, tUInt64, tFloat, tDouble}"

definition isIndex :: "type_decl \<Rightarrow> bool" where
  "isIndex t \<longleftrightarrow> baseType t = tInt \<or> baseType t = tUInt"

definition isIndexExt :: "type_decl \<Rightarrow> bool" where
  "isIndexExt t \<longleftrightarrow> baseType t = tInt \<or> baseType t = tUInt \<or> baseType t = tInt64 \<or> baseType t = tUInt64"

section \<open>Roles\<close>

definition isFoldable :: "type_decl \<Rightarrow> bool" where
  "isFoldable t = (if f_ref (flags t) then False else
     baseType t \<in> {tBool, tInt, tInt2, tInt3, tInt4, tInt8, tInt16, tInt64, tUInt, tBitfield, tBitfield8, tBitfield16, tBitfield64,
       tUInt2, tUInt3, tUInt4, tUInt8, tUInt16, tUInt64, tFloat, tFloat2, tFloat3, tFloat4, tString, tDouble,
       tEnumeration, tEnumeration8, tEnumeration16, tEnumeration64, tRange, tURange, tRange64, tURange64})"

definition isCtorType :: "type_decl \<Rightarrow> bool" where
  "isCtorType t \<longleftrightarrow> baseType t \<in> {tInt8, tUInt8, tInt16, tUInt16, tInt64, tUInt64, tInt, tInt2, tInt3, tInt4, tUInt,
     tBitfield, tBitfield8, tBitfield16, tBitfield64, tUInt2, tUInt3, tUInt4, tFloat, tFloat2, tFloat3, tFloat4,
     tRange, tURange, tRange64, tURange64, tString, tDouble}"

definition isWorkhorseType :: "type_decl \<Rightarrow> bool" where
  "isWorkhorseType t = (if baseType t = tPointer then \<not> f_smartPtr (flags t) else
     baseType t \<in> {tBool, tInt8, tUInt8, tInt16, tUInt16, tInt64, tUInt64, tEnumeration, tEnumeration8, tEnumeration16, tEnumeration64,
       tInt, tInt2, tInt3, tInt4, tUInt, tBitfield, tBitfield8, tBitfield16, tBitfield64, tUInt2, tUInt3, tUInt4,
       tFloat, tFloat2, tFloat3, tFloat4, tRange, tURange, tRange64, tURange64, tString, tDouble})"

definition isTableKeyType :: "env \<Rightarrow> type_decl \<Rightarrow> bool" where
  "isTableKeyType E t = (if isWorkhorseType t then True
     else if baseType t = tHandle \<and> an_isRefType (ann_of E t) = False then True else False)"

definition isBaseVectorType :: "type_decl \<Rightarrow> bool" where
  "isBaseVectorType t \<longleftrightarrow> baseType t \<in> {tInt2, tInt3, tInt4, tUInt2, tUInt3, tUInt4, tFloat2, tFloat3, tFloat4,
     tRange, tURange, tRange64, tURange64}"

definition isVectorType :: "type_decl \<Rightarrow> bool" where "isVectorType t = isBaseVectorType t"

definition canInitWithZero :: "type_decl \<Rightarrow> bool" where
  "canInitWithZero t = (if isVectorType t then True else if baseType t = tPointer then \<not> f_smartPtr (flags t) else
     baseType t \<in> {tBool, tInt8, tUInt8, tInt16, tUInt16, tInt64, tUInt64, tInt, tUInt, tBitfield, tBitfield8, tBitfield16,
       tBitfield64, tFloat, tDouble, tString})"

definition isPolicyType :: "type_decl \<Rightarrow> bool" where
  "isPolicyType t \<longleftrightarrow> baseType t \<notin> {tVoid, tEnumeration, tEnumeration8, tEnumeration16, tEnumeration64, tBool, tInt64, tUInt64,
     tInt, tUInt, tBitfield, tBitfield8, tBitfield16, tBitfield64, tFloat, tDouble, tPointer, tFunction, tLambda}"

definition isVecPolicyType :: "type_decl \<Rightarrow> bool" where
  "isVecPolicyType t = (if baseType t = tFixedArray then False else if baseType t = tString then False else isPolicyType t)"

section \<open>Vectors\<close>

definition getVectorDim :: "type_decl \<Rightarrow> int" where
  "getVectorDim t = (case baseType t of
     tInt2 \<Rightarrow> 2 | tUInt2 \<Rightarrow> 2 | tFloat2 \<Rightarrow> 2 | tRange \<Rightarrow> 2 | tURange \<Rightarrow> 2 | tRange64 \<Rightarrow> 2 | tURange64 \<Rightarrow> 2
   | tInt3 \<Rightarrow> 3 | tUInt3 \<Rightarrow> 3 | tFloat3 \<Rightarrow> 3
   | tInt4 \<Rightarrow> 4 | tUInt4 \<Rightarrow> 4 | tFloat4 \<Rightarrow> 4
   | _ \<Rightarrow> 0)"

definition getVectorBaseType :: "type_decl \<Rightarrow> das_type" where
  "getVectorBaseType t = (case baseType t of
     tInt2 \<Rightarrow> tInt | tInt3 \<Rightarrow> tInt | tInt4 \<Rightarrow> tInt
   | tUInt2 \<Rightarrow> tUInt | tUInt3 \<Rightarrow> tUInt | tUInt4 \<Rightarrow> tUInt
   | tFloat2 \<Rightarrow> tFloat | tFloat3 \<Rightarrow> tFloat | tFloat4 \<Rightarrow> tFloat
   | tRange \<Rightarrow> tInt | tURange \<Rightarrow> tUInt | tRange64 \<Rightarrow> tInt64 | tURange64 \<Rightarrow> tUInt64
   | _ \<Rightarrow> none)"

definition getVectorType :: "das_type \<Rightarrow> int \<Rightarrow> das_type" where
  "getVectorType bt dim =
    (if dim = 1 then bt
     else if bt = tFloat then if dim = 2 then tFloat2 else if dim = 3 then tFloat3 else if dim = 4 then tFloat4 else none
     else if bt = tInt then if dim = 2 then tInt2 else if dim = 3 then tInt3 else if dim = 4 then tInt4 else none
     else if bt = tUInt then if dim = 2 then tUInt2 else if dim = 3 then tUInt3 else if dim = 4 then tUInt4 else none
     else none)"

definition getRangeType :: "das_type \<Rightarrow> int \<Rightarrow> das_type" where
  "getRangeType bt dim = (if dim = 1 then bt else (case bt of
     tInt \<Rightarrow> tRange | tUInt \<Rightarrow> tURange | tInt64 \<Rightarrow> tRange64 | tUInt64 \<Rightarrow> tURange64 | _ \<Rightarrow> none))"

definition getRangeBaseType :: "type_decl \<Rightarrow> das_type" where
  "getRangeBaseType t = (case baseType t of
     tRange \<Rightarrow> tInt | tURange \<Rightarrow> tUInt | tRange64 \<Rightarrow> tInt64 | tURange64 \<Rightarrow> tUInt64 | _ \<Rightarrow> none)"

definition getVectorFieldOffset :: "type_decl \<Rightarrow> int \<Rightarrow> int" where
  "getVectorFieldOffset t index =
    (if baseType t \<in> {tRange64, tURange64} then index * 8
     else if baseType t \<in> {tInt2, tUInt2, tInt3, tUInt3, tInt4, tUInt4, tFloat2, tFloat3, tFloat4, tRange, tURange} then index * 4
     else -1)"

section \<open>Swizzles\<close>

definition getMaskFieldIndex :: "char \<Rightarrow> int" where
  "getMaskFieldIndex ch =
    (if ch \<in> {CHR ''x'', CHR ''X'', CHR ''r'', CHR ''R''} then 0
     else if ch \<in> {CHR ''y'', CHR ''Y'', CHR ''g'', CHR ''G''} then 1
     else if ch \<in> {CHR ''z'', CHR ''Z'', CHR ''b'', CHR ''B''} then 2
     else if ch \<in> {CHR ''w'', CHR ''W'', CHR ''a'', CHR ''A''} then 3
     else -1)"

text \<open>\<open>buildSwizzleMask\<close>: the result and the fields, which hold what was read before a bad character.\<close>

fun swizzle_loop :: "string \<Rightarrow> int \<Rightarrow> u8 list \<Rightarrow> bool \<times> u8 list" where
  "swizzle_loop [] dim acc = (1 \<le> length acc \<and> length acc \<le> 4, acc)"
| "swizzle_loop (ch # m) dim acc = (let field = getMaskFieldIndex ch in
     if field = -1 \<or> field \<ge> dim then (False, acc) else swizzle_loop m dim (acc @ [of_int field]))"

definition buildSwizzleMask :: "string \<Rightarrow> int \<Rightarrow> bool \<times> u8 list" where
  "buildSwizzleMask m dim = swizzle_loop m dim []"

text \<open>The comparison is of \<open>int\<close>s: a field 255 followed by 0 is not sequential.\<close>

fun isSequencialMask :: "u8 list \<Rightarrow> bool" where
  "isSequencialMask (a # b # fs) = (if unat a + 1 \<noteq> unat b then False else isSequencialMask (b # fs))"
| "isSequencialMask _ = True"

section \<open>Names of fields\<close>

fun index_from :: "nat \<Rightarrow> string list \<Rightarrow> string \<Rightarrow> int" where
  "index_from i [] na = -1"
| "index_from i (n # ns) na = (if n = na then int i else index_from (Suc i) ns na)"

definition findArgumentIndex :: "type_decl \<Rightarrow> string \<Rightarrow> int" where
  "findArgumentIndex t na = index_from 0 (argNames t) na"

definition bitFieldIndex :: "type_decl \<Rightarrow> string \<Rightarrow> int" where
  "bitFieldIndex t na = findArgumentIndex t na"

definition variantFieldIndex :: "type_decl \<Rightarrow> string \<Rightarrow> int" where
  "variantFieldIndex t na = (case (if isPointer t then firstType t else Some t) of
     None \<Rightarrow> -1 | Some v \<Rightarrow> findArgumentIndex v na)"

text \<open>\<open>das_clz64\<close> is defined for a non-zero value, which the test before it ensures.\<close>

definition findBitfieldName :: "type_decl \<Rightarrow> u64 \<Rightarrow> string" where
  "findBitfieldName t val =
    (if argNames t \<noteq> [] \<and> val \<noteq> 0 \<and> val AND (val - 1) = 0 then
       let index = 63 - int (das_clz64 (unat val))
       in if index < int (length (argNames t)) then argNames t ! nat index else ''''
     else '''')"

end
