(* ===== verification/TypeAlias.thy ===== *)
theory TypeAlias
  imports TypeClasses
begin

text \<open>
  The queries over the tree of a type that never enter a structure: is there an \<open>auto\<close>, an
  alias or an unresolved dimension in it, may it be deleted or created, and exact equality.
\<close>

definition blockLike :: "das_type \<Rightarrow> bool" where
  "blockLike b \<longleftrightarrow> b = tBlock \<or> b = tFunction \<or> b = tLambda \<or> b = tTuple \<or> b = tVariant \<or> b = option"

section \<open>Aliases\<close>

fun collectAliasList :: "type_decl \<Rightarrow> string list" where
  "collectAliasList t =
    (if baseType t = aliasType then [td_alias t]
     else if baseType t = tPointer \<or> baseType t = tIterator \<or> baseType t = tArray \<or> baseType t = tFixedArray
     then (case firstType t of Some u \<Rightarrow> collectAliasList u | None \<Rightarrow> [])
     else if baseType t = tTable
     then (case firstType t of Some u \<Rightarrow> collectAliasList u | None \<Rightarrow> []) @
          (case secondType t of Some u \<Rightarrow> collectAliasList u | None \<Rightarrow> [])
     else if blockLike (baseType t)
     then (case firstType t of Some u \<Rightarrow> collectAliasList u | None \<Rightarrow> []) @ concat (map collectAliasList (argTypes t))
     else [])"

fun isAotAlias :: "type_decl \<Rightarrow> bool" where
  "isAotAlias t =
    (if f_aotAlias (flags t) then True
     else if baseType t = tPointer \<or> baseType t = tIterator \<or> baseType t = tArray \<or> baseType t = tFixedArray
     then (case firstType t of Some u \<Rightarrow> isAotAlias u | None \<Rightarrow> False)
     else if baseType t = tTable
     then (case firstType t of Some u \<Rightarrow> isAotAlias u | None \<Rightarrow> False) \<or> (case secondType t of Some u \<Rightarrow> isAotAlias u | None \<Rightarrow> False)
     else if blockLike (baseType t)
     then (case firstType t of Some u \<Rightarrow> isAotAlias u | None \<Rightarrow> False) \<or> list_ex isAotAlias (argTypes t)
     else False)"

fun isAliasOrA2A :: "bool \<Rightarrow> type_decl \<Rightarrow> bool" where
  "isAliasOrA2A a2a0 t = (let a2a = a2a0 \<or> f_autoToAlias (flags t) in
     if baseType t = typeDecl then True
     else if baseType t = typeMacro then True
     else if baseType t = autoinfer \<and> a2a then True
     else if baseType t = aliasType then True
     else if baseType t = tPointer \<or> baseType t = tIterator \<or> baseType t = tArray \<or> baseType t = tFixedArray
     then (case firstType t of Some u \<Rightarrow> isAliasOrA2A a2a u | None \<Rightarrow> False)
     else if baseType t = tTable
     then (case firstType t of Some u \<Rightarrow> isAliasOrA2A a2a u | None \<Rightarrow> False) \<or>
          (case secondType t of Some u \<Rightarrow> isAliasOrA2A a2a u | None \<Rightarrow> False)
     else if blockLike (baseType t)
     then (case firstType t of Some u \<Rightarrow> isAliasOrA2A a2a u | None \<Rightarrow> False) \<or> list_ex (isAliasOrA2A a2a) (argTypes t)
     else False)"

definition isAlias :: "type_decl \<Rightarrow> bool" where
  "isAlias t = isAliasOrA2A False t"

fun isAliasOrExpr :: "type_decl \<Rightarrow> bool" where
  "isAliasOrExpr t =
    (if baseType t = typeMacro then True
     else if baseType t = typeDecl then True
     else if baseType t = aliasType then True
     else if baseType t = tPointer \<or> baseType t = tIterator \<or> baseType t = tArray
     then (case firstType t of Some u \<Rightarrow> isAliasOrExpr u | None \<Rightarrow> False)
     else if baseType t = tFixedArray
     then if fixedDim t = dimConst then True else (case firstType t of Some u \<Rightarrow> isAliasOrExpr u | None \<Rightarrow> False)
     else if baseType t = tTable
     then (case firstType t of Some u \<Rightarrow> isAliasOrExpr u | None \<Rightarrow> False) \<or> (case secondType t of Some u \<Rightarrow> isAliasOrExpr u | None \<Rightarrow> False)
     else if blockLike (baseType t)
     then (case firstType t of Some u \<Rightarrow> isAliasOrExpr u | None \<Rightarrow> False) \<or> list_ex isAliasOrExpr (argTypes t)
     else False)"

section \<open>Auto\<close>

fun isAutoArrayResolved :: "type_decl \<Rightarrow> bool" where
  "isAutoArrayResolved t = (if baseType t = tFixedArray then
       if fixedDim t = dimAuto \<or> fixedDim t = dimConst then False
       else (case firstType t of Some u \<Rightarrow> isAutoArrayResolved u | None \<Rightarrow> True)
     else True)"

fun isAuto :: "type_decl \<Rightarrow> bool" where
  "isAuto t =
    (if baseType t \<in> {typeMacro, typeDecl, autoinfer, option} then True
     else if baseType t \<in> {tPointer, tIterator, tArray} then (case firstType t of Some u \<Rightarrow> isAuto u | None \<Rightarrow> False)
     else if baseType t = tFixedArray then if fixedDim t = dimAuto then True else (case firstType t of Some u \<Rightarrow> isAuto u | None \<Rightarrow> False)
     else if baseType t = tTable then
       if (case firstType t of Some u \<Rightarrow> isAuto u | None \<Rightarrow> False) then True
       else (case secondType t of Some u \<Rightarrow> isAuto u | None \<Rightarrow> False)
     else if baseType t \<in> {tBlock, tFunction, tLambda, tTuple, tVariant} then
       if (case firstType t of Some u \<Rightarrow> isAuto u | None \<Rightarrow> False) then True else list_ex isAuto (argTypes t)
     else False)"

text \<open>The result and whether an option was met, which the code ors into its argument.\<close>

fun isAutoWithoutOptions :: "type_decl \<Rightarrow> bool \<Rightarrow> bool \<times> bool" where
  "isAutoWithoutOptions t hasOptions =
    (if baseType t = typeMacro \<or> baseType t = typeDecl \<or> baseType t = autoinfer then (True, hasOptions)
     else if baseType t = tPointer \<or> baseType t = tIterator \<or> baseType t = tArray
     then (case firstType t of Some u \<Rightarrow> isAutoWithoutOptions u hasOptions | None \<Rightarrow> (False, hasOptions))
     else if baseType t = tFixedArray then if fixedDim t = dimAuto then (True, hasOptions)
       else (case firstType t of Some u \<Rightarrow> isAutoWithoutOptions u hasOptions | None \<Rightarrow> (False, hasOptions))
     else if baseType t = tTable then
       let (a, h) = (case firstType t of Some u \<Rightarrow> isAutoWithoutOptions u hasOptions | None \<Rightarrow> (False, hasOptions));
           (b, h2) = (case secondType t of Some u \<Rightarrow> isAutoWithoutOptions u h | None \<Rightarrow> (False, h))
       in (a \<or> b, h2)
     else if blockLike (baseType t) then
       let h0 = (if baseType t = option then True else hasOptions);
           (a, h) = (case firstType t of Some u \<Rightarrow> isAutoWithoutOptions u h0 | None \<Rightarrow> (False, h0))
       in fold (\<lambda>u (b, h). let (c, h') = isAutoWithoutOptions u h in (b \<or> c, h')) (argTypes t) (a, h)
     else (False, hasOptions))"

fun isAutoOrAlias :: "type_decl \<Rightarrow> bool" where
  "isAutoOrAlias t =
    (if baseType t \<in> {typeMacro, typeDecl, autoinfer, option, aliasType} then True
     else if baseType t \<in> {tPointer, tIterator, tArray} then (case firstType t of Some u \<Rightarrow> isAutoOrAlias u | None \<Rightarrow> False)
     else if baseType t = tFixedArray then
       if fixedDim t = dimAuto then True else (case firstType t of Some u \<Rightarrow> isAutoOrAlias u | None \<Rightarrow> False)
     else if baseType t = tTable then
       if (case firstType t of Some u \<Rightarrow> isAutoOrAlias u | None \<Rightarrow> False) then True
       else (case secondType t of Some u \<Rightarrow> isAutoOrAlias u | None \<Rightarrow> False)
     else if baseType t \<in> {tBlock, tFunction, tLambda, tTuple, tVariant} then
       if (case firstType t of Some u \<Rightarrow> isAutoOrAlias u | None \<Rightarrow> False) then True else list_ex isAutoOrAlias (argTypes t)
     else False)"

fun isExprType :: "type_decl \<Rightarrow> bool" where
  "isExprType t =
    (if baseType t = tFixedArray \<and> fixedDim t = dimConst then True
     else if (case firstType t of Some u \<Rightarrow> isExprType u | None \<Rightarrow> False) then True
     else if (case secondType t of Some u \<Rightarrow> isExprType u | None \<Rightarrow> False) then True
     else list_ex isExprType (argTypes t))"

section \<open>Delete and new\<close>

fun peel_dims :: "type_decl \<Rightarrow> type_decl option" where
  "peel_dims u = (if baseType u = tFixedArray then (case firstType u of Some v \<Rightarrow> peel_dims v | None \<Rightarrow> None) else Some u)"

fun canDelete :: "env \<Rightarrow> type_decl \<Rightarrow> bool" where
  "canDelete E t =
    (if baseType t = tFixedArray then (case firstType t of Some u \<Rightarrow> canDelete E u | None \<Rightarrow> False)
     else if baseType t = tHandle then an_canDelete (ann_of E t)
     else if baseType t = tPointer then (case Option.bind (firstType t) peel_dims of
         None \<Rightarrow> False
       | Some pointee \<Rightarrow> if baseType pointee = tHandle then an_canDeletePtr (ann_of E pointee)
           else if baseType pointee = tStructure then True
           else if baseType pointee = tTuple then True
           else if baseType pointee = tVariant then True
           else False)
     else if baseType t = tArray \<or> baseType t = tTable then True
     else if baseType t = tString then False
     else if baseType t = tStructure then True
     else if baseType t = tLambda then True
     else if baseType t = tIterator then True
     else if baseType t = tTuple \<or> baseType t = tVariant then True
     else False)"

fun canDeletePtr :: "env \<Rightarrow> type_decl \<Rightarrow> bool" where
  "canDeletePtr E t =
    (if baseType t = tFixedArray then (case firstType t of Some u \<Rightarrow> canDeletePtr E u | None \<Rightarrow> False)
     else if baseType t = tHandle then an_canDeletePtr (ann_of E t)
     else if baseType t = tStructure then True
     else if baseType t = tTuple \<or> baseType t = tVariant then True
     else False)"

fun canNew :: "env \<Rightarrow> type_decl \<Rightarrow> bool" where
  "canNew E t =
    (if baseType t = tFixedArray then (case firstType t of Some u \<Rightarrow> canNew E u | None \<Rightarrow> False)
     else if baseType t = tHandle then an_canNew (ann_of E t)
     else if baseType t = tStructure then True
     else if baseType t = tTuple \<or> baseType t = tVariant then True
     else False)"

fun needDelete :: "env \<Rightarrow> type_decl \<Rightarrow> bool" where
  "needDelete E t =
    (if baseType t = tFixedArray then (case firstType t of Some u \<Rightarrow> needDelete E u | None \<Rightarrow> False)
     else if baseType t = tHandle then an_needDelete (ann_of E t)
     else if baseType t = tPointer then canDelete E t
     else if baseType t = tArray \<or> baseType t = tTable then True
     else if baseType t = tString then False
     else if baseType t = tStructure then True
     else if baseType t = tLambda then True
     else if baseType t = tIterator then True
     else if baseType t = tTuple \<or> baseType t = tVariant then True
     else False)"

section \<open>Sanitizing and exact equality\<close>

fun sanitize :: "type_decl \<Rightarrow> type_decl" where
  "sanitize (TypeDecl b st en an ft sd args names dim fl al) =
    TypeDecl b st en an (map_option sanitize ft) (map_option sanitize sd) (map sanitize args) names dim
      (fl\<lparr>f_isExplicit := False, f_explicitConst := False\<rparr>) al"

lemma zip_argTypes_size [termination_simp]: "(u, v) \<in> set (zip (argTypes t) vs) \<Longrightarrow> size u < size t"
  by (rule argTypes_size) (rule set_zip_leftD)

fun isSameExactType :: "type_decl \<Rightarrow> type_decl \<Rightarrow> bool" where
  "isSameExactType t d =
    (if baseType t \<noteq> baseType d \<or> structType t \<noteq> structType d \<or> enumType t \<noteq> enumType d \<or> annotation t \<noteq> annotation d \<or>
        flags t \<noteq> flags d \<or> td_alias t \<noteq> td_alias d then False
     else if fixedDim t \<noteq> fixedDim d then False
     else if \<not> (case (firstType t, firstType d) of (Some u, Some v) \<Rightarrow> isSameExactType u v | (None, None) \<Rightarrow> True | _ \<Rightarrow> False) then False
     else if \<not> (case (secondType t, secondType d) of (Some u, Some v) \<Rightarrow> isSameExactType u v | (None, None) \<Rightarrow> True | _ \<Rightarrow> False) then False
     else if length (argTypes t) \<noteq> length (argTypes d) then False
     else if \<not> list_all (\<lambda>(u, v). isSameExactType u v) (zip (argTypes t) (argTypes d)) then False
     else if length (argNames t) \<noteq> length (argNames d) then False
     else list_all (\<lambda>(a, b). a = b) (zip (argNames t) (argNames d)))"

declare collectAliasList.simps [simp del] isAotAlias.simps [simp del] isAliasOrA2A.simps [simp del] isAliasOrExpr.simps [simp del] isAutoArrayResolved.simps [simp del] isAuto.simps [simp del] isAutoWithoutOptions.simps [simp del] isAutoOrAlias.simps [simp del] isExprType.simps [simp del] peel_dims.simps [simp del] canDelete.simps [simp del] canDeletePtr.simps [simp del] canNew.simps [simp del] needDelete.simps [simp del] isSameExactType.simps [simp del]

end
