(* ===== verification/TypeWalk.thy ===== *)
theory TypeWalk
  imports TypeModel
begin

text \<open>
  Walks over types with a set of visited structures. The queries of \<open>TypeDecl\<close> that may meet a
  recursive structure thread a \<open>dep\<close> set through the walk and skip a structure that is in it;
  here is the contract such a walk keeps: it finds exactly what can be reached.
\<close>

section \<open>Walking a list\<close>

fun any_dep :: "('t \<Rightarrow> 'd \<Rightarrow> bool \<times> 'd) \<Rightarrow> 't list \<Rightarrow> 'd \<Rightarrow> bool \<times> 'd" where
  "any_dep f [] dep = (False, dep)"
| "any_dep f (t # ts) dep = (case f t dep of (b, dep') \<Rightarrow> if b then (True, dep') else any_dep f ts dep')"

fun all_dep :: "('t \<Rightarrow> 'd \<Rightarrow> bool \<times> 'd) \<Rightarrow> 't list \<Rightarrow> 'd \<Rightarrow> bool \<times> 'd" where
  "all_dep f [] dep = (True, dep)"
| "all_dep f (t # ts) dep = (case f t dep of (b, dep') \<Rightarrow> if \<not> b then (False, dep') else all_dep f ts dep')"

lemma any_dep_cong [fundef_cong]:
  "ts = ts' \<Longrightarrow> dep = dep' \<Longrightarrow> (\<And>t d. t \<in> set ts' \<Longrightarrow> f t d = g t d) \<Longrightarrow> any_dep f ts dep = any_dep g ts' dep'"
  by (induction ts arbitrary: ts' dep dep') (auto split: prod.splits)

lemma all_dep_cong [fundef_cong]:
  "ts = ts' \<Longrightarrow> dep = dep' \<Longrightarrow> (\<And>t d. t \<in> set ts' \<Longrightarrow> f t d = g t d) \<Longrightarrow> all_dep f ts dep = all_dep g ts' dep'"
  by (induction ts arbitrary: ts' dep dep') (auto split: prod.splits)

definition neg_dep :: "('t \<Rightarrow> 'd \<Rightarrow> bool \<times> 'd) \<Rightarrow> 't \<Rightarrow> 'd \<Rightarrow> bool \<times> 'd" where
  "neg_dep f t dep = (case f t dep of (b, d) \<Rightarrow> (\<not> b, d))"

lemma any_dep_neg: "any_dep (neg_dep f) ts dep = (case all_dep f ts dep of (b, d) \<Rightarrow> (\<not> b, d))"
  by (induction ts arbitrary: dep) (auto simp: neg_dep_def split: prod.splits)

section \<open>What a walk can reach\<close>

inductive within :: "('t \<Rightarrow> 't list) \<Rightarrow> 't \<Rightarrow> 't \<Rightarrow> bool" for nexts where
  here: "within nexts t t"
| down: "u \<in> set (nexts t) \<Longrightarrow> within nexts u v \<Longrightarrow> within nexts t v"

inductive_simps within_unfold: "within nexts t v"

section \<open>The walk\<close>

text \<open>
  \<open>run n\<close> may enter \<open>n\<close> structures on a path. \<open>known\<close>: the structures there are, a finite set
  that holds every structure the walk meets.
\<close>

locale dep_search =
  fixes run :: "nat \<Rightarrow> 't::size \<Rightarrow> nat set \<Rightarrow> bool \<times> nat set"
    and bad :: "'t \<Rightarrow> bool"
    and strct :: "'t \<Rightarrow> nat option"
    and bad_struct :: "nat \<Rightarrow> bool"
    and fields_of :: "nat \<Rightarrow> 't list"
    and parts :: "'t \<Rightarrow> 't list"
  assumes run_eq: "run n t dep = (if bad t then (True, dep) else case strct t of
      Some s \<Rightarrow> if s \<in> dep then (False, dep) else (case n of 0 \<Rightarrow> (False, insert s dep)
        | Suc m \<Rightarrow> if bad_struct s then (True, insert s dep) else any_dep (run m) (fields_of s) (insert s dep))
    | None \<Rightarrow> any_dep (run n) (parts t) dep)"
    and parts_smaller: "u \<in> set (parts t) \<Longrightarrow> size u < size t"
begin

definition nexts :: "'t \<Rightarrow> 't list" where
  "nexts t = (case strct t of Some s \<Rightarrow> fields_of s | None \<Rightarrow> parts t)"

definition hit :: "'t \<Rightarrow> bool" where
  "hit t \<longleftrightarrow> bad t \<or> (case strct t of Some s \<Rightarrow> bad_struct s | None \<Rightarrow> False)"

definition known_in :: "nat set \<Rightarrow> 't \<Rightarrow> bool" where
  "known_in U t \<longleftrightarrow> (\<forall>u. within nexts t u \<longrightarrow> (case strct u of Some s \<Rightarrow> s \<in> U | None \<Rightarrow> True))"

text \<open>\<open>clear D t\<close>: nothing bad at \<open>t\<close> down to the structures of \<open>D\<close>.\<close>

inductive clear :: "nat set \<Rightarrow> 't \<Rightarrow> bool" for D where
  clear_struct: "\<not> bad t \<Longrightarrow> strct t = Some s \<Longrightarrow> s \<in> D \<Longrightarrow> clear D t"
| clear_parts: "\<not> bad t \<Longrightarrow> strct t = None \<Longrightarrow> (\<And>u. u \<in> set (parts t) \<Longrightarrow> clear D u) \<Longrightarrow> clear D t"

definition done_upto :: "nat set \<Rightarrow> nat set \<Rightarrow> bool" where
  "done_upto S D \<longleftrightarrow> (\<forall>s\<in>S. \<not> bad_struct s \<and> (\<forall>u\<in>set (fields_of s). clear D u))"

lemma clear_mono: "clear D t \<Longrightarrow> D \<subseteq> D' \<Longrightarrow> clear D' t"
  by (induction rule: clear.induct) (auto intro: clear.intros)

lemma done_upto_mono: "done_upto S D \<Longrightarrow> D \<subseteq> D' \<Longrightarrow> done_upto S D'"
  unfolding done_upto_def using clear_mono by blast

lemma known_in_nexts: "known_in U t \<Longrightarrow> u \<in> set (nexts t) \<Longrightarrow> known_in U u"
  unfolding known_in_def by (blast intro: within.down)

lemma clear_no_hit:
  assumes "within nexts t v" "clear D t" "done_upto D D"
  shows "\<not> hit v"
  using assms
proof (induction rule: within.induct)
  case (here t)
  then show ?case by (cases rule: clear.cases) (auto simp: hit_def done_upto_def)
next
  case (down u t v)
  from down.prems(1) have "clear D u"
    using down.hyps(1) down.prems(2) by (cases rule: clear.cases) (auto simp: nexts_def done_upto_def)
  with down show ?case by blast
qed

text \<open>A positive answer is right.\<close>

lemma run_found: "run n t dep = (True, dep') \<Longrightarrow> \<exists>u. within nexts t u \<and> hit u"
proof (induction n t arbitrary: dep dep' rule: wf_induct_rule[OF wf_measures[of "[fst, size \<circ> snd]"], of _ "(n, t)" for n t, split_format (complete)])
  case (1 n t)
  have step: "\<exists>u. within nexts t u \<and> hit u" if "any_dep (run m) ts d = (True, d')" "set ts \<subseteq> set (nexts t)"
    "\<And>u. u \<in> set ts \<Longrightarrow> m < n \<or> m = n \<and> size u < size t" for m ts d d'
    using that
  proof (induction ts arbitrary: d)
    case (Cons u ts)
    obtain b d1 where r: "run m u d = (b, d1)" by force
    show ?case
    proof (cases b)
      case True
      have "\<exists>v. within nexts u v \<and> hit v" using 1 Cons.prems(3)[of u] r True by auto
      then show ?thesis using Cons.prems(2) by (auto intro: within.down)
    next
      case False
      with Cons r show ?thesis by (auto)
    qed
  qed simp
  show ?case
  proof (cases "bad t")
    case True
    then show ?thesis by (auto simp: hit_def intro: within.here)
  next
    case False
    show ?thesis
    proof (cases "strct t")
      case None
      with False 1(2) run_eq[of n t dep] have "any_dep (run n) (parts t) dep = (True, dep')" by simp
      then show ?thesis using parts_smaller None by (intro step) (auto simp: nexts_def)
    next
      case (Some s)
      with False 1(2) run_eq[of n t dep] obtain m where "n = Suc m" "bad_struct s \<or> any_dep (run m) (fields_of s) (insert s dep) = (True, dep')"
        by (auto split: if_splits nat.splits)
      then consider "bad_struct s" | "n = Suc m" "any_dep (run m) (fields_of s) (insert s dep) = (True, dep')" by blast
      then show ?thesis
      proof cases
        case 1
        with Some have "hit t" by (simp add: hit_def)
        then show ?thesis by (auto intro: within.here)
      next
        case 2
        then show ?thesis using Some by (intro step[of m "fields_of s"]) (auto simp: nexts_def)
      qed
    qed
  qed
qed

text \<open>A negative answer visits everything: what it added to \<open>dep\<close> is clear down to \<open>dep\<close>.\<close>

definition clean_run :: "nat set \<Rightarrow> nat set \<Rightarrow> nat set \<Rightarrow> bool" where
  "clean_run U dep dep' \<longleftrightarrow> dep \<subseteq> dep' \<and> dep' \<subseteq> U \<and> done_upto (dep' - dep) dep'"

lemma clean_run_trans: "clean_run U d1 d2 \<Longrightarrow> clean_run U d2 d3 \<Longrightarrow> clean_run U d1 d3"
proof -
  assume a: "clean_run U d1 d2" "clean_run U d2 d3"
  then have "done_upto (d2 - d1) d3" unfolding clean_run_def by (blast intro: done_upto_mono)
  with a show ?thesis unfolding clean_run_def done_upto_def by blast
qed

lemma run_clear:
  assumes "finite U" "dep \<subseteq> U" "card (U - dep) \<le> n" "known_in U t" "run n t dep = (False, dep')"
  shows "clean_run U dep dep' \<and> clear dep' t"
  using assms(2-)
proof (induction n t arbitrary: dep dep' rule: wf_induct_rule[OF wf_measures[of "[fst, size \<circ> snd]"], of _ "(n, t)" for n t, split_format (complete)])
  case (1 n t)
  have step: "clean_run U d d' \<and> (\<forall>u\<in>set ts. clear d' u)"
    if "any_dep (run m) ts d = (False, d')" "set ts \<subseteq> set (nexts t)" "d \<subseteq> U" "card (U - d) \<le> m"
      "\<And>u. u \<in> set ts \<Longrightarrow> m < n \<or> m = n \<and> size u < size t" for m ts d d'
    using that
  proof (induction ts arbitrary: d)
    case Nil
    then show ?case by (simp add: clean_run_def done_upto_def)
  next
    case (Cons u ts)
    obtain b d1 where r: "run m u d = (b, d1)" by force
    with Cons.prems(1) have b: "\<not> b" and rest: "any_dep (run m) ts d1 = (False, d')" by (auto split: if_splits)
    have "known_in U u" using known_in_nexts[OF 1(4)] Cons.prems(2) by simp
    then have u: "clean_run U d d1" "clear d1 u" using 1(1)[of m u d d1] r b Cons.prems(3-5) by auto
    then have d1: "d1 \<subseteq> U" "d \<subseteq> d1" by (simp_all add: clean_run_def)
    have "card (U - d1) \<le> m" using Cons.prems(4) card_mono[of "U - d" "U - d1"] d1 \<open>finite U\<close> by (meson Diff_mono finite_Diff le_trans subset_refl)
    with Cons.IH[OF rest] Cons.prems(2,5) d1 have ts: "clean_run U d1 d'" "\<forall>u\<in>set ts. clear d' u" by auto
    have "d1 \<subseteq> d'" using ts(1) by (simp add: clean_run_def)
    with u(2) have "clear d' u" by (rule clear_mono)
    with clean_run_trans[OF u(1) ts(1)] ts(2) show ?case by simp
  qed
  have nb: "\<not> bad t" using 1(5) run_eq[of n t dep] by auto
  show ?case
  proof (cases "strct t")
    case None
    with nb 1(5) run_eq[of n t dep] have "any_dep (run n) (parts t) dep = (False, dep')" by simp
    then have "clean_run U dep dep' \<and> (\<forall>u\<in>set (parts t). clear dep' u)"
      using parts_smaller None 1(2,3) by (intro step) (auto simp: nexts_def)
    with nb None show ?thesis by (auto intro: clear_parts)
  next
    case (Some s)
    show ?thesis
    proof (cases "s \<in> dep")
      case True
      with nb Some 1(2,5) run_eq[of n t dep] show ?thesis by (auto simp: clean_run_def done_upto_def intro: clear_struct)
    next
      case False
      have sU: "s \<in> U" using 1(4) Some within.here[of nexts t] unfolding known_in_def by force
      have c: "card (U - insert s dep) < card (U - dep)" using sU False \<open>finite U\<close> by (intro psubset_card_mono) auto
      with 1(3) obtain m where n: "n = Suc m" by (cases n) auto
      with nb Some 1(5) run_eq[of n t dep] False have nbs: "\<not> bad_struct s" and
        r: "any_dep (run m) (fields_of s) (insert s dep) = (False, dep')" by (auto split: if_splits)
      have k: "clean_run U (insert s dep) dep'" "\<forall>u\<in>set (fields_of s). clear dep' u"
        using step[OF r] Some sU 1(2,3) c n by (auto simp: nexts_def)
      have "done_upto {s} dep'" using k(2) nbs by (simp add: done_upto_def)
      with k(1) have "clean_run U dep dep'" "s \<in> dep'" unfolding clean_run_def done_upto_def by auto
      with nb Some show ?thesis by (auto intro: clear_struct)
    qed
  qed
qed

theorem run_reaches:
  assumes "finite U" "card U \<le> n" "known_in U t"
  shows "fst (run n t {}) \<longleftrightarrow> (\<exists>u. within nexts t u \<and> hit u)"
proof (cases "run n t {}")
  case (Pair b dep')
  show ?thesis
  proof (cases b)
    case True
    with Pair run_found[of n t "{}"] show ?thesis by auto
  next
    case False
    with run_clear[OF assms(1) _ _ assms(3), of "{}" n] assms(2) Pair
    have "clean_run U {} dep'" "clear dep' t" by auto
    then have all: "done_upto dep' dep'" by (simp add: clean_run_def)
    have "\<not> hit v" if "within nexts t v" for v
      by (rule clear_no_hit[OF that \<open>clear dep' t\<close> all])
    with Pair False show ?thesis by auto
  qed
qed

end

end
