(* ===== verification/TypeQueries.thy ===== *)
theory TypeQueries
  imports TypeWalk TypeClasses
begin

text \<open>
  The queries of \<open>TypeDecl\<close> and \<open>Structure\<close> that walk a type with a set of visited structures.
  \<open>n\<close> bounds the structures entered on a path; the entry points allow as many as there are.
\<close>

section \<open>Classes, constructors, destructors, copies\<close>

function hasClasses_dep :: "env \<Rightarrow> nat \<Rightarrow> type_decl \<Rightarrow> nat set \<Rightarrow> bool \<times> nat set"
  and Structure_hasClasses :: "env \<Rightarrow> nat \<Rightarrow> nat \<Rightarrow> nat set \<Rightarrow> bool \<times> nat set" where
  "hasClasses_dep E n t dep =
    (if baseType t = tStructure then (case structType t of
       Some s \<Rightarrow> if s \<in> dep then (False, dep) else Structure_hasClasses E n s (insert s dep)
     | None \<Rightarrow> (False, dep))
     else if baseType t = tTuple \<or> baseType t = tVariant \<or> baseType t = option then any_dep (hasClasses_dep E n) (argTypes t) dep
     else if baseType t = tArray \<or> baseType t = tTable \<or> baseType t = tFixedArray
     then any_dep (hasClasses_dep E n) (opt_list (firstType t) @ opt_list (secondType t)) dep
     else (False, dep))"
| "Structure_hasClasses E n s dep = (case n of 0 \<Rightarrow> (False, dep) | Suc m \<Rightarrow>
     if sd_isClass (struct_of E s) then (True, dep) else any_dep (hasClasses_dep E m) (field_types E s) dep)"
  by pat_completeness auto
termination
  by (relation "measures [case_sum (\<lambda>(_, n, _, _). n) (\<lambda>(_, n, _, _). n), case_sum (\<lambda>(_, _, t, _). size t) (\<lambda>_. 0)]")
    (auto intro: parts_size)

definition hasClasses :: "env \<Rightarrow> type_decl \<Rightarrow> bool" where
  "hasClasses E t = fst (hasClasses_dep E (length (e_structs E)) t {})"

function hasNonTrivialCtor_dep :: "env \<Rightarrow> nat \<Rightarrow> type_decl \<Rightarrow> nat set \<Rightarrow> bool \<times> nat set"
  and Structure_hasNonTrivialCtor :: "env \<Rightarrow> nat \<Rightarrow> nat \<Rightarrow> nat set \<Rightarrow> bool \<times> nat set" where
  "hasNonTrivialCtor_dep E n t dep =
    (if baseType t = tFixedArray then any_dep (hasNonTrivialCtor_dep E n) (opt_list (firstType t)) dep
     else if baseType t = tHandle then (an_hasNonTrivialCtor (ann_of E t), dep)
     else if baseType t = tStructure then (case structType t of
       Some s \<Rightarrow> if s \<in> dep then (False, dep) else Structure_hasNonTrivialCtor E n s (insert s dep)
     | None \<Rightarrow> (False, dep))
     else if baseType t = tTuple \<or> baseType t = tVariant \<or> baseType t = option
     then any_dep (hasNonTrivialCtor_dep E n) (argTypes t) dep
     else (False, dep))"
| "Structure_hasNonTrivialCtor E n s dep = (case n of 0 \<Rightarrow> (False, dep) | Suc m \<Rightarrow>
     any_dep (hasNonTrivialCtor_dep E m) (field_types E s) dep)"
  by pat_completeness auto
termination
  by (relation "measures [case_sum (\<lambda>(_, n, _, _). n) (\<lambda>(_, n, _, _). n), case_sum (\<lambda>(_, _, t, _). size t) (\<lambda>_. 0)]")
    (auto intro: parts_size)

definition hasNonTrivialCtor :: "env \<Rightarrow> type_decl \<Rightarrow> bool" where
  "hasNonTrivialCtor E t = fst (hasNonTrivialCtor_dep E (length (e_structs E)) t {})"

function hasNonTrivialDtor_dep :: "env \<Rightarrow> nat \<Rightarrow> type_decl \<Rightarrow> nat set \<Rightarrow> bool \<times> nat set"
  and Structure_hasNonTrivialDtor :: "env \<Rightarrow> nat \<Rightarrow> nat \<Rightarrow> nat set \<Rightarrow> bool \<times> nat set" where
  "hasNonTrivialDtor_dep E n t dep =
    (if baseType t = tHandle then (an_hasNonTrivialDtor (ann_of E t), dep)
     else if baseType t = tStructure then (case structType t of
       Some s \<Rightarrow> if s \<in> dep then (False, dep) else Structure_hasNonTrivialDtor E n s (insert s dep)
     | None \<Rightarrow> (False, dep))
     else if baseType t = tTuple \<or> baseType t = tVariant \<or> baseType t = option
     then any_dep (hasNonTrivialDtor_dep E n) (argTypes t) dep
     else if baseType t = tArray \<or> baseType t = tTable \<or> baseType t = tFixedArray
     then any_dep (hasNonTrivialDtor_dep E n) (opt_list (firstType t) @ opt_list (secondType t)) dep
     else (False, dep))"
| "Structure_hasNonTrivialDtor E n s dep = (case n of 0 \<Rightarrow> (False, dep) | Suc m \<Rightarrow>
     any_dep (hasNonTrivialDtor_dep E m) (field_types E s) dep)"
  by pat_completeness auto
termination
  by (relation "measures [case_sum (\<lambda>(_, n, _, _). n) (\<lambda>(_, n, _, _). n), case_sum (\<lambda>(_, _, t, _). size t) (\<lambda>_. 0)]")
    (auto intro: parts_size)

definition hasNonTrivialDtor :: "env \<Rightarrow> type_decl \<Rightarrow> bool" where
  "hasNonTrivialDtor E t = fst (hasNonTrivialDtor_dep E (length (e_structs E)) t {})"

function hasNonTrivialCopy_dep :: "env \<Rightarrow> nat \<Rightarrow> type_decl \<Rightarrow> nat set \<Rightarrow> bool \<times> nat set"
  and Structure_hasNonTrivialCopy :: "env \<Rightarrow> nat \<Rightarrow> nat \<Rightarrow> nat set \<Rightarrow> bool \<times> nat set" where
  "hasNonTrivialCopy_dep E n t dep =
    (if baseType t = tHandle then (an_hasNonTrivialCopy (ann_of E t), dep)
     else if baseType t = tStructure then (case structType t of
       Some s \<Rightarrow> if s \<in> dep then (False, dep) else Structure_hasNonTrivialCopy E n s (insert s dep)
     | None \<Rightarrow> (False, dep))
     else if baseType t = tTuple \<or> baseType t = tVariant \<or> baseType t = option
     then any_dep (hasNonTrivialCopy_dep E n) (argTypes t) dep
     else if baseType t = tArray \<or> baseType t = tTable \<or> baseType t = tFixedArray
     then any_dep (hasNonTrivialCopy_dep E n) (opt_list (firstType t) @ opt_list (secondType t)) dep
     else (False, dep))"
| "Structure_hasNonTrivialCopy E n s dep = (case n of 0 \<Rightarrow> (False, dep) | Suc m \<Rightarrow>
     any_dep (hasNonTrivialCopy_dep E m) (field_types E s) dep)"
  by pat_completeness auto
termination
  by (relation "measures [case_sum (\<lambda>(_, n, _, _). n) (\<lambda>(_, n, _, _). n), case_sum (\<lambda>(_, _, t, _). size t) (\<lambda>_. 0)]")
    (auto intro: parts_size)

definition hasNonTrivialCopy :: "env \<Rightarrow> type_decl \<Rightarrow> bool" where
  "hasNonTrivialCopy E t = fst (hasNonTrivialCopy_dep E (length (e_structs E)) t {})"

section \<open>Scope and containers\<close>

function needInScope_dep :: "env \<Rightarrow> nat \<Rightarrow> type_decl \<Rightarrow> nat set \<Rightarrow> bool \<times> nat set"
  and Structure_needInScope :: "env \<Rightarrow> nat \<Rightarrow> nat \<Rightarrow> nat set \<Rightarrow> bool \<times> nat set" where
  "needInScope_dep E n t dep =
    (if baseType t = tHandle then (an_needInScope (ann_of E t), dep)
     else if baseType t = tStructure then (case structType t of
       Some s \<Rightarrow> if s \<in> dep then (False, dep) else Structure_needInScope E n s (insert s dep)
     | None \<Rightarrow> (False, dep))
     else if baseType t = tTuple \<or> baseType t = tVariant \<or> baseType t = option
     then any_dep (needInScope_dep E n) (argTypes t) dep
     else if baseType t = tArray \<or> baseType t = tTable \<or> baseType t = tFixedArray
     then any_dep (needInScope_dep E n) (opt_list (firstType t) @ opt_list (secondType t)) dep
     else if baseType t = tPointer then (f_smartPtr (flags t), dep)
     else (False, dep))"
| "Structure_needInScope E n s dep = (case n of 0 \<Rightarrow> (False, dep) | Suc m \<Rightarrow>
     any_dep (needInScope_dep E m) (field_types E s) dep)"
  by pat_completeness auto
termination
  by (relation "measures [case_sum (\<lambda>(_, n, _, _). n) (\<lambda>(_, n, _, _). n), case_sum (\<lambda>(_, _, t, _). size t) (\<lambda>_. 0)]")
    (auto intro: parts_size)

definition needInScope :: "env \<Rightarrow> type_decl \<Rightarrow> bool" where
  "needInScope E t = fst (needInScope_dep E (length (e_structs E)) t {})"

function canBePlacedInContainer_dep :: "env \<Rightarrow> nat \<Rightarrow> type_decl \<Rightarrow> nat set \<Rightarrow> bool \<times> nat set"
  and Structure_canBePlacedInContainer :: "env \<Rightarrow> nat \<Rightarrow> nat \<Rightarrow> nat set \<Rightarrow> bool \<times> nat set" where
  "canBePlacedInContainer_dep E n t dep =
    (if baseType t = tHandle then (an_canBePlacedInContainer (ann_of E t), dep)
     else if baseType t = tStructure then (case structType t of
       Some s \<Rightarrow> if s \<in> dep then (True, dep) else Structure_canBePlacedInContainer E n s (insert s dep)
     | None \<Rightarrow> (True, dep))
     else if baseType t = tTuple \<or> baseType t = tVariant \<or> baseType t = option
     then all_dep (canBePlacedInContainer_dep E n) (argTypes t) dep
     else if baseType t = tBlock then (False, dep)
     else if baseType t = tArray \<or> baseType t = tTable \<or> baseType t = tFixedArray
     then all_dep (canBePlacedInContainer_dep E n) (opt_list (firstType t) @ opt_list (secondType t)) dep
     else (True, dep))"
| "Structure_canBePlacedInContainer E n s dep = (case n of 0 \<Rightarrow> (True, dep) | Suc m \<Rightarrow>
     all_dep (canBePlacedInContainer_dep E m) (field_types E s) dep)"
  by pat_completeness auto
termination
  by (relation "measures [case_sum (\<lambda>(_, n, _, _). n) (\<lambda>(_, n, _, _). n), case_sum (\<lambda>(_, _, t, _). size t) (\<lambda>_. 0)]")
    (auto intro: parts_size)

definition canBePlacedInContainer :: "env \<Rightarrow> type_decl \<Rightarrow> bool" where
  "canBePlacedInContainer E t = fst (canBePlacedInContainer_dep E (length (e_structs E)) t {})"

function isLocal_dep :: "env \<Rightarrow> nat \<Rightarrow> type_decl \<Rightarrow> nat set \<Rightarrow> bool \<times> nat set"
  and Structure_isLocal :: "env \<Rightarrow> nat \<Rightarrow> nat \<Rightarrow> nat set \<Rightarrow> bool \<times> nat set" where
  "isLocal_dep E n t dep =
    (if baseType t = tHandle then (an_isLocal (ann_of E t), dep)
     else if baseType t = tStructure then (case structType t of
       Some s \<Rightarrow> if s \<in> dep then (True, dep) else Structure_isLocal E n s (insert s dep)
     | None \<Rightarrow> (True, dep))
     else if baseType t = tTuple \<or> baseType t = tVariant \<or> baseType t = option
     then all_dep (isLocal_dep E n) (argTypes t) dep
     else if baseType t = tBlock then (False, dep)
     else if baseType t = tArray \<or> baseType t = tTable \<or> baseType t = tFixedArray
     then all_dep (isLocal_dep E n) (opt_list (firstType t) @ opt_list (secondType t)) dep
     else (True, dep))"
| "Structure_isLocal E n s dep = (case n of 0 \<Rightarrow> (True, dep) | Suc m \<Rightarrow>
     all_dep (isLocal_dep E m) (field_types E s) dep)"
  by pat_completeness auto
termination
  by (relation "measures [case_sum (\<lambda>(_, n, _, _). n) (\<lambda>(_, n, _, _). n), case_sum (\<lambda>(_, _, t, _). size t) (\<lambda>_. 0)]")
    (auto intro: parts_size)

definition isLocal :: "env \<Rightarrow> type_decl \<Rightarrow> bool" where
  "isLocal E t = fst (isLocal_dep E (length (e_structs E)) t {})"

declare hasClasses_dep.simps [simp del] hasNonTrivialCtor_dep.simps [simp del] hasNonTrivialDtor_dep.simps [simp del] hasNonTrivialCopy_dep.simps [simp del] needInScope_dep.simps [simp del] canBePlacedInContainer_dep.simps [simp del] isLocal_dep.simps [simp del]

end
