(* ===== verification/TypeSafety.thy ===== *)
theory TypeSafety
  imports TypeWalk TypeAlias
begin

text \<open>
  More queries with a set of visited structures: sharing, temporaries, initialisation,
  unresolved dimensions, deletion, string data.
\<close>

section \<open>Sharing, temporaries, initialisation\<close>

function isShareable_dep :: "env \<Rightarrow> nat \<Rightarrow> type_decl \<Rightarrow> nat set \<Rightarrow> bool \<times> nat set"
  and Structure_isShareable :: "env \<Rightarrow> nat \<Rightarrow> nat \<Rightarrow> nat set \<Rightarrow> bool \<times> nat set" where
  "isShareable_dep E n t dep =
    (if baseType t = tIterator \<or> baseType t = tBlock \<or> baseType t = tLambda then (False, dep)
     else if baseType t = tHandle then ((case annotation t of Some _ \<Rightarrow> an_isShareable (ann_of E t) | None \<Rightarrow> True), dep)
     else if baseType t = tStructure then (case structType t of
       Some s \<Rightarrow> if s \<in> dep then (True, dep) else Structure_isShareable E n s (insert s dep)
     | None \<Rightarrow> (True, dep))
     else if baseType t = tArray \<or> baseType t = tFixedArray then all_dep (isShareable_dep E n) (opt_list (firstType t)) dep
     else if baseType t = tTable then all_dep (isShareable_dep E n) (opt_list (firstType t) @ opt_list (secondType t)) dep
     else if baseType t = tTuple \<or> baseType t = tVariant \<or> baseType t = option
     then all_dep (isShareable_dep E n) (argTypes t) dep
     else (True, dep))"
| "Structure_isShareable E n s dep = (case n of 0 \<Rightarrow> (True, dep) | Suc m \<Rightarrow>
     all_dep (isShareable_dep E m) (field_types E s) dep)"
  by pat_completeness auto
termination
  by (relation "measures [case_sum (\<lambda>(_, n, _, _). n) (\<lambda>(_, n, _, _). n), case_sum (\<lambda>(_, _, t, _). size t) (\<lambda>_. 0)]")
    (auto intro: parts_size)

definition isShareable :: "env \<Rightarrow> type_decl \<Rightarrow> bool" where
  "isShareable E t = fst (isShareable_dep E (length (e_structs E)) t {})"

function isTemp_dep :: "env \<Rightarrow> nat \<Rightarrow> bool \<Rightarrow> bool \<Rightarrow> type_decl \<Rightarrow> nat set \<Rightarrow> bool \<times> nat set"
  and Structure_isTemp :: "env \<Rightarrow> nat \<Rightarrow> nat \<Rightarrow> nat set \<Rightarrow> bool \<times> nat set" where
  "isTemp_dep E n topLevel refMatters t dep =
    (if topLevel \<and> \<not> isTempType E t refMatters then (False, dep)
     else if f_temporary (flags t) then (True, dep)
     else if baseType t = tStructure then (case structType t of
       Some s \<Rightarrow> if s \<in> dep then (False, dep) else Structure_isTemp E n s (insert s dep)
     | None \<Rightarrow> (False, dep))
     else if baseType t = tPointer \<or> baseType t = tIterator then any_dep (isTemp_dep E n False True) (opt_list (firstType t)) dep
     else if baseType t = tArray \<or> baseType t = tFixedArray then any_dep (isTemp_dep E n False True) (opt_list (firstType t)) dep
     else if baseType t = tTable then any_dep (isTemp_dep E n False True) (opt_list (firstType t) @ opt_list (secondType t)) dep
     else if baseType t = tTuple \<or> baseType t = tVariant \<or> baseType t = option
     then any_dep (isTemp_dep E n True True) (opt_list (firstType t) @ argTypes t) dep
     else (False, dep))"
| "Structure_isTemp E n s dep = (case n of 0 \<Rightarrow> (False, dep) | Suc m \<Rightarrow>
     any_dep (isTemp_dep E m True True) (field_types E s) dep)"
  by pat_completeness auto
termination
  by (relation "measures [case_sum (\<lambda>(_, n, _, _, _, _). n) (\<lambda>(_, n, _, _). n), case_sum (\<lambda>(_, _, _, _, t, _). size t) (\<lambda>_. 0)]")
    (auto intro: parts_size)

definition isTemp :: "env \<Rightarrow> bool \<Rightarrow> bool \<Rightarrow> type_decl \<Rightarrow> bool" where
  "isTemp E topLevel refMatters t = fst (isTemp_dep E (length (e_structs E)) topLevel refMatters t {})"

function unsafeInit_dep :: "env \<Rightarrow> nat \<Rightarrow> type_decl \<Rightarrow> nat set \<Rightarrow> bool \<times> nat set"
  and Structure_unsafeInit :: "env \<Rightarrow> nat \<Rightarrow> nat \<Rightarrow> nat set \<Rightarrow> bool \<times> nat set" where
  "unsafeInit_dep E n t dep =
    (if f_safeWhenUninitialized (flags t) then (False, dep)
     else if baseType t = tFixedArray then any_dep (unsafeInit_dep E n) (opt_list (firstType t)) dep
     else if baseType t = tHandle then (an_hasNonTrivialCtor (ann_of E t), dep)
     else if baseType t = tStructure then (case structType t of
       Some s \<Rightarrow> if s \<in> dep then (False, dep) else Structure_unsafeInit E n s (insert s dep)
     | None \<Rightarrow> (False, dep))
     else if baseType t = tTuple \<or> baseType t = tVariant then any_dep (unsafeInit_dep E n) (argTypes t) dep
     else (False, dep))"
| "Structure_unsafeInit E n s dep = (case n of 0 \<Rightarrow> (False, dep) | Suc m \<Rightarrow>
     if sd_safeWhenUninitialized (struct_of E s) then (False, dep)
     else if sd_hasDefaultInitializer (struct_of E s) then (True, dep)
     else any_dep (\<lambda>fd dep. if fd_init fd then (True, dep) else unsafeInit_dep E m (fd_type fd) dep) (sd_fields (struct_of E s)) dep)"
  by pat_completeness auto
termination
  by (relation "measures [case_sum (\<lambda>(_, n, _, _). n) (\<lambda>(_, n, _, _). n), case_sum (\<lambda>(_, _, t, _). size t) (\<lambda>_. 0)]")
    (auto intro: parts_size)

definition unsafeInit :: "env \<Rightarrow> type_decl \<Rightarrow> bool" where
  "unsafeInit E t = fst (unsafeInit_dep E (length (e_structs E)) t {})"

section \<open>Resolution\<close>

function isExprTypeAnyWhere_dep :: "env \<Rightarrow> nat \<Rightarrow> type_decl \<Rightarrow> nat set \<Rightarrow> bool \<times> nat set"
  and Structure_isExprTypeAnyWhere :: "env \<Rightarrow> nat \<Rightarrow> nat \<Rightarrow> nat set \<Rightarrow> bool \<times> nat set" where
  "isExprTypeAnyWhere_dep E n t dep =
    (if baseType t = tFixedArray \<and> fixedDim t = dimConst then (True, dep)
     else if baseType t = tStructure \<and> structType t \<noteq> None then
       let s = the (structType t) in if s \<in> dep then (False, dep) else Structure_isExprTypeAnyWhere E n s (insert s dep)
     else any_dep (isExprTypeAnyWhere_dep E n) (opt_list (firstType t) @ opt_list (secondType t) @ argTypes t) dep)"
| "Structure_isExprTypeAnyWhere E n s dep = (case n of 0 \<Rightarrow> (False, dep) | Suc m \<Rightarrow>
     any_dep (isExprTypeAnyWhere_dep E m) (field_types E s) dep)"
  by pat_completeness auto
termination
  by (relation "measures [case_sum (\<lambda>(_, n, _, _). n) (\<lambda>(_, n, _, _). n), case_sum (\<lambda>(_, _, t, _). size t) (\<lambda>_. 0)]")
    (auto intro: parts_size)

definition isExprTypeAnyWhere :: "env \<Rightarrow> type_decl \<Rightarrow> bool" where
  "isExprTypeAnyWhere E t = fst (isExprTypeAnyWhere_dep E (length (e_structs E)) t {})"

fun isFullyInferred_dep :: "env \<Rightarrow> nat \<Rightarrow> type_decl \<Rightarrow> nat set \<Rightarrow> bool \<times> nat set" where
  "isFullyInferred_dep E n t dep =
    (if isAutoOrAlias t then (False, dep)
     else if baseType t = tStructure then (case structType t of
       Some s \<Rightarrow> if s \<in> dep then (True, dep) else (case n of 0 \<Rightarrow> (True, insert s dep)
         | Suc m \<Rightarrow> all_dep (isFullyInferred_dep E m) (field_types E s) (insert s dep))
     | None \<Rightarrow> (True, dep))
     else (True, dep))"

definition isFullyInferred :: "env \<Rightarrow> type_decl \<Rightarrow> bool" where
  "isFullyInferred E t = fst (isFullyInferred_dep E (length (e_structs E)) t {})"

fun isFullySealed_dep :: "env \<Rightarrow> nat \<Rightarrow> type_decl \<Rightarrow> nat set \<Rightarrow> bool \<times> nat set" where
  "isFullySealed_dep E n t all =
    (if baseType t = autoinfer \<or> baseType t = aliasType then (False, all)
     else if baseType t = tFixedArray \<and> fixedDim t = dimAuto then (False, all)
     else if baseType t = tStructure \<and> structType t \<noteq> None \<and> the (structType t) \<in> all then (True, all)
     else let (b, all1) = (case (if baseType t = tStructure then structType t else None) of
            Some s \<Rightarrow> (case n of 0 \<Rightarrow> (True, insert s all) | Suc m \<Rightarrow> all_dep (isFullySealed_dep E m) (field_types E s) (insert s all))
          | None \<Rightarrow> (True, all))
       in if \<not> b then (False, all1)
          else all_dep (isFullySealed_dep E n) (opt_list (firstType t) @ opt_list (secondType t) @ argTypes t) all1)"

definition isFullySealed :: "env \<Rightarrow> type_decl \<Rightarrow> bool" where
  "isFullySealed E t = fst (isFullySealed_dep E (length (e_structs E)) t {})"

section \<open>Deletion\<close>

function isSafeToDelete_dep :: "env \<Rightarrow> nat \<Rightarrow> type_decl \<Rightarrow> nat set \<Rightarrow> bool \<times> nat set"
  and Structure_isSafeToDelete :: "env \<Rightarrow> nat \<Rightarrow> nat \<Rightarrow> nat set \<Rightarrow> bool \<times> nat set" where
  "isSafeToDelete_dep E n t dep =
    (if baseType t = tPointer then
       (if f_smartPtr (flags t) then True else (case firstType t of None \<Rightarrow> True | Some u \<Rightarrow> baseType u = tVoid), dep)
     else if baseType t = tHandle then (\<not> an_hasNonTrivialDtor (ann_of E t) \<or> an_canDelete (ann_of E t), dep)
     else if baseType t = tStructure then (case structType t of
       Some s \<Rightarrow> if s \<in> dep then (True, dep) else Structure_isSafeToDelete E n s (insert s dep)
     | None \<Rightarrow> (True, dep))
     else if baseType t = tTuple \<or> baseType t = tVariant \<or> baseType t = option
     then all_dep (isSafeToDelete_dep E n) (argTypes t) dep
     else if baseType t = tBlock then (False, dep)
     else if baseType t = tLambda then (False, dep)
     else if baseType t = tTable then all_dep (isSafeToDelete_dep E n) (opt_list (secondType t)) dep
     else if baseType t = tArray \<or> baseType t = tFixedArray then all_dep (isSafeToDelete_dep E n) (opt_list (firstType t)) dep
     else (True, dep))"
| "Structure_isSafeToDelete E n s dep = (case n of 0 \<Rightarrow> (True, dep) | Suc m \<Rightarrow>
     all_dep (\<lambda>fd dep. case isSafeToDelete_dep E m (fd_type fd) dep of (b, dep') \<Rightarrow> (b \<or> fd_do_not_delete fd, dep'))
       (sd_fields (struct_of E s)) dep)"
  by pat_completeness auto
termination
  by (relation "measures [case_sum (\<lambda>(_, n, _, _). n) (\<lambda>(_, n, _, _). n), case_sum (\<lambda>(_, _, t, _). size t) (\<lambda>_. 0)]")
    (auto intro: parts_size)

definition isSafeToDelete :: "env \<Rightarrow> type_decl \<Rightarrow> bool" where
  "isSafeToDelete E t = fst (isSafeToDelete_dep E (length (e_structs E)) t {})"

section \<open>Strings\<close>

function hasStringData_dep :: "env \<Rightarrow> nat \<Rightarrow> type_decl \<Rightarrow> visited \<Rightarrow> bool \<times> visited"
  and Structure_hasStringData :: "env \<Rightarrow> nat \<Rightarrow> nat \<Rightarrow> visited \<Rightarrow> bool \<times> visited" where
  "hasStringData_dep E n t dep =
    (if baseType t = tString then (True, dep)
     else if baseType t = tHandle then
       let a = the (annotation t) in if Inr a \<in> dep then (False, dep) else an_hasStringData (ann_of E t) (insert (Inr a) dep)
     else if baseType t = tStructure then (case structType t of
       Some s \<Rightarrow> if Inl s \<in> dep then (False, dep) else Structure_hasStringData E n s (insert (Inl s) dep)
     | None \<Rightarrow> (False, dep))
     else if baseType t = tTuple \<or> baseType t = tVariant \<or> baseType t = option then any_dep (hasStringData_dep E n) (argTypes t) dep
     else if baseType t = tArray \<or> baseType t = tTable \<or> baseType t = tFixedArray
     then any_dep (hasStringData_dep E n) (opt_list (firstType t) @ opt_list (secondType t)) dep
     else if baseType t = tPointer then any_dep (hasStringData_dep E n) (opt_list (firstType t)) dep
     else (False, dep))"
| "Structure_hasStringData E n s dep = (case n of 0 \<Rightarrow> (False, dep) | Suc m \<Rightarrow>
     any_dep (hasStringData_dep E m) (field_types E s) dep)"
  by pat_completeness auto
termination
  by (relation "measures [case_sum (\<lambda>(_, n, _, _). n) (\<lambda>(_, n, _, _). n), case_sum (\<lambda>(_, _, t, _). size t) (\<lambda>_. 0)]")
    (auto intro: parts_size)

definition hasStringData :: "env \<Rightarrow> type_decl \<Rightarrow> bool" where
  "hasStringData E t = fst (hasStringData_dep E (length (e_structs E)) t {})"

declare isShareable_dep.simps [simp del] isTemp_dep.simps [simp del] unsafeInit_dep.simps [simp del]
  isExprTypeAnyWhere_dep.simps [simp del] isFullyInferred_dep.simps [simp del] isFullySealed_dep.simps [simp del]
  isSafeToDelete_dep.simps [simp del] hasStringData_dep.simps [simp del]

end
