(* ===== verification/TypeReach.thy ===== *)
theory TypeReach
  imports TypeQueries TypeSafety
begin

text \<open>
  The queries answer a question about what can be reached from a type: the interpretations of
  the walk's contract on each of them.
\<close>

definition struct_id :: "type_decl \<Rightarrow> nat option" where
  "struct_id t = (if baseType t = tStructure then structType t else None)"

text \<open>What a value of the type holds, in itself and in the containers it owns.\<close>

definition held :: "type_decl \<Rightarrow> type_decl list" where
  "held t = (if baseType t = tTuple \<or> baseType t = tVariant \<or> baseType t = option then argTypes t
     else if baseType t = tArray \<or> baseType t = tTable \<or> baseType t = tFixedArray then opt_list (firstType t) @ opt_list (secondType t)
     else [])"

definition holds :: "env \<Rightarrow> type_decl \<Rightarrow> type_decl list" where
  "holds E t = (case struct_id t of Some s \<Rightarrow> field_types E s | None \<Rightarrow> held t)"

text \<open>What a value of the type holds in its own storage.\<close>

definition inlined :: "type_decl \<Rightarrow> type_decl list" where
  "inlined t = (if baseType t = tTuple \<or> baseType t = tVariant \<or> baseType t = option then argTypes t
     else if baseType t = tFixedArray then opt_list (firstType t) else [])"

definition inlines :: "env \<Rightarrow> type_decl \<Rightarrow> type_decl list" where
  "inlines E t = (case struct_id t of Some s \<Rightarrow> field_types E s | None \<Rightarrow> inlined t)"

lemma held_smaller: "u \<in> set (held t) \<Longrightarrow> size u < size t"
  by (auto simp: held_def intro: argTypes_size firstType_size secondType_size split: if_splits)

lemma inlined_smaller: "u \<in> set (inlined t) \<Longrightarrow> size u < size t"
  by (auto simp: inlined_def intro: argTypes_size firstType_size split: if_splits)

text \<open>As \<open>held\<close>, but a tag in the second type of an array or fixed array is not looked at.\<close>

definition owned :: "type_decl \<Rightarrow> type_decl list" where
  "owned t = (if baseType t = tTuple \<or> baseType t = tVariant \<or> baseType t = option then argTypes t
     else if baseType t = tArray \<or> baseType t = tFixedArray then opt_list (firstType t)
     else if baseType t = tTable then opt_list (firstType t) @ opt_list (secondType t)
     else [])"

definition owns :: "env \<Rightarrow> type_decl \<Rightarrow> type_decl list" where
  "owns E t = (case struct_id t of Some s \<Rightarrow> field_types E s | None \<Rightarrow> owned t)"

lemma owned_smaller: "u \<in> set (owned t) \<Longrightarrow> size u < size t"
  by (auto simp: owned_def intro: argTypes_size firstType_size secondType_size split: if_splits)

section \<open>The interpretations\<close>

interpretation classes: dep_search "hasClasses_dep E" "\<lambda>_. False"
    struct_id "\<lambda>s. sd_isClass (struct_of E s)" "field_types E" held for E
  by unfold_locales
    (subst hasClasses_dep.simps, simp add: struct_id_def held_def split: option.split nat.split, rule held_smaller)

interpretation ctors: dep_search "hasNonTrivialCtor_dep E" "\<lambda>t. baseType t = tHandle \<and> an_hasNonTrivialCtor (ann_of E t)"
    struct_id "\<lambda>_. False" "field_types E" inlined for E
  by unfold_locales
    (subst hasNonTrivialCtor_dep.simps, simp add: struct_id_def inlined_def split: option.split nat.split, rule inlined_smaller)

interpretation dtors: dep_search "hasNonTrivialDtor_dep E" "\<lambda>t. baseType t = tHandle \<and> an_hasNonTrivialDtor (ann_of E t)"
    struct_id "\<lambda>_. False" "field_types E" held for E
  by unfold_locales
    (subst hasNonTrivialDtor_dep.simps, simp add: struct_id_def held_def split: option.split nat.split, rule held_smaller)

interpretation copies: dep_search "hasNonTrivialCopy_dep E" "\<lambda>t. baseType t = tHandle \<and> an_hasNonTrivialCopy (ann_of E t)"
    struct_id "\<lambda>_. False" "field_types E" held for E
  by unfold_locales
    (subst hasNonTrivialCopy_dep.simps, simp add: struct_id_def held_def split: option.split nat.split, rule held_smaller)

interpretation scopes: dep_search "needInScope_dep E" "\<lambda>t. baseType t = tHandle \<and> an_needInScope (ann_of E t) \<or> baseType t = tPointer \<and> f_smartPtr (flags t)"
    struct_id "\<lambda>_. False" "field_types E" held for E
  by unfold_locales
    (subst needInScope_dep.simps, simp add: struct_id_def held_def split: option.split nat.split, rule held_smaller)

interpretation containers: dep_search "\<lambda>n. neg_dep (canBePlacedInContainer_dep E n)" "\<lambda>t. baseType t = tBlock \<or> baseType t = tHandle \<and> \<not> an_canBePlacedInContainer (ann_of E t)"
    struct_id "\<lambda>_. False" "field_types E" held for E
proof
  show "neg_dep (canBePlacedInContainer_dep E n) t dep = (if baseType t = tBlock \<or> baseType t = tHandle \<and> \<not> an_canBePlacedInContainer (ann_of E t) then (True, dep) else case struct_id t of
      Some s \<Rightarrow> if s \<in> dep then (False, dep) else (case n of 0 \<Rightarrow> (False, insert s dep)
        | Suc m \<Rightarrow> if False then (True, insert s dep) else any_dep (neg_dep (canBePlacedInContainer_dep E m)) (field_types E s) (insert s dep))
    | None \<Rightarrow> any_dep (neg_dep (canBePlacedInContainer_dep E n)) (held t) dep)" for n t dep
    unfolding any_dep_neg by (subst neg_dep_def, subst canBePlacedInContainer_dep.simps)
      (simp add: struct_id_def held_def split: option.split nat.split)
qed (rule held_smaller)

interpretation locals: dep_search "\<lambda>n. neg_dep (isLocal_dep E n)" "\<lambda>t. baseType t = tBlock \<or> baseType t = tHandle \<and> \<not> an_isLocal (ann_of E t)"
    struct_id "\<lambda>_. False" "field_types E" held for E
proof
  show "neg_dep (isLocal_dep E n) t dep = (if baseType t = tBlock \<or> baseType t = tHandle \<and> \<not> an_isLocal (ann_of E t) then (True, dep) else case struct_id t of
      Some s \<Rightarrow> if s \<in> dep then (False, dep) else (case n of 0 \<Rightarrow> (False, insert s dep)
        | Suc m \<Rightarrow> if False then (True, insert s dep) else any_dep (neg_dep (isLocal_dep E m)) (field_types E s) (insert s dep))
    | None \<Rightarrow> any_dep (neg_dep (isLocal_dep E n)) (held t) dep)" for n t dep
    unfolding any_dep_neg by (subst neg_dep_def, subst isLocal_dep.simps)
      (simp add: struct_id_def held_def split: option.split nat.split)
qed (rule held_smaller)

interpretation shares: dep_search "\<lambda>n. neg_dep (isShareable_dep E n)" "\<lambda>t. baseType t \<in> {tIterator, tBlock, tLambda} \<or> baseType t = tHandle \<and> annotation t \<noteq> None \<and> \<not> an_isShareable (ann_of E t)"
    struct_id "\<lambda>_. False" "field_types E" owned for E
proof
  show "neg_dep (isShareable_dep E n) t dep = (if baseType t \<in> {tIterator, tBlock, tLambda} \<or> baseType t = tHandle \<and> annotation t \<noteq> None \<and> \<not> an_isShareable (ann_of E t) then (True, dep) else case struct_id t of
      Some s \<Rightarrow> if s \<in> dep then (False, dep) else (case n of 0 \<Rightarrow> (False, insert s dep)
        | Suc m \<Rightarrow> if False then (True, insert s dep) else any_dep (neg_dep (isShareable_dep E m)) (field_types E s) (insert s dep))
    | None \<Rightarrow> any_dep (neg_dep (isShareable_dep E n)) (owned t) dep)" for n t dep
    unfolding any_dep_neg by (subst neg_dep_def, subst isShareable_dep.simps)
      (simp add: struct_id_def owned_def split: option.split nat.split)
qed (rule owned_smaller)

section \<open>Known structures\<close>

fun known_ids :: "env \<Rightarrow> type_decl \<Rightarrow> bool" where
  "known_ids E (TypeDecl b st en an ft sd args names dim fl al) \<longleftrightarrow>
    (case st of Some s \<Rightarrow> s < length (e_structs E) | None \<Rightarrow> True) \<and> pred_option (known_ids E) ft \<and> pred_option (known_ids E) sd \<and>
    list_all (known_ids E) args"

definition env_ok :: "env \<Rightarrow> bool" where
  "env_ok E \<longleftrightarrow> list_all (\<lambda>sd. list_all (\<lambda>fd. known_ids E (fd_type fd)) (sd_fields sd)) (e_structs E)"

lemma known_ids_parts:
  "known_ids E t \<longleftrightarrow> (case structType t of Some s \<Rightarrow> s < length (e_structs E) | None \<Rightarrow> True) \<and>
    (\<forall>u\<in>set (opt_list (firstType t) @ opt_list (secondType t) @ argTypes t). known_ids E u)"
  by (cases t) (auto simp: list_all_iff pred_option_def)

lemma known_fields: "env_ok E \<Longrightarrow> s < length (e_structs E) \<Longrightarrow> u \<in> set (field_types E s) \<Longrightarrow> known_ids E u"
  by (auto simp: env_ok_def field_types_def struct_of_def list_all_iff)

lemma known_within:
  assumes "within nexts t v" "\<And>t u. known_ids E t \<Longrightarrow> u \<in> set (nexts t) \<Longrightarrow> known_ids E u" "known_ids E t"
  shows "known_ids E v"
  using assms(1,3)
proof (induction rule: within.induct)
  case (down u t v)
  then show ?case using assms(2)[of t u] by simp
qed

lemma known_struct: "known_ids E t \<Longrightarrow> struct_id t = Some s \<Longrightarrow> s < length (e_structs E)"
  by (cases t) (auto simp: struct_id_def split: if_splits)

lemma struct_id_nexts:
  assumes "env_ok E" "\<And>t u. u \<in> set (parts t) \<Longrightarrow> u \<in> set (opt_list (firstType t) @ opt_list (secondType t) @ argTypes t)"
    "known_ids E t" "u \<in> set (case struct_id t of Some s \<Rightarrow> field_types E s | None \<Rightarrow> parts t)"
  shows "known_ids E u"
proof (cases "struct_id t")
  case None
  with assms(2-4) show ?thesis by (auto simp: known_ids_parts[of E t])
next
  case (Some s)
  with assms(1,3,4) show ?thesis by (auto intro: known_fields known_struct)
qed

lemma held_parts: "u \<in> set (held t) \<Longrightarrow> u \<in> set (opt_list (firstType t) @ opt_list (secondType t) @ argTypes t)"
  by (auto simp: held_def split: if_splits)

lemma inlined_parts: "u \<in> set (inlined t) \<Longrightarrow> u \<in> set (opt_list (firstType t) @ opt_list (secondType t) @ argTypes t)"
  by (auto simp: inlined_def split: if_splits)

lemma owned_parts: "u \<in> set (owned t) \<Longrightarrow> u \<in> set (opt_list (firstType t) @ opt_list (secondType t) @ argTypes t)"
  by (auto simp: owned_def split: if_splits)

lemma within_known:
  assumes "env_ok E" "known_ids E t" "\<And>t u. u \<in> set (parts t) \<Longrightarrow> u \<in> set (opt_list (firstType t) @ opt_list (secondType t) @ argTypes t)"
  shows "\<forall>u. within (\<lambda>t. case struct_id t of Some s \<Rightarrow> field_types E s | None \<Rightarrow> parts t) t u \<longrightarrow>
    (case struct_id u of Some s \<Rightarrow> s \<in> {..<length (e_structs E)} | None \<Rightarrow> True)"
proof (intro allI impI)
  fix u assume "within (\<lambda>t. case struct_id t of Some s \<Rightarrow> field_types E s | None \<Rightarrow> parts t) t u"
  then have "known_ids E u" by (rule known_within) (use struct_id_nexts[OF assms(1), of parts] assms in blast)+
  then show "case struct_id u of Some s \<Rightarrow> s \<in> {..<length (e_structs E)} | None \<Rightarrow> True"
    by (auto dest: known_struct split: option.split)
qed

lemma reach_query:
  assumes run: "dep_search run bad struct_id bad_struct (field_types E) parts"
    and parts: "\<And>t u. u \<in> set (parts t) \<Longrightarrow> u \<in> set (opt_list (firstType t) @ opt_list (secondType t) @ argTypes t)"
    and ok: "env_ok E" "known_ids E t"
  shows "fst (run (length (e_structs E)) t {}) \<longleftrightarrow>
    (\<exists>u. within (\<lambda>t. case struct_id t of Some s \<Rightarrow> field_types E s | None \<Rightarrow> parts t) t u \<and>
      (bad u \<or> (case struct_id u of Some s \<Rightarrow> bad_struct s | None \<Rightarrow> False)))"
proof -
  have n: "dep_search.nexts struct_id (field_types E) parts = (\<lambda>t. case struct_id t of Some s \<Rightarrow> field_types E s | None \<Rightarrow> parts t)"
    by (rule ext) (rule dep_search.nexts_def[OF run])
  have "dep_search.known_in struct_id (field_types E) parts {..<length (e_structs E)} t"
    unfolding dep_search.known_in_def[OF run] n by (rule within_known[OF ok parts])
  from dep_search.run_reaches[OF run _ _ this, of "length (e_structs E)"] show ?thesis
    by (simp add: n dep_search.hit_def[OF run])
qed

lemma holds_eq: "(\<lambda>t. case struct_id t of Some s \<Rightarrow> field_types E s | None \<Rightarrow> held t) = holds E"
  by (rule ext) (simp add: holds_def)

lemma inlines_eq: "(\<lambda>t. case struct_id t of Some s \<Rightarrow> field_types E s | None \<Rightarrow> inlined t) = inlines E"
  by (rule ext) (simp add: inlines_def)

lemma owns_eq: "(\<lambda>t. case struct_id t of Some s \<Rightarrow> field_types E s | None \<Rightarrow> owned t) = owns E"
  by (rule ext) (simp add: owns_def)

lemma reach_held:
  assumes "dep_search run bad struct_id bad_struct (field_types E) held" "env_ok E" "known_ids E t"
  shows "fst (run (length (e_structs E)) t {}) \<longleftrightarrow>
    (\<exists>u. within (holds E) t u \<and> (bad u \<or> (case struct_id u of Some s \<Rightarrow> bad_struct s | None \<Rightarrow> False)))"
  by (rule reach_query[OF assms(1) _ assms(2,3), unfolded holds_eq]) (rule held_parts)

lemma reach_inlined:
  assumes "dep_search run bad struct_id bad_struct (field_types E) inlined" "env_ok E" "known_ids E t"
  shows "fst (run (length (e_structs E)) t {}) \<longleftrightarrow>
    (\<exists>u. within (inlines E) t u \<and> (bad u \<or> (case struct_id u of Some s \<Rightarrow> bad_struct s | None \<Rightarrow> False)))"
  by (rule reach_query[OF assms(1) _ assms(2,3), unfolded inlines_eq]) (rule inlined_parts)

lemma reach_owned:
  assumes "dep_search run bad struct_id bad_struct (field_types E) owned" "env_ok E" "known_ids E t"
  shows "fst (run (length (e_structs E)) t {}) \<longleftrightarrow>
    (\<exists>u. within (owns E) t u \<and> (bad u \<or> (case struct_id u of Some s \<Rightarrow> bad_struct s | None \<Rightarrow> False)))"
  by (rule reach_query[OF assms(1) _ assms(2,3), unfolded owns_eq]) (rule owned_parts)

lemma isClass_struct: "isClass E u \<longleftrightarrow> (case struct_id u of Some s \<Rightarrow> sd_isClass (struct_of E s) | None \<Rightarrow> False)"
  by (auto simp: isClass_def isStructure_def struct_id_def split: option.split)

lemma fst_neg_dep: "fst (neg_dep f t d) \<longleftrightarrow> \<not> fst (f t d)"
  by (simp add: neg_dep_def split: prod.split)

lemma no_bad_struct: "(case o' of Some s \<Rightarrow> False | None \<Rightarrow> False) = False"
  by (simp split: option.split)

lemma neg_iff: "(\<not> x) = y \<Longrightarrow> x = (\<not> y)"
  by blast

lemmas kind_defs = isHandle_def isSmartPointer_def isGoodBlockType_def isIterator_def isLambda_def no_bad_struct fst_neg_dep

lemma hasClasses_reach: "env_ok E \<Longrightarrow> known_ids E t \<Longrightarrow> hasClasses E t \<longleftrightarrow> (\<exists>u. within (holds E) t u \<and> (isClass E u))"
  using reach_held[OF classes.dep_search_axioms, of E t] by (simp add: hasClasses_def isClass_struct kind_defs)

lemma hasNonTrivialDtor_reach: "env_ok E \<Longrightarrow> known_ids E t \<Longrightarrow> hasNonTrivialDtor E t \<longleftrightarrow> (\<exists>u. within (holds E) t u \<and> (isHandle u \<and> an_hasNonTrivialDtor (ann_of E u)))"
  using reach_held[OF dtors.dep_search_axioms, of E t] by (simp add: hasNonTrivialDtor_def kind_defs)

lemma hasNonTrivialCopy_reach: "env_ok E \<Longrightarrow> known_ids E t \<Longrightarrow> hasNonTrivialCopy E t \<longleftrightarrow> (\<exists>u. within (holds E) t u \<and> (isHandle u \<and> an_hasNonTrivialCopy (ann_of E u)))"
  using reach_held[OF copies.dep_search_axioms, of E t] by (simp add: hasNonTrivialCopy_def kind_defs)

lemma hasNonTrivialCtor_reach: "env_ok E \<Longrightarrow> known_ids E t \<Longrightarrow> hasNonTrivialCtor E t \<longleftrightarrow> (\<exists>u. within (inlines E) t u \<and> (isHandle u \<and> an_hasNonTrivialCtor (ann_of E u)))"
  using reach_inlined[OF ctors.dep_search_axioms, of E t] by (simp add: hasNonTrivialCtor_def kind_defs)

lemma needInScope_reach: "env_ok E \<Longrightarrow> known_ids E t \<Longrightarrow> needInScope E t \<longleftrightarrow> (\<exists>u. within (holds E) t u \<and> (isHandle u \<and> an_needInScope (ann_of E u) \<or> isSmartPointer u))"
  using reach_held[OF scopes.dep_search_axioms, of E t] by (simp add: needInScope_def kind_defs)

lemma canBePlacedInContainer_reach: "env_ok E \<Longrightarrow> known_ids E t \<Longrightarrow> canBePlacedInContainer E t \<longleftrightarrow> (\<not> (\<exists>u. within (holds E) t u \<and> (isGoodBlockType u \<or> isHandle u \<and> \<not> an_canBePlacedInContainer (ann_of E u))))"
  using reach_held[OF containers.dep_search_axioms, of E t] by (simp add: canBePlacedInContainer_def kind_defs) blast

lemma isLocal_reach: "env_ok E \<Longrightarrow> known_ids E t \<Longrightarrow> isLocal E t \<longleftrightarrow> (\<not> (\<exists>u. within (holds E) t u \<and> (isGoodBlockType u \<or> isHandle u \<and> \<not> an_isLocal (ann_of E u))))"
  using reach_held[OF locals.dep_search_axioms, of E t] by (simp add: isLocal_def kind_defs) blast

lemma isShareable_reach: "env_ok E \<Longrightarrow> known_ids E t \<Longrightarrow> isShareable E t \<longleftrightarrow> (\<not> (\<exists>u. within (owns E) t u \<and> (isIterator u \<or> isGoodBlockType u \<or> isLambda u \<or> isHandle u \<and> annotation u \<noteq> None \<and> \<not> an_isShareable (ann_of E u))))"
  by (rule neg_iff) (use reach_owned[OF shares.dep_search_axioms, of E t] in \<open>simp add: isShareable_def kind_defs\<close>)

section \<open>Properties\<close>

text \<open>C10: Every one of these walks terminates on recursive structures and answers what it is
  asked: whether the type holds, in itself or in containers and structures it owns, a class, a
  type with a non-trivial destructor or copy, a type that needs a scope, a block or a handled
  type that may not be placed in a container or is not local, or (for constructors, which
  heap containers hide) a type with a non-trivial constructor in its own storage.\<close>

theorem type_queries_reach:
  assumes ok: "env_ok E" "known_ids E t"
  shows "(hasClasses E t \<longleftrightarrow> (\<exists>u. within (holds E) t u \<and> isClass E u)) \<and>
    (hasNonTrivialDtor E t \<longleftrightarrow> (\<exists>u. within (holds E) t u \<and> isHandle u \<and> an_hasNonTrivialDtor (ann_of E u))) \<and>
    (hasNonTrivialCopy E t \<longleftrightarrow> (\<exists>u. within (holds E) t u \<and> isHandle u \<and> an_hasNonTrivialCopy (ann_of E u))) \<and>
    (hasNonTrivialCtor E t \<longleftrightarrow> (\<exists>u. within (inlines E) t u \<and> isHandle u \<and> an_hasNonTrivialCtor (ann_of E u))) \<and>
    (needInScope E t \<longleftrightarrow> (\<exists>u. within (holds E) t u \<and> (isHandle u \<and> an_needInScope (ann_of E u) \<or> isSmartPointer u))) \<and>
    (canBePlacedInContainer E t \<longleftrightarrow>
      \<not> (\<exists>u. within (holds E) t u \<and> (isGoodBlockType u \<or> isHandle u \<and> \<not> an_canBePlacedInContainer (ann_of E u)))) \<and>
    (isLocal E t \<longleftrightarrow> \<not> (\<exists>u. within (holds E) t u \<and> (isGoodBlockType u \<or> isHandle u \<and> \<not> an_isLocal (ann_of E u)))) \<and>
    (isShareable E t \<longleftrightarrow> \<not> (\<exists>u. within (owns E) t u \<and> (isIterator u \<or> isGoodBlockType u \<or> isLambda u \<or>
      isHandle u \<and> annotation u \<noteq> None \<and> \<not> an_isShareable (ann_of E u))))"
  using ok by (simp only: hasClasses_reach hasNonTrivialDtor_reach hasNonTrivialCopy_reach hasNonTrivialCtor_reach needInScope_reach
      canBePlacedInContainer_reach isLocal_reach isShareable_reach)

definition demo_ann :: ann_decl where
  "demo_ann = \<lparr>an_isRefType = True, an_canMove = True, an_canCopy = False, an_canClone = True, an_isPod = False, an_isRawPod = False,
     an_hasNonTrivialCtor = True, an_hasNonTrivialDtor = True, an_hasNonTrivialCopy = True, an_canBePlacedInContainer = False,
     an_isLocal = False, an_needInScope = False, an_canNew = True, an_canDelete = True, an_needDelete = True, an_canDeletePtr = True,
     an_isShareable = True, an_canSubstitute = (\<lambda>_. False), an_canBeSubstituted = (\<lambda>_. False), an_sizeOf = 24, an_alignOf = 8,
     an_hasStringData = (\<lambda>d. (False, d)), an_canAot = (\<lambda>d. (True, d))\<rparr>"

definition demo_struct :: "field_decl list \<Rightarrow> struct_decl" where
  "demo_struct fs = \<lparr>sd_name = ''S'', sd_fields = fs, sd_parent = None, sd_isClass = False, sd_circular = False,
     sd_safeWhenUninitialized = False, sd_hasDefaultInitializer = False, sd_cppLayout = False, sd_cppLayoutNotPod = False\<rparr>"

definition demo_field :: "bool \<Rightarrow> type_decl \<Rightarrow> field_decl" where
  "demo_field dnd t = \<lparr>fd_name = ''f'', fd_type = t, fd_init = False, fd_do_not_delete = dnd\<rparr>"

text \<open>\<open>struct S { children : array<S>; handle : H }\<close>.\<close>

definition demo_env :: env where
  "demo_env = \<lparr>e_structs = [demo_struct [
       demo_field False (TypeDecl tArray None None None (Some (new_struct_type 0)) None [] [] 0 no_flags ''''),
       demo_field False (TypeDecl tHandle None None (Some 0) None None [] [] 0 no_flags '''')]],
     e_anns = (\<lambda>_. demo_ann), e_enums = (\<lambda>_. tInt)\<rparr>"

lemma type_queries_reach_witness:
  "(\<exists>u. within (holds demo_env) (new_struct_type 0) u \<and> isHandle u \<and> an_hasNonTrivialDtor (ann_of demo_env u)) \<and>
    \<not> (\<exists>u. within (holds demo_env) (new_struct_type 0) u \<and> isClass demo_env u)"
proof -
  have ok: "env_ok demo_env" "known_ids demo_env (new_struct_type 0)"
    by (simp_all add: demo_env_def env_ok_def demo_struct_def demo_field_def new_struct_type_def)
  have "hasNonTrivialDtor demo_env (new_struct_type 0)" "\<not> hasClasses demo_env (new_struct_type 0)"
    by code_simp+
  with type_queries_reach[OF ok] show ?thesis by blast
qed

section \<open>A field that is not deleted hides its type\<close>


text \<open>A structure with a field of an unsafe structure type (one that holds a lambda) is not
  safe to delete, but it becomes safe once another field of the same type comes before it that
  is annotated \<open>do_not_delete\<close>: visiting that field puts the unsafe structure into the visited
  set, and the answer for it is dropped.\<close>

theorem do_not_delete_hides_field:
  assumes s: "sd_fields (struct_of E s) = [l]" "baseType (fd_type l) = tLambda" "\<not> fd_do_not_delete l"
    and one: "sd_fields (struct_of E u) = [b]"
    and two: "sd_fields (struct_of E t) = [a, b]" "fd_do_not_delete a" "\<not> fd_do_not_delete b"
    and types: "fd_type a = new_struct_type s" "fd_type b = new_struct_type s"
    and ids: "distinct [s, t, u]" "2 \<le> length (e_structs E)"
  shows "\<not> isSafeToDelete E (new_struct_type s) \<and> \<not> isSafeToDelete E (new_struct_type u) \<and> isSafeToDelete E (new_struct_type t)"
proof -
  from ids(2) obtain n where n: "length (e_structs E) = Suc (Suc n)" by (cases "length (e_structs E)" rule: nat.exhaust; cases "length (e_structs E) - 1") auto
  have st: "baseType (new_struct_type x) = tStructure" "structType (new_struct_type x) = Some x" for x
    by (simp_all add: new_struct_type_def)
  have step: "isSafeToDelete_dep E k (new_struct_type x) d = (if x \<in> d then (True, d) else Structure_isSafeToDelete E k x (insert x d))" for k x d
    by (subst isSafeToDelete_dep.simps) (simp add: st)
  have lam: "isSafeToDelete_dep E k (fd_type l) d = (False, d)" for k d
    using s(2) by (subst isSafeToDelete_dep.simps) simp
  show ?thesis
    using s one two types ids(1) lam by (simp add: isSafeToDelete_def n step)
qed

definition unsafe_env :: env where
  "unsafe_env = \<lparr>e_structs = [demo_struct [demo_field False (new_type tLambda)],
       demo_struct [demo_field True (new_struct_type 0), demo_field False (new_struct_type 0)],
       demo_struct [demo_field False (new_struct_type 0)]],
     e_anns = (\<lambda>_. demo_ann), e_enums = (\<lambda>_. tInt)\<rparr>"

lemma do_not_delete_hides_field_witness:
  "isSafeToDelete unsafe_env (new_struct_type 1) \<and> \<not> isSafeToDelete unsafe_env (new_struct_type 2)"
  using do_not_delete_hides_field[of unsafe_env 0 "demo_field False (new_type tLambda)" 2 "demo_field False (new_struct_type 0)"
      1 "demo_field True (new_struct_type 0)"]
  by (simp add: unsafe_env_def struct_of_def demo_struct_def demo_field_def new_type_def)

end
