(* ===== verification/TypeCopy.thy ===== *)
theory TypeCopy
  imports TypeAlias TypeReach
begin

text \<open>
  May a value be copied, moved, cloned. \<open>Structure\<close> breaks recursion with its \<open>circularGuard\<close>,
  set while the structure is being looked at and reset on every exit: the guarded structures
  are the ones on the path, the argument \<open>g\<close>.
\<close>

section \<open>The queries\<close>

function canMove_in :: "env \<Rightarrow> nat \<Rightarrow> nat set \<Rightarrow> type_decl \<Rightarrow> bool"
  and Structure_canMove :: "env \<Rightarrow> nat \<Rightarrow> nat set \<Rightarrow> nat \<Rightarrow> bool" where
  "canMove_in E n g t =
    (if baseType t = tFixedArray then list_all (canMove_in E n g) (opt_list (firstType t))
     else if baseType t = tHandle then an_canMove (ann_of E t)
     else if baseType t = tBlock then False
     else if baseType t = tStructure \<and> structType t \<noteq> None then
       let s = the (structType t) in if \<not> sd_circular (struct_of E s) then Structure_canMove E n g s else False
     else if baseType t = tTuple \<or> baseType t = tVariant \<or> baseType t = option then list_all (canMove_in E n g) (argTypes t)
     else True)"
| "Structure_canMove E n g s = (if s \<in> g then True else case n of 0 \<Rightarrow> True | Suc m \<Rightarrow>
     list_all (canMove_in E m (insert s g)) (field_types E s))"
  by pat_completeness auto
termination
  by (relation "measures [case_sum (\<lambda>(_, n, _, _). n) (\<lambda>(_, n, _, _). n), case_sum (\<lambda>(_, _, _, t). size t) (\<lambda>_. 0)]")
    (auto intro: parts_size)

definition canMove :: "env \<Rightarrow> type_decl \<Rightarrow> bool" where
  "canMove E t = canMove_in E (length (e_structs E)) {} t"

function canCloneFromConst_in :: "env \<Rightarrow> nat \<Rightarrow> nat set \<Rightarrow> type_decl \<Rightarrow> bool"
  and Structure_canCloneFromConst :: "env \<Rightarrow> nat \<Rightarrow> nat set \<Rightarrow> nat \<Rightarrow> bool" where
  "canCloneFromConst_in E n g t =
    (if baseType t = tFixedArray then list_all (canCloneFromConst_in E n g) (opt_list (firstType t))
     else if baseType t = tHandle then an_canClone (ann_of E t)
     else if baseType t = tStructure \<and> structType t \<noteq> None then
       let s = the (structType t) in if \<not> sd_circular (struct_of E s) then Structure_canCloneFromConst E n g s else False
     else if baseType t = tTuple \<or> baseType t = tVariant \<or> baseType t = option
     then list_all (canCloneFromConst_in E n g) (argTypes t)
     else if baseType t = tPointer then
       if f_smartPtr (flags t) \<or> f_smartPtrNative (flags t) then True
       else (case firstType t of None \<Rightarrow> True | Some u \<Rightarrow> if isVoid u then True else if f_constant (flags u) then True else False)
     else True)"
| "Structure_canCloneFromConst E n g s = (if s \<in> g then True else case n of 0 \<Rightarrow> True | Suc m \<Rightarrow>
     list_all (canCloneFromConst_in E m (insert s g)) (field_types E s))"
  by pat_completeness auto
termination
  by (relation "measures [case_sum (\<lambda>(_, n, _, _). n) (\<lambda>(_, n, _, _). n), case_sum (\<lambda>(_, _, _, t). size t) (\<lambda>_. 0)]")
    (auto intro: parts_size)

definition canCloneFromConst :: "env \<Rightarrow> type_decl \<Rightarrow> bool" where
  "canCloneFromConst E t = canCloneFromConst_in E (length (e_structs E)) {} t"

function canClone_in :: "env \<Rightarrow> nat \<Rightarrow> nat set \<Rightarrow> type_decl \<Rightarrow> bool"
  and Structure_canClone :: "env \<Rightarrow> nat \<Rightarrow> nat set \<Rightarrow> nat \<Rightarrow> bool" where
  "canClone_in E n g t =
    (if baseType t = tFixedArray then list_all (canClone_in E n g) (opt_list (firstType t))
     else if baseType t = tHandle then an_canClone (ann_of E t)
     else if baseType t = tStructure \<and> structType t \<noteq> None then
       let s = the (structType t) in if \<not> sd_circular (struct_of E s) then Structure_canClone E n g s else False
     else if baseType t = tTuple \<or> baseType t = tVariant \<or> baseType t = option then list_all (canClone_in E n g) (argTypes t)
     else if baseType t = tBlock then False
     else if baseType t = tIterator then False
     else if baseType t = tPointer then True
     else if baseType t = tLambda then False
     else True)"
| "Structure_canClone E n g s = (if s \<in> g then True else case n of 0 \<Rightarrow> True | Suc m \<Rightarrow>
     list_all (canClone_in E m (insert s g)) (field_types E s))"
  by pat_completeness auto
termination
  by (relation "measures [case_sum (\<lambda>(_, n, _, _). n) (\<lambda>(_, n, _, _). n), case_sum (\<lambda>(_, _, _, t). size t) (\<lambda>_. 0)]")
    (auto intro: parts_size)

definition canClone :: "env \<Rightarrow> type_decl \<Rightarrow> bool" where
  "canClone E t = canClone_in E (length (e_structs E)) {} t"

function canCopy_in :: "env \<Rightarrow> bool \<Rightarrow> nat \<Rightarrow> nat set \<Rightarrow> type_decl \<Rightarrow> bool"
  and Structure_canCopy :: "env \<Rightarrow> bool \<Rightarrow> nat \<Rightarrow> nat set \<Rightarrow> nat \<Rightarrow> bool" where
  "canCopy_in E tempMatters n g t =
    (if baseType t = tFixedArray then list_all (canCopy_in E tempMatters n g) (opt_list (firstType t))
     else if baseType t = tHandle then an_canCopy (ann_of E t)
     else if baseType t = tArray \<or> baseType t = tTable \<or> baseType t = tBlock \<or> baseType t = tIterator then False
     else if baseType t = tStructure \<and> structType t \<noteq> None then
       let s = the (structType t) in if \<not> sd_circular (struct_of E s) then Structure_canCopy E tempMatters n g s else False
     else if baseType t = tTuple \<or> baseType t = tVariant \<or> baseType t = option
     then list_all (canCopy_in E tempMatters n g) (argTypes t)
     else if baseType t = tPointer then \<not> f_smartPtr (flags t)
     else if baseType t = tLambda then True
     else if baseType t = tString then (if tempMatters then False else True)
     else True)"
| "Structure_canCopy E tempMatters n g s = (if s \<in> g then True else case n of 0 \<Rightarrow> True | Suc m \<Rightarrow>
     list_all (canCopy_in E tempMatters m (insert s g)) (field_types E s))"
  by pat_completeness auto
termination
  by (relation "measures [case_sum (\<lambda>(_, _, n, _, _). n) (\<lambda>(_, _, n, _, _). n), case_sum (\<lambda>(_, _, _, _, t). size t) (\<lambda>_. 0)]")
    (auto intro: parts_size)

definition canCopy :: "env \<Rightarrow> bool \<Rightarrow> type_decl \<Rightarrow> bool" where
  "canCopy E tempMatters t = canCopy_in E tempMatters (length (e_structs E)) {} t"

declare canMove_in.simps [simp del] canCloneFromConst_in.simps [simp del] canClone_in.simps [simp del] canCopy_in.simps [simp del]

section \<open>A walk that remembers its path\<close>

inductive within_avoiding :: "('t \<Rightarrow> nat option) \<Rightarrow> ('t \<Rightarrow> 't list) \<Rightarrow> nat set \<Rightarrow> 't \<Rightarrow> 't \<Rightarrow> bool" for strct nexts g where
  at_end: "within_avoiding strct nexts g t t"
| go: "u \<in> set (nexts t) \<Longrightarrow> (\<And>s. strct t = Some s \<Longrightarrow> s \<notin> g) \<Longrightarrow> within_avoiding strct nexts g u v \<Longrightarrow>
    within_avoiding strct nexts g t v"

lemma within_avoiding_empty: "within nexts t v \<longleftrightarrow> within_avoiding strct nexts {} t v"
proof
  show "within nexts t v \<Longrightarrow> within_avoiding strct nexts {} t v"
    by (induction rule: within.induct) (auto intro: within_avoiding.intros)
  show "within_avoiding strct nexts {} t v \<Longrightarrow> within nexts t v"
    by (induction rule: within_avoiding.induct) (auto intro: within.intros)
qed

text \<open>Either the way does not enter \<open>s\<close> or its last visit of \<open>s\<close> leaves through a field.\<close>

lemma last_visit:
  "within_avoiding strct nexts g t v \<Longrightarrow> within_avoiding strct nexts (insert s g) t v \<or>
    (\<exists>r u. strct r = Some s \<and> u \<in> set (nexts r) \<and> within_avoiding strct nexts (insert s g) u v)"
proof (induction rule: within_avoiding.induct)
  case (go u t v)
  show ?case
  proof (cases "strct t = Some s")
    case True
    with go show ?thesis by blast
  next
    case False
    with go show ?thesis by (auto intro: within_avoiding.go)
  qed
qed (auto intro: within_avoiding.at_end)

locale path_search =
  fixes run :: "nat \<Rightarrow> nat set \<Rightarrow> 't::size \<Rightarrow> bool"
    and bad :: "'t \<Rightarrow> bool"
    and strct :: "'t \<Rightarrow> nat option"
    and fields_of :: "nat \<Rightarrow> 't list"
    and parts :: "'t \<Rightarrow> 't list"
  assumes run_eq: "run n g t = (\<not> bad t \<and> (case strct t of
      Some s \<Rightarrow> if s \<in> g then True else (case n of 0 \<Rightarrow> True | Suc m \<Rightarrow> list_all (run m (insert s g)) (fields_of s))
    | None \<Rightarrow> list_all (run n g) (parts t)))"
    and parts_smaller: "u \<in> set (parts t) \<Longrightarrow> size u < size t"
begin

definition nexts :: "'t \<Rightarrow> 't list" where
  "nexts t = (case strct t of Some s \<Rightarrow> fields_of s | None \<Rightarrow> parts t)"

lemma run_refutes: "\<not> run n g t \<Longrightarrow> \<exists>u. within nexts t u \<and> bad u"
proof (induction n t arbitrary: g rule: wf_induct_rule[OF wf_measures[of "[fst, size \<circ> snd]"], of _ "(n, t)" for n t, split_format (complete)])
  case (1 n t)
  show ?case
  proof (cases "bad t")
    case True
    then show ?thesis by (blast intro: within.here)
  next
    case False
    have "\<exists>m u g'. u \<in> set (nexts t) \<and> (m < n \<or> m = n \<and> size u < size t) \<and> \<not> run m g' u"
    proof (cases "strct t")
      case None
      with 1(2) False run_eq[of n g t] obtain u where "u \<in> set (parts t)" "\<not> run n g u" by (auto simp: list_all_iff)
      with None parts_smaller show ?thesis by (auto simp: nexts_def)
    next
      case (Some s)
      with 1(2) False run_eq[of n g t] obtain m u where "n = Suc m" "u \<in> set (fields_of s)" "\<not> run m (insert s g) u"
        by (auto simp: list_all_iff split: if_splits nat.splits)
      with Some show ?thesis by (auto simp: nexts_def)
    qed
    then obtain m u g' where u: "u \<in> set (nexts t)" "m < n \<or> m = n \<and> size u < size t" "\<not> run m g' u" by blast
    then have "\<exists>v. within nexts u v \<and> bad v" using 1(1)[of m u g'] by auto
    with u(1) show ?thesis by (blast intro: within.down)
  qed
qed

lemma run_accepts:
  assumes "finite U" "card (U - g) \<le> n" "\<forall>u. within nexts t u \<longrightarrow> (case strct u of Some s \<Rightarrow> s \<in> U | None \<Rightarrow> True)"
    and "run n g t" "within_avoiding strct nexts g t v"
  shows "\<not> bad v"
  using assms(2-)
proof (induction n t arbitrary: g rule: wf_induct_rule[OF wf_measures[of "[fst, size \<circ> snd]"], of _ "(n, t)" for n t, split_format (complete)])
  case (1 n t)
  have nb: "\<not> bad t" using 1(4) run_eq[of n g t] by blast
  from 1(5) show ?case
  proof (cases rule: within_avoiding.cases)
    case at_end
    with nb show ?thesis by simp
  next
    case (go u)
    have kn: "\<forall>w. within nexts x w \<longrightarrow> (case strct w of Some s \<Rightarrow> s \<in> U | None \<Rightarrow> True)" if "x \<in> set (nexts t)" for x
      using 1(3) that by (blast intro: within.down)
    show ?thesis
    proof (cases "strct t")
      case None
      then have "u \<in> set (parts t)" using go(1) by (simp add: nexts_def)
      moreover from this have "run n g u" using 1(4) run_eq[of n g t] None by (simp add: list_all_iff)
      ultimately show ?thesis using 1(1)[of n u g] 1(2) kn[OF go(1)] go(3) parts_smaller by auto
    next
      case (Some s)
      with go(2) have s: "s \<notin> g" by blast
      have "s \<in> U" using 1(3) Some within.here[of nexts t] by force
      then have c: "card (U - insert s g) < card (U - g)" using s \<open>finite U\<close> by (intro psubset_card_mono) auto
      with 1(2) obtain m where m: "n = Suc m" by (cases n) auto
      have all: "list_all (run m (insert s g)) (fields_of s)" using 1(4) run_eq[of n g t] Some s m by simp
      obtain w where w: "w \<in> set (fields_of s)" "within_avoiding strct nexts (insert s g) w v"
        using last_visit[OF go(3), of s] go(1) Some by (auto simp: nexts_def)
      have wt: "w \<in> set (nexts t)" using w(1) Some by (simp add: nexts_def)
      have "run m (insert s g) w" using all w(1) by (simp add: list_all_iff)
      with 1(1)[of m w "insert s g"] m c 1(2) kn[OF wt] w(2) show ?thesis by auto
    qed
  qed
qed

theorem run_reaches:
  assumes "finite U" "card U \<le> n" "\<forall>u. within nexts t u \<longrightarrow> (case strct u of Some s \<Rightarrow> s \<in> U | None \<Rightarrow> True)"
  shows "run n {} t \<longleftrightarrow> \<not> (\<exists>u. within nexts t u \<and> bad u)"
  using run_refutes[of n "{}" t] run_accepts[OF assms(1) _ assms(3), of "{}" n] assms(2)
  by (auto simp: within_avoiding_empty[of nexts t _ strct])

end

section \<open>What the queries answer\<close>

definition circular_struct :: "env \<Rightarrow> type_decl \<Rightarrow> bool" where
  "circular_struct E t \<longleftrightarrow> (case struct_id t of Some s \<Rightarrow> sd_circular (struct_of E s) | None \<Rightarrow> False)"

definition no_move :: "env \<Rightarrow> type_decl \<Rightarrow> bool" where
  "no_move E t \<longleftrightarrow> circular_struct E t \<or> isHandle t \<and> \<not> an_canMove (ann_of E t) \<or> isGoodBlockType t"

definition no_clone :: "env \<Rightarrow> type_decl \<Rightarrow> bool" where
  "no_clone E t \<longleftrightarrow> circular_struct E t \<or> isHandle t \<and> \<not> an_canClone (ann_of E t) \<or> isGoodBlockType t \<or> isIterator t \<or> isLambda t"

definition no_clone_const :: "env \<Rightarrow> type_decl \<Rightarrow> bool" where
  "no_clone_const E t \<longleftrightarrow> circular_struct E t \<or> isHandle t \<and> \<not> an_canClone (ann_of E t) \<or>
     isPointer t \<and> \<not> isVoidPointer t \<and> \<not> f_smartPtr (flags t) \<and> \<not> f_smartPtrNative (flags t) \<and>
       (case firstType t of Some u \<Rightarrow> \<not> isConst u | None \<Rightarrow> False)"

definition no_copy :: "env \<Rightarrow> bool \<Rightarrow> type_decl \<Rightarrow> bool" where
  "no_copy E tempMatters t \<longleftrightarrow> circular_struct E t \<or> isHandle t \<and> \<not> an_canCopy (ann_of E t) \<or>
     baseType t \<in> {tArray, tTable, tBlock, tIterator} \<or> isSmartPointer t \<or> isString t \<and> tempMatters"

lemmas no_defs = no_move_def no_clone_def no_clone_const_def no_copy_def circular_struct_def struct_id_def isHandle_def
  isGoodBlockType_def isIterator_def isLambda_def isPointer_def isVoidPointer_def isVoid_def isConst_def isSmartPointer_def isString_def

interpretation moves: path_search "canMove_in E" "no_move E" struct_id "field_types E" inlined for E
  by unfold_locales
    (subst canMove_in.simps, simp add: no_defs inlined_def Let_def split: option.split nat.split, rule inlined_smaller)

interpretation clones: path_search "canClone_in E" "no_clone E" struct_id "field_types E" inlined for E
  by unfold_locales
    (subst canClone_in.simps, simp add: no_defs inlined_def Let_def split: option.split nat.split, rule inlined_smaller)

interpretation const_clones: path_search "canCloneFromConst_in E" "no_clone_const E" struct_id "field_types E" inlined for E
  by unfold_locales
    (subst canCloneFromConst_in.simps, case_tac "firstType t", simp_all add: no_defs inlined_def Let_def split: option.split nat.split,
     rule_tac [!] inlined_smaller, simp_all add: inlined_def)

interpretation copying: path_search "canCopy_in E tempMatters" "no_copy E tempMatters" struct_id "field_types E" inlined for E tempMatters
  by unfold_locales
    (subst canCopy_in.simps, simp add: no_defs inlined_def Let_def split: option.split nat.split, rule inlined_smaller)

lemma path_query:
  assumes "path_search run bad struct_id (field_types E) inlined" "env_ok E" "known_ids E t"
  shows "run (length (e_structs E)) {} t \<longleftrightarrow> \<not> (\<exists>u. within (inlines E) t u \<and> bad u)"
proof -
  have n: "path_search.nexts struct_id (field_types E) inlined = inlines E"
    by (rule ext) (simp add: path_search.nexts_def[OF assms(1)] inlines_def)
  have "\<forall>u. within (inlines E) t u \<longrightarrow> (case struct_id u of Some s \<Rightarrow> s \<in> {..<length (e_structs E)} | None \<Rightarrow> True)"
    using within_known[OF assms(2,3), of inlined] inlined_parts unfolding inlines_eq by blast
  from path_search.run_reaches[OF assms(1), unfolded n, OF _ _ this] show ?thesis by simp
qed

text \<open>C13: A type may be moved, cloned, cloned from a constant or copied exactly if nothing it
  stores in itself (through structures, tuples, variants and fixed arrays, however nested or
  recursive) forbids it: a structure marked circular, a handled type that refuses, a block; for
  cloning also iterators and lambdas; from a constant, a plain pointer to something mutable;
  for copying, arrays, tables, iterators and smart pointers, and strings when temporaries matter.\<close>

theorem copy_move_clone_decided:
  assumes "env_ok E" "known_ids E t"
  shows "(canMove E t \<longleftrightarrow> \<not> (\<exists>u. within (inlines E) t u \<and> no_move E u)) \<and>
    (canClone E t \<longleftrightarrow> \<not> (\<exists>u. within (inlines E) t u \<and> no_clone E u)) \<and>
    (canCloneFromConst E t \<longleftrightarrow> \<not> (\<exists>u. within (inlines E) t u \<and> no_clone_const E u)) \<and>
    (canCopy E tempMatters t \<longleftrightarrow> \<not> (\<exists>u. within (inlines E) t u \<and> no_copy E tempMatters u))"
  unfolding canMove_def canClone_def canCloneFromConst_def canCopy_def
  using path_query[OF moves.path_search_axioms assms] path_query[OF clones.path_search_axioms assms]
    path_query[OF const_clones.path_search_axioms assms] path_query[OF copying.path_search_axioms assms, of tempMatters]
  by simp

lemma copy_move_clone_decided_witness:
  "\<not> (\<exists>u. within (inlines demo_env) (new_struct_type 0) u \<and> no_move demo_env u) \<and>
    (\<exists>u. within (inlines demo_env) (new_struct_type 0) u \<and> no_copy demo_env False u)"
proof -
  have ok: "env_ok demo_env" "known_ids demo_env (new_struct_type 0)"
    by (simp_all add: demo_env_def env_ok_def demo_struct_def demo_field_def new_struct_type_def)
  have "canMove demo_env (new_struct_type 0)" "\<not> canCopy demo_env False (new_struct_type 0)" by code_simp+
  with copy_move_clone_decided[OF ok, of False] show ?thesis by blast
qed

end
