(* ===== verification/SameType.thy ===== *)
theory SameType
  imports TypeAlias
begin

text \<open>
  \<open>TypeDecl::isSameType\<close> and \<open>Structure::isCompatibleCast\<close>. The \<open>...Matters\<close> and
  \<open>AllowSubstitute\<close> arguments are bools, true for \<open>yes\<close>.
\<close>

section \<open>Casts to a parent\<close>

text \<open>The loop over the parents; \<open>n\<close> bounds their number, \<open>None\<close> when it is used up.\<close>

fun parent_loop :: "env \<Rightarrow> nat \<Rightarrow> nat \<Rightarrow> nat option \<Rightarrow> bool option" where
  "parent_loop E n this None = Some False"
| "parent_loop E 0 this (Some p) = None"
| "parent_loop E (Suc n) this (Some p) = (if p = this then Some True else parent_loop E n this (sd_parent (struct_of E p)))"

definition isCompatibleCast :: "env \<Rightarrow> nat \<Rightarrow> nat \<Rightarrow> bool" where
  "isCompatibleCast E this castS = (if this = castS then True
     else parent_loop E (length (e_structs E)) this (sd_parent (struct_of E castS)) = Some True)"

section \<open>The comparison\<close>

definition unsigned_enum :: "env \<Rightarrow> nat \<Rightarrow> bool" where
  "unsigned_enum E e \<longleftrightarrow> e_enums E e = tUInt8 \<or> e_enums E e = tUInt16 \<or> e_enums E e = tUInt64"

definition signednessMismatch :: "env \<Rightarrow> type_decl \<Rightarrow> type_decl \<Rightarrow> bool" where
  "signednessMismatch E stub concrete = (case enumType concrete of
     None \<Rightarrow> False
   | Some e \<Rightarrow> if \<not> f_enumStubBinding (flags stub) then False else f_enumStubIsUnsigned (flags stub) \<noteq> unsigned_enum E e)"

definition isVoidOpt :: "type_decl option \<Rightarrow> bool" where
  "isVoidOpt u = (case u of None \<Rightarrow> True | Some v \<Rightarrow> isVoid v)"

text \<open>Two components compared when both are there; the arguments compared in pairs.\<close>

definition opt_same :: "('a \<Rightarrow> 'a \<Rightarrow> bool) \<Rightarrow> 'a option \<Rightarrow> 'a option \<Rightarrow> bool" where
  "opt_same f a b = (case a of None \<Rightarrow> True | Some u \<Rightarrow> (case b of None \<Rightarrow> True | Some v \<Rightarrow> f u v))"

definition list_same :: "('a \<Rightarrow> 'a \<Rightarrow> bool) \<Rightarrow> 'a list \<Rightarrow> 'a list \<Rightarrow> bool" where
  "list_same f as bs = list_all (\<lambda>(u, v). f u v) (zip as bs)"

lemma opt_same_cong [fundef_cong]:
  "a = a' \<Longrightarrow> b = b' \<Longrightarrow> (\<And>u v. a' = Some u \<Longrightarrow> f u v = g u v) \<Longrightarrow> opt_same f a b = opt_same g a' b'"
  by (auto simp: opt_same_def split: option.split)

lemma list_same_cong [fundef_cong]:
  "as = as' \<Longrightarrow> bs = bs' \<Longrightarrow> (\<And>u v. u \<in> set as' \<Longrightarrow> f u v = g u v) \<Longrightarrow> list_same f as bs = list_same g as' bs'"
proof -
  assume a: "as = as'" "bs = bs'" "\<And>u v. u \<in> set as' \<Longrightarrow> f u v = g u v"
  then have "\<forall>(u, v)\<in>set (zip as' bs'). f u v = g u v" by (auto dest: set_zip_leftD)
  with a(1,2) show ?thesis by (auto simp: list_same_def list_all_iff)
qed

definition flags_differ :: "env \<Rightarrow> type_decl \<Rightarrow> type_decl \<Rightarrow> bool \<Rightarrow> bool \<Rightarrow> bool \<Rightarrow> bool \<Rightarrow> bool" where
  "flags_differ E t d refMatters constMatters0 temporaryMatters0 topLevel =
    (let constMatters = (if topLevel \<and> \<not> isPointer t \<and> \<not> isRef E t then False else constMatters0);
         temporaryMatters = (if topLevel \<and> \<not> isTempType E t True then False else temporaryMatters0)
     in if refMatters \<and> f_ref (flags t) \<noteq> f_ref (flags d) then True
        else if constMatters \<and> f_constant (flags t) \<noteq> f_constant (flags d) then True
        else temporaryMatters \<and> f_temporary (flags t) \<noteq> f_temporary (flags d))"

definition same_handle :: "env \<Rightarrow> type_decl \<Rightarrow> type_decl \<Rightarrow> bool \<Rightarrow> bool" where
  "same_handle E t d allowSubstitute =
    (if annotation t \<noteq> annotation d then
       \<not> f_isExplicit (flags t) \<and> allowSubstitute \<and>
         (an_canSubstitute (ann_of E t) (the (annotation d)) \<or> an_canBeSubstituted (ann_of E d) (the (annotation t)))
     else True)"

definition same_struct :: "env \<Rightarrow> type_decl \<Rightarrow> type_decl \<Rightarrow> bool \<Rightarrow> bool" where
  "same_struct E t d allowSubstitute =
    (if structType t \<noteq> structType d then
       \<not> f_isExplicit (flags t) \<and> allowSubstitute \<and>
         (case (structType t, structType d) of (Some a, Some b) \<Rightarrow> isCompatibleCast E a b | _ \<Rightarrow> False)
     else True)"

definition same_enum :: "env \<Rightarrow> type_decl \<Rightarrow> type_decl \<Rightarrow> bool" where
  "same_enum E t d =
    (if enumType t \<noteq> None \<and> enumType d \<noteq> None \<and> enumType t \<noteq> enumType d then False
     else if baseType t = tEnumeration8 \<or> baseType t = tEnumeration16 \<or> baseType t = tEnumeration64 then
       if signednessMismatch E t d then False else \<not> signednessMismatch E d t
     else True)"

definition same_bitfield :: "type_decl \<Rightarrow> type_decl \<Rightarrow> bool \<Rightarrow> bool" where
  "same_bitfield t d topLevel =
    (let iAmAnyBitfield = (argNames t = []); heIsAnyBitfield = (argNames d = []) in
     if \<not> topLevel \<and> iAmAnyBitfield \<noteq> heIsAnyBitfield then False
     else if \<not> iAmAnyBitfield \<and> \<not> heIsAnyBitfield then argNames t = argNames d
     else True)"

function isSameType :: "env \<Rightarrow> type_decl \<Rightarrow> type_decl \<Rightarrow> bool \<Rightarrow> bool \<Rightarrow> bool \<Rightarrow> bool \<Rightarrow> bool \<Rightarrow> bool \<Rightarrow> bool" where
  "isSameType E t d refMatters constMatters temporaryMatters allowSubstitute topLevel isPassType =
    (if baseType t \<noteq> baseType d then False
     else if flags_differ E t d refMatters constMatters temporaryMatters topLevel then False
     else if baseType t = tHandle then same_handle E t d allowSubstitute
     else if baseType t = tStructure then same_struct E t d allowSubstitute
     else if baseType t = tArray then opt_same (\<lambda>u v. isSameType E u v True True True False False False) (firstType t) (firstType d)
     else if baseType t = tFixedArray then fixedDim t = fixedDim d \<and>
         opt_same (\<lambda>u v. isSameType E u v True True True False False False) (firstType t) (firstType d)
     else if baseType t = tTable then
         opt_same (\<lambda>u v. isSameType E u v True True True False False False) (firstType t) (firstType d) \<and>
         opt_same (\<lambda>u v. isSameType E u v True True True False False False) (secondType t) (secondType d)
     else if baseType t = tPointer \<or> baseType t = tIterator then
         if f_smartPtr (flags t) \<noteq> f_smartPtr (flags d) then False
         else if \<not> isVoidOpt (firstType t) \<and> \<not> isVoidOpt (firstType d) then
           opt_same (\<lambda>u v. isSameType E u v True (\<not> (topLevel \<and> isPassType \<and> f_constant (flags u)))
               (\<not> f_implicit (flags t)) (if f_isExplicit (flags t) then False else allowSubstitute) False False)
             (firstType t) (firstType d)
         else topLevel \<or> isVoidOpt (firstType t) = isVoidOpt (firstType d)
       else if baseType t = tTuple \<or> baseType t = tVariant \<or> baseType t = option then
         opt_same (\<lambda>u v. isSameType E u v True True True False True False) (firstType t) (firstType d) \<and>
         (if firstType t \<noteq> None \<or> argTypes t \<noteq> [] then
            length (argTypes t) = length (argTypes d) \<and> (baseType t = option \<or> argNames t = argNames d) \<and>
            list_same (\<lambda>u v. isSameType E u v True True True False True (baseType t = tTuple \<and> isPassType)) (argTypes t) (argTypes d)
          else True)
       else if baseType t = tBlock \<or> baseType t = tFunction \<or> baseType t = tLambda then
         opt_same (\<lambda>u v. isSameType E u v True True True False True False) (firstType t) (firstType d) \<and>
         (if firstType t \<noteq> None \<or> argTypes t \<noteq> [] then
            length (argTypes t) = length (argTypes d) \<and>
            list_same (\<lambda>u v. isSameType E u v (\<not> isRefType E u) True True False True False) (argTypes t) (argTypes d)
          else True)
       else if isEnumT t then same_enum E t d
       else if isBitfield t then same_bitfield t d topLevel
       else if baseType t = aliasType \<or> baseType t = autoinfer then td_alias t = td_alias d
       else True)"
  by pat_completeness auto
termination
  by (relation "measure (\<lambda>(E, t, _). size t)") (auto intro: firstType_size secondType_size argTypes_size)

declare isSameType.simps [simp del]

section \<open>Exact equality\<close>

lemma list_all_zip_eq: "length xs = length ys \<Longrightarrow> list_all (\<lambda>(a, b). a = b) (zip xs ys) \<longleftrightarrow> xs = ys"
  by (induction xs ys rule: list_induct2) auto

lemma type_decl_eq_iff:
  "t = d \<longleftrightarrow> baseType t = baseType d \<and> structType t = structType d \<and> enumType t = enumType d \<and> annotation t = annotation d \<and>
    firstType t = firstType d \<and> secondType t = secondType d \<and> argTypes t = argTypes d \<and> argNames t = argNames d \<and>
    fixedDim t = fixedDim d \<and> flags t = flags d \<and> td_alias t = td_alias d"
  by (cases t; cases d) simp

lemma isSameExactType_eq: "isSameExactType t d \<longleftrightarrow> t = d"
proof (induction t arbitrary: d rule: measure_induct_rule[where f = size])
  case (less t)
  have opt: "(case (a, b) of (Some u, Some v) \<Rightarrow> isSameExactType u v | (None, None) \<Rightarrow> True | _ \<Rightarrow> False) \<longleftrightarrow> a = b"
    if "\<And>u. a = Some u \<Longrightarrow> size u < size t" for a b
    using less that by (cases a; cases b) auto
  have args: "list_all (\<lambda>(u, v). isSameExactType u v) (zip (argTypes t) (argTypes d)) \<longleftrightarrow> argTypes t = argTypes d"
    if "length (argTypes t) = length (argTypes d)"
  proof -
    have "list_all (\<lambda>(u, v). isSameExactType u v) (zip (argTypes t) (argTypes d)) \<longleftrightarrow>
        list_all (\<lambda>(u, v). u = v) (zip (argTypes t) (argTypes d))"
      by (rule list.pred_cong) (auto dest: zip_argTypes_size less)
    with list_all_zip_eq[OF that] show ?thesis by simp
  qed
  have names: "length (argNames t) = length (argNames d) \<and> list_all (\<lambda>(a, b). a = b) (zip (argNames t) (argNames d)) \<longleftrightarrow>
      argNames t = argNames d"
    using list_all_zip_eq[of "argNames t" "argNames d"] by auto
  have f: "(case (firstType t, firstType d) of (Some u, Some v) \<Rightarrow> isSameExactType u v | (None, None) \<Rightarrow> True | _ \<Rightarrow> False) \<longleftrightarrow>
      firstType t = firstType d" by (rule opt) (rule firstType_size)
  have s: "(case (secondType t, secondType d) of (Some u, Some v) \<Rightarrow> isSameExactType u v | (None, None) \<Rightarrow> True | _ \<Rightarrow> False) \<longleftrightarrow>
      secondType t = secondType d" by (rule opt) (rule secondType_size)
  show ?case
    unfolding type_decl_eq_iff[of t d] isSameExactType.simps[of t d] f s
    using args names by auto
qed

section \<open>Every type is the same as itself\<close>

text \<open>
  No node is both a binding for a stub and a concrete enumeration.
\<close>

fun stubs_ok :: "type_decl \<Rightarrow> bool" where
  "stubs_ok (TypeDecl b st en an ft sd args names dim fl al) \<longleftrightarrow>
    (f_enumStubBinding fl \<longrightarrow> en = None) \<and> pred_option stubs_ok ft \<and> pred_option stubs_ok sd \<and> list_all stubs_ok args"

lemma stubs_ok_parts:
  "stubs_ok t \<Longrightarrow> firstType t = Some u \<Longrightarrow> stubs_ok u"
  "stubs_ok t \<Longrightarrow> secondType t = Some u \<Longrightarrow> stubs_ok u"
  "stubs_ok t \<Longrightarrow> u \<in> set (argTypes t) \<Longrightarrow> stubs_ok u"
  "stubs_ok t \<Longrightarrow> f_enumStubBinding (flags t) \<Longrightarrow> enumType t = None"
  by (cases t, auto simp: list_all_iff)+

lemma opt_same_refl: "(\<And>u. a = Some u \<Longrightarrow> f u u) \<Longrightarrow> opt_same f a a"
  by (simp add: opt_same_def split: option.split)

lemma list_same_refl: "(\<And>u. u \<in> set as \<Longrightarrow> f u u) \<Longrightarrow> list_same f as as"
  by (auto simp: list_same_def list_all_iff set_zip)

lemma flags_differ_refl: "\<not> flags_differ E t t rm cm tm lev"
  by (simp add: flags_differ_def Let_def)

lemma isSameType_refl: "stubs_ok t \<Longrightarrow> isSameType E t t rm cm tm sub lev isp"
proof (induction t arbitrary: rm cm tm sub lev isp rule: measure_induct_rule[where f = size])
  case (less t)
  have f: "isSameType E u u rm cm tm sub lev isp" if "firstType t = Some u" for u rm cm tm sub lev isp
    using less.IH[of u] firstType_size[OF that] stubs_ok_parts(1)[OF less.prems that] by simp
  have s: "isSameType E u u rm cm tm sub lev isp" if "secondType t = Some u" for u rm cm tm sub lev isp
    using less.IH[of u] secondType_size[OF that] stubs_ok_parts(2)[OF less.prems that] by simp
  have a: "isSameType E u u rm cm tm sub lev isp" if "u \<in> set (argTypes t)" for u rm cm tm sub lev isp
    using less.IH[of u] argTypes_size[OF that] stubs_ok_parts(3)[OF less.prems that] by simp
  have e: "\<not> signednessMismatch E t t" using stubs_ok_parts(4)[OF less.prems] by (auto simp: signednessMismatch_def split: option.split)
  show ?case
    by (subst isSameType.simps)
      (simp add: flags_differ_refl opt_same_refl list_same_refl f s a e same_handle_def same_struct_def same_enum_def same_bitfield_def)
qed

text \<open>
  \<open>isSameExactType\<close> compares every member the model keeps, flags, names and dimensions included. The
  members it leaves out (\<open>fixedDimExpr\<close>, \<open>typeMacroExpr\<close>, \<open>at\<close>, \<open>module\<close>) are not compared by the code
  either: on the code's objects it is coarser than equality of all members. Exactly equal types are the
  same for \<open>isSameType\<close> whatever matters and at whatever level, if no node of them is marked as the
  binding of an enumeration stub and names an enumeration too.
\<close>

lemma same_exact_type_same:
  "stubs_ok t \<Longrightarrow> isSameExactType t d \<Longrightarrow> isSameType E t d rm cm tm sub lev isp"
  using isSameType_refl[of t E rm cm tm sub lev isp] by (simp add: isSameExactType_eq)

text \<open>
  The comparison is not symmetric: whether constness matters is decided by the left type, so a
  constant reference differs from a value that the value does not differ from.
\<close>

lemma isSameType_not_symmetric:
  defines "r \<equiv> TypeDecl tInt None None None None None [] [] 0 (no_flags\<lparr>f_ref := True, f_constant := True\<rparr>) []"
  shows "isSameType E (new_type tInt) r False True True False True False \<and>
    \<not> isSameType E r (new_type tInt) False True True False True False"
  unfolding r_def new_type_def
  by (simp add: isSameType.simps flags_differ_def isPointer_def isRef_def isRefType_def isTempType_def no_flags_def isEnumT_def
      isBitfield_def isString_def)

end
