(* ===== verification/Safebox.thy ===== *)
theory Safebox
  imports Prelude "HOL-Library.Multiset"
begin

text \<open>
  \<open>safebox\<close> (\<open>misc/safebox.h\<close>): the compiler's table of named objects. A hash map (a library
  container, here a map) finds an object by its key, \<open>objectsInOrder\<close> keeps the order of
  insertion, and while somebody walks the box it is locked and insertions are postponed.
  A key is already a hash. \<open>ValueType()\<close>, the null pointer, is \<open>None\<close>.
\<close>

section \<open>The box\<close>

record 'v safebox =
  sb_objects :: "u64 \<Rightarrow> 'v option"
  sb_inOrder :: "'v list"
  sb_postponed :: "(u64 \<times> 'v) list"
  sb_locked :: bool

definition safebox_new :: "'v safebox" where
  "safebox_new = \<lparr>sb_objects = Map.empty, sb_inOrder = [], sb_postponed = [], sb_locked = False\<rparr>"

text \<open>Copying takes everything but the lock.\<close>

definition safebox_copy :: "'v safebox \<Rightarrow> 'v safebox" where
  "safebox_copy sb = safebox_new\<lparr>sb_objects := sb_objects sb, sb_inOrder := sb_inOrder sb, sb_postponed := sb_postponed sb\<rparr>"

definition safebox_clear :: "'v safebox \<Rightarrow> 'v safebox" where
  "safebox_clear b = b\<lparr>sb_objects := Map.empty, sb_inOrder := [], sb_postponed := []\<rparr>"

definition tryResolve :: "'v safebox \<Rightarrow> 'v safebox" where
  "tryResolve b =
    (if \<not> sb_locked b then
       b\<lparr>sb_objects := fold (\<lambda>(k, v) m. m(k \<mapsto> v)) (sb_postponed b) (sb_objects b),
         sb_inOrder := map snd (sb_postponed b) @ sb_inOrder b,
         sb_postponed := []\<rparr>
     else b)"

definition safebox_insert :: "u64 \<Rightarrow> 'v \<Rightarrow> 'v safebox \<Rightarrow> 'v safebox \<times> bool" where
  "safebox_insert key value b =
    (if sb_locked b then
       if sb_objects b key \<noteq> None then (b, False)
       else if list_ex (\<lambda>pp. fst pp = key) (sb_postponed b) then (b, False)
       else (b\<lparr>sb_postponed := sb_postponed b @ [(key, value)]\<rparr>, True)
     else
       if sb_objects b key = None then
         (b\<lparr>sb_objects := (sb_objects b)(key \<mapsto> value), sb_inOrder := sb_inOrder b @ [value]\<rparr>, True)
       else (b, False))"

definition safebox_replace :: "u64 \<Rightarrow> 'v \<Rightarrow> 'v safebox \<Rightarrow> das_error + 'v safebox" where
  "safebox_replace key value b =
    (if sb_objects b key = None then Inl (UndefinedBehaviour ''write through end()'')
     else Inr (b\<lparr>sb_objects := (sb_objects b)(key \<mapsto> value)\<rparr>))"

definition safebox_find :: "'v safebox \<Rightarrow> u64 \<Rightarrow> 'v option" where
  "safebox_find b key = (case sb_objects b key of Some v \<Rightarrow> Some v | None \<Rightarrow> map_of (sb_postponed b) key)"

definition safebox_remove :: "u64 \<Rightarrow> 'v safebox \<Rightarrow> 'v safebox \<times> (das_error + bool)" where
  "safebox_remove key b =
    (case sb_objects b key of
       Some pObj \<Rightarrow>
         let b1 = b\<lparr>sb_objects := (sb_objects b)(key := None)\<rparr> in
         if pObj \<in> set (sb_inOrder b) then (b1\<lparr>sb_inOrder := remove1 pObj (sb_inOrder b)\<rparr>, Inr True)
         else (b1, Inl (UndefinedBehaviour ''erase(end())''))
     | None \<Rightarrow> (b, Inr False))"

definition unlocked_size :: "'v safebox \<Rightarrow> das_error + nat" where
  "unlocked_size b = (if sb_locked b then Inl (VerifyFailed ''expected to see an unlocked box'') else Inr (length (sb_inOrder b)))"

definition refresh_key :: "u64 \<Rightarrow> u64 \<Rightarrow> 'v safebox \<Rightarrow> 'v safebox \<times> bool" where
  "refresh_key oldKey newKey b =
    (case sb_objects b oldKey of
       Some pObj \<Rightarrow> (b\<lparr>sb_objects := ((sb_objects b)(oldKey := None))(newKey \<mapsto> pObj)\<rparr>, True)
     | None \<Rightarrow> (b, False))"

text \<open>
  The walks. The closure may use the box through another reference; \<open>'s\<close> is what else it works
  on. The box is locked, so \<open>objectsInOrder\<close> is the same at every step. \<open>find_first\<close> stops when
  the closure says so.
\<close>

definition safebox_foreach :: "('v \<Rightarrow> 's \<times> 'v safebox \<Rightarrow> 's \<times> 'v safebox) \<Rightarrow> 's \<times> 'v safebox \<Rightarrow> 's \<times> 'v safebox" where
  "safebox_foreach closure = (\<lambda>(s, b).
     let saveLock = sb_locked b;
         (s1, b1) = fold closure (sb_inOrder b) (s, b\<lparr>sb_locked := True\<rparr>)
     in (s1, tryResolve (b1\<lparr>sb_locked := saveLock\<rparr>)))"

definition safebox_foreach_const :: "('v \<Rightarrow> 's \<times> 'v safebox \<Rightarrow> 's \<times> 'v safebox) \<Rightarrow> 's \<times> 'v safebox \<Rightarrow> 's \<times> 'v safebox" where
  "safebox_foreach_const closure = (\<lambda>(s, b).
     let saveLock = sb_locked b;
         (s1, b1) = fold closure (sb_inOrder b) (s, b\<lparr>sb_locked := True\<rparr>)
     in (s1, b1\<lparr>sb_locked := saveLock\<rparr>))"

fun until_found :: "('v \<Rightarrow> 's \<Rightarrow> bool \<times> 's) \<Rightarrow> 'v list \<Rightarrow> 's \<Rightarrow> 's" where
  "until_found closure [] s = s"
| "until_found closure (v # vs) s = (case closure v s of (stop, s') \<Rightarrow> if stop then s' else until_found closure vs s')"

definition safebox_find_first ::
    "('v \<Rightarrow> 's \<times> 'v safebox \<Rightarrow> bool \<times> 's \<times> 'v safebox) \<Rightarrow> 's \<times> 'v safebox \<Rightarrow> 's \<times> 'v safebox" where
  "safebox_find_first closure = (\<lambda>(s, b).
     let saveLock = sb_locked b;
         (s1, b1) = until_found closure (sb_inOrder b) (s, b\<lparr>sb_locked := True\<rparr>)
     in (s1, tryResolve (b1\<lparr>sb_locked := saveLock\<rparr>)))"

section \<open>Invariant\<close>

text \<open>Each stored object is in the order once; what is postponed has new and distinct keys.\<close>

definition stored :: "(u64 \<Rightarrow> 'v option) \<Rightarrow> 'v multiset" where
  "stored m = image_mset (\<lambda>k. the (m k)) (mset_set (dom m))"

definition box_ok :: "'v safebox \<Rightarrow> bool" where
  "box_ok b \<longleftrightarrow> stored (sb_objects b) = mset (sb_inOrder b) \<and> distinct (map fst (sb_postponed b)) \<and>
     (\<forall>k v. (k, v) \<in> set (sb_postponed b) \<longrightarrow> sb_objects b k = None)"

definition box_settled :: "'v safebox \<Rightarrow> bool" where
  "box_settled b \<longleftrightarrow> box_ok b \<and> (\<not> sb_locked b \<longrightarrow> sb_postponed b = [])"

lemma finite_keys [simp]: "finite (dom (m :: u64 \<Rightarrow> 'v option))"
  by (rule finite_subset[OF subset_UNIV]) simp

lemma stored_empty [simp]: "stored Map.empty = {#}"
  by (simp add: stored_def)

lemma stored_upd: "m k = None \<Longrightarrow> stored (m(k \<mapsto> v)) = add_mset v (stored m)"
proof -
  assume n: "m k = None"
  then have "mset_set (dom (m(k \<mapsto> v))) = add_mset k (mset_set (dom m))"
    using finite_keys[of m] by (simp add: domIff)
  moreover have "image_mset (\<lambda>x. the ((m(k \<mapsto> v)) x)) (mset_set (dom m)) = image_mset (\<lambda>x. the (m x)) (mset_set (dom m))"
    using n by (intro image_mset_cong) (auto simp: domIff)
  ultimately show ?thesis by (simp add: stored_def)
qed

lemma stored_drop: "m k = Some v \<Longrightarrow> stored m = add_mset v (stored (m(k := None)))"
  using stored_upd[of "m(k := None)" k v] by (simp add: fun_upd_idem)

lemma stored_move: "m old = Some v \<Longrightarrow> new = old \<or> m new = None \<Longrightarrow> stored ((m(old := None))(new \<mapsto> v)) = stored m"
  by (auto simp: stored_drop[of m old v] stored_upd fun_upd_idem)

lemma stored_mem: "m k = Some v \<Longrightarrow> v \<in># stored m"
  by (simp add: stored_drop)

section \<open>Operations against the map of what can be found\<close>

lemma fold_upd: "fold (\<lambda>(k, v) m. m(k \<mapsto> v)) ps m = m ++ map_of (rev ps)"
  by (induction ps arbitrary: m) (auto simp: map_add_def fun_eq_iff split: option.split)

lemma postponed_map: "distinct (map fst ps) \<Longrightarrow> map_of (rev ps) = map_of ps"
  by (subst map_of_inject_set) (simp_all flip: rev_map)

lemma stored_fold: "distinct (map fst ps) \<Longrightarrow> \<forall>k v. (k, v) \<in> set ps \<longrightarrow> m k = None \<Longrightarrow>
    stored (fold (\<lambda>(k, v) m. m(k \<mapsto> v)) ps m) = mset (map snd ps) + stored m"
proof (induction ps arbitrary: m)
  case (Cons p ps)
  obtain k v where p: "p = (k, v)" by fastforce
  have "m k = None" using Cons.prems(2) p by auto
  moreover have "\<forall>k' v'. (k', v') \<in> set ps \<longrightarrow> (m(k \<mapsto> v)) k' = None"
    using Cons.prems p by (auto simp: image_iff)
  ultimately show ?case using Cons.IH[of "m(k \<mapsto> v)"] Cons.prems(1) p by (simp add: stored_upd del: fun_upd_apply)
qed simp

lemma safebox_find_eq: "safebox_find b = map_of (sb_postponed b) ++ sb_objects b"
  by (rule ext) (simp add: safebox_find_def map_add_def)

lemma find_settled: "sb_postponed b = [] \<Longrightarrow> safebox_find b = sb_objects b"
  by (simp add: safebox_find_eq)

lemma list_ex_key: "list_ex (\<lambda>pp. fst pp = k) ps \<longleftrightarrow> map_of ps k \<noteq> None"
  by (auto simp: list_ex_iff map_of_eq_None_iff)

lemma ok_disjoint: "box_ok b \<Longrightarrow> dom (sb_objects b) \<inter> dom (map_of (sb_postponed b)) = {}"
  by (force simp: box_ok_def dest: map_of_SomeD)

lemma resolve_find: "box_ok b \<Longrightarrow> safebox_find (tryResolve b) = safebox_find b"
  by (simp add: tryResolve_def safebox_find_eq fold_upd postponed_map box_ok_def map_add_comm[OF ok_disjoint])

lemma resolve_settled: "box_ok b \<Longrightarrow> box_settled (tryResolve b)"
  by (auto simp: tryResolve_def box_settled_def box_ok_def stored_fold)

lemma settled_new: "box_settled safebox_new"
  by (simp add: box_settled_def box_ok_def safebox_new_def)

section \<open>The contract of a table of named objects\<close>

definition insert_all :: "('k \<Rightarrow> 'v \<Rightarrow> 'b \<Rightarrow> 'b \<times> bool) \<Rightarrow> ('k \<times> 'v) list \<Rightarrow> 'b \<Rightarrow> 'b" where
  "insert_all ins = fold (\<lambda>(k, v) b. fst (ins k v b))"

lemma insert_all_simps [simp]:
  "insert_all ins [] b = b"
  "insert_all ins ((k, v) # ps) b = insert_all ins ps (fst (ins k v b))"
  "insert_all ins (ps @ qs) b = insert_all ins qs (insert_all ins ps b)"
  by (simp_all add: insert_all_def)

locale object_store =
  fixes find :: "'b \<Rightarrow> 'k \<Rightarrow> 'v option"
    and insert :: "'k \<Rightarrow> 'v \<Rightarrow> 'b \<Rightarrow> 'b \<times> bool"
    and ok :: "'b \<Rightarrow> bool"
  assumes insert_find: "ok b \<Longrightarrow> find (fst (insert k v b)) = (if find b k = None then (find b)(k \<mapsto> v) else find b)"
    and insert_tells: "ok b \<Longrightarrow> snd (insert k v b) \<longleftrightarrow> find b k = None"
    and insert_ok: "ok b \<Longrightarrow> ok (fst (insert k v b))"
begin

text \<open>A batch: what was there stays, the first of equal keys wins.\<close>

lemma batch_ok: "ok b \<Longrightarrow> ok (insert_all insert ps b)"
  by (induction ps arbitrary: b) (auto simp: insert_ok)

lemma batch_find: "ok b \<Longrightarrow> find (insert_all insert ps b) = map_of ps ++ find b"
proof (induction ps arbitrary: b)
  case (Cons p ps)
  obtain k v where p: "p = (k, v)" by fastforce
  have "find (insert_all insert (p # ps) b) = map_of ps ++ find (fst (insert k v b))"
    using Cons.IH[OF insert_ok[OF Cons.prems, of k v]] p by simp
  also have "\<dots> = map_of (p # ps) ++ find b"
    using insert_find[OF Cons.prems] p by (auto simp: map_add_def fun_eq_iff split: option.split)
  finally show ?case .
qed simp

lemma batch_keeps: "ok b \<Longrightarrow> find b k = Some v \<Longrightarrow> find (insert_all insert ps b) k = Some v"
  by (simp add: batch_find)

end

section \<open>The box keeps it\<close>

lemma insert_settled:
  assumes "box_settled b"
  shows "box_settled (fst (safebox_insert k v b))"
    and "sb_locked (fst (safebox_insert k v b)) = sb_locked b"
    and "sb_inOrder (fst (safebox_insert k v b)) = (if sb_locked b \<or> safebox_find b k \<noteq> None then sb_inOrder b else sb_inOrder b @ [v])"
    and "snd (safebox_insert k v b) \<longleftrightarrow> safebox_find b k = None"
  using assms
  by (auto simp: safebox_insert_def box_settled_def box_ok_def safebox_find_eq list_ex_key stored_upd
      map_of_eq_None_iff image_iff simp del: fun_upd_apply split: option.splits)

lemma insert_found:
  assumes "box_settled b"
  shows "safebox_find (fst (safebox_insert k v b)) = (if safebox_find b k = None then (safebox_find b)(k \<mapsto> v) else safebox_find b)"
proof (rule ext)
  fix x
  show "safebox_find (fst (safebox_insert k v b)) x = (if safebox_find b k = None then (safebox_find b)(k \<mapsto> v) else safebox_find b) x"
    using assms
    by (cases "sb_locked b"; cases "sb_objects b k"; cases "map_of (sb_postponed b) k"; cases "sb_objects b x")
      (auto simp: safebox_insert_def safebox_find_def list_ex_key box_settled_def map_add_def split: option.split)
qed

interpretation box: object_store safebox_find safebox_insert box_settled
  by unfold_locales (simp_all add: insert_settled insert_found)


section \<open>Walking and adding\<close>

lemma locked_insert: "sb_locked b \<Longrightarrow> sb_locked (fst (safebox_insert k v b)) \<and>
    sb_objects (fst (safebox_insert k v b)) = sb_objects b \<and> sb_inOrder (fst (safebox_insert k v b)) = sb_inOrder b"
  by (simp add: safebox_insert_def)

lemma locked_batch: "sb_locked b \<Longrightarrow> sb_locked (insert_all safebox_insert ps b) \<and>
    sb_objects (insert_all safebox_insert ps b) = sb_objects b \<and> sb_inOrder (insert_all safebox_insert ps b) = sb_inOrder b"
proof (induction ps arbitrary: b)
  case (Cons p ps)
  then show ?case using locked_insert[OF Cons.prems, of "fst p" "snd p"] by (cases p) auto
qed simp

definition note_and_add :: "('v \<Rightarrow> (u64 \<times> 'v) list) \<Rightarrow> 'v \<Rightarrow> 'v list \<times> 'v safebox \<Rightarrow> 'v list \<times> 'v safebox" where
  "note_and_add adds v = (\<lambda>(seen, b). (seen @ [v], insert_all safebox_insert (adds v) b))"

lemma fold_note_and_add:
  "fold (note_and_add adds) vs (seen, b) = (seen @ vs, insert_all safebox_insert (concat (map adds vs)) b)"
  by (induction vs arbitrary: seen b) (simp_all add: note_and_add_def)

lemma lock_settled: "box_settled b \<Longrightarrow> box_settled (b\<lparr>sb_locked := True\<rparr>) \<and> safebox_find (b\<lparr>sb_locked := True\<rparr>) = safebox_find b"
  by (simp add: box_settled_def box_ok_def safebox_find_eq)

text \<open>C18: walking a box with a closure that adds objects visits exactly the objects that were in
  the box, in order and once each; afterwards the box is whole again, everything added can be
  found (unless its key was taken: what was there stays, and of equal new keys the first wins),
  and the additions come first in the order.\<close>

theorem foreach_with_additions:
  assumes "box_settled b" "\<not> sb_locked b"
  shows "\<exists>b' added. safebox_foreach (note_and_add adds) ([], b) = (sb_inOrder b, b') \<and> box_settled b' \<and> \<not> sb_locked b' \<and>
    sb_inOrder b' = added @ sb_inOrder b \<and>
    safebox_find b' = map_of (concat (map adds (sb_inOrder b))) ++ safebox_find b"
proof -
  define c where "c = insert_all safebox_insert (concat (map adds (sb_inOrder b))) (b\<lparr>sb_locked := True\<rparr>)"
  let ?u = "c\<lparr>sb_locked := False\<rparr>"
  have c: "box_settled c" "safebox_find c = map_of (concat (map adds (sb_inOrder b))) ++ safebox_find b"
    using box.batch_ok[of "b\<lparr>sb_locked := True\<rparr>"] box.batch_find[of "b\<lparr>sb_locked := True\<rparr>"] lock_settled[OF assms(1)] by (simp_all add: c_def)
  have o': "sb_inOrder c = sb_inOrder b" using locked_batch[of "b\<lparr>sb_locked := True\<rparr>"] by (simp add: c_def)
  have u: "box_ok ?u" "safebox_find ?u = safebox_find c" using c(1) by (simp_all add: box_settled_def box_ok_def safebox_find_eq)
  have "safebox_foreach (note_and_add adds) ([], b) = (sb_inOrder b, tryResolve ?u)"
    using assms(2) by (simp add: safebox_foreach_def fold_note_and_add c_def)
  moreover have "sb_inOrder (tryResolve ?u) = map snd (sb_postponed c) @ sb_inOrder b" "\<not> sb_locked (tryResolve ?u)"
    by (simp_all add: tryResolve_def o')
  ultimately show ?thesis using resolve_settled[OF u(1)] resolve_find[OF u(1)] u(2) c(2) by auto
qed

lemma foreach_with_additions_witness:
  "\<exists>b'. safebox_foreach (note_and_add (\<lambda>v. if v = (7::nat) then [(2, 8)] else [(2, 9)])) ([], fst (safebox_insert 5 6 (fst (safebox_insert 1 7 safebox_new)))) =
     ([7, 6], b') \<and> safebox_find b' 2 = Some 8"
proof -
  let ?b = "fst (safebox_insert 5 6 (fst (safebox_insert 1 7 safebox_new))) :: nat safebox"
  have b: "box_settled ?b" by (intro insert_settled settled_new)
  have v: "\<not> sb_locked ?b" "sb_inOrder ?b = [7, 6]" "safebox_find ?b 2 = None"
    by (simp_all add: safebox_insert_def safebox_new_def safebox_find_def)
  show ?thesis using foreach_with_additions[OF b v(1), of "\<lambda>v. if v = (7::nat) then [(2, 8)] else [(2, 9)]"]
    unfolding v(2) by (auto simp: v(3) map_add_def)
qed

section \<open>Removing and renaming\<close>

theorem remove_forgets:
  assumes "box_settled b" "\<not> sb_locked b"
  shows "\<exists>b'. safebox_remove k b = (b', Inr (safebox_find b k \<noteq> None)) \<and> box_settled b' \<and> safebox_find b' = (safebox_find b)(k := None)"
proof (cases "sb_objects b k")
  case None
  with assms show ?thesis by (auto simp: safebox_remove_def box_settled_def safebox_find_eq fun_upd_idem)
next
  case (Some v)
  with assms have "v \<in># mset (sb_inOrder b)" using stored_mem[of "sb_objects b" k v] by (simp add: box_settled_def box_ok_def)
  moreover have "stored ((sb_objects b)(k := None)) = stored (sb_objects b) - {#v#}" using stored_drop[of "sb_objects b" k v] Some by simp
  ultimately show ?thesis using Some assms by (simp add: safebox_remove_def box_settled_def box_ok_def safebox_find_eq)
qed

theorem refresh_renames:
  assumes "box_settled b" "\<not> sb_locked b" "safebox_find b old = Some v" "new = old \<or> safebox_find b new = None"
  shows "\<exists>b'. refresh_key old new b = (b', True) \<and> box_settled b' \<and> safebox_find b' = ((safebox_find b)(old := None))(new \<mapsto> v)"
  using assms stored_move[of "sb_objects b" old v new]
  by (auto simp: refresh_key_def box_settled_def box_ok_def safebox_find_eq simp del: fun_upd_apply)

text \<open>
  \<open>inferTypes\<close> collects the functions whose name has changed and renames them one after the
  other. \<open>rfn\<close> holds the old and the new key of each.
\<close>

fun refresh_functions :: "(u64 \<times> u64) list \<Rightarrow> 'v safebox \<Rightarrow> 'v safebox \<times> bool" where
  "refresh_functions [] b = (b, True)"
| "refresh_functions (rfn # rest) b = (case refresh_key (fst rfn) (snd rfn) b of
     (b1, ok) \<Rightarrow> if \<not> ok then (b1, False) else refresh_functions rest b1)"

text \<open>A batch of renames succeeds and files each object under its new key when the new keys
  are distinct and none of them is in use, not even by an object that is about to be renamed.\<close>

theorem refresh_functions_renames:
  assumes "box_settled b" "\<not> sb_locked b" "distinct (map fst rs)" "distinct (map snd rs)"
    and "\<forall>(old, new) \<in> set rs. safebox_find b old \<noteq> None \<and> safebox_find b new = None"
  shows "\<exists>b'. refresh_functions rs b = (b', True) \<and> box_settled b' \<and>
    safebox_find b' = map_of (map (\<lambda>(old, new). (new, the (safebox_find b old))) rs) ++ (\<lambda>k. if k \<in> fst ` set rs then None else safebox_find b k)"
  using assms
proof (induction rs arbitrary: b)
  case (Cons r rs)
  obtain old new where r: "r = (old, new)" by fastforce
  obtain v where v: "safebox_find b old = Some v" "safebox_find b new = None" using Cons.prems(5) r by auto
  then obtain b1 where b1: "refresh_key old new b = (b1, True)" "box_settled b1"
      "safebox_find b1 = ((safebox_find b)(old := None))(new \<mapsto> v)"
    using refresh_renames[OF Cons.prems(1,2), of old v new] by blast
  have l: "\<not> sb_locked b1" using b1(1) Cons.prems(2) by (auto simp: refresh_key_def split: option.splits)
  have fresh: "o' \<noteq> old \<and> n' \<noteq> new \<and> o' \<noteq> new" if "(o', n') \<in> set rs" for o' n'
    using that Cons.prems(3-5) r v(2) by (force simp: image_iff)
  then have "\<forall>(o', n') \<in> set rs. safebox_find b1 o' \<noteq> None \<and> safebox_find b1 n' = None"
    using Cons.prems(5) b1(3) by (fastforce split: if_splits)
  then obtain b' where b': "refresh_functions rs b1 = (b', True)" "box_settled b'"
      "safebox_find b' = map_of (map (\<lambda>(old, new). (new, the (safebox_find b1 old))) rs) ++ (\<lambda>k. if k \<in> fst ` set rs then None else safebox_find b1 k)"
    using Cons.IH[OF b1(2) l] Cons.prems(3,4) by auto
  have same: "map (\<lambda>(old, new). (new, the (safebox_find b1 old))) rs = map (\<lambda>(old, new). (new, the (safebox_find b old))) rs"
    using fresh b1(3) by auto
  have "new \<notin> fst ` set rs" using fresh by force
  moreover have "map_of (map (\<lambda>(old, new). (new, the (safebox_find b old))) rs) new = None"
    using Cons.prems(4) r by (force simp: map_of_eq_None_iff)
  ultimately have "safebox_find b' = map_of (map (\<lambda>(old, new). (new, the (safebox_find b old))) (r # rs)) ++ (\<lambda>k. if k \<in> fst ` set (r # rs) then None else safebox_find b k)"
    unfolding b'(3)[unfolded same] b1(3) using v r by (auto simp: map_add_def fun_eq_iff split: option.split)
  moreover have "refresh_functions (r # rs) b = (b', True)" using b'(1) b1(1) r by simp
  ultimately show ?case using b'(2) by blast
qed auto

text \<open>C36: two functions, the new name of the first being the old name of the second: the second is
  no longer found under any key, and the first is filed under the second's new name, though the
  whole batch reports success.\<close>

theorem refresh_chain_loses_object:
  assumes "box_settled b" "\<not> sb_locked b" "safebox_find b h1 = Some A" "safebox_find b h2 = Some B" "safebox_find b h3 = None"
    and "distinct [h1, h2, h3]" "A \<noteq> B" "\<forall>k. safebox_find b k = Some B \<longrightarrow> k = h2"
  shows "\<exists>b'. refresh_functions [(h1, h2), (h2, h3)] b = (b', True) \<and> (\<forall>k. safebox_find b' k \<noteq> Some B) \<and>
    safebox_find b' h3 = Some A \<and> safebox_find b' h2 = None \<and> B \<in> set (sb_inOrder b')"
proof -
  have "B \<in># mset (sb_inOrder b)" using stored_mem[of "sb_objects b" h2 B] assms(1,2,4) by (simp add: box_settled_def box_ok_def find_settled)
  moreover have m: "safebox_find b = sb_objects b" "sb_postponed b = []" using assms(1,2) by (simp_all add: box_settled_def find_settled)
  let ?m = "((((sb_objects b)(h1 := None))(h2 \<mapsto> A))(h2 := None))(h3 \<mapsto> A)"
  have "refresh_functions [(h1, h2), (h2, h3)] b = (b\<lparr>sb_objects := ?m\<rparr>, True)"
    using assms(3,4) by (simp add: refresh_key_def m)
  moreover have "safebox_find (b\<lparr>sb_objects := ?m\<rparr>) = ?m" by (simp add: find_settled m)
  moreover have "?m k \<noteq> Some B" for k using assms(6-8) m by (cases "k = h2") auto
  ultimately show ?thesis using assms(6) by auto
qed

lemma refresh_chain_loses_object_witness:
  "\<exists>b'. refresh_functions [(1, 2), (2, 3)] (fst (safebox_insert 2 (20::nat) (fst (safebox_insert 1 10 safebox_new)))) = (b', True) \<and>
    safebox_find b' 3 = Some 10 \<and> 20 \<in> set (sb_inOrder b')"
proof -
  let ?b = "fst (safebox_insert 2 (20::nat) (fst (safebox_insert 1 10 safebox_new)))"
  have b: "box_settled ?b" by (intro insert_settled settled_new)
  have v: "\<not> sb_locked ?b" "safebox_find ?b 1 = Some 10" "safebox_find ?b 2 = Some 20" "safebox_find ?b 3 = None"
    "\<forall>k. safebox_find ?b k = Some 20 \<longrightarrow> k = 2"
    by (simp_all add: safebox_insert_def safebox_new_def safebox_find_def)
  show ?thesis using refresh_chain_loses_object[OF b v(1-4) _ _ v(5)] by (auto simp del: refresh_functions.simps)
qed

lemma refresh_functions_renames_witness:
  "\<exists>b'. refresh_functions [(1, 3), (2, 4)] (fst (safebox_insert 2 (20::nat) (fst (safebox_insert 1 10 safebox_new)))) = (b', True) \<and>
    safebox_find b' 3 = Some 10 \<and> safebox_find b' 4 = Some 20"
proof -
  let ?b = "fst (safebox_insert 2 (20::nat) (fst (safebox_insert 1 10 safebox_new)))"
  have b: "box_settled ?b" by (intro insert_settled settled_new)
  have v: "\<not> sb_locked ?b" "safebox_find ?b 1 = Some 10" "safebox_find ?b 2 = Some 20" "safebox_find ?b 3 = None" "safebox_find ?b 4 = None"
    by (simp_all add: safebox_insert_def safebox_new_def safebox_find_def)
  obtain b' where "refresh_functions [(1, 3), (2, 4)] ?b = (b', True)"
    "safebox_find b' = map_of (map (\<lambda>(old, new). (new, the (safebox_find ?b old))) [(1, 3), (2, 4)]) ++
       (\<lambda>k. if k \<in> fst ` set [(1, 3), (2, 4)] then None else safebox_find ?b k)"
    using refresh_functions_renames[OF b v(1), of "[(1, 3), (2, 4)]"] v by (auto simp del: refresh_functions.simps)
  then show ?thesis by (simp add: v map_add_def del: refresh_functions.simps)
qed

end
