(* ===== verification/ModuleLib.thy ===== *)
theory ModuleLib
  imports Safebox Hashing "HOL-Library.List_Lexorder" "HOL-Library.Char_ord"
begin

text \<open>
  Modules and the library a program is compiled against (\<open>ast/ast_module.cpp\<close>): qualified
  names, visibility, lookups, the order of modules. Modules, structures, enumerations and
  annotations are shared objects, named by numbers; the registry says what each number is.
  \<open>requireModule\<close> is a hash map of a library, kept as the list of its entries in the order it
  enumerates them. No module overrides \<open>addPrerequisits\<close>.
\<close>

section \<open>Names\<close>

fun split_scan :: "nat \<Rightarrow> string \<Rightarrow> nat option" where
  "split_scan depth (c # d # rest) =
    (if c = CHR ''<'' then map_option Suc (split_scan (Suc depth) (d # rest))
     else if c = CHR ''>'' then map_option Suc (split_scan (if depth > 0 then depth - 1 else depth) (d # rest))
     else if depth = 0 \<and> c = CHR '':'' \<and> d = CHR '':'' then Some 0
     else map_option Suc (split_scan depth (d # rest)))"
| "split_scan depth _ = None"

definition splitTypeName :: "string \<Rightarrow> bool \<times> string \<times> string" where
  "splitTypeName name = (case split_scan 0 name of
     Some at \<Rightarrow> let moduleName = take at name in
       (True, if moduleName = ''builtin`'' then ''$'' else moduleName, drop (at + 2) name)
   | None \<Rightarrow> (False, ''*'', name))"

text \<open>\<open>hash64z\<close> of a name.\<close>

definition name_hash :: "string \<Rightarrow> u64" where
  "name_hash s = hash_string (Some (map of_char s))"

section \<open>Modules\<close>

record named_decl =
  nd_name :: string
  nd_module :: "nat option"
  nd_private :: bool

record module_decl =
  md_name :: string
  md_structures :: "nat safebox"
  md_enumerations :: "nat safebox"
  md_handleTypes :: "u64 \<Rightarrow> nat option"
  md_requireModule :: "(nat \<times> bool) list"
  md_visibleEverywhere :: bool

record registry =
  rg_module :: "nat \<Rightarrow> module_decl"
  rg_struct :: "nat \<Rightarrow> named_decl"
  rg_enum :: "nat \<Rightarrow> named_decl"
  rg_ann :: "nat \<Rightarrow> named_decl"
  rg_isHandled :: "nat \<Rightarrow> bool"
  rg_bound :: "nat list option"

definition nameHash :: "registry \<Rightarrow> nat \<Rightarrow> u64" where
  "nameHash R m = name_hash (md_name (rg_module R m))"

definition requires :: "registry \<Rightarrow> nat \<Rightarrow> nat set" where
  "requires R m = fst ` set (md_requireModule (rg_module R m))"

definition isVisibleDirectly :: "registry \<Rightarrow> nat \<Rightarrow> nat \<Rightarrow> bool" where
  "isVisibleDirectly R this objModule \<longleftrightarrow>
    objModule = this \<or> md_visibleEverywhere (rg_module R objModule) \<or> objModule \<in> requires R this"

definition Module_findStructure :: "registry \<Rightarrow> nat \<Rightarrow> string \<Rightarrow> nat option" where
  "Module_findStructure R m na = safebox_find (md_structures (rg_module R m)) (name_hash na)"

definition Module_findEnum :: "registry \<Rightarrow> nat \<Rightarrow> string \<Rightarrow> nat option" where
  "Module_findEnum R m na = safebox_find (md_enumerations (rg_module R m)) (name_hash na)"

definition Module_findAnnotation :: "registry \<Rightarrow> nat \<Rightarrow> string \<Rightarrow> nat option" where
  "Module_findAnnotation R m na = md_handleTypes (rg_module R m) (name_hash na)"

text \<open>\<open>Module::require\<close>: the modules of the bound environment, if there is one.\<close>

definition Module_require :: "registry \<Rightarrow> string \<Rightarrow> nat option" where
  "Module_require R name = (case rg_bound R of None \<Rightarrow> None | Some ms \<Rightarrow> List.find (\<lambda>m. md_name (rg_module R m) = name) ms)"

text \<open>
  \<open>addStructure\<close> and \<open>addEnumeration\<close>: the new object gets its module. \<open>None\<close> is the fatal
  error on a duplicate that must not fail.
\<close>

definition addStructure :: "nat \<Rightarrow> nat \<Rightarrow> bool \<Rightarrow> registry \<Rightarrow> (registry \<times> bool) option" where
  "addStructure m st canFail R =
    (case safebox_insert (name_hash (nd_name (rg_struct R st))) st (md_structures (rg_module R m)) of
       (b, inserted) \<Rightarrow>
         if inserted then Some (R\<lparr>rg_module := (rg_module R)(m := (rg_module R m)\<lparr>md_structures := b\<rparr>),
                                  rg_struct := (rg_struct R)(st := (rg_struct R st)\<lparr>nd_module := Some m\<rparr>)\<rparr>, True)
         else if \<not> canFail then None else Some (R, False))"

definition addEnumeration :: "nat \<Rightarrow> nat \<Rightarrow> bool \<Rightarrow> registry \<Rightarrow> (registry \<times> bool) option" where
  "addEnumeration m en canFail R =
    (case safebox_insert (name_hash (nd_name (rg_enum R en))) en (md_enumerations (rg_module R m)) of
       (b, inserted) \<Rightarrow>
         if inserted then Some (R\<lparr>rg_module := (rg_module R)(m := (rg_module R m)\<lparr>md_enumerations := b\<rparr>),
                                  rg_enum := (rg_enum R)(en := (rg_enum R en)\<lparr>nd_module := Some m\<rparr>)\<rparr>, True)
         else if \<not> canFail then None else Some (R, False))"

text \<open>\<open>seal\<close> sets the annotation's module.\<close>

definition seal_annotation :: "nat \<Rightarrow> nat \<Rightarrow> registry \<Rightarrow> registry" where
  "seal_annotation m an R = R\<lparr>rg_ann := (rg_ann R)(an := (rg_ann R an)\<lparr>nd_module := Some m\<rparr>)\<rparr>"

definition set_handleType :: "nat \<Rightarrow> u64 \<Rightarrow> nat \<Rightarrow> registry \<Rightarrow> registry" where
  "set_handleType m key an R = R\<lparr>rg_module := (rg_module R)(m := (rg_module R m)
     \<lparr>md_handleTypes := (md_handleTypes (rg_module R m))(key \<mapsto> an)\<rparr>)\<rparr>"

definition registerAnnotation :: "nat \<Rightarrow> nat \<Rightarrow> registry \<Rightarrow> registry" where
  "registerAnnotation m an R =
    (let key = name_hash (nd_name (rg_ann R an)) in
     if md_handleTypes (rg_module R m) key = None then set_handleType m key an (seal_annotation m an R) else R)"

definition addAnnotation :: "nat \<Rightarrow> nat \<Rightarrow> bool \<Rightarrow> registry \<Rightarrow> (registry \<times> bool) option" where
  "addAnnotation m an canFail R =
    (let key = name_hash (nd_name (rg_ann R an)) in
     case md_handleTypes (rg_module R m) key of
       Some old \<Rightarrow> if old = an then Some (seal_annotation m an R, True)
                   else if \<not> canFail then None else Some (R, False)
     | None \<Rightarrow> Some (set_handleType m key an (seal_annotation m an R), True))"

definition removeStructure :: "nat \<Rightarrow> nat \<Rightarrow> registry \<Rightarrow> registry \<times> (das_error + bool)" where
  "removeStructure m st R =
    (case safebox_remove (name_hash (nd_name (rg_struct R st))) (md_structures (rg_module R m)) of
       (b, r) \<Rightarrow> (R\<lparr>rg_module := (rg_module R)(m := (rg_module R m)\<lparr>md_structures := b\<rparr>)\<rparr>, r))"

section \<open>The library\<close>

record library =
  lib_modules :: "nat list"
  lib_byHash :: "u64 \<Rightarrow> nat option"
  lib_this :: "nat option"

definition library_new :: library where
  "library_new = \<lparr>lib_modules = [], lib_byHash = Map.empty, lib_this = None\<rparr>"

definition findModule :: "library \<Rightarrow> string \<Rightarrow> nat option" where
  "findModule L mn = lib_byHash L (name_hash mn)"

text \<open>\<open>func\<close> answers whether to stop (the code's callbacks answer whether to go on).\<close>

definition library_foreach :: "registry \<Rightarrow> library \<Rightarrow> (nat \<Rightarrow> 's \<Rightarrow> bool \<times> 's) \<Rightarrow> string \<Rightarrow> 's \<Rightarrow> 's" where
  "library_foreach R L func moduleName s =
    (if moduleName = ''*'' then until_found func (lib_modules L) s
     else case findModule L moduleName of None \<Rightarrow> s
       | Some pm \<Rightarrow> until_found func (pm # map fst (filter snd (md_requireModule (rg_module R pm)))) s)"

definition foreach_in_order :: "library \<Rightarrow> (nat \<Rightarrow> 's \<Rightarrow> bool \<times> 's) \<Rightarrow> nat option \<Rightarrow> 's \<Rightarrow> 's" where
  "foreach_in_order L func thisM s = until_found func
    (filter (\<lambda>m. Some m \<noteq> thisM) (lib_modules L) @ (case thisM of Some m \<Rightarrow> [m] | None \<Rightarrow> [])) s"

definition visible_from :: "registry \<Rightarrow> nat option \<Rightarrow> nat \<Rightarrow> bool" where
  "visible_from R inWhichModule pm \<longleftrightarrow> (case inWhichModule of None \<Rightarrow> True | Some me \<Rightarrow> isVisibleDirectly R me pm)"

definition findAnnotation :: "registry \<Rightarrow> library \<Rightarrow> string \<Rightarrow> nat option \<Rightarrow> nat list" where
  "findAnnotation R L name inWhichModule =
    (let (_, moduleName, annName) = splitTypeName name in
     if moduleName \<noteq> ''_'' \<and> moduleName \<noteq> ''__'' then
       library_foreach R L (\<lambda>pm ptr. (False, if visible_from R inWhichModule pm
         then (case Module_findAnnotation R pm annName of Some pp \<Rightarrow> ptr @ [pp] | None \<Rightarrow> ptr) else ptr)) moduleName []
     else [])"

definition findStructure :: "registry \<Rightarrow> library \<Rightarrow> string \<Rightarrow> nat option \<Rightarrow> nat list" where
  "findStructure R L name inWhichModule =
    (let (_, moduleName, funcName) = splitTypeName name in
     library_foreach R L (\<lambda>pm ptr. (False, if visible_from R inWhichModule pm
       then (case Module_findStructure R pm funcName of
               Some pp \<Rightarrow> if \<not> nd_private (rg_struct R pp) \<or> nd_module (rg_struct R pp) = inWhichModule then ptr @ [pp] else ptr
             | None \<Rightarrow> ptr) else ptr)) moduleName [])"

definition findEnum :: "registry \<Rightarrow> library \<Rightarrow> string \<Rightarrow> nat option \<Rightarrow> nat list" where
  "findEnum R L name inWhichModule =
    (let (_, moduleName, enumName) = splitTypeName name in
     library_foreach R L (\<lambda>pm ptr. (False, if visible_from R inWhichModule pm
       then (case Module_findEnum R pm enumName of
               Some pp \<Rightarrow> if \<not> nd_private (rg_enum R pp) \<or> nd_module (rg_enum R pp) = inWhichModule then ptr @ [pp] else ptr
             | None \<Rightarrow> ptr) else ptr)) moduleName [])"

text \<open>
  \<open>addModule\<close> first adds what the module requires, in the order of the names. The code's
  recursion has no bound; the first argument bounds its depth.
\<close>

primrec addModule :: "nat \<Rightarrow> registry \<Rightarrow> nat \<Rightarrow> library \<Rightarrow> (library \<times> bool) option" where
  "addModule 0 R m L = None"
| "addModule (Suc n) R m L =
    (let L0 = L\<lparr>lib_this := Some (case lib_this L of Some t \<Rightarrow> t | None \<Rightarrow> m)\<rparr> in
     if m \<in> set (lib_modules L0) then Some (L0, False)
     else case fold (\<lambda>dep r. case r of None \<Rightarrow> None | Some L \<Rightarrow> if dep \<noteq> m then map_option fst (addModule n R dep L) else Some L)
            (sort_key (\<lambda>d. md_name (rg_module R d)) (map fst (md_requireModule (rg_module R m)))) (Some L0) of
         None \<Rightarrow> None
       | Some L1 \<Rightarrow>
           if lib_byHash L1 (nameHash R m) \<noteq> None then Some (L1, False)
           else Some (L1\<lparr>lib_modules := lib_modules L1 @ [m], lib_byHash := (lib_byHash L1)(nameHash R m \<mapsto> m)\<rparr>, True))"

text \<open>\<open>renameModule\<close>.\<close>

definition renameModule :: "nat \<Rightarrow> string \<Rightarrow> registry \<times> library \<Rightarrow> das_error + registry \<times> library" where
  "renameModule m newName = (\<lambda>(R, L).
     if lib_byHash L (nameHash R m) = None then Inl (VerifyFailed ''module not found'')
     else let L1 = L\<lparr>lib_byHash := (lib_byHash L)(nameHash R m := None)\<rparr>;
              R1 = R\<lparr>rg_module := (rg_module R)(m := (rg_module R m)\<lparr>md_name := newName\<rparr>)\<rparr>
       in if lib_byHash L1 (nameHash R1 m) \<noteq> None then Inl (VerifyFailed ''duplicate module hash'')
          else Inr (R1, L1\<lparr>lib_byHash := (lib_byHash L1)(nameHash R1 m \<mapsto> m)\<rparr>))"

text \<open>\<open>Module::addDependency\<close>: the module's requirements, and what \<open>mod\<close> requires publicly.\<close>

primrec addDependency :: "nat \<Rightarrow> registry \<Rightarrow> nat \<Rightarrow> bool \<Rightarrow> (nat \<Rightarrow> bool option) \<Rightarrow> (nat \<Rightarrow> bool option) option" where
  "addDependency 0 R md pub req = None"
| "addDependency (Suc n) R md pub req =
    fold (\<lambda>it r. case r of None \<Rightarrow> None | Some req \<Rightarrow> if snd it then addDependency n R (fst it) False req else Some req)
      (md_requireModule (rg_module R md)) (Some (req(md \<mapsto> (case req md of Some p \<Rightarrow> p \<or> pub | None \<Rightarrow> pub))))"

end
