(* ===== verification/ModuleProps.thy ===== *)
theory ModuleProps
  imports ModuleLib
begin

text \<open>Qualified names, what the lookups return, the order of modules, the closure of requirements.\<close>

section \<open>Names\<close>

lemma split_scan_qualified:
  "\<forall>c \<in> set m. c \<noteq> CHR '':'' \<and> c \<noteq> CHR ''<'' \<and> c \<noteq> CHR ''>'' \<Longrightarrow> split_scan 0 (m @ CHR '':'' # CHR '':'' # n) = Some (length m)"
proof (induction m)
  case (Cons c m)
  then show ?case by (cases m) auto
qed simp

lemma splitTypeName_qualified:
  assumes "\<forall>c \<in> set m. c \<noteq> CHR '':'' \<and> c \<noteq> CHR ''<'' \<and> c \<noteq> CHR ''>''" "m \<noteq> ''builtin`''"
  shows "splitTypeName (m @ ''::'' @ n) = (True, m, n)"
  using split_scan_qualified[OF assms(1), of n] assms(2) by (simp add: splitTypeName_def Let_def)

lemma split_scan_plain: "CHR '':'' \<notin> set n \<Longrightarrow> split_scan d n = None"
  by (induction d n rule: split_scan.induct) auto

lemma splitTypeName_plain: "CHR '':'' \<notin> set n \<Longrightarrow> splitTypeName n = (False, ''*'', n)"
  by (simp add: splitTypeName_def split_scan_plain)

section \<open>Lookups\<close>

lemma until_found_all: "until_found (\<lambda>x s. (False, g x s)) xs s = fold g xs s"
  by (induction xs arbitrary: s) simp_all

lemma fold_collect:
  "fold (\<lambda>x acc. if p x then (case f x of Some y \<Rightarrow> acc @ [y] | None \<Rightarrow> acc) else acc) xs acc =
    acc @ List.map_filter (\<lambda>x. if p x then f x else None) xs"
  by (induction xs arbitrary: acc) (auto simp: List.map_filter_simps split: option.split)

lemma fold_collect_if:
  "fold (\<lambda>x acc. if p x then (case f x of Some y \<Rightarrow> if q y then acc @ [y] else acc | None \<Rightarrow> acc) else acc) xs acc =
    acc @ List.map_filter (\<lambda>x. if p x then (case f x of Some y \<Rightarrow> if q y then Some y else None | None \<Rightarrow> None) else None) xs"
  by (induction xs arbitrary: acc) (auto simp: List.map_filter_simps split: option.split)

lemma set_collected: "set (List.map_filter f xs) = {y. \<exists>x \<in> set xs. f x = Some y}"
  by (force simp: List.map_filter_def)

lemma picked: "(if p then (case r of Some y \<Rightarrow> if q y then Some y else None | None \<Rightarrow> None) else None) = Some y \<longleftrightarrow> p \<and> r = Some y \<and> q y"
  by (auto split: option.splits)

text \<open>The modules a name is looked up in.\<close>

definition searched :: "registry \<Rightarrow> library \<Rightarrow> string \<Rightarrow> nat list" where
  "searched R L moduleName = (if moduleName = ''*'' then lib_modules L
     else case findModule L moduleName of None \<Rightarrow> [] | Some pm \<Rightarrow> pm # map fst (filter snd (md_requireModule (rg_module R pm))))"

lemma library_foreach_all:
  "library_foreach R L (\<lambda>x s. (False, g x s)) moduleName s = fold g (searched R L moduleName) s"
  by (simp add: library_foreach_def searched_def until_found_all split: option.split)

definition public_in :: "('n \<Rightarrow> named_decl) \<Rightarrow> nat option \<Rightarrow> 'n \<Rightarrow> bool" where
  "public_in nd me s \<longleftrightarrow> \<not> nd_private (nd s) \<or> nd_module (nd s) = me"

theorem findStructure_finds:
  "set (findStructure R L name me) = {s. \<exists>pm. pm \<in> set (searched R L (fst (snd (splitTypeName name)))) \<and> visible_from R me pm \<and>
     Module_findStructure R pm (snd (snd (splitTypeName name))) = Some s \<and> public_in (rg_struct R) me s}"
  by (cases "splitTypeName name")
    (auto simp: findStructure_def Let_def library_foreach_all fold_collect_if set_collected picked public_in_def)

theorem findEnum_finds:
  "set (findEnum R L name me) = {s. \<exists>pm. pm \<in> set (searched R L (fst (snd (splitTypeName name)))) \<and> visible_from R me pm \<and>
     Module_findEnum R pm (snd (snd (splitTypeName name))) = Some s \<and> public_in (rg_enum R) me s}"
  by (cases "splitTypeName name")
    (auto simp: findEnum_def Let_def library_foreach_all fold_collect_if set_collected picked public_in_def)

section \<open>Adding objects to a module\<close>

theorem addStructure_found:
  assumes "box_settled (md_structures (rg_module R m))" "addStructure m st canFail R = Some (R', added)"
  shows "added \<longleftrightarrow> Module_findStructure R m (nd_name (rg_struct R st)) = None"
    and "added \<Longrightarrow> Module_findStructure R' m (nd_name (rg_struct R st)) = Some st \<and> nd_module (rg_struct R' st) = Some m"
    and "Module_findStructure R m na = Some x \<Longrightarrow> Module_findStructure R' m na = Some x"
    and "box_settled (md_structures (rg_module R' m))"
proof -
  let ?k = "name_hash (nd_name (rg_struct R st))" and ?b = "md_structures (rg_module R m)"
  obtain b t where i: "safebox_insert ?k st ?b = (b, t)" by fastforce
  have b: "safebox_find b = (if safebox_find ?b ?k = None then (safebox_find ?b)(?k \<mapsto> st) else safebox_find ?b)"
    "t \<longleftrightarrow> safebox_find ?b ?k = None" "box_settled b"
    using box.insert_find[OF assms(1), of ?k st] box.insert_tells[OF assms(1), of ?k st] box.insert_ok[OF assms(1), of ?k st] i by simp_all
  have r: "added = t" "md_structures (rg_module R' m) = (if t then b else ?b)" "t \<Longrightarrow> nd_module (rg_struct R' st) = Some m"
    using assms(2) i by (auto simp: addStructure_def split: if_splits)
  show "added \<longleftrightarrow> Module_findStructure R m (nd_name (rg_struct R st)) = None"
    and "added \<Longrightarrow> Module_findStructure R' m (nd_name (rg_struct R st)) = Some st \<and> nd_module (rg_struct R' st) = Some m"
    and "Module_findStructure R m na = Some x \<Longrightarrow> Module_findStructure R' m na = Some x"
    and "box_settled (md_structures (rg_module R' m))"
    using b r assms(1) by (auto simp: Module_findStructure_def)
qed

section \<open>The order of modules\<close>

definition deps_first :: "registry \<Rightarrow> nat list \<Rightarrow> bool" where
  "deps_first R ms \<longleftrightarrow> (\<forall>i < length ms. requires R (ms ! i) - {ms ! i} \<subseteq> set (take i ms))"

definition library_ok :: "registry \<Rightarrow> library \<Rightarrow> bool" where
  "library_ok R L \<longleftrightarrow> distinct (lib_modules L) \<and> deps_first R (lib_modules L) \<and>
    (\<forall>h m. lib_byHash L h = Some m \<longleftrightarrow> m \<in> set (lib_modules L) \<and> nameHash R m = h)"

lemma deps_first_snoc: "deps_first R ms \<Longrightarrow> requires R m - {m} \<subseteq> set ms \<Longrightarrow> deps_first R (ms @ [m])"
  by (auto simp: deps_first_def nth_append less_Suc_eq)

definition reach :: "registry \<Rightarrow> nat \<Rightarrow> nat set" where
  "reach R m = {a. (m, a) \<in> {(a, d). d \<in> requires R a}\<^sup>*}"

lemma reach_self [simp]: "m \<in> reach R m"
  by (simp add: reach_def)

lemma reach_step: "d \<in> requires R m \<Longrightarrow> reach R d \<subseteq> reach R m"
  by (auto simp: reach_def intro: converse_rtrancl_into_rtrancl)

lemma reach_rank:
  assumes "\<forall>a \<in> U. requires R a \<subseteq> U" "\<forall>a \<in> U. \<forall>d \<in> requires R a. d \<noteq> a \<longrightarrow> (rank d :: nat) < rank a" "m \<in> U" "a \<in> reach R m"
  shows "a \<in> U \<and> rank a \<le> rank m"
  using assms(4) unfolding reach_def mem_Collect_eq
  by (induction rule: rtrancl_induct) (use assms in force)+

lemma library_ok_this [simp]: "library_ok R (L\<lparr>lib_this := t\<rparr>) = library_ok R L"
  by (simp add: library_ok_def)

definition extends :: "registry \<Rightarrow> nat set \<Rightarrow> library \<Rightarrow> library \<Rightarrow> bool" where
  "extends R U L L' \<longleftrightarrow> library_ok R L' \<and> (\<exists>added. lib_modules L' = lib_modules L @ added \<and> set added \<subseteq> U)"

lemma extends_refl: "library_ok R L \<Longrightarrow> extends R U L L"
  by (simp add: extends_def)

lemma extends_mono: "extends R U L L' \<Longrightarrow> U \<subseteq> V \<Longrightarrow> extends R V L L'"
  by (auto simp: extends_def)

lemma extends_trans: "extends R U L L1 \<Longrightarrow> extends R U L1 L2 \<Longrightarrow> extends R U L L2"
  by (auto simp: extends_def)

lemma add_requirements:
  assumes "\<forall>d L. d \<in> set ds \<and> d \<noteq> m \<and> library_ok R L \<and> set (lib_modules L) \<subseteq> U \<longrightarrow>
      (\<exists>L' b. addModule n R d L = Some (L', b) \<and> extends R V L L' \<and> d \<in> set (lib_modules L'))"
    and "library_ok R L" "set (lib_modules L) \<subseteq> U" "V \<subseteq> U"
  shows "\<exists>L'. fold (\<lambda>dep r. case r of None \<Rightarrow> None | Some L \<Rightarrow> if dep \<noteq> m then map_option fst (addModule n R dep L) else Some L) ds (Some L) = Some L' \<and>
    extends R V L L' \<and> set ds - {m} \<subseteq> set (lib_modules L')"
  using assms
proof (induction ds arbitrary: L)
  case (Cons d ds)
  obtain L1 where L1: "(if d \<noteq> m then map_option fst (addModule n R d L) else Some L) = Some L1" "extends R V L L1" "d \<noteq> m \<longrightarrow> d \<in> set (lib_modules L1)"
    using Cons.prems(1)[rule_format, of d L] Cons.prems(2,3) extends_refl by (cases "d = m") auto
  have "library_ok R L1" "set (lib_modules L1) \<subseteq> U" using L1(2) Cons.prems(3,4) unfolding extends_def by (blast, fastforce)
  then obtain L' where "fold (\<lambda>dep r. case r of None \<Rightarrow> None | Some L \<Rightarrow> if dep \<noteq> m then map_option fst (addModule n R dep L) else Some L) ds (Some L1) = Some L'"
      "extends R V L1 L'" "set ds - {m} \<subseteq> set (lib_modules L')"
    using Cons.IH[of L1] Cons.prems(1,4) by auto
  moreover have "set (lib_modules L1) \<subseteq> set (lib_modules L')" using calculation(2) by (auto simp: extends_def)
  ultimately show ?case using L1 extends_trans by auto
qed (simp add: extends_refl)

lemma push_module:
  assumes "library_ok R L" "m \<notin> set (lib_modules L)" "requires R m - {m} \<subseteq> set (lib_modules L)"
    and "inj_on (nameHash R) (insert m (set (lib_modules L)))"
  shows "lib_byHash L (nameHash R m) = None"
    and "library_ok R (L\<lparr>lib_modules := lib_modules L @ [m], lib_byHash := (lib_byHash L)(nameHash R m \<mapsto> m)\<rparr>)"
proof -
  have fresh: "nameHash R m \<noteq> nameHash R a" "nameHash R a \<noteq> nameHash R m" if "a \<in> set (lib_modules L)" for a
    using that assms(2,4) by (auto simp: inj_on_def)
  have "\<exists>a. lib_byHash L h = Some a" if "lib_byHash L h \<noteq> None" for h using that by auto
  with fresh assms(1) show n: "lib_byHash L (nameHash R m) = None" by (fastforce simp: library_ok_def)
  show "library_ok R (L\<lparr>lib_modules := lib_modules L @ [m], lib_byHash := (lib_byHash L)(nameHash R m \<mapsto> m)\<rparr>)"
    using assms fresh n by (auto simp: library_ok_def deps_first_snoc)
qed

text \<open>C14: adding a module to a library terminates when no module requires itself through others
  (\<open>rank\<close> decreases along requirements; any depth above the module's rank is enough). If no two
  of the names have the same hash, what was there stays in place, the module and what it
  requires, directly or not, follow it, every module comes after all it requires, and each is
  found by the hash of its name.\<close>

theorem addModule_orders:
  assumes "\<forall>a \<in> U. requires R a \<subseteq> U" "\<forall>a \<in> U. \<forall>d \<in> requires R a. d \<noteq> a \<longrightarrow> (rank d :: nat) < rank a"
    and "inj_on (nameHash R) U" "m \<in> U" "rank m < n" "library_ok R L" "set (lib_modules L) \<subseteq> U"
  shows "\<exists>L'. addModule n R m L = Some (L', m \<notin> set (lib_modules L)) \<and> extends R (reach R m) L L' \<and> m \<in> set (lib_modules L')"
  using assms(4-)
proof (induction n arbitrary: m L)
  case (Suc n)
  define L0 where "L0 = L\<lparr>lib_this := Some (case lib_this L of Some t \<Rightarrow> t | None \<Rightarrow> m)\<rparr>"
  have L0: "library_ok R L0" "lib_modules L0 = lib_modules L" using Suc.prems(3) by (simp_all add: L0_def)
  show ?case
  proof (cases "m \<in> set (lib_modules L)")
    case True
    then have "addModule (Suc n) R m L = Some (L0, False)" by (simp add: L0_def)
    with True L0 show ?thesis by (auto simp: extends_def)
  next
    case False
    let ?ds = "sort_key (\<lambda>d. md_name (rg_module R d)) (map fst (md_requireModule (rg_module R m)))"
    let ?V = "reach R m - {m}"
    have ds: "set ?ds = requires R m" by (simp add: requires_def)
    have up: "reach R m \<subseteq> U" using reach_rank[OF assms(1,2) Suc.prems(1)] by blast
    have "\<exists>L' b. addModule n R d L = Some (L', b) \<and> extends R ?V L L' \<and> d \<in> set (lib_modules L')"
      if "d \<in> set ?ds" "d \<noteq> m" "library_ok R L" "set (lib_modules L) \<subseteq> U" for d L
    proof -
      have d: "d \<in> requires R m" using that(1) ds by simp
      then have r: "rank d < rank m" "d \<in> U" using that(2) assms(1,2) Suc.prems(1) by blast+
      moreover have "reach R d \<subseteq> ?V" using reach_step[OF d] reach_rank[OF assms(1,2) r(2)] r(1) by fastforce
      ultimately show ?thesis using Suc.IH[of d L] that(3,4) Suc.prems(2) by (auto intro: extends_mono)
    qed
    then have deps: "\<forall>d L. d \<in> set ?ds \<and> d \<noteq> m \<and> library_ok R L \<and> set (lib_modules L) \<subseteq> U \<longrightarrow>
      (\<exists>L' b. addModule n R d L = Some (L', b) \<and> extends R ?V L L' \<and> d \<in> set (lib_modules L'))" by blast
    have in_U: "set (lib_modules L0) \<subseteq> U" "?V \<subseteq> U" using Suc.prems(4) up by (auto simp: L0(2))
    obtain L1 where L1:
      "fold (\<lambda>dep r. case r of None \<Rightarrow> None | Some L \<Rightarrow> if dep \<noteq> m then map_option fst (addModule n R dep L) else Some L) ?ds (Some L0) = Some L1"
      "extends R ?V L0 L1" "requires R m - {m} \<subseteq> set (lib_modules L1)"
      using add_requirements[where m = m and n = n, OF deps L0(1) in_U] unfolding ds by (elim exE conjE) (rule that)
    then obtain added where add: "lib_modules L1 = lib_modules L @ added" "set added \<subseteq> ?V" and ok: "library_ok R L1"
      by (auto simp: extends_def L0(2))
    have fresh: "m \<notin> set (lib_modules L1)" using add False by auto
    have "insert m (set (lib_modules L1)) \<subseteq> U" using add Suc.prems(1,4) up by auto
    then have inj: "inj_on (nameHash R) (insert m (set (lib_modules L1)))" using assms(3) inj_on_subset by blast
    let ?L' = "L1\<lparr>lib_modules := lib_modules L1 @ [m], lib_byHash := (lib_byHash L1)(nameHash R m \<mapsto> m)\<rparr>"
    have "addModule (Suc n) R m L = Some (?L', True)"
      using False L1(1) push_module(1)[OF ok fresh L1(3) inj] by (simp add: Let_def L0(2) flip: L0_def)
    moreover have "extends R (reach R m) L ?L'" using push_module(2)[OF ok fresh L1(3) inj] add by (auto simp: extends_def)
    ultimately show ?thesis using False by auto
  qed
qed simp

text \<open>Three modules: \<open>2\<close> requires \<open>1\<close> and \<open>0\<close>, \<open>1\<close> requires \<open>0\<close>, and \<open>0\<close> requires itself (as \<open>$\<close> does).\<close>

definition demo_module :: "string \<Rightarrow> (nat \<times> bool) list \<Rightarrow> module_decl" where
  "demo_module n req = \<lparr>md_name = n, md_structures = safebox_new, md_enumerations = safebox_new,
     md_handleTypes = Map.empty, md_requireModule = req, md_visibleEverywhere = False\<rparr>"

definition demo_registry :: registry where
  "demo_registry = \<lparr>rg_module = (\<lambda>m. if m = 0 then demo_module ''$'' [(0, False)] else if m = 1 then demo_module ''a'' [(0, False)]
       else if m = 2 then demo_module ''b'' [(1, True), (0, False)] else demo_module [] []),
     rg_struct = (\<lambda>_. \<lparr>nd_name = ''S'', nd_module = None, nd_private = False\<rparr>),
     rg_enum = (\<lambda>_. \<lparr>nd_name = ''E'', nd_module = None, nd_private = False\<rparr>),
     rg_ann = (\<lambda>_. \<lparr>nd_name = ''H'', nd_module = None, nd_private = False\<rparr>),
     rg_isHandled = (\<lambda>_. True), rg_bound = Some [2, 1, 0]\<rparr>"

lemma addModule_orders_witness:
  "\<exists>L'. addModule 3 demo_registry 2 library_new = Some (L', True) \<and> deps_first demo_registry (lib_modules L') \<and> 2 \<in> set (lib_modules L')"
proof -
  have h: "name_hash ''$'' \<noteq> name_hash ''a''" "name_hash ''$'' \<noteq> name_hash ''b''" "name_hash ''a'' \<noteq> name_hash ''b''" by code_simp+
  have r: "requires demo_registry 0 = {0}" "requires demo_registry (Suc 0) = {0}" "requires demo_registry 2 = {0, 1}"
    by (auto simp: requires_def demo_registry_def demo_module_def)
  have "inj_on (nameHash demo_registry) {0, 1, 2}"
    using h by (auto simp: inj_on_def nameHash_def demo_registry_def demo_module_def)
  moreover have "library_ok demo_registry library_new" by (simp add: library_ok_def library_new_def deps_first_def)
  ultimately show ?thesis
    using addModule_orders[of "{0, 1, 2}" demo_registry "\<lambda>m. m" 2 3 library_new] r
    by (force simp: library_new_def extends_def library_ok_def)
qed

section \<open>Requirements of a module\<close>

definition public_requires :: "registry \<Rightarrow> (nat \<times> nat) set" where
  "public_requires R = {(a, d). (d, True) \<in> set (md_requireModule (rg_module R a))}"

definition with_dependencies :: "nat set \<Rightarrow> (nat \<Rightarrow> bool option) \<Rightarrow> (nat \<Rightarrow> bool option) \<Rightarrow> bool" where
  "with_dependencies V req req' \<longleftrightarrow> dom req' = dom req \<union> V \<and> (\<forall>k. req' k = Some True \<longleftrightarrow> req k = Some True)"

lemma with_dependencies_trans:
  "with_dependencies V a b \<Longrightarrow> with_dependencies W b c \<Longrightarrow> with_dependencies (V \<union> W) a c"
  by (auto simp: with_dependencies_def)

lemma add_dependencies:
  assumes "\<forall>d req. (d, True) \<in> set its \<longrightarrow> (\<exists>req'. addDependency n R d False req = Some req' \<and> with_dependencies (D d) req req')"
  shows "\<exists>req'. fold (\<lambda>it r. case r of None \<Rightarrow> None | Some req \<Rightarrow> if snd it then addDependency n R (fst it) False req else Some req) its (Some req) = Some req' \<and>
    with_dependencies (\<Union>{D d |d. (d, True) \<in> set its}) req req'"
  using assms
proof (induction its arbitrary: req)
  case Nil
  then show ?case by (simp add: with_dependencies_def)
next
  case (Cons it its)
  obtain d p where it: "it = (d, p)" by fastforce
  let ?E = "if p then D d else {}"
  obtain r1 where r1: "(if p then addDependency n R d False req else Some req) = Some r1" "with_dependencies ?E req r1"
  proof (cases p)
    case True
    with Cons.prems[rule_format, of d req] it that show ?thesis by auto
  next
    case False
    with that[of req] show ?thesis by (simp add: with_dependencies_def)
  qed
  obtain r2 where r2: "fold (\<lambda>it r. case r of None \<Rightarrow> None | Some req \<Rightarrow> if snd it then addDependency n R (fst it) False req else Some req) its (Some r1) = Some r2"
    "with_dependencies (\<Union>{D d |d. (d, True) \<in> set its}) r1 r2"
    using Cons.IH[of r1] Cons.prems by auto
  have "\<Union>{D d |d. (d, True) \<in> set (it # its)} = ?E \<union> \<Union>{D d |d. (d, True) \<in> set its}" using it by (cases p) auto
  then show ?case using with_dependencies_trans[OF r1(2) r2(2)] r1(1) r2(1) it by (cases p) auto
qed

theorem addDependency_closure:
  assumes "\<forall>(a, d) \<in> public_requires R. (rank d :: nat) < rank a" "rank md < n"
  shows "\<exists>req'. addDependency n R md pub req = Some req' \<and> dom req' = dom req \<union> {k. (md, k) \<in> (public_requires R)\<^sup>*} \<and>
    (\<forall>k. req' k = Some True \<longleftrightarrow> req k = Some True \<or> k = md \<and> pub)"
  using assms(2)
proof (induction n arbitrary: md pub req)
  case (Suc n)
  let ?D = "\<lambda>d. {k. (d, k) \<in> (public_requires R)\<^sup>*}"
  let ?its = "md_requireModule (rg_module R md)" and ?req = "req(md \<mapsto> (case req md of Some p \<Rightarrow> p \<or> pub | None \<Rightarrow> pub))"
  have "\<forall>d req. (d, True) \<in> set ?its \<longrightarrow> (\<exists>req'. addDependency n R d False req = Some req' \<and> with_dependencies (?D d) req req')"
  proof (intro allI impI)
    fix d req assume "(d, True) \<in> set ?its"
    then have "rank d < rank md" using assms(1) by (auto simp: public_requires_def)
    then show "\<exists>req'. addDependency n R d False req = Some req' \<and> with_dependencies (?D d) req req'"
      using Suc.IH[of d False req] Suc.prems by (simp add: with_dependencies_def)
  qed
  from add_dependencies[OF this, of ?req] obtain req' where req': "addDependency (Suc n) R md pub req = Some req'"
      "with_dependencies (\<Union>{?D d |d. (d, True) \<in> set ?its}) ?req req'" by auto
  have "?D md = insert md (\<Union>{?D d |d. (d, True) \<in> set ?its})"
  proof (intro equalityI subsetI)
    fix k assume "k \<in> ?D md"
    then show "k \<in> insert md (\<Union>{?D d |d. (d, True) \<in> set ?its})"
      unfolding mem_Collect_eq by (cases rule: converse_rtranclE) (auto simp: public_requires_def)
  next
    fix k assume "k \<in> insert md (\<Union>{?D d |d. (d, True) \<in> set ?its})"
    then show "k \<in> ?D md" by (auto simp: public_requires_def intro: converse_rtrancl_into_rtrancl)
  qed
  with req' show ?case by (auto simp: with_dependencies_def split: option.splits if_splits)
qed simp

end
