(* ===== verification/MangledName.thy ===== *)
theory MangledName
  imports ModuleLib TypeModel
begin

text \<open>
  The text of a type: \<open>TypeDecl::getMangledName\<close> and the parser that reads it back,
  \<open>MangledNameParser\<close> (\<open>ast/ast_typedecl.cpp\<close>). Structures, enumerations and annotations are
  the ones of the registry. The text behind \<open>^<\<close> of a type macro prints expressions, which
  the model does not have; it is the parameter \<open>macro_text\<close>.
\<close>

section \<open>Numbers\<close>

definition digit :: "nat \<Rightarrow> char" where
  "digit n = char_of (48 + n)"

fun show_nat :: "nat \<Rightarrow> string" where
  "show_nat n = (if n < 10 then [digit n] else show_nat (n div 10) @ [digit (n mod 10)])"

declare show_nat.simps [simp del]

definition show_int :: "int \<Rightarrow> string" where
  "show_int i = (if i < 0 then CHR ''-'' # show_nat (nat (- i)) else show_nat (nat i))"

definition isdigit :: "char \<Rightarrow> bool" where
  "isdigit c \<longleftrightarrow> 48 \<le> (of_char c :: nat) \<and> (of_char c :: nat) \<le> 57"

text \<open>\<open>isalnum\<close> of the C locale.\<close>

definition isalnum :: "char \<Rightarrow> bool" where
  "isalnum c \<longleftrightarrow> isdigit c \<or> (let n = of_char c :: nat in 65 \<le> n \<and> n \<le> 90 \<or> 97 \<le> n \<and> n \<le> 122)"

definition read_nat :: "string \<Rightarrow> nat" where
  "read_nat = foldl (\<lambda>n c. n * 10 + (of_char c - 48)) 0"

text \<open>\<open>atoi\<close> of a text of digits; C leaves it undefined beyond \<open>INT_MAX\<close>.\<close>

definition atoi :: "string \<Rightarrow> das_error + int" where
  "atoi s = (if INT32_MAX < read_nat s then Inl (UndefinedBehaviour ''atoi'') else Inr (int (read_nat s)))"

section \<open>Writing\<close>

text \<open>The suffix of a type that is only its basic type.\<close>

fun basic_text :: "das_type \<Rightarrow> string" where
  "basic_text anyArgument = ''*''"
| "basic_text fakeContext = ''_c''"
| "basic_text fakeLineInfo = ''_l''"
| "basic_text autoinfer = ''.''"
| "basic_text option = ''|''"
| "basic_text typeDecl = ''D''"
| "basic_text aliasType = ''L''"
| "basic_text tIterator = ''G''"
| "basic_text tArray = ''A''"
| "basic_text tTable = ''T''"
| "basic_text tBlock = ''$''"
| "basic_text tFunction = ''@@''"
| "basic_text tLambda = ''@''"
| "basic_text tTuple = ''U''"
| "basic_text tVariant = ''V''"
| "basic_text tBitfield = ''t''"
| "basic_text tBitfield8 = ''t8''"
| "basic_text tBitfield16 = ''t16''"
| "basic_text tBitfield64 = ''t64''"
| "basic_text tInt = ''i''"
| "basic_text tInt2 = ''i2''"
| "basic_text tInt3 = ''i3''"
| "basic_text tInt4 = ''i4''"
| "basic_text tInt8 = ''i8''"
| "basic_text tInt16 = ''i16''"
| "basic_text tInt64 = ''i64''"
| "basic_text tUInt = ''u''"
| "basic_text tUInt2 = ''u2''"
| "basic_text tUInt3 = ''u3''"
| "basic_text tUInt4 = ''u4''"
| "basic_text tUInt8 = ''u8''"
| "basic_text tUInt16 = ''u16''"
| "basic_text tUInt64 = ''u64''"
| "basic_text tFloat = ''f''"
| "basic_text tFloat2 = ''f2''"
| "basic_text tFloat3 = ''f3''"
| "basic_text tFloat4 = ''f4''"
| "basic_text tRange = ''r''"
| "basic_text tURange = ''z''"
| "basic_text tRange64 = ''r64''"
| "basic_text tURange64 = ''z64''"
| "basic_text tDouble = ''d''"
| "basic_text tString = ''s''"
| "basic_text tVoid = ''v''"
| "basic_text tBool = ''b''"
| "basic_text _ = []"

definition join :: "string list \<Rightarrow> string" where
  "join ss = (case ss of [] \<Rightarrow> [] | s # rest \<Rightarrow> s @ concat (map (Cons CHR '';'') rest))"

definition module_prefix :: "registry \<Rightarrow> nat option \<Rightarrow> string" where
  "module_prefix R m = (case m of Some k \<Rightarrow> if md_name (rg_module R k) \<noteq> [] then md_name (rg_module R k) @ ''::'' else [] | None \<Rightarrow> [])"

text \<open>\<open>Enumeration::getMangledName\<close> writes the separator even for a module without a name.\<close>

definition enum_mangled :: "registry \<Rightarrow> nat \<Rightarrow> string" where
  "enum_mangled R e = (case nd_module (rg_enum R e) of
     Some k \<Rightarrow> md_name (rg_module R k) @ ''::'' @ nd_name (rg_enum R e) | None \<Rightarrow> nd_name (rg_enum R e))"

definition flag_text :: "td_flags \<Rightarrow> string" where
  "flag_text f = (if f_constant f then ''C'' else []) @ (if f_ref f then ''&'' else []) @ (if f_temporary f then ''#'' else []) @
     (if f_implicit f then ''I'' else []) @ (if f_explicitConst f then ''='' else []) @ (if f_explicitRef f then ''R'' else []) @
     (if f_isExplicit f then ''X'' else []) @ (if f_aotAlias f then ''F'' else [])"

definition remove_text :: "bool \<Rightarrow> td_flags \<Rightarrow> string" where
  "remove_text fullName f = (if fullName then
     (if f_removeDim f then ''-[]'' else []) @ (if f_removeConstant f then ''-C'' else []) @
     (if f_removeRef f then ''-&'' else []) @ (if f_removeTemporary f then ''-#'' else []) else [])"

definition alias_text :: "string \<Rightarrow> string" where
  "alias_text a = (if a \<noteq> [] then ''Y<'' @ a @ ''>'' else [])"

definition enum_width_text :: "das_type \<Rightarrow> string" where
  "enum_width_text b = (if b = tEnumeration8 then ''8'' else if b = tEnumeration16 then ''16'' else if b = tEnumeration64 then ''64'' else [])"

text \<open>The last part: the basic type with the name of what it refers to.\<close>

definition base_text :: "registry \<Rightarrow> (type_decl \<Rightarrow> string) \<Rightarrow> type_decl \<Rightarrow> string" where
  "base_text R macro_text t =
    (if baseType t = tHandle then
       let a = rg_ann R (the (annotation t)) in ''H<'' @ module_prefix R (Some (the (nd_module a))) @ nd_name a @ ''>''
     else if baseType t = tStructure then
       let s = rg_struct R (the (structType t)) in ''S<'' @ module_prefix R (nd_module s) @ nd_name s @ ''>''
     else if baseType t = tEnumeration \<or> baseType t = tEnumeration8 \<or> baseType t = tEnumeration16 \<or> baseType t = tEnumeration64 then
       ''E'' @ enum_width_text (baseType t) @
       (if f_enumStubBinding (flags t) then ''b'' else []) @ (if f_enumStubIsUnsigned (flags t) then ''u'' else []) @
       (case enumType t of Some e \<Rightarrow> ''<'' @ enum_mangled R e @ ''>'' | None \<Rightarrow> [])
     else if baseType t = tPointer then
       ''?'' @ (if f_smartPtr (flags t) then (if f_smartPtrNative (flags t) then ''W'' else ''M'') else [])
     else if baseType t = typeMacro then ''^<'' @ macro_text t @ ''>''
     else if baseType t = das_type.none then (if f_isTag (flags t) then ''``TAG``'' else [])
     else basic_text (baseType t))"

fun getMangledName :: "registry \<Rightarrow> (type_decl \<Rightarrow> string) \<Rightarrow> bool \<Rightarrow> type_decl \<Rightarrow> string" where
  "getMangledName R macro_text fullName t =
    flag_text (flags t) @
    (if baseType t = tFixedArray then
       ''['' @ show_int (fixedDim t) @ '']'' @ remove_text fullName (flags t) @ alias_text (td_alias t) @
       concat (map (getMangledName R macro_text fullName) (opt_list (firstType t)))
     else
       remove_text fullName (flags t) @ alias_text (td_alias t) @
       (if argNames t \<noteq> [] then ''N<'' @ join (argNames t) @ ''>'' else []) @
       (if argTypes t \<noteq> [] then ''0<'' @ join (map (getMangledName R macro_text fullName) (argTypes t)) @ ''>'' else []) @
       concat (map (\<lambda>u. ''1<'' @ getMangledName R macro_text fullName u @ ''>'') (opt_list (firstType t))) @
       concat (map (\<lambda>u. ''2<'' @ getMangledName R macro_text fullName u @ ''>'') (opt_list (secondType t))) @
       base_text R macro_text t)"

declare getMangledName.simps [simp del]


section \<open>Reading\<close>

text \<open>
  A parser gets what is left of the text (up to the terminating zero) and returns the result
  with the rest, an error (\<open>DAS_VERIFY\<close> in \<open>MangledNameParser::error\<close>), or \<open>None\<close> when its bound
  on the depth is used up.
\<close>

type_synonym 'a parsed = "(das_error + 'a \<times> string) option"

definition parse_error :: "string \<Rightarrow> 'a parsed" where
  "parse_error msg = Some (Inl (VerifyFailed msg))"

definition and_then :: "'a parsed \<Rightarrow> ('a \<Rightarrow> string \<Rightarrow> 'b parsed) \<Rightarrow> 'b parsed" where
  "and_then p f = (case p of None \<Rightarrow> None | Some (Inl e) \<Rightarrow> Some (Inl e) | Some (Inr (x, rest)) \<Rightarrow> f x rest)"

text \<open>\<open>if ( *ch != c ) error(...); ch ++;\<close>\<close>

definition expect :: "char \<Rightarrow> string \<Rightarrow> (string \<Rightarrow> 'b parsed) \<Rightarrow> 'b parsed" where
  "expect c s k = (case s of d # rest \<Rightarrow> if d = c then k rest else parse_error ''expecting'' | [] \<Rightarrow> parse_error ''expecting'')"

definition name_char :: "bool \<Rightarrow> char \<Rightarrow> bool" where
  "name_char allowModule c \<longleftrightarrow> isalnum c \<or> c = CHR ''_'' \<or> c = CHR 0x60 \<or> c = CHR '':'' \<and> allowModule \<or> c = CHR ''$'' \<and> allowModule"

definition parseAnyName :: "bool \<Rightarrow> string \<Rightarrow> string \<times> string" where
  "parseAnyName allowModule s = (takeWhile (name_char allowModule) s, dropWhile (name_char allowModule) s)"

definition parseAnyNameInBrackets :: "bool \<Rightarrow> string \<Rightarrow> string parsed" where
  "parseAnyNameInBrackets allowModule s =
    expect CHR ''<'' s (\<lambda>s1. case parseAnyName allowModule s1 of (name, s2) \<Rightarrow>
      expect CHR ''>'' s2 (\<lambda>s3. Some (Inr (name, s3))))"

text \<open>Writes to the fields of the type just read.\<close>

fun map_flags :: "(td_flags \<Rightarrow> td_flags) \<Rightarrow> type_decl \<Rightarrow> type_decl" where
  "map_flags g (TypeDecl b st en an f s as ns d fl al) = TypeDecl b st en an f s as ns d (g fl) al"

fun with_first :: "type_decl \<Rightarrow> type_decl \<Rightarrow> type_decl" where
  "with_first ft (TypeDecl b st en an f s as ns d fl al) = TypeDecl b st en an (Some ft) s as ns d fl al"

fun with_second :: "type_decl \<Rightarrow> type_decl \<Rightarrow> type_decl" where
  "with_second ft (TypeDecl b st en an f s as ns d fl al) = TypeDecl b st en an f (Some ft) as ns d fl al"

fun with_args :: "type_decl list \<Rightarrow> type_decl \<Rightarrow> type_decl" where
  "with_args types (TypeDecl b st en an f s as ns d fl al) = TypeDecl b st en an f s types ns d fl al"

fun with_names :: "string list \<Rightarrow> type_decl \<Rightarrow> type_decl" where
  "with_names names (TypeDecl b st en an f s as ns d fl al) = TypeDecl b st en an f s as names d fl al"

fun with_alias :: "string \<Rightarrow> type_decl \<Rightarrow> type_decl" where
  "with_alias aname (TypeDecl b st en an f s as ns d fl al) = TypeDecl b st en an f s as ns d fl aname"

definition new_handle :: "nat \<Rightarrow> type_decl" where
  "new_handle a = TypeDecl tHandle None None (Some a) None None [] [] 0 no_flags []"

definition new_enum :: "das_type \<Rightarrow> nat option \<Rightarrow> type_decl" where
  "new_enum b e = TypeDecl b None e None None None [] [] 0 no_flags []"

definition new_fixed_array :: "int \<Rightarrow> td_flags \<Rightarrow> string \<Rightarrow> type_decl" where
  "new_fixed_array d f al = TypeDecl tFixedArray None None None None None [] [] d f al"

text \<open>What the text refers to.\<close>

record names =
  nm_registry :: registry
  nm_library :: library
  nm_thisModule :: "nat option"

definition resolve_annotation :: "names \<Rightarrow> string \<Rightarrow> nat list" where
  "resolve_annotation N annName =
    (let R = nm_registry N;
         a1 = findAnnotation R (nm_library N) annName (nm_thisModule N);
         a2 = (case nm_thisModule N of
                 Some m \<Rightarrow> if a1 = [] then (case Module_findAnnotation R m annName of Some a \<Rightarrow> [a] | None \<Rightarrow> a1) else a1
               | None \<Rightarrow> a1)
     in if a2 = [] then
          let (_, modName, shortName) = splitTypeName annName in
          if modName \<noteq> [] then
            (case Module_require R modName of
               Some md \<Rightarrow> (case Module_findAnnotation R md shortName of Some a \<Rightarrow> [a] | None \<Rightarrow> [])
             | None \<Rightarrow> [])
          else []
        else a2)"

definition resolve_structure :: "names \<Rightarrow> string \<Rightarrow> nat list" where
  "resolve_structure N sname =
    (let stt = findStructure (nm_registry N) (nm_library N) sname (nm_thisModule N) in
     case nm_thisModule N of
       Some m \<Rightarrow> if stt = [] then (case Module_findStructure (nm_registry N) m sname of Some s \<Rightarrow> [s] | None \<Rightarrow> []) else stt
     | None \<Rightarrow> stt)"

definition resolve_enum :: "names \<Rightarrow> string \<Rightarrow> nat list" where
  "resolve_enum N sname =
    (let stt = findEnum (nm_registry N) (nm_library N) sname (nm_thisModule N) in
     case nm_thisModule N of
       Some m \<Rightarrow> if stt = [] then (case Module_findEnum (nm_registry N) m sname of Some s \<Rightarrow> [s] | None \<Rightarrow> []) else stt
     | None \<Rightarrow> stt)"

text \<open>Case \<open>'H'\<close>, \<open>'S'\<close> and \<open>'E'\<close>, behind the letter. \<open>back()\<close> of an empty vector is undefined.\<close>

definition parse_handle :: "names \<Rightarrow> string \<Rightarrow> type_decl parsed" where
  "parse_handle N s = and_then (parseAnyNameInBrackets True s) (\<lambda>annName s1.
     let ann = resolve_annotation N annName in
     if length ann \<noteq> 1 then parse_error ''unresolved annotation''
     else if \<not> rg_isHandled (nm_registry N) (List.last ann) then parse_error ''is not a handled type''
     else Some (Inr (new_handle (List.last ann), s1)))"

definition parse_structure :: "names \<Rightarrow> string \<Rightarrow> type_decl parsed" where
  "parse_structure N s = and_then (parseAnyNameInBrackets True s) (\<lambda>sname s1.
     let stt = resolve_structure N sname in
     if length stt = 1 then parse_error ''unknown structure''
     else if stt = [] then Some (Inl (UndefinedBehaviour ''back of an empty vector''))
     else Some (Inr (new_struct_type (List.last stt), s1)))"

definition parse_enum :: "names \<Rightarrow> string \<Rightarrow> type_decl parsed" where
  "parse_enum N s =
    (let (b, s1) = (if take 1 s = ''8'' then (tEnumeration8, drop 1 s)
                    else if take 2 s = ''16'' then (tEnumeration16, drop 2 s)
                    else if take 2 s = ''64'' then (tEnumeration64, drop 2 s) else (tEnumeration, s)) in
     if take 1 s1 = ''<'' then and_then (parseAnyNameInBrackets True s1) (\<lambda>sname s2.
       let stt = resolve_enum N sname in
       if length stt \<noteq> 1 then parse_error ''unresolved enumeration'' else Some (Inr (new_enum b (Some (List.last stt)), s2)))
     else Some (Inr (new_enum b None, s1)))"

text \<open>The cases that only read the letters of a basic type.\<close>

definition parse_basic :: "string \<Rightarrow> (das_type \<times> string) option" where
  "parse_basic s = (case s of [] \<Rightarrow> None | c # r \<Rightarrow>
     if c = CHR ''_'' then (if take 1 r = ''c'' then Some (fakeContext, drop 1 r) else (if take 1 r = ''l'' then Some (fakeLineInfo, drop 1 r) else None))
     else if c = CHR ''i'' then (if take 1 r = ''2'' then Some (tInt2, drop 1 r) else (if take 1 r = ''3'' then Some (tInt3, drop 1 r) else (if take 1 r = ''4'' then Some (tInt4, drop 1 r) else (if take 1 r = ''8'' then Some (tInt8, drop 1 r) else (if take 2 r = ''16'' then Some (tInt16, drop 2 r) else (if take 2 r = ''64'' then Some (tInt64, drop 2 r) else Some (tInt, r)))))))
     else if c = CHR ''u'' then (if take 1 r = ''2'' then Some (tUInt2, drop 1 r) else (if take 1 r = ''3'' then Some (tUInt3, drop 1 r) else (if take 1 r = ''4'' then Some (tUInt4, drop 1 r) else (if take 1 r = ''8'' then Some (tUInt8, drop 1 r) else (if take 2 r = ''16'' then Some (tUInt16, drop 2 r) else (if take 2 r = ''64'' then Some (tUInt64, drop 2 r) else Some (tUInt, r)))))))
     else if c = CHR ''f'' then (if take 1 r = ''2'' then Some (tFloat2, drop 1 r) else (if take 1 r = ''3'' then Some (tFloat3, drop 1 r) else (if take 1 r = ''4'' then Some (tFloat4, drop 1 r) else Some (tFloat, r))))
     else if c = CHR ''.'' then Some (autoinfer, r)
     else if c = CHR ''|'' then Some (option, r)
     else if c = CHR ''D'' then Some (typeDecl, r)
     else if c = CHR ''^'' then Some (typeMacro, r)
     else if c = CHR ''*'' then Some (anyArgument, r)
     else if c = CHR ''L'' then Some (aliasType, r)
     else if c = CHR ''A'' then Some (tArray, r)
     else if c = CHR ''T'' then Some (tTable, r)
     else if c = CHR ''G'' then Some (tIterator, r)
     else if c = CHR ''$'' then Some (tBlock, r)
     else if c = CHR ''U'' then Some (tTuple, r)
     else if c = CHR ''V'' then Some (tVariant, r)
     else if c = CHR ''t'' then (if take 1 r = ''8'' then Some (tBitfield8, drop 1 r) else (if take 2 r = ''16'' then Some (tBitfield16, drop 2 r) else (if take 2 r = ''64'' then Some (tBitfield64, drop 2 r) else Some (tBitfield, r))))
     else if c = CHR ''r'' then (if take 2 r = ''64'' then Some (tRange64, drop 2 r) else Some (tRange, r))
     else if c = CHR ''z'' then (if take 2 r = ''64'' then Some (tURange64, drop 2 r) else Some (tURange, r))
     else if c = CHR ''d'' then Some (tDouble, r)
     else if c = CHR ''s'' then Some (tString, r)
     else if c = CHR ''v'' then Some (tVoid, r)
     else if c = CHR ''b'' then Some (tBool, r)
     else if c = CHR ''@'' then (if take 1 r = ''@'' then Some (tFunction, drop 1 r) else Some (tLambda, r))
     else None)"

text \<open>Case \<open>'?'\<close>, behind the letter.\<close>

definition parse_pointer :: "string \<Rightarrow> type_decl \<times> string" where
  "parse_pointer s =
    (if take 1 s = ''M'' then (map_flags (\<lambda>f. f\<lparr>f_smartPtr := True, f_smartPtrNative := False\<rparr>) (new_type tPointer), drop 1 s)
     else if take 1 s = ''W'' then (map_flags (\<lambda>f. f\<lparr>f_smartPtr := True, f_smartPtrNative := True\<rparr>) (new_type tPointer), drop 1 s)
     else (new_type tPointer, s))"

text \<open>The letters that set a flag of the type behind them, and the \<open>-\<close> cases.\<close>

definition prefix_flag :: "string \<Rightarrow> ((td_flags \<Rightarrow> td_flags) \<times> string) option" where
  "prefix_flag s = (let two = take 2 s; one = take 1 s in
     if one = ''&'' then Some (\<lambda>f. f\<lparr>f_ref := True\<rparr>, drop 1 s)
     else if one = ''#'' then Some (\<lambda>f. f\<lparr>f_temporary := True\<rparr>, drop 1 s)
     else if one = ''C'' then Some (\<lambda>f. f\<lparr>f_constant := True\<rparr>, drop 1 s)
     else if two = ''-&'' then Some (\<lambda>f. f\<lparr>f_ref := False, f_removeRef := True\<rparr>, drop 2 s)
     else if two = ''-#'' then Some (\<lambda>f. f\<lparr>f_temporary := False, f_removeTemporary := True\<rparr>, drop 2 s)
     else if two = ''-C'' then Some (\<lambda>f. f\<lparr>f_constant := False, f_removeConstant := True\<rparr>, drop 2 s)
     else if take 3 s = ''-[]'' then Some (\<lambda>f. f\<lparr>f_removeDim := True\<rparr>, drop 3 s)
     else if one = ''I'' then Some (\<lambda>f. f\<lparr>f_implicit := True\<rparr>, drop 1 s)
     else if one = ''X'' then Some (\<lambda>f. f\<lparr>f_isExplicit := True\<rparr>, drop 1 s)
     else if one = ''='' then Some (\<lambda>f. f\<lparr>f_explicitConst := True\<rparr>, drop 1 s)
     else if one = ''R'' then Some (\<lambda>f. f\<lparr>f_explicitRef := True\<rparr>, drop 1 s)
     else if one = ''F'' then Some (\<lambda>f. f\<lparr>f_aotAlias := True\<rparr>, drop 1 s)
     else None)"

text \<open>The flags right behind the dimension of a fixed array.\<close>

function dim_flags :: "td_flags \<Rightarrow> string \<Rightarrow> td_flags \<times> string" where
  "dim_flags f s =
    (if take 3 s = ''-[]'' then dim_flags (f\<lparr>f_removeDim := True\<rparr>) (drop 3 s)
     else if take 2 s = ''-C'' then dim_flags (f\<lparr>f_removeConstant := True\<rparr>) (drop 2 s)
     else if take 2 s = ''-&'' then dim_flags (f\<lparr>f_removeRef := True\<rparr>) (drop 2 s)
     else if take 2 s = ''-#'' then dim_flags (f\<lparr>f_removeTemporary := True\<rparr>) (drop 2 s)
     else (f, s))"
  by pat_completeness auto
termination
  by (relation "measure (\<lambda>(f, s). length s)") (auto simp: take_Suc_conv_app_nth dest: arg_cong[of "take _ _" _ length])

declare dim_flags.simps [simp del]

function names_loop :: "string list \<Rightarrow> string \<Rightarrow> string list \<times> string" where
  "names_loop names s = (case s of [] \<Rightarrow> (names, s) | c # r \<Rightarrow>
     if c = CHR ''>'' then (names, s) else case parseAnyName False r of (name, s1) \<Rightarrow> names_loop (names @ [name]) s1)"
  by pat_completeness auto
termination
  by (relation "measure (\<lambda>(names, s). length s)") (auto simp: parseAnyName_def less_Suc_eq_le length_dropWhile_le)

declare names_loop.simps [simp del]

primrec args_loop :: "nat \<Rightarrow> (string \<Rightarrow> type_decl parsed) \<Rightarrow> type_decl list \<Rightarrow> string \<Rightarrow> type_decl list parsed" where
  "args_loop 0 p types s = None"
| "args_loop (Suc n) p types s = (case s of [] \<Rightarrow> Some (Inr (types, s)) | c # r \<Rightarrow>
     if c = CHR ''>'' then Some (Inr (types, s))
     else and_then (p r) (\<lambda>tt s1.
       if take 1 s1 = '';'' \<or> take 1 s1 = ''>'' then args_loop n p (types @ [tt]) s1 else parse_error ''expecting a separator''))"

text \<open>Case \<open>'['\<close>, behind the bracket; \<open>p\<close> reads a type.\<close>

definition parse_dim :: "string \<Rightarrow> int parsed" where
  "parse_dim s =
    (let neg = take 1 s = ''-'';
         s1 = (if neg then drop 1 s else s);
         numT = takeWhile isdigit s1
     in expect CHR '']'' (dropWhile isdigit s1) (\<lambda>s2. case atoi numT of
          Inl e \<Rightarrow> Some (Inl e) | Inr di \<Rightarrow> Some (Inr (if neg then - di else di, s2))))"

definition parse_dim_alias :: "string \<Rightarrow> string parsed" where
  "parse_dim_alias s = (if take 1 s = ''Y'' then parseAnyNameInBrackets False (drop 1 s) else Some (Inr ([], s)))"

definition parse_fixed :: "(string \<Rightarrow> type_decl parsed) \<Rightarrow> string \<Rightarrow> type_decl parsed" where
  "parse_fixed p s = and_then (parse_dim s) (\<lambda>di s1. case dim_flags no_flags s1 of (f, s2) \<Rightarrow>
     and_then (parse_dim_alias s2) (\<lambda>al s3. and_then (p s3) (\<lambda>ft s4. Some (Inr (with_first ft (new_fixed_array di f al), s4)))))"

text \<open>Case \<open>'1'\<close> and \<open>'2'\<close>, behind the digit; \<open>put\<close> stores the type in brackets.\<close>

definition parse_part :: "(type_decl \<Rightarrow> type_decl \<Rightarrow> type_decl) \<Rightarrow> (string \<Rightarrow> type_decl parsed) \<Rightarrow> string \<Rightarrow> type_decl parsed" where
  "parse_part put p s = expect CHR ''<'' s (\<lambda>s1. and_then (p s1) (\<lambda>ft s2. expect CHR ''>'' s2 (\<lambda>s3.
     and_then (p s3) (\<lambda>pt s4. Some (Inr (put ft pt, s4))))))"

primrec parseTypeFromMangledName :: "nat \<Rightarrow> names \<Rightarrow> string \<Rightarrow> type_decl parsed" where
  "parseTypeFromMangledName 0 N s = None"
| "parseTypeFromMangledName (Suc n) N s =
    (let p = parseTypeFromMangledName n N; one = take 1 s; s1 = drop 1 s in
     if one = ''['' then parse_fixed p s1
     else if one = ''1'' then parse_part with_first p s1
     else if one = ''2'' then parse_part with_second p s1
     else if one = ''H'' then parse_handle N s1
     else if one = ''S'' then parse_structure N s1
     else if one = ''0'' then and_then (args_loop n p [] s1) (\<lambda>types s2. expect CHR ''>'' s2 (\<lambda>s3.
       and_then (p s3) (\<lambda>pt s4. Some (Inr (with_args types pt, s4)))))
     else if one = ''N'' then (case names_loop [] s1 of (ns, s2) \<Rightarrow> expect CHR ''>'' s2 (\<lambda>s3.
       and_then (p s3) (\<lambda>pt s4. Some (Inr (with_names ns pt, s4)))))
     else if one = ''E'' then parse_enum N s1
     else if one = ''Y'' then and_then (parseAnyNameInBrackets False s1) (\<lambda>aname s2.
       and_then (p s2) (\<lambda>pt s3. Some (Inr (with_alias aname pt, s3))))
     else if one = ''?'' then Some (Inr (parse_pointer s1))
     else case prefix_flag s of
       Some (g, s2) \<Rightarrow> and_then (p s2) (\<lambda>pt s3. Some (Inr (map_flags g pt, s3)))
     | None \<Rightarrow> (case parse_basic s of
         Some (b, s2) \<Rightarrow> Some (Inr (new_type b, s2))
       | None \<Rightarrow> parse_error ''unsupported mangled name format''))"


end
