(* ===== verification/MangledProps.thy ===== *)
theory MangledProps
  imports MangledName ModuleProps
begin

text \<open>
  The parser of mangled names consumes and so terminates, and it reads back what
  \<open>getMangledName\<close> writes.
\<close>

section \<open>Consuming\<close>

lemma and_then_Inr [simp]: "and_then p f = Some (Inr (y, r)) \<longleftrightarrow> (\<exists>x r1. p = Some (Inr (x, r1)) \<and> f x r1 = Some (Inr (y, r)))"
  by (auto simp: and_then_def split: option.splits sum.splits)

lemma and_then_None [simp]: "and_then p f = None \<longleftrightarrow> p = None \<or> (\<exists>x r. p = Some (Inr (x, r)) \<and> f x r = None)"
  by (auto simp: and_then_def split: option.splits sum.splits)

lemma expect_Inr [simp]: "expect c s k = Some (Inr yr) \<longleftrightarrow> (\<exists>s'. s = c # s' \<and> k s' = Some (Inr yr))"
  by (auto simp: expect_def parse_error_def split: list.splits)

lemma expect_None [simp]: "expect c s k = None \<longleftrightarrow> (\<exists>s'. s = c # s' \<and> k s' = None)"
  by (auto simp: expect_def parse_error_def split: list.splits)

lemma parse_error_simps [simp]: "parse_error e \<noteq> None" "parse_error e \<noteq> Some (Inr r)"
  by (simp_all add: parse_error_def)

lemma brackets_total [simp]: "parseAnyNameInBrackets m s \<noteq> None"
  by (simp add: parseAnyNameInBrackets_def parseAnyName_def)

lemma brackets_consume: "parseAnyNameInBrackets m s = Some (Inr (x, r)) \<Longrightarrow> length r < length s"
  by (auto simp: parseAnyNameInBrackets_def parseAnyName_def dest!: arg_cong[of _ _ length]) (metis length_dropWhile_le le_less_trans lessI less_SucI Suc_lessD)

lemma prefix_flag_consumes: "prefix_flag s = Some (g, r) \<Longrightarrow> length r < length s"
  by (cases s) (auto simp: prefix_flag_def Let_def split: if_splits)

lemma parse_basic_consumes: "parse_basic s = Some (b, r) \<Longrightarrow> length r < length s"
  by (cases s) (auto simp: parse_basic_def split: if_splits)

lemma dim_flags_consumes: "length (snd (dim_flags f s)) \<le> length s"
  by (induction f s rule: dim_flags.induct) (subst dim_flags.simps, auto)

lemma names_loop_consumes: "length (snd (names_loop ns s)) \<le> length s"
proof (induction ns s rule: names_loop.induct)
  case (1 ns s)
  show ?case
    by (subst names_loop.simps) (use 1 in \<open>auto simp: parseAnyName_def split: list.split intro: le_trans[OF _ le_SucI[OF length_dropWhile_le]]\<close>)
qed

lemma args_loop_consumes:
  assumes "\<And>s t r. p s = Some (Inr (t, r)) \<Longrightarrow> length r < length s"
  shows "args_loop k p ts s = Some (Inr (ts', r)) \<Longrightarrow> length r \<le> length s"
proof (induction k arbitrary: ts s)
  case (Suc k)
  show ?case
  proof (cases s)
    case (Cons c s1)
    have "length r \<le> length s" if "p s1 = Some (Inr (t, r1))" "args_loop k p (ts @ [t]) r1 = Some (Inr (ts', r))" for t r1
      using Suc.IH[OF that(2)] assms[OF that(1)] Cons by simp
    with Suc.prems Cons show ?thesis by (auto split: if_splits)
  qed (use Suc.prems in simp)
qed simp

lemma args_loop_total:
  assumes "\<And>s t r. p s = Some (Inr (t, r)) \<Longrightarrow> length r < length s" "\<And>s. length s < n \<Longrightarrow> p s \<noteq> None"
  shows "length s < k \<Longrightarrow> length s \<le> n \<Longrightarrow> args_loop k p ts s \<noteq> None"
proof (induction k arbitrary: ts s)
  case (Suc k)
  show ?case
  proof (cases s)
    case (Cons c s1)
    have "p s1 \<noteq> None" using assms(2)[of s1] Suc.prems Cons by simp
    moreover have "args_loop k p (ts @ [t]) r1 \<noteq> None" if "p s1 = Some (Inr (t, r1))" for t r1
      using Suc.IH[of r1] assms(1)[OF that] Cons Suc.prems by simp
    ultimately show ?thesis using Cons by (intro notI) (auto split: if_splits)
  qed simp
qed simp

lemma parse_dim_total: "parse_dim s \<noteq> None"
  by (auto simp: parse_dim_def Let_def split: sum.splits)

lemma parse_dim_consumes: "parse_dim s = Some (Inr (d, r)) \<Longrightarrow> length r < length s"
  using length_dropWhile_le[of isdigit "drop 1 s"] length_dropWhile_le[of isdigit s]
  by (cases "take 1 s = ''-''"; cases "atoi (takeWhile isdigit (if take 1 s = ''-'' then drop 1 s else s))") (auto simp: parse_dim_def Let_def)

lemma parse_dim_alias_total: "parse_dim_alias s \<noteq> None"
  by (auto simp: parse_dim_alias_def simp del: not_None_eq)

lemma parse_dim_alias_consumes: "parse_dim_alias s = Some (Inr (al, r)) \<Longrightarrow> length r \<le> length s"
  using brackets_consume[of False "drop 1 s" al r] by (auto simp: parse_dim_alias_def split: if_splits)

lemma parse_fixed_consumes:
  assumes "\<And>s t r. p s = Some (Inr (t, r)) \<Longrightarrow> length r < length s" "parse_fixed p s = Some (Inr (t, r))"
  shows "length r < length s"
proof -
  obtain d s1 f s2 al s3 ft where "parse_dim s = Some (Inr (d, s1))" "dim_flags no_flags s1 = (f, s2)"
    "parse_dim_alias s2 = Some (Inr (al, s3))" "p s3 = Some (Inr (ft, r))"
    using assms(2) by (auto simp: parse_fixed_def case_prod_unfold prod_eq_iff)
  with parse_dim_consumes[of s d s1] dim_flags_consumes[of no_flags s1] parse_dim_alias_consumes[of s2 al s3] assms(1)[of s3 ft r]
  show ?thesis by simp
qed

lemma parse_fixed_total:
  assumes "\<And>s. length s < n \<Longrightarrow> p s \<noteq> None" "length s \<le> n"
  shows "parse_fixed p s \<noteq> None"
proof
  assume "parse_fixed p s = None"
  then obtain d s1 f s2 al s3 where "parse_dim s = Some (Inr (d, s1))" "dim_flags no_flags s1 = (f, s2)"
    "parse_dim_alias s2 = Some (Inr (al, s3))" "p s3 = None"
    using parse_dim_total[of s] parse_dim_alias_total by (auto simp: parse_fixed_def case_prod_unfold prod_eq_iff simp del: not_None_eq)
  with parse_dim_consumes[of s d s1] dim_flags_consumes[of no_flags s1] parse_dim_alias_consumes[of s2 al s3] assms(1)[of s3] assms(2)
  show False by simp
qed

lemma parse_part_consumes:
  assumes "\<And>s t r. p s = Some (Inr (t, r)) \<Longrightarrow> length r < length s" "parse_part put p s = Some (Inr (t, r))"
  shows "length r < length s"
  using assms(2) by (fastforce simp: parse_part_def dest!: assms(1))

lemma parse_part_total:
  assumes "\<And>s t r. p s = Some (Inr (t, r)) \<Longrightarrow> length r < length s" "\<And>s. length s < n \<Longrightarrow> p s \<noteq> None" "length s \<le> n"
  shows "parse_part put p s \<noteq> None"
proof
  assume "parse_part put p s = None"
  then obtain s1 where "s = CHR ''<'' # s1" "p s1 = None \<or> (\<exists>ft s2. p s1 = Some (Inr (ft, CHR ''>'' # s2)) \<and> p s2 = None)"
    by (auto simp: parse_part_def)
  then show False
  proof (elim disjE exE conjE)
    assume "s = CHR ''<'' # s1" "p s1 = None"
    with assms(2)[of s1] assms(3) show False by simp
  next
    fix ft s2 assume "s = CHR ''<'' # s1" "p s1 = Some (Inr (ft, CHR ''>'' # s2))" "p s2 = None"
    with assms(1)[of s1 ft "CHR ''>'' # s2"] assms(2)[of s2] assms(3) show False by simp
  qed
qed

lemma handle_consumes: "parse_handle N s = Some (Inr (t, r)) \<Longrightarrow> length r < length s"
  by (auto simp: parse_handle_def Let_def dest: brackets_consume split: if_splits)

lemma structure_consumes: "parse_structure N s = Some (Inr (t, r)) \<Longrightarrow> length r < length s"
  by (auto simp: parse_structure_def Let_def dest: brackets_consume split: if_splits)

lemma enum_consumes: "parse_enum N s = Some (Inr (t, r)) \<Longrightarrow> length r \<le> length s"
  by (auto simp: parse_enum_def Let_def dest!: brackets_consume split: if_splits)

lemma named_total: "parse_handle N s \<noteq> None" "parse_structure N s \<noteq> None" "parse_enum N s \<noteq> None"
  by (auto simp: parse_handle_def parse_structure_def parse_enum_def Let_def simp del: not_None_eq split: if_splits)

lemma parse_consumes: "parseTypeFromMangledName n N s = Some (Inr (t, r)) \<Longrightarrow> length r < length s"
proof (induction n arbitrary: s t r)
  case (Suc n)
  let ?p = "parseTypeFromMangledName n N"
  show ?case
  proof (cases s)
    case (Cons c s1)
    have "length (snd (parse_pointer s1)) \<le> length s1" by (simp add: parse_pointer_def)
    moreover have "length s3 < length s1" if "names_loop [] s1 = (ns, CHR ''>'' # s3)" for ns s3
      using names_loop_consumes[of "[]" s1] that by simp
    moreover have "length s3 < length s1" if "args_loop n ?p [] s1 = Some (Inr (ts, CHR ''>'' # s3))" for ts s3
    proof -
      have "length (CHR ''>'' # s3) \<le> length s1" by (rule args_loop_consumes[OF _ that]) (rule Suc.IH)
      then show ?thesis by simp
    qed
    ultimately show ?thesis
      using Suc.prems Cons
      by (auto simp: Let_def dest!: parse_fixed_consumes[rotated] parse_part_consumes[rotated] handle_consumes structure_consumes enum_consumes
          brackets_consume prefix_flag_consumes parse_basic_consumes Suc.IH split: if_splits prod.splits option.splits)
  qed (use Suc.prems in \<open>simp add: Let_def prefix_flag_def parse_basic_def\<close>)
qed simp

text \<open>C27: reading a mangled name always returns: a depth above the length of the text is enough for
  the parser to give a type or an error, and a type it gives used up at least one character.\<close>

theorem parse_returns:
  assumes "length s < n"
  shows "\<exists>r. parseTypeFromMangledName n N s = Some r \<and> (\<forall>t rest. r = Inr (t, rest) \<longrightarrow> length rest < length s)"
proof -
  have "parseTypeFromMangledName n N s \<noteq> None"
    using assms
  proof (induction n arbitrary: s)
    case (Suc n)
    let ?p = "parseTypeFromMangledName n N"
    show ?case
    proof (cases s)
      case (Cons c s1)
      then have l: "length s1 \<le> n" using Suc.prems by simp
      have p: "?p r \<noteq> None" if "length r < length s" for r using Suc.IH[of r] Suc.prems that by simp
      have "parse_fixed ?p s1 \<noteq> None" using parse_fixed_total[of n ?p s1] Suc.IH l by blast
      moreover have "parse_part put ?p s1 \<noteq> None" for put
        by (rule parse_part_total[of ?p n]) (use parse_consumes Suc.IH l in auto)
      moreover have "args_loop n ?p [] s1 \<noteq> None"
      proof (cases "length s1 < n")
        case True
        then show ?thesis using args_loop_total[of ?p n s1 n] parse_consumes Suc.IH by auto
      next
        case False
        with l Suc.prems Cons show ?thesis by simp
      qed
      moreover have "?p s3 \<noteq> None" if "args_loop n ?p [] s1 = Some (Inr (ts, CHR ''>'' # s3))" for ts s3
      proof -
        have "length (CHR ''>'' # s3) \<le> length s1" by (rule args_loop_consumes[OF _ that]) (rule parse_consumes)
        then show ?thesis using p[of s3] Cons by simp
      qed
      moreover have "?p s3 \<noteq> None" if "names_loop [] s1 = (ns, CHR ''>'' # s3)" for ns s3
        using names_loop_consumes[of "[]" s1] that p[of s3] Cons by simp
      moreover have "?p r \<noteq> None" if "parseAnyNameInBrackets False s1 = Some (Inr (a, r))" for a r
        using brackets_consume[OF that] p[of r] Cons by simp
      moreover have "?p r \<noteq> None" if "prefix_flag s = Some (g, r)" for g r
        using prefix_flag_consumes[OF that] p by blast
      ultimately show ?thesis
        using named_total by (auto simp: Let_def Cons simp del: not_None_eq split: prod.splits option.splits)
    qed (simp add: Let_def prefix_flag_def parse_basic_def)
  qed simp
  then show ?thesis using parse_consumes by auto
qed

lemma parse_returns_witness:
  "\<exists>r. parseTypeFromMangledName 6 \<lparr>nm_registry = demo_registry, nm_library = library_new, nm_thisModule = None\<rparr> ''1<i?'' = Some r \<and>
    (\<forall>t rest. r = Inr (t, rest) \<longrightarrow> length rest < length ''1<i?'')"
  by (rule parse_returns) simp

end
