(* ===== verification/MangledRound.thy ===== *)
theory MangledRound
  imports MangledProps TypeClasses
begin

text \<open>Reading back what was written.\<close>

section \<open>Numbers\<close>

lemma of_char_digit: "n < 10 \<Longrightarrow> (of_char (digit n) :: nat) = 48 + n"
  by (simp add: digit_def of_char_of)

lemma isdigit_digit: "n < 10 \<Longrightarrow> isdigit (digit n)"
  by (simp add: isdigit_def of_char_digit)

lemma show_nat_digits: "list_all isdigit (show_nat n)"
proof (induction n rule: show_nat.induct)
  case (1 n)
  show ?case by (subst show_nat.simps) (use 1 in \<open>auto simp: isdigit_digit\<close>)
qed

lemma read_nat_snoc: "read_nat (s @ [c]) = read_nat s * 10 + (of_char c - 48)"
  by (simp add: read_nat_def)

lemma read_show: "read_nat (show_nat n) = n"
proof (induction n rule: show_nat.induct)
  case (1 n)
  show ?case
  proof (cases "n < 10")
    case True
    then show ?thesis by (subst show_nat.simps) (simp add: read_nat_def of_char_digit)
  next
    case False
    with 1 have "read_nat (show_nat (n div 10)) = n div 10" by simp
    with False show ?thesis by (subst show_nat.simps) (simp add: read_nat_snoc of_char_digit)
  qed
qed

lemma show_nat_first: "show_nat n = c # r \<Longrightarrow> isdigit c"
  using show_nat_digits[of n] by simp

lemma show_nat_not_Nil: "show_nat n \<noteq> []"
  by (subst show_nat.simps) simp

lemma digits_run:
  assumes "list_all isdigit ds" "\<not> isdigit c"
  shows "takeWhile isdigit (ds @ c # r) = ds" "dropWhile isdigit (ds @ c # r) = c # r"
  using assms by (auto simp: list_all_iff takeWhile_append2 dropWhile_append2)

lemma bracket_no_digit: "\<not> isdigit CHR '']''" "\<not> isdigit CHR ''-''"
  by (simp_all add: isdigit_def)

lemma parse_dim_show:
  assumes "\<bar>d\<bar> \<le> int INT32_MAX"
  shows "parse_dim (show_int d @ '']'' @ r) = Some (Inr (d, r))"
proof (cases "d < 0")
  case True
  have "read_nat (show_nat (nat (- d))) \<le> INT32_MAX" using assms by (simp add: read_show)
  with True show ?thesis
    by (simp add: parse_dim_def show_int_def digits_run[OF show_nat_digits bracket_no_digit(1)] atoi_def read_show)
next
  case False
  have "take 1 (show_nat (nat d) @ '']'' @ r) \<noteq> ''-''"
    using show_nat_first[of "nat d"] bracket_no_digit(2) by (cases "show_nat (nat d)") (auto simp: show_nat_not_Nil)
  moreover have "read_nat (show_nat (nat d)) \<le> INT32_MAX" using assms False by (simp add: read_show)
  ultimately show ?thesis using False
    by (simp add: parse_dim_def show_int_def digits_run[OF show_nat_digits bracket_no_digit(1)] atoi_def read_show)
qed

section \<open>Names\<close>

definition name_ok :: "bool \<Rightarrow> string \<Rightarrow> bool" where
  "name_ok allowModule s \<longleftrightarrow> list_all (name_char allowModule) s"

lemma name_stops: "\<not> name_char m CHR ''>''" "\<not> name_char False CHR '';''"
  by (simp_all add: name_char_def isalnum_def isdigit_def Let_def)

lemma name_run:
  assumes "name_ok m a" "\<not> name_char m c"
  shows "parseAnyName m (a @ c # r) = (a, c # r)"
  using assms by (auto simp: name_ok_def parseAnyName_def list_all_iff takeWhile_append2 dropWhile_append2)

lemma brackets_read: "name_ok m a \<Longrightarrow> parseAnyNameInBrackets m (''<'' @ a @ ''>'' @ r) = Some (Inr (a, r))"
  using name_run[of m a "CHR ''>''" r] name_stops(1) by (simp add: parseAnyNameInBrackets_def expect_def)

lemma names_read:
  "list_all (name_ok False) ns \<Longrightarrow> names_loop acc (concat (map (Cons CHR '';'') ns) @ ''>'' @ r) = (acc @ ns, ''>'' @ r)"
proof (induction ns arbitrary: acc)
  case Nil
  show ?case by (subst names_loop.simps) simp
next
  case (Cons x ns)
  define more where "more = concat (map (Cons CHR '';'') ns) @ ''>'' @ r"
  obtain c q where m: "more = c # q" "\<not> name_char False c"
    using name_stops by (cases ns) (auto simp: more_def)
  have "parseAnyName False (x @ more) = (x, more)" using name_run[of False x c q] m Cons.prems by simp
  then show ?case using Cons.IH[of "acc @ [x]"] Cons.prems by (subst names_loop.simps) (simp add: more_def)
qed

lemma names_read_join:
  assumes "list_all (name_ok False) ns" "ns \<noteq> []"
  shows "names_loop [] (''<'' @ join ns @ ''>'' @ r) = (ns, ''>'' @ r)"
proof -
  obtain x xs where ns: "ns = x # xs" using assms(2) by (cases ns) auto
  define more where "more = concat (map (Cons CHR '';'') xs) @ ''>'' @ r"
  obtain c q where m: "more = c # q" "\<not> name_char False c"
    using name_stops by (cases xs) (auto simp: more_def)
  have "parseAnyName False (x @ more) = (x, more)" using name_run[of False x c q] m assms ns by simp
  then show ?thesis using names_read[of xs "[x]" r] assms(1) ns by (subst names_loop.simps) (simp add: join_def more_def)
qed

section \<open>Reading\<close>

definition reads :: "names \<Rightarrow> string \<Rightarrow> type_decl \<Rightarrow> string \<Rightarrow> bool" where
  "reads N s t rest \<longleftrightarrow> (\<forall>n > length s. parseTypeFromMangledName n N s = Some (Inr (t, rest)))"

text \<open>What may follow the text of a type.\<close>

definition rest_ok :: "string \<Rightarrow> bool" where
  "rest_ok r \<longleftrightarrow> r = [] \<or> hd r \<in> {CHR '';'', CHR ''>'', CHR '' ''}"

lemma readsI:
  assumes "\<And>m. length s \<le> m \<Longrightarrow> parseTypeFromMangledName (Suc m) N s = Some (Inr (t, rest))"
  shows "reads N s t rest"
  unfolding reads_def
proof (intro allI impI)
  fix n assume "length s < n"
  then show "parseTypeFromMangledName n N s = Some (Inr (t, rest))" using assms[of "n - 1"] by (cases n) auto
qed

lemma readsD: "reads N s t rest \<Longrightarrow> length s < n \<Longrightarrow> parseTypeFromMangledName n N s = Some (Inr (t, rest))"
  by (simp add: reads_def)

lemma and_then_ok [simp]: "and_then (Some (Inr (x, r))) f = f x r"
  by (simp add: and_then_def)

lemma expect_ok [simp]: "expect c (c # r) k = k r"
  by (simp add: expect_def)

lemma read_flag:
  assumes "prefix_flag s = Some (g, s1)" "take 1 s \<notin> {''['', ''1'', ''2'', ''H'', ''S'', ''0'', ''N'', ''E'', ''Y'', ''?''}" "reads N s1 t rest"
  shows "reads N s (map_flags g t) rest"
proof (rule readsI)
  fix m assume "length s \<le> m"
  with prefix_flag_consumes[OF assms(1)] have "length s1 < m" by simp
  from readsD[OF assms(3) this] show "parseTypeFromMangledName (Suc m) N s = Some (Inr (map_flags g t, rest))"
    using assms(1,2) by (simp add: Let_def)
qed

lemma map_flags_id: "map_flags (\<lambda>f. f) t = t"
  by (cases t) simp

lemma map_flags_twice: "map_flags g (map_flags h t) = map_flags (\<lambda>f. g (h f)) t"
  by (cases t) simp

lemma read_flags:
  assumes "reads N s t rest"
  shows "reads N ((if b then ''C'' else []) @ s) (map_flags (\<lambda>f. f\<lparr>f_constant := b \<or> f_constant f\<rparr>) t) rest"
    and "reads N ((if b then ''&'' else []) @ s) (map_flags (\<lambda>f. f\<lparr>f_ref := b \<or> f_ref f\<rparr>) t) rest"
    and "reads N ((if b then ''#'' else []) @ s) (map_flags (\<lambda>f. f\<lparr>f_temporary := b \<or> f_temporary f\<rparr>) t) rest"
    and "reads N ((if b then ''I'' else []) @ s) (map_flags (\<lambda>f. f\<lparr>f_implicit := b \<or> f_implicit f\<rparr>) t) rest"
    and "reads N ((if b then ''='' else []) @ s) (map_flags (\<lambda>f. f\<lparr>f_explicitConst := b \<or> f_explicitConst f\<rparr>) t) rest"
    and "reads N ((if b then ''R'' else []) @ s) (map_flags (\<lambda>f. f\<lparr>f_explicitRef := b \<or> f_explicitRef f\<rparr>) t) rest"
    and "reads N ((if b then ''X'' else []) @ s) (map_flags (\<lambda>f. f\<lparr>f_isExplicit := b \<or> f_isExplicit f\<rparr>) t) rest"
    and "reads N ((if b then ''F'' else []) @ s) (map_flags (\<lambda>f. f\<lparr>f_aotAlias := b \<or> f_aotAlias f\<rparr>) t) rest"
  using assms by (cases b; simp add: map_flags_id read_flag[OF _ _ assms] prefix_flag_def)+

lemma read_removes:
  assumes "reads N s t rest"
  shows "reads N ((if b then ''-[]'' else []) @ s) (map_flags (\<lambda>f. f\<lparr>f_removeDim := b \<or> f_removeDim f\<rparr>) t) rest"
    and "reads N ((if b then ''-C'' else []) @ s) (map_flags (\<lambda>f. f\<lparr>f_constant := \<not> b \<and> f_constant f, f_removeConstant := b \<or> f_removeConstant f\<rparr>) t) rest"
    and "reads N ((if b then ''-&'' else []) @ s) (map_flags (\<lambda>f. f\<lparr>f_ref := \<not> b \<and> f_ref f, f_removeRef := b \<or> f_removeRef f\<rparr>) t) rest"
    and "reads N ((if b then ''-#'' else []) @ s) (map_flags (\<lambda>f. f\<lparr>f_temporary := \<not> b \<and> f_temporary f, f_removeTemporary := b \<or> f_removeTemporary f\<rparr>) t) rest"
  using assms by (cases b; simp add: map_flags_id read_flag[OF _ _ assms] prefix_flag_def)+

lemma read_flag_text:
  assumes "reads N s t rest"
  shows "reads N (flag_text g @ s) (map_flags (\<lambda>f. f\<lparr>f_aotAlias := f_aotAlias g \<or> f_aotAlias f, f_isExplicit := f_isExplicit g \<or> f_isExplicit f,
    f_explicitRef := f_explicitRef g \<or> f_explicitRef f, f_explicitConst := f_explicitConst g \<or> f_explicitConst f,
    f_implicit := f_implicit g \<or> f_implicit f, f_temporary := f_temporary g \<or> f_temporary f, f_ref := f_ref g \<or> f_ref f,
    f_constant := f_constant g \<or> f_constant f\<rparr>) t) rest"
  using read_flags(1)[OF read_flags(2)[OF read_flags(3)[OF read_flags(4)[OF read_flags(5)[OF read_flags(6)[OF read_flags(7)[OF read_flags(8)[OF assms,
    of "f_aotAlias g"], of "f_isExplicit g"], of "f_explicitRef g"], of "f_explicitConst g"], of "f_implicit g"], of "f_temporary g"], of "f_ref g"], of "f_constant g"]
  unfolding flag_text_def map_flags_twice append_assoc by (simp split del: if_split)

lemma read_remove_text:
  assumes "reads N s t rest"
  shows "reads N (remove_text True g @ s) (map_flags (\<lambda>f. f\<lparr>f_temporary := \<not> f_removeTemporary g \<and> f_temporary f,
    f_removeTemporary := f_removeTemporary g \<or> f_removeTemporary f, f_ref := \<not> f_removeRef g \<and> f_ref f,
    f_removeRef := f_removeRef g \<or> f_removeRef f, f_constant := \<not> f_removeConstant g \<and> f_constant f,
    f_removeConstant := f_removeConstant g \<or> f_removeConstant f, f_removeDim := f_removeDim g \<or> f_removeDim f\<rparr>) t) rest"
  using read_removes(1)[OF read_removes(2)[OF read_removes(3)[OF read_removes(4)[OF assms, of "f_removeTemporary g"], of "f_removeRef g"], of "f_removeConstant g"], of "f_removeDim g"]
  unfolding remove_text_def if_True map_flags_twice append_assoc by (simp split del: if_split)

lemma read_alias:
  assumes "reads N s t rest" "name_ok False a" "td_alias t = []"
  shows "reads N (alias_text a @ s) (with_alias a t) rest"
proof (cases "a = []")
  case True
  with assms show ?thesis by (cases t) (simp add: alias_text_def)
next
  case False
  show ?thesis
  proof (rule readsI)
    fix m assume "length (alias_text a @ s) \<le> m"
    then have "length s < m" using False by (simp add: alias_text_def)
    from readsD[OF assms(1) this] show "parseTypeFromMangledName (Suc m) N (alias_text a @ s) = Some (Inr (with_alias a t, rest))"
      using False brackets_read[OF assms(2), of s] by (simp add: alias_text_def Let_def)
  qed
qed

lemma read_names:
  assumes "reads N s t rest" "list_all (name_ok False) ns" "ns \<noteq> []"
  shows "reads N (''N<'' @ join ns @ ''>'' @ s) (with_names ns t) rest"
proof (rule readsI)
  fix m assume "length (''N<'' @ join ns @ ''>'' @ s) \<le> m"
  then have "length s < m" by simp
  from readsD[OF assms(1) this] show "parseTypeFromMangledName (Suc m) N (''N<'' @ join ns @ ''>'' @ s) = Some (Inr (with_names ns t, rest))"
    using names_read_join[OF assms(2,3), of s] by (simp add: Let_def)
qed

lemma read_part:
  assumes "reads N s t rest" "reads N (u @ ''>'' @ s) v (''>'' @ s)"
  shows "reads N (''1<'' @ u @ ''>'' @ s) (with_first v t) rest" "reads N (''2<'' @ u @ ''>'' @ s) (with_second v t) rest"
proof -
  have "parse_part put (parseTypeFromMangledName m N) (''<'' @ u @ ''>'' @ s) = Some (Inr (put v t, rest))"
    if "length (''1<'' @ u @ ''>'' @ s) \<le> m" for m put
    using readsD[OF assms(1), of m] readsD[OF assms(2), of m] that by (simp add: parse_part_def)
  then show "reads N (''1<'' @ u @ ''>'' @ s) (with_first v t) rest" "reads N (''2<'' @ u @ ''>'' @ s) (with_second v t) rest"
    by (intro readsI; simp add: Let_def)+
qed

lemma args_read:
  assumes "\<forall>t \<in> set ts. \<forall>r. rest_ok r \<longrightarrow> reads N (f t @ r) t r"
    and "length (concat (map (Cons CHR '';'') (map f ts)) @ ''>'' @ s) < k" "length (concat (map (Cons CHR '';'') (map f ts)) @ ''>'' @ s) < n"
  shows "args_loop k (parseTypeFromMangledName n N) acc (concat (map (Cons CHR '';'') (map f ts)) @ ''>'' @ s) = Some (Inr (acc @ ts, ''>'' @ s))"
  using assms
proof (induction ts arbitrary: acc k)
  case Nil
  then show ?case by (cases k) auto
next
  case (Cons t ts)
  define more where "more = concat (map (Cons CHR '';'') (map f ts)) @ ''>'' @ s"
  obtain k' where k: "k = Suc k'" using Cons.prems(2) by (cases k) auto
  have m: "rest_ok more" "take 1 more = '';'' \<or> take 1 more = ''>''" by (cases ts; simp add: more_def rest_ok_def)+
  have "length (f t @ more) < n" using Cons.prems(3) by (simp add: more_def)
  with Cons.prems(1) m have "parseTypeFromMangledName n N (f t @ more) = Some (Inr (t, more))" by (simp add: readsD)
  moreover have "args_loop k' (parseTypeFromMangledName n N) (acc @ [t]) more = Some (Inr ((acc @ [t]) @ ts, ''>'' @ s))"
    unfolding more_def by (rule Cons.IH) (use Cons.prems k in auto)
  moreover have "concat (map (Cons CHR '';'') (map f (t # ts))) @ ''>'' @ s = CHR '';'' # f t @ more" by (simp add: more_def)
  ultimately show ?case using m(2) by (simp only: k) simp
qed

lemma args_read_join:
  assumes "\<forall>t \<in> set ts. \<forall>r. rest_ok r \<longrightarrow> reads N (f t @ r) t r" "ts \<noteq> []" "length (''0<'' @ join (map f ts) @ ''>'' @ s) \<le> m"
  shows "args_loop m (parseTypeFromMangledName m N) [] (''<'' @ join (map f ts) @ ''>'' @ s) = Some (Inr (ts, ''>'' @ s))"
proof -
  note m = assms(3)
  obtain x xs where ts: "ts = x # xs" using assms(2) by (cases ts) auto
  define more where "more = concat (map (Cons CHR '';'') (map f xs)) @ ''>'' @ s"
  have tx: "join (map f ts) @ ''>'' @ s = f x @ more" by (simp add: ts join_def more_def)
  obtain m' where m': "m = Suc m'" using m by (cases m) auto
  have len: "length (f x @ more) < m" using m by (simp flip: tx)
  have r: "rest_ok more" "take 1 more = '';'' \<or> take 1 more = ''>''" by (cases xs; simp add: more_def rest_ok_def)+
  have loop: "args_loop m p [] (''<'' @ f x @ more) = Some (Inr (ts, ''>'' @ s))"
    if "p (f x @ more) = Some (Inr (x, more)) \<and> args_loop m' p [x] more = Some (Inr ([x] @ xs, ''>'' @ s))" for p
    using that r(2) ts m' by auto
  have "parseTypeFromMangledName m N (f x @ more) = Some (Inr (x, more))"
    using assms(1) ts r(1) len by (simp add: readsD)
  moreover have "args_loop m' (parseTypeFromMangledName m N) [x] more = Some (Inr ([x] @ xs, ''>'' @ s))"
    unfolding more_def by (rule args_read) (use assms(1) ts m m' tx in \<open>auto simp: more_def\<close>)
  ultimately show ?thesis using loop[of "parseTypeFromMangledName m N"] unfolding tx by blast
qed

lemma read_args:
  assumes "reads N s t rest" "\<forall>t \<in> set ts. \<forall>r. rest_ok r \<longrightarrow> reads N (f t @ r) t r" "ts \<noteq> []"
  shows "reads N (''0<'' @ join (map f ts) @ ''>'' @ s) (with_args ts t) rest"
proof (rule readsI)
  fix m assume m: "length (''0<'' @ join (map f ts) @ ''>'' @ s) \<le> m"
  then have "args_loop m (parseTypeFromMangledName m N) [] (''<'' @ join (map f ts) @ ''>'' @ s) = Some (Inr (ts, ''>'' @ s))"
    by (rule args_read_join[OF assms(2,3)])
  moreover have "parseTypeFromMangledName m N s = Some (Inr (t, rest))" using readsD[OF assms(1)] m by simp
  ultimately show "parseTypeFromMangledName (Suc m) N (''0<'' @ join (map f ts) @ ''>'' @ s) = Some (Inr (with_args ts t, rest))"
    by (simp add: Let_def)
qed

section \<open>The basic type\<close>

lemma rest_cases:
  assumes "rest_ok r"
  obtains "r = []" | q where "r = CHR '';'' # q" | q where "r = CHR ''>'' # q" | q where "r = CHR '' '' # q"
  using assms by (cases r) (auto simp: rest_ok_def)

lemma rest_take:
  "rest_ok r \<Longrightarrow> take 1 r \<notin> {''2'', ''3'', ''4'', ''8'', ''@'', ''M'', ''W'', ''<''} \<and> take 2 r \<notin> {''16'', ''64''}"
  by (erule rest_cases) simp_all

lemma parse_basic_text:
  assumes "basic_text b \<noteq> []" "rest_ok r"
  shows "parse_basic (basic_text b @ r) = Some (b, r)"
proof -
  note t = rest_take[OF assms(2), simplified]
  show ?thesis using assms(1) by (cases b; simp add: parse_basic_def t)
qed

lemma basic_first: "basic_text b \<noteq> [] \<Longrightarrow> prefix_flag (basic_text b @ r) = None \<and>
    take 1 (basic_text b @ r) \<notin> {''['', ''1'', ''2'', ''H'', ''S'', ''0'', ''N'', ''E'', ''Y'', ''?''}"
  by (cases b; simp add: prefix_flag_def Let_def)

lemma read_basic: "basic_text b \<noteq> [] \<Longrightarrow> rest_ok r \<Longrightarrow> reads N (basic_text b @ r) (new_type b) r"
  using parse_basic_text[of b r] basic_first[of b r] by (intro readsI) (simp add: Let_def)

lemma read_pointer:
  assumes "rest_ok r" "nt \<longrightarrow> sm"
  shows "reads N (''?'' @ (if sm then (if nt then ''W'' else ''M'') else []) @ r)
    (map_flags (\<lambda>f. f\<lparr>f_smartPtr := sm, f_smartPtrNative := nt\<rparr>) (new_type tPointer)) r"
proof (rule readsI)
  have "map_flags (\<lambda>f. f\<lparr>f_smartPtr := False, f_smartPtrNative := False\<rparr>) (new_type tPointer) = new_type tPointer"
    by (simp add: new_type_def no_flags_def)
  moreover note rest_take[OF assms(1)]
  ultimately show "parseTypeFromMangledName (Suc m) N (''?'' @ (if sm then (if nt then ''W'' else ''M'') else []) @ r) =
      Some (Inr (map_flags (\<lambda>f. f\<lparr>f_smartPtr := sm, f_smartPtrNative := nt\<rparr>) (new_type tPointer), r))" for m
    using assms(2) by (simp add: Let_def parse_pointer_def)
qed

lemma read_handle:
  assumes "name_ok True a" "resolve_annotation N a = [x]" "rg_isHandled (nm_registry N) x"
  shows "reads N (''H<'' @ a @ ''>'' @ r) (new_handle x) r"
  using brackets_read[OF assms(1), of r] assms(2,3) by (intro readsI) (simp add: Let_def parse_handle_def)

lemma read_enum:
  assumes "b \<in> {tEnumeration, tEnumeration8, tEnumeration16, tEnumeration64}" "rest_ok r"
    and "\<forall>x. e = Some x \<longrightarrow> name_ok True a \<and> resolve_enum N a = [x]"
  shows "reads N (''E'' @ enum_width_text b @ (case e of Some _ \<Rightarrow> ''<'' @ a @ ''>'' | None \<Rightarrow> []) @ r) (new_enum b e) r"
proof (rule readsI)
  have "parse_enum N (enum_width_text b @ (case e of Some _ \<Rightarrow> ''<'' @ a @ ''>'' | None \<Rightarrow> []) @ r) = Some (Inr (new_enum b e, r))"
  proof (cases e)
    case None
    with assms(1) rest_take[OF assms(2)] show ?thesis by (auto simp: parse_enum_def enum_width_text_def Let_def)
  next
    case (Some x)
    with assms(1,3) brackets_read[of True a r] show ?thesis by (auto simp: parse_enum_def enum_width_text_def Let_def)
  qed
  then show "parseTypeFromMangledName (Suc m) N (''E'' @ enum_width_text b @ (case e of Some _ \<Rightarrow> ''<'' @ a @ ''>'' | None \<Rightarrow> []) @ r) =
      Some (Inr (new_enum b e, r))" for m
    by (simp add: Let_def)
qed

lemma read_structure:
  assumes "name_ok True a" "resolve_structure N a = xs" "length xs \<noteq> 1" "xs \<noteq> []"
  shows "reads N (''S<'' @ a @ ''>'' @ r) (new_struct_type (List.last xs)) r"
  using brackets_read[OF assms(1), of r] assms(2-4) by (intro readsI) (simp add: Let_def parse_structure_def)

section \<open>Refusing\<close>

text \<open>
  The text stops the parser at a structure that is found exactly once. Each part of a text passes
  a refusal inside it on to the whole.
\<close>

definition refuses :: "names \<Rightarrow> string \<Rightarrow> bool" where
  "refuses N s \<longleftrightarrow> (\<forall>n > length s. parseTypeFromMangledName n N s = Some (Inl (VerifyFailed ''unknown structure'')))"

lemma refusesI:
  assumes "\<And>m. length s \<le> m \<Longrightarrow> parseTypeFromMangledName (Suc m) N s = Some (Inl (VerifyFailed ''unknown structure''))"
  shows "refuses N s"
  unfolding refuses_def
proof (intro allI impI)
  fix n assume "length s < n"
  then show "parseTypeFromMangledName n N s = Some (Inl (VerifyFailed ''unknown structure''))" using assms[of "n - 1"] by (cases n) auto
qed

lemma refusesD: "refuses N s \<Longrightarrow> length s < n \<Longrightarrow> parseTypeFromMangledName n N s = Some (Inl (VerifyFailed ''unknown structure''))"
  by (simp add: refuses_def)

lemma and_then_error [simp]: "and_then (Some (Inl e)) f = Some (Inl e)"
  by (simp add: and_then_def)

lemma refuse_structure:
  assumes "name_ok True a" "length (resolve_structure N a) = 1"
  shows "refuses N (''S<'' @ a @ ''>'' @ r)"
  using brackets_read[OF assms(1), of r] assms(2) by (intro refusesI) (simp add: Let_def parse_structure_def parse_error_def)

lemma refuse_flag:
  assumes "prefix_flag s = Some (g, s1)" "take 1 s \<notin> {''['', ''1'', ''2'', ''H'', ''S'', ''0'', ''N'', ''E'', ''Y'', ''?''}" "refuses N s1"
  shows "refuses N s"
proof (rule refusesI)
  fix m assume "length s \<le> m"
  with prefix_flag_consumes[OF assms(1)] have "length s1 < m" by simp
  from refusesD[OF assms(3) this] show "parseTypeFromMangledName (Suc m) N s = Some (Inl (VerifyFailed ''unknown structure''))"
    using assms(1,2) by (simp add: Let_def)
qed

lemma refuse_flags:
  assumes "refuses N s"
  shows "x \<in> {''C'', ''&'', ''#'', ''I'', ''='', ''R'', ''X'', ''F'', ''-[]'', ''-C'', ''-&'', ''-#''} \<Longrightarrow> refuses N ((if b then x else []) @ s)"
  using assms by (cases b; elim insertE emptyE; simp add: refuse_flag[OF _ _ assms] prefix_flag_def)

lemma refuse_flag_text: "refuses N s \<Longrightarrow> refuses N (flag_text g @ s)"
  unfolding flag_text_def append_assoc by (intro refuse_flags) simp_all

lemma refuse_remove_text: "refuses N s \<Longrightarrow> refuses N (remove_text fullName g @ s)"
  unfolding remove_text_def by (cases fullName; simp only: if_True if_False append_assoc append_Nil; (intro refuse_flags; simp)?)

lemma refuse_alias:
  assumes "refuses N s" "name_ok False a"
  shows "refuses N (alias_text a @ s)"
proof (cases "a = []")
  case True
  with assms show ?thesis by (simp add: alias_text_def)
next
  case False
  show ?thesis
  proof (rule refusesI)
    fix m assume "length (alias_text a @ s) \<le> m"
    then have "length s < m" using False by (simp add: alias_text_def)
    from refusesD[OF assms(1) this] show "parseTypeFromMangledName (Suc m) N (alias_text a @ s) = Some (Inl (VerifyFailed ''unknown structure''))"
      using False brackets_read[OF assms(2), of s] by (simp add: alias_text_def Let_def)
  qed
qed

lemma refuse_names:
  assumes "refuses N s" "list_all (name_ok False) ns" "ns \<noteq> []"
  shows "refuses N (''N<'' @ join ns @ ''>'' @ s)"
proof (rule refusesI)
  fix m assume "length (''N<'' @ join ns @ ''>'' @ s) \<le> m"
  then have "length s < m" by simp
  from refusesD[OF assms(1) this] show "parseTypeFromMangledName (Suc m) N (''N<'' @ join ns @ ''>'' @ s) = Some (Inl (VerifyFailed ''unknown structure''))"
    using names_read_join[OF assms(2,3), of s] by (simp add: Let_def)
qed

lemma refuse_part:
  assumes "refuses N (u @ ''>'' @ s) \<or> (\<exists>v. reads N (u @ ''>'' @ s) v (''>'' @ s)) \<and> refuses N s"
  shows "refuses N (''1<'' @ u @ ''>'' @ s)" "refuses N (''2<'' @ u @ ''>'' @ s)"
proof -
  have "parse_part put (parseTypeFromMangledName m N) (''<'' @ u @ ''>'' @ s) = Some (Inl (VerifyFailed ''unknown structure''))"
    if "length (''1<'' @ u @ ''>'' @ s) \<le> m" for m put
    using assms refusesD[of N "u @ ''>'' @ s" m] refusesD[of N s m] readsD[of N "u @ ''>'' @ s" _ "''>'' @ s" m] that
    by (auto simp: parse_part_def)
  then show "refuses N (''1<'' @ u @ ''>'' @ s)" "refuses N (''2<'' @ u @ ''>'' @ s)"
    by (intro refusesI; simp add: Let_def)+
qed

text \<open>The arguments one after the other: a bad one is reached once those before it are read.\<close>

lemma args_refuse:
  assumes "\<forall>t \<in> set ts. \<forall>r. rest_ok r \<longrightarrow> (if bad t then refuses N (f t @ r) else reads N (f t @ r) t r)" "\<exists>t \<in> set ts. bad t"
    and "length (concat (map (Cons CHR '';'') (map f ts)) @ ''>'' @ s) < k" "length (concat (map (Cons CHR '';'') (map f ts)) @ ''>'' @ s) < n"
  shows "args_loop k (parseTypeFromMangledName n N) acc (concat (map (Cons CHR '';'') (map f ts)) @ ''>'' @ s) =
    Some (Inl (VerifyFailed ''unknown structure''))"
  using assms
proof (induction ts arbitrary: acc k)
  case Nil
  then show ?case by simp
next
  case (Cons t ts)
  define more where "more = concat (map (Cons CHR '';'') (map f ts)) @ ''>'' @ s"
  obtain k' where k: "k = Suc k'" using Cons.prems(3) by (cases k) auto
  have m: "rest_ok more" "take 1 more = '';'' \<or> take 1 more = ''>''" by (cases ts; simp add: more_def rest_ok_def)+
  have len: "length (f t @ more) < n" using Cons.prems(4) by (simp add: more_def)
  have eq: "concat (map (Cons CHR '';'') (map f (t # ts))) @ ''>'' @ s = CHR '';'' # f t @ more" by (simp add: more_def)
  show ?case
  proof (cases "bad t")
    case True
    with Cons.prems(1) m(1) have "refuses N (f t @ more)" by simp
    from refusesD[OF this len] show ?thesis unfolding eq k by simp
  next
    case False
    with Cons.prems(1) m(1) have "reads N (f t @ more) t more" by simp
    from readsD[OF this len] have "parseTypeFromMangledName n N (f t @ more) = Some (Inr (t, more))" .
    moreover have "args_loop k' (parseTypeFromMangledName n N) (acc @ [t]) more = Some (Inl (VerifyFailed ''unknown structure''))"
      unfolding more_def by (rule Cons.IH) (use Cons.prems False k in auto)
    ultimately show ?thesis using m(2) unfolding eq k by simp
  qed
qed

lemma refuse_args:
  assumes "\<forall>t \<in> set ts. \<forall>r. rest_ok r \<longrightarrow> (if bad t then refuses N (f t @ r) else reads N (f t @ r) t r)" "\<exists>t \<in> set ts. bad t"
  shows "refuses N (''0<'' @ join (map f ts) @ ''>'' @ s)"
proof (rule refusesI)
  fix m assume m: "length (''0<'' @ join (map f ts) @ ''>'' @ s) \<le> m"
  obtain x xs where ts: "ts = x # xs" using assms(2) by (cases ts) auto
  define more where "more = concat (map (Cons CHR '';'') (map f xs)) @ ''>'' @ s"
  have tx: "join (map f ts) @ ''>'' @ s = f x @ more" by (simp add: ts join_def more_def)
  obtain m' where m': "m = Suc m'" using m by (cases m) auto
  have len: "length (f x @ more) < m" using m by (simp flip: tx)
  have r: "rest_ok more" "take 1 more = '';'' \<or> take 1 more = ''>''" by (cases xs; simp add: more_def rest_ok_def)+
  have "args_loop m (parseTypeFromMangledName m N) [] (''<'' @ f x @ more) = Some (Inl (VerifyFailed ''unknown structure''))"
  proof (cases "bad x")
    case True
    with assms(1) ts r(1) have "refuses N (f x @ more)" by simp
    from refusesD[OF this len] show ?thesis by (simp add: m')
  next
    case False
    with assms(1) ts r(1) have "reads N (f x @ more) x more" by simp
    from readsD[OF this len] have "parseTypeFromMangledName m N (f x @ more) = Some (Inr (x, more))" .
    moreover have "args_loop m' (parseTypeFromMangledName m N) [x] more = Some (Inl (VerifyFailed ''unknown structure''))"
      unfolding more_def by (rule args_refuse[where bad = bad]) (use assms ts False m m' tx in \<open>auto simp: more_def\<close>)
    ultimately have "args_loop (Suc m') p [] (''<'' @ f x @ more) = Some (Inl (VerifyFailed ''unknown structure''))"
      if "p = parseTypeFromMangledName m N" for p
      using r(2) that by auto
    then show ?thesis by (simp add: m')
  qed
  then show "parseTypeFromMangledName (Suc m) N (''0<'' @ join (map f ts) @ ''>'' @ s) = Some (Inl (VerifyFailed ''unknown structure''))"
    unfolding tx by (simp add: Let_def)
qed

lemma refuse_args_outer:
  assumes "refuses N s" "\<forall>t \<in> set ts. \<forall>r. rest_ok r \<longrightarrow> reads N (f t @ r) t r" "ts \<noteq> []"
  shows "refuses N (''0<'' @ join (map f ts) @ ''>'' @ s)"
proof (rule refusesI)
  fix m assume m: "length (''0<'' @ join (map f ts) @ ''>'' @ s) \<le> m"
  have "args_loop m (parseTypeFromMangledName m N) [] (''<'' @ join (map f ts) @ ''>'' @ s) = Some (Inr (ts, ''>'' @ s))"
    using args_read_join[OF assms(2,3), of s m] m by simp
  moreover have "parseTypeFromMangledName m N s = Some (Inl (VerifyFailed ''unknown structure''))" using refusesD[OF assms(1)] m by simp
  ultimately show "parseTypeFromMangledName (Suc m) N (''0<'' @ join (map f ts) @ ''>'' @ s) = Some (Inl (VerifyFailed ''unknown structure''))"
    by (simp add: Let_def)
qed

end
