(* ===== verification/MangledTrip.thy ===== *)
theory MangledTrip
  imports MangledRound
begin

text \<open>
  Which types the parser of mangled names gives back, and which it refuses.
\<close>

section \<open>Round trip\<close>

definition plain_flags :: "td_flags \<Rightarrow> bool" where
  "plain_flags f \<longleftrightarrow> \<not> f_isNativeDim f \<and> \<not> f_isTag f \<and> \<not> f_isPrivateAlias f \<and> \<not> f_autoToAlias f \<and> \<not> f_safeWhenUninitialized f \<and>
     \<not> f_enumStubBinding f \<and> \<not> f_enumStubIsUnsigned f \<and> \<not> f_aliasCacheValid f \<and> \<not> f_aliasCacheHasAlias f"

definition no_removes :: "td_flags \<Rightarrow> bool" where
  "no_removes f \<longleftrightarrow> \<not> f_removeDim f \<and> \<not> f_removeConstant f \<and> \<not> f_removeRef f \<and> \<not> f_removeTemporary f"

definition annotation_text :: "registry \<Rightarrow> nat \<Rightarrow> string" where
  "annotation_text R a = module_prefix R (Some (the (nd_module (rg_ann R a)))) @ nd_name (rg_ann R a)"

definition structure_text :: "registry \<Rightarrow> nat \<Rightarrow> string" where
  "structure_text R x = module_prefix R (nd_module (rg_struct R x)) @ nd_name (rg_struct R x)"

text \<open>
  The basic type and what it refers to can be found again under its written name. For an annotation or
  an enumeration that is to be found once; for a structure it is to be the last one found, the one
  \<open>parse_structure\<close> takes when there are several. A macro type is written, but has no case in the
  parser; \<open>none\<close> is written as nothing.
\<close>

definition base_found :: "names \<Rightarrow> type_decl \<Rightarrow> bool" where
  "base_found N t \<longleftrightarrow>
     (f_smartPtr (flags t) \<longrightarrow> baseType t = tPointer) \<and> (f_smartPtrNative (flags t) \<longrightarrow> f_smartPtr (flags t)) \<and>
     (annotation t \<noteq> None \<longrightarrow> baseType t = tHandle) \<and> (enumType t \<noteq> None \<longrightarrow> isEnumT t) \<and> (structType t \<noteq> None \<longrightarrow> baseType t = tStructure) \<and>
     (baseType t = tHandle \<longrightarrow> (case annotation t of None \<Rightarrow> False | Some a \<Rightarrow>
        name_ok True (annotation_text (nm_registry N) a) \<and> resolve_annotation N (annotation_text (nm_registry N) a) = [a] \<and> rg_isHandled (nm_registry N) a)) \<and>
     (baseType t = tStructure \<longrightarrow> (case structType t of None \<Rightarrow> False | Some x \<Rightarrow>
        name_ok True (structure_text (nm_registry N) x) \<and> resolve_structure N (structure_text (nm_registry N) x) \<noteq> [] \<and>
        List.last (resolve_structure N (structure_text (nm_registry N) x)) = x)) \<and>
     (case enumType t of None \<Rightarrow> True | Some e \<Rightarrow>
        name_ok True (enum_mangled (nm_registry N) e) \<and> resolve_enum N (enum_mangled (nm_registry N) e) = [e]) \<and>
     baseType t \<notin> {das_type.none, typeMacro}"

text \<open>A structure that is found exactly once, in a type or in a part of it.\<close>

definition found_once :: "names \<Rightarrow> type_decl \<Rightarrow> bool" where
  "found_once N t \<longleftrightarrow> baseType t = tStructure \<and>
     (case structType t of None \<Rightarrow> False | Some x \<Rightarrow> length (resolve_structure N (structure_text (nm_registry N) x)) = 1)"

fun names_structure_once :: "names \<Rightarrow> type_decl \<Rightarrow> bool" where
  "names_structure_once N t \<longleftrightarrow> found_once N t \<or>
     list_ex (names_structure_once N) (opt_list (firstType t) @ opt_list (secondType t) @ argTypes t)"

declare names_structure_once.simps [simp del]

fun mangleable :: "names \<Rightarrow> (type_decl \<Rightarrow> string) \<Rightarrow> bool \<Rightarrow> type_decl \<Rightarrow> bool" where
  "mangleable N macro_text fullName t \<longleftrightarrow>
    plain_flags (flags t) \<and> (fullName \<or> no_removes (flags t)) \<and> name_ok False (td_alias t) \<and> base_found N t \<and>
    list_all (mangleable N macro_text fullName) (opt_list (firstType t) @ opt_list (secondType t) @ argTypes t) \<and>
    (if baseType t = tFixedArray then
       secondType t = None \<and> argTypes t = [] \<and> argNames t = [] \<and> \<bar>fixedDim t\<bar> < 2 ^ 31 \<and>
       (case firstType t of None \<Rightarrow> False | Some u \<Rightarrow>
          td_alias t = [] \<longrightarrow> take 1 (getMangledName (nm_registry N) macro_text fullName u) \<notin> {''-'', ''Y''})
     else fixedDim t = 0 \<and> list_all (name_ok False) (argNames t))"

declare mangleable.simps [simp del]

definition base_only :: "type_decl \<Rightarrow> type_decl" where
  "base_only t = TypeDecl (baseType t) (structType t) (enumType t) (annotation t) None None [] [] 0
     (no_flags\<lparr>f_smartPtr := f_smartPtr (flags t), f_smartPtrNative := f_smartPtrNative (flags t)\<rparr>) []"

lemma base_foundD:
  assumes "base_found N t"
  shows "baseType t \<noteq> tStructure \<Longrightarrow> structType t = None"
    "baseType t \<noteq> tPointer \<Longrightarrow> \<not> f_smartPtr (flags t) \<and> \<not> f_smartPtrNative (flags t)"
    "baseType t \<noteq> tHandle \<Longrightarrow> annotation t = None" "\<not> isEnumT t \<Longrightarrow> enumType t = None"
    "baseType t \<notin> {das_type.none, typeMacro}" "f_smartPtrNative (flags t) \<longrightarrow> f_smartPtr (flags t)"
  using assms by (auto simp: base_found_def)

lemma no_flags_same: "no_flags\<lparr>f_smartPtr := False, f_smartPtrNative := False\<rparr> = no_flags"
  by (simp add: no_flags_def)

lemma base_only_plain:
  "base_found N t \<Longrightarrow> baseType t \<noteq> tHandle \<Longrightarrow> \<not> isEnumT t \<Longrightarrow> baseType t \<noteq> tPointer \<Longrightarrow> baseType t \<noteq> tStructure \<Longrightarrow> base_only t = new_type (baseType t)"
  using base_foundD(1-4)[of N t] by (simp add: base_only_def new_type_def no_flags_same)

text \<open>What the parser makes of a text: a refusal, or a type with what is left of the text.\<close>

definition answers :: "names \<Rightarrow> bool \<Rightarrow> string \<Rightarrow> type_decl \<Rightarrow> string \<Rightarrow> bool" where
  "answers N refused s t rest \<longleftrightarrow> (if refused then refuses N s else reads N s t rest)"

lemma answer_structure:
  assumes "base_found N t" "baseType t = tStructure"
  shows "answers N (found_once N t) (base_text (nm_registry N) macro_text t @ r) (base_only t) r"
proof -
  from assms obtain x where x: "structType t = Some x" "name_ok True (structure_text (nm_registry N) x)"
    "resolve_structure N (structure_text (nm_registry N) x) \<noteq> []" "List.last (resolve_structure N (structure_text (nm_registry N) x)) = x"
    by (auto simp: base_found_def split: option.splits)
  have tx: "base_text (nm_registry N) macro_text t @ r = ''S<'' @ structure_text (nm_registry N) x @ ''>'' @ r"
    using assms(2) x(1) by (simp add: base_text_def structure_text_def Let_def)
  have "base_only t = new_struct_type x"
    using base_foundD(2-4)[OF assms(1)] assms(2) x(1) by (simp add: base_only_def new_struct_type_def isEnumT_def no_flags_same)
  moreover have "found_once N t \<longleftrightarrow> length (resolve_structure N (structure_text (nm_registry N) x)) = 1"
    using assms(2) x(1) by (simp add: found_once_def)
  ultimately show ?thesis unfolding answers_def tx
    using refuse_structure[OF x(2)] read_structure[OF x(2) refl _ x(3)] x(4) by simp
qed

lemma answer_base:
  assumes "base_found N t" "plain_flags (flags t)" "rest_ok r" "baseType t \<noteq> tFixedArray"
  shows "answers N (found_once N t) (base_text (nm_registry N) macro_text t @ r) (base_only t) r"
proof (cases "baseType t = tStructure")
  case True
  then show ?thesis by (rule answer_structure[OF assms(1)])
next
  case other: False
  then have st: "structType t = None" "\<not> found_once N t" using base_foundD(1)[OF assms(1)] by (simp_all add: found_once_def)
  consider "baseType t = tHandle" | "isEnumT t" | "baseType t = tPointer"
    | "baseType t \<noteq> tHandle" "\<not> isEnumT t" "baseType t \<noteq> tPointer" by blast
  then have "reads N (base_text (nm_registry N) macro_text t @ r) (base_only t) r"
  proof cases
    case 1
    with assms(1) obtain a where a: "annotation t = Some a" "name_ok True (annotation_text (nm_registry N) a)"
      "resolve_annotation N (annotation_text (nm_registry N) a) = [a]" "rg_isHandled (nm_registry N) a"
      by (auto simp: base_found_def split: option.splits)
    have "enumType t = None" "\<not> f_smartPtr (flags t) \<and> \<not> f_smartPtrNative (flags t)"
      using base_foundD(2,4)[OF assms(1)] 1 by (simp_all add: isEnumT_def)
    then have "base_only t = new_handle a" using 1 a(1) st by (simp add: base_only_def new_handle_def no_flags_same)
    with read_handle[OF a(2-4), of r] 1 a(1) show ?thesis by (simp add: base_text_def annotation_text_def Let_def)
  next
    case 2
    then have b: "baseType t \<in> {tEnumeration, tEnumeration8, tEnumeration16, tEnumeration64}" by (auto simp: isEnumT_def)
    have f: "\<forall>x. enumType t = Some x \<longrightarrow> name_ok True (case enumType t of Some e \<Rightarrow> enum_mangled (nm_registry N) e | None \<Rightarrow> []) \<and>
        resolve_enum N (case enumType t of Some e \<Rightarrow> enum_mangled (nm_registry N) e | None \<Rightarrow> []) = [x]"
      using assms(1) by (auto simp: base_found_def)
    have "annotation t = None" "\<not> f_smartPtr (flags t) \<and> \<not> f_smartPtrNative (flags t)"
      using b by (intro base_foundD(2,3)[OF assms(1)]; force)+
    then have o': "base_only t = new_enum (baseType t) (enumType t)" using st by (simp add: base_only_def new_enum_def no_flags_same)
    have tx: "base_text (nm_registry N) macro_text t = ''E'' @ enum_width_text (baseType t) @
        (case enumType t of Some e \<Rightarrow> ''<'' @ enum_mangled (nm_registry N) e @ ''>'' | None \<Rightarrow> [])"
      using b assms(2) by (elim insertE emptyE; simp add: base_text_def plain_flags_def)
    show ?thesis
      using read_enum[OF b assms(3) f] tx unfolding o' by (cases "enumType t") simp_all
  next
    case 3
    have "base_only t = map_flags (\<lambda>f. f\<lparr>f_smartPtr := f_smartPtr (flags t), f_smartPtrNative := f_smartPtrNative (flags t)\<rparr>) (new_type tPointer)"
      using base_foundD(3,4)[OF assms(1)] 3 st by (simp add: base_only_def new_type_def isEnumT_def)
    moreover have "f_smartPtrNative (flags t) \<longrightarrow> f_smartPtr (flags t)" using assms(1) by (simp add: base_found_def)
    ultimately show ?thesis using read_pointer[OF assms(3), of "f_smartPtrNative (flags t)" "f_smartPtr (flags t)" N] 3
      by (simp add: base_text_def)
  next
    case 4
    have "basic_text (baseType t) \<noteq> []" using 4 assms(1,4) other by (cases "baseType t") (auto simp: base_found_def isEnumT_def)
    from read_basic[OF this assms(3), of N] base_only_plain[OF assms(1) 4 other] 4 assms(1) other show ?thesis
      by (simp add: base_text_def base_found_def isEnumT_def)
  qed
  with st(2) show ?thesis by (simp add: answers_def)
qed

section \<open>Fixed arrays\<close>

lemma dim_flags_steps:
  "dim_flags f (CHR ''-'' # CHR ''['' # CHR '']'' # s) = dim_flags (f\<lparr>f_removeDim := True\<rparr>) s"
  "dim_flags f (CHR ''-'' # CHR ''C'' # s) = dim_flags (f\<lparr>f_removeConstant := True\<rparr>) s"
  "dim_flags f (CHR ''-'' # CHR ''&'' # s) = dim_flags (f\<lparr>f_removeRef := True\<rparr>) s"
  "dim_flags f (CHR ''-'' # CHR ''#'' # s) = dim_flags (f\<lparr>f_removeTemporary := True\<rparr>) s"
  by (subst dim_flags.simps, simp)+

lemma dim_flags_stop: "take 1 s \<noteq> ''-'' \<Longrightarrow> dim_flags f s = (f, s)"
  by (subst dim_flags.simps) (cases s, auto)

definition removes_only :: "td_flags \<Rightarrow> td_flags" where
  "removes_only g = no_flags\<lparr>f_removeDim := f_removeDim g, f_removeConstant := f_removeConstant g,
     f_removeRef := f_removeRef g, f_removeTemporary := f_removeTemporary g\<rparr>"

lemma dim_flags_read:
  assumes "take 1 s \<noteq> ''-''" "fullName \<or> no_removes g"
  shows "dim_flags no_flags (remove_text fullName g @ s) = (removes_only g, s)"
  using assms(2) dim_flags_stop[OF assms(1)]
  by (cases fullName; cases "f_removeDim g"; cases "f_removeConstant g"; cases "f_removeRef g"; cases "f_removeTemporary g")
    (simp_all add: remove_text_def no_removes_def dim_flags_steps removes_only_def no_flags_def)

lemma dim_alias_read: "name_ok False a \<Longrightarrow> a = [] \<longrightarrow> take 1 s \<noteq> ''Y'' \<Longrightarrow> parse_dim_alias (alias_text a @ s) = Some (Inr (a, s))"
  using brackets_read[of False a s] by (simp add: parse_dim_alias_def alias_text_def)

lemma answer_fixed:
  assumes "answers N b s u rest" "\<bar>d\<bar> \<le> int INT32_MAX" "name_ok False a" "fullName \<or> no_removes g" "a = [] \<longrightarrow> take 1 s \<notin> {''-'', ''Y''}"
  shows "answers N b (''['' @ show_int d @ '']'' @ remove_text fullName g @ alias_text a @ s) (with_first u (new_fixed_array d (removes_only g) a)) rest"
proof -
  let ?s1 = "remove_text fullName g @ alias_text a @ s"
  have "take 1 (alias_text a @ s) \<noteq> ''-''" using assms(5) by (simp add: alias_text_def)
  then have "dim_flags no_flags ?s1 = (removes_only g, alias_text a @ s)" by (rule dim_flags_read) (rule assms(4))
  moreover have "parse_dim_alias (alias_text a @ s) = Some (Inr (a, s))" using dim_alias_read[OF assms(3)] assms(5) by simp
  ultimately have step: "parseTypeFromMangledName (Suc m) N (''['' @ show_int d @ '']'' @ ?s1) =
      and_then (parseTypeFromMangledName m N s) (\<lambda>ft s4. Some (Inr (with_first ft (new_fixed_array d (removes_only g) a), s4)))" for m
    using parse_dim_show[OF assms(2), of ?s1] by (simp add: parse_fixed_def Let_def)
  show ?thesis
  proof (cases b)
    case True
    with assms(1) have "refuses N s" by (simp add: answers_def)
    then have "refuses N (''['' @ show_int d @ '']'' @ ?s1)"
      by (intro refusesI) (simp only: step, simp add: refusesD)
    with True show ?thesis by (simp add: answers_def)
  next
    case False
    with assms(1) have "reads N s u rest" by (simp add: answers_def)
    then have "reads N (''['' @ show_int d @ '']'' @ ?s1) (with_first u (new_fixed_array d (removes_only g) a)) rest"
      by (intro readsI) (simp only: step, simp add: readsD)
    with False show ?thesis by (simp add: answers_def)
  qed
qed

section \<open>All together\<close>

lemma map_flags_cong: "g (flags t) = h (flags t) \<Longrightarrow> map_flags g t = map_flags h t"
  by (cases t) simp

lemma removes_read:
  assumes "reads N s t rest" "fullName \<or> no_removes g" "\<not> f_constant (flags t)" "\<not> f_ref (flags t)" "\<not> f_temporary (flags t)"
  shows "reads N (remove_text fullName g @ s) (map_flags (\<lambda>f. f\<lparr>f_removeDim := f_removeDim g \<or> f_removeDim f,
    f_removeConstant := f_removeConstant g \<or> f_removeConstant f, f_removeRef := f_removeRef g \<or> f_removeRef f,
    f_removeTemporary := f_removeTemporary g \<or> f_removeTemporary f\<rparr>) t) rest"
proof (cases fullName)
  case True
  have "reads N (remove_text fullName g @ s) (map_flags F t) rest \<Longrightarrow> F (flags t) = G (flags t) \<Longrightarrow> reads N (remove_text fullName g @ s) (map_flags G t) rest" for F G
    by (simp add: map_flags_cong[of F t G])
  from this[OF read_remove_text[OF assms(1), of g, folded True[THEN eqTrueI]]] show ?thesis
    using assms(3-5) by (simp add: td_flags.equality)
next
  case False
  then have "reads N (remove_text fullName g @ s) t rest" using assms(1) by (simp add: remove_text_def)
  moreover have "map_flags (\<lambda>f. f) t = map_flags (\<lambda>f. f\<lparr>f_removeDim := f_removeDim g \<or> f_removeDim f,
    f_removeConstant := f_removeConstant g \<or> f_removeConstant f, f_removeRef := f_removeRef g \<or> f_removeRef f,
    f_removeTemporary := f_removeTemporary g \<or> f_removeTemporary f\<rparr>) t"
    using False assms(2) by (intro map_flags_cong) (simp add: no_removes_def)
  ultimately show ?thesis by (simp add: map_flags_id)
qed

lemma answer_opt_parts:
  assumes "answers N b s t rest" "\<And>u. x = Some u \<Longrightarrow> answers N (bad u) (f u @ ''>'' @ s) u (''>'' @ s)"
  shows "answers N (b \<or> list_ex bad (opt_list x)) (concat (map (\<lambda>u. ''1<'' @ f u @ ''>'') (opt_list x)) @ s) (case x of None \<Rightarrow> t | Some u \<Rightarrow> with_first u t) rest"
    and "answers N (b \<or> list_ex bad (opt_list x)) (concat (map (\<lambda>u. ''2<'' @ f u @ ''>'') (opt_list x)) @ s) (case x of None \<Rightarrow> t | Some u \<Rightarrow> with_second u t) rest"
proof (atomize (full), cases x)
  case None
  then show "answers N (b \<or> list_ex bad (opt_list x)) (concat (map (\<lambda>u. ''1<'' @ f u @ ''>'') (opt_list x)) @ s) (case x of None \<Rightarrow> t | Some u \<Rightarrow> with_first u t) rest \<and>
    answers N (b \<or> list_ex bad (opt_list x)) (concat (map (\<lambda>u. ''2<'' @ f u @ ''>'') (opt_list x)) @ s) (case x of None \<Rightarrow> t | Some u \<Rightarrow> with_second u t) rest"
    using assms(1) by simp
next
  case (Some u)
  have "refuses N (f u @ ''>'' @ s) \<or> (\<exists>v. reads N (f u @ ''>'' @ s) v (''>'' @ s)) \<and> refuses N s" if "b \<or> bad u"
    using that assms(1) assms(2)[OF Some] by (auto simp: answers_def split: if_splits)
  note bad = refuse_part[OF this]
  have "reads N s t rest \<and> reads N (f u @ ''>'' @ s) u (''>'' @ s)" if "\<not> (b \<or> bad u)"
    using that assms(1) assms(2)[OF Some] by (simp add: answers_def)
  note good = read_part[OF this[THEN conjunct1] this[THEN conjunct2]]
  show "answers N (b \<or> list_ex bad (opt_list x)) (concat (map (\<lambda>u. ''1<'' @ f u @ ''>'') (opt_list x)) @ s) (case x of None \<Rightarrow> t | Some u \<Rightarrow> with_first u t) rest \<and>
    answers N (b \<or> list_ex bad (opt_list x)) (concat (map (\<lambda>u. ''2<'' @ f u @ ''>'') (opt_list x)) @ s) (case x of None \<Rightarrow> t | Some u \<Rightarrow> with_second u t) rest"
    using bad good Some by (simp add: answers_def)
qed

lemma answer_args:
  assumes "answers N b s t rest" "\<forall>t \<in> set ts. \<forall>r. rest_ok r \<longrightarrow> answers N (bad t) (f t @ r) t r" "ts \<noteq> []"
  shows "answers N (b \<or> list_ex bad ts) (''0<'' @ join (map f ts) @ ''>'' @ s) (with_args ts t) rest"
proof (cases "list_ex bad ts")
  case True
  then have "\<exists>t \<in> set ts. bad t" by (simp add: list_ex_iff)
  from refuse_args[OF assms(2)[unfolded answers_def] this] True show ?thesis by (simp add: answers_def)
next
  case False
  then have good: "\<forall>t \<in> set ts. \<forall>r. rest_ok r \<longrightarrow> reads N (f t @ r) t r" using assms(2) by (simp add: answers_def list_ex_iff)
  from assms(1) show ?thesis
    using refuse_args_outer[OF _ good assms(3)] read_args[OF _ good assms(3)] False by (simp add: answers_def)
qed

text \<open>The flags come back: those that are written, and the pointer's.\<close>

definition reread_flags :: "td_flags \<Rightarrow> td_flags \<Rightarrow> td_flags" where
  "reread_flags g f = f\<lparr>f_aotAlias := f_aotAlias g \<or> f_aotAlias f, f_isExplicit := f_isExplicit g \<or> f_isExplicit f,
    f_explicitRef := f_explicitRef g \<or> f_explicitRef f, f_explicitConst := f_explicitConst g \<or> f_explicitConst f,
    f_implicit := f_implicit g \<or> f_implicit f, f_temporary := f_temporary g \<or> f_temporary f, f_ref := f_ref g \<or> f_ref f,
    f_constant := f_constant g \<or> f_constant f\<rparr>"

definition reread_removes :: "td_flags \<Rightarrow> td_flags \<Rightarrow> td_flags" where
  "reread_removes g f = f\<lparr>f_removeDim := f_removeDim g \<or> f_removeDim f,
    f_removeConstant := f_removeConstant g \<or> f_removeConstant f, f_removeRef := f_removeRef g \<or> f_removeRef f,
    f_removeTemporary := f_removeTemporary g \<or> f_removeTemporary f\<rparr>"

lemma reread_all:
  assumes "plain_flags g"
  shows "reread_flags g (reread_removes g (no_flags\<lparr>f_smartPtr := f_smartPtr g, f_smartPtrNative := f_smartPtrNative g\<rparr>)) = g"
    and "\<not> f_smartPtr g \<Longrightarrow> \<not> f_smartPtrNative g \<Longrightarrow> reread_flags g (removes_only g) = g"
  using assms by (intro td_flags.equality; simp add: reread_flags_def reread_removes_def removes_only_def no_flags_def plain_flags_def)+

lemmas flags_read = read_flag_text[folded reread_flags_def]
lemmas removes_back = removes_read[folded reread_removes_def]

lemma answer_flags: "answers N b s t rest \<Longrightarrow> answers N b (flag_text g @ s) (map_flags (reread_flags g) t) rest"
  using flags_read refuse_flag_text by (simp add: answers_def)

lemma answer_removes:
  assumes "answers N b s t rest" "fullName \<or> no_removes g" "\<not> f_constant (flags t)" "\<not> f_ref (flags t)" "\<not> f_temporary (flags t)"
  shows "answers N b (remove_text fullName g @ s) (map_flags (reread_removes g) t) rest"
  using removes_back[OF _ assms(2-5)] refuse_remove_text assms(1) by (simp add: answers_def)

lemma answer_alias: "answers N b s t rest \<Longrightarrow> name_ok False a \<Longrightarrow> td_alias t = [] \<Longrightarrow> answers N b (alias_text a @ s) (with_alias a t) rest"
  using read_alias refuse_alias by (simp add: answers_def)

lemma answer_names:
  "answers N b s t rest \<Longrightarrow> list_all (name_ok False) ns \<Longrightarrow> ns \<noteq> [] \<Longrightarrow> answers N b (''N<'' @ join ns @ ''>'' @ s) (with_names ns t) rest"
  using read_names[of N s t rest ns] refuse_names[of N s ns] by (cases b) (simp_all add: answers_def)

lemma mangled_fixed:
  assumes "mangleable N macro_text fullName t" "baseType t = tFixedArray" "firstType t = Some u" "rest_ok r"
    and "answers N b (getMangledName (nm_registry N) macro_text fullName u @ r) u r"
  shows "answers N b (getMangledName (nm_registry N) macro_text fullName t @ r) t r"
proof -
  note m = assms(1)[unfolded mangleable.simps[of N macro_text fullName t]]
  have f: "base_found N t" and p: "plain_flags (flags t)" using m by blast+
  have c: "fullName \<or> no_removes (flags t)" "name_ok False (td_alias t)" "\<bar>fixedDim t\<bar> < 2 ^ 31"
    "secondType t = None" "argTypes t = []" "argNames t = []"
    "td_alias t = [] \<longrightarrow> take 1 (getMangledName (nm_registry N) macro_text fullName u) \<notin> {''-'', ''Y''}"
    using m assms(2,3) by simp_all
  have "td_alias t = [] \<longrightarrow> take 1 (getMangledName (nm_registry N) macro_text fullName u @ r) \<notin> {''-'', ''Y''}"
    using c(7) assms(4) by (cases "getMangledName (nm_registry N) macro_text fullName u"; cases r) (auto simp: rest_ok_def)
  moreover have "\<bar>fixedDim t\<bar> \<le> int INT32_MAX" using c(3) by (simp add: INT32_MAX_def)
  ultimately have "answers N b (''['' @ show_int (fixedDim t) @ '']'' @ remove_text fullName (flags t) @ alias_text (td_alias t) @
      getMangledName (nm_registry N) macro_text fullName u @ r) (with_first u (new_fixed_array (fixedDim t) (removes_only (flags t)) (td_alias t))) r"
    using answer_fixed[OF assms(5) _ c(2,1)] by blast
  from answer_flags[OF this, of "flags t"]
  have "answers N b (getMangledName (nm_registry N) macro_text fullName t @ r)
      (map_flags (reread_flags (flags t)) (with_first u (new_fixed_array (fixedDim t) (removes_only (flags t)) (td_alias t)))) r"
    using assms(2,3) by (simp add: getMangledName.simps[of _ _ _ t])
  moreover have "structType t = None" "annotation t = None" "enumType t = None" "\<not> f_smartPtr (flags t)" "\<not> f_smartPtrNative (flags t)"
    using base_foundD(1-4)[OF f] assms(2) by (simp_all add: isEnumT_def)
  then have "map_flags (reread_flags (flags t)) (with_first u (new_fixed_array (fixedDim t) (removes_only (flags t)) (td_alias t))) = t"
    using assms(2,3) c(4-6) reread_all(2)[OF p] by (cases t) (simp add: new_fixed_array_def)
  ultimately show ?thesis by simp
qed

lemma mangled_other:
  assumes "mangleable N macro_text fullName t" "baseType t \<noteq> tFixedArray" "rest_ok r"
    and "\<And>u r. u \<in> set (opt_list (firstType t) @ opt_list (secondType t) @ argTypes t) \<Longrightarrow> rest_ok r \<Longrightarrow>
      answers N (names_structure_once N u) (getMangledName (nm_registry N) macro_text fullName u @ r) u r"
  shows "answers N (names_structure_once N t) (getMangledName (nm_registry N) macro_text fullName t @ r) t r"
proof -
  let ?f = "getMangledName (nm_registry N) macro_text fullName" and ?bad = "names_structure_once N"
  note m = assms(1)[unfolded mangleable.simps[of N macro_text fullName t]]
  have f: "base_found N t" and p: "plain_flags (flags t)" using m by blast+
  have c: "fullName \<or> no_removes (flags t)" "name_ok False (td_alias t)" "fixedDim t = 0" "list_all (name_ok False) (argNames t)"
    using m assms(2) by simp_all
  have g: "rest_ok (''>'' @ s)" for s by (simp add: rest_ok_def)
  define s0 where "s0 = base_text (nm_registry N) macro_text t @ r"
  define s2 where "s2 = concat (map (\<lambda>u. ''2<'' @ ?f u @ ''>'') (opt_list (secondType t))) @ s0"
  define s1 where "s1 = concat (map (\<lambda>u. ''1<'' @ ?f u @ ''>'') (opt_list (firstType t))) @ s2"
  define sa where "sa = (if argTypes t \<noteq> [] then ''0<'' @ join (map ?f (argTypes t)) @ ''>'' else []) @ s1"
  define sn where "sn = (if argNames t \<noteq> [] then ''N<'' @ join (argNames t) @ ''>'' else []) @ sa"
  define t2 where "t2 = (case secondType t of None \<Rightarrow> base_only t | Some u \<Rightarrow> with_second u (base_only t))"
  define t1 where "t1 = (case firstType t of None \<Rightarrow> t2 | Some u \<Rightarrow> with_first u t2)"
  define ta where "ta = (if argTypes t \<noteq> [] then with_args (argTypes t) t1 else t1)"
  define tn where "tn = (if argNames t \<noteq> [] then with_names (argNames t) ta else ta)"
  define b2 where "b2 \<longleftrightarrow> found_once N t \<or> list_ex ?bad (opt_list (secondType t))"
  define b1 where "b1 \<longleftrightarrow> b2 \<or> list_ex ?bad (opt_list (firstType t))"
  define ba where "ba \<longleftrightarrow> b1 \<or> list_ex ?bad (argTypes t)"
  have "answers N (found_once N t) s0 (base_only t) r" using answer_base[OF f p assms(3,2)] by (simp add: s0_def)
  then have "answers N b2 s2 t2 r" unfolding s2_def t2_def b2_def by (rule answer_opt_parts(2)) (use assms(4) g in auto)
  then have "answers N b1 s1 t1 r" unfolding s1_def t1_def b1_def by (rule answer_opt_parts(1)) (use assms(4) g in auto)
  then have "answers N ba sa ta r" unfolding sa_def ta_def ba_def using answer_args[of N b1 s1 t1 r "argTypes t" ?bad ?f] assms(4) by auto
  then have rn: "answers N ba sn tn r" unfolding sn_def tn_def using answer_names[of N ba sa ta r "argNames t"] c(4) by auto
  have tn: "tn = TypeDecl (baseType t) (structType t) (enumType t) (annotation t) (firstType t) (secondType t) (argTypes t) (argNames t) 0
     (no_flags\<lparr>f_smartPtr := f_smartPtr (flags t), f_smartPtrNative := f_smartPtrNative (flags t)\<rparr>) []"
    by (simp add: tn_def ta_def t1_def t2_def base_only_def split: option.split)
  have "td_alias tn = []" by (simp add: tn)
  with rn have "answers N ba (alias_text (td_alias t) @ sn) (with_alias (td_alias t) tn) r" using answer_alias c(2) by blast
  from answer_flags[OF answer_removes[OF this c(1)], of "flags t"]
  have "answers N ba (flag_text (flags t) @ remove_text fullName (flags t) @ alias_text (td_alias t) @ sn)
      (map_flags (reread_flags (flags t)) (map_flags (reread_removes (flags t)) (with_alias (td_alias t) tn))) r"
    by (simp add: tn no_flags_def)
  moreover have "map_flags (reread_flags (flags t)) (map_flags (reread_removes (flags t)) (with_alias (td_alias t) tn)) = t"
    using c(3) reread_all(1)[OF p] unfolding tn by (cases t) simp
  moreover have "ba \<longleftrightarrow> names_structure_once N t"
    by (auto simp: ba_def b1_def b2_def names_structure_once.simps[of N t])
  ultimately show ?thesis using assms(2)
    by (simp add: getMangledName.simps[of _ _ _ t] sn_def sa_def s1_def s2_def s0_def)
qed

text \<open>C5: what the parser makes of a mangled name. Take a type in which
  every annotation and enumeration is found once under its written name, and every structure is found
  under its written name and is the last one found;
  every name is made of letters, digits, \<open>_\<close> and \<open>`\<close> (and, in a module prefix, \<open>:\<close> and \<open>$\<close>);
  there is no macro type, no \<open>none\<close>, and none of the flags the text does not carry (the remove flags
  are carried by full names only);
  and a fixed array has a dimension of 32 bits, one element type and no names, and, when it has no alias,
  an element whose text does not begin with \<open>-\<close> or \<open>Y\<close>.
  Take its text, followed by anything that may follow it. If some structure in the type is found exactly
  once under its name, the text is refused with ``unknown structure''. Otherwise, so for every such type
  without structures and for those whose structures are all found more than once, parsing gives that
  very type and leaves what follows. Both hold at any depth above the length of the text.
\<close>

theorem mangled_name_round_trip:
  assumes "mangleable N macro_text fullName t" "rest_ok rest" "length (getMangledName (nm_registry N) macro_text fullName t @ rest) < n"
  shows "parseTypeFromMangledName n N (getMangledName (nm_registry N) macro_text fullName t @ rest) =
    (if names_structure_once N t then Some (Inl (VerifyFailed ''unknown structure'')) else Some (Inr (t, rest)))"
proof -
  have "answers N (names_structure_once N t) (getMangledName (nm_registry N) macro_text fullName t @ rest) t rest"
    using assms(1,2)
  proof (induction N macro_text fullName t arbitrary: rest rule: mangleable.induct)
    case (1 N macro_text fullName t)
    have parts: "mangleable N macro_text fullName u" if "u \<in> set (opt_list (firstType t) @ opt_list (secondType t) @ argTypes t)" for u
      using 1(2) that unfolding mangleable.simps[of N macro_text fullName t] list_all_iff by blast
    show ?case
    proof (cases "baseType t = tFixedArray")
      case True
      then obtain u where u: "firstType t = Some u" "secondType t = None" "argTypes t = []"
        using 1(2) unfolding mangleable.simps[of N macro_text fullName t] by (auto split: option.splits)
      have same: "names_structure_once N t \<longleftrightarrow> names_structure_once N u"
        using True u by (simp add: names_structure_once.simps[of N t] found_once_def)
      show ?thesis unfolding same by (rule mangled_fixed[OF 1(2) True u(1) 1(3)]) (use 1(1)[of u rest] 1(3) parts u in auto)
    next
      case False
      show ?thesis by (rule mangled_other[OF 1(2) False 1(3)]) (use 1(1) parts in blast)
    qed
  qed
  then show ?thesis using assms(3) by (simp add: answers_def refusesD readsD split: if_splits)
qed

definition demo_names :: names where
  "demo_names = \<lparr>nm_registry = demo_registry, nm_library = library_new, nm_thisModule = Some 2\<rparr>"

text \<open>\<open>table<string const; array<int>[4][2] A>&\<close>.\<close>

definition demo_mangled :: type_decl where
  "demo_mangled = map_flags (\<lambda>f. f\<lparr>f_ref := True\<rparr>)
     (with_first (map_flags (\<lambda>f. f\<lparr>f_constant := True, f_removeRef := True\<rparr>) (new_type tString))
       (with_second (with_first (with_first (with_first (new_type tInt) (new_type tArray)) (new_fixed_array 2 no_flags [])) (new_fixed_array 4 no_flags ''A''))
         (with_names [''key'', ''value''] (new_type tTable))))"

text \<open>
  Two structures \<open>S\<close>: one of module \<open>a\<close>, one of a program without a name that requires \<open>a\<close>. The
  program's \<open>S\<close> is found twice and read back; \<open>a::S\<close> is found once and refused.
\<close>

definition demo_two_structures :: registry where
  "demo_two_structures = fst (the (addStructure 3 1 False (fst (the (addStructure 1 0 False
     (demo_registry\<lparr>rg_module := (rg_module demo_registry)(3 := demo_module [] [(1, False)])\<rparr>))))))"

definition demo_two_names :: names where
  "demo_two_names = \<lparr>nm_registry = demo_two_structures, nm_library = fst (the (addModule 3 demo_two_structures 3 library_new)),
     nm_thisModule = Some 3\<rparr>"

definition demo_array_of :: "nat \<Rightarrow> type_decl" where
  "demo_array_of x = with_first (new_struct_type x) (new_type tArray)"

lemma mangled_name_round_trip_witness:
  "getMangledName demo_registry (\<lambda>_. []) True demo_mangled = ''&N<key;value>1<C-&s>2<[4]Y<A>[2]1<i>A>T'' \<and>
   parseTypeFromMangledName 50 demo_names (''&N<key;value>1<C-&s>2<[4]Y<A>[2]1<i>A>T'' @ '';i'') = Some (Inr (demo_mangled, '';i'')) \<and>
   resolve_structure demo_two_names ''S'' = [0, 1] \<and> resolve_structure demo_two_names ''a::S'' = [0] \<and>
   parseTypeFromMangledName 50 demo_two_names ''1<S<S>>A'' = Some (Inr (demo_array_of 1, [])) \<and>
   parseTypeFromMangledName 50 demo_two_names ''1<S<a::S>>A'' = Some (Inl (VerifyFailed ''unknown structure''))"
proof -
  have m: "mangleable demo_names (\<lambda>_. []) True demo_mangled" "mangleable demo_two_names (\<lambda>_. []) True (demo_array_of 1)"
    "mangleable demo_two_names (\<lambda>_. []) True (demo_array_of 0)" by code_simp+
  have g: "getMangledName (nm_registry demo_names) (\<lambda>_. []) True demo_mangled = ''&N<key;value>1<C-&s>2<[4]Y<A>[2]1<i>A>T''"
    "getMangledName (nm_registry demo_two_names) (\<lambda>_. []) True (demo_array_of 1) = ''1<S<S>>A''"
    "getMangledName (nm_registry demo_two_names) (\<lambda>_. []) True (demo_array_of 0) = ''1<S<a::S>>A''" by code_simp+
  have o: "\<not> names_structure_once demo_names demo_mangled" "\<not> names_structure_once demo_two_names (demo_array_of 1)"
    "names_structure_once demo_two_names (demo_array_of 0)" by code_simp+
  have r: "resolve_structure demo_two_names ''S'' = [0, 1]" "resolve_structure demo_two_names ''a::S'' = [0]" by code_simp+
  have "getMangledName demo_registry (\<lambda>_. []) True demo_mangled = ''&N<key;value>1<C-&s>2<[4]Y<A>[2]1<i>A>T''"
    using g(1) by (simp add: demo_names_def)
  then show ?thesis
    using mangled_name_round_trip[OF m(1), of "'';i''" 50] mangled_name_round_trip[OF m(2), of "[]" 50]
      mangled_name_round_trip[OF m(3), of "[]" 50] g o r by (simp add: rest_ok_def)
qed

section \<open>What does not come back\<close>

text \<open>C37: the name of a structure that is found exactly once is refused: \<open>parse_structure\<close> tests for one
  result where the cases of annotations and enumerations test for anything but one. A name that is
  not found at all is not refused: the last element of the empty result is taken.\<close>

theorem found_structure_refused:
  assumes "name_ok True sname"
  shows "(length (resolve_structure N sname) = 1 \<longrightarrow>
      parseTypeFromMangledName (Suc n) N (''S<'' @ sname @ ''>'' @ rest) = Some (Inl (VerifyFailed ''unknown structure''))) \<and>
    (resolve_structure N sname = [] \<longrightarrow>
      parseTypeFromMangledName (Suc n) N (''S<'' @ sname @ ''>'' @ rest) = Some (Inl (UndefinedBehaviour ''back of an empty vector'')))"
  using brackets_read[OF assms, of rest] by (simp add: Let_def parse_structure_def parse_error_def)

definition demo_struct_names :: names where
  "demo_struct_names = demo_names\<lparr>nm_registry := fst (the (addStructure 2 0 False demo_registry))\<rparr>"

lemma found_structure_refused_witness:
  "resolve_structure demo_struct_names ''S'' = [0] \<and> getMangledName (nm_registry demo_struct_names) (\<lambda>_. []) False (new_struct_type 0) = ''S<b::S>'' \<and>
   parseTypeFromMangledName 9 demo_struct_names ''S<S>'' = Some (Inl (VerifyFailed ''unknown structure'')) \<and>
   parseTypeFromMangledName 9 demo_struct_names ''S<T>'' = Some (Inl (UndefinedBehaviour ''back of an empty vector''))"
proof -
  have r: "resolve_structure demo_struct_names ''S'' = [0]" "resolve_structure demo_struct_names ''T'' = []"
    "getMangledName (nm_registry demo_struct_names) (\<lambda>_. []) False (new_struct_type 0) = ''S<b::S>''" by code_simp+
  have n: "name_ok True ''S''" "name_ok True ''T''" by code_simp+
  show ?thesis
    using found_structure_refused[OF n(1), of demo_struct_names 8 "[]"] found_structure_refused[OF n(2), of demo_struct_names 8 "[]"] r by simp
qed

text \<open>Two different types have the same mangled name: a fixed array with an alias, and a fixed array
  of an element with that alias.\<close>

theorem fixed_array_alias_ambiguous:
  assumes "a \<noteq> []" "b \<noteq> tFixedArray" "b \<noteq> typeMacro"
  shows "with_first (new_type b) (new_fixed_array d no_flags a) \<noteq> with_first (with_alias a (new_type b)) (new_fixed_array d no_flags []) \<and>
    getMangledName R macro_text fullName (with_first (new_type b) (new_fixed_array d no_flags a)) =
    getMangledName R macro_text fullName (with_first (with_alias a (new_type b)) (new_fixed_array d no_flags []))"
proof -
  have "base_text R macro_text (with_alias a (new_type b)) = base_text R macro_text (new_type b)"
    using assms(3) by (simp add: base_text_def new_type_def)
  then have "getMangledName R macro_text fullName (with_alias a (new_type b)) = alias_text a @ getMangledName R macro_text fullName (new_type b)"
    using assms(2) by (simp add: getMangledName.simps[of _ _ _ "with_alias a (new_type b)"] getMangledName.simps[of _ _ _ "new_type b"])
      (simp add: new_type_def no_flags_def flag_text_def remove_text_def alias_text_def)
  moreover have r: "remove_text fullName no_flags = []" by (simp add: remove_text_def no_flags_def)
  ultimately show ?thesis using assms(1)
    by (simp add: getMangledName.simps[of _ _ _ "TypeDecl tFixedArray None None None f None [] [] d no_flags al" for f al] new_fixed_array_def alias_text_def r)
qed

text \<open>The marks of a bound enumeration are written but not read: the parser takes the type for an
  enumeration without a name and leaves the mark.\<close>

theorem enum_stub_mark_not_read:
  "parseTypeFromMangledName (Suc n) N (''E8u<'' @ a @ ''>'' @ rest) = Some (Inr (new_enum tEnumeration8 None, ''u<'' @ a @ ''>'' @ rest))"
  by (simp add: Let_def parse_enum_def)

end
