(* ===== verification/Layout.thy ===== *)
theory Layout
  imports TypeAlias
begin

text \<open>
  Sizes, alignments and offsets of values: those the compiler computes from a \<open>TypeDecl\<close>
  (\<open>ast/ast_typedecl.cpp\<close>, \<open>ast/ast.cpp\<close>) and those the run time computes from the \<open>TypeInfo\<close> made of
  it (\<open>simulate/debug_info.cpp\<close>, \<open>ast_debug_info_helper.cpp\<close>). The 64-bit build with the Itanium ABI
  (\<open>DAS_NON_POD_PADDING\<close> 0). A \<open>uint64_t\<close> is an \<open>int\<close> with its wrap-around written out; run-time sizes are
  \<open>int\<close>, whose overflow C++ leaves undefined and the model does not have. Behind a failed
  \<open>DAS_VERIFYF\<close> the process is gone; the tables give the value of the \<open>return\<close> that stands there.
\<close>

section \<open>Basic types\<close>

fun getTypeBaseSize :: "das_type \<Rightarrow> int" where
  "getTypeBaseSize anyArgument = 16"
| "getTypeBaseSize tPointer = 8"
| "getTypeBaseSize tIterator = 8"
| "getTypeBaseSize tHandle = 8"
| "getTypeBaseSize tString = 8"
| "getTypeBaseSize tBool = 1"
| "getTypeBaseSize tInt8 = 1"
| "getTypeBaseSize tUInt8 = 1"
| "getTypeBaseSize tInt16 = 2"
| "getTypeBaseSize tUInt16 = 2"
| "getTypeBaseSize tInt64 = 8"
| "getTypeBaseSize tUInt64 = 8"
| "getTypeBaseSize tEnumeration = 4"
| "getTypeBaseSize tEnumeration8 = 1"
| "getTypeBaseSize tEnumeration16 = 2"
| "getTypeBaseSize tEnumeration64 = 8"
| "getTypeBaseSize tInt = 4"
| "getTypeBaseSize tInt2 = 8"
| "getTypeBaseSize tInt3 = 12"
| "getTypeBaseSize tInt4 = 16"
| "getTypeBaseSize tUInt = 4"
| "getTypeBaseSize tBitfield = 4"
| "getTypeBaseSize tBitfield8 = 1"
| "getTypeBaseSize tBitfield16 = 2"
| "getTypeBaseSize tBitfield64 = 8"
| "getTypeBaseSize tUInt2 = 8"
| "getTypeBaseSize tUInt3 = 12"
| "getTypeBaseSize tUInt4 = 16"
| "getTypeBaseSize tFloat = 4"
| "getTypeBaseSize tFloat2 = 8"
| "getTypeBaseSize tFloat3 = 12"
| "getTypeBaseSize tFloat4 = 16"
| "getTypeBaseSize tDouble = 8"
| "getTypeBaseSize tRange = 8"
| "getTypeBaseSize tURange = 8"
| "getTypeBaseSize tRange64 = 16"
| "getTypeBaseSize tURange64 = 16"
| "getTypeBaseSize tArray = 40"
| "getTypeBaseSize tTable = 64"
| "getTypeBaseSize tVoid = 0"
| "getTypeBaseSize tBlock = 48"
| "getTypeBaseSize tFunction = 8"
| "getTypeBaseSize tLambda = 8"
| "getTypeBaseSize tStructure = 0"
| "getTypeBaseSize tTuple = 0"
| "getTypeBaseSize tVariant = 0"
| "getTypeBaseSize fakeContext = 0"
| "getTypeBaseSize fakeLineInfo = 0"
| "getTypeBaseSize aliasType = 0"
| "getTypeBaseSize option = 0"
| "getTypeBaseSize autoinfer = 0"
| "getTypeBaseSize _ = 0"

fun getTypeBaseAlign :: "das_type \<Rightarrow> int" where
  "getTypeBaseAlign anyArgument = 16"
| "getTypeBaseAlign tPointer = 8"
| "getTypeBaseAlign tIterator = 8"
| "getTypeBaseAlign tHandle = 8"
| "getTypeBaseAlign tString = 8"
| "getTypeBaseAlign tBool = 1"
| "getTypeBaseAlign tInt8 = 1"
| "getTypeBaseAlign tUInt8 = 1"
| "getTypeBaseAlign tInt16 = 2"
| "getTypeBaseAlign tUInt16 = 2"
| "getTypeBaseAlign tInt64 = 8"
| "getTypeBaseAlign tUInt64 = 8"
| "getTypeBaseAlign tEnumeration = 4"
| "getTypeBaseAlign tEnumeration8 = 1"
| "getTypeBaseAlign tEnumeration16 = 2"
| "getTypeBaseAlign tEnumeration64 = 8"
| "getTypeBaseAlign tInt = 4"
| "getTypeBaseAlign tInt2 = 4"
| "getTypeBaseAlign tInt3 = 4"
| "getTypeBaseAlign tInt4 = 4"
| "getTypeBaseAlign tUInt = 4"
| "getTypeBaseAlign tBitfield = 4"
| "getTypeBaseAlign tBitfield8 = 1"
| "getTypeBaseAlign tBitfield16 = 2"
| "getTypeBaseAlign tBitfield64 = 8"
| "getTypeBaseAlign tUInt2 = 4"
| "getTypeBaseAlign tUInt3 = 4"
| "getTypeBaseAlign tUInt4 = 4"
| "getTypeBaseAlign tFloat = 4"
| "getTypeBaseAlign tFloat2 = 4"
| "getTypeBaseAlign tFloat3 = 4"
| "getTypeBaseAlign tFloat4 = 4"
| "getTypeBaseAlign tDouble = 8"
| "getTypeBaseAlign tRange = 4"
| "getTypeBaseAlign tURange = 4"
| "getTypeBaseAlign tRange64 = 8"
| "getTypeBaseAlign tURange64 = 8"
| "getTypeBaseAlign tArray = 8"
| "getTypeBaseAlign tTable = 8"
| "getTypeBaseAlign tVoid = 1"
| "getTypeBaseAlign tBlock = 8"
| "getTypeBaseAlign tFunction = 8"
| "getTypeBaseAlign tLambda = 8"
| "getTypeBaseAlign tStructure = 1"
| "getTypeBaseAlign tTuple = 1"
| "getTypeBaseAlign tVariant = 1"
| "getTypeBaseAlign fakeContext = 1"
| "getTypeBaseAlign fakeLineInfo = 1"
| "getTypeBaseAlign aliasType = 0"
| "getTypeBaseAlign option = 0"
| "getTypeBaseAlign autoinfer = 0"
| "getTypeBaseAlign _ = 1"

text \<open>\<open>(size + al) & ~al\<close>, in \<open>int\<close> and in \<open>uint64_t\<close> (where \<open>al\<close> is an \<open>int\<close>).\<close>

definition round_up :: "int \<Rightarrow> int \<Rightarrow> int" where
  "round_up siz al = (siz + al) AND NOT al"

definition round_up64 :: "int \<Rightarrow> int \<Rightarrow> int" where
  "round_up64 siz al = ((siz + al) mod 2 ^ 64) AND NOT al"

text \<open>\<open>(int) (size<=0x7fffffff ? size : 1)\<close>\<close>

definition clamp_size :: "int \<Rightarrow> int" where
  "clamp_size siz = (if siz \<le> 0x7fffffff then siz else 1)"

text \<open>\<open>int(x)\<close> of a \<open>uint64_t\<close>\<close>

definition to_int32 :: "int \<Rightarrow> int" where
  "to_int32 x = (x + 2 ^ 31) mod 2 ^ 32 - 2 ^ 31"

section \<open>Alignment\<close>

text \<open>
  \<open>n\<close> bounds the structures entered on a path and \<open>g\<close> holds the structures whose \<open>circularGuard\<close> is set.
\<close>

function getAlignOf :: "env \<Rightarrow> nat \<Rightarrow> nat set \<Rightarrow> type_decl \<Rightarrow> int"
  and Structure_getAlignOf :: "env \<Rightarrow> nat \<Rightarrow> nat set \<Rightarrow> nat \<Rightarrow> int" where
  "getAlignOf E n g t =
    (if baseType t = tFixedArray then (case firstType t of Some u \<Rightarrow> getAlignOf E n g u | None \<Rightarrow> 1)
     else if baseType t = tHandle then int (an_alignOf (ann_of E t))
     else if baseType t = tStructure then
       let s = the (structType t) in if \<not> sd_circular (struct_of E s) then Structure_getAlignOf E n g s else 0
     else if baseType t = tTuple then fold (\<lambda>u align. max (getAlignOf E n g u) align) (argTypes t) 1
     else if baseType t = tVariant then fold (\<lambda>u align. max (getAlignOf E n g u) align) (argTypes t) (getTypeBaseAlign tInt)
     else if isEnumT t then getTypeBaseAlign (case enumType t of Some e \<Rightarrow> e_enums E e | None \<Rightarrow> tInt)
     else getTypeBaseAlign (baseType t))"
| "Structure_getAlignOf E n g s = (if s \<in> g then 1 else case n of 0 \<Rightarrow> 1 | Suc m \<Rightarrow>
     fold (\<lambda>fd align. max (getAlignOf E m (insert s g) (fd_type fd)) align) (sd_fields (struct_of E s)) 1)"
  by pat_completeness auto
termination
  by (relation "measures [case_sum (\<lambda>(_, n, _, _). n) (\<lambda>(_, n, _, _). n), case_sum (\<lambda>(_, _, _, t). size t) (\<lambda>_. 0)]")
    (auto intro: parts_size)

declare getAlignOf.simps [simp del] Structure_getAlignOf.simps [simp del]

definition getTupleAlign :: "env \<Rightarrow> nat \<Rightarrow> nat set \<Rightarrow> type_decl \<Rightarrow> int" where
  "getTupleAlign E n g t = fold (\<lambda>u align. max (getAlignOf E n g u) align) (argTypes t) 1"

definition getVariantAlign :: "env \<Rightarrow> nat \<Rightarrow> nat set \<Rightarrow> type_decl \<Rightarrow> int" where
  "getVariantAlign E n g t = fold (\<lambda>u align. max (getAlignOf E n g u) align) (argTypes t) (getTypeBaseAlign tInt)"

section \<open>Size\<close>

fun getCountOf64 :: "type_decl \<Rightarrow> int" where
  "getCountOf64 t = (if baseType t = tFixedArray then
     fold (\<lambda>u siz. (fixedDim t mod 2 ^ 64) * getCountOf64 u mod 2 ^ 64) (opt_list (firstType t)) (fixedDim t mod 2 ^ 64) else 1)"

declare getCountOf64.simps [simp del]

definition findField :: "env \<Rightarrow> nat \<Rightarrow> string \<Rightarrow> field_decl option" where
  "findField E s na = List.find (\<lambda>fd. fd_name fd = na) (sd_fields (struct_of E s))"

definition findFieldParent :: "env \<Rightarrow> nat \<Rightarrow> string \<Rightarrow> nat option" where
  "findFieldParent E s na =
    (case sd_parent (struct_of E s) of
       Some p \<Rightarrow> if findField E p na \<noteq> None then Some p else if findField E s na \<noteq> None then Some s else None
     | None \<Rightarrow> if findField E s na \<noteq> None then Some s else None)"

text \<open>
  One turn of the loop over the fields, in \<open>Structure::getSizeOf64\<close> and in \<open>InferTypes\<close>: a structure
  laid out as C++ starts the fields of another class behind the previous one; then the offset of
  the field is rounded up.
\<close>

definition place_field :: "env \<Rightarrow> nat \<Rightarrow> (type_decl \<Rightarrow> int) \<Rightarrow> (nat \<Rightarrow> int) \<Rightarrow> field_decl \<Rightarrow> int \<times> nat option \<Rightarrow> int \<times> nat option" where
  "place_field E s alignOf parentSize fd = (\<lambda>(siz, cppLayoutParent).
    let al = alignOf (fd_type fd) - 1;
        fp = findFieldParent E s (fd_name fd);
        (siz, cppLayoutParent) =
          (if sd_cppLayout (struct_of E s) \<and> fp \<noteq> cppLayoutParent then
             (if \<not> sd_cppLayoutNotPod (struct_of E s) then (case cppLayoutParent of Some p \<Rightarrow> parentSize p | None \<Rightarrow> 0) else siz, fp)
           else (siz, cppLayoutParent))
    in (round_up64 siz al, cppLayoutParent))"

function getBaseSizeOf64 :: "env \<Rightarrow> nat \<Rightarrow> nat set \<Rightarrow> type_decl \<Rightarrow> int"
  and Structure_getSizeOf64 :: "env \<Rightarrow> nat \<Rightarrow> nat set \<Rightarrow> nat \<Rightarrow> int" where
  "getBaseSizeOf64 E n g t =
    (if baseType t = tFixedArray then (case firstType t of Some u \<Rightarrow> getBaseSizeOf64 E n g u | None \<Rightarrow> 0)
     else if baseType t = tHandle then int (an_sizeOf (ann_of E t))
     else if baseType t = tStructure then
       let s = the (structType t) in if \<not> sd_circular (struct_of E s) then Structure_getSizeOf64 E n g s else 0
     else if baseType t = tTuple then
       round_up64 (fold (\<lambda>u siz. (round_up64 siz (getAlignOf E n g u - 1) + getBaseSizeOf64 E n g u * getCountOf64 u mod 2 ^ 64) mod 2 ^ 64)
         (argTypes t) 0) (getTupleAlign E n g t - 1)
     else if baseType t = tVariant then
       let al = getVariantAlign E n g t - 1 in
       round_up64 (fold (\<lambda>u maxSize. max ((round_up (getTypeBaseSize tInt) al mod 2 ^ 64 + getBaseSizeOf64 E n g u * getCountOf64 u mod 2 ^ 64) mod 2 ^ 64) maxSize)
         (argTypes t) 0) al
     else if isEnumT t then getTypeBaseSize (case enumType t of Some e \<Rightarrow> e_enums E e | None \<Rightarrow> tInt)
     else getTypeBaseSize (baseType t))"
| "Structure_getSizeOf64 E n g s = (if s \<in> g then 1 else case n of 0 \<Rightarrow> 1 | Suc m \<Rightarrow>
     let g1 = insert s g;
         (siz, _) = fold (\<lambda>fd placed.
           case place_field E s (getAlignOf E m g1) (\<lambda>p. Structure_getSizeOf64 E m g1 p) fd placed of
             (siz, cppLayoutParent) \<Rightarrow>
               ((siz + getBaseSizeOf64 E m g1 (fd_type fd) * getCountOf64 (fd_type fd) mod 2 ^ 64) mod 2 ^ 64, cppLayoutParent))
           (sd_fields (struct_of E s)) (0, None)
     in round_up64 siz (Structure_getAlignOf E n g s - 1))"
  by pat_completeness auto
termination
  by (relation "measures [case_sum (\<lambda>(_, n, _, _). n) (\<lambda>(_, n, _, _). n), case_sum (\<lambda>(_, _, _, t). size t) (\<lambda>_. 0)]")
    (auto intro: parts_size)

declare getBaseSizeOf64.simps [simp del] Structure_getSizeOf64.simps [simp del]

definition getSizeOf64_in :: "env \<Rightarrow> nat \<Rightarrow> nat set \<Rightarrow> type_decl \<Rightarrow> int" where
  "getSizeOf64_in E n g t = getBaseSizeOf64 E n g t * getCountOf64 t mod 2 ^ 64"

text \<open>Entered with no guard set.\<close>

abbreviation all_structs :: "env \<Rightarrow> nat" where
  "all_structs E \<equiv> length (e_structs E)"

definition alignOf :: "env \<Rightarrow> type_decl \<Rightarrow> int" where
  "alignOf E t = getAlignOf E (all_structs E) {} t"

definition getSizeOf64 :: "env \<Rightarrow> type_decl \<Rightarrow> int" where
  "getSizeOf64 E t = getSizeOf64_in E (all_structs E) {} t"

definition getSizeOf :: "env \<Rightarrow> type_decl \<Rightarrow> int" where
  "getSizeOf E t = clamp_size (getSizeOf64 E t)"

definition getBaseSizeOf :: "env \<Rightarrow> type_decl \<Rightarrow> int" where
  "getBaseSizeOf E t = clamp_size (getBaseSizeOf64 E (all_structs E) {} t)"

definition getCountOf :: "type_decl \<Rightarrow> int" where
  "getCountOf t = clamp_size (getCountOf64 t)"

definition getStride64 :: "env \<Rightarrow> type_decl \<Rightarrow> int" where
  "getStride64 E t = (if baseType t = tFixedArray then (case firstType t of Some u \<Rightarrow> getSizeOf64 E u | None \<Rightarrow> 0)
     else getBaseSizeOf64 E (all_structs E) {} t)"

definition getStride :: "env \<Rightarrow> type_decl \<Rightarrow> int" where
  "getStride E t = clamp_size (getStride64 E t)"

definition Structure_getSizeOf :: "env \<Rightarrow> nat \<Rightarrow> int" where
  "Structure_getSizeOf E s = clamp_size (Structure_getSizeOf64 E (all_structs E) {} s)"

section \<open>Offsets\<close>

text \<open>The loop of both \<open>getTupleFieldOffset\<close> functions, over the alignments and sizes of the fields.\<close>

fun offset_loop :: "(int \<times> int) list \<Rightarrow> int \<Rightarrow> nat \<Rightarrow> int" where
  "offset_loop [] siz index = -1"
| "offset_loop ((align, sz) # rest) siz index =
    (let siz = round_up siz (align - 1) in
     case index of 0 \<Rightarrow> siz | Suc i \<Rightarrow> offset_loop rest (siz + sz) i)"

definition getTupleFieldOffset :: "env \<Rightarrow> type_decl \<Rightarrow> nat \<Rightarrow> int" where
  "getTupleFieldOffset E t index = offset_loop (map (\<lambda>u. (alignOf E u, getSizeOf E u)) (argTypes t)) 0 index"

definition getTupleSize :: "env \<Rightarrow> type_decl \<Rightarrow> int" where
  "getTupleSize E t = clamp_size (getBaseSizeOf64 E (all_structs E) {} t)"

definition getVariantFieldOffset :: "env \<Rightarrow> type_decl \<Rightarrow> nat \<Rightarrow> int" where
  "getVariantFieldOffset E t index = round_up (getTypeBaseSize tInt) (getVariantAlign E (all_structs E) {} t - 1)"

text \<open>
  \<open>InferTypes::preVisit\<close> and \<open>visitStructureField\<close>: the offsets written into the fields of a structure
  whose field types are fully inferred. \<open>decl.offset = int(fieldOffset)\<close>.
\<close>

fun field_offsets :: "env \<Rightarrow> nat \<Rightarrow> field_decl list \<Rightarrow> int \<times> nat option \<Rightarrow> int list" where
  "field_offsets E s [] placed = []"
| "field_offsets E s (decl # rest) placed =
    (case place_field E s (alignOf E) (Structure_getSizeOf64 E (all_structs E) {}) decl placed of
       (fieldOffset, cppLayoutParent) \<Rightarrow>
         to_int32 fieldOffset # field_offsets E s rest ((fieldOffset + getSizeOf64 E (fd_type decl)) mod 2 ^ 64, cppLayoutParent))"

definition structure_offsets :: "env \<Rightarrow> nat \<Rightarrow> int list" where
  "structure_offsets E s = field_offsets E s (sd_fields (struct_of E s)) (0, None)"

end
