(* ===== verification/LayoutInfo.thy ===== *)
theory LayoutInfo
  imports Layout
begin

text \<open>
  The run-time description of types: \<open>TypeInfo\<close> and \<open>StructInfo\<close> as far as the layout functions of
  \<open>simulate/debug_info.cpp\<close> read them, and how \<open>DebugInfoHelper\<close> (\<open>ast_debug_info_helper.cpp\<close>) makes
  them of the compiler's types. Structures are named by their index, so the descriptions form a
  table; the cache by mangled name that \<open>makeTypeInfo\<close> keeps shares equal descriptions and is left out.
  The layout functions enter structures without a guard: \<open>n\<close> bounds the structures entered on a path,
  and \<open>None\<close> is a call that goes deeper.
\<close>

datatype type_info = TypeInfo
  (ti_type: das_type)
  (ti_dim: "int list")
  (ti_structType: "nat option")
  (ti_annotation: "nat option")
  (ti_argTypes: "type_info list")

record struct_info =
  si_size :: int
  si_fields :: "(type_info \<times> int) list"

lemma ti_argTypes_size [termination_simp]: "u \<in> set (ti_argTypes t) \<Longrightarrow> size u < size t"
  by (cases t) (auto simp: less_Suc_eq_le trans_le_add2 trans_le_add1 dest!: size_list_estimation'[where f = size, OF _ order_refl])

lemma ti_size_pos: "0 < size (t::type_info)"
  by (cases t) simp

section \<open>Making descriptions\<close>

text \<open>The chain of fixed arrays in front of an element type; a chain without an element is asserted away.\<close>

fun chain_dims :: "type_decl \<Rightarrow> int list" where
  "chain_dims t = (if baseType t = tFixedArray then fixedDim t # concat (map chain_dims (opt_list (firstType t))) else [])"

fun chain_elem :: "type_decl \<Rightarrow> type_decl" where
  "chain_elem t = (if baseType t = tFixedArray then (case firstType t of Some u \<Rightarrow> chain_elem u | None \<Rightarrow> t) else t)"

declare chain_dims.simps [simp del] chain_elem.simps [simp del]

lemma chain_elem_size: "size (chain_elem t) \<le> size t"
proof (induction t rule: chain_elem.induct)
  case (1 t)
  show ?case
  proof (cases "baseType t = tFixedArray \<and> firstType t \<noteq> None")
    case True
    then obtain u where u: "firstType t = Some u" by blast
    with 1 True have "size (chain_elem u) \<le> size u" by simp
    also have "size u < size t" using u by (rule firstType_size)
    finally show ?thesis using True u by (subst chain_elem.simps) simp
  qed (subst chain_elem.simps, auto)
qed

lemma chain_args_size [termination_simp]: "u \<in> set (argTypes (chain_elem t)) \<Longrightarrow> size u < size t"
  using argTypes_size chain_elem_size by (meson less_le_trans)

text \<open>\<open>info->dim[i] = dims[i]\<close> stores into a \<open>uint32_t\<close>.\<close>

fun makeTypeInfo :: "type_decl \<Rightarrow> type_info" where
  "makeTypeInfo t = (let elemType = chain_elem t in
     TypeInfo (baseType elemType) (map (\<lambda>d. d mod 2 ^ 32) (chain_dims t))
       (if baseType elemType = tStructure then structType elemType else None)
       (if baseType elemType = tStructure \<or> isEnumT elemType then None else annotation elemType)
       (map makeTypeInfo (argTypes elemType)))"

declare makeTypeInfo.simps [simp del]

definition makeVariableDebugInfo :: "field_decl \<Rightarrow> int \<Rightarrow> type_info \<times> int" where
  "makeVariableDebugInfo var offset = (makeTypeInfo (fd_type var), offset)"

definition makeStructureDebugInfo :: "env \<Rightarrow> nat \<Rightarrow> struct_info" where
  "makeStructureDebugInfo E s = \<lparr>si_size = Structure_getSizeOf E s,
     si_fields = map2 makeVariableDebugInfo (sd_fields (struct_of E s)) (structure_offsets E s)\<rparr>"

definition struct_infos :: "env \<Rightarrow> struct_info list" where
  "struct_infos E = map (makeStructureDebugInfo E) [0..<all_structs E]"

section \<open>Alignment\<close>

function info_getTypeAlign :: "(nat \<Rightarrow> ann_decl) \<Rightarrow> struct_info list \<Rightarrow> nat \<Rightarrow> type_info \<Rightarrow> int option"
  and info_getStructAlign :: "(nat \<Rightarrow> ann_decl) \<Rightarrow> struct_info list \<Rightarrow> nat \<Rightarrow> nat \<Rightarrow> int option" where
  "info_getTypeAlign A I n ti =
    (if ti_type ti = tHandle then Some (int (an_alignOf (A (the (ti_annotation ti)))))
     else if ti_type ti = tStructure then info_getStructAlign A I n (the (ti_structType ti))
     else if ti_type ti = tTuple then
       map_option (\<lambda>as. fold (\<lambda>a al. max al a) as 0) (those (map (info_getTypeAlign A I n) (ti_argTypes ti)))
     else if ti_type ti = tVariant then
       map_option (\<lambda>as. fold (\<lambda>a al. max al a) as (getTypeBaseAlign tInt)) (those (map (info_getTypeAlign A I n) (ti_argTypes ti)))
     else Some (getTypeBaseAlign (ti_type ti)))"
| "info_getStructAlign A I n s = (case n of 0 \<Rightarrow> None | Suc m \<Rightarrow>
     map_option (\<lambda>as. fold (\<lambda>a al. max al a) as 0) (those (map (\<lambda>v. info_getTypeAlign A I m (fst v)) (si_fields (I ! s)))))"
  by pat_completeness auto
termination
  by (relation "measures [case_sum (\<lambda>(_, _, n, _). n) (\<lambda>(_, _, n, _). n), case_sum (\<lambda>(_, _, _, t). size t) (\<lambda>_. 0)]")
    (auto intro: ti_argTypes_size simp: ti_size_pos)

declare info_getTypeAlign.simps [simp del] info_getStructAlign.simps [simp del]

definition info_getTupleAlign :: "(nat \<Rightarrow> ann_decl) \<Rightarrow> struct_info list \<Rightarrow> nat \<Rightarrow> type_info \<Rightarrow> int option" where
  "info_getTupleAlign A I n ti = map_option (\<lambda>as. fold (\<lambda>a al. max al a) as 0) (those (map (info_getTypeAlign A I n) (ti_argTypes ti)))"

definition info_getVariantAlign :: "(nat \<Rightarrow> ann_decl) \<Rightarrow> struct_info list \<Rightarrow> nat \<Rightarrow> type_info \<Rightarrow> int option" where
  "info_getVariantAlign A I n ti =
    map_option (\<lambda>as. fold (\<lambda>a al. max al a) as (getTypeBaseAlign tInt)) (those (map (info_getTypeAlign A I n) (ti_argTypes ti)))"

section \<open>Size\<close>

text \<open>\<open>size *= info->dim[i]\<close> multiplies as \<open>uint32_t\<close> and converts back to \<open>int\<close>.\<close>

definition getDimSize :: "type_info \<Rightarrow> int" where
  "getDimSize ti = fold (\<lambda>d siz. to_int32 (siz * d)) (ti_dim ti) 1"

fun tuple_end :: "(int \<times> int) list \<Rightarrow> int \<Rightarrow> int" where
  "tuple_end [] siz = siz"
| "tuple_end ((align, sz) # rest) siz = tuple_end rest (round_up siz (align - 1) + sz)"

definition pair_some :: "'a option \<Rightarrow> 'b option \<Rightarrow> ('a \<times> 'b) option" where
  "pair_some x y = (case x of None \<Rightarrow> None | Some a \<Rightarrow> map_option (Pair a) y)"

lemma pair_some_simps [simp]: "pair_some (Some a) (Some b) = Some (a, b)" "pair_some None y = None" "pair_some x None = None"
  by (auto simp: pair_some_def split: option.split)

fun info_getTypeSize :: "(nat \<Rightarrow> ann_decl) \<Rightarrow> struct_info list \<Rightarrow> nat \<Rightarrow> type_info \<Rightarrow> int option" where
  "info_getTypeSize A I n ti = map_option (\<lambda>b. getDimSize ti * b)
    (if ti_type ti = tHandle then Some (int (an_sizeOf (A (the (ti_annotation ti)))))
     else if ti_type ti = tStructure then Some (si_size (I ! the (ti_structType ti)))
     else if ti_type ti = tTuple then
       map_option (\<lambda>(ps, al). round_up (tuple_end ps 0) (al - 1))
         (pair_some (those (map (\<lambda>a. pair_some (info_getTypeAlign A I n a) (info_getTypeSize A I n a)) (ti_argTypes ti))) (info_getTupleAlign A I n ti))
     else if ti_type ti = tVariant then
       map_option (\<lambda>(szs, al). round_up (fold (\<lambda>sz maxSize. max (round_up (getTypeBaseSize tInt) (al - 1) + sz) maxSize) szs 0) (al - 1))
         (pair_some (those (map (info_getTypeSize A I n) (ti_argTypes ti))) (info_getVariantAlign A I n ti))
     else Some (getTypeBaseSize (ti_type ti)))"

declare info_getTypeSize.simps [simp del]

section \<open>Offsets\<close>

definition info_getTupleFieldOffset :: "(nat \<Rightarrow> ann_decl) \<Rightarrow> struct_info list \<Rightarrow> nat \<Rightarrow> type_info \<Rightarrow> nat \<Rightarrow> int option" where
  "info_getTupleFieldOffset A I n ti index =
    map_option (\<lambda>ps. offset_loop ps 0 index)
      (those (map (\<lambda>a. pair_some (info_getTypeAlign A I n a) (info_getTypeSize A I n a)) (ti_argTypes ti)))"

definition info_getVariantFieldOffset :: "(nat \<Rightarrow> ann_decl) \<Rightarrow> struct_info list \<Rightarrow> nat \<Rightarrow> type_info \<Rightarrow> nat \<Rightarrow> int option" where
  "info_getVariantFieldOffset A I n ti index =
    map_option (\<lambda>al. round_up (getTypeBaseSize tInt) (al - 1)) (info_getVariantAlign A I n ti)"

end
