(* ===== verification/LayoutArith.thy ===== *)
theory LayoutArith
  imports LayoutInfo
begin

text \<open>
  Rounding up to an alignment that is a power of two, and what it makes of the offsets of a
  sequence of fields: each is aligned and none reaches into the next.
\<close>

section \<open>Powers of two\<close>

definition pow2 :: "int \<Rightarrow> bool" where
  "pow2 a \<longleftrightarrow> (\<exists>k. a = 2 ^ k)"

lemma pow2_numerals [simp]: "pow2 1" "pow2 2" "pow2 4" "pow2 8" "pow2 16"
proof -
  show "pow2 1" unfolding pow2_def by (rule exI[of _ 0]) simp
  show "pow2 2" unfolding pow2_def by (rule exI[of _ 1]) simp
  show "pow2 4" unfolding pow2_def by (rule exI[of _ 2]) simp
  show "pow2 8" unfolding pow2_def by (rule exI[of _ 3]) simp
  show "pow2 16" unfolding pow2_def by (rule exI[of _ 4]) simp
qed

lemma pow2_pos: "pow2 a \<Longrightarrow> 0 < a"
  by (auto simp: pow2_def)

lemma pow2_max: "pow2 a \<Longrightarrow> pow2 b \<Longrightarrow> pow2 (max a b)"
  by (simp add: max_def)

lemma pow2_dvd_max:
  assumes "pow2 a" "pow2 b" shows "a dvd max a b" "b dvd max a b"
proof -
  have "x dvd y" if "pow2 x" "pow2 y" "x \<le> y" for x y :: int
    using that by (auto simp: pow2_def intro!: le_imp_power_dvd)
  then show "a dvd max a b" "b dvd max a b" using assms by (simp_all add: max_def)
qed

lemma pow2_fold_max_all:
  "pow2 x \<Longrightarrow> \<forall>a\<in>set as. pow2 (f a) \<Longrightarrow>
    pow2 (fold (\<lambda>a al. max (f a) al) as x) \<and> x dvd fold (\<lambda>a al. max (f a) al) as x \<and>
    (\<forall>a\<in>set as. f a dvd fold (\<lambda>a al. max (f a) al) as x)"
proof (induction as arbitrary: x)
  case (Cons a as)
  have p: "pow2 (max (f a) x)" using Cons.prems by (simp add: pow2_max)
  have d: "x dvd max (f a) x" "f a dvd max (f a) x" using Cons.prems pow2_dvd_max by auto
  show ?case using Cons.IH[OF p] Cons.prems d by (auto intro: dvd_trans)
qed simp

lemmas pow2_fold_max = pow2_fold_max_all[THEN conjunct1] pow2_fold_max_all[THEN conjunct2, THEN conjunct1]
  pow2_fold_max_all[THEN conjunct2, THEN conjunct2, rule_format]

section \<open>Rounding up\<close>

lemma round_up_pow2: "round_up x (2 ^ k - 1) = (x + (2 ^ k - 1)) div 2 ^ k * 2 ^ k"
proof -
  have "y AND NOT (2 ^ k - 1) = push_bit k (drop_bit k y)" for y :: int
    by (rule bit_eqI) (auto simp: bit_simps simp flip: mask_eq_exp_minus_1)
  then show ?thesis by (simp add: round_up_def push_bit_eq_mult drop_bit_eq_div)
qed

lemma round_up_bounds:
  assumes "pow2 a"
  shows "x \<le> round_up x (a - 1)" "round_up x (a - 1) < x + a" "a dvd round_up x (a - 1)"
proof -
  obtain k where a: "a = 2 ^ k" using assms by (auto simp: pow2_def)
  have p: "0 < a" using a by simp
  have e: "round_up x (a - 1) = (x + (a - 1)) - (x + (a - 1)) mod a"
    unfolding a round_up_pow2 by (simp add: minus_mod_eq_div_mult)
  have "0 \<le> (x + (a - 1)) mod a" "(x + (a - 1)) mod a < a" using p by simp_all
  then show "x \<le> round_up x (a - 1)" "round_up x (a - 1) < x + a" using e by simp_all
  show "a dvd round_up x (a - 1)" unfolding a round_up_pow2 by simp
qed

lemma round_up_nonneg: "0 \<le> x \<Longrightarrow> pow2 a \<Longrightarrow> 0 \<le> round_up x (a - 1)"
  using round_up_bounds(1) by (meson order_trans)

lemma round_up64_eq:
  assumes "0 \<le> x" "0 \<le> al" "x + al < 2 ^ 64"
  shows "round_up64 x al = round_up x al"
  using assms by (simp add: round_up64_def round_up_def)

lemma round_up64_nonneg: "0 \<le> round_up64 x al"
  by (simp add: round_up64_def)

section \<open>A sequence of fields\<close>

abbreviation fields_ok :: "(int \<times> int) list \<Rightarrow> bool" where
  "fields_ok ps \<equiv> \<forall>(a, s)\<in>set ps. pow2 a \<and> 0 \<le> s"

lemma tuple_end_bounds:
  "fields_ok ps \<Longrightarrow> x \<le> tuple_end ps x \<and> tuple_end ps x \<le> x + (\<Sum>(a, s)\<leftarrow>ps. a + s)"
proof (induction ps arbitrary: x)
  case (Cons p ps)
  obtain a s where p: "p = (a, s)" by force
  have "pow2 a" "0 \<le> s" using Cons.prems p by auto
  then show ?case using Cons.IH[of "round_up x (a - 1) + s"] Cons.prems round_up_bounds[of a x] p by auto
qed simp

lemma offset_bounds:
  "fields_ok ps \<Longrightarrow> i < length ps \<Longrightarrow>
    x \<le> offset_loop ps x i \<and> fst (ps ! i) dvd offset_loop ps x i \<and> offset_loop ps x i + snd (ps ! i) \<le> tuple_end ps x"
proof (induction ps arbitrary: x i)
  case (Cons p ps)
  obtain a s where p: "p = (a, s)" by force
  have as: "pow2 a" "0 \<le> s" using Cons.prems p by auto
  note b = round_up_bounds[OF as(1), of x] and e = tuple_end_bounds[of ps "round_up x (a - 1) + s"]
  show ?case
  proof (cases i)
    case 0 then show ?thesis using b e p Cons.prems by auto
  next
    case (Suc i') then show ?thesis using Cons.IH[of i' "round_up x (a - 1) + s"] Cons.prems b as p by auto
  qed
qed simp

lemma offsets_apart:
  "fields_ok ps \<Longrightarrow> i < j \<Longrightarrow> j < length ps \<Longrightarrow> offset_loop ps x i + snd (ps ! i) \<le> offset_loop ps x j"
proof (induction ps arbitrary: x i j)
  case (Cons p ps)
  obtain a s where p: "p = (a, s)" by force
  obtain j' where j: "j = Suc j'" using Cons.prems(2) by (cases j) auto
  show ?case
  proof (cases i)
    case 0 then show ?thesis using offset_bounds[of ps j' "round_up x (a - 1) + s"] Cons.prems p j by auto
  next
    case (Suc i') then show ?thesis using Cons.IH[of i' j' "round_up x (a - 1) + s"] Cons.prems p j by auto
  qed
qed simp

section \<open>The 64-bit loops\<close>

lemma tuple_end64:
  assumes "fields_ok ps" "0 \<le> x" "x + (\<Sum>(a, s)\<leftarrow>ps. a + s) < 2 ^ 64"
  shows "fold (\<lambda>(a, s) siz. (round_up64 siz (a - 1) + s) mod 2 ^ 64) ps x = tuple_end ps x"
  using assms
proof (induction ps arbitrary: x)
  case (Cons p ps)
  obtain a s where p: "p = (a, s)" by force
  have as: "pow2 a" "0 \<le> s" "fields_ok ps" using Cons.prems p by auto
  note b = round_up_bounds[OF as(1), of x] and a0 = pow2_pos[OF as(1)]
  have nn: "0 \<le> (\<Sum>(a, s)\<leftarrow>ps. a + s)" using tuple_end_bounds[OF as(3), of 0] by simp
  have e: "round_up64 x (a - 1) = round_up x (a - 1)" using Cons.prems a0 nn as p by (intro round_up64_eq) auto
  have m: "(round_up x (a - 1) + s) mod 2 ^ 64 = round_up x (a - 1) + s" using Cons.prems b nn as p by auto
  show ?case using Cons.IH[OF as(3), of "round_up x (a - 1) + s"] Cons.prems b as p by (simp add: e m[simplified])
qed simp

end
