(* ===== verification/LayoutProps.thy ===== *)
theory LayoutProps
  imports LayoutArith
begin

text \<open>
  Types that have a layout: the structures are nested without cycles, every component is inferred,
  and every alignment is a power of two. The guard and the depth do not matter for them, so their
  sizes and alignments satisfy the plain recursive equations.
\<close>

definition getEnumType :: "das_type \<Rightarrow> das_type" where
  "getEnumType b =
    (if b \<in> {tInt8, tUInt8} then tEnumeration8
     else if b \<in> {tInt16, tUInt16} then tEnumeration16
     else if b \<in> {tInt, tUInt} then tEnumeration
     else if b \<in> {tInt64, tUInt64} then tEnumeration64
     else das_type.none)"

text \<open>\<open>P\<close> says which structures may occur inline.\<close>

fun laid :: "env \<Rightarrow> (nat \<Rightarrow> bool) \<Rightarrow> type_decl \<Rightarrow> bool" where
  "laid E P t =
    (if baseType t = tFixedArray then (case firstType t of None \<Rightarrow> False | Some u \<Rightarrow> laid E P u)
     else if baseType t = tHandle then annotation t \<noteq> None \<and> pow2 (int (an_alignOf (ann_of E t)))
     else if baseType t = tStructure then (case structType t of None \<Rightarrow> False | Some s \<Rightarrow> P s)
     else if baseType t = tTuple then argTypes t \<noteq> [] \<and> list_all (laid E P) (argTypes t)
     else if baseType t = tVariant then list_all (laid E P) (argTypes t)
     else if isEnumT t then
       (case enumType t of None \<Rightarrow> baseType t = tEnumeration
        | Some e \<Rightarrow> baseType t = getEnumType (e_enums E e))
     else baseType t \<notin> {aliasType, das_type.option, autoinfer})"

declare laid.simps [simp del]

definition layered :: "env \<Rightarrow> (nat \<Rightarrow> nat) \<Rightarrow> bool" where
  "layered E r \<longleftrightarrow> (\<forall>s<all_structs E. r s < all_structs E \<and> \<not> sd_circular (struct_of E s) \<and>
     (\<forall>fd\<in>set (sd_fields (struct_of E s)). laid E (\<lambda>s'. s' < all_structs E \<and> r s' < r s) (fd_type fd)) \<and>
     (case sd_parent (struct_of E s) of None \<Rightarrow> True | Some p \<Rightarrow> p < all_structs E \<and> r p < r s))"

abbreviation below :: "env \<Rightarrow> (nat \<Rightarrow> nat) \<Rightarrow> nat \<Rightarrow> nat \<Rightarrow> bool" where
  "below E r k \<equiv> \<lambda>s. s < all_structs E \<and> r s < k"

lemma laid_mono: "laid E P t \<Longrightarrow> (\<And>s. P s \<Longrightarrow> Q s) \<Longrightarrow> laid E Q t"
proof (induction t rule: measure_induct_rule[of size])
  case (less t)
  have "laid E Q u" if "u \<in> set (argTypes t)" "baseType t \<in> {tTuple, tVariant}" for u
    using less.IH[of u] less.prems argTypes_size that by (auto simp: laid.simps[of E P t] list_all_iff)
  moreover have "laid E Q u" if "firstType t = Some u" "baseType t = tFixedArray" for u
    using less.IH[of u] less.prems firstType_size that by (simp add: laid.simps[of E P t])
  ultimately show ?case using less.prems
    by (auto simp: laid.simps[of E P t] laid.simps[of E Q t] list_all_iff split: option.splits)
qed

lemma laid_cases [consumes 1, case_names array handle struct tuple variant enum basic]:
  assumes "laid E P t"
  obtains u where "baseType t = tFixedArray" "firstType t = Some u" "laid E P u"
  | "baseType t = tHandle" "annotation t \<noteq> None" "pow2 (int (an_alignOf (ann_of E t)))"
  | s where "baseType t = tStructure" "structType t = Some s" "P s"
  | "baseType t = tTuple" "argTypes t \<noteq> []" "list_all (laid E P) (argTypes t)"
  | "baseType t = tVariant" "list_all (laid E P) (argTypes t)"
  | "isEnumT t" "baseType t \<notin> {tFixedArray, tHandle, tStructure, tTuple, tVariant}"
    "case enumType t of None \<Rightarrow> baseType t = tEnumeration | Some e \<Rightarrow> baseType t = getEnumType (e_enums E e)"
  | "\<not> isEnumT t" "baseType t \<notin> {tFixedArray, tHandle, tStructure, tTuple, tVariant, aliasType, das_type.option, autoinfer}"
  using assms unfolding laid.simps[of E P t] by (auto split: if_splits option.splits)

section \<open>Guard and depth\<close>

definition guards_ok :: "(nat \<Rightarrow> nat) \<Rightarrow> nat \<Rightarrow> nat \<times> nat set \<Rightarrow> bool" where
  "guards_ok r k ng \<longleftrightarrow> k \<le> fst ng \<and> (\<forall>s\<in>snd ng. k \<le> r s)"

lemma guards_enter:
  "guards_ok r k (n, g) \<Longrightarrow> r s < k \<Longrightarrow> \<exists>m. n = Suc m \<and> s \<notin> g \<and> guards_ok r (r s) (m, insert s g)"
  by (cases n) (fastforce simp: guards_ok_def)+

lemma fold_cong_inv:
  assumes "I a" "\<And>x a. x \<in> set xs \<Longrightarrow> I a \<Longrightarrow> f x a = g x a \<and> I (g x a)"
  shows "fold f xs a = fold g xs a"
  using assms by (induction xs arbitrary: a) auto

lemma align_stable:
  assumes lay: "layered E r"
  shows "laid E (below E r k) t \<Longrightarrow> guards_ok r k (n, g) \<Longrightarrow> guards_ok r k (n', g') \<Longrightarrow>
    getAlignOf E n g t = getAlignOf E n' g' t"
proof (induction k arbitrary: t n g n' g' rule: less_induct)
  case (less k)
  note outer = less.IH
  have st: "Structure_getAlignOf E n g s = Structure_getAlignOf E n' g' s" if s: "below E r k s" for s
  proof -
    obtain m where m: "n = Suc m" "s \<notin> g" "guards_ok r (r s) (m, insert s g)"
      using guards_enter[OF less.prems(2)] s by blast
    obtain m' where m': "n' = Suc m'" "s \<notin> g'" "guards_ok r (r s) (m', insert s g')"
      using guards_enter[OF less.prems(3)] s by blast
    have "getAlignOf E m (insert s g) (fd_type fd) = getAlignOf E m' (insert s g') (fd_type fd)"
      if "fd \<in> set (sd_fields (struct_of E s))" for fd
      using lay that s by (intro outer[of "r s", OF _ _ m(3) m'(3)]) (auto simp: layered_def)
    then show ?thesis using m m' by (simp add: Structure_getAlignOf.simps cong: fold_cong)
  qed
  show ?case using less.prems(1)
  proof (induction t rule: measure_induct_rule[of size])
    case (less t)
    have first: "getAlignOf E n g u = getAlignOf E n' g' u" if "firstType t = Some u" "baseType t = tFixedArray" for u
      using less that by (auto simp: laid.simps[of E _ t] intro: parts_size)
    have args: "getAlignOf E n g u = getAlignOf E n' g' u" if "u \<in> set (argTypes t)" "baseType t \<in> {tTuple, tVariant}" for u
      using less.IH[of u] less.prems argTypes_size that
      by (auto simp: laid.simps[of E _ t] list_all_iff)
    show ?case using first args st less.prems
      by (auto simp: getAlignOf.simps[of E _ _ t] laid.simps[of E _ t] Let_def split: option.splits cong: fold_cong)
  qed
qed


lemma laid_struct [simp]: "laid E P (new_struct_type s) \<longleftrightarrow> P s"
  by (subst laid.simps) (simp add: new_struct_type_def)

lemma align_struct: "\<not> sd_circular (struct_of E s) \<Longrightarrow> getAlignOf E n g (new_struct_type s) = Structure_getAlignOf E n g s"
  by (subst getAlignOf.simps) (simp add: new_struct_type_def)

lemma place_field_parent:
  assumes "\<forall>p. cp = Some p \<longrightarrow> p = s \<or> sd_parent (struct_of E s) = Some p"
  shows "\<forall>p. snd (place_field E s al par fd (siz, cp)) = Some p \<longrightarrow> p = s \<or> sd_parent (struct_of E s) = Some p"
  using assms by (auto simp: place_field_def Let_def findFieldParent_def split: option.splits if_splits)

lemma size_stable:
  assumes lay: "layered E r"
  shows "laid E (below E r k) t \<Longrightarrow> guards_ok r k (n, g) \<Longrightarrow> guards_ok r k (n', g') \<Longrightarrow>
    getBaseSizeOf64 E n g t = getBaseSizeOf64 E n' g' t"
    and "below E r k s \<Longrightarrow> guards_ok r k (n, g) \<Longrightarrow> guards_ok r k (n', g') \<Longrightarrow>
    Structure_getSizeOf64 E n g s = Structure_getSizeOf64 E n' g' s"
proof (induction k arbitrary: t s n g n' g' rule: less_induct)
  case (less k)
  have st: "Structure_getSizeOf64 E n g s = Structure_getSizeOf64 E n' g' s"
    if s: "below E r k s" and gs: "guards_ok r k (n, g)" "guards_ok r k (n', g')" for s n g n' g'
  proof -
    obtain m where m: "n = Suc m" "s \<notin> g" "guards_ok r (r s) (m, insert s g)"
      using guards_enter[OF gs(1)] s by blast
    obtain m' where m': "n' = Suc m'" "s \<notin> g'" "guards_ok r (r s) (m', insert s g')"
      using guards_enter[OF gs(2)] s by blast
    define g1 g2 where "g1 = insert s g" and "g2 = insert s g'"
    have fd: "laid E (below E r (r s)) (fd_type fd)" if "fd \<in> set (sd_fields (struct_of E s))" for fd
      using lay s that by (auto simp: layered_def)
    have al: "getAlignOf E m g1 (fd_type fd) = getAlignOf E m' g2 (fd_type fd)"
      and sz: "getBaseSizeOf64 E m g1 (fd_type fd) = getBaseSizeOf64 E m' g2 (fd_type fd)"
      if "fd \<in> set (sd_fields (struct_of E s))" for fd
      unfolding g1_def g2_def
      by (rule align_stable[OF lay fd[OF that] m(3) m'(3)])
        (rule less.IH(1)[OF _ fd[OF that] m(3) m'(3)], use s in simp)
    have par: "Structure_getSizeOf64 E m g1 p = Structure_getSizeOf64 E m' g2 p"
      if "p = s \<or> sd_parent (struct_of E s) = Some p" for p
    proof (cases "p = s")
      case False
      then have p: "below E r (r s) p" using that lay s by (auto simp: layered_def)
      show ?thesis unfolding g1_def g2_def by (rule less.IH(2)[OF _ p m(3) m'(3)]) (use s in simp)
    qed (simp add: g1_def g2_def Structure_getSizeOf64.simps)
    have own: "Structure_getAlignOf E n g s = Structure_getAlignOf E n' g' s"
      using align_stable[OF lay, of k "new_struct_type s" n g n' g'] s gs lay by (simp add: layered_def align_struct)
    have place: "place_field E s (getAlignOf E m g1) (Structure_getSizeOf64 E m g1) fd (siz, cp) =
        place_field E s (getAlignOf E m' g2) (Structure_getSizeOf64 E m' g2) fd (siz, cp)"
      if "fd \<in> set (sd_fields (struct_of E s))" "\<forall>p. cp = Some p \<longrightarrow> p = s \<or> sd_parent (struct_of E s) = Some p" for fd siz cp
    proof (cases cp)
      case None show ?thesis by (simp only: place_field_def None al[OF that(1)] prod.case option.case)
    next
      case (Some p)
      show ?thesis by (simp only: place_field_def Some al[OF that(1)] par[OF that(2)[rule_format, OF Some]] prod.case option.case)
    qed
    have loop: "fold (\<lambda>fd placed. case place_field E s (getAlignOf E m g1) (Structure_getSizeOf64 E m g1) fd placed of
             (siz, cp) \<Rightarrow> ((siz + getBaseSizeOf64 E m g1 (fd_type fd) * getCountOf64 (fd_type fd) mod 2 ^ 64) mod 2 ^ 64, cp))
           (sd_fields (struct_of E s)) (0, None) =
      fold (\<lambda>fd placed. case place_field E s (getAlignOf E m' g2) (Structure_getSizeOf64 E m' g2) fd placed of
             (siz, cp) \<Rightarrow> ((siz + getBaseSizeOf64 E m' g2 (fd_type fd) * getCountOf64 (fd_type fd) mod 2 ^ 64) mod 2 ^ 64, cp))
           (sd_fields (struct_of E s)) (0, None)"
    proof (rule fold_cong_inv[where I = "\<lambda>(_, cp). \<forall>p. cp = Some p \<longrightarrow> p = s \<or> sd_parent (struct_of E s) = Some p"], goal_cases)
      case (2 fd placed)
      then obtain siz cp where p: "placed = (siz, cp)" "\<forall>p. cp = Some p \<longrightarrow> p = s \<or> sd_parent (struct_of E s) = Some p" by blast
      note place[OF 2(1) p(2), of siz] sz[OF 2(1)] place_field_parent[OF p(2), of "getAlignOf E m' g2" "Structure_getSizeOf64 E m' g2" fd siz]
      then show ?case unfolding p(1) by (simp add: case_prod_unfold)
    qed simp
    show ?thesis unfolding Structure_getSizeOf64.simps[of E n g s] Structure_getSizeOf64.simps[of E n' g' s] using m m' loop own by (simp add: Let_def g1_def g2_def)
  qed
  { case 2 then show ?case by (rule st) }
  { case 1
    then show ?case
    proof (induction t rule: measure_induct_rule[of size])
      case (less t)
      have first: "getBaseSizeOf64 E n g u = getBaseSizeOf64 E n' g' u" if "firstType t = Some u" "baseType t = tFixedArray" for u
        using less that by (auto simp: laid.simps[of E _ t] intro: parts_size)
      have args: "getBaseSizeOf64 E n g u = getBaseSizeOf64 E n' g' u" "getAlignOf E n g u = getAlignOf E n' g' u"
        if "u \<in> set (argTypes t)" "baseType t \<in> {tTuple, tVariant}" for u
        using less.IH[of u] less.prems argTypes_size that align_stable[OF lay, of k u n g n' g']
        by (auto simp: laid.simps[of E _ t] list_all_iff)
      show ?case using less.prems
      proof (cases rule: laid_cases)
        case array then show ?thesis using first by (simp add: getBaseSizeOf64.simps[of E _ _ t])
      next
        case (struct s) then show ?thesis using st[of s n g n' g'] less.prems by (simp add: getBaseSizeOf64.simps[of E _ _ t] Let_def)
      next
        case tuple
        then show ?thesis using args by (simp add: getBaseSizeOf64.simps[of E _ _ t] getTupleAlign_def cong: fold_cong)
      next
        case variant
        then show ?thesis using args by (simp add: getBaseSizeOf64.simps[of E _ _ t] getVariantAlign_def cong: fold_cong)
      qed (simp_all add: getBaseSizeOf64.simps[of E _ _ t])
    qed }
qed


section \<open>The recursive equations\<close>

lemma guards_top: "k \<le> all_structs E \<Longrightarrow> guards_ok r k (all_structs E, {})"
  by (simp add: guards_ok_def)

abbreviation baseSize :: "env \<Rightarrow> type_decl \<Rightarrow> int" where
  "baseSize E t \<equiv> getBaseSizeOf64 E (all_structs E) {} t"

lemma inside_structure:
  assumes lay: "layered E r" and s: "s < all_structs E" and t: "laid E (below E r (r s)) t"
  obtains m where "all_structs E = Suc m" "getAlignOf E m {s} t = alignOf E t" "getBaseSizeOf64 E m {s} t = baseSize E t"
proof -
  have rs: "r s < all_structs E" using lay s by (simp add: layered_def)
  then obtain m where m: "all_structs E = Suc m" by (cases "all_structs E") auto
  have g: "guards_ok r (r s) (m, {s})" "guards_ok r (r s) (all_structs E, {})" using rs m by (auto simp: guards_ok_def)
  show thesis using that m align_stable[OF lay t g] size_stable(1)[OF lay t g] by (simp add: alignOf_def)
qed

lemma alignOf_structure:
  assumes lay: "layered E r" and s: "s < all_structs E"
  shows "Structure_getAlignOf E (all_structs E) {} s = fold (\<lambda>fd al. max (alignOf E (fd_type fd)) al) (sd_fields (struct_of E s)) 1"
proof -
  obtain m where m: "all_structs E = Suc m" using s by (cases "all_structs E") auto
  have "getAlignOf E m {s} (fd_type fd) = alignOf E (fd_type fd)"
    if fd: "fd \<in> set (sd_fields (struct_of E s))" for fd
  proof -
    have "laid E (below E r (r s)) (fd_type fd)" using lay s fd by (auto simp: layered_def)
    from inside_structure[OF lay s this] show ?thesis using m by auto
  qed
  then show ?thesis by (subst Structure_getAlignOf.simps) (simp add: m cong: fold_cong)
qed

lemma getTypeBaseAlign_pow2: "b \<notin> {aliasType, das_type.option, autoinfer} \<Longrightarrow> pow2 (getTypeBaseAlign b)"
  by (cases b) simp_all

lemma alignOf_pow2:
  assumes lay: "layered E r"
  shows "laid E (below E r k) t \<Longrightarrow> k \<le> all_structs E \<Longrightarrow> pow2 (alignOf E t)"
proof (induction k arbitrary: t rule: less_induct)
  case (less k)
  note outer = less.IH
  have st: "pow2 (Structure_getAlignOf E (all_structs E) {} s)" if s: "below E r k s" for s
  proof -
    have "pow2 (alignOf E (fd_type fd))" if "fd \<in> set (sd_fields (struct_of E s))" for fd
      using outer[of "r s" "fd_type fd"] lay s that less.prems(2) by (auto simp: layered_def)
    then have "\<forall>fd\<in>set (sd_fields (struct_of E s)). pow2 (alignOf E (fd_type fd))" by blast
    from pow2_fold_max(1)[OF pow2_numerals(1) this] show ?thesis using s by (simp add: alignOf_structure[OF lay])
  qed
  show ?case using less.prems(1)
  proof (induction t rule: measure_induct_rule[of size])
    case (less t)
    have first: "pow2 (alignOf E u)" if "firstType t = Some u" "baseType t = tFixedArray" for u
      using less that by (auto simp: laid.simps[of E _ t] intro: parts_size)
    have args: "pow2 (alignOf E u)" if "u \<in> set (argTypes t)" "baseType t \<in> {tTuple, tVariant}" for u
      using less.IH[of u] less.prems argTypes_size that by (auto simp: laid.simps[of E _ t] list_all_iff)
    note base = getTypeBaseAlign_pow2
    show ?case using less.prems
    proof (cases rule: laid_cases)
      case handle then show ?thesis by (simp add: alignOf_def getAlignOf.simps[of E _ _ t])
    next
      case array then show ?thesis using first by (auto simp: alignOf_def getAlignOf.simps[of E _ _ t])
    next
      case (struct s) then show ?thesis using st[of s] lay by (simp add: alignOf_def getAlignOf.simps[of E _ _ t] Let_def layered_def)
    next
      case tuple
      then show ?thesis using args by (auto simp: alignOf_def getAlignOf.simps[of E _ _ t] intro!: pow2_fold_max(1))
    next
      case variant
      then show ?thesis using args by (auto simp: alignOf_def getAlignOf.simps[of E _ _ t] intro!: pow2_fold_max(1))
    next
      case enum
      then have "alignOf E t = getTypeBaseAlign (case enumType t of Some e \<Rightarrow> e_enums E e | None \<Rightarrow> tInt)"
        by (simp add: alignOf_def getAlignOf.simps[of E _ _ t])
      with enum(1,3) show ?thesis by (cases "enumType t") (auto simp: getEnumType_def isEnumT_def split: if_splits)
    next
      case basic
      then show ?thesis using base by (auto simp: alignOf_def getAlignOf.simps[of E _ _ t])
    qed
  qed
qed

end
