(* ===== verification/LayoutFields.thy ===== *)
theory LayoutFields
  imports LayoutProps
begin

text \<open>
  The fields of tuples, variants and structures: aligned, apart and inside. \<open>roomy\<close> bounds the fields
  of one aggregate so that no 32-bit result is clamped and no 64-bit sum wraps.
\<close>

definition roomy :: "env \<Rightarrow> type_decl list \<Rightarrow> bool" where
  "roomy E ts \<longleftrightarrow> (\<Sum>u\<leftarrow>ts. alignOf E u + getSizeOf64 E u) + fold (\<lambda>u al. max (alignOf E u) al) ts 1 \<le> 0x7fffffff"

abbreviation aligned_fields :: "env \<Rightarrow> type_decl list \<Rightarrow> bool" where
  "aligned_fields E ts \<equiv> \<forall>u\<in>set ts. pow2 (alignOf E u)"

definition field_pairs :: "env \<Rightarrow> type_decl list \<Rightarrow> (int \<times> int) list" where
  "field_pairs E ts = map (\<lambda>u. (alignOf E u, getSizeOf64 E u)) ts"

lemma getSizeOf64_nonneg [simp]: "0 \<le> getSizeOf64 E t"
  by (simp add: getSizeOf64_def getSizeOf64_in_def)

lemma field_pairs_ok: "aligned_fields E ts \<Longrightarrow> fields_ok (field_pairs E ts)"
  by (auto simp: field_pairs_def)

lemma field_pairs_sum: "(\<Sum>(a, s)\<leftarrow>field_pairs E ts. a + s) = (\<Sum>u\<leftarrow>ts. alignOf E u + getSizeOf64 E u)"
  by (simp add: field_pairs_def comp_def)

lemma roomy_bounds:
  assumes "aligned_fields E ts" and "roomy E ts"
  defines "al \<equiv> fold (\<lambda>u al. max (alignOf E u) al) ts 1"
  shows "pow2 al" and "tuple_end (field_pairs E ts) 0 + al \<le> 0x7fffffff"
    "(\<Sum>(a, s)\<leftarrow>field_pairs E ts. a + s) < 2 ^ 64" "0 \<le> tuple_end (field_pairs E ts) 0"
proof -
  show p: "pow2 al" unfolding al_def by (rule pow2_fold_max(1)) (use assms in auto)
  note b = tuple_end_bounds[OF field_pairs_ok[OF assms(1)], of 0]
  show "tuple_end (field_pairs E ts) 0 + al \<le> 0x7fffffff" "(\<Sum>(a, s)\<leftarrow>field_pairs E ts. a + s) < 2 ^ 64"
    "0 \<le> tuple_end (field_pairs E ts) 0"
    using b assms(2) pow2_pos[OF p] by (auto simp: field_pairs_sum roomy_def al_def)
qed

lemma roomy_size:
  assumes "aligned_fields E ts" and "roomy E ts" and "u \<in> set ts"
  shows "getSizeOf E u = getSizeOf64 E u"
proof -
  obtain i where i: "i < length ts" "ts ! i = u" using assms(3) by (auto simp: in_set_conv_nth)
  have p: "i < length (field_pairs E ts)" "snd (field_pairs E ts ! i) = getSizeOf64 E u"
    using i by (auto simp: field_pairs_def)
  have "getSizeOf64 E u \<le> tuple_end (field_pairs E ts) 0"
    using offset_bounds[OF field_pairs_ok[OF assms(1)] p(1), of 0] p(2) by auto
  then show ?thesis using roomy_bounds[OF assms(1,2)] pow2_pos by (fastforce simp: getSizeOf_def clamp_size_def)
qed

text \<open>What every aggregate has: field \<open>i\<close> of \<open>ts\<close> is at offset \<open>off i\<close> of a block of size \<open>sz\<close> aligned to \<open>al\<close>.\<close>

definition well_placed :: "env \<Rightarrow> type_decl list \<Rightarrow> (nat \<Rightarrow> int) \<Rightarrow> int \<Rightarrow> int \<Rightarrow> bool" where
  "well_placed E ts off sz al \<longleftrightarrow> pow2 al \<and> al dvd sz \<and>
    (\<forall>i<length ts. 0 \<le> off i \<and> alignOf E (ts ! i) dvd off i \<and> alignOf E (ts ! i) dvd al \<and> off i + getSizeOf E (ts ! i) \<le> sz \<and>
       (\<forall>j<length ts. i < j \<longrightarrow> off i + getSizeOf E (ts ! i) \<le> off j))"

lemma offsets_well_placed:
  assumes al: "aligned_fields E ts" and room: "roomy E ts"
  defines "a \<equiv> fold (\<lambda>u al. max (alignOf E u) al) ts 1"
  shows "well_placed E ts (offset_loop (field_pairs E ts) 0) (round_up (tuple_end (field_pairs E ts) 0) (a - 1)) a"
proof -
  note ok = field_pairs_ok[OF al]
  have p: "pow2 a" and d: "u \<in> set ts \<Longrightarrow> alignOf E u dvd a" for u
    using al unfolding a_def by (auto intro!: pow2_fold_max)
  have len: "length (field_pairs E ts) = length ts" by (simp add: field_pairs_def)
  have sz: "snd (field_pairs E ts ! i) = getSizeOf E (ts ! i)" "fst (field_pairs E ts ! i) = alignOf E (ts ! i)" if "i < length ts" for i
    using that roomy_size[OF al room] by (auto simp: field_pairs_def)
  note b = round_up_bounds[OF p, of "tuple_end (field_pairs E ts) 0"]
  show ?thesis unfolding well_placed_def
    using p d b offset_bounds[OF ok, of _ 0] offsets_apart[OF ok, of _ _ 0] sz by (fastforce simp: len)
qed

section \<open>Tuples\<close>

lemma tuple_size_pairs:
  assumes al: "aligned_fields E (argTypes t)" and room: "roomy E (argTypes t)" and t: "baseType t = tTuple"
  shows "getTupleSize E t = round_up (tuple_end (field_pairs E (argTypes t)) 0) (getTupleAlign E (all_structs E) {} t - 1)"
    "baseSize E t = getTupleSize E t"
proof -
  let ?ps = "field_pairs E (argTypes t)" and ?a = "getTupleAlign E (all_structs E) {} t"
  have a: "?a = fold (\<lambda>u al. max (alignOf E u) al) (argTypes t) 1" by (simp add: getTupleAlign_def alignOf_def)
  note rb = roomy_bounds[OF al room, folded a]
  have "fold (\<lambda>u siz. (round_up64 siz (getAlignOf E (all_structs E) {} u - 1) + baseSize E u * getCountOf64 u mod 2 ^ 64) mod 2 ^ 64) (argTypes t) 0 =
      fold (\<lambda>(a, s) siz. (round_up64 siz (a - 1) + s) mod 2 ^ 64) ?ps 0"
    unfolding field_pairs_def fold_map comp_def prod.case alignOf_def getSizeOf64_def getSizeOf64_in_def ..
  also have "\<dots> = tuple_end ?ps 0" by (rule tuple_end64[OF field_pairs_ok[OF al]]) (use rb in auto)
  finally have b: "baseSize E t = round_up64 (tuple_end ?ps 0) (?a - 1)"
    by (subst getBaseSizeOf64.simps) (simp add: t)
  have e: "round_up64 (tuple_end ?ps 0) (?a - 1) = round_up (tuple_end ?ps 0) (?a - 1)"
    using rb pow2_pos[OF rb(1)] by (intro round_up64_eq) auto
  have "round_up (tuple_end ?ps 0) (?a - 1) \<le> 0x7fffffff" using rb round_up_bounds(2)[OF rb(1), of "tuple_end ?ps 0"] by simp
  then show "getTupleSize E t = round_up (tuple_end ?ps 0) (?a - 1)" "baseSize E t = getTupleSize E t"
    by (simp_all add: getTupleSize_def b e clamp_size_def)
qed

lemma tuple_offset_pairs:
  assumes "aligned_fields E (argTypes t)" and "roomy E (argTypes t)"
  shows "getTupleFieldOffset E t i = offset_loop (field_pairs E (argTypes t)) 0 i"
proof -
  have "map (\<lambda>u. (alignOf E u, getSizeOf E u)) (argTypes t) = field_pairs E (argTypes t)"
    using roomy_size[OF assms] by (simp add: field_pairs_def)
  then show ?thesis by (simp add: getTupleFieldOffset_def)
qed

lemma laid_args:
  assumes "layered E r" and "laid E (below E r (all_structs E)) t" and "baseType t \<in> {tTuple, tVariant}"
  shows "aligned_fields E (argTypes t)"
proof
  fix u assume "u \<in> set (argTypes t)"
  then have "laid E (below E r (all_structs E)) u" using assms by (auto simp: laid.simps[of E _ t] list_all_iff)
  from alignOf_pow2[OF assms(1) this] show "pow2 (alignOf E u)" by simp
qed

text \<open>C20: every field of a tuple starts at a multiple of its alignment, ends before the next one starts and
  before the tuple does, and the tuple's size is a multiple of its alignment, which every field's alignment
  divides: for a tuple of laid-out types whose sizes and padding sum below \<open>2^31\<close>.\<close>

theorem tuple_fields_apart:
  assumes "layered E r" and "laid E (below E r (all_structs E)) t" and "baseType t = tTuple" and "roomy E (argTypes t)"
  shows "well_placed E (argTypes t) (getTupleFieldOffset E t) (getTupleSize E t) (alignOf E t)"
proof -
  note al = laid_args[OF assms(1,2)]
  have a: "alignOf E t = getTupleAlign E (all_structs E) {} t" "alignOf E t = fold (\<lambda>u al. max (alignOf E u) al) (argTypes t) 1"
    by (simp_all add: alignOf_def getAlignOf.simps[of E _ _ t] getTupleAlign_def assms(3))
  have off: "getTupleFieldOffset E t = offset_loop (field_pairs E (argTypes t)) 0"
    by (rule ext, rule tuple_offset_pairs) (use al assms(3,4) in auto)
  show ?thesis using offsets_well_placed[where E = E and ts = "argTypes t", folded a(2)] tuple_size_pairs(1)[where E = E and t = t] al assms(3,4)
    by (simp add: off a(1))
qed

section \<open>Structures\<close>

abbreviation struct_types :: "env \<Rightarrow> nat \<Rightarrow> type_decl list" where
  "struct_types E s \<equiv> map fd_type (sd_fields (struct_of E s))"

lemma laid_fields:
  assumes "layered E r" and "s < all_structs E"
  shows "aligned_fields E (struct_types E s)"
proof
  fix u assume "u \<in> set (struct_types E s)"
  then have "laid E (below E r (r s)) u" "r s \<le> all_structs E" using assms by (auto simp: layered_def less_imp_le)
  from alignOf_pow2[OF assms(1) this] show "pow2 (alignOf E u)" .
qed

lemma place_field_plain:
  "\<not> sd_cppLayout (struct_of E s) \<Longrightarrow> place_field E s al par fd (siz, cp) = (round_up64 siz (al (fd_type fd) - 1), cp)"
  by (simp add: place_field_def)

lemma field_offsets_plain:
  assumes "\<not> sd_cppLayout (struct_of E s)"
  shows "fields_ok (field_pairs E (map fd_type fds)) \<Longrightarrow> 0 \<le> x \<Longrightarrow> x + (\<Sum>(a, s)\<leftarrow>field_pairs E (map fd_type fds). a + s) < 2 ^ 64 \<Longrightarrow>
    i < length fds \<Longrightarrow> field_offsets E s fds (x, cp) ! i = to_int32 (offset_loop (field_pairs E (map fd_type fds)) x i)"
proof (induction fds arbitrary: x i)
  case (Cons fd fds)
  let ?a = "alignOf E (fd_type fd)" and ?s = "getSizeOf64 E (fd_type fd)"
  have as: "pow2 ?a" "fields_ok (field_pairs E (map fd_type fds))" using Cons.prems(1) by (auto simp: field_pairs_def)
  note b = round_up_bounds[OF as(1), of x] and a0 = pow2_pos[OF as(1)]
  have nn: "0 \<le> (\<Sum>(a, s)\<leftarrow>field_pairs E (map fd_type fds). a + s)" using tuple_end_bounds[OF as(2), of 0] by simp
  have sum: "(\<Sum>(a, s)\<leftarrow>field_pairs E (map fd_type (fd # fds)). a + s) = ?a + ?s + (\<Sum>(a, s)\<leftarrow>field_pairs E (map fd_type fds). a + s)"
    by (simp add: field_pairs_def)
  have e: "round_up64 x (?a - 1) = round_up x (?a - 1)" using Cons.prems(2,3) a0 nn getSizeOf64_nonneg[of E "fd_type fd"] unfolding sum by (intro round_up64_eq; linarith)
  have m: "(round_up x (?a - 1) + ?s) mod 2 ^ 64 = round_up x (?a - 1) + ?s"
    using Cons.prems(2,3) b nn unfolding sum by (intro mod_pos_pos_trivial) auto
  have step: "field_offsets E s (fd # fds) (x, cp) = to_int32 (round_up x (?a - 1)) # field_offsets E s fds (round_up x (?a - 1) + ?s, cp)"
    by (simp only: field_offsets.simps place_field_plain[OF assms] e m prod.case)
  have ps: "field_pairs E (map fd_type (fd # fds)) = (?a, ?s) # field_pairs E (map fd_type fds)" by (simp add: field_pairs_def)
  show ?case
  proof (cases i)
    case (Suc j)
    have "0 \<le> round_up x (?a - 1) + ?s" "round_up x (?a - 1) + ?s + (\<Sum>(a, s)\<leftarrow>field_pairs E (map fd_type fds). a + s) < 2 ^ 64"
      using Cons.prems(2,3) b unfolding sum by auto
    from Cons.IH[OF as(2) this] Cons.prems(4) show ?thesis unfolding step ps Suc by simp
  next
    case 0 show ?thesis unfolding step ps 0 by simp
  qed
qed simp

lemma length_field_offsets [simp]: "length (field_offsets E s fds placed) = length fds"
  by (induction fds arbitrary: placed) (auto split: prod.split)

lemma to_int32_id: "0 \<le> x \<Longrightarrow> x \<le> 0x7fffffff \<Longrightarrow> to_int32 x = x"
  by (simp add: to_int32_def)

lemma structure_offset_pairs:
  assumes al: "aligned_fields E (struct_types E s)" and room: "roomy E (struct_types E s)" and plain: "\<not> sd_cppLayout (struct_of E s)"
    and i: "i < length (sd_fields (struct_of E s))"
  shows "structure_offsets E s ! i = offset_loop (field_pairs E (struct_types E s)) 0 i"
proof -
  let ?ps = "field_pairs E (struct_types E s)"
  note rb = roomy_bounds[OF al room]
  have li: "i < length ?ps" using i by (simp add: field_pairs_def)
  then have sn: "0 \<le> snd (?ps ! i)" by (simp add: field_pairs_def)
  have "0 \<le> offset_loop ?ps 0 i" "offset_loop ?ps 0 i \<le> 0x7fffffff"
    using offset_bounds[OF field_pairs_ok[OF al] li, of 0] rb(2) pow2_pos[OF rb(1)] sn by auto
  then show ?thesis
    unfolding structure_offsets_def using field_offsets_plain[OF plain field_pairs_ok[OF al], of 0 i None] rb(3) i
    by (simp add: to_int32_id)
qed

lemma structure_loop_plain:
  assumes "\<not> sd_cppLayout (struct_of E s)" and "\<forall>fd\<in>set fds. al (fd_type fd) = alignOf E (fd_type fd) \<and> sz (fd_type fd) = baseSize E (fd_type fd)"
  shows "fold (\<lambda>fd placed. case place_field E s al par fd placed of
      (siz, cp) \<Rightarrow> ((siz + sz (fd_type fd) * getCountOf64 (fd_type fd) mod 2 ^ 64) mod 2 ^ 64, cp)) fds (x, cp) =
    (fold (\<lambda>(a, s) siz. (round_up64 siz (a - 1) + s) mod 2 ^ 64) (field_pairs E (map fd_type fds)) x, cp)"
  using assms(2)
proof (induction fds arbitrary: x)
  case (Cons fd fds)
  then show ?case by (simp add: place_field_plain[OF assms(1)] field_pairs_def getSizeOf64_def getSizeOf64_in_def)
qed (simp add: field_pairs_def)

lemma structure_size_pairs:
  assumes lay: "layered E r" and s: "s < all_structs E" and room: "roomy E (struct_types E s)" and plain: "\<not> sd_cppLayout (struct_of E s)"
  defines "a \<equiv> fold (\<lambda>u al. max (alignOf E u) al) (struct_types E s) 1"
  shows "Structure_getSizeOf E s = round_up (tuple_end (field_pairs E (struct_types E s)) 0) (a - 1)"
    "Structure_getAlignOf E (all_structs E) {} s = a"
proof -
  let ?ps = "field_pairs E (struct_types E s)"
  note al = laid_fields[OF lay s] and rb = roomy_bounds[OF laid_fields[OF lay s] room, folded a_def]
  show own: "Structure_getAlignOf E (all_structs E) {} s = a"
    by (simp add: alignOf_structure[OF lay s] a_def fold_map comp_def)
  obtain m where m: "all_structs E = Suc m" using s by (cases "all_structs E") auto
  have inner: "getAlignOf E m {s} (fd_type fd) = alignOf E (fd_type fd)" "getBaseSizeOf64 E m {s} (fd_type fd) = baseSize E (fd_type fd)"
    if fd: "fd \<in> set (sd_fields (struct_of E s))" for fd
  proof -
    have "laid E (below E r (r s)) (fd_type fd)" using lay s fd by (auto simp: layered_def)
    from inside_structure[OF lay s this] show "getAlignOf E m {s} (fd_type fd) = alignOf E (fd_type fd)"
      "getBaseSizeOf64 E m {s} (fd_type fd) = baseSize E (fd_type fd)" using m by auto
  qed
  have "Structure_getSizeOf64 E (all_structs E) {} s =
      round_up64 (fold (\<lambda>(a, s) siz. (round_up64 siz (a - 1) + s) mod 2 ^ 64) ?ps 0) (a - 1)"
    unfolding Structure_getSizeOf64.simps[of E "all_structs E" "{}" s] own
    using structure_loop_plain[OF plain, of "sd_fields (struct_of E s)" "getAlignOf E m {s}" "getBaseSizeOf64 E m {s}" "Structure_getSizeOf64 E m {s}" 0 None] inner
    by (simp add: m Let_def)
  also have "\<dots> = round_up64 (tuple_end ?ps 0) (a - 1)"
    using tuple_end64[OF field_pairs_ok[OF al], of 0] rb(3) by simp
  also have "\<dots> = round_up (tuple_end ?ps 0) (a - 1)" using rb pow2_pos[OF rb(1)] by (intro round_up64_eq) auto
  finally show "Structure_getSizeOf E s = round_up (tuple_end ?ps 0) (a - 1)"
    using rb round_up_bounds(2)[OF rb(1), of "tuple_end ?ps 0"] by (simp add: Structure_getSizeOf_def clamp_size_def)
qed

text \<open>C21: the offsets that type inference writes into the fields of a structure (one not laid out as C++) place
  every field at a multiple of its alignment, apart from the others and within \<open>getSizeOf\<close>, although offsets
  and size are computed by different code under different guards.\<close>

theorem structure_fields_apart:
  assumes "layered E r" and "s < all_structs E" and "\<not> sd_cppLayout (struct_of E s)" and "roomy E (struct_types E s)"
  shows "well_placed E (struct_types E s) (\<lambda>i. structure_offsets E s ! i) (Structure_getSizeOf E s) (alignOf E (new_struct_type s))"
proof -
  have a: "alignOf E (new_struct_type s) = fold (\<lambda>u al. max (alignOf E u) al) (struct_types E s) 1"
    using assms structure_size_pairs(2)[OF assms(1,2,4,3)] by (simp add: alignOf_def align_struct layered_def)
  show ?thesis
    using offsets_well_placed[OF laid_fields[OF assms(1,2)] assms(4)]
      structure_offset_pairs[OF laid_fields[OF assms(1,2)] assms(4,3)]
    unfolding a structure_size_pairs(1)[OF assms(1,2,4,3)] well_placed_def by auto
qed

end
