(* ===== verification/LayoutAgree.thy ===== *)
theory LayoutAgree
  imports LayoutFields
begin

text \<open>
  The run-time layout of a type, computed from its description, is the compiler's: for types that
  are laid out, structures that have fields, and sizes within 32 bits.
\<close>

section \<open>Chains of fixed arrays\<close>

lemma chain_elem_laid: "laid E P t \<Longrightarrow> laid E P (chain_elem t) \<and> baseType (chain_elem t) \<noteq> tFixedArray"
proof (induction t rule: chain_elem.induct)
  case (1 t)
  show ?case using 1(2)
  proof (cases rule: laid_cases)
    case (array u) then show ?thesis using 1(1) by (subst (1 2) chain_elem.simps) simp
  qed (use 1(2) in \<open>simp_all add: chain_elem.simps[of t]\<close>)
qed

lemma chain_same:
  assumes "laid E P t"
  shows "alignOf E (chain_elem t) = alignOf E t" "baseSize E (chain_elem t) = baseSize E t"
proof -
  have "alignOf E (chain_elem t) = alignOf E t \<and> baseSize E (chain_elem t) = baseSize E t" using assms
  proof (induction t rule: chain_elem.induct)
    case (1 t)
    show ?case using 1(2)
    proof (cases rule: laid_cases)
      case (array u)
      then have "alignOf E t = alignOf E u" "baseSize E t = baseSize E u" "chain_elem t = chain_elem u"
        by (simp_all add: alignOf_def getAlignOf.simps[of E _ _ t] getBaseSizeOf64.simps[of E _ _ t] chain_elem.simps[of t])
      then show ?thesis using 1(1)[OF array(1,2,3)] by simp
    qed (simp_all add: chain_elem.simps[of t])
  qed
  then show "alignOf E (chain_elem t) = alignOf E t" "baseSize E (chain_elem t) = baseSize E t" by auto
qed

lemma count_chain: "laid E P t \<Longrightarrow> getCountOf64 t = prod_list (chain_dims t) mod 2 ^ 64"
proof (induction t rule: chain_elem.induct)
  case (1 t)
  show ?case using 1(2)
  proof (cases rule: laid_cases)
    case (array u)
    have "getCountOf64 t = (fixedDim t mod 2 ^ 64) * getCountOf64 u mod 2 ^ 64"
      using array by (subst getCountOf64.simps) simp
    also have "\<dots> = (fixedDim t * prod_list (chain_dims u)) mod 2 ^ 64"
      by (simp only: 1(1)[OF array(1,2,3)] mod_mult_eq)
    finally show ?thesis using array by (simp add: chain_dims.simps[of t])
  qed (simp_all add: chain_dims.simps[of t] getCountOf64.simps[of t])
qed

lemma prod_list_ge1: "\<forall>d\<in>set ds. (1 :: int) \<le> d \<Longrightarrow> 1 \<le> prod_list ds"
  by (induction ds) (auto simp: mult_le_cancel_left1 intro: order_trans[of 1] mult_mono[of 1 _ 1, simplified])

lemma dim_product:
  assumes "\<forall>d\<in>set ds. 1 \<le> d" and "0 < acc" and "acc * prod_list ds \<le> 0x7fffffff"
  shows "fold (\<lambda>d siz. to_int32 (siz * d)) (map (\<lambda>d. d mod 2 ^ 32) ds) acc = acc * prod_list ds"
  using assms
proof (induction ds arbitrary: acc)
  case (Cons d ds)
  have p: "1 \<le> prod_list ds" using Cons.prems(1) by (intro prod_list_ge1) simp
  have "acc * d * 1 \<le> acc * d * prod_list ds" using p Cons.prems by (intro mult_left_mono) auto
  then have ad: "acc * d \<le> 0x7fffffff" using Cons.prems(3) by (simp add: mult.assoc)
  have "1 * d \<le> acc * d" using Cons.prems by (intro mult_right_mono) auto
  then have "d \<le> 0x7fffffff" using ad by simp
  then have d: "d mod 2 ^ 32 = d" using Cons.prems(1) by simp
  have pos: "0 < acc * d" using Cons.prems by simp
  have "to_int32 (acc * (d mod 2 ^ 32)) = acc * d" unfolding d using ad pos by (intro to_int32_id) auto
  then show ?case using Cons.IH[of "acc * d"] Cons.prems pos by (simp add: mult.assoc)
qed simp

section \<open>Descriptions\<close>

lemma makeTypeInfo_fields:
  "ti_type (makeTypeInfo t) = baseType (chain_elem t)"
  "ti_dim (makeTypeInfo t) = map (\<lambda>d. d mod 2 ^ 32) (chain_dims t)"
  "ti_argTypes (makeTypeInfo t) = map makeTypeInfo (argTypes (chain_elem t))"
  "baseType (chain_elem t) = tStructure \<Longrightarrow> ti_structType (makeTypeInfo t) = structType (chain_elem t)"
  "baseType (chain_elem t) = tHandle \<Longrightarrow> ti_annotation (makeTypeInfo t) = annotation (chain_elem t)"
  by (simp_all add: makeTypeInfo.simps[of t] Let_def isEnumT_def)

lemma those_map_Some: "\<forall>x\<in>set xs. f x = Some (g x) \<Longrightarrow> those (map f xs) = Some (map g xs)"
  by (induction xs) auto

lemma struct_infos_nth: "s < all_structs E \<Longrightarrow> struct_infos E ! s = makeStructureDebugInfo E s"
  by (simp add: struct_infos_def)

lemma si_field_types: "map fst (si_fields (makeStructureDebugInfo E s)) = map makeTypeInfo (struct_types E s)"
proof -
  have "length (structure_offsets E s) = length (sd_fields (struct_of E s))" by (simp add: structure_offsets_def)
  then show ?thesis
    by (auto simp: makeStructureDebugInfo_def makeVariableDebugInfo_def list_eq_iff_nth_eq)
qed

lemma fold_max_map: "fold (\<lambda>a al. max al a) (map f us) x = fold (\<lambda>u al. max (f u) al) us (x :: int)"
  by (induction us arbitrary: x) (simp_all add: max.commute)

lemma fold_max_start:
  assumes "ts \<noteq> []" and "\<forall>u\<in>set ts. (1 :: int) \<le> f u"
  shows "fold (\<lambda>a al. max al a) (map f ts) 0 = fold (\<lambda>u al. max (f u) al) ts 1"
proof -
  obtain u us where ts: "ts = u # us" using assms(1) by (cases ts) auto
  have "max (f u) 0 = f u" "max (f u) 1 = f u" using assms(2) by (auto simp: ts)
  then show ?thesis unfolding fold_max_map by (simp add: ts)
qed

section \<open>Alignment\<close>

definition fielded :: "env \<Rightarrow> bool" where
  "fielded E \<longleftrightarrow> (\<forall>s<all_structs E. sd_fields (struct_of E s) \<noteq> [])"

lemma run_time_align:
  assumes lay: "layered E r" and ne: "fielded E"
  shows "laid E (below E r k) t \<Longrightarrow> k \<le> n \<Longrightarrow> k \<le> all_structs E \<Longrightarrow>
    info_getTypeAlign (e_anns E) (struct_infos E) n (makeTypeInfo t) = Some (alignOf E t)"
proof (induction k arbitrary: t n rule: less_induct)
  case (less k)
  note outer = less.IH
  let ?al = "info_getTypeAlign (e_anns E) (struct_infos E)"
  have st: "info_getStructAlign (e_anns E) (struct_infos E) n s = Some (alignOf E (new_struct_type s))" if s: "below E r k s" for s
  proof -
    obtain m where m: "n = Suc m" using s less.prems(2) by (cases n) auto
    have fd: "laid E (below E r (r s)) u" if "u \<in> set (struct_types E s)" for u
      using lay s that by (auto simp: layered_def)
    have "?al m (makeTypeInfo u) = Some (alignOf E u)" if "u \<in> set (struct_types E s)" for u
      using outer[of "r s", OF _ fd[OF that]] s m less.prems by simp
    then have "those (map (?al m) (map makeTypeInfo (struct_types E s))) = Some (map (alignOf E) (struct_types E s))"
      by (subst map_map, intro those_map_Some) simp
    then have "those (map (\<lambda>v. ?al m (fst v)) (si_fields (struct_infos E ! s))) = Some (map (alignOf E) (struct_types E s))"
      unfolding si_field_types[symmetric] using s by (simp add: struct_infos_nth comp_def)
    moreover have "\<forall>u\<in>set (struct_types E s). 1 \<le> alignOf E u"
      using laid_fields[OF lay] s pow2_pos by fastforce
    moreover have "struct_types E s \<noteq> []" using ne s by (simp add: fielded_def)
    moreover have "alignOf E (new_struct_type s) = fold (\<lambda>u al. max (alignOf E u) al) (struct_types E s) 1"
      using alignOf_structure[OF lay] s lay by (simp add: alignOf_def align_struct layered_def fold_map comp_def)
    ultimately show ?thesis
      using fold_max_start[of "struct_types E s" "alignOf E"] by (simp add: info_getStructAlign.simps m)
  qed
  show ?case using less.prems(1)
  proof (induction t rule: measure_induct_rule[of size])
    case (less t)
    let ?e = "chain_elem t"
    have e: "laid E (below E r k) ?e" "baseType ?e \<noteq> tFixedArray" using chain_elem_laid[OF less.prems] by auto
    have args: "those (map (?al n) (ti_argTypes (makeTypeInfo t))) = Some (map (alignOf E) (argTypes ?e))"
      if "baseType ?e \<in> {tTuple, tVariant}"
    proof -
      have "laid E (below E r k) u \<and> size u < size t" if "u \<in> set (argTypes ?e)" for u
        using e(1) that \<open>baseType ?e \<in> _\<close> chain_args_size by (auto simp: laid.simps[of E _ ?e] list_all_iff)
      then show ?thesis unfolding makeTypeInfo_fields(3) map_map using less.IH by (intro those_map_Some) auto
    qed
    have al1: "\<forall>u\<in>set (argTypes ?e). 1 \<le> alignOf E u" if "baseType ?e \<in> {tTuple, tVariant}"
      using laid_args[OF lay laid_mono[OF e(1)] that] less.prems \<open>k \<le> all_structs E\<close> pow2_pos by fastforce
    have "info_getTypeAlign (e_anns E) (struct_infos E) n (makeTypeInfo t) = Some (alignOf E ?e)" using e(1)
    proof (cases rule: laid_cases)
      case (array u) then show ?thesis using e(2) by simp
    next
      case handle
      then show ?thesis
        by (auto simp: info_getTypeAlign.simps[of _ _ _ "makeTypeInfo t"] makeTypeInfo_fields alignOf_def getAlignOf.simps[of E _ _ ?e] ann_of_def)
    next
      case (struct s)
      then show ?thesis using st[of s] lay
        by (simp add: info_getTypeAlign.simps[of _ _ _ "makeTypeInfo t"] makeTypeInfo_fields alignOf_def getAlignOf.simps[of E _ _ ?e] layered_def align_struct)
    next
      case tuple
      then have "alignOf E ?e = fold (\<lambda>u al. max (alignOf E u) al) (argTypes ?e) 1"
        by (simp add: alignOf_def getAlignOf.simps[of E _ _ ?e])
      then show ?thesis using tuple args al1 fold_max_start[of "argTypes ?e" "alignOf E"]
        by (simp add: info_getTypeAlign.simps[of _ _ _ "makeTypeInfo t"] makeTypeInfo_fields)
    next
      case variant
      then have "alignOf E ?e = fold (\<lambda>u al. max (alignOf E u) al) (argTypes ?e) (getTypeBaseAlign tInt)"
        by (simp add: alignOf_def getAlignOf.simps[of E _ _ ?e])
      then show ?thesis using variant args
        by (simp add: info_getTypeAlign.simps[of _ _ _ "makeTypeInfo t"] makeTypeInfo_fields fold_max_map)
    next
      case enum
      then have "alignOf E ?e = getTypeBaseAlign (case enumType ?e of Some e \<Rightarrow> e_enums E e | None \<Rightarrow> tInt)"
        by (simp add: alignOf_def getAlignOf.simps[of E _ _ ?e])
      moreover have "\<dots> = getTypeBaseAlign (baseType ?e)"
        using enum(1,3) by (cases "enumType ?e") (auto simp: getEnumType_def isEnumT_def split: if_splits)
      ultimately show ?thesis using enum(2)
        by (simp add: info_getTypeAlign.simps[of _ _ _ "makeTypeInfo t"] makeTypeInfo_fields)
    next
      case basic
      then show ?thesis
        by (simp add: info_getTypeAlign.simps[of _ _ _ "makeTypeInfo t"] makeTypeInfo_fields alignOf_def getAlignOf.simps[of E _ _ ?e])
    qed
    then show ?case by (simp add: chain_same(1)[OF less.prems])
  qed
qed


section \<open>Size\<close>

text \<open>Every component is small enough for the 32-bit sums of the run time.\<close>

definition variant_roomy :: "env \<Rightarrow> type_decl \<Rightarrow> bool" where
  "variant_roomy E t \<longleftrightarrow> 4 + 2 * alignOf E t \<le> 0x7fffffff \<and>
     list_all (\<lambda>u. getSizeOf64 E u + 4 + 2 * alignOf E t \<le> 0x7fffffff) (argTypes t)"

fun fits :: "env \<Rightarrow> type_decl \<Rightarrow> bool" where
  "fits E t = (let e = chain_elem t in
     list_all (\<lambda>d. 1 \<le> d) (chain_dims t) \<and> prod_list (chain_dims t) \<le> 0x7fffffff \<and> prod_list (chain_dims t) * baseSize E e \<le> 0x7fffffff \<and>
     (baseType e = tTuple \<longrightarrow> list_all (fits E) (argTypes e) \<and> roomy E (argTypes e)) \<and>
     (baseType e = tVariant \<longrightarrow> list_all (fits E) (argTypes e) \<and> variant_roomy E e))"

declare fits.simps [simp del]

lemma variant_size:
  assumes "aligned_fields E (argTypes t)" and "variant_roomy E t" and t: "baseType t = tVariant"
  shows "baseSize E t = round_up (fold (\<lambda>u maxSize. max (round_up 4 (alignOf E t - 1) + getSizeOf E u) maxSize) (argTypes t) 0) (alignOf E t - 1)"
    "\<forall>u\<in>set (argTypes t). getSizeOf E u = getSizeOf64 E u"
proof -
  let ?a = "alignOf E t"
  have a: "?a = getVariantAlign E (all_structs E) {} t"
    by (simp add: alignOf_def getAlignOf.simps[of E _ _ t] getVariantAlign_def t)
  have p: "pow2 ?a" unfolding a getVariantAlign_def using assms(1) by (intro pow2_fold_max(1)) (auto simp: alignOf_def)
  note b = round_up_bounds[OF p, of 4] and a0 = pow2_pos[OF p]
  have sm: "getSizeOf64 E u + 4 + 2 * ?a \<le> 0x7fffffff" if "u \<in> set (argTypes t)" for u
    using assms(2) that by (simp add: variant_roomy_def list_all_iff)
  show sz: "\<forall>u\<in>set (argTypes t). getSizeOf E u = getSizeOf64 E u"
    using sm a0 by (fastforce simp: getSizeOf_def clamp_size_def)
  let ?f = "\<lambda>u maxSize. max (round_up 4 (?a - 1) + getSizeOf E u) maxSize"
  have m: "round_up 4 (?a - 1) mod 2 ^ 64 = round_up 4 (?a - 1)"
    using b a0 assms(2) by (intro mod_pos_pos_trivial) (auto simp: variant_roomy_def)
  have step: "max ((round_up 4 (?a - 1) mod 2 ^ 64 + baseSize E u * getCountOf64 u mod 2 ^ 64) mod 2 ^ 64) x = ?f u x"
    if u: "u \<in> set (argTypes t)" for u x
  proof -
    have "baseSize E u * getCountOf64 u mod 2 ^ 64 = getSizeOf E u" using sz u by (simp add: getSizeOf64_def getSizeOf64_in_def)
    moreover have "(round_up 4 (?a - 1) + getSizeOf E u) mod 2 ^ 64 = round_up 4 (?a - 1) + getSizeOf E u"
      using b a0 sm[OF u] sz u getSizeOf64_nonneg[of E u] by (intro mod_pos_pos_trivial) auto
    ultimately show ?thesis by (simp only: m)
  qed
  have loop: "fold (\<lambda>u maxSize. max ((round_up 4 (?a - 1) mod 2 ^ 64 + baseSize E u * getCountOf64 u mod 2 ^ 64) mod 2 ^ 64) maxSize) (argTypes t) 0
      = fold ?f (argTypes t) 0"
    by (rule fold_cong) (use step in auto)
  have range: "0 \<le> fold ?f us x \<and> fold ?f us x \<le> 0x7fffffff - ?a" if "set us \<subseteq> set (argTypes t)" "0 \<le> x" "x \<le> 0x7fffffff - ?a" for us x
    using that
  proof (induction us arbitrary: x)
    case (Cons u us)
    have "round_up 4 (?a - 1) + getSizeOf E u \<le> 0x7fffffff - ?a" using b sm[of u] sz Cons.prems(1) by auto
    then show ?case using Cons by (simp add: max_def)
  qed simp
  have r: "0 \<le> fold ?f (argTypes t) 0" "fold ?f (argTypes t) 0 \<le> 0x7fffffff - ?a"
    using range[of "argTypes t" 0] assms(2) a0 by (auto simp: variant_roomy_def)
  have "baseSize E t = round_up64 (fold ?f (argTypes t) 0) (?a - 1)"
    unfolding getBaseSizeOf64.simps[of E _ _ t] using t loop by (simp add: Let_def flip: a)
  also have "\<dots> = round_up (fold ?f (argTypes t) 0) (?a - 1)" using r a0 by (intro round_up64_eq) auto
  finally show "baseSize E t = round_up (fold ?f (argTypes t) 0) (?a - 1)" .
qed

lemma chain_sizes:
  assumes "laid E P t" and "fits E t" and "0 \<le> baseSize E (chain_elem t)"
  shows "getDimSize (makeTypeInfo t) * baseSize E (chain_elem t) = getSizeOf E t"
    "baseSize E (chain_elem t) \<le> 0x7fffffff" "getSizeOf E t = getSizeOf64 E t"
proof -
  let ?d = "prod_list (chain_dims t)" and ?b = "baseSize E (chain_elem t)"
  have dims: "\<forall>d\<in>set (chain_dims t). 1 \<le> d" and d: "?d \<le> 0x7fffffff" and db: "?d * ?b \<le> 0x7fffffff"
    using assms(2) by (simp_all add: fits.simps[of E t] Let_def list_all_iff)
  have "getDimSize (makeTypeInfo t) = ?d"
    using dim_product[OF dims, of 1] d by (simp add: getDimSize_def makeTypeInfo_fields)
  moreover have d1: "1 \<le> ?d" using dims by (rule prod_list_ge1)
  moreover have "getSizeOf64 E t = ?d * ?b"
  proof -
    have "getSizeOf64 E t = ?b * (?d mod 2 ^ 64) mod 2 ^ 64"
      by (simp only: getSizeOf64_def getSizeOf64_in_def count_chain[OF assms(1)] chain_same[OF assms(1)])
    also have "\<dots> = (?d * ?b) mod 2 ^ 64" by (simp only: mod_mult_right_eq mult.commute)
    also have "\<dots> = ?d * ?b" using db d1 assms(3) by (intro mod_pos_pos_trivial) auto
    finally show ?thesis .
  qed
  ultimately show "getDimSize (makeTypeInfo t) * ?b = getSizeOf E t" "getSizeOf E t = getSizeOf64 E t"
    using db by (simp_all add: getSizeOf_def clamp_size_def)
  have "1 * ?b \<le> ?d * ?b" using d1 assms(3) by (intro mult_right_mono) auto
  then show "?b \<le> 0x7fffffff" using db by simp
qed


lemma getTypeBaseSize_nonneg: "0 \<le> getTypeBaseSize b"
  by (cases b) simp_all

lemma structure_size_nonneg: "0 \<le> Structure_getSizeOf64 E n g s"
  by (subst Structure_getSizeOf64.simps) (simp add: Let_def round_up64_nonneg case_prod_unfold split: nat.split)

lemma base_size_nonneg: "baseType t \<noteq> tFixedArray \<Longrightarrow> 0 \<le> baseSize E t"
  by (subst getBaseSizeOf64.simps) (simp add: Let_def round_up64_nonneg structure_size_nonneg getTypeBaseSize_nonneg)

lemma run_time_size:
  assumes lay: "layered E r" and ne: "fielded E"
  shows "laid E (below E r (all_structs E)) t \<Longrightarrow> fits E t \<Longrightarrow>
    info_getTypeSize (e_anns E) (struct_infos E) (all_structs E) (makeTypeInfo t) = Some (getSizeOf E t)"
proof (induction t rule: measure_induct_rule[of size])
  case (less t)
  let ?e = "chain_elem t" and ?A = "e_anns E" and ?I = "struct_infos E" and ?n = "all_structs E"
  have e: "laid E (below E r ?n) ?e" "baseType ?e \<noteq> tFixedArray" using chain_elem_laid[OF less.prems(1)] by auto
  note cs = chain_sizes[OF less.prems base_size_nonneg[OF e(2)]]
  have info: "info_getTypeSize ?A ?I ?n (makeTypeInfo t) = Some (getSizeOf E t)"
    if "(if ti_type (makeTypeInfo t) = tHandle then Some (int (an_sizeOf (?A (the (ti_annotation (makeTypeInfo t))))))
     else if ti_type (makeTypeInfo t) = tStructure then Some (si_size (?I ! the (ti_structType (makeTypeInfo t))))
     else if ti_type (makeTypeInfo t) = tTuple then
       map_option (\<lambda>(ps, al). round_up (tuple_end ps 0) (al - 1))
         (pair_some (those (map (\<lambda>a. pair_some (info_getTypeAlign ?A ?I ?n a) (info_getTypeSize ?A ?I ?n a)) (ti_argTypes (makeTypeInfo t)))) (info_getTupleAlign ?A ?I ?n (makeTypeInfo t)))
     else if ti_type (makeTypeInfo t) = tVariant then
       map_option (\<lambda>(szs, al). round_up (fold (\<lambda>sz maxSize. max (round_up (getTypeBaseSize tInt) (al - 1) + sz) maxSize) szs 0) (al - 1))
         (pair_some (those (map (info_getTypeSize ?A ?I ?n) (ti_argTypes (makeTypeInfo t)))) (info_getVariantAlign ?A ?I ?n (makeTypeInfo t)))
     else Some (getTypeBaseSize (ti_type (makeTypeInfo t)))) = Some (baseSize E ?e)"
    using that cs(1) by (subst info_getTypeSize.simps) simp
  have args: "those (map (\<lambda>a. pair_some (info_getTypeAlign ?A ?I ?n a) (info_getTypeSize ?A ?I ?n a)) (ti_argTypes (makeTypeInfo t))) =
      Some (map (\<lambda>u. (alignOf E u, getSizeOf E u)) (argTypes ?e))"
    "those (map (info_getTypeSize ?A ?I ?n) (ti_argTypes (makeTypeInfo t))) = Some (map (getSizeOf E) (argTypes ?e))"
    if agg: "baseType ?e \<in> {tTuple, tVariant}"
  proof -
    have u: "laid E (below E r ?n) u \<and> size u < size t \<and> fits E u" if "u \<in> set (argTypes ?e)" for u
      using e(1) that agg less.prems(2) chain_args_size by (auto simp: laid.simps[of E _ ?e] fits.simps[of E t] Let_def list_all_iff)
    have ih: "info_getTypeSize ?A ?I ?n (makeTypeInfo u) = Some (getSizeOf E u)" if "u \<in> set (argTypes ?e)" for u
      using less.IH u[OF that] by blast
    have al: "info_getTypeAlign ?A ?I ?n (makeTypeInfo u) = Some (alignOf E u)" if "u \<in> set (argTypes ?e)" for u
      using run_time_align[OF lay ne] u[OF that] by blast
    show "those (map (\<lambda>a. pair_some (info_getTypeAlign ?A ?I ?n a) (info_getTypeSize ?A ?I ?n a)) (ti_argTypes (makeTypeInfo t))) =
      Some (map (\<lambda>u. (alignOf E u, getSizeOf E u)) (argTypes ?e))"
      "those (map (info_getTypeSize ?A ?I ?n) (ti_argTypes (makeTypeInfo t))) = Some (map (getSizeOf E) (argTypes ?e))"
      unfolding makeTypeInfo_fields(3) map_map by (intro those_map_Some ballI; simp add: ih al)+
  qed
  have whole: "info_getTypeAlign ?A ?I ?n (makeTypeInfo t) = Some (alignOf E ?e)"
    using run_time_align[OF lay ne less.prems(1)] chain_same(1)[OF less.prems(1)] by simp
  show ?case using e(1)
  proof (cases rule: laid_cases)
    case (array u) then show ?thesis using e(2) by simp
  next
    case handle
    then show ?thesis by (intro info) (auto simp: makeTypeInfo_fields getBaseSizeOf64.simps[of E _ _ ?e] ann_of_def)
  next
    case (struct s)
    then have "baseSize E ?e = Structure_getSizeOf64 E ?n {} s" using lay
      by (simp add: getBaseSizeOf64.simps[of E _ _ ?e] layered_def)
    then show ?thesis using struct cs(2)
      by (intro info) (simp add: makeTypeInfo_fields struct_infos_nth makeStructureDebugInfo_def Structure_getSizeOf_def clamp_size_def)
  next
    case tuple
    have room: "roomy E (argTypes ?e)" using less.prems(2) tuple(1) by (simp add: fits.simps[of E t] Let_def)
    have al: "aligned_fields E (argTypes ?e)" using laid_args[OF lay e(1)] tuple(1) by simp
    have "map (\<lambda>u. (alignOf E u, getSizeOf E u)) (argTypes ?e) = field_pairs E (argTypes ?e)"
      using roomy_size[OF al room] by (simp add: field_pairs_def)
    moreover have "info_getTupleAlign ?A ?I ?n (makeTypeInfo t) = Some (getTupleAlign E ?n {} ?e)"
      using whole tuple(1) by (simp add: info_getTupleAlign_def info_getTypeAlign.simps[of _ _ _ "makeTypeInfo t"] makeTypeInfo_fields
          alignOf_def getAlignOf.simps[of E _ _ ?e] getTupleAlign_def)
    ultimately show ?thesis using tuple(1) args(1) tuple_size_pairs[OF al room tuple(1)]
      by (intro info) (simp add: makeTypeInfo_fields(1))
  next
    case variant
    have room: "variant_roomy E ?e" using less.prems(2) variant(1) by (simp add: fits.simps[of E t] Let_def)
    have al: "aligned_fields E (argTypes ?e)" using laid_args[OF lay e(1)] variant(1) by simp
    have "info_getVariantAlign ?A ?I ?n (makeTypeInfo t) = Some (alignOf E ?e)"
      using whole variant(1) by (simp add: info_getVariantAlign_def info_getTypeAlign.simps[of _ _ _ "makeTypeInfo t"] makeTypeInfo_fields)
    then show ?thesis using variant(1) args(2) variant_size(1)[OF al room variant(1)]
      by (intro info) (simp add: makeTypeInfo_fields(1) fold_map comp_def)
  next
    case enum
    then have "baseSize E ?e = getTypeBaseSize (case enumType ?e of Some e \<Rightarrow> e_enums E e | None \<Rightarrow> tInt)"
      by (simp add: getBaseSizeOf64.simps[of E _ _ ?e])
    moreover have "\<dots> = getTypeBaseSize (baseType ?e)"
      using enum(1,3) by (cases "enumType ?e") (auto simp: getEnumType_def isEnumT_def split: if_splits)
    ultimately show ?thesis using enum(2) by (intro info) (simp add: makeTypeInfo_fields)
  next
    case basic
    then show ?thesis by (intro info) (simp add: makeTypeInfo_fields getBaseSizeOf64.simps[of E _ _ ?e])
  qed
qed

text \<open>C9: the run time computes from the description of a type the alignment and size the compiler computes
  from the type itself, and the same offsets of tuple and variant fields: for laid-out types within 32 bits, when
  no structure is without fields; and the recursion through structures returns.\<close>

theorem run_time_layout_agrees:
  assumes "layered E r" and "fielded E" and "laid E (below E r (all_structs E)) t" and "fits E t"
  shows "info_getTypeAlign (e_anns E) (struct_infos E) (all_structs E) (makeTypeInfo t) = Some (alignOf E t) \<and>
    info_getTypeSize (e_anns E) (struct_infos E) (all_structs E) (makeTypeInfo t) = Some (getSizeOf E t) \<and>
    (baseType t = tTuple \<longrightarrow> (\<forall>i. info_getTupleFieldOffset (e_anns E) (struct_infos E) (all_structs E) (makeTypeInfo t) i = Some (getTupleFieldOffset E t i))) \<and>
    (baseType t = tVariant \<longrightarrow> (\<forall>i. info_getVariantFieldOffset (e_anns E) (struct_infos E) (all_structs E) (makeTypeInfo t) i = Some (getVariantFieldOffset E t i)))"
proof (intro conjI impI allI)
  let ?A = "e_anns E" and ?I = "struct_infos E" and ?n = "all_structs E"
  show al: "info_getTypeAlign ?A ?I ?n (makeTypeInfo t) = Some (alignOf E t)"
    using run_time_align[OF assms(1-3)] by blast
  show "info_getTypeSize ?A ?I ?n (makeTypeInfo t) = Some (getSizeOf E t)"
    by (rule run_time_size[OF assms])
  show "info_getTupleFieldOffset ?A ?I ?n (makeTypeInfo t) i = Some (getTupleFieldOffset E t i)" if t: "baseType t = tTuple" for i
  proof -
    have c: "chain_elem t = t" using t by (simp add: chain_elem.simps[of t])
    have "laid E (below E r ?n) u \<and> fits E u" if "u \<in> set (argTypes t)" for u
      using assms(3,4) that t c by (auto simp: laid.simps[of E _ t] fits.simps[of E t] Let_def list_all_iff)
    then have "those (map (\<lambda>a. pair_some (info_getTypeAlign ?A ?I ?n a) (info_getTypeSize ?A ?I ?n a)) (ti_argTypes (makeTypeInfo t))) =
      Some (map (\<lambda>u. (alignOf E u, getSizeOf E u)) (argTypes t))"
      unfolding makeTypeInfo_fields(3) map_map c
      using run_time_align[OF assms(1,2), where k = ?n and n = ?n] run_time_size[OF assms(1,2)] by (intro those_map_Some) auto
    then show ?thesis by (simp add: info_getTupleFieldOffset_def getTupleFieldOffset_def)
  qed
  show "info_getVariantFieldOffset ?A ?I ?n (makeTypeInfo t) i = Some (getVariantFieldOffset E t i)" if t: "baseType t = tVariant" for i
  proof -
    have c: "chain_elem t = t" using t by (simp add: chain_elem.simps[of t])
    have "info_getVariantAlign ?A ?I ?n (makeTypeInfo t) = Some (getVariantAlign E ?n {} t)"
      using al t by (simp add: info_getVariantAlign_def info_getTypeAlign.simps[of _ _ _ "makeTypeInfo t"] makeTypeInfo_fields c
          alignOf_def getAlignOf.simps[of E _ _ t] getVariantAlign_def)
    then show ?thesis by (simp add: info_getVariantFieldOffset_def getVariantFieldOffset_def)
  qed
qed

end
