(* ===== verification/LayoutDemo.thy ===== *)
theory LayoutDemo
  imports LayoutAgree TypeReach
begin

text \<open>
  The layout theorems on concrete types, and the types on which the two layouts differ: those with
  a structure without fields, whose alignment is 1 for the compiler and 0 at run time.
\<close>

definition lay_env :: env where
  "lay_env = \<lparr>e_structs = [
      demo_struct [demo_field False (new_type tInt8),
        demo_field False (TypeDecl tFixedArray None None None (Some (new_type tInt16)) None [] [] 3 no_flags ''''),
        demo_field False (new_type tDouble)],
      demo_struct [demo_field False (new_struct_type 0), demo_field False (new_type tInt8)]],
     e_anns = (\<lambda>_. demo_ann), e_enums = (\<lambda>_. tInt)\<rparr>"

definition tuple_of :: "type_decl list \<Rightarrow> type_decl" where
  "tuple_of ts = TypeDecl tTuple None None None None None ts [] 0 no_flags ''''"

definition lay_tuple :: type_decl where
  "lay_tuple = tuple_of [new_type tInt8, new_struct_type 1, new_type tInt]"

lemma laid_new_type: "laid E P (new_type b) \<longleftrightarrow> b \<notin> {tFixedArray, tHandle, tStructure, tTuple, aliasType, das_type.option, autoinfer,
    tEnumeration8, tEnumeration16, tEnumeration64}"
  by (subst laid.simps) (auto simp: new_type_def isEnumT_def)

lemma laid_array: "laid E P (TypeDecl tFixedArray st en an (Some u) sec as ns d fl al) = laid E P u"
  by (subst laid.simps) simp

lemma laid_tuple_of: "laid E P (tuple_of ts) \<longleftrightarrow> ts \<noteq> [] \<and> list_all (laid E P) ts"
  by (subst laid.simps) (simp add: tuple_of_def)

lemma lay_layered: "layered lay_env id"
proof -
  have "all_structs lay_env = 2" by (simp add: lay_env_def)
  moreover have "struct_of lay_env 0 = e_structs lay_env ! 0" "struct_of lay_env 1 = e_structs lay_env ! 1"
    by (simp_all add: struct_of_def)
  ultimately show ?thesis
    by (simp add: layered_def All_less_Suc numeral_2_eq_2) (simp add: lay_env_def demo_struct_def demo_field_def laid_new_type laid_array)
qed

lemma lay_laid: "laid lay_env (below lay_env id (all_structs lay_env)) lay_tuple"
  by (simp add: lay_tuple_def laid_tuple_of laid_new_type) (simp add: lay_env_def)

lemma lay_values: "roomy lay_env (argTypes lay_tuple)" "fits lay_env lay_tuple" "fielded lay_env"
  "roomy lay_env (struct_types lay_env 1)"
  by code_simp+

lemma lay_offsets:
  "map (getTupleFieldOffset lay_env lay_tuple) [0, 1, 2] = [0, 8, 32]" "getTupleSize lay_env lay_tuple = 40"
  "structure_offsets lay_env 0 = [0, 2, 8]" "structure_offsets lay_env 1 = [0, 16]"
  by code_simp+


lemma tuple_fields_apart_witness:
  "well_placed lay_env (argTypes lay_tuple) (getTupleFieldOffset lay_env lay_tuple) (getTupleSize lay_env lay_tuple) (alignOf lay_env lay_tuple) \<and>
    map (getTupleFieldOffset lay_env lay_tuple) [0, 1, 2] = [0, 8, 32] \<and> getTupleSize lay_env lay_tuple = 40"
  using tuple_fields_apart[OF lay_layered lay_laid _ lay_values(1)] lay_offsets(1,2) by (simp add: lay_tuple_def tuple_of_def)

lemma structure_fields_apart_witness:
  "well_placed lay_env (struct_types lay_env 1) (\<lambda>i. structure_offsets lay_env 1 ! i) (Structure_getSizeOf lay_env 1) (alignOf lay_env (new_struct_type 1)) \<and>
    structure_offsets lay_env 1 = [0, 16]"
proof -
  have "1 < all_structs lay_env" "\<not> sd_cppLayout (struct_of lay_env 1)" by code_simp+
  from structure_fields_apart[OF lay_layered this lay_values(4)] lay_offsets(4) show ?thesis by simp
qed

lemma run_time_layout_agrees_witness:
  "info_getTypeSize (e_anns lay_env) (struct_infos lay_env) 2 (makeTypeInfo lay_tuple) = Some 40 \<and>
    info_getTupleFieldOffset (e_anns lay_env) (struct_infos lay_env) 2 (makeTypeInfo lay_tuple) 2 = Some 32"
proof -
  have n: "all_structs lay_env = 2" "baseType lay_tuple = tTuple" by (simp_all add: lay_env_def lay_tuple_def tuple_of_def)
  have "getSizeOf lay_env lay_tuple = 40" by code_simp
  with run_time_layout_agrees[OF lay_layered lay_values(3) lay_laid lay_values(2)] lay_offsets(1) show ?thesis
    unfolding n by simp
qed

section \<open>Structures without fields\<close>

abbreviation scalar :: "das_type \<Rightarrow> bool" where
  "scalar b \<equiv> b \<notin> {tFixedArray, tHandle, tStructure, tTuple, tVariant, aliasType, das_type.option, autoinfer,
    tEnumeration, tEnumeration8, tEnumeration16, tEnumeration64}"

lemma scalar_layout:
  assumes "scalar b"
  shows "alignOf E (new_type b) = getTypeBaseAlign b" "getSizeOf E (new_type b) = getTypeBaseSize b"
    "info_getTypeAlign A I n (makeTypeInfo (new_type b)) = Some (getTypeBaseAlign b)"
    "info_getTypeSize A I n (makeTypeInfo (new_type b)) = Some (getTypeBaseSize b)"
proof -
  have small: "0 \<le> getTypeBaseSize b \<and> getTypeBaseSize b \<le> 64" by (cases b) simp_all
  have t: "baseType (new_type b) = b" "chain_elem (new_type b) = new_type b" "chain_dims (new_type b) = []" "\<not> isEnumT (new_type b)"
    using assms by (simp_all add: new_type_def chain_elem.simps chain_dims.simps isEnumT_def)
  have c: "getCountOf64 (new_type b) = 1" using assms t by (simp add: getCountOf64.simps[of "new_type b"])
  show "alignOf E (new_type b) = getTypeBaseAlign b" using assms t by (simp add: alignOf_def getAlignOf.simps[of E _ _ "new_type b"])
  have "getSizeOf64 E (new_type b) = getTypeBaseSize b" using assms t small
    by (simp add: getSizeOf64_def getSizeOf64_in_def getBaseSizeOf64.simps[of E _ _ "new_type b"] c)
  then show "getSizeOf E (new_type b) = getTypeBaseSize b" using small by (simp add: getSizeOf_def clamp_size_def)
  note i = makeTypeInfo_fields[of "new_type b", unfolded t]
  show "info_getTypeAlign A I n (makeTypeInfo (new_type b)) = Some (getTypeBaseAlign b)"
    using assms by (subst info_getTypeAlign.simps) (simp add: i)
  show "info_getTypeSize A I n (makeTypeInfo (new_type b)) = Some (getTypeBaseSize b)"
    using assms by (subst info_getTypeSize.simps) (simp add: i getDimSize_def)
qed

lemma empty_layout:
  assumes s: "s < all_structs E" and e: "sd_fields (struct_of E s) = []" and c: "\<not> sd_circular (struct_of E s)"
  shows "alignOf E (new_struct_type s) = 1" "getSizeOf E (new_struct_type s) = 0"
    "info_getTypeAlign A (struct_infos E) (all_structs E) (makeTypeInfo (new_struct_type s)) = Some 0"
    "info_getTypeSize A (struct_infos E) n (makeTypeInfo (new_struct_type s)) = Some 0"
proof -
  obtain m where m: "all_structs E = Suc m" using s by (cases "all_structs E") auto
  have a: "Structure_getAlignOf E (all_structs E) {} s = 1" by (subst Structure_getAlignOf.simps) (simp add: e m)
  have z: "Structure_getSizeOf64 E (all_structs E) {} s = 0"
    using a unfolding m by (subst Structure_getSizeOf64.simps) (simp add: e round_up64_def)
  show "alignOf E (new_struct_type s) = 1" using c by (simp add: alignOf_def align_struct a)
  have b: "baseSize E (new_struct_type s) = 0" using c z by (subst getBaseSizeOf64.simps) (simp add: new_struct_type_def)
  then show "getSizeOf E (new_struct_type s) = 0" by (simp add: getSizeOf_def getSizeOf64_def getSizeOf64_in_def clamp_size_def)
  have t: "chain_elem (new_struct_type s) = new_struct_type s" "chain_dims (new_struct_type s) = []" "baseType (new_struct_type s) = tStructure"
    "structType (new_struct_type s) = Some s"
    by (simp_all add: new_struct_type_def chain_elem.simps chain_dims.simps)
  note i = makeTypeInfo_fields[of "new_struct_type s", unfolded t]
  show "info_getTypeAlign A (struct_infos E) (all_structs E) (makeTypeInfo (new_struct_type s)) = Some 0"
  proof -
    have "info_getStructAlign A (struct_infos E) (all_structs E) s = Some 0"
      by (subst info_getStructAlign.simps) (simp add: struct_infos_nth[OF s] makeStructureDebugInfo_def e m)
    then show ?thesis by (subst info_getTypeAlign.simps) (simp add: i)
  qed
  show "info_getTypeSize A (struct_infos E) n (makeTypeInfo (new_struct_type s)) = Some 0"
    by (subst info_getTypeSize.simps) (simp add: i struct_infos_nth[OF s] makeStructureDebugInfo_def Structure_getSizeOf_def clamp_size_def z)
qed

text \<open>C35: in a tuple of a scalar, a structure without fields and another scalar, the run time places the
  third field at offset 0, over the first, where the compiler places it behind the first.\<close>

theorem empty_structure_overlaps:
  assumes "s < all_structs E" and "sd_fields (struct_of E s) = []" and "\<not> sd_circular (struct_of E s)" and "scalar b" and "scalar c"
  defines "t \<equiv> tuple_of [new_type b, new_struct_type s, new_type c]"
  shows "info_getTupleFieldOffset (e_anns E) (struct_infos E) (all_structs E) (makeTypeInfo t) 0 = Some 0 \<and>
    info_getTupleFieldOffset (e_anns E) (struct_infos E) (all_structs E) (makeTypeInfo t) 2 = Some 0 \<and>
    getTupleFieldOffset E t 0 = 0 \<and> getTypeBaseSize b \<le> getTupleFieldOffset E t 2"
proof -
  have args: "argTypes t = [new_type b, new_struct_type s, new_type c]" "chain_elem t = t"
    by (simp_all add: t_def tuple_of_def chain_elem.simps)
  note lay = scalar_layout[OF assms(4)] scalar_layout[OF assms(5)] empty_layout[OF assms(1-3)]
  have p: "pow2 (getTypeBaseAlign b)" "pow2 (getTypeBaseAlign c)" using assms(4,5) by (auto intro: getTypeBaseAlign_pow2)
  have z: "round_up 0 (a - 1) = 0" if "pow2 a" for a
  proof -
    from that have "\<exists>k. a = 2 ^ k" by (simp add: pow2_def)
    then show ?thesis by (auto simp: round_up_pow2)
  qed
  have m1: "round_up x (- 1) = 0" for x by (simp add: round_up_def)
  have up: "x \<le> round_up x (a - 1)" if "pow2 a" for x a using round_up_bounds(1)[OF that] .
  have a1: "round_up x 0 = x" for x by (simp add: round_up_def)
  show ?thesis
    using z[OF p(1)] z[OF p(2)] up[OF p(2), of "getTypeBaseSize b"]
    by (simp add: info_getTupleFieldOffset_def getTupleFieldOffset_def makeTypeInfo_fields args lay m1 a1 numeral_2_eq_2)
qed

definition empty_env :: env where
  "empty_env = \<lparr>e_structs = [demo_struct []], e_anns = (\<lambda>_. demo_ann), e_enums = (\<lambda>_. tInt)\<rparr>"

lemma empty_structure_overlaps_witness:
  "info_getTupleFieldOffset (e_anns empty_env) (struct_infos empty_env) 1 (makeTypeInfo (tuple_of [new_type tInt, new_struct_type 0, new_type tFloat])) 2 = Some 0 \<and>
    getTupleFieldOffset empty_env (tuple_of [new_type tInt, new_struct_type 0, new_type tFloat]) 2 = 4"
proof -
  have "getTupleFieldOffset empty_env (tuple_of [new_type tInt, new_struct_type 0, new_type tFloat]) 2 = 4" by code_simp
  then show ?thesis
    using empty_structure_overlaps[of 0 empty_env tInt tFloat] by (simp add: empty_env_def struct_of_def demo_struct_def)
qed

end
