(* ===== verification/Generics.thy ===== *)
theory Generics
  imports SameType MangledName
begin

text \<open>
  Inference of generic types (\<open>ast/ast_typedecl.cpp\<close>): what type an \<open>auto\<close> pattern stands for when it
  is matched with the type of an initializer or an argument, the contracts it adds to the result, and
  the aliases the match binds. The code names nodes by their addresses; here a node of the pattern
  is named by the path to it (0 and 1 are the first and second type, \<open>k + 2\<close> is argument \<open>k\<close>).
\<close>

section \<open>Copies\<close>

text \<open>\<open>TypeDecl(const TypeDecl &)\<close>: all but the alias cache.\<close>

fun copy_type :: "type_decl \<Rightarrow> type_decl" where
  "copy_type (TypeDecl b st en an ft sd args names dim fl al) =
    TypeDecl b st en an (map_option copy_type ft) (map_option copy_type sd) (map copy_type args) names dim
      (fl\<lparr>f_aliasCacheValid := False, f_aliasCacheHasAlias := False\<rparr>) al"

fun with_alias_name :: "string \<Rightarrow> type_decl \<Rightarrow> type_decl" where
  "with_alias_name a (TypeDecl b st en an f s as ns d fl al) = TypeDecl b st en an f s as ns d fl a"

section \<open>Inference\<close>

text \<open>A match gives a type or none; \<open>NullRead\<close> is a read through a component that is not there.\<close>

datatype inferred = NullRead | NoMatch | Inferred type_decl

type_synonym choices = "(nat list \<times> nat) list"

text \<open>The qualifiers of an option are copied, in place, to the alternative that is tried.\<close>

definition qualify_option :: "type_decl \<Rightarrow> type_decl \<Rightarrow> type_decl" where
  "qualify_option autoT = map_flags (\<lambda>f. f\<lparr>
     f_ref := f_ref f \<or> f_ref (flags autoT),
     f_constant := f_constant f \<or> f_constant (flags autoT),
     f_temporary := f_temporary f \<or> f_temporary (flags autoT),
     f_removeConstant := f_removeConstant f \<or> f_removeConstant (flags autoT),
     f_removeDim := f_removeDim f \<or> f_removeDim (flags autoT),
     f_removeRef := f_removeRef f \<or> f_removeRef (flags autoT),
     f_explicitConst := f_explicitConst f \<or> f_explicitConst (flags autoT),
     f_explicitRef := f_explicitRef f \<or> f_explicitRef (flags autoT),
     f_implicit := f_implicit f \<or> f_implicit (flags autoT)\<rparr>)"

text \<open>
  The loop over the alternatives of an option: the first that matches wins. It returns the
  match, the alternatives as the attempts left them, the choices made and the winner.
\<close>

fun try_options :: "(nat \<Rightarrow> type_decl \<Rightarrow> inferred \<times> type_decl \<times> choices) \<Rightarrow> nat \<Rightarrow> type_decl list \<Rightarrow>
    inferred \<times> type_decl list \<times> choices \<times> nat option" where
  "try_options infer i [] = (NoMatch, [], [], None)"
| "try_options infer i (TT # rest) = (case infer i TT of
     (NoMatch, TT', cs) \<Rightarrow> (case try_options infer (Suc i) rest of (r, rest', cs', k) \<Rightarrow> (r, TT' # rest', cs @ cs', k))
   | (r, TT', cs) \<Rightarrow> (r, TT' # rest, cs, Some i))"

text \<open>The loop over the arguments of a block-like pattern; the first failure ends it.\<close>

fun infer_args :: "(nat \<Rightarrow> type_decl \<Rightarrow> type_decl \<Rightarrow> inferred \<times> type_decl \<times> choices) \<Rightarrow> nat \<Rightarrow> type_decl list \<Rightarrow> type_decl list \<Rightarrow>
    (inferred + type_decl list) \<times> type_decl list \<times> choices" where
  "infer_args infer i (a # as) (b # bs) = (case infer i a b of
     (Inferred t, a', cs) \<Rightarrow> (case infer_args infer (Suc i) as bs of
        (Inl r, as', cs') \<Rightarrow> (Inl r, a' # as', cs @ cs')
      | (Inr ts, as', cs') \<Rightarrow> (Inr (t # ts), a' # as', cs @ cs'))
   | (r, a', cs) \<Rightarrow> (Inl r, a' # as, cs))"
| "infer_args infer i as bs = (Inr [], as, [])"

lemma try_options_cong [fundef_cong]:
  assumes "i = j" "us = vs" "\<And>k u. u \<in> set vs \<Longrightarrow> f k u = g k u"
  shows "try_options f i us = try_options g j vs"
proof -
  have "try_options f i us = try_options g i us" using assms(3) unfolding assms(2)[symmetric]
  proof (induction us arbitrary: i)
    case (Cons u us)
    have h: "f i u = g i u" "try_options f (Suc i) us = try_options g (Suc i) us" using Cons by auto
    show ?case unfolding try_options.simps h ..
  qed simp
  then show ?thesis using assms(1,2) by simp
qed

lemma infer_args_cong [fundef_cong]:
  assumes "i = j" "as = as'" "bs = bs'" "\<And>k a b. a \<in> set as' \<Longrightarrow> f k a b = g k a b"
  shows "infer_args f i as bs = infer_args g j as' bs'"
proof -
  have "infer_args f i as bs = infer_args g i as bs" using assms(4) unfolding assms(2)[symmetric]
  proof (induction as arbitrary: i bs)
    case (Cons a as)
    have h: "f i a b = g i a b" "infer_args f (Suc i) as bs = infer_args g (Suc i) as bs" for b bs
      using Cons by auto
    show ?case
    proof (cases bs)
      case (Cons b bs') show ?thesis unfolding Cons infer_args.simps h ..
    qed simp
  qed simp
  then show ?thesis using assms(1-3) by simp
qed

lemma size_map_flags [simp]: "size (map_flags g t) = size t"
  by (cases t) simp

lemma size_qualify [simp]: "size (qualify_option a t) = size t"
  by (simp add: qualify_option_def)

text \<open>\<open>autoT\<close> carries the contracts of the pattern over to the copy of the initializer's type.\<close>

definition start_result :: "type_decl \<Rightarrow> type_decl \<Rightarrow> type_decl" where
  "start_result autoT initT = with_alias_name (td_alias autoT) (map_flags (\<lambda>f. f\<lparr>
     f_aotAlias := f_aotAlias (flags autoT),
     f_removeRef := False, f_removeConstant := False, f_removeTemporary := False, f_removeDim := False,
     f_implicit := f_implicit f \<or> f_implicit (flags autoT),
     f_explicitConst := f_explicitConst f \<or> f_explicitConst (flags autoT),
     f_explicitRef := f_explicitRef f \<or> f_explicitRef (flags autoT)\<rparr>) (copy_type initT))"

abbreviation block_like :: "das_type \<Rightarrow> bool" where
  "block_like b \<equiv> b \<in> {tBlock, tFunction, tLambda, tTuple, tVariant}"

text \<open>The tests between \<open>isAuto\<close> and the construction of the result, in the source's order.\<close>

definition shape_refused :: "env \<Rightarrow> type_decl \<Rightarrow> type_decl \<Rightarrow> bool" where
  "shape_refused E autoT initT \<longleftrightarrow>
     baseType autoT \<noteq> autoinfer \<and> baseType autoT \<noteq> baseType initT
   \<or> f_ref (flags autoT) \<and> \<not> isRef E initT
   \<or> baseType autoT = tFixedArray \<and> (baseType initT \<noteq> tFixedArray \<or> firstType initT = None
       \<or> fixedDim autoT \<noteq> dimAuto \<and> fixedDim autoT \<noteq> fixedDim initT)
   \<or> baseType autoT \<noteq> autoinfer \<and> \<not> f_implicit (flags autoT) \<and> \<not> f_implicit (flags initT)
       \<and> f_temporary (flags autoT) \<noteq> f_temporary (flags initT)
   \<or> isPointer autoT \<and> (\<not> isPointer initT \<or> firstType initT = None \<or> f_smartPtr (flags autoT) \<noteq> f_smartPtr (flags initT))
   \<or> baseType autoT = tArray \<and> (baseType initT \<noteq> tArray \<or> firstType initT = None)
   \<or> baseType autoT = tTable \<and> (baseType initT \<noteq> tTable \<or> firstType initT = None \<or> secondType initT = None)
   \<or> block_like (baseType autoT) \<and> (baseType initT \<noteq> baseType autoT \<or> (firstType autoT \<noteq> None) \<noteq> (firstType initT \<noteq> None)
       \<or> length (argTypes autoT) \<noteq> length (argTypes initT))"

text \<open>A component of the pattern against the same component of the type.\<close>

definition infer_part :: "(type_decl \<Rightarrow> type_decl \<Rightarrow> inferred \<times> type_decl \<times> choices) \<Rightarrow> type_decl option \<Rightarrow> type_decl option \<Rightarrow>
    inferred \<times> type_decl option \<times> choices" where
  "infer_part infer a b = (case (a, b) of
     (Some u, Some v) \<Rightarrow> (case infer u v of (r, u', cs) \<Rightarrow> (r, Some u', cs))
   | _ \<Rightarrow> (NullRead, a, []))"

lemma infer_part_cong [fundef_cong]:
  "a = a' \<Longrightarrow> b = b' \<Longrightarrow> (\<And>u v. a' = Some u \<Longrightarrow> b' = Some v \<Longrightarrow> f u v = g u v) \<Longrightarrow> infer_part f a b = infer_part g a' b'"
  by (simp add: infer_part_def split: option.split)

fun put_first :: "type_decl option \<Rightarrow> type_decl \<Rightarrow> type_decl" where
  "put_first ft (TypeDecl b st en an f s as ns d fl al) = TypeDecl b st en an ft s as ns d fl al"

fun put_second :: "type_decl option \<Rightarrow> type_decl \<Rightarrow> type_decl" where
  "put_second s' (TypeDecl b st en an f s as ns d fl al) = TypeDecl b st en an f s' as ns d fl al"

fun put_args :: "type_decl list \<Rightarrow> type_decl \<Rightarrow> type_decl" where
  "put_args as' (TypeDecl b st en an f s as ns d fl al) = TypeDecl b st en an f s as' ns d fl al"

fun put_names :: "string list \<Rightarrow> type_decl \<Rightarrow> type_decl" where
  "put_names ns' (TypeDecl b st en an f s as ns d fl al) = TypeDecl b st en an f s as ns' d fl al"

text \<open>
  Returns the match, the pattern as it is left, and the options' choices.
\<close>

function inferGenericType :: "env \<Rightarrow> type_decl \<Rightarrow> type_decl \<Rightarrow> bool \<Rightarrow> bool \<Rightarrow> nat list \<Rightarrow> inferred \<times> type_decl \<times> choices" where
  "inferGenericType E autoT initT topLevel passType path =
    (if baseType autoT = das_type.option then
       (case try_options (\<lambda>i TT. inferGenericType E (qualify_option autoT TT) initT topLevel passType (path @ [i + 2])) 0 (argTypes autoT) of
          (r, TTs, cs, chosen) \<Rightarrow> (r, put_args TTs autoT, (case chosen of Some i \<Rightarrow> [(path, i)] | None \<Rightarrow> []) @ cs))
     else if f_explicitConst (flags autoT) \<and> f_constant (flags autoT) \<noteq> f_constant (flags initT) then (NoMatch, autoT, [])
     else if f_explicitRef (flags autoT) \<and> f_ref (flags autoT) \<noteq> f_ref (flags initT) then (NoMatch, autoT, [])
     else if isAuto initT \<and> \<not> isAuto autoT then (Inferred (copy_type autoT), autoT, [])
     else if isAuto initT \<and> \<not> block_like (baseType autoT) then (NoMatch, autoT, [])
     else if \<not> isAuto autoT then
       (let rm = \<not> (topLevel \<and> (\<not> f_ref (flags autoT) \<and> \<not> f_explicitRef (flags autoT) \<or> isRefType E autoT));
            cm = \<not> (topLevel \<and> f_constant (flags autoT) \<and> \<not> f_explicitConst (flags autoT))
        in if isSameType E autoT initT rm cm True True True passType then (Inferred (copy_type autoT), autoT, []) else (NoMatch, autoT, []))
     else if shape_refused E autoT initT then (NoMatch, autoT, [])
     else let TT = start_result autoT initT in
       if baseType autoT = tPointer \<or> baseType autoT = tFixedArray \<or> baseType autoT = tIterator \<or> baseType autoT = tArray then
         (case infer_part (\<lambda>u v. inferGenericType E u v False False (path @ [0])) (firstType autoT) (firstType initT) of
            (Inferred u, a, cs) \<Rightarrow> (Inferred (put_first (Some u) TT), put_first a autoT, cs)
          | (r, a, cs) \<Rightarrow> (r, put_first a autoT, cs))
       else if baseType autoT = tTable then
         (case infer_part (\<lambda>u v. inferGenericType E u v False False (path @ [0])) (firstType autoT) (firstType initT) of
            (Inferred u, a, cs) \<Rightarrow>
              if \<not> isTableKeyType E u then (NoMatch, put_first a autoT, cs)
              else (case infer_part (\<lambda>u v. inferGenericType E u v False False (path @ [1])) (secondType autoT) (secondType initT) of
                 (Inferred v, b, cs') \<Rightarrow> (Inferred (put_first (Some u) (put_second (Some v) TT)), put_first a (put_second b autoT), cs @ cs')
               | (r, b, cs') \<Rightarrow> (r, put_first a (put_second b autoT), cs @ cs'))
          | (r, a, cs) \<Rightarrow> (r, put_first a autoT, cs))
       else if block_like (baseType autoT) then
         (case (if firstType autoT = None then (Inferred TT, None, []) else infer_part (\<lambda>u v. inferGenericType E u v False False (path @ [0])) (firstType autoT) (firstType initT)) of
            (Inferred u, a, cs) \<Rightarrow>
              (case infer_args (\<lambda>i u v. inferGenericType E u v False False (path @ [i + 2])) 0 (argTypes autoT) (argTypes initT) of
                 (Inr ts, as, cs') \<Rightarrow>
                   (Inferred (put_first (if firstType autoT = None then firstType TT else Some u) (put_args ts
                      (if argNames TT = [] \<and> argNames autoT \<noteq> [] then put_names (argNames autoT) TT else TT))),
                    put_first a (put_args as autoT), cs @ cs')
               | (Inl r, as, cs') \<Rightarrow> (r, put_first a (put_args as autoT), cs @ cs'))
          | (r, a, cs) \<Rightarrow> (r, put_first a autoT, cs))
       else (Inferred TT, autoT, []))"
  by pat_completeness auto
termination
  by (relation "measure (\<lambda>(E, t, _). size t)") (auto intro: firstType_size secondType_size argTypes_size)

declare inferGenericType.simps [simp del]

text \<open>An option of a reference type is tried without its own reference.\<close>

definition inferGenericInitType :: "env \<Rightarrow> type_decl \<Rightarrow> type_decl \<Rightarrow> inferred \<times> type_decl" where
  "inferGenericInitType E autoT initT =
    (if f_ref (flags autoT) then
       (case inferGenericType E (map_flags (\<lambda>f. f\<lparr>f_ref := False\<rparr>) autoT) initT True False [] of
          (r, a, _) \<Rightarrow>
            (case r of Inferred t \<Rightarrow> Inferred (map_flags (\<lambda>f. f\<lparr>f_ref := True\<rparr>) t) | _ \<Rightarrow> r, map_flags (\<lambda>f. f\<lparr>f_ref := True\<rparr>) a))
     else (case inferGenericType E autoT initT True False [] of (r, a, _) \<Rightarrow> (r, a)))"

section \<open>Contracts\<close>

text \<open>What the pattern adds to the type inferred from it; both trees are walked together.\<close>

definition contract_flags :: "td_flags \<Rightarrow> td_flags \<Rightarrow> td_flags" where
  "contract_flags a f = f\<lparr>
     f_ref := (f_ref f \<or> f_ref a) \<and> \<not> f_removeRef a \<and> \<not> f_removeRef f,
     f_constant := (f_constant f \<or> f_constant a) \<and> \<not> f_removeConstant a \<and> \<not> f_removeConstant f,
     f_temporary := (f_temporary f \<or> f_temporary a) \<and> \<not> f_removeTemporary a \<and> \<not> f_removeTemporary f,
     f_safeWhenUninitialized := f_safeWhenUninitialized f \<or> f_safeWhenUninitialized a,
     f_removeConstant := False, f_removeDim := False, f_removeRef := False\<rparr>"

definition zip_over :: "('a \<Rightarrow> 'b \<Rightarrow> 'a) \<Rightarrow> 'a list \<Rightarrow> 'b list \<Rightarrow> 'a list" where
  "zip_over f xs ys = map (\<lambda>(x, y). f x y) (zip xs ys) @ drop (length ys) xs"

lemma zip_over_cong [fundef_cong]:
  assumes "xs = xs'" "ys = ys'" "\<And>x y. y \<in> set ys' \<Longrightarrow> f x y = g x y"
  shows "zip_over f xs ys = zip_over g xs' ys'"
proof -
  have "f x y = g x y" if "(x, y) \<in> set (zip xs ys)" for x y using assms(2,3) set_zip_rightD[OF that] by simp
  then show ?thesis using assms(1,2) by (auto simp: zip_over_def)
qed

definition over_opt :: "('a \<Rightarrow> 'b \<Rightarrow> 'a) \<Rightarrow> 'a option \<Rightarrow> 'b option \<Rightarrow> 'a option" where
  "over_opt f x y = (case (x, y) of (Some u, Some v) \<Rightarrow> Some (f u v) | _ \<Rightarrow> x)"

lemma over_opt_cong [fundef_cong]:
  "x = x' \<Longrightarrow> y = y' \<Longrightarrow> (\<And>u v. x' = Some u \<Longrightarrow> y' = Some v \<Longrightarrow> f u v = g u v) \<Longrightarrow> over_opt f x y = over_opt g x' y'"
  by (simp add: over_opt_def split: option.split)

function applyAutoContracts :: "type_decl \<Rightarrow> type_decl \<Rightarrow> type_decl" where
  "applyAutoContracts TT autoT =
    (if \<not> isAuto autoT then TT
     else let T1 = map_flags (contract_flags (flags autoT)) TT;
              first = over_opt applyAutoContracts (firstType TT) (firstType autoT) in
       if isPointer autoT \<or> baseType autoT = tFixedArray \<or> baseType autoT = tIterator \<or> baseType autoT = tArray then put_first first T1
       else if baseType autoT = tTable then put_first first (put_second (over_opt applyAutoContracts (secondType TT) (secondType autoT)) T1)
       else if block_like (baseType autoT) then put_first first (put_args (zip_over applyAutoContracts (argTypes TT) (argTypes autoT)) T1)
       else T1)"
  by pat_completeness auto
termination
  by (relation "measure (\<lambda>(_, t). size t)") (auto intro: firstType_size secondType_size argTypes_size)

declare applyAutoContracts.simps [simp del]

text \<open>A reference to what is a reference already is dropped; the components of an iterator, an array or a table must be there.\<close>

fun applyRefToRef :: "env \<Rightarrow> type_decl \<Rightarrow> bool \<Rightarrow> type_decl" where
  "applyRefToRef E TT topLevel =
    (let T1 = (if topLevel \<and> f_ref (flags TT) \<and> isRefType E TT then map_flags (\<lambda>f. f\<lparr>f_ref := False\<rparr>) TT else TT);
         first = map_option (\<lambda>u. applyRefToRef E u False) (firstType TT) in
     if isPointer TT \<or> baseType TT = tIterator \<or> baseType TT = tArray \<or> baseType TT = tFixedArray then put_first first T1
     else if baseType TT = tTable then put_first first (put_second (map_option (\<lambda>u. applyRefToRef E u False) (secondType TT)) T1)
     else if baseType TT = tBlock \<or> baseType TT = tFunction \<or> baseType TT = tLambda then
       put_first first (put_args (map (\<lambda>u. applyRefToRef E u True) (argTypes TT)) T1)
     else if baseType TT = tTuple \<or> baseType TT = tVariant then put_args (map (\<lambda>u. applyRefToRef E u False) (argTypes TT)) T1
     else T1)"

declare applyRefToRef.simps [simp del]

section \<open>Aliases\<close>

definition alias_binding :: "type_decl \<Rightarrow> string \<Rightarrow> type_decl" where
  "alias_binding t a = map_flags (\<lambda>f. f\<lparr>f_constant := False, f_temporary := False, f_ref := False, f_explicitConst := False\<rparr>)
     (with_alias_name a (copy_type t))"

definition bind_alias :: "string \<Rightarrow> type_decl \<Rightarrow> (string \<Rightarrow> type_decl option) \<Rightarrow> string \<Rightarrow> type_decl option" where
  "bind_alias a t aliases = (if a \<noteq> [] \<and> aliases a = None then aliases(a := Some (alias_binding t a)) else aliases)"

text \<open>
  \<open>None\<close> is the failed verification "option not found". \<open>opt\<close> looks the choice of an option up.
\<close>

fun alias_args :: "(nat \<Rightarrow> type_decl \<Rightarrow> type_decl \<Rightarrow> 's \<Rightarrow> 's option) \<Rightarrow> nat \<Rightarrow> type_decl list \<Rightarrow> type_decl list \<Rightarrow> 's \<Rightarrow> 's option" where
  "alias_args f i (a # as) (b # bs) s = Option.bind (f i a b s) (alias_args f (Suc i) as bs)"
| "alias_args f i as bs s = Some s"

lemma alias_args_cong [fundef_cong]:
  assumes "i = j" "as = as'" "bs = bs'" "s = s'" "\<And>k a b s. a \<in> set as' \<Longrightarrow> f k a b s = g k a b s"
  shows "alias_args f i as bs s = alias_args g j as' bs' s'"
proof -
  have "alias_args f i as bs s = alias_args g i as bs s" using assms(5) unfolding assms(2)[symmetric]
  proof (induction as arbitrary: i bs s)
    case (Cons a as)
    have h: "f i a b s = g i a b s" "alias_args f (Suc i) as bs s = alias_args g (Suc i) as bs s" for b bs s
      using Cons by auto
    show ?case by (cases bs; cases "g i a (List.hd bs) s") (simp_all add: h)
  qed simp
  then show ?thesis using assms(1-4) by simp
qed

definition alias_part :: "(type_decl \<Rightarrow> type_decl \<Rightarrow> 's \<Rightarrow> 's option) \<Rightarrow> type_decl option \<Rightarrow> type_decl option \<Rightarrow> 's \<Rightarrow> 's option" where
  "alias_part f a b s = (case (a, b) of (Some u, Some v) \<Rightarrow> f u v s | _ \<Rightarrow> Some s)"

lemma alias_part_cong [fundef_cong]:
  "a = a' \<Longrightarrow> b = b' \<Longrightarrow> s = s' \<Longrightarrow> (\<And>u v s. a' = Some u \<Longrightarrow> b' = Some v \<Longrightarrow> f u v s = g u v s) \<Longrightarrow> alias_part f a b s = alias_part g a' b' s'"
  by (simp add: alias_part_def split: option.split)

function updateAliasMap :: "(nat list \<Rightarrow> nat option) \<Rightarrow> nat list \<Rightarrow> type_decl \<Rightarrow> type_decl \<Rightarrow> (string \<Rightarrow> type_decl option) \<Rightarrow>
    (string \<Rightarrow> type_decl option) option" where
  "updateAliasMap opt path decl pass aliases =
    (if baseType decl = das_type.option then
       (case opt path of None \<Rightarrow> None
        | Some i \<Rightarrow> if i < length (argTypes decl) then updateAliasMap opt (path @ [i + 2]) (argTypes decl ! i) pass aliases else None)
     else if baseType decl = autoinfer then Some (bind_alias (td_alias decl) pass aliases)
     else if baseType pass = autoinfer then Some (bind_alias (td_alias pass) decl aliases)
     else Option.bind (alias_part (\<lambda>u v. updateAliasMap opt (path @ [0]) u v) (firstType decl) (firstType pass) aliases)
       (\<lambda>al. Option.bind (alias_part (\<lambda>u v. updateAliasMap opt (path @ [1]) u v) (secondType decl) (secondType pass) al)
         (\<lambda>al. alias_args (\<lambda>i u v. updateAliasMap opt (path @ [i + 2]) u v) 0 (argTypes decl) (argTypes pass) al)))"
  by pat_completeness auto
termination
  by (relation "measure (\<lambda>(_, _, t, _). size t)") (auto intro: firstType_size secondType_size argTypes_size)

declare updateAliasMap.simps [simp del]

text \<open>\<open>computeAliasCache\<close> marks every node it visits; \<open>findAlias\<close> trusts the mark.\<close>

definition mark_alias :: "bool \<Rightarrow> type_decl \<Rightarrow> type_decl" where
  "mark_alias has = map_flags (\<lambda>f. f\<lparr>f_aliasCacheValid := True, f_aliasCacheHasAlias := has\<rparr>)"

fun computeAliasCache :: "type_decl \<Rightarrow> type_decl" where
  "computeAliasCache t =
    (if f_aliasCacheValid (flags t) then t
     else if baseType t = aliasType then mark_alias False t
     else let first = map_option computeAliasCache (firstType t);
              second = map_option computeAliasCache (secondType t);
              args = map computeAliasCache (argTypes t);
              hasAny = (td_alias t \<noteq> [] \<or> list_ex (\<lambda>u. f_aliasCacheHasAlias (flags u)) (opt_list first @ opt_list second @ args))
          in mark_alias hasAny (put_first first (put_second second (put_args args t))))"

declare computeAliasCache.simps [simp del]

fun first_found :: "('a \<Rightarrow> 'b option) \<Rightarrow> 'a list \<Rightarrow> 'b option" where
  "first_found f [] = None"
| "first_found f (u # us) = (case f u of None \<Rightarrow> first_found f us | Some x \<Rightarrow> Some x)"

lemma first_found_cong [fundef_cong]:
  "us = vs \<Longrightarrow> (\<And>u. u \<in> set vs \<Longrightarrow> f u = g u) \<Longrightarrow> first_found f us = first_found g vs"
  by (induction us arbitrary: vs) (auto split: option.split)

lemma put_sel [simp]:
  "argTypes (put_first x t) = argTypes t" "firstType (put_first x t) = x" "secondType (put_first x t) = secondType t"
  "argTypes (put_second x t) = argTypes t" "firstType (put_second x t) = firstType t" "secondType (put_second x t) = x"
  "argTypes (put_args as t) = as" "firstType (put_args as t) = firstType t" "secondType (put_args as t) = secondType t"
  "argTypes (put_names ns t) = argTypes t" "firstType (put_names ns t) = firstType t" "secondType (put_names ns t) = secondType t"
  "argTypes (map_flags g t) = argTypes t" "firstType (map_flags g t) = firstType t" "secondType (map_flags g t) = secondType t"
  "argTypes (with_alias_name a t) = argTypes t" "firstType (with_alias_name a t) = firstType t" "secondType (with_alias_name a t) = secondType t"
  by (cases t; simp)+

lemma put_base [simp]:
  "baseType (put_first x t) = baseType t" "baseType (put_second x t) = baseType t" "baseType (put_args as t) = baseType t"
  "baseType (put_names ns t) = baseType t" "baseType (map_flags g t) = baseType t" "baseType (with_alias_name a t) = baseType t"
  "td_alias (put_first x t) = td_alias t" "td_alias (put_second x t) = td_alias t" "td_alias (put_args as t) = td_alias t"
  "td_alias (put_names ns t) = td_alias t" "td_alias (map_flags g t) = td_alias t" "td_alias (with_alias_name a t) = a"
  "fixedDim (put_first x t) = fixedDim t" "fixedDim (put_second x t) = fixedDim t" "fixedDim (put_args as t) = fixedDim t"
  "fixedDim (put_names ns t) = fixedDim t" "fixedDim (map_flags g t) = fixedDim t" "fixedDim (with_alias_name a t) = fixedDim t"
  "flags (put_first x t) = flags t" "flags (put_second x t) = flags t" "flags (put_args as t) = flags t"
  "flags (put_names ns t) = flags t" "flags (map_flags g t) = g (flags t)" "flags (with_alias_name a t) = flags t"
  by (cases t; simp)+

lemma size_parts: "size t = size (TypeDecl das_type.none None None None (firstType t) (secondType t) (argTypes t) (argNames t) 0 no_flags [])"
  by (cases t) simp

lemma size_mark [simp]: "size (mark_alias b t) = size t"
  by (simp add: mark_alias_def)

lemma size_computeAliasCache [simp]: "size (computeAliasCache t) = size t"
proof (induction t rule: computeAliasCache.induct)
  case (1 t)
  have l: "size_list size (map computeAliasCache (argTypes t)) = size_list size (argTypes t)"
    if "\<not> f_aliasCacheValid (flags t)" "baseType t \<noteq> aliasType"
  proof -
    have "map (size \<circ> computeAliasCache) (argTypes t) = map size (argTypes t)" using 1(3) that by simp
    then show ?thesis by (simp only: size_list_conv_sum_list map_map length_map)
  qed
  show ?case
  proof (cases "f_aliasCacheValid (flags t) \<or> baseType t = aliasType")
    case True then show ?thesis by (subst computeAliasCache.simps) auto
  next
    case False
    then have "size (computeAliasCache t) = size (put_first (map_option computeAliasCache (firstType t))
        (put_second (map_option computeAliasCache (secondType t)) (put_args (map computeAliasCache (argTypes t)) t)))"
      by (subst computeAliasCache.simps) (simp add: Let_def)
    also have "\<dots> = size t" using False 1(1,2) l
      by (cases t; cases "firstType t"; cases "secondType t") auto
    finally show ?thesis .
  qed
qed

lemma component_size: "z \<in> set (opt_list (firstType t) @ opt_list (secondType t) @ argTypes t) \<Longrightarrow> size z < size t"
  using firstType_size secondType_size argTypes_size by auto

text \<open>The node found; the out-parameter \<open>constUnderDim\<close> is left out.\<close>

function findAlias :: "string \<Rightarrow> bool \<Rightarrow> type_decl \<Rightarrow> type_decl option" where
  "findAlias na allowAuto t0 = (let t = computeAliasCache t0 in
     if \<not> f_aliasCacheHasAlias (flags t) then None
     else if baseType t = aliasType then None
     else if baseType t = autoinfer \<and> \<not> allowAuto then None
     else if td_alias t = na then Some t
     else first_found (findAlias na allowAuto) (opt_list (firstType t) @ opt_list (secondType t) @ argTypes t))"
  by pat_completeness auto
termination
proof (relation "measure (\<lambda>(_, _, t). size t)", goal_cases)
  case (2 na allowAuto t0 t z)
  have "size z < size t" by (rule component_size) (use 2 in simp)
  then show ?case unfolding 2(1) by simp
qed simp

declare findAlias.simps [simp del]

end
