(* ===== verification/GenericsProps.thy ===== *)
theory GenericsProps
  imports Generics
begin

text \<open>What a successful match returns, and that trying a pattern leaves it fit for the next try.\<close>

section \<open>The loops\<close>

lemma try_options_wins:
  "try_options f i us = (Inferred t, us', cs, ch) \<Longrightarrow>
    \<exists>k<length us. ch = Some (i + k) \<and> fst (f (i + k) (us ! k)) = Inferred t \<and> (\<forall>j<k. fst (f (i + j) (us ! j)) = NoMatch)"
proof (induction us arbitrary: i us' cs)
  case (Cons u us)
  obtain r u' c where f: "f i u = (r, u', c)" by (cases "f i u")
  show ?case
  proof (cases r)
    case NoMatch
    then obtain us'' cs'' where "try_options f (Suc i) us = (Inferred t, us'', cs'', ch)"
      using Cons.prems f by (auto split: prod.splits)
    from Cons.IH[OF this] obtain k where k: "k < length us" "ch = Some (Suc i + k)" "fst (f (Suc i + k) (us ! k)) = Inferred t"
      "\<forall>j<k. fst (f (Suc i + j) (us ! j)) = NoMatch" by blast
    have "fst (f (i + j) ((u # us) ! j)) = NoMatch" if "j < Suc k" for j
      using that k(4) f NoMatch by (cases j) auto
    then show ?thesis using k by (intro exI[of _ "Suc k"]) auto
  qed (use Cons.prems f in auto)
qed simp

lemma infer_args_all:
  "infer_args f i as bs = (Inr ts, as', cs) \<Longrightarrow> length as = length bs \<Longrightarrow>
    length ts = length as \<and> (\<forall>k<length as. fst (f (i + k) (as ! k) (bs ! k)) = Inferred (ts ! k))"
proof (induction as arbitrary: i bs ts as' cs)
  case (Cons a as)
  obtain b bs' where bs: "bs = b # bs'" using Cons.prems(2) by (cases bs) auto
  obtain r a' c where f: "f i a b = (r, a', c)" by (cases "f i a b")
  from Cons.prems(1) obtain t ts' as'' cs'' where
    r: "r = Inferred t" "infer_args f (Suc i) as bs' = (Inr ts', as'', cs'')" "ts = t # ts'"
    by (auto simp: bs f split: inferred.splits prod.splits sum.splits)
  from Cons.IH[OF r(2)] Cons.prems(2) bs have ih: "length ts' = length as"
    "\<forall>k<length as. fst (f (Suc i + k) (as ! k) (bs' ! k)) = Inferred (ts' ! k)" by auto
  have "fst (f (i + k) ((a # as) ! k) (bs ! k)) = Inferred (ts ! k)" if "k < Suc (length as)" for k
    using that ih(2) f r(1,3) bs by (cases k) auto
  then show ?case using ih(1) r(3) by simp
qed simp

lemma infer_part_some:
  "infer_part f a b = (Inferred t, a', cs) \<Longrightarrow> \<exists>u v. a = Some u \<and> b = Some v \<and> fst (f u v) = Inferred t \<and> snd (snd (f u v)) = cs"
  by (auto simp: infer_part_def split: option.splits prod.splits)

abbreviation single_part :: "das_type \<Rightarrow> bool" where
  "single_part b \<equiv> b \<in> {tPointer, tFixedArray, tIterator, tArray}"

lemma shape_block: "\<not> shape_refused E a i \<Longrightarrow> block_like (baseType a) \<Longrightarrow> length (argTypes a) = length (argTypes i)"
  by (rule ccontr) (simp only: shape_refused_def simp_thms)

lemma infer_args_failure: "infer_args f i as bs = (Inl r, as', cs) \<Longrightarrow> r \<noteq> Inferred t"
  by (induction as arbitrary: i bs as' cs; case_tac bs)
    (auto split: inferred.splits prod.splits sum.splits)

lemma else_taken: "(if P then x else y) = z \<Longrightarrow> x \<noteq> z \<Longrightarrow> \<not> P"
  by auto

lemma infer_success_cases [consumes 1, case_names alternative plain single table block free]:
  assumes "inferGenericType E a i lvl pass path = (Inferred t, a', cs)"
  obtains k where "baseType a = das_type.option" "k < length (argTypes a)"
      "fst (inferGenericType E (qualify_option a (argTypes a ! k)) i lvl pass (path @ [k + 2])) = Inferred t"
      "\<exists>us' c. try_options (\<lambda>k u. inferGenericType E (qualify_option a u) i lvl pass (path @ [k + 2])) 0 (argTypes a) = (Inferred t, us', c, Some k) \<and> cs = (path, k) # c"
  | "baseType a \<noteq> das_type.option" "\<not> isAuto a" "t = copy_type a" "isAuto i \<or> baseType i = baseType a"
  | u v w where "isAuto a" "single_part (baseType a)" "\<not> isAuto i" "\<not> shape_refused E a i" "firstType a = Some u" "firstType i = Some v"
      "fst (inferGenericType E u v False False (path @ [0])) = Inferred w" "snd (snd (inferGenericType E u v False False (path @ [0]))) = cs" "t = put_first (Some w) (start_result a i)"
  | u v w u2 v2 w2 where "isAuto a" "baseType a = tTable" "\<not> isAuto i" "\<not> shape_refused E a i" "firstType a = Some u" "firstType i = Some v"
      "fst (inferGenericType E u v False False (path @ [0])) = Inferred w" "isTableKeyType E w" "secondType a = Some u2" "secondType i = Some v2"
      "fst (inferGenericType E u2 v2 False False (path @ [1])) = Inferred w2" "t = put_first (Some w) (put_second (Some w2) (start_result a i))"
      "cs = snd (snd (inferGenericType E u v False False (path @ [0]))) @ snd (snd (inferGenericType E u2 v2 False False (path @ [1])))"
  | ft ts where "isAuto a" "block_like (baseType a)" "\<not> shape_refused E a i"
      "case firstType a of None \<Rightarrow> ft = firstType (start_result a i) | Some u \<Rightarrow> (\<exists>v w. firstType i = Some v \<and> ft = Some w \<and> fst (inferGenericType E u v False False (path @ [0])) = Inferred w)"
      "length (argTypes i) = length (argTypes a)" "length ts = length (argTypes a)"
      "\<forall>k<length ts. fst (inferGenericType E (argTypes a ! k) (argTypes i ! k) False False (path @ [k + 2])) = Inferred (ts ! k)"
      "\<exists>ns. t = put_first ft (put_args ts (put_names ns (start_result a i)))"
      "\<exists>as c1 c2. infer_args (\<lambda>k u v. inferGenericType E u v False False (path @ [k + 2])) 0 (argTypes a) (argTypes i) = (Inr ts, as, c2) \<and> cs = c1 @ c2 \<and>
        c1 = (case firstType a of None \<Rightarrow> [] | Some u \<Rightarrow> snd (snd (inferGenericType E u (the (firstType i)) False False (path @ [0]))))"
  | "isAuto a" "\<not> isAuto i" "\<not> shape_refused E a i" "\<not> single_part (baseType a)" "baseType a \<noteq> tTable" "\<not> block_like (baseType a)"
      "baseType a \<noteq> das_type.option" "t = start_result a i"
proof -
  note d = assms[unfolded inferGenericType.simps[of E a i lvl pass path]]
  show thesis
  proof (cases "baseType a = das_type.option")
    case True
    with d obtain us' cs' ch where "try_options (\<lambda>k u. inferGenericType E (qualify_option a u) i lvl pass (path @ [k + 2])) 0 (argTypes a) = (Inferred t, us', cs', ch)"
      and c: "cs = (case ch of Some i \<Rightarrow> [(path, i)] | None \<Rightarrow> []) @ cs'" by (auto split: prod.splits)
    with try_options_wins[OF this(1)] that(1)[OF True] show thesis by auto
  next
    case no: False
    show thesis
    proof (cases "isAuto a")
      case False
      have same: "baseType i = baseType a" if "isSameType E a i rm cm tm sub tl pt" for rm cm tm sub tl pt
        using that by (simp add: isSameType.simps[of E a i] split: if_splits)
      from d no False that(2) same show thesis by (auto simp: Let_def split: if_splits)
    next
      case au: True
      note d1 = d[unfolded if_not_P[OF no]]
      have c1: "\<not> (f_explicitConst (flags a) \<and> f_constant (flags a) \<noteq> f_constant (flags i))"
        by (rule else_taken[OF d1]) simp
      note d1 = d1[unfolded if_not_P[OF c1]]
      have c2: "\<not> (f_explicitRef (flags a) \<and> f_ref (flags a) \<noteq> f_ref (flags i))"
        by (rule else_taken[OF d1]) simp
      note d1 = d1[unfolded if_not_P[OF c2]]
      have c3: "\<not> (isAuto i \<and> \<not> isAuto a)" and au': "\<not> \<not> isAuto a" using au by simp_all
      note d1 = d1[unfolded if_not_P[OF c3]]
      have c4: "\<not> (isAuto i \<and> \<not> block_like (baseType a))"
        by (rule else_taken[OF d1]) simp
      then have ai: "isAuto i \<longrightarrow> block_like (baseType a)" by simp
      note d1 = d1[unfolded if_not_P[OF c4] if_not_P[OF au']]
      have sh: "\<not> shape_refused E a i" by (rule else_taken[OF d1]) simp
      have d2: "(if baseType a = tPointer \<or> baseType a = tFixedArray \<or> baseType a = tIterator \<or> baseType a = tArray then
         (case infer_part (\<lambda>u v. inferGenericType E u v False False (path @ [0])) (firstType a) (firstType i) of
            (Inferred u, f, cs) \<Rightarrow> (Inferred (put_first (Some u) (start_result a i)), put_first f a, cs)
          | (r, f, cs) \<Rightarrow> (r, put_first f a, cs))
       else if baseType a = tTable then
         (case infer_part (\<lambda>u v. inferGenericType E u v False False (path @ [0])) (firstType a) (firstType i) of
            (Inferred u, f, cs) \<Rightarrow>
              if \<not> isTableKeyType E u then (NoMatch, put_first f a, cs)
              else (case infer_part (\<lambda>u v. inferGenericType E u v False False (path @ [1])) (secondType a) (secondType i) of
                 (Inferred v, b, cs') \<Rightarrow> (Inferred (put_first (Some u) (put_second (Some v) (start_result a i))), put_first f (put_second b a), cs @ cs')
               | (r, b, cs') \<Rightarrow> (r, put_first f (put_second b a), cs @ cs'))
          | (r, f, cs) \<Rightarrow> (r, put_first f a, cs))
       else if block_like (baseType a) then
         (case (if firstType a = None then (Inferred (start_result a i), None, []) else infer_part (\<lambda>u v. inferGenericType E u v False False (path @ [0])) (firstType a) (firstType i)) of
            (Inferred u, f, cs) \<Rightarrow>
              (case infer_args (\<lambda>k u v. inferGenericType E u v False False (path @ [k + 2])) 0 (argTypes a) (argTypes i) of
                 (Inr ts, as, cs') \<Rightarrow>
                   (Inferred (put_first (if firstType a = None then firstType (start_result a i) else Some u) (put_args ts
                      (if argNames (start_result a i) = [] \<and> argNames a \<noteq> [] then put_names (argNames a) (start_result a i) else (start_result a i)))),
                    put_first f (put_args as a), cs @ cs')
               | (Inl r, as, cs') \<Rightarrow> (r, put_first f (put_args as a), cs @ cs'))
          | (r, f, cs) \<Rightarrow> (r, put_first f a, cs))
       else (Inferred (start_result a i), a, [])) = (Inferred t, a', cs)"
        using d1 unfolding if_not_P[OF sh] Let_def .
      consider "single_part (baseType a)" | "baseType a = tTable" | "block_like (baseType a)"
        | "\<not> single_part (baseType a)" "baseType a \<noteq> tTable" "\<not> block_like (baseType a)" by blast
      then show thesis
      proof cases
        case 1
        then have na: "\<not> isAuto i" using ai by auto
        from 1 d2 obtain w f c where w: "infer_part (\<lambda>u v. inferGenericType E u v False False (path @ [0])) (firstType a) (firstType i) = (Inferred w, f, cs)"
          and t: "t = put_first (Some w) (start_result a i)" by (auto split: prod.splits inferred.splits)
        from infer_part_some[OF w] obtain u v where
          p: "firstType a = Some u" "firstType i = Some v" "fst (inferGenericType E u v False False (path @ [0])) = Inferred w"
            "snd (snd (inferGenericType E u v False False (path @ [0]))) = cs" by blast
        show thesis by (rule that(3)[OF au 1 na sh p t])
      next
        case 2
        then have na: "\<not> isAuto i" using ai by auto
        from 2 d2 obtain w f c w2 f2 c2 where
          w: "infer_part (\<lambda>u v. inferGenericType E u v False False (path @ [0])) (firstType a) (firstType i) = (Inferred w, f, c)"
          and w2: "infer_part (\<lambda>u v. inferGenericType E u v False False (path @ [1])) (secondType a) (secondType i) = (Inferred w2, f2, c2)"
          and cc: "cs = c @ c2" and k: "isTableKeyType E w" and t: "t = put_first (Some w) (put_second (Some w2) (start_result a i))"
          by (auto split: prod.splits inferred.splits if_splits)
        from infer_part_some[OF w] obtain u v where
          p: "firstType a = Some u" "firstType i = Some v" "fst (inferGenericType E u v False False (path @ [0])) = Inferred w"
          and pc: "snd (snd (inferGenericType E u v False False (path @ [0]))) = c" by blast
        from infer_part_some[OF w2] obtain u2 v2 where
          q: "secondType a = Some u2" "secondType i = Some v2" "fst (inferGenericType E u2 v2 False False (path @ [1])) = Inferred w2"
          and qc: "snd (snd (inferGenericType E u2 v2 False False (path @ [1]))) = c2" by blast
        show thesis by (rule that(4)[OF au 2 na sh p k q t cc[folded pc qc]])
      next
        case 3
        have len: "length (argTypes i) = length (argTypes a)" by (rule shape_block[OF sh 3, symmetric])
        have ns: "\<not> (baseType a = tPointer \<or> baseType a = tFixedArray \<or> baseType a = tIterator \<or> baseType a = tArray)"
          and nt: "baseType a \<noteq> tTable" using 3 by auto
        note d3 = d2[unfolded if_not_P[OF ns] if_not_P[OF nt] if_P[OF 3]]
        from d3 obtain w f c ts as c' where
          w: "(if firstType a = None then (Inferred (start_result a i), None, []) else infer_part (\<lambda>u v. inferGenericType E u v False False (path @ [0])) (firstType a) (firstType i)) = (Inferred w, f, c)"
          and ts: "infer_args (\<lambda>k u v. inferGenericType E u v False False (path @ [k + 2])) 0 (argTypes a) (argTypes i) = (Inr ts, as, c')"
          and cc: "cs = c @ c'"
          and t: "t = put_first (if firstType a = None then firstType (start_result a i) else Some w) (put_args ts
                      (if argNames (start_result a i) = [] \<and> argNames a \<noteq> [] then put_names (argNames a) (start_result a i) else (start_result a i)))"
          by (auto split: prod.splits inferred.splits sum.splits dest: infer_args_failure)
        have keep: "put_names (argNames x) x = x" for x by (cases x) simp
        let ?ns = "if argNames (start_result a i) = [] \<and> argNames a \<noteq> [] then argNames a else argNames (start_result a i)"
        have t': "t = put_first (if firstType a = None then firstType (start_result a i) else Some w) (put_args ts (put_names ?ns (start_result a i)))"
          using t by (auto simp: keep)
        have ft: "case firstType a of None \<Rightarrow> (if firstType a = None then firstType (start_result a i) else Some w) = firstType (start_result a i)
           | Some u \<Rightarrow> (\<exists>v w'. firstType i = Some v \<and> (if firstType a = None then firstType (start_result a i) else Some w) = Some w' \<and>
               fst (inferGenericType E u v False False (path @ [0])) = Inferred w')"
        proof (cases "firstType a")
          case (Some u)
          then show ?thesis using infer_part_some[OF w[unfolded if_not_P[of "firstType a = None"] Some, simplified]] by auto
        qed simp
        from infer_args_all[OF ts] len have l: "length ts = length (argTypes a)"
          "\<forall>k<length ts. fst (inferGenericType E (argTypes a ! k) (argTypes i ! k) False False (path @ [k + 2])) = Inferred (ts ! k)" by auto
        have c: "c = (case firstType a of None \<Rightarrow> [] | Some u \<Rightarrow> snd (snd (inferGenericType E u (the (firstType i)) False False (path @ [0]))))"
        proof (cases "firstType a")
          case (Some u)
          then show ?thesis using infer_part_some[OF w[unfolded if_not_P[of "firstType a = None"] Some, simplified]] by auto
        qed (use w in simp)
        show thesis by (rule that(5)[OF au 3 sh ft len l]) (use t' ts cc c in blast)+
      next
        case 4
        then have "\<not> isAuto i" using ai by auto
        with 4 d2 that(6)[OF au _ sh 4 no] show thesis by auto
      qed
    qed
  qed
qed


section \<open>Instances\<close>

text \<open>What a type inferred from a pattern may look like.\<close>

inductive instance_of :: "type_decl \<Rightarrow> type_decl \<Rightarrow> bool" where
  Alternative: "baseType a = das_type.option \<Longrightarrow> u \<in> set (argTypes a) \<Longrightarrow> instance_of (qualify_option a u) t \<Longrightarrow> instance_of a t"
| Plain: "\<not> isAuto a \<Longrightarrow> instance_of a (copy_type a)"
| Any: "baseType a = autoinfer \<Longrightarrow> td_alias t = td_alias a \<Longrightarrow> instance_of a t"
| Single: "isAuto a \<Longrightarrow> single_part (baseType a) \<Longrightarrow> baseType t = baseType a \<Longrightarrow> td_alias t = td_alias a \<Longrightarrow>
    (baseType a = tFixedArray \<and> fixedDim a \<noteq> dimAuto \<longrightarrow> fixedDim t = fixedDim a) \<Longrightarrow>
    firstType a = Some u \<Longrightarrow> firstType t = Some v \<Longrightarrow> instance_of u v \<Longrightarrow> instance_of a t"
| Table: "isAuto a \<Longrightarrow> baseType a = tTable \<Longrightarrow> baseType t = tTable \<Longrightarrow> td_alias t = td_alias a \<Longrightarrow>
    firstType a = Some u \<Longrightarrow> firstType t = Some v \<Longrightarrow> instance_of u v \<Longrightarrow>
    secondType a = Some u2 \<Longrightarrow> secondType t = Some v2 \<Longrightarrow> instance_of u2 v2 \<Longrightarrow> instance_of a t"
| Block: "isAuto a \<Longrightarrow> block_like (baseType a) \<Longrightarrow> baseType t = baseType a \<Longrightarrow> td_alias t = td_alias a \<Longrightarrow>
    (firstType a = None \<longleftrightarrow> firstType t = None) \<Longrightarrow> (\<forall>u v. firstType a = Some u \<and> firstType t = Some v \<longrightarrow> instance_of u v) \<Longrightarrow>
    length (argTypes t) = length (argTypes a) \<Longrightarrow> (\<forall>k<length (argTypes a). instance_of (argTypes a ! k) (argTypes t ! k)) \<Longrightarrow> instance_of a t"

lemma start_result_sel [simp]:
  "baseType (start_result a i) = baseType i" "td_alias (start_result a i) = td_alias a" "fixedDim (start_result a i) = fixedDim i"
  "firstType (start_result a i) = map_option copy_type (firstType i)" "secondType (start_result a i) = map_option copy_type (secondType i)"
  "argTypes (start_result a i) = map copy_type (argTypes i)"
  by (cases i; simp add: start_result_def)+

lemma copy_sel [simp]:
  "baseType (copy_type t) = baseType t" "td_alias (copy_type t) = td_alias t" "fixedDim (copy_type t) = fixedDim t"
  "firstType (copy_type t) = map_option copy_type (firstType t)" "secondType (copy_type t) = map_option copy_type (secondType t)"
  "argTypes (copy_type t) = map copy_type (argTypes t)"
  by (cases t; simp)+

lemma isAuto_copy [simp]: "isAuto (copy_type t) = isAuto t"
proof (induction t rule: measure_induct_rule[of size])
  case (less t)
  have "isAuto (copy_type u) = isAuto u" if "firstType t = Some u \<or> secondType t = Some u \<or> u \<in> set (argTypes t)" for u
    using less that firstType_size secondType_size argTypes_size by blast
  then show ?case
    by (subst (1 2) isAuto.simps) (auto simp: list_ex_iff split: option.split)
qed

lemma shape_base: "\<not> shape_refused E a i \<Longrightarrow> baseType a \<noteq> autoinfer \<Longrightarrow> baseType i = baseType a"
  by (rule ccontr) (auto simp only: shape_refused_def simp_thms)

lemma shape_dim: "\<not> shape_refused E a i \<Longrightarrow> baseType a = tFixedArray \<Longrightarrow> fixedDim a \<noteq> dimAuto \<Longrightarrow> fixedDim i = fixedDim a"
  by (rule ccontr) (auto simp only: shape_refused_def simp_thms)

lemma shape_first: "\<not> shape_refused E a i \<Longrightarrow> block_like (baseType a) \<Longrightarrow> firstType a = None \<longleftrightarrow> firstType i = None"
  by (rule ccontr) (auto simp only: shape_refused_def simp_thms)

text \<open>\<open>isAuto\<close> by the shape of the type.\<close>

lemma isAuto_shapes:
  "b \<in> {typeMacro, typeDecl, autoinfer, das_type.option} \<Longrightarrow> baseType t = b \<Longrightarrow> isAuto t"
  "baseType t \<in> {tPointer, tIterator, tArray} \<Longrightarrow> isAuto t \<longleftrightarrow> (\<exists>u. firstType t = Some u \<and> isAuto u)"
  "baseType t = tFixedArray \<Longrightarrow> isAuto t \<longleftrightarrow> fixedDim t = dimAuto \<or> (\<exists>u. firstType t = Some u \<and> isAuto u)"
  "baseType t = tTable \<Longrightarrow> isAuto t \<longleftrightarrow> (\<exists>u. firstType t = Some u \<and> isAuto u) \<or> (\<exists>u. secondType t = Some u \<and> isAuto u)"
  "block_like (baseType t) \<Longrightarrow> isAuto t \<longleftrightarrow> (\<exists>u. firstType t = Some u \<and> isAuto u) \<or> (\<exists>u\<in>set (argTypes t). isAuto u)"
  "baseType t \<notin> {typeMacro, typeDecl, autoinfer, das_type.option, tPointer, tIterator, tArray, tFixedArray, tTable, tBlock, tFunction, tLambda, tTuple, tVariant}
    \<Longrightarrow> \<not> isAuto t"
  by (subst isAuto.simps; auto simp: list_ex_iff split: option.splits)+


lemma inferred_instance:
  "fst (inferGenericType E a i lvl pass path) = Inferred t \<Longrightarrow> \<not> isAuto i \<Longrightarrow> instance_of a t \<and> \<not> isAuto t \<and> baseType t = baseType i"
proof (induction a arbitrary: i lvl pass path t rule: measure_induct_rule[of size])
  case (less a)
  obtain a' cs where "inferGenericType E a i lvl pass path = (Inferred t, a', cs)"
    using less.prems(1) by (cases "inferGenericType E a i lvl pass path") auto
  then show ?case
  proof (cases rule: infer_success_cases)
    case (alternative k)
    have s: "size (qualify_option a (argTypes a ! k)) < size a" using alternative(2) by (simp add: argTypes_size)
    show ?thesis using less.IH[OF s alternative(3) less.prems(2)] Alternative[OF alternative(1) nth_mem[OF alternative(2)]] by blast
  next
    case plain then show ?thesis using less.prems(2) by (simp add: Plain)
  next
    case (single u v w)
    have b: "baseType i = baseType a" by (rule shape_base[OF single(4)]) (use single(2) in auto)
    have "\<not> isAuto v" using less.prems(2) single(2,6) b by (auto simp: isAuto_shapes)
    from less.IH[OF firstType_size[OF single(5)] single(7) this] have w: "instance_of u w" "\<not> isAuto w" by auto
    have d: "baseType a = tFixedArray \<and> fixedDim a \<noteq> dimAuto \<longrightarrow> fixedDim i = fixedDim a" using shape_dim[OF single(4)] by blast
    have "instance_of a t"
      by (rule Single[OF single(1,2) _ _ _ single(5) _ w(1)]) (simp_all add: single(9) b d)
    moreover have "\<not> isAuto t" using single(2,9) b w(2) less.prems(2) by (auto simp: isAuto_shapes)
    ultimately show ?thesis using single(9) by simp
  next
    case (table u v w u2 v2 w2)
    have b: "baseType i = baseType a" by (rule shape_base[OF table(4)]) (use table(2) in auto)
    have "\<not> isAuto v" "\<not> isAuto v2" using less.prems(2) table(2,6,10) b by (auto simp: isAuto_shapes)
    from less.IH[OF firstType_size[OF table(5)] table(7) this(1)] less.IH[OF secondType_size[OF table(9)] table(11) this(2)]
    have w: "instance_of u w" "\<not> isAuto w" "instance_of u2 w2" "\<not> isAuto w2" by auto
    have "instance_of a t"
      by (rule Table[OF table(1,2) _ _ table(5) _ w(1) table(9) _ w(3)]) (simp_all add: table(12) b table(2))
    moreover have "\<not> isAuto t" using table(2,12) b w(2,4) by (auto simp: isAuto_shapes)
    ultimately show ?thesis using table(12) by simp
  next
    case (block ft ts)
    obtain ns where t: "t = put_first ft (put_args ts (put_names ns (start_result a i)))" using block(8) by blast
    have b: "baseType i = baseType a" by (rule shape_base[OF block(3)]) (use block(2) in auto)
    show ?thesis
    proof (cases "isAuto i")
      case True with less.prems(2) show ?thesis by simp
    next
      case False
      then have nv: "\<not> isAuto v" if "firstType i = Some v \<or> v \<in> set (argTypes i)" for v
        using that block(2) b by (auto simp: isAuto_shapes)
      have f: "case firstType a of None \<Rightarrow> ft = None | Some u \<Rightarrow> \<exists>w. ft = Some w \<and> instance_of u w \<and> \<not> isAuto w"
      proof (cases "firstType a")
        case None then show ?thesis using block(4) shape_first[OF block(3,2)] by simp
      next
        case (Some u)
        with block(4) obtain v w where "firstType i = Some v" "ft = Some w" "fst (inferGenericType E u v False False (path @ [0])) = Inferred w" by auto
        then show ?thesis using less.IH[OF firstType_size[OF Some]] nv Some by auto
      qed
      have as: "instance_of (argTypes a ! k) (ts ! k) \<and> \<not> isAuto (ts ! k)" if "k < length ts" for k
      proof -
        have "argTypes a ! k \<in> set (argTypes a)" "argTypes i ! k \<in> set (argTypes i)" using that block(5,6) by auto
        then show ?thesis using less.IH[OF argTypes_size] block(7) that nv by blast
      qed
      have "instance_of a t"
        by (rule Block[OF block(1,2)]) (use f as block(6) in \<open>auto simp: t b split: option.splits\<close>)
      moreover have "\<not> isAuto t" using block(2) b f as by (auto simp: t isAuto_shapes in_set_conv_nth split: option.splits)
      ultimately show ?thesis using t by simp
    qed
  next
    case free
    have e: "baseType a = autoinfer"
    proof (rule ccontr)
      assume n: "baseType a \<noteq> autoinfer"
      then have b: "baseType i = baseType a" by (rule shape_base[OF free(3)])
      then show False using isAuto_shapes(6)[of a] isAuto_shapes(1)[of "baseType i" i] free n by auto
    qed
    have "isAuto t = isAuto i"
      unfolding free(8) by (subst (1 2) isAuto.simps) (auto simp: list_ex_iff split: option.split)
    with free(2) show ?thesis using Any[OF e, of t] by (simp add: free(8))
  qed
qed

text \<open>C11: a type inferred from a pattern and a resolved type is an instance of the pattern (every fixed part of it is copied, every
  container and argument list has the pattern's shape, dimension and alias, options stand for one of their
  alternatives), is itself resolved, and has the initializer's basic type.\<close>

theorem inferred_is_instance:
  assumes "inferGenericType E a i lvl pass path = (Inferred t, a', cs)" and "\<not> isAuto i"
  shows "instance_of a t \<and> \<not> isAuto t \<and> baseType t = baseType i"
  using inferred_instance[of E a i lvl pass path t] assms by simp

end
