(* ===== verification/GenericsReuse.thy ===== *)
theory GenericsReuse
  imports GenericsProps
begin

text \<open>
  A match writes qualifiers into the alternatives of the pattern's options, and the pattern is tried
  again with other types. The next try is not affected: it gives what the fresh pattern gives.
\<close>

text \<open>What a call returns, apart from the pattern; and the pattern it leaves.\<close>

definition result :: "inferred \<times> 'p \<times> choices \<Rightarrow> inferred \<times> choices" where
  "result x = (fst x, snd (snd x))"

definition left :: "inferred \<times> 'p \<times> choices \<Rightarrow> 'p" where
  "left x = fst (snd x)"

lemma result_left [simp]: "result (r, p, c) = (r, c)" "left (r, p, c) = p"
  by (simp_all add: result_def left_def)

lemma result_eq: "result x = result y \<Longrightarrow> x = (r, p, c) \<Longrightarrow> \<exists>q. y = (r, q, c)"
  by (cases y) (simp add: result_def)

section \<open>The loops\<close>

lemma try_options_result:
  "list_all2 (\<lambda>u v. \<forall>k. result (f k u) = result (g k v)) us vs \<Longrightarrow>
    (case try_options f i us of (r, _, c, k) \<Rightarrow> (r, c, k)) = (case try_options g i vs of (r, _, c, k) \<Rightarrow> (r, c, k))"
proof (induction us vs arbitrary: i rule: list_all2_induct)
  case (Cons u us v vs)
  obtain r p c where f: "f i u = (r, p, c)" by (cases "f i u")
  with result_eq[of "f i u" "g i v"] Cons(1) obtain q where g: "g i v = (r, q, c)" by blast
  show ?case
  proof (cases r)
    case NoMatch with Cons.IH[of "Suc i"] f g show ?thesis by (simp split: prod.splits)
  qed (simp_all add: f g)
qed simp

lemma try_options_left:
  "list_all2 (\<lambda>u u'. u' = u \<or> (\<exists>k. u' = left (f k u))) us (case try_options f i us of (_, us', _, _) \<Rightarrow> us')"
proof (induction us arbitrary: i)
  case (Cons u us)
  obtain r p c where f: "f i u = (r, p, c)" by (cases "f i u")
  have "\<exists>k. p = left (f k u)" by (rule exI[of _ i]) (simp add: f)
  then show ?case using Cons.IH[of "Suc i"] f by (cases r) (auto split: prod.splits intro: list.rel_refl)
qed simp

lemma infer_args_result:
  "list_all2 (\<lambda>u v. \<forall>k b. result (f k u b) = result (g k v b)) us vs \<Longrightarrow>
    (case infer_args f i us bs of (r, _, c) \<Rightarrow> (r, c)) = (case infer_args g i vs bs of (r, _, c) \<Rightarrow> (r, c))"
proof (induction us vs arbitrary: i bs rule: list_all2_induct)
  case (Cons u us v vs)
  show ?case
  proof (cases bs)
    case b: (Cons b bs')
    obtain r p c where f: "f i u b = (r, p, c)" by (cases "f i u b")
    with result_eq[of "f i u b" "g i v b"] Cons(1) obtain q where g: "g i v b = (r, q, c)" by blast
    show ?thesis
    proof (cases r)
      case (Inferred t) with Cons.IH[of "Suc i" bs'] f g b show ?thesis by (auto split: prod.splits sum.splits)
    qed (simp_all add: f g b)
  qed simp
qed simp

lemma infer_args_left:
  "list_all2 (\<lambda>u u'. u' = u \<or> (\<exists>k b. u' = left (f k u b))) us (case infer_args f i us bs of (_, us', _) \<Rightarrow> us')"
proof (induction us arbitrary: i bs)
  case (Cons u us)
  show ?case
  proof (cases bs)
    case b: (Cons b bs')
    obtain r p c where f: "f i u b = (r, p, c)" by (cases "f i u b")
    have "\<exists>k b. p = left (f k u b)" by (intro exI[of _ i] exI[of _ b]) (simp add: f)
    then show ?thesis using Cons.IH[of "Suc i" bs'] f b by (cases r) (auto split: prod.splits sum.splits intro: list.rel_refl)
  qed (simp add: list.rel_refl)
qed simp

lemma infer_part_result:
  "rel_option (\<lambda>u v. \<forall>b. result (f u b) = result (g v b)) x y \<Longrightarrow> result (infer_part f x b) = result (infer_part g y b)"
  by (cases x; cases y; cases b) (simp_all add: infer_part_def result_def case_prod_unfold)

lemma infer_part_left: "rel_option (\<lambda>u u'. u' = u \<or> (\<exists>b. u' = left (f u b))) x (left (infer_part f x b))"
  by (cases x; cases b) (auto simp: infer_part_def left_def case_prod_unfold)


section \<open>Tried patterns\<close>

inductive tried :: "type_decl \<Rightarrow> type_decl \<Rightarrow> bool" where
  Same: "tried a a"
| Alternatives: "baseType a = das_type.option \<Longrightarrow> list_all2 (\<lambda>u u'. u' = u \<or> tried (qualify_option a u) u') (argTypes a) us \<Longrightarrow>
    tried a (put_args us a)"
| Parts: "isAuto a \<Longrightarrow> baseType a \<noteq> das_type.option \<Longrightarrow> rel_option tried (firstType a) f \<Longrightarrow> rel_option tried (secondType a) g \<Longrightarrow>
    list_all2 tried (argTypes a) us \<Longrightarrow> tried a (put_first f (put_second g (put_args us a)))"

lemma put_same [simp]:
  "put_first (firstType a) a = a" "put_second (secondType a) a = a" "put_args (argTypes a) a = a"
  by (cases a; simp)+

lemma option_rel_same: "(\<And>u. x = Some u \<Longrightarrow> R u u) \<Longrightarrow> rel_option R x x"
  by (cases x) auto

lemma tried_parts_same: "rel_option tried x x" "list_all2 tried xs xs"
  by (auto intro: option_rel_same list_all2_refl Same)

lemma tried_put:
  assumes "isAuto a" "baseType a \<noteq> das_type.option"
  shows "rel_option tried (firstType a) f \<Longrightarrow> tried a (put_first f a)"
    "rel_option tried (firstType a) f \<Longrightarrow> rel_option tried (secondType a) g \<Longrightarrow> tried a (put_first f (put_second g a))"
    "rel_option tried (firstType a) f \<Longrightarrow> list_all2 tried (argTypes a) us \<Longrightarrow> tried a (put_first f (put_args us a))"
  using Parts[OF assms, of f "secondType a" "argTypes a"] Parts[OF assms, of f g "argTypes a"]
    Parts[OF assms, of f "secondType a" us] tried_parts_same
  by (auto simp: put_same)
    (metis put_same(2) put_sel(3,9))+

lemma part_tried:
  assumes "\<And>u b. x = Some u \<Longrightarrow> tried u (left (f u b))"
  shows "rel_option tried x (left (infer_part f x b))"
  using infer_part_left[of f x b] assms by (cases x; cases "left (infer_part f x b)") (auto intro: Same)

lemma args_tried:
  assumes "\<And>k u b. u \<in> set us \<Longrightarrow> tried u (left (f k u b))"
  shows "list_all2 tried us (case infer_args f i us bs of (_, us', _) \<Rightarrow> us')"
  using infer_args_left[of f us i bs] assms by (auto elim!: list.rel_mono_strong intro: Same)

lemma left_if: "(P \<Longrightarrow> tried a (left x)) \<Longrightarrow> (\<not> P \<Longrightarrow> tried a (left y)) \<Longrightarrow> tried a (left (if P then x else y))"
  by simp

lemma tried_left: "tried a (left (inferGenericType E a i lvl pass path))"
proof (induction a arbitrary: i lvl pass path rule: measure_induct_rule[of size])
  case (less a)
  show ?case
  proof (cases "baseType a = das_type.option")
    case True
    let ?f = "\<lambda>k u. inferGenericType E (qualify_option a u) i lvl pass (path @ [k + 2])"
    have "list_all2 (\<lambda>u u'. u' = u \<or> tried (qualify_option a u) u') (argTypes a) (case try_options ?f 0 (argTypes a) of (_, us', _, _) \<Rightarrow> us')"
      using try_options_left[of ?f "argTypes a" 0] less.IH argTypes_size by (auto elim!: list.rel_mono_strong)
    from Alternatives[OF True this] show ?thesis
      by (subst inferGenericType.simps) (simp add: True left_def case_prod_unfold)
  next
    case no: False
    show ?thesis
    proof (cases "isAuto a")
      case False then show ?thesis using no Same by (subst inferGenericType.simps) (auto simp: left_def Let_def)
    next
      case au: True
      have f: "rel_option tried (firstType a) (left (infer_part (\<lambda>u v. inferGenericType E u v False False (path @ [0])) (firstType a) b))" for b
        by (rule part_tried) (use less.IH firstType_size in blast)
      have g: "rel_option tried (secondType a) (left (infer_part (\<lambda>u v. inferGenericType E u v False False (path @ [1])) (secondType a) b))" for b
        by (rule part_tried) (use less.IH secondType_size in blast)
      have us: "list_all2 tried (argTypes a) (case infer_args (\<lambda>k u v. inferGenericType E u v False False (path @ [k + 2])) 0 (argTypes a) bs of (_, us', _) \<Rightarrow> us')" for bs
        by (rule args_tried) (use less.IH argTypes_size in blast)
      note t = tried_put[OF au no]
      show ?thesis
        unfolding inferGenericType.simps[of E a i lvl pass path] if_not_P[OF no] Let_def
      proof (intro left_if, goal_cases)
        case 8
        then show ?case using t(1)[OF f[unfolded left_def]] by (simp add: left_def case_prod_unfold split: inferred.split)
      next
        case 9
        then show ?case using t(1)[OF f[unfolded left_def]] t(2)[OF f[unfolded left_def] g[unfolded left_def]]
          by (simp add: left_def case_prod_unfold split: inferred.split)
      next
        case 10
        show ?case
        proof (cases "firstType a")
          case None
          then show ?thesis using t(3)[of None, OF _ us] by (simp add: left_def case_prod_unfold split: sum.split)
        next
          case (Some u)
          then show ?thesis using t(1)[OF f[unfolded left_def]] t(3)[OF f[unfolded left_def] us] by (simp add: left_def case_prod_unfold split: inferred.split sum.split)
        qed
      qed (use au in \<open>simp_all add: left_def Same\<close>)
    qed
  qed
qed


lemma argNames_put [simp]:
  "argNames (put_first x t) = argNames t" "argNames (put_second x t) = argNames t" "argNames (put_args as t) = argNames t"
  by (cases t; simp)+

lemma tried_sel:
  assumes "tried a a'"
  shows "flags a' = flags a" "baseType a' = baseType a" "td_alias a' = td_alias a" "fixedDim a' = fixedDim a" "argNames a' = argNames a"
    "firstType a' = None \<longleftrightarrow> firstType a = None" "length (argTypes a') = length (argTypes a)"
  using assms by (cases; auto simp: list_all2_lengthD option.rel_sel)+

lemma tried_auto: "tried a a' \<Longrightarrow> isAuto a' = isAuto a"
proof (induction a arbitrary: a' rule: measure_induct_rule[of size])
  case (less a)
  show ?case using less.prems
  proof cases
    case (Alternatives us) then show ?thesis using isAuto_shapes(1)[of das_type.option] by simp
  next
    case (Parts f g us)
    have f: "rel_option (\<lambda>u v. isAuto v = isAuto u) (firstType a) f"
      by (rule option.rel_mono_strong[OF Parts(4)]) (use less.IH firstType_size in auto)
    have g: "rel_option (\<lambda>u v. isAuto v = isAuto u) (secondType a) g"
      by (rule option.rel_mono_strong[OF Parts(5)]) (use less.IH secondType_size in auto)
    have us: "list_all2 (\<lambda>u v. isAuto v = isAuto u) (argTypes a) us"
      by (rule list.rel_mono_strong[OF Parts(6)]) (use less.IH argTypes_size in auto)
    have f': "(\<exists>v. f = Some v \<and> isAuto v) \<longleftrightarrow> (\<exists>u. firstType a = Some u \<and> isAuto u)" using f by (cases "firstType a"; cases f) auto
    have g': "(\<exists>v. g = Some v \<and> isAuto v) \<longleftrightarrow> (\<exists>u. secondType a = Some u \<and> isAuto u)" using g by (cases "secondType a"; cases g) auto
    have us': "(\<exists>v\<in>set us. isAuto v) \<longleftrightarrow> (\<exists>u\<in>set (argTypes a). isAuto u)" using us by (induction rule: list_all2_induct) auto
    have b: "baseType a' = baseType a" "fixedDim a' = fixedDim a" "firstType a' = f" "secondType a' = g" "argTypes a' = us"
      by (simp_all add: Parts(1))
    consider "baseType a \<in> {typeMacro, typeDecl, autoinfer, das_type.option}" | "baseType a \<in> {tPointer, tIterator, tArray}"
      | "baseType a = tFixedArray" | "baseType a = tTable" | "block_like (baseType a)"
      | "baseType a \<notin> {typeMacro, typeDecl, autoinfer, das_type.option, tPointer, tIterator, tArray, tFixedArray, tTable, tBlock, tFunction, tLambda, tTuple, tVariant}"
      by blast
    then show ?thesis
    proof cases
      case 1 then show ?thesis using isAuto_shapes(1)[of "baseType a"] b by metis
    next
      case 2 then show ?thesis using isAuto_shapes(2)[of a] isAuto_shapes(2)[of a'] f' b by simp
    next
      case 3 then show ?thesis using isAuto_shapes(3)[of a] isAuto_shapes(3)[of a'] f' b by simp
    next
      case 4 then show ?thesis using isAuto_shapes(4)[of a] isAuto_shapes(4)[of a'] f' g' b by simp
    next
      case 5 then show ?thesis using isAuto_shapes(5)[of a] isAuto_shapes(5)[of a'] f' us' b by simp
    next
      case 6 then show ?thesis using isAuto_shapes(6)[of a] isAuto_shapes(6)[of a'] b by simp
    qed
  qed simp
qed

lemma shape_same: "flags a' = flags a \<Longrightarrow> baseType a' = baseType a \<Longrightarrow> fixedDim a' = fixedDim a \<Longrightarrow> (firstType a' = None \<longleftrightarrow> firstType a = None) \<Longrightarrow>
    length (argTypes a') = length (argTypes a) \<Longrightarrow> shape_refused E a' i = shape_refused E a i"
  by (simp only: shape_refused_def isPointer_def)

lemma start_same: "flags a' = flags a \<Longrightarrow> td_alias a' = td_alias a \<Longrightarrow> start_result a' i = start_result a i"
  by (simp add: start_result_def)

lemma qualify_same: "flags p = flags (qualify_option a u) \<Longrightarrow> qualify_option a p = p"
  by (cases p; cases u; auto simp: qualify_option_def intro!: td_flags.equality)

lemma qualify_flags: "flags b = flags a \<Longrightarrow> qualify_option b u = qualify_option a u"
  by (simp add: qualify_option_def)

lemma result_if: "(P \<Longrightarrow> result x = result x') \<Longrightarrow> (\<not> P \<Longrightarrow> result y = result y') \<Longrightarrow> result (if P then x else y) = result (if P then x' else y')"
  by simp

lemma tried_result: "tried a a' \<Longrightarrow> result (inferGenericType E a' i lvl pass path) = result (inferGenericType E a i lvl pass path)"
proof (induction a arbitrary: a' i lvl pass path rule: measure_induct_rule[of size])
  case (less a)
  note sel = tried_sel[OF less.prems] and auto' = tried_auto[OF less.prems]
  have ih: "result (inferGenericType E u i lvl pass path) = result (inferGenericType E u' i lvl pass path)"
    if "size u < size a" "tried u u'" for u u' i lvl pass path
    using less.IH[OF that] by simp
  show ?case using less.prems
  proof cases
    case (Alternatives us)
    let ?f = "\<lambda>b k u. inferGenericType E (qualify_option b u) i lvl pass (path @ [k + 2])"
    have q: "\<forall>k. result (?f a k u) = result (?f a' k u')" if "u \<in> set (argTypes a)" "u' = u \<or> tried (qualify_option a u) u'" for u u'
    proof
      fix k
      show "result (?f a k u) = result (?f a' k u')"
      proof (cases "u' = u")
        case True then show ?thesis by (simp add: qualify_flags[OF sel(1)])
      next
        case False
        then have t: "tried (qualify_option a u) u'" using that(2) by simp
        have "qualify_option a' u' = u'" using qualify_same[OF tried_sel(1)[OF t]] qualify_flags[OF sel(1)] by simp
        then show ?thesis using less.IH[OF _ t] argTypes_size[OF that(1)] by simp
      qed
    qed
    have "list_all2 (\<lambda>u v. \<forall>k. result (?f a k u) = result (?f a' k v)) (argTypes a) us"
      by (rule list.rel_mono_strong[OF Alternatives(3)]) (use q in auto)
    from try_options_result[OF this, of 0] show ?thesis
      unfolding inferGenericType.simps[of E a'] inferGenericType.simps[of E a]
      using Alternatives(1,2) by (auto simp: case_prod_unfold result_def)
  next
    case (Parts f g us)
    have no: "\<not> baseType a = das_type.option" "\<not> baseType a' = das_type.option" using Parts(3) sel(2) by auto
    have au: "isAuto a" "isAuto a'" using Parts(2) auto' by auto
    have f: "result (infer_part (\<lambda>u v. inferGenericType E u v False False (path @ [0])) (firstType a') b) =
        result (infer_part (\<lambda>u v. inferGenericType E u v False False (path @ [0])) (firstType a) b)" for b
      unfolding Parts(1) put_sel by (rule infer_part_result[symmetric], rule option.rel_mono_strong[OF Parts(4)])
        (use ih firstType_size in auto)
    have g: "result (infer_part (\<lambda>u v. inferGenericType E u v False False (path @ [1])) (secondType a') b) =
        result (infer_part (\<lambda>u v. inferGenericType E u v False False (path @ [1])) (secondType a) b)" for b
      unfolding Parts(1) put_sel by (rule infer_part_result[symmetric], rule option.rel_mono_strong[OF Parts(5)])
        (use ih secondType_size in auto)
    have us: "(case infer_args (\<lambda>k u v. inferGenericType E u v False False (path @ [k + 2])) 0 (argTypes a') bs of (r, _, c) \<Rightarrow> (r, c)) =
        (case infer_args (\<lambda>k u v. inferGenericType E u v False False (path @ [k + 2])) 0 (argTypes a) bs of (r, _, c) \<Rightarrow> (r, c))" for bs
      unfolding Parts(1) put_sel by (rule infer_args_result[symmetric], rule list.rel_mono_strong[OF Parts(6)])
        (use ih argTypes_size in auto)
    show ?thesis
      unfolding inferGenericType.simps[of E a'] inferGenericType.simps[of E a] if_not_P[OF no(1)] if_not_P[OF no(2)] Let_def
        shape_same[OF sel(1,2,4,6,7)] start_same[OF sel(1,3)] sel(1,2,5) auto'
    proof (intro result_if, goal_cases)
      case 7
      from f[of "firstType i"] show ?case
        by (simp add: result_def case_prod_unfold split: inferred.split)
    next
      case 8
      from f[of "firstType i"] g[of "secondType i"] show ?case
        by (simp add: result_def case_prod_unfold split: inferred.split)
    next
      case 9
      from us[of "argTypes i"] have us': "fst (infer_args (\<lambda>k u v. inferGenericType E u v False False (path @ [k + 2])) 0 (argTypes a') (argTypes i)) =
          fst (infer_args (\<lambda>k u v. inferGenericType E u v False False (path @ [k + 2])) 0 (argTypes a) (argTypes i))"
        "snd (snd (infer_args (\<lambda>k u v. inferGenericType E u v False False (path @ [k + 2])) 0 (argTypes a') (argTypes i))) =
          snd (snd (infer_args (\<lambda>k u v. inferGenericType E u v False False (path @ [k + 2])) 0 (argTypes a) (argTypes i)))"
        by (simp_all add: case_prod_unfold)
      show ?case
      proof (cases "firstType a")
        case None
        then have "firstType a' = None" using sel(6) by simp
        with None us' show ?thesis by (simp add: result_def case_prod_unfold split: sum.split)
      next
        case (Some u)
        then have "firstType a' \<noteq> None" using sel(6) by simp
        then have n: "(firstType a' = None) = False" "(firstType a = None) = False" using Some by simp_all
        from f[of "firstType i"] us' show ?thesis unfolding n if_False
          by (simp add: result_def case_prod_unfold split: inferred.split sum.split)
      qed
    qed (use au in \<open>simp_all add: result_def\<close>)
  qed simp
qed

text \<open>C16: trying a pattern with any types, in any contexts, does not change what it infers afterwards: after every
  sequence of earlier tries, each of which may have written qualifiers into its options, a match gives the type and
  the option choices that the untouched pattern gives.\<close>

theorem pattern_reuse:
  "result (inferGenericType E (fold (\<lambda>(i, lvl, pass, path) a. left (inferGenericType E a i lvl pass path)) tries a) i lvl pass path) =
    result (inferGenericType E a i lvl pass path)"
proof (induction tries arbitrary: a)
  case (Cons t tries)
  show ?case using Cons[of "left (inferGenericType E a (fst t) (fst (snd t)) (fst (snd (snd t))) (snd (snd (snd t))))"] tried_result[OF tried_left]
    by (simp add: case_prod_unfold)
qed simp

end
