(* ===== verification/GenericsAlias.thy ===== *)
theory GenericsAlias
  imports GenericsReuse
begin

text \<open>
  Matching and binding together: after a match the alias map can be updated, every option met on the
  way has its choice recorded, and bindings made before stay.
\<close>

section \<open>Where choices are recorded\<close>

definition under :: "nat list \<Rightarrow> choices \<Rightarrow> bool" where
  "under path cs \<longleftrightarrow> (\<forall>p\<in>fst ` set cs. \<exists>q. p = path @ q)"

lemma under_simps [simp]: "under path []" "under path (cs @ ds) \<longleftrightarrow> under path cs \<and> under path ds"
  "under path ((p, k) # cs) \<longleftrightarrow> (\<exists>q. p = path @ q) \<and> under path cs"
  by (auto simp: under_def)

lemma under_sub: "under (path @ [x]) cs \<Longrightarrow> under path cs"
  by (fastforce simp: under_def)

lemma try_options_under:
  "(\<And>k u. u \<in> set us \<Longrightarrow> under path (snd (snd (f k u)))) \<Longrightarrow> under path (fst (snd (snd (try_options f i us))))"
proof (induction us arbitrary: i)
  case (Cons u us)
  obtain r p c where f: "f i u = (r, p, c)" by (cases "f i u")
  have "under path c" using Cons.prems[of u i] f by simp
  then show ?case using Cons.IH[of "Suc i"] Cons.prems f by (cases r) (auto split: prod.splits)
qed simp

lemma infer_args_under:
  "(\<And>k u b. u \<in> set us \<Longrightarrow> under path (snd (snd (f k u b)))) \<Longrightarrow> under path (snd (snd (infer_args f i us bs)))"
proof (induction us arbitrary: i bs)
  case (Cons u us)
  show ?case
  proof (cases bs)
    case b: (Cons b bs')
    obtain r p c where f: "f i u b = (r, p, c)" by (cases "f i u b")
    have "under path c" using Cons.prems[of u i b] f by simp
    then show ?thesis using Cons.IH[of "Suc i" bs'] Cons.prems f b by (cases r) (auto split: prod.splits sum.splits)
  qed simp
qed simp

lemma infer_part_under: "(\<And>u v. a = Some u \<Longrightarrow> under path (snd (snd (f u v)))) \<Longrightarrow> under path (snd (snd (infer_part f a b)))"
  by (cases a; cases b) (auto simp: infer_part_def case_prod_unfold)

lemma if_under: "(P \<Longrightarrow> under path (snd (snd x))) \<Longrightarrow> (\<not> P \<Longrightarrow> under path (snd (snd y))) \<Longrightarrow> under path (snd (snd (if P then x else y)))"
  by simp

lemma choices_under: "under path (snd (snd (inferGenericType E a i lvl pass path)))"
proof (induction a arbitrary: i lvl pass path rule: measure_induct_rule[of size])
  case (less a)
  let ?F = "infer_part (\<lambda>u v. inferGenericType E u v False False (path @ [0])) (firstType a) (firstType i)"
  let ?G = "infer_part (\<lambda>u v. inferGenericType E u v False False (path @ [1])) (secondType a) (secondType i)"
  let ?A = "infer_args (\<lambda>k u v. inferGenericType E u v False False (path @ [k + 2])) 0 (argTypes a) (argTypes i)"
  have f: "under path (snd (snd ?F))" by (rule infer_part_under) (use less.IH firstType_size under_sub in blast)
  have g: "under path (snd (snd ?G))" by (rule infer_part_under) (use less.IH secondType_size under_sub in blast)
  have us: "under path (snd (snd ?A))" by (rule infer_args_under) (use less.IH argTypes_size under_sub in blast)
  show ?case
    unfolding inferGenericType.simps[of E a i lvl pass path] Let_def
  proof (intro if_under, goal_cases)
    case 1
    have "under path (fst (snd (snd (try_options (\<lambda>k u. inferGenericType E (qualify_option a u) i lvl pass (path @ [k + 2])) 0 (argTypes a)))))"
      by (rule try_options_under) (use less.IH argTypes_size under_sub size_qualify in \<open>metis\<close>)
    then show ?case by (auto simp: case_prod_unfold split: option.split)
  next
    case 9 show ?case using f by (simp add: case_prod_unfold split: inferred.split)
  next
    case 10 show ?case using f g by (simp add: case_prod_unfold split: inferred.split)
  next
    case 11 show ?case using f us by (cases "firstType a") (auto simp: case_prod_unfold split: inferred.split sum.split)
  qed simp_all
qed

section \<open>Reading them back\<close>

lemma map_of_under:
  "under (path @ [x]) cs \<Longrightarrow> x \<noteq> y \<Longrightarrow> map_of cs (path @ y # q) = None"
  by (auto simp: under_def map_of_eq_None_iff)

text \<open>\<open>cs\<close> reads as \<open>ds\<close> below \<open>path\<close>.\<close>

definition reads_as :: "nat list \<Rightarrow> choices \<Rightarrow> choices \<Rightarrow> bool" where
  "reads_as path cs ds \<longleftrightarrow> (\<forall>q. map_of cs (path @ q) = map_of ds (path @ q))"

lemma reads_as_refl [simp]: "reads_as path cs cs"
  by (simp add: reads_as_def)

lemma reads_as_skip:
  "under (path @ [x]) cs \<Longrightarrow> x \<noteq> y \<Longrightarrow> reads_as (path @ [y]) ds es \<Longrightarrow> reads_as (path @ [y]) (cs @ ds) es"
  "under (path @ [x]) cs \<Longrightarrow> x \<noteq> y \<Longrightarrow> reads_as (path @ [y]) ds es \<Longrightarrow> reads_as (path @ [y]) (ds @ cs) es"
  using map_of_under[of path x cs y] by (auto simp: reads_as_def map_add_def split: option.split)

lemma try_options_reads:
  assumes "\<And>k u. u \<in> set us \<Longrightarrow> under (path @ [k + 2]) (snd (snd (f k u)))"
  shows "try_options f i us = (Inferred t, us', cs, Some k) \<Longrightarrow>
    i \<le> k \<and> k < i + length us \<and> reads_as (path @ [k + 2]) cs (snd (snd (f k (us ! (k - i)))))"
  using assms
proof (induction us arbitrary: i us' cs)
  case (Cons u us)
  obtain r p c where f: "f i u = (r, p, c)" by (cases "f i u")
  show ?case
  proof (cases r)
    case NoMatch
    obtain r' us'' cs'' ch where rest: "try_options f (Suc i) us = (r', us'', cs'', ch)" by (cases "try_options f (Suc i) us")
    with Cons.prems(1) f NoMatch have e: "r' = Inferred t" "ch = Some k" "cs = c @ cs''" by auto
    from Cons.IH[OF rest[unfolded e(1,2)]] Cons.prems(2)
    have ih: "Suc i \<le> k" "k < Suc i + length us" "reads_as (path @ [k + 2]) cs'' (snd (snd (f k (us ! (k - Suc i)))))" by auto
    have "under (path @ [i + 2]) c" using Cons.prems(2)[of u i] f by simp
    from reads_as_skip(1)[OF this _ ih(3)] ih(1,2) show ?thesis unfolding e(3) by (auto simp: Suc_diff_le nth_Cons')
  qed (use Cons.prems f in auto)
qed simp

lemma infer_args_reads:
  assumes "\<And>k u b. u \<in> set us \<Longrightarrow> under (path @ [k + 2]) (snd (snd (f k u b)))"
  shows "infer_args f i us bs = (Inr ts, us', cs) \<Longrightarrow> length us = length bs \<Longrightarrow>
    (\<forall>p\<in>fst ` set cs. \<exists>k\<ge>i. \<exists>q. p = path @ (k + 2) # q) \<and> (\<forall>k<length us. reads_as (path @ [i + k + 2]) cs (snd (snd (f (i + k) (us ! k) (bs ! k)))))"
  using assms
proof (induction us arbitrary: i bs ts us' cs)
  case (Cons u us)
  obtain b bs' where b: "bs = b # bs'" using Cons.prems(2) by (cases bs) auto
  obtain r p c where f: "f i u b = (r, p, c)" by (cases "f i u b")
  from Cons.prems(1) obtain t ts' us'' cs'' where
    e: "infer_args f (Suc i) us bs' = (Inr ts', us'', cs'')" "cs = c @ cs''"
    by (auto simp: b f split: inferred.splits prod.splits sum.splits)
  from Cons.IH[OF e(1)] Cons.prems(2,3) b
  have ih: "\<forall>p\<in>fst ` set cs''. \<exists>k\<ge>Suc i. \<exists>q. p = path @ (k + 2) # q"
    "\<forall>k<length us. reads_as (path @ [Suc i + k + 2]) cs'' (snd (snd (f (Suc i + k) (us ! k) (bs' ! k))))" by auto
  have c: "under (path @ [i + 2]) c" using Cons.prems(3)[of u i b] f by simp
  have "\<forall>p\<in>fst ` set cs. \<exists>k\<ge>i. \<exists>q. p = path @ (k + 2) # q"
    using c ih(1) unfolding e(2) under_def by (fastforce intro: Suc_leD)
  moreover have "reads_as (path @ [i + k + 2]) cs (snd (snd (f (i + k) ((u # us) ! k) (bs ! k))))" if "k < length (u # us)" for k
  proof (cases k)
    case 0
    have "map_of cs'' (path @ (i + 2) # q) = None" for q using ih(1) by (fastforce simp: map_of_eq_None_iff)
    then show ?thesis using 0 f b unfolding e(2) by (auto simp: reads_as_def map_add_def split: option.split)
  next
    case (Suc j)
    then show ?thesis using reads_as_skip(1)[OF c, of "i + k + 2" cs''] ih(2) that b unfolding e(2) by simp
  qed
  ultimately show ?case by blast
qed simp


section \<open>Updating the alias map\<close>

text \<open>Components stand only where \<open>isAuto\<close> looks for them.\<close>

fun tidy :: "type_decl \<Rightarrow> bool" where
  "tidy t \<longleftrightarrow>
    (if single_part (baseType t) then secondType t = None \<and> argTypes t = [] \<and> list_all tidy (opt_list (firstType t))
     else if baseType t = tTable then argTypes t = [] \<and> list_all tidy (opt_list (firstType t)) \<and> list_all tidy (opt_list (secondType t))
     else if block_like (baseType t) then secondType t = None \<and> list_all tidy (opt_list (firstType t)) \<and> list_all tidy (argTypes t)
     else if baseType t = das_type.option then firstType t = None \<and> secondType t = None \<and> list_all tidy (argTypes t)
     else firstType t = None \<and> secondType t = None \<and> argTypes t = [])"

declare tidy.simps [simp del]

lemma tidy_qualify [simp]: "tidy (qualify_option a t) = tidy t"
  by (subst (1 2) tidy.simps) (simp add: qualify_option_def)

text \<open>An update that goes through, keeping the bindings there were.\<close>

definition binds :: "(string \<Rightarrow> type_decl option) \<Rightarrow> (string \<Rightarrow> type_decl option) option \<Rightarrow> bool" where
  "binds al r \<longleftrightarrow> (\<exists>al'. r = Some al' \<and> al \<subseteq>\<^sub>m al')"

lemma bindsI: "al \<subseteq>\<^sub>m al' \<Longrightarrow> binds al (Some al')"
  by (simp add: binds_def)

lemma binds_bind: "binds al r \<Longrightarrow> (\<And>al'. al \<subseteq>\<^sub>m al' \<Longrightarrow> r = Some al' \<Longrightarrow> binds al' (g al')) \<Longrightarrow> binds al (Option.bind r g)"
proof -
  assume "binds al r" and g: "\<And>al'. al \<subseteq>\<^sub>m al' \<Longrightarrow> r = Some al' \<Longrightarrow> binds al' (g al')"
  then obtain al' where r: "r = Some al'" "al \<subseteq>\<^sub>m al'" by (auto simp: binds_def)
  from g[OF r(2,1)] obtain al2 where "g al' = Some al2" "al' \<subseteq>\<^sub>m al2" by (auto simp: binds_def)
  with r show ?thesis by (auto simp: binds_def intro: map_le_trans)
qed

lemma bind_alias_le: "al \<subseteq>\<^sub>m bind_alias n t al"
  by (auto simp: bind_alias_def map_le_def)

lemma alias_part_binds: "(\<And>u v al. a = Some u \<Longrightarrow> b = Some v \<Longrightarrow> binds al (f u v al)) \<Longrightarrow> binds al (alias_part f a b al)"
  by (cases a; cases b) (auto simp: alias_part_def intro: bindsI)

lemma alias_args_binds:
  "(\<And>k al. k < length us \<Longrightarrow> k < length vs \<Longrightarrow> binds al (f (i + k) (us ! k) (vs ! k) al)) \<Longrightarrow> binds al (alias_args f i us vs al)"
proof (induction us arbitrary: i vs al)
  case (Cons u us)
  show ?case
  proof (cases vs)
    case v: (Cons v vs')
    have "binds al (f i u v al)" using Cons.prems[of 0] v by simp
    moreover have "binds al' (alias_args f (Suc i) us vs' al')" for al'
      by (rule Cons.IH) (use Cons.prems[of "Suc k" for k] v in auto)
    ultimately show ?thesis by (simp add: v binds_bind)
  qed (simp add: bindsI)
qed (simp add: bindsI)

text \<open>Of a pattern without \<open>auto\<close> and options, with any choices.\<close>

lemma plain_binds: "tidy a \<Longrightarrow> \<not> isAuto a \<Longrightarrow> binds al (updateAliasMap opt path a i al)"
proof (induction a arbitrary: i al path rule: measure_induct_rule[of size])
  case (less a)
  have no: "baseType a \<noteq> das_type.option" "baseType a \<noteq> autoinfer" using less.prems(2) isAuto_shapes(1)[of "baseType a" a] by auto
  have sub: "tidy u \<and> \<not> isAuto u" if "firstType a = Some u \<or> secondType a = Some u \<or> u \<in> set (argTypes a)" for u
  proof -
    consider "single_part (baseType a)" | "baseType a = tTable" | "block_like (baseType a)"
      | "\<not> single_part (baseType a)" "baseType a \<noteq> tTable" "\<not> block_like (baseType a)" by blast
    then show ?thesis
    proof cases
      case 1 then show ?thesis using less.prems that by (auto simp: tidy.simps[of a] isAuto_shapes(2)[of a] isAuto_shapes(3)[of a])
    next
      case 2 then show ?thesis using less.prems that by (auto simp: tidy.simps[of a] isAuto_shapes(4)[of a])
    next
      case 3 then show ?thesis using less.prems that by (auto simp: tidy.simps[of a] isAuto_shapes(5)[of a] list_all_iff)
    next
      case 4 then show ?thesis using less.prems(1) that no by (simp add: tidy.simps[of a])
    qed
  qed
  have ih: "binds al (updateAliasMap opt path u i al)" if "firstType a = Some u \<or> secondType a = Some u \<or> u \<in> set (argTypes a)" for u i al path
    using less.IH[of u] sub[OF that] that firstType_size secondType_size argTypes_size by blast
  show ?case
  proof (cases "baseType i = autoinfer")
    case True then show ?thesis using no by (subst updateAliasMap.simps) (simp add: bindsI bind_alias_le)
  next
    case False
    then show ?thesis using no
      by (subst updateAliasMap.simps)
        (auto intro!: binds_bind alias_part_binds alias_args_binds ih)
  qed
qed

text \<open>The outcome depends only on the choices below the path.\<close>

lemma alias_args_same:
  "(\<And>k al. k < length us \<Longrightarrow> k < length vs \<Longrightarrow> f (i + k) (us ! k) (vs ! k) al = g (i + k) (us ! k) (vs ! k) al) \<Longrightarrow> alias_args f i us vs al = alias_args g i us vs al"
proof (induction us arbitrary: i vs al)
  case (Cons u us)
  show ?case
  proof (cases vs)
    case v: (Cons v vs')
    have "f i u v al = g i u v al" using Cons.prems[of 0] v by simp
    moreover have "alias_args f (Suc i) us vs' = alias_args g (Suc i) us vs'"
      by (rule ext, rule Cons.IH) (use Cons.prems[of "Suc k" for k] v in auto)
    ultimately show ?thesis by (simp add: v)
  qed simp
qed simp

lemma alias_part_same: "(\<And>u v al. a = Some u \<Longrightarrow> f u v al = g u v al) \<Longrightarrow> alias_part f a b al = alias_part g a b al"
  by (cases a; cases b) (auto simp: alias_part_def)

lemma update_local:
  "(\<And>q. opt (path @ q) = opt' (path @ q)) \<Longrightarrow> updateAliasMap opt path a i al = updateAliasMap opt' path a i al"
proof (induction a arbitrary: i al path rule: measure_induct_rule[of size])
  case (less a)
  have ih: "updateAliasMap opt (path @ [k]) u i al = updateAliasMap opt' (path @ [k]) u i al"
    if "firstType a = Some u \<or> secondType a = Some u \<or> u \<in> set (argTypes a)" for u i al k
    using less.IH[of u "path @ [k]"] less.prems[of "k # q" for q] that firstType_size secondType_size argTypes_size by auto
  have o: "opt path = opt' path" using less.prems[of "[]"] by simp
  have f: "alias_part (\<lambda>u v. updateAliasMap opt (path @ [0]) u v) (firstType a) b = alias_part (\<lambda>u v. updateAliasMap opt' (path @ [0]) u v) (firstType a) b" for b
    by (rule ext, rule alias_part_same) (simp add: ih)
  have g: "alias_part (\<lambda>u v. updateAliasMap opt (path @ [1]) u v) (secondType a) b = alias_part (\<lambda>u v. updateAliasMap opt' (path @ [1]) u v) (secondType a) b" for b
    by (rule ext, rule alias_part_same) (simp add: ih)
  have us: "alias_args (\<lambda>k u v. updateAliasMap opt (path @ [k + 2]) u v) 0 (argTypes a) bs = alias_args (\<lambda>k u v. updateAliasMap opt' (path @ [k + 2]) u v) 0 (argTypes a) bs" for bs
    by (rule ext, rule alias_args_same) (simp add: ih)
  show ?case
    unfolding updateAliasMap.simps[of opt path a] updateAliasMap.simps[of opt' path a] o f g us
    using ih by (auto split: option.split)
qed


section \<open>A match, then an update\<close>

text \<open>The pattern without its qualifiers, which is all that the update's path depends on.\<close>

fun frame :: "type_decl \<Rightarrow> type_decl" where
  "frame (TypeDecl b st en an ft sd args names dim fl al) =
    TypeDecl b st en an (map_option frame ft) (map_option frame sd) (map frame args) names dim no_flags al"

lemma frame_sel [simp]:
  "baseType (frame t) = baseType t" "td_alias (frame t) = td_alias t" "fixedDim (frame t) = fixedDim t"
  "firstType (frame t) = map_option frame (firstType t)" "secondType (frame t) = map_option frame (secondType t)"
  "argTypes (frame t) = map frame (argTypes t)"
  by (cases t; simp)+

lemma frame_put [simp]:
  "frame (map_flags g t) = frame t" "frame (put_first f t) = put_first (map_option frame f) (frame t)"
  "frame (put_second f t) = put_second (map_option frame f) (frame t)" "frame (put_args us t) = put_args (map frame us) (frame t)"
  by (cases t; simp)+

lemma frame_qualify [simp]: "frame (qualify_option a t) = frame t"
  by (simp add: qualify_option_def)

lemma tried_frame: "tried a b \<Longrightarrow> frame b = frame a"
proof (induction a arbitrary: b rule: measure_induct_rule[of size])
  case (less a)
  have ih: "frame u = frame v" if "size u < size a" "tried u v" for u v using less.IH[OF that] by simp
  show ?case using less.prems
  proof cases
    case (Alternatives us)
    have "list_all2 (\<lambda>u v. frame u = frame v) (argTypes a) us"
    proof (rule list.rel_mono_strong[OF Alternatives(3)])
      fix u v assume u: "u \<in> set (argTypes a)" and "v = u \<or> tried (qualify_option a u) v"
      then show "frame u = frame v" using less.IH[of "qualify_option a u" v] argTypes_size[OF u] by auto
    qed
    then have "map frame us = map frame (argTypes a)" by (induction rule: list_all2_induct) auto
    then show ?thesis using put_same(3)[of "frame a"] by (simp add: Alternatives(1))
  next
    case (Parts f g us)
    have "rel_option (\<lambda>u v. frame u = frame v) (firstType a) f"
      by (rule option.rel_mono_strong[OF Parts(4)]) (use ih firstType_size in auto)
    then have f: "map_option frame f = map_option frame (firstType a)" by (cases "firstType a"; cases f) auto
    have "rel_option (\<lambda>u v. frame u = frame v) (secondType a) g"
      by (rule option.rel_mono_strong[OF Parts(5)]) (use ih secondType_size in auto)
    then have g: "map_option frame g = map_option frame (secondType a)" by (cases "secondType a"; cases g) auto
    have "list_all2 (\<lambda>u v. frame u = frame v) (argTypes a) us"
      by (rule list.rel_mono_strong[OF Parts(6)]) (use ih argTypes_size in auto)
    then have us: "map frame us = map frame (argTypes a)" by (induction rule: list_all2_induct) auto
    show ?thesis using f g us put_same[of "frame a"] by (simp add: Parts(1))
  qed simp
qed

lemma frame_auto: "isAuto (frame t) = isAuto t"
proof (induction t rule: measure_induct_rule[of size])
  case (less t)
  have "isAuto (frame u) = isAuto u" if "firstType t = Some u \<or> secondType t = Some u \<or> u \<in> set (argTypes t)" for u
    using less that firstType_size secondType_size argTypes_size by blast
  then show ?case
    by (subst (1 2) isAuto.simps) (auto simp: list_ex_iff split: option.split)
qed

lemma frame_tidy: "tidy (frame t) = tidy t"
proof (induction t rule: measure_induct_rule[of size])
  case (less t)
  have i: "tidy (frame u) = tidy u" if "firstType t = Some u \<or> secondType t = Some u \<or> u \<in> set (argTypes t)" for u
    using less that firstType_size secondType_size argTypes_size by blast
  have o: "list_all tidy (opt_list (map_option frame x)) = list_all tidy (opt_list x)" if "x = firstType t \<or> x = secondType t" for x
    using i that by (cases x) auto
  have "list_all tidy (map frame (argTypes t)) = list_all tidy (argTypes t)" using i by (auto simp: list_all_iff)
  then show ?case by (subst (1 2) tidy.simps) (simp add: o)
qed

lemma same_frame:
  assumes "frame b = frame a"
  shows "isAuto b = isAuto a" "tidy b = tidy a" "baseType b = baseType a" "td_alias b = td_alias a" "length (argTypes b) = length (argTypes a)"
    "firstType b = Some v \<Longrightarrow> \<exists>u. firstType a = Some u \<and> frame v = frame u"
    "secondType b = Some v \<Longrightarrow> \<exists>u. secondType a = Some u \<and> frame v = frame u"
    "k < length (argTypes b) \<Longrightarrow> frame (argTypes b ! k) = frame (argTypes a ! k)"
proof -
  show "isAuto b = isAuto a" using frame_auto[of a] frame_auto[of b] assms by simp
  show "tidy b = tidy a" using frame_tidy[of a] frame_tidy[of b] assms by simp
  show "baseType b = baseType a" "td_alias b = td_alias a" using arg_cong[OF assms, of baseType] arg_cong[OF assms, of td_alias] by simp_all
  have as: "map frame (argTypes b) = map frame (argTypes a)" using arg_cong[OF assms, of argTypes] by simp
  then show l: "length (argTypes b) = length (argTypes a)" using map_eq_imp_length_eq by blast
  show "k < length (argTypes b) \<Longrightarrow> frame (argTypes b ! k) = frame (argTypes a ! k)"
    using arg_cong[OF as, of "\<lambda>xs. xs ! k"] l by simp
  show "firstType b = Some v \<Longrightarrow> \<exists>u. firstType a = Some u \<and> frame v = frame u"
    using arg_cong[OF assms, of firstType] by (cases "firstType a") auto
  show "secondType b = Some v \<Longrightarrow> \<exists>u. secondType a = Some u \<and> frame v = frame u"
    using arg_cong[OF assms, of secondType] by (cases "secondType a") auto
qed

lemma update_reads:
  "reads_as path cs ds \<Longrightarrow> updateAliasMap (map_of cs) path a i al = updateAliasMap (map_of ds) path a i al"
  by (rule update_local) (simp add: reads_as_def)

lemma update_shape:
  assumes "baseType b \<noteq> das_type.option"
    and "\<And>u v al. firstType b = Some u \<Longrightarrow> firstType i = Some v \<Longrightarrow> binds al (updateAliasMap opt (path @ [0]) u v al)"
    and "\<And>u v al. secondType b = Some u \<Longrightarrow> secondType i = Some v \<Longrightarrow> binds al (updateAliasMap opt (path @ [1]) u v al)"
    and "\<And>k al. k < length (argTypes b) \<Longrightarrow> k < length (argTypes i) \<Longrightarrow> binds al (updateAliasMap opt (path @ [k + 2]) (argTypes b ! k) (argTypes i ! k) al)"
  shows "binds al (updateAliasMap opt path b i al)"
proof -
  have f: "binds al (alias_part (\<lambda>u v. updateAliasMap opt (path @ [0]) u v) (firstType b) (firstType i) al)" for al
    by (rule alias_part_binds) (rule assms(2))
  have g: "binds al (alias_part (\<lambda>u v. updateAliasMap opt (path @ [1]) u v) (secondType b) (secondType i) al)" for al
    by (rule alias_part_binds) (rule assms(3))
  have us: "binds al (alias_args (\<lambda>k u v. updateAliasMap opt (path @ [k + 2]) u v) 0 (argTypes b) (argTypes i) al)" for al
    by (rule alias_args_binds) (use assms(4) in simp)
  have "binds al (Option.bind (alias_part (\<lambda>u v. updateAliasMap opt (path @ [0]) u v) (firstType b) (firstType i) al)
      (\<lambda>al. Option.bind (alias_part (\<lambda>u v. updateAliasMap opt (path @ [1]) u v) (secondType b) (secondType i) al)
        (\<lambda>al. alias_args (\<lambda>k u v. updateAliasMap opt (path @ [k + 2]) u v) 0 (argTypes b) (argTypes i) al)))"
    by (intro binds_bind f g us)
  then show ?thesis using assms(1) unfolding updateAliasMap.simps[of opt path b]
    by (simp add: bindsI bind_alias_le)
qed

lemma match_binds:
  "inferGenericType E a i lvl pass path = (Inferred t, a', cs) \<Longrightarrow> tidy a \<Longrightarrow> frame b = frame a \<Longrightarrow>
    binds al (updateAliasMap (map_of cs) path b i al)"
proof (induction a arbitrary: b i lvl pass path t a' cs al rule: measure_induct_rule[of size])
  case (less a)
  note sf = same_frame[OF less.prems(3)]
  have ih: "binds al (updateAliasMap (map_of cs) path u' v al)"
    if "size u < size a" "tidy u" "fst (inferGenericType E u v lvl pass path) = Inferred w"
      "reads_as path cs (snd (snd (inferGenericType E u v lvl pass path)))" "frame u' = frame u" for u u' v w lvl pass path cs al
    unfolding update_reads[OF that(4)]
    by (rule less.IH[OF that(1) _ that(2,5)]) (use that(3) in \<open>auto simp: prod_eq_iff\<close>)
  from less.prems(1) show ?case
  proof (cases rule: infer_success_cases)
    case (alternative k)
    let ?f = "\<lambda>k u. inferGenericType E (qualify_option a u) i lvl pass (path @ [k + 2])"
    obtain us' c where t: "try_options ?f 0 (argTypes a) = (Inferred t, us', c, Some k)" and cs: "cs = (path, k) # c"
      using alternative(4) by blast
    have r: "reads_as (path @ [k + 2]) c (snd (snd (?f k (argTypes a ! k))))"
      using try_options_reads[OF choices_under t] by simp
    have "reads_as (path @ [k + 2]) cs c" by (simp add: reads_as_def cs)
    with r have r: "reads_as (path @ [k + 2]) cs (snd (snd (?f k (argTypes a ! k))))" by (simp add: reads_as_def)
    have "tidy (argTypes a ! k)" using less.prems(2) alternative(1,2) by (simp add: tidy.simps[of a] list_all_iff)
    then have "binds al (updateAliasMap (map_of cs) (path @ [k + 2]) (argTypes b ! k) i al)"
      by (intro ih[OF _ _ alternative(3) r]) (use sf(5,8) alternative(2) in \<open>simp_all add: argTypes_size\<close>)
    then show ?thesis using alternative(1,2) sf(3,5) by (subst updateAliasMap.simps) (simp add: cs)
  next
    case plain
    then show ?thesis using plain_binds sf(1,2) less.prems(2) by simp
  next
    case (single u v w)
    have t: "tidy u" "secondType a = None" "argTypes a = []" using less.prems(2) single(2,5) by (auto simp: tidy.simps[of a])
    show ?thesis
    proof (rule update_shape)
      fix u' v' al assume "firstType b = Some u'" "firstType i = Some v'"
      then show "binds al (updateAliasMap (map_of cs) (path @ [0]) u' v' al)"
        using single sf(6)[of u'] by (intro ih[OF firstType_size[OF single(5)] t(1), of v' False False "path @ [0]" w]) auto
    qed (use single(2) sf(3,5,7) t(2,3) in auto)
  next
    case (table u v w u2 v2 w2)
    have t: "tidy u" "tidy u2" "argTypes a = []" using less.prems(2) table(2,5,9) by (auto simp: tidy.simps[of a])
    note u1 = choices_under[of "path @ [0]" E u v False False] and u2 = choices_under[of "path @ [1]" E u2 v2 False False]
    have r: "reads_as (path @ [0]) cs (snd (snd (inferGenericType E u v False False (path @ [0]))))"
      "reads_as (path @ [1]) cs (snd (snd (inferGenericType E u2 v2 False False (path @ [1]))))"
      unfolding table(13) using reads_as_skip(2)[OF u2] reads_as_skip(1)[OF u1] by auto
    show ?thesis
    proof (rule update_shape)
      fix u' v' al assume "firstType b = Some u'" "firstType i = Some v'"
      then show "binds al (updateAliasMap (map_of cs) (path @ [0]) u' v' al)"
        using table(5-7) r(1) sf(6)[of u'] by (intro ih[OF firstType_size[OF table(5)] t(1), of v' False False "path @ [0]" w]) auto
    next
      fix u' v' al assume "secondType b = Some u'" "secondType i = Some v'"
      then show "binds al (updateAliasMap (map_of cs) (path @ [1]) u' v' al)"
        using table(9-11) r(2) sf(7)[of u'] by (intro ih[OF secondType_size[OF table(9)] t(2), of v' False False "path @ [1]" w2]) auto
    qed (use table(2) sf(3,5) t(3) in auto)
  next
    case (block ft ts)
    have t: "secondType a = None" "\<And>u. firstType a = Some u \<Longrightarrow> tidy u" "\<And>u. u \<in> set (argTypes a) \<Longrightarrow> tidy u"
      using less.prems(2) block(2) by (auto simp: tidy.simps[of a] list_all_iff)
    let ?f = "\<lambda>k u v. inferGenericType E u v False False (path @ [k + 2])"
    obtain as c1 c2 where ia: "infer_args ?f 0 (argTypes a) (argTypes i) = (Inr ts, as, c2)" and cs: "cs = c1 @ c2"
      and c1: "c1 = (case firstType a of None \<Rightarrow> [] | Some u \<Rightarrow> snd (snd (inferGenericType E u (the (firstType i)) False False (path @ [0]))))"
      using block(9) by blast
    have ar: "\<forall>p\<in>fst ` set c2. \<exists>k\<ge>0. \<exists>q. p = path @ (k + 2) # q"
      "\<forall>k<length (argTypes a). reads_as (path @ [k + 2]) c2 (snd (snd (?f k (argTypes a ! k) (argTypes i ! k))))"
      using infer_args_reads[OF choices_under ia] block(5) by auto
    have u1: "under (path @ [0]) c1" using choices_under by (auto simp: c1 split: option.split)
    show ?thesis
    proof (rule update_shape)
      fix u' v' al assume p: "firstType b = Some u'" "firstType i = Some v'"
      then obtain u where u: "firstType a = Some u" "frame u' = frame u" using sf(6) by blast
      have "map_of c2 (path @ 0 # q) = None" for q using ar(1) by (fastforce simp: map_of_eq_None_iff)
      then have "reads_as (path @ [0]) cs (snd (snd (inferGenericType E u v' False False (path @ [0]))))"
        using u(1) p(2) by (auto simp: reads_as_def cs c1 map_add_def split: option.split)
      moreover obtain w where "fst (inferGenericType E u v' False False (path @ [0])) = Inferred w" using block(4) u(1) p(2) by auto
      ultimately show "binds al (updateAliasMap (map_of cs) (path @ [0]) u' v' al)"
        using ih[OF firstType_size[OF u(1)] t(2)[OF u(1)]] u(2) by blast
    next
      fix k al assume k: "k < length (argTypes b)" "k < length (argTypes i)"
      then have m: "argTypes a ! k \<in> set (argTypes a)" "k < length (argTypes a)" using sf(5) by auto
      have "reads_as (path @ [k + 2]) cs (snd (snd (?f k (argTypes a ! k) (argTypes i ! k))))"
        unfolding cs by (rule reads_as_skip(1)[OF u1]) (use ar(2) m(2) in auto)
      moreover have "fst (?f k (argTypes a ! k) (argTypes i ! k)) = Inferred (ts ! k)" using block(6,7) m(2) by simp
      ultimately show "binds al (updateAliasMap (map_of cs) (path @ [k + 2]) (argTypes b ! k) (argTypes i ! k) al)"
        using ih[OF argTypes_size[OF m(1)] t(3)[OF m(1)]] sf(8)[OF k(1)] by blast
    qed (use block(2) sf(3,7) t(1) in auto)
  next
    case free
    have n: "firstType a = None" "secondType a = None" "argTypes a = []"
      using less.prems(2)[unfolded tidy.simps[of a] if_not_P[OF free(4)] if_not_P[OF free(5)] if_not_P[OF free(6)] if_not_P[OF free(7)]] by auto
    have m: "firstType b \<noteq> Some u" "secondType b \<noteq> Some u" "argTypes b = []" for u using sf(5,6,7) n by auto
    show ?thesis by (rule update_shape) (simp_all add: m sf(3) free(7))
  qed
qed

text \<open>C17: after a match the alias map can be updated with the pattern the match left behind: every option the update meets
  has its choice recorded, so the verification "option not found" never fails, and no earlier binding is changed.\<close>

theorem match_then_update:
  assumes "inferGenericType E a i lvl pass [] = (Inferred t, a', cs)" and "tidy a"
  shows "\<exists>al'. updateAliasMap (map_of cs) [] a' i al = Some al' \<and> (\<forall>n. al n \<noteq> None \<longrightarrow> al' n = al n)"
proof -
  have "frame a' = frame a" using tried_frame[OF tried_left[of a E i lvl pass "[]"]] assms(1) by simp
  from match_binds[OF assms this, of al] obtain al' where "updateAliasMap (map_of cs) [] a' i al = Some al'" "al \<subseteq>\<^sub>m al'"
    by (auto simp: binds_def)
  then show ?thesis by (auto simp: map_le_def dom_def)
qed

end
