(* ===== verification/FindAlias.thy ===== *)
theory FindAlias
  imports Generics
begin

text \<open>
  The alias cache does not change what \<open>findAlias\<close> finds: on trees whose valid marks are true it
  finds what a search without the cache finds.
\<close>

abbreviation components :: "type_decl \<Rightarrow> type_decl list" where
  "components t \<equiv> opt_list (firstType t) @ opt_list (secondType t) @ argTypes t"

text \<open>The search and the question the cache answers, without the cache.\<close>

fun search :: "string \<Rightarrow> bool \<Rightarrow> type_decl \<Rightarrow> type_decl option" where
  "search na allowAuto t =
    (if baseType t = aliasType then None
     else if baseType t = autoinfer \<and> \<not> allowAuto then None
     else if td_alias t = na then Some t
     else first_found (search na allowAuto) (components t))"

fun any_alias :: "type_decl \<Rightarrow> bool" where
  "any_alias t \<longleftrightarrow> baseType t \<noteq> aliasType \<and> (td_alias t \<noteq> [] \<or> list_ex any_alias (components t))"

text \<open>Every mark that is set is right.\<close>

fun coherent :: "type_decl \<Rightarrow> bool" where
  "coherent t \<longleftrightarrow> (f_aliasCacheValid (flags t) \<longrightarrow> f_aliasCacheHasAlias (flags t) = any_alias t) \<and> list_all coherent (components t)"

declare search.simps [simp del] any_alias.simps [simp del] coherent.simps [simp del]

lemma components_copy: "baseType (copy_type t) = baseType t" "td_alias (copy_type t) = td_alias t" "components (copy_type t) = map copy_type (components t)"
proof -
  show "baseType (copy_type t) = baseType t" "td_alias (copy_type t) = td_alias t" by (cases t; simp)+
  show "components (copy_type t) = map copy_type (components t)"
  proof (cases t)
    case (TypeDecl b st en an f s as ns d fl al)
    then show ?thesis by (cases f; cases s) simp_all
  qed
qed

lemma first_found_map: "(\<And>u. u \<in> set us \<Longrightarrow> f (g u) = map_option g (h u)) \<Longrightarrow> first_found f (map g us) = map_option g (first_found h us)"
  by (induction us) (auto split: option.split)

lemma search_copy: "search na allowAuto (copy_type t) = map_option copy_type (search na allowAuto t)"
proof (induction t rule: measure_induct_rule[of size])
  case (less t)
  have "first_found (search na allowAuto) (components (copy_type t)) = map_option copy_type (first_found (search na allowAuto) (components t))"
    unfolding components_copy by (rule first_found_map) (use less component_size in blast)
  then show ?case by (subst (1 2) search.simps) (simp only: components_copy(1,2) option.map if_distrib[of "map_option copy_type"] cong: if_cong)
qed

lemma any_alias_copy: "any_alias (copy_type t) = any_alias t"
proof (induction t rule: measure_induct_rule[of size])
  case (less t)
  have "list_ex any_alias (components (copy_type t)) = list_ex any_alias (components t)"
    unfolding components_copy using less component_size[of _ t] by (auto simp: list_ex_iff)
  then show ?case by (subst (1 2) any_alias.simps) (simp only: components_copy(1,2))
qed

lemma first_found_none: "first_found f us = None \<longleftrightarrow> (\<forall>u\<in>set us. f u = None)"
  by (induction us) (auto split: option.split)

lemma search_none: "\<not> any_alias t \<Longrightarrow> na \<noteq> [] \<Longrightarrow> search na allowAuto t = None"
proof (induction t rule: measure_induct_rule[of size])
  case (less t)
  have "search na allowAuto u = None" if "u \<in> set (components t)" "baseType t \<noteq> aliasType" for u
    using less.IH[OF component_size[OF that(1)]] less.prems that by (auto simp: any_alias.simps[of t] list_ex_iff)
  then show ?case using less.prems by (subst search.simps) (auto simp: any_alias.simps[of t] first_found_none)
qed

section \<open>Computing the marks\<close>

lemma copy_mark [simp]: "copy_type (mark_alias b t) = copy_type t"
  by (cases t) (simp add: mark_alias_def)

lemma copy_components: "copy_type (put_first f (put_second s (put_args us t))) =
    put_first (map_option copy_type f) (put_second (map_option copy_type s) (put_args (map copy_type us) (copy_type t)))"
  by (cases t) simp

lemma compute_copy: "copy_type (computeAliasCache t) = copy_type t"
proof (induction t rule: measure_induct_rule[of size])
  case (less t)
  have i: "copy_type (computeAliasCache u) = copy_type u" if "u \<in> set (components t)" for u
    using less component_size[OF that] by blast
  have f: "map_option copy_type (map_option computeAliasCache (firstType t)) = map_option copy_type (firstType t)"
    using i by (cases "firstType t") simp_all
  have g: "map_option copy_type (map_option computeAliasCache (secondType t)) = map_option copy_type (secondType t)"
    using i by (cases "secondType t") simp_all
  have us: "map copy_type (map computeAliasCache (argTypes t)) = map copy_type (argTypes t)"
    using i by simp
  have e: "put_first (map_option copy_type (firstType t)) (put_second (map_option copy_type (secondType t)) (put_args (map copy_type (argTypes t)) (copy_type t))) = copy_type t"
    by (cases t) simp
  consider "f_aliasCacheValid (flags t)" | "\<not> f_aliasCacheValid (flags t)" "baseType t = aliasType" | "\<not> f_aliasCacheValid (flags t)" "baseType t \<noteq> aliasType"
    by blast
  then show ?case
  proof cases
    case 3
    then show ?thesis unfolding computeAliasCache.simps[of t] Let_def by (simp only: if_False copy_mark copy_components f g us e)
  qed (simp_all add: computeAliasCache.simps[of t])
qed

lemma any_alias_compute: "any_alias (computeAliasCache t) = any_alias t"
  using any_alias_copy[of t] any_alias_copy[of "computeAliasCache t"] by (simp add: compute_copy)

lemma compute_marks:
  "coherent t \<Longrightarrow> f_aliasCacheValid (flags (computeAliasCache t)) \<and> f_aliasCacheHasAlias (flags (computeAliasCache t)) = any_alias t \<and>
    coherent (computeAliasCache t)"
proof (induction t rule: measure_induct_rule[of size])
  case (less t)
  show ?case
  proof (cases "f_aliasCacheValid (flags t)")
    case True
    then have "computeAliasCache t = t" by (subst computeAliasCache.simps) simp
    then show ?thesis using True less.prems coherent.simps[of t] by simp
  next
    case no: False
    show ?thesis
    proof (cases "baseType t = aliasType")
      case True
      have m: "computeAliasCache t = mark_alias False t" using no True by (subst computeAliasCache.simps) simp
      have "components (mark_alias False t) = components t" by (simp add: mark_alias_def)
      then show ?thesis using less.prems True any_alias_compute[of t] unfolding m
        by (simp add: coherent.simps[of t] coherent.simps[of "mark_alias False t"] any_alias.simps[of t]) (simp add: mark_alias_def any_alias.simps)
    next
      case na: False
      let ?f = "map_option computeAliasCache (firstType t)" and ?s = "map_option computeAliasCache (secondType t)"
        and ?us = "map computeAliasCache (argTypes t)"
      have cs: "opt_list ?f @ opt_list ?s @ ?us = map computeAliasCache (components t)"
        by (cases "firstType t"; cases "secondType t") simp_all
      have i: "f_aliasCacheHasAlias (flags (computeAliasCache u)) = any_alias u \<and> coherent (computeAliasCache u)" if "u \<in> set (components t)" for u
        using less.IH[OF component_size[OF that]] less.prems that by (auto simp: coherent.simps[of t] list_all_iff)
      define has where "has = (td_alias t \<noteq> [] \<or> list_ex (\<lambda>u. f_aliasCacheHasAlias (flags u)) (opt_list ?f @ opt_list ?s @ ?us))"
      have h: "has = any_alias t" unfolding has_def cs any_alias.simps[of t] using na i by (auto simp: list_ex_iff)
      have m: "computeAliasCache t = mark_alias has (put_first ?f (put_second ?s (put_args ?us t)))"
        using no na by (subst computeAliasCache.simps) (simp add: Let_def has_def)
      have "components (computeAliasCache t) = map computeAliasCache (components t)" unfolding m mark_alias_def put_sel cs ..
      moreover have "f_aliasCacheValid (flags (computeAliasCache t))" "f_aliasCacheHasAlias (flags (computeAliasCache t)) = has"
        unfolding m mark_alias_def by simp_all
      ultimately show ?thesis using i h any_alias_compute[of t] by (subst coherent.simps) (auto simp: list_all_iff)
    qed
  qed
qed

lemma first_found_cong2: "(\<And>u. u \<in> set us \<Longrightarrow> map_option g (f u) = map_option g (h u)) \<Longrightarrow> map_option g (first_found f us) = map_option g (first_found h us)"
proof (induction us)
  case (Cons u us)
  have "map_option g (f u) = map_option g (h u)" using Cons.prems by simp
  then show ?case using Cons by (cases "f u"; cases "h u") auto
qed simp

text \<open>C26: with its cache \<open>findAlias\<close> finds the node that a full search of the type finds, for every name that is not empty,
  whichever nodes of the tree are marked already, as long as the marks there are true.\<close>

theorem cached_search:
  assumes "coherent t" and "na \<noteq> []"
  shows "map_option copy_type (findAlias na allowAuto t) = map_option copy_type (search na allowAuto t)"
  using assms(1)
proof (induction t rule: measure_induct_rule[of size])
  case (less t)
  let ?t = "computeAliasCache t"
  note m = compute_marks[OF less.prems]
  have same: "map_option copy_type (search na allowAuto ?t) = map_option copy_type (search na allowAuto t)"
    using search_copy[of na allowAuto t] search_copy[of na allowAuto ?t] by (simp add: compute_copy)
  have rec: "map_option copy_type (first_found (findAlias na allowAuto) (components ?t)) = map_option copy_type (first_found (search na allowAuto) (components ?t))"
  proof (rule first_found_cong2)
    fix u assume u: "u \<in> set (components ?t)"
    have "coherent u" using m u by (auto simp: coherent.simps[of ?t] list_all_iff)
    with less.IH[of u] component_size[OF u] show "map_option copy_type (findAlias na allowAuto u) = map_option copy_type (search na allowAuto u)" by simp
  qed
  show ?case
  proof (cases "any_alias t")
    case False
    then show ?thesis using m search_none[OF False assms(2)] by (subst findAlias.simps) (simp add: Let_def)
  next
    case True
    then have "map_option copy_type (findAlias na allowAuto t) = map_option copy_type (search na allowAuto ?t)"
      using m rec by (subst findAlias.simps, subst search.simps) (simp add: Let_def)
    then show ?thesis using same by simp
  qed
qed

end
