(* ===== verification/GenericsDemo.thy ===== *)
theory GenericsDemo
  imports GenericsAlias FindAlias TypeReach
begin

text \<open>The theorems on generic types at work: \<open>string | array<auto(TT)>\<close> matched with \<open>array<int>\<close>.\<close>

definition gen_env :: env where
  "gen_env = \<lparr>e_structs = [], e_anns = (\<lambda>_. demo_ann), e_enums = (\<lambda>_. tInt)\<rparr>"

definition auto_named :: "string \<Rightarrow> type_decl" where
  "auto_named n = with_alias_name n (new_type autoinfer)"

definition array_type :: "type_decl \<Rightarrow> type_decl" where
  "array_type u = put_first (Some u) (new_type tArray)"

definition gen_pattern :: type_decl where
  "gen_pattern = put_args [new_type tString, array_type (auto_named ''TT'')] (new_type das_type.option)"

lemma gen_match:
  "inferGenericType gen_env gen_pattern (array_type (new_type tInt)) True True [] =
    (Inferred (array_type (with_alias_name ''TT'' (new_type tInt))), gen_pattern, [([], 1)])"
  by code_simp

lemma gen_tidy: "tidy gen_pattern"
  by code_simp

lemma inferred_is_instance_witness:
  "instance_of gen_pattern (array_type (with_alias_name ''TT'' (new_type tInt))) \<and> \<not> isAuto (array_type (with_alias_name ''TT'' (new_type tInt)))"
proof -
  have "\<not> isAuto (array_type (new_type tInt))" by code_simp
  from inferred_is_instance[OF gen_match this] show ?thesis by simp
qed

lemma match_then_update_witness:
  "\<exists>al'. updateAliasMap (map_of [([], 1)]) [] gen_pattern (array_type (new_type tInt)) (\<lambda>_. None) = Some al'"
  using match_then_update[OF gen_match gen_tidy, of "\<lambda>_. None"] by blast

text \<open>The binding that update makes.\<close>

lemma gen_binding:
  "map_option (\<lambda>al. al ''TT'') (updateAliasMap (map_of [([], 1)]) [] gen_pattern (array_type (new_type tInt)) (\<lambda>_. None)) =
    Some (Some (with_alias_name ''TT'' (new_type tInt)))"
  by code_simp

lemma cached_search_witness:
  "map_option copy_type (findAlias ''TT'' True gen_pattern) = Some (auto_named ''TT'')"
proof -
  have "coherent gen_pattern" "map_option copy_type (search ''TT'' True gen_pattern) = Some (auto_named ''TT'')" by code_simp+
  then show ?thesis using cached_search[of gen_pattern "''TT''" True] by simp
qed

end
