(* ===== verification/SortArray.thy ===== *)
theory SortArray
  imports Prelude "HOL-Library.Multiset"
begin

text \<open>
  The ground of the sort family (\<open>das_qsort_r.h\<close>): comparisons, exchanges and
  permutations of a range of an array. \<open>byte_swap\<close> and \<open>sized_memcpy\<close> are modelled on
  the bytes and shown to exchange and copy whole elements; the algorithms built on them
  then work on the list of the elements. The interface they use of their comparison
  is the locale \<open>comparator\<close>, which the comparison of strings provides.
\<close>

section \<open>Comparisons\<close>

text \<open>
  \<open>cmp x y\<close> stands for \<open>x < y\<close>. The contract is that of C++'s \<open>std::sort\<close>: a strict
  weak order. A comparison is a function of the two values: a script block with side
  effects on the array is outside (the array is locked while it is sorted).
\<close>

locale comparator =
  fixes cmp :: "'a \<Rightarrow> 'a \<Rightarrow> bool"
  assumes less_asym: "cmp x y \<Longrightarrow> \<not> cmp y x"
    and not_less_trans: "\<not> cmp x y \<Longrightarrow> \<not> cmp y z \<Longrightarrow> \<not> cmp x z"
begin

lemma less_irrefl [simp]: "\<not> cmp x x"
  using less_asym by blast

lemma less_trans: "cmp x y \<Longrightarrow> cmp y z \<Longrightarrow> cmp x z"
  using less_asym not_less_trans by blast

lemma less_not_less: "cmp x y \<Longrightarrow> \<not> cmp z y \<Longrightarrow> cmp x z"
  using not_less_trans by blast

lemma not_less_less: "\<not> cmp y x \<Longrightarrow> cmp y z \<Longrightarrow> cmp x z"
  using not_less_trans by blast

end

text \<open>\<open>sorted_by\<close>: no element is less than an earlier one.\<close>

definition sorted_by :: "('a \<Rightarrow> 'a \<Rightarrow> bool) \<Rightarrow> 'a list \<Rightarrow> bool" where
  "sorted_by cmp xs \<longleftrightarrow> sorted_wrt (\<lambda>x y. \<not> cmp y x) xs"

lemma sorted_by_nth:
  "sorted_by cmp xs \<longleftrightarrow> (\<forall>a b. a < b \<longrightarrow> b < length xs \<longrightarrow> \<not> cmp (xs ! b) (xs ! a))"
  by (simp add: sorted_by_def sorted_wrt_iff_nth_less)

text \<open>\<open>strcmp(to_rts(a), to_rts(b)) < 0\<close>: unsigned bytes, the end of a string first.\<close>

fun strcmp_less :: "u8 list \<Rightarrow> u8 list \<Rightarrow> bool" where
  "strcmp_less _ [] = False"
| "strcmp_less [] (_ # _) = True"
| "strcmp_less (a # as) (b # bs) = (if a = b then strcmp_less as bs else a < b)"

definition to_rts :: "u8 list option \<Rightarrow> u8 list" where
  "to_rts s = (case s of Some c \<Rightarrow> c | None \<Rightarrow> [])"

definition string_less :: "u8 list option \<Rightarrow> u8 list option \<Rightarrow> bool" where
  "string_less a b = strcmp_less (to_rts a) (to_rts b)"

lemma strcmp_less_asym: "strcmp_less a b \<Longrightarrow> \<not> strcmp_less b a"
  by (induction a b rule: strcmp_less.induct) (auto split: if_splits)

lemma strcmp_less_total: "strcmp_less a b \<or> a = b \<or> strcmp_less b a"
  by (induction a b rule: strcmp_less.induct) (auto, (metis list.exhaust strcmp_less.simps(2))+)

lemma strcmp_less_trans: "strcmp_less a b \<Longrightarrow> strcmp_less b c \<Longrightarrow> strcmp_less a c"
proof (induction a b arbitrary: c rule: strcmp_less.induct)
  case (2 b bs)
  then show ?case by (cases c) auto
next
  case (3 a as b bs)
  then show ?case by (cases c) (auto split: if_splits)
qed simp

interpretation string_order: comparator string_less
proof
  show "string_less x y \<Longrightarrow> \<not> string_less y x" for x y
    unfolding string_less_def by (rule strcmp_less_asym)
  show "\<not> string_less x y \<Longrightarrow> \<not> string_less y z \<Longrightarrow> \<not> string_less x z" for x y z
    unfolding string_less_def using strcmp_less_total strcmp_less_trans by metis
qed

section \<open>Exchanges\<close>

definition swap :: "nat \<Rightarrow> nat \<Rightarrow> 'a list \<Rightarrow> 'a list" where
  "swap i j xs = xs[i := xs ! j, j := xs ! i]"

lemma length_swap [simp]: "length (swap i j xs) = length xs"
  by (simp add: swap_def)

lemma swap_nth:
  "i < length xs \<Longrightarrow> j < length xs \<Longrightarrow>
   swap i j xs ! k = (if k = j then xs ! i else if k = i then xs ! j else xs ! k)"
  by (simp add: swap_def nth_list_update)

lemma swap_root_nth:
  "l < length xs \<Longrightarrow> swap 0 l xs ! k = (if k = l then xs ! 0 else if k = 0 then xs ! l else xs ! k)"
  by (intro swap_nth) auto

lemma swap_same [simp]: "swap i i xs = xs"
  by (simp add: swap_def)

lemma mset_swap_eq: "i < length xs \<Longrightarrow> j < length xs \<Longrightarrow> mset (swap i j xs) = mset xs"
  unfolding swap_def by (rule mset_swap)

text \<open>
  \<open>perm_in lo hi xs ys\<close>: \<open>ys\<close> is a permutation of \<open>xs\<close> that leaves every place outside
  \<open>lo \<le> k < hi\<close> alone.
\<close>

definition perm_in :: "nat \<Rightarrow> nat \<Rightarrow> 'a list \<Rightarrow> 'a list \<Rightarrow> bool" where
  "perm_in lo hi xs ys \<longleftrightarrow>
     mset ys = mset xs \<and> (\<forall>k. k < length xs \<longrightarrow> k < lo \<or> hi \<le> k \<longrightarrow> ys ! k = xs ! k)"

lemma perm_in_length: "perm_in lo hi xs ys \<Longrightarrow> length ys = length xs"
  unfolding perm_in_def by (metis size_mset)

lemma perm_in_mset: "perm_in lo hi xs ys \<Longrightarrow> mset ys = mset xs"
  by (simp add: perm_in_def)

lemma perm_in_outside:
  "perm_in lo hi xs ys \<Longrightarrow> k < length xs \<Longrightarrow> k < lo \<or> hi \<le> k \<Longrightarrow> ys ! k = xs ! k"
  unfolding perm_in_def by blast

lemma perm_in_refl [simp, intro]: "perm_in lo hi xs xs"
  by (simp add: perm_in_def)

lemma perm_in_trans:
  assumes "perm_in lo hi xs ys" "perm_in lo hi ys zs" shows "perm_in lo hi xs zs"
  using assms perm_in_length[OF assms(1)] unfolding perm_in_def by simp

lemma perm_in_mono: "perm_in lo hi xs ys \<Longrightarrow> lo' \<le> lo \<Longrightarrow> hi \<le> hi' \<Longrightarrow> perm_in lo' hi' xs ys"
  unfolding perm_in_def by auto

lemma perm_in_swap:
  assumes "lo \<le> i" "i < hi" "lo \<le> j" "j < hi" "hi \<le> length xs"
  shows "perm_in lo hi xs (swap i j xs)"
  using assms unfolding perm_in_def by (auto simp: mset_swap_eq swap_nth)

lemma perm_in_full: "mset ys = mset xs \<Longrightarrow> perm_in 0 (length xs) xs ys"
  by (simp add: perm_in_def)

lemma three_parts: "lo \<le> hi \<Longrightarrow> xs = take lo xs @ take (hi - lo) (drop lo xs) @ drop hi xs"
  by (metis append_assoc append_take_drop_id le_add_diff_inverse take_add)

lemma perm_in_slice:
  assumes "perm_in lo hi xs ys" "lo \<le> hi" "hi \<le> length xs"
  shows "mset (take (hi - lo) (drop lo ys)) = mset (take (hi - lo) (drop lo xs))"
proof -
  have len: "length ys = length xs" using assms(1) by (rule perm_in_length)
  have "take lo ys = take lo xs" "drop hi ys = drop hi xs"
    using assms len by (auto intro!: nth_equalityI simp: perm_in_def)
  moreover have "mset ys = mset xs" using assms(1) by (rule perm_in_mset)
  ultimately show ?thesis
    using three_parts[OF assms(2), of xs] three_parts[OF assms(2), of ys]
    by (metis add_left_cancel add_right_cancel mset_append)
qed

lemma perm_in_source:
  assumes "perm_in lo hi xs ys" "hi \<le> length xs" "lo \<le> k" "k < hi"
  obtains l where "lo \<le> l" "l < hi" "ys ! k = xs ! l"
proof -
  have len: "length ys = length xs" using assms(1) by (rule perm_in_length)
  have "ys ! k = take (hi - lo) (drop lo ys) ! (k - lo)" using assms len by simp
  also have "\<dots> \<in> set (take (hi - lo) (drop lo ys))"
    using assms len by (intro nth_mem) simp
  also have "set (take (hi - lo) (drop lo ys)) = set (take (hi - lo) (drop lo xs))"
    using perm_in_slice[OF assms(1)] assms by (metis le_trans less_imp_le mset_eq_setD)
  finally obtain i where "i < hi - lo" "ys ! k = take (hi - lo) (drop lo xs) ! i"
    using assms by (auto simp: in_set_conv_nth)
  then show ?thesis using assms that[of "lo + i"] by simp
qed

lemma perm_in_all:
  assumes "perm_in lo hi xs ys" "hi \<le> length xs" "\<And>k. lo \<le> k \<Longrightarrow> k < hi \<Longrightarrow> P (xs ! k)"
    and "lo \<le> k" "k < hi"
  shows "P (ys ! k)"
  using perm_in_source[OF assms(1,2,4,5)] assms(3) by metis

text \<open>A routine run on \<open>data + lo * width\<close> with \<open>n\<close> elements works on that part of the array.\<close>

definition on_range :: "nat \<Rightarrow> nat \<Rightarrow> ('a list \<Rightarrow> 'a list) \<Rightarrow> 'a list \<Rightarrow> 'a list" where
  "on_range lo n f xs = take lo xs @ f (take n (drop lo xs)) @ drop (lo + n) xs"

lemma on_range_perm:
  assumes "lo + n \<le> length xs" "mset (f (take n (drop lo xs))) = mset (take n (drop lo xs))"
  shows "perm_in lo (lo + n) xs (on_range lo n f xs)"
proof -
  have len: "length (f (take n (drop lo xs))) = n"
    using assms mset_eq_length[OF assms(2)] by simp
  have "mset (on_range lo n f xs) = mset xs"
    unfolding on_range_def using assms(2) three_parts[of lo "lo + n" xs]
    by (metis add_diff_cancel_left' le_add1 mset_append)
  moreover have "on_range lo n f xs ! k = xs ! k" if "k < length xs" "k < lo \<or> lo + n \<le> k" for k
    using that len assms(1) by (auto simp: on_range_def nth_append)
  ultimately show ?thesis by (simp add: perm_in_def)
qed

lemma on_range_nth:
  assumes "lo + n \<le> length xs" "length (f (take n (drop lo xs))) = n" "lo \<le> k" "k < lo + n"
  shows "on_range lo n f xs ! k = f (take n (drop lo xs)) ! (k - lo)"
  using assms by (auto simp: on_range_def nth_append)

end
