(* ===== verification/SortBytes.thy ===== *)
theory SortBytes
  imports SortArray
begin

text \<open>
  The two primitives of the byte-pointer algorithms on the bytes of memory, with the
  chunked loop for wide elements, and their meaning on the elements of an array.
\<close>

section \<open>memcpy\<close>

definition mem_read :: "u8 list \<Rightarrow> nat \<Rightarrow> nat \<Rightarrow> u8 list" where
  "mem_read mem a n = take n (drop a mem)"

definition mem_write :: "u8 list \<Rightarrow> nat \<Rightarrow> u8 list \<Rightarrow> u8 list" where
  "mem_write mem a bs = take a mem @ bs @ drop (a + length bs) mem"

definition sized_memcpy :: "u8 list \<Rightarrow> nat \<Rightarrow> nat \<Rightarrow> nat \<Rightarrow> u8 list" where
  "sized_memcpy mem dst src width = mem_write mem dst (mem_read mem src width)"

lemma length_mem_read [simp]: "a + n \<le> length mem \<Longrightarrow> length (mem_read mem a n) = n"
  by (simp add: mem_read_def)

lemma length_mem_write [simp]: "a + length bs \<le> length mem \<Longrightarrow> length (mem_write mem a bs) = length mem"
  by (simp add: mem_write_def)

lemma mem_read_nth: "a + n \<le> length mem \<Longrightarrow> k < n \<Longrightarrow> mem_read mem a n ! k = mem ! (a + k)"
  by (simp add: mem_read_def)

lemma mem_write_nth:
  assumes "a + length bs \<le> length mem" "k < length mem"
  shows "mem_write mem a bs ! k = (if a \<le> k \<and> k < a + length bs then bs ! (k - a) else mem ! k)"
  using assms by (auto simp: mem_write_def nth_append)

section \<open>Exchange of two elements\<close>

text \<open>One round: \<open>t = a; a = b; b = t\<close> through a buffer of \<open>n\<close> bytes.\<close>

definition swap_chunk :: "u8 list \<Rightarrow> nat \<Rightarrow> nat \<Rightarrow> nat \<Rightarrow> u8 list" where
  "swap_chunk mem a b n =
     (let t = mem_read mem a n; m1 = mem_write mem a (mem_read mem b n) in mem_write m1 b t)"

function swap_chunks :: "u8 list \<Rightarrow> nat \<Rightarrow> nat \<Rightarrow> nat \<Rightarrow> u8 list" where
  "swap_chunks mem a b width =
     (if width = 0 then mem
      else let chunk = min 256 width
           in swap_chunks (swap_chunk mem a b chunk) (a + chunk) (b + chunk) (width - chunk))"
  by auto
termination by (relation "measure (\<lambda>(_, _, _, w). w)") auto

declare swap_chunks.simps [simp del]

definition byte_swap :: "u8 list \<Rightarrow> nat \<Rightarrow> nat \<Rightarrow> nat \<Rightarrow> u8 list" where
  "byte_swap mem a b width =
     (if width \<in> {4, 8, 16, 32, 64, 128, 256} then swap_chunk mem a b width
      else swap_chunks mem a b width)"

text \<open>What an exchange of \<open>n\<close> bytes at \<open>a\<close> and \<open>b\<close> leaves at place \<open>k\<close>.\<close>

definition exchanged :: "u8 list \<Rightarrow> nat \<Rightarrow> nat \<Rightarrow> nat \<Rightarrow> nat \<Rightarrow> u8" where
  "exchanged mem a b n k =
     (if a \<le> k \<and> k < a + n then mem ! (b + (k - a))
      else if b \<le> k \<and> k < b + n then mem ! (a + (k - b)) else mem ! k)"

definition chunks_apart :: "nat \<Rightarrow> nat \<Rightarrow> nat \<Rightarrow> bool" where
  "chunks_apart a b n \<longleftrightarrow> a = b \<or> a + n \<le> b \<or> b + n \<le> a"

lemma swap_chunk_nth:
  assumes "a + n \<le> length mem" "b + n \<le> length mem" "chunks_apart a b n"
  shows "length (swap_chunk mem a b n) = length mem"
    and "k < length mem \<Longrightarrow> swap_chunk mem a b n ! k = exchanged mem a b n k"
  using assms
  by (auto simp: swap_chunk_def exchanged_def chunks_apart_def Let_def mem_write_nth mem_read_nth)

lemma exchanged_same [simp]: "exchanged mem a a n k = mem ! k"
  by (auto simp: exchanged_def)

lemma exchanged_split:
  assumes "a + n \<le> length mem" "b + n \<le> length mem" "chunks_apart a b n" "0 < c" "c \<le> n" "k < length mem"
    and m: "\<And>k. k < length mem \<Longrightarrow> m ! k = exchanged mem a b c k"
  shows "exchanged m (a + c) (b + c) (n - c) k = exchanged mem a b n k"
proof -
  have in_a: "exchanged mem a b c (a + l) = (if l < c then mem ! (b + l) else mem ! (a + l))" if "a \<noteq> b" "l < n" for l
    using that assms(3,5) by (auto simp: exchanged_def chunks_apart_def)
  have in_b: "exchanged mem a b c (b + l) = (if l < c then mem ! (a + l) else mem ! (b + l))" if "a \<noteq> b" "l < n" for l
    using that assms(3,5) by (auto simp: exchanged_def chunks_apart_def)
  consider "a = b" | l where "a \<noteq> b" "k = a + l" "l < n" | l where "a \<noteq> b" "k = b + l" "l < n"
    | "a \<noteq> b" "\<not> (a \<le> k \<and> k < a + n)" "\<not> (b \<le> k \<and> k < b + n)"
    by (metis add_less_cancel_left le_Suc_ex)
  then show ?thesis
  proof cases
    case 1
    then show ?thesis using m[OF assms(6)] by simp
  next
    case 2
    show ?thesis using 2 assms(1-3,5) m[of k] m[of "b + l"] in_a[of l] in_b[of l]
      by (auto simp: exchanged_def[of m] exchanged_def[of mem a b n] chunks_apart_def)
  next
    case 3
    show ?thesis using 3 assms(1-3,5) m[of k] m[of "a + l"] in_a[of l] in_b[of l]
      by (auto simp: exchanged_def[of m] exchanged_def[of mem a b n] chunks_apart_def)
  next
    case 4
    then show ?thesis using m[OF assms(6)] assms(5) by (auto simp: exchanged_def)
  qed
qed

lemma swap_chunks_nth:
  assumes "a + n \<le> length mem" "b + n \<le> length mem" "chunks_apart a b n"
  shows "length (swap_chunks mem a b n) = length mem \<and>
    (\<forall>k < length mem. swap_chunks mem a b n ! k = exchanged mem a b n k)"
  using assms
proof (induction mem a b n rule: swap_chunks.induct)
  case (1 mem a b n)
  show ?case
  proof (cases "n = 0")
    case True
    then show ?thesis by (subst swap_chunks.simps) (auto simp: swap_chunks.simps exchanged_def)
  next
    case False
    define c where "c = min 256 n"
    have c: "0 < c" "c \<le> n" using False by (auto simp: c_def)
    let ?m = "swap_chunk mem a b c"
    have ab: "chunks_apart a b c" and ab': "chunks_apart (a + c) (b + c) (n - c)"
      using "1.prems"(3) c by (auto simp: chunks_apart_def)
    have m: "length ?m = length mem" "\<And>k. k < length mem \<Longrightarrow> ?m ! k = exchanged mem a b c k"
      using swap_chunk_nth[of a c mem b] "1.prems" c ab by auto
    have IH: "length (swap_chunks ?m (a + c) (b + c) (n - c)) = length ?m \<and>
        (\<forall>k < length ?m. swap_chunks ?m (a + c) (b + c) (n - c) ! k = exchanged ?m (a + c) (b + c) (n - c) k)"
      using "1.IH"[OF False c_def] "1.prems" c ab' m(1) by simp
    have step: "swap_chunks mem a b n = swap_chunks ?m (a + c) (b + c) (n - c)"
      using False by (subst swap_chunks.simps) (simp add: Let_def c_def)
    have "exchanged ?m (a + c) (b + c) (n - c) k = exchanged mem a b n k" if "k < length mem" for k
      by (rule exchanged_split[OF "1.prems" c that m(2)])
    then show ?thesis using IH m(1) by (simp add: step)
  qed
qed

lemma byte_swap_nth:
  assumes "a + n \<le> length mem" "b + n \<le> length mem" "chunks_apart a b n"
  shows "length (byte_swap mem a b n) = length mem"
    and "k < length mem \<Longrightarrow> byte_swap mem a b n ! k = exchanged mem a b n k"
  using swap_chunk_nth[OF assms] swap_chunks_nth[OF assms] by (auto simp: byte_swap_def)

section \<open>The elements of an array\<close>

definition elements :: "nat \<Rightarrow> nat \<Rightarrow> u8 list \<Rightarrow> u8 list list" where
  "elements width nel mem = map (\<lambda>k. mem_read mem (k * width) width) [0..<nel]"

lemma length_elements [simp]: "length (elements width nel mem) = nel"
  by (simp add: elements_def)

lemma element_fits: "(k::nat) < nel \<Longrightarrow> nel * width \<le> n \<Longrightarrow> k * width + width \<le> n"
  by (metis Suc_leI add.commute le_trans mult_Suc mult_le_mono1)

lemma elements_apart: "chunks_apart (i * width) (j * width) width"
proof -
  have "i = j \<or> Suc i \<le> j \<or> Suc j \<le> i" by arith
  then have "i = j \<or> Suc i * width \<le> j * width \<or> Suc j * width \<le> i * width" by (metis mult_le_mono1)
  then show ?thesis unfolding chunks_apart_def by (auto simp: add.commute)
qed

lemma elements_eqI:
  assumes "nel * width \<le> length mem" "length mem' = length mem" "length es = nel"
    and "\<And>k l. k < nel \<Longrightarrow> l < width \<Longrightarrow> mem' ! (k * width + l) = es ! k ! l"
    and "\<And>k. k < nel \<Longrightarrow> length (es ! k) = width"
  shows "elements width nel mem' = es"
proof (rule nth_equalityI)
  fix k assume "k < length (elements width nel mem')"
  then have k: "k < nel" by simp
  have "mem_read mem' (k * width) width = es ! k"
    using k assms element_fits[OF k assms(1)] by (auto intro!: nth_equalityI simp: mem_read_nth)
  then show "elements width nel mem' ! k = es ! k" using k by (simp add: elements_def)
qed (use assms in simp)

lemma element_nth:
  assumes "nel * width \<le> length mem" "k < nel" "l < width"
  shows "elements width nel mem ! k ! l = mem ! (k * width + l)"
  using assms element_fits[OF assms(2,1)] by (simp add: elements_def mem_read_nth)

lemma length_element:
  assumes "nel * width \<le> length mem" "k < nel"
  shows "length (elements width nel mem ! k) = width"
  using assms element_fits[OF assms(2,1)] by (simp add: elements_def)

lemma in_element:
  assumes "(l::nat) < width"
  shows "i * width \<le> k * width + l \<and> k * width + l < i * width + width \<longleftrightarrow> k = i"
proof
  assume r: "i * width \<le> k * width + l \<and> k * width + l < i * width + width"
  have "\<not> i < k" using r assms mult_le_mono1[of "Suc i" k width] by (auto simp: Suc_le_eq)
  moreover have "\<not> k < i" using r assms mult_le_mono1[of "Suc k" i width] by (auto simp: Suc_le_eq)
  ultimately show "k = i" by arith
qed (use assms in auto)

text \<open>\<open>byte_swap\<close> exchanges two elements of an array of any element width, the
  sized cases and the chunked loop alike, and leaves every other element and the bytes
  around the array as they are; the elements may be one and the same.\<close>

theorem byte_swap_exchanges:
  assumes "nel * width \<le> length mem" "i < nel" "j < nel"
  shows "elements width nel (byte_swap mem (i * width) (j * width) width) = swap i j (elements width nel mem) \<and>
    drop (nel * width) (byte_swap mem (i * width) (j * width) width) = drop (nel * width) mem"
proof -
  let ?m = "byte_swap mem (i * width) (j * width) width"
  note fits = element_fits[OF assms(2,1)] element_fits[OF assms(3,1)]
  have m: "length ?m = length mem"
    "\<And>k. k < length mem \<Longrightarrow> ?m ! k = exchanged mem (i * width) (j * width) width k"
    using byte_swap_nth[OF fits elements_apart] by auto
  have e: "exchanged mem (i * width) (j * width) width (k * width + l) = swap i j (elements width nel mem) ! k ! l"
    if "k < nel" "l < width" for k l
    using that assms by (auto simp: exchanged_def in_element swap_nth element_nth[OF assms(1)])
  have "elements width nel ?m = swap i j (elements width nel mem)"
  proof (rule elements_eqI[OF assms(1) m(1)])
    show "?m ! (k * width + l) = swap i j (elements width nel mem) ! k ! l" if "k < nel" "l < width" for k l
      using m(2)[of "k * width + l"] element_fits[OF that(1) assms(1)] that e[OF that] by simp
    show "length (swap i j (elements width nel mem) ! k) = width" if "k < nel" for k
      using that assms by (auto simp: swap_nth length_element[OF assms(1)])
  qed (use assms in simp)
  moreover have "exchanged mem (i * width) (j * width) width k = mem ! k" if "nel * width \<le> k" for k
    using element_fits[OF assms(2) that] element_fits[OF assms(3) that] by (simp add: exchanged_def)
  then have "drop (nel * width) ?m = drop (nel * width) mem"
    by (auto intro!: nth_equalityI simp: m)
  ultimately show ?thesis ..
qed

lemma sized_memcpy_copies:
  assumes "nel * width \<le> length mem" "i < nel" "j < nel"
  shows "elements width nel (sized_memcpy mem (i * width) (j * width) width) =
     (elements width nel mem)[i := elements width nel mem ! j]"
proof -
  note fits = element_fits[OF assms(2,1)] element_fits[OF assms(3,1)]
  let ?m = "sized_memcpy mem (i * width) (j * width) width"
  have m: "length ?m = length mem"
    "\<And>k. k < length mem \<Longrightarrow> ?m ! k =
       (if i * width \<le> k \<and> k < i * width + width then mem ! (j * width + (k - i * width)) else mem ! k)"
    using fits by (auto simp: sized_memcpy_def mem_write_nth mem_read_nth)
  show ?thesis
  proof (rule elements_eqI[OF assms(1) m(1)])
    show "?m ! (k * width + l) = (elements width nel mem)[i := elements width nel mem ! j] ! k ! l"
      if "k < nel" "l < width" for k l
      using m(2)[of "k * width + l"] element_fits[OF that(1) assms(1)] that assms
      by (auto simp: in_element nth_list_update element_nth[OF assms(1)])
    show "length ((elements width nel mem)[i := elements width nel mem ! j] ! k) = width" if "k < nel" for k
      using that assms by (auto simp: nth_list_update length_element[OF assms(1)])
  qed (use assms in simp)
qed

end
