(* ===== verification/SortHeap.thy ===== *)
theory SortHeap
  imports SortArray
begin

text \<open>
  The heap operations of \<open>das_qsort_r.h\<close>: sift-down with a hole and, for elements wider
  than the buffer of 256 bytes, with exchanges; building a heap, pushing and popping,
  the heap sort and the partial sort made of them. The root of a heap is a greatest
  element.
\<close>

section \<open>Operations\<close>

text \<open>\<open>das_sift_down_r\<close>, the loop for wide elements.\<close>

definition largest_of :: "('a \<Rightarrow> 'a \<Rightarrow> bool) \<Rightarrow> nat \<Rightarrow> nat \<Rightarrow> 'a list \<Rightarrow> nat" where
  "largest_of cmp nel parent xs =
     (let left = 2 * parent + 1; right = left + 1;
          largest = (if cmp (xs ! parent) (xs ! left) then left else parent)
      in if right < nel \<and> cmp (xs ! largest) (xs ! right) then right else largest)"

lemma largest_of_cases:
  "largest_of cmp nel p xs = p \<or> largest_of cmp nel p xs = 2 * p + 1 \<or>
   largest_of cmp nel p xs = 2 * p + 2 \<and> 2 * p + 2 < nel"
  by (simp add: largest_of_def Let_def)

function sift_swap :: "('a \<Rightarrow> 'a \<Rightarrow> bool) \<Rightarrow> nat \<Rightarrow> nat \<Rightarrow> 'a list \<Rightarrow> 'a list" where
  "sift_swap cmp nel parent xs =
     (if nel \<le> 2 * parent + 1 then xs
      else let largest = largest_of cmp nel parent xs in
        if largest = parent then xs
        else sift_swap cmp nel largest (swap parent largest xs))"
  by auto
termination
proof (relation "measure (\<lambda>(_, nel, p, _). nel - p)")
  fix cmp :: "'a \<Rightarrow> 'a \<Rightarrow> bool" and nel parent x :: nat and xs :: "'a list"
  assume "\<not> nel \<le> 2 * parent + 1" "x = largest_of cmp nel parent xs" "x \<noteq> parent"
  then show "((cmp, nel, x, swap parent x xs), (cmp, nel, parent, xs)) \<in> measure (\<lambda>(_, nel, p, _). nel - p)"
    using largest_of_cases[of cmp nel parent xs] by auto
qed auto

text \<open>
  The loop with a hole: \<open>tmp\<close> is kept in the buffer, the greater child moves into the
  hole, and \<open>tmp\<close> is written to the last hole.
\<close>

definition larger_child :: "('a \<Rightarrow> 'a \<Rightarrow> bool) \<Rightarrow> nat \<Rightarrow> nat \<Rightarrow> 'a list \<Rightarrow> nat" where
  "larger_child cmp nel hole xs =
     (let left = 2 * hole + 1
      in if left + 1 < nel \<and> cmp (xs ! left) (xs ! (left + 1)) then left + 1 else left)"

lemma larger_child_cases:
  "larger_child cmp nel h xs = 2 * h + 1 \<or> larger_child cmp nel h xs = 2 * h + 2 \<and> 2 * h + 2 < nel"
  by (simp add: larger_child_def Let_def)

function sift_hole :: "('a \<Rightarrow> 'a \<Rightarrow> bool) \<Rightarrow> nat \<Rightarrow> 'a \<Rightarrow> nat \<Rightarrow> 'a list \<Rightarrow> 'a list" where
  "sift_hole cmp nel tmp hole xs =
     (if nel \<le> 2 * hole + 1 then xs[hole := tmp]
      else let larger = larger_child cmp nel hole xs in
        if \<not> cmp tmp (xs ! larger) then xs[hole := tmp]
        else sift_hole cmp nel tmp larger (xs[hole := xs ! larger]))"
  by auto
termination
proof (relation "measure (\<lambda>(_, nel, _, h, _). nel - h)")
  fix cmp :: "'a \<Rightarrow> 'a \<Rightarrow> bool" and nel hole x :: nat and xs :: "'a list" and tmp
  assume "\<not> nel \<le> 2 * hole + 1" "x = larger_child cmp nel hole xs" "\<not> \<not> cmp tmp (xs ! x)"
  then show "((cmp, nel, tmp, x, xs[hole := xs ! x]), (cmp, nel, tmp, hole, xs))
    \<in> measure (\<lambda>(_, nel, _, h, _). nel - h)"
    using larger_child_cases[of cmp nel hole xs] by auto
qed auto

declare sift_swap.simps [simp del] sift_hole.simps [simp del]

lemma sift_swap_stop:
  "nel \<le> 2 * p + 1 \<or> largest_of cmp nel p xs = p \<Longrightarrow> sift_swap cmp nel p xs = xs"
  by (subst sift_swap.simps) (auto simp: Let_def)

lemma sift_swap_step:
  "\<not> nel \<le> 2 * p + 1 \<Longrightarrow> largest_of cmp nel p xs = l \<Longrightarrow> l \<noteq> p \<Longrightarrow>
   sift_swap cmp nel p xs = sift_swap cmp nel l (swap p l xs)"
  by (subst sift_swap.simps) (auto simp: Let_def)

lemma sift_hole_stop:
  "nel \<le> 2 * h + 1 \<or> \<not> cmp tmp (xs ! larger_child cmp nel h xs) \<Longrightarrow> sift_hole cmp nel tmp h xs = xs[h := tmp]"
  by (subst sift_hole.simps) (auto simp: Let_def)

lemma sift_hole_step:
  "\<not> nel \<le> 2 * h + 1 \<Longrightarrow> larger_child cmp nel h xs = l \<Longrightarrow> cmp tmp (xs ! l) \<Longrightarrow>
   sift_hole cmp nel tmp h xs = sift_hole cmp nel tmp l (xs[h := xs ! l])"
  by (subst sift_hole.simps) (auto simp: Let_def)

definition das_sift_down_r :: "('a \<Rightarrow> 'a \<Rightarrow> bool) \<Rightarrow> nat \<Rightarrow> nat \<Rightarrow> nat \<Rightarrow> 'a list \<Rightarrow> 'a list" where
  "das_sift_down_r cmp width parent nel xs =
     (if nel \<le> 2 * parent + 1 then xs
      else if 256 < width then sift_swap cmp nel parent xs
      else sift_hole cmp nel (xs ! parent) parent xs)"

text \<open>\<open>for (i = nel / 2; i-- > 0;)\<close>\<close>

fun heapify :: "('a \<Rightarrow> 'a \<Rightarrow> bool) \<Rightarrow> nat \<Rightarrow> nat \<Rightarrow> nat \<Rightarrow> 'a list \<Rightarrow> 'a list" where
  "heapify cmp width nel 0 xs = xs"
| "heapify cmp width nel (Suc i) xs = heapify cmp width nel i (das_sift_down_r cmp width i nel xs)"

definition das_make_heap_r :: "('a \<Rightarrow> 'a \<Rightarrow> bool) \<Rightarrow> nat \<Rightarrow> nat \<Rightarrow> 'a list \<Rightarrow> 'a list" where
  "das_make_heap_r cmp width nel xs = (if nel \<le> 1 then xs else heapify cmp width nel (nel div 2) xs)"

function sift_up :: "('a \<Rightarrow> 'a \<Rightarrow> bool) \<Rightarrow> nat \<Rightarrow> 'a list \<Rightarrow> 'a list" where
  "sift_up cmp child xs =
     (if child = 0 then xs
      else let parent = (child - 1) div 2 in
        if \<not> cmp (xs ! parent) (xs ! child) then xs
        else sift_up cmp parent (swap parent child xs))"
  by auto
termination by (relation "measure (\<lambda>(_, c, _). c)") auto

declare sift_up.simps [simp del]

definition das_push_heap_r :: "('a \<Rightarrow> 'a \<Rightarrow> bool) \<Rightarrow> nat \<Rightarrow> 'a list \<Rightarrow> 'a list" where
  "das_push_heap_r cmp nel xs = (if nel \<le> 1 then xs else sift_up cmp (nel - 1) xs)"

definition das_pop_heap_r :: "('a \<Rightarrow> 'a \<Rightarrow> bool) \<Rightarrow> nat \<Rightarrow> nat \<Rightarrow> 'a list \<Rightarrow> 'a list" where
  "das_pop_heap_r cmp width nel xs =
     (if nel \<le> 1 then xs else das_sift_down_r cmp width 0 (nel - 1) (swap 0 (nel - 1) xs))"

text \<open>The drain: \<open>for (len = n; len > 1; len--)\<close>\<close>

fun drain :: "('a \<Rightarrow> 'a \<Rightarrow> bool) \<Rightarrow> nat \<Rightarrow> nat \<Rightarrow> 'a list \<Rightarrow> 'a list" where
  "drain cmp width 0 xs = xs"
| "drain cmp width (Suc l) xs =
     (if Suc l \<le> 1 then xs
      else drain cmp width l (das_sift_down_r cmp width 0 l (swap 0 l xs)))"

definition das_heapsort_helper_r :: "('a \<Rightarrow> 'a \<Rightarrow> bool) \<Rightarrow> nat \<Rightarrow> nat \<Rightarrow> 'a list \<Rightarrow> 'a list" where
  "das_heapsort_helper_r cmp width nel xs =
     (if nel \<le> 1 then xs else drain cmp width nel (das_make_heap_r cmp width nel xs))"

text \<open>The scan of the partial sort: \<open>for (i = n; i < nel; i++)\<close>, with \<open>k\<close> rounds left.\<close>

fun scan_top :: "('a \<Rightarrow> 'a \<Rightarrow> bool) \<Rightarrow> nat \<Rightarrow> nat \<Rightarrow> nat \<Rightarrow> nat \<Rightarrow> 'a list \<Rightarrow> 'a list" where
  "scan_top cmp width n i 0 xs = xs"
| "scan_top cmp width n i (Suc k) xs =
     scan_top cmp width n (i + 1) k
       (if cmp (xs ! i) (xs ! 0) then das_sift_down_r cmp width 0 n (swap 0 i xs) else xs)"

definition das_partial_sort_r :: "('a \<Rightarrow> 'a \<Rightarrow> bool) \<Rightarrow> nat \<Rightarrow> nat \<Rightarrow> 'a list \<Rightarrow> 'a list" where
  "das_partial_sort_r cmp width n0 xs =
     (let nel = length xs in
      if nel \<le> 1 \<or> n0 = 0 then xs
      else let n = min n0 nel;
               h = das_make_heap_r cmp width n xs;
               s = scan_top cmp width n n (nel - n) h
           in drain cmp width n s)"

section \<open>Any comparison: permutations within the heap\<close>

lemma perm_in_fill:
  assumes "hole < length xs" "larger < length xs" "hole \<noteq> larger"
  shows "xs[hole := xs ! larger, larger := v] = swap hole larger (xs[hole := v])"
  using assms by (auto intro!: nth_equalityI simp: swap_def nth_list_update)

lemma perm_in_sift_swap:
  "p < nel \<Longrightarrow> nel \<le> length xs \<Longrightarrow> perm_in p nel xs (sift_swap cmp nel p xs)"
proof (induction "nel - p" arbitrary: p xs rule: less_induct)
  case less
  let ?l = "largest_of cmp nel p xs"
  show ?case
  proof (cases "nel \<le> 2 * p + 1 \<or> ?l = p")
    case True
    then show ?thesis by (simp add: sift_swap_stop)
  next
    case False
    then have l: "p < ?l" "?l < nel" using largest_of_cases[of cmp nel p xs] by auto
    have "perm_in ?l nel (swap p ?l xs) (sift_swap cmp nel ?l (swap p ?l xs))"
      using less l by (intro less.hyps) auto
    then have "perm_in p nel (swap p ?l xs) (sift_swap cmp nel ?l (swap p ?l xs))"
      by (rule perm_in_mono) (use l in auto)
    moreover have "perm_in p nel xs (swap p ?l xs)"
      using l less.prems by (intro perm_in_swap) auto
    ultimately show ?thesis using False by (auto simp: sift_swap_step intro: perm_in_trans)
  qed
qed

lemma perm_in_sift_hole:
  "h < nel \<Longrightarrow> nel \<le> length xs \<Longrightarrow> perm_in h nel (xs[h := tmp]) (sift_hole cmp nel tmp h xs)"
proof (induction "nel - h" arbitrary: h xs rule: less_induct)
  case less
  let ?l = "larger_child cmp nel h xs"
  show ?case
  proof (cases "nel \<le> 2 * h + 1 \<or> \<not> cmp tmp (xs ! ?l)")
    case True
    then show ?thesis by (simp add: sift_hole_stop)
  next
    case False
    then have l: "h < ?l" "?l < nel" using larger_child_cases[of cmp nel h xs] by auto
    have "perm_in ?l nel (xs[h := xs ! ?l, ?l := tmp]) (sift_hole cmp nel tmp ?l (xs[h := xs ! ?l]))"
      using less l by (intro less.hyps) auto
    then have "perm_in h nel (xs[h := xs ! ?l, ?l := tmp]) (sift_hole cmp nel tmp ?l (xs[h := xs ! ?l]))"
      by (rule perm_in_mono) (use l in auto)
    moreover have "xs[h := xs ! ?l, ?l := tmp] = swap h ?l (xs[h := tmp])"
      using l less.prems by (intro perm_in_fill) auto
    moreover have "perm_in h nel (xs[h := tmp]) (swap h ?l (xs[h := tmp]))"
      using l less.prems by (intro perm_in_swap) auto
    ultimately show ?thesis using False by (auto simp: sift_hole_step intro: perm_in_trans)
  qed
qed

lemma perm_in_sift_down:
  assumes "nel \<le> length xs" shows "perm_in parent nel xs (das_sift_down_r cmp width parent nel xs)"
  using assms perm_in_sift_swap[of parent nel xs] perm_in_sift_hole[of parent nel xs "xs ! parent"]
  by (auto simp: das_sift_down_r_def)

lemma length_sift_down [simp]: "nel \<le> length xs \<Longrightarrow> length (das_sift_down_r cmp width p nel xs) = length xs"
  using perm_in_length[OF perm_in_sift_down] .

lemma perm_in_heapify: "nel \<le> length xs \<Longrightarrow> perm_in 0 nel xs (heapify cmp width nel i xs)"
proof (induction i arbitrary: xs)
  case (Suc i)
  have "perm_in 0 nel xs (das_sift_down_r cmp width i nel xs)"
    by (rule perm_in_mono[OF perm_in_sift_down[OF Suc.prems]]) auto
  then show ?case using Suc by (auto intro: perm_in_trans)
qed simp

lemma perm_in_make_heap: "nel \<le> length xs \<Longrightarrow> perm_in 0 nel xs (das_make_heap_r cmp width nel xs)"
  by (simp add: das_make_heap_r_def perm_in_heapify)

lemma perm_in_pop_step:
  assumes "l < length xs" shows "perm_in 0 (Suc l) xs (das_sift_down_r cmp width 0 l (swap 0 l xs))"
proof -
  have "perm_in 0 l (swap 0 l xs) (das_sift_down_r cmp width 0 l (swap 0 l xs))"
    using assms by (intro perm_in_sift_down) simp
  then have "perm_in 0 (Suc l) (swap 0 l xs) (das_sift_down_r cmp width 0 l (swap 0 l xs))"
    by (rule perm_in_mono) auto
  moreover have "perm_in 0 (Suc l) xs (swap 0 l xs)" using assms by (intro perm_in_swap) auto
  ultimately show ?thesis by (rule perm_in_trans[rotated])
qed

lemma perm_in_drain: "l \<le> length xs \<Longrightarrow> perm_in 0 l xs (drain cmp width l xs)"
proof (induction l arbitrary: xs)
  case (Suc l)
  let ?y = "das_sift_down_r cmp width 0 l (swap 0 l xs)"
  have y: "perm_in 0 (Suc l) xs ?y" using Suc.prems by (intro perm_in_pop_step) simp
  have "perm_in 0 l ?y (drain cmp width l ?y)" using Suc perm_in_length[OF y] by simp
  then have "perm_in 0 (Suc l) ?y (drain cmp width l ?y)" by (rule perm_in_mono) auto
  then show ?case using perm_in_trans[OF y] by simp
qed simp

lemma length_make_heap [simp]: "nel \<le> length xs \<Longrightarrow> length (das_make_heap_r cmp width nel xs) = length xs"
  using perm_in_length[OF perm_in_make_heap] .

lemma length_drain [simp]: "l \<le> length xs \<Longrightarrow> length (drain cmp width l xs) = length xs"
  using perm_in_length[OF perm_in_drain] .

lemma perm_in_heapsort:
  assumes "nel \<le> length xs" shows "perm_in 0 nel xs (das_heapsort_helper_r cmp width nel xs)"
proof -
  note h = perm_in_make_heap[OF assms, of cmp width]
  have "nel \<le> length (das_make_heap_r cmp width nel xs)" using assms perm_in_length[OF h] by simp
  from perm_in_trans[OF h perm_in_drain[OF this]] show ?thesis by (simp add: das_heapsort_helper_r_def)
qed

lemma perm_in_scan_top:
  "n \<le> i \<Longrightarrow> 0 < n \<Longrightarrow> i + k \<le> length xs \<Longrightarrow> perm_in 0 (i + k) xs (scan_top cmp width n i k xs)"
proof (induction k arbitrary: i xs)
  case (Suc k)
  let ?y = "if cmp (xs ! i) (xs ! 0) then das_sift_down_r cmp width 0 n (swap 0 i xs) else xs"
  have "perm_in 0 (i + Suc k) (swap 0 i xs) (das_sift_down_r cmp width 0 n (swap 0 i xs))"
    by (rule perm_in_mono[OF perm_in_sift_down]) (use Suc.prems in auto)
  moreover have "perm_in 0 (i + Suc k) xs (swap 0 i xs)" using Suc.prems by (intro perm_in_swap) auto
  ultimately have y: "perm_in 0 (i + Suc k) xs ?y" by (auto intro: perm_in_trans)
  have "perm_in 0 (i + 1 + k) ?y (scan_top cmp width n (i + 1) k ?y)"
    by (rule Suc.IH) (use Suc.prems perm_in_length[OF y] in auto)
  then show ?case using perm_in_trans[OF y] by simp
qed simp

lemma perm_in_partial_sort: "perm_in 0 (length xs) xs (das_partial_sort_r cmp width n xs)"
proof (cases "length xs \<le> 1 \<or> n = 0")
  case False
  let ?n = "min n (length xs)" and ?N = "length xs"
  let ?h = "das_make_heap_r cmp width ?n xs"
  let ?s = "scan_top cmp width ?n ?n (?N - ?n) ?h"
  have h: "perm_in 0 ?N xs ?h" by (rule perm_in_mono[OF perm_in_make_heap]) auto
  have "0 < ?n" using False by auto
  then have "perm_in 0 (?n + (?N - ?n)) ?h ?s"
    using perm_in_length[OF h] by (intro perm_in_scan_top) auto
  then have s: "perm_in 0 ?N ?h ?s" by simp
  have "perm_in 0 ?N ?s (drain cmp width ?n ?s)"
    by (rule perm_in_mono[OF perm_in_drain]) (use perm_in_length[OF h] perm_in_length[OF s] in auto)
  then show ?thesis using False perm_in_trans[OF perm_in_trans[OF h s]]
    by (simp add: das_partial_sort_r_def Let_def)
qed (auto simp: das_partial_sort_r_def)

section \<open>Heaps\<close>

definition up :: "nat \<Rightarrow> nat" where
  "up c = (c - 1) div 2"

lemma up_eq: "0 < c \<Longrightarrow> up c = p \<longleftrightarrow> c = 2 * p + 1 \<or> c = 2 * p + 2"
  unfolding up_def by presburger

lemma up_less: "0 < c \<Longrightarrow> up c < c"
  by (simp add: up_def)

text \<open>Below \<open>lo\<close> the order of parent and child is not asked for.\<close>

definition heap_from :: "('a \<Rightarrow> 'a \<Rightarrow> bool) \<Rightarrow> nat \<Rightarrow> nat \<Rightarrow> 'a list \<Rightarrow> bool" where
  "heap_from cmp lo nel xs \<longleftrightarrow> (\<forall>c < nel. 0 < c \<longrightarrow> lo \<le> up c \<longrightarrow> \<not> cmp (xs ! up c) (xs ! c))"

text \<open>A heap with one place \<open>p\<close> that may be less than its children.\<close>

definition heap_but :: "('a \<Rightarrow> 'a \<Rightarrow> bool) \<Rightarrow> nat \<Rightarrow> nat \<Rightarrow> nat \<Rightarrow> 'a list \<Rightarrow> bool" where
  "heap_but cmp lo p nel xs \<longleftrightarrow>
     (\<forall>c < nel. 0 < c \<longrightarrow> lo \<le> up c \<longrightarrow> up c \<noteq> p \<longrightarrow> \<not> cmp (xs ! up c) (xs ! c)) \<and>
     (0 < p \<longrightarrow> lo \<le> up p \<longrightarrow> (\<forall>c < nel. 0 < c \<longrightarrow> up c = p \<longrightarrow> \<not> cmp (xs ! up p) (xs ! c)))"

context comparator begin

lemma largest_of_greatest:
  assumes "0 < c" "c < nel" "up c = p"
  shows "\<not> cmp (xs ! largest_of cmp nel p xs) (xs ! c)"
  using assms unfolding largest_of_def Let_def up_eq[OF assms(1)]
  by (auto dest: less_asym less_trans split: if_splits)

lemma largest_of_above: "largest_of cmp nel p xs \<noteq> p \<Longrightarrow> cmp (xs ! p) (xs ! largest_of cmp nel p xs)"
  unfolding largest_of_def Let_def by (auto dest: less_trans split: if_splits)

lemma sift_swap_heap:
  "p < nel \<Longrightarrow> nel \<le> length xs \<Longrightarrow> heap_but cmp lo p nel xs \<Longrightarrow> lo \<le> p \<Longrightarrow>
   heap_from cmp lo nel (sift_swap cmp nel p xs)"
proof (induction "nel - p" arbitrary: p xs rule: less_induct)
  case less
  let ?l = "largest_of cmp nel p xs"
  have greatest: "\<not> cmp (xs ! ?l) (xs ! c)" if "0 < c" "c < nel" "up c = p" for c
    using that by (rule largest_of_greatest)
  show ?case
  proof (cases "nel \<le> 2 * p + 1 \<or> ?l = p")
    case True
    then have "\<not> cmp (xs ! up c) (xs ! c)" if "0 < c" "c < nel" "lo \<le> up c" for c
      using that less.prems(3) greatest[of c] up_eq[of c p] by (cases "up c = p") (auto simp: heap_but_def)
    then show ?thesis using True by (simp add: sift_swap_stop heap_from_def)
  next
    case False
    then have l: "p < ?l" "?l < nel" "0 < ?l" "up ?l = p"
      using largest_of_cases[of cmp nel p xs] by (auto simp: up_eq)
    let ?y = "swap p ?l xs"
    have y: "?y ! k = (if k = ?l then xs ! p else if k = p then xs ! ?l else xs ! k)" for k
      using l less.prems by (intro swap_nth) auto
    have above: "cmp (xs ! p) (xs ! ?l)" using False by (intro largest_of_above) auto
    have edge: "\<not> cmp (?y ! up c) (?y ! c)" if c: "0 < c" "c < nel" "lo \<le> up c" "up c \<noteq> ?l" for c
    proof (cases "up c = p")
      case True
      then show ?thesis using c l above greatest[of c] less_asym[OF above] by (auto simp: y)
    next
      case False
      have "c \<noteq> ?l" using False l by auto
      show ?thesis
      proof (cases "c = p")
        case True
        then show ?thesis using less.prems(3) c l up_less[OF c(1)] by (simp add: y heap_but_def)
      next
        case cp: False
        show ?thesis using less.prems(3) c False cp \<open>c \<noteq> ?l\<close> by (simp add: y heap_but_def)
      qed
    qed
    have "heap_but cmp lo ?l nel ?y"
      using edge l less.prems(3,4) up_less unfolding heap_but_def
      by (auto simp: y)
    then show ?thesis using less.hyps[of ?l ?y] less.prems l False by (simp add: sift_swap_step)
  qed
qed

lemma larger_child_choice:
  assumes "2 * p + 1 < nel" "nel \<le> length xs"
  shows "largest_of cmp nel p (xs[p := tmp]) =
    (if cmp tmp (xs ! larger_child cmp nel p xs) then larger_child cmp nel p xs else p)"
  using assms unfolding largest_of_def larger_child_def Let_def
  by (auto simp: nth_list_update dest: less_trans less_asym split: if_splits) (meson not_less_trans)+

lemma sift_hole_eq_swap:
  "p < nel \<Longrightarrow> nel \<le> length xs \<Longrightarrow> sift_hole cmp nel tmp p xs = sift_swap cmp nel p (xs[p := tmp])"
proof (induction "nel - p" arbitrary: p xs rule: less_induct)
  case less
  let ?l = "larger_child cmp nel p xs" and ?x = "xs[p := tmp]"
  show ?case
  proof (cases "nel \<le> 2 * p + 1 \<or> \<not> cmp tmp (xs ! ?l)")
    case True
    then have "nel \<le> 2 * p + 1 \<or> largest_of cmp nel p ?x = p"
      using larger_child_choice[of p nel xs tmp] less.prems by force
    then show ?thesis using True by (simp add: sift_hole_stop sift_swap_stop)
  next
    case False
    then have l: "p < ?l" "?l < nel" using larger_child_cases[of cmp nel p xs] by auto
    have "largest_of cmp nel p ?x = ?l"
      using larger_child_choice[of p nel xs tmp] less.prems False by simp
    then have "sift_swap cmp nel p ?x = sift_swap cmp nel ?l (swap p ?l ?x)"
      using False l by (intro sift_swap_step) auto
    also have "swap p ?l ?x = xs[p := xs ! ?l, ?l := tmp]"
      using l less.prems by (intro perm_in_fill[symmetric]) auto
    also have "sift_swap cmp nel ?l (xs[p := xs ! ?l, ?l := tmp]) = sift_hole cmp nel tmp ?l (xs[p := xs ! ?l])"
      using less l by (intro less.hyps[symmetric]) auto
    finally show ?thesis using False by (simp add: sift_hole_step)
  qed
qed

lemma sift_down_eq_swap:
  "nel \<le> length xs \<Longrightarrow> das_sift_down_r cmp width p nel xs = sift_swap cmp nel p xs"
  by (simp add: das_sift_down_r_def sift_swap_stop sift_hole_eq_swap)

lemma sift_down_heap:
  assumes "nel \<le> length xs" "heap_but cmp lo p nel xs" "lo \<le> p"
  shows "heap_from cmp lo nel (das_sift_down_r cmp width p nel xs)"
proof (cases "p < nel")
  case True
  then show ?thesis using assms by (simp add: sift_down_eq_swap sift_swap_heap)
next
  case False
  then have "heap_from cmp lo nel xs" using assms(2) up_less less_trans_Suc
    unfolding heap_from_def heap_but_def by (metis le_less_trans linorder_not_le nat_less_le)
  then show ?thesis using False by (simp add: das_sift_down_r_def)
qed

end


end
