(* ===== verification/SortHeapProps.thy ===== *)
theory SortHeapProps
  imports SortHeap
begin

text \<open>
  What the heap operations promise for a strict weak order: every operation keeps the
  heap, the root is a greatest element, and the heap sort and the partial sort order
  their elements.
\<close>

text \<open>
  While the heap is drained, the places from \<open>l\<close> up hold their final elements: each is
  no less than any place before it.
\<close>

definition settled :: "('a \<Rightarrow> 'a \<Rightarrow> bool) \<Rightarrow> nat \<Rightarrow> nat \<Rightarrow> 'a list \<Rightarrow> bool" where
  "settled cmp l n xs \<longleftrightarrow> (\<forall>a b. a < b \<longrightarrow> l \<le> b \<longrightarrow> b < n \<longrightarrow> \<not> cmp (xs ! b) (xs ! a))"

context comparator begin

lemma heap_root: "heap_from cmp 0 n xs \<Longrightarrow> k < n \<Longrightarrow> \<not> cmp (xs ! 0) (xs ! k)"
proof (induction k rule: less_induct)
  case (less k)
  show ?case
  proof (cases "k = 0")
    case False
    then have "\<not> cmp (xs ! 0) (xs ! up k)" "\<not> cmp (xs ! up k) (xs ! k)"
      using less up_less[of k] by (auto simp: heap_from_def)
    then show ?thesis by (rule not_less_trans)
  qed simp
qed

lemma heap_from_mono: "heap_from cmp 0 n xs \<Longrightarrow> m \<le> n \<Longrightarrow> heap_from cmp 0 m xs"
  by (simp add: heap_from_def)

lemma heapify_heap:
  "nel \<le> length xs \<Longrightarrow> heap_from cmp i nel xs \<Longrightarrow> heap_from cmp 0 nel (heapify cmp width nel i xs)"
proof (induction i arbitrary: xs)
  case (Suc i)
  have "heap_but cmp i i nel xs"
    using Suc.prems(2) up_less[of i] by (auto simp: heap_from_def heap_but_def)
  then have "heap_from cmp i nel (das_sift_down_r cmp width i nel xs)"
    using Suc.prems by (intro sift_down_heap) auto
  then show ?case using Suc by simp
qed simp

lemma heap_from_leaves: "heap_from cmp (nel div 2) nel xs"
  unfolding heap_from_def up_def by (auto dest: div_le_mono)

lemma make_heap_heap: "nel \<le> length xs \<Longrightarrow> heap_from cmp 0 nel (das_make_heap_r cmp width nel xs)"
  by (auto simp: das_make_heap_r_def heapify_heap heap_from_leaves) (simp add: heap_from_def)

lemma pop_step_heap:
  assumes "heap_from cmp 0 (Suc l) xs" "l < length xs"
  shows "heap_from cmp 0 l (das_sift_down_r cmp width 0 l (swap 0 l xs))"
proof -
  have "\<not> cmp (swap 0 l xs ! up c) (swap 0 l xs ! c)" if "c < l" "0 < c" "up c \<noteq> 0" for c
    using that assms up_less[of c] by (simp add: heap_from_def swap_root_nth)
  then have "heap_but cmp 0 0 l (swap 0 l xs)" by (simp add: heap_but_def)
  then show ?thesis using assms by (intro sift_down_heap) auto
qed

lemma pop_step_last:
  assumes "l < length xs"
  shows "das_sift_down_r cmp width 0 l (swap 0 l xs) ! l = xs ! 0"
proof -
  have "perm_in 0 l (swap 0 l xs) (das_sift_down_r cmp width 0 l (swap 0 l xs))"
    using assms by (intro perm_in_sift_down) simp
  then show ?thesis using assms by (simp add: perm_in_outside swap_root_nth)
qed

lemma settled_perm:
  assumes "settled cmp l n xs" "perm_in 0 l xs ys" "n \<le> length xs" "l \<le> length xs"
  shows "settled cmp l n ys"
  unfolding settled_def
proof (intro allI impI)
  fix a b assume ab: "a < b" "l \<le> b" "b < n"
  have b: "ys ! b = xs ! b" using ab assms by (simp add: perm_in_outside)
  show "\<not> cmp (ys ! b) (ys ! a)"
  proof (cases "a < l")
    case True
    then show ?thesis
      using perm_in_all[OF assms(2,4), of "\<lambda>v. \<not> cmp (xs ! b) v" a] ab assms b by (simp add: settled_def)
  next
    case False
    then show ?thesis using ab assms b by (simp add: perm_in_outside settled_def)
  qed
qed

lemma drain_settled:
  "l \<le> n \<Longrightarrow> n \<le> length xs \<Longrightarrow> heap_from cmp 0 l xs \<Longrightarrow> settled cmp l n xs \<Longrightarrow>
   settled cmp 0 n (drain cmp width l xs)"
proof (induction l arbitrary: xs)
  case (Suc l)
  let ?y = "das_sift_down_r cmp width 0 l (swap 0 l xs)"
  have l: "l < length xs" using Suc.prems by simp
  note y = perm_in_pop_step[OF l, of cmp width]
  have "settled cmp (Suc l) n ?y" using settled_perm[OF Suc.prems(4) y] Suc.prems by simp
  moreover have "\<not> cmp (?y ! l) (?y ! a)" if "a < l" for a
    using that perm_in_all[OF y, of "\<lambda>v. \<not> cmp (xs ! 0) v" a] heap_root[OF Suc.prems(3)] l
    by (simp add: pop_step_last[OF l])
  ultimately have "settled cmp l n ?y" unfolding settled_def by (metis le_eq_less_or_eq Suc_leI)
  moreover have "heap_from cmp 0 l ?y" by (rule pop_step_heap[OF Suc.prems(3) l])
  ultimately have "settled cmp 0 n (drain cmp width l ?y)"
    using Suc perm_in_length[OF y] by simp
  then show ?case using Suc.prems(4) by (cases l) (auto simp: settled_def)
qed (simp add: settled_def)

lemma heapsort_sorted:
  "n = length xs \<Longrightarrow> sorted_by cmp (das_heapsort_helper_r cmp width n xs)"
proof (cases "n \<le> 1")
  case False
  assume n: "n = length xs"
  let ?h = "das_make_heap_r cmp width n xs"
  have h: "perm_in 0 n xs ?h" using n by (intro perm_in_make_heap) simp
  have "settled cmp 0 n (drain cmp width n ?h)"
    using n perm_in_length[OF h] make_heap_heap[of n xs width] by (intro drain_settled) (auto simp: settled_def)
  moreover have "length (drain cmp width n ?h) = n"
    using n by simp
  ultimately show ?thesis using False by (simp add: das_heapsort_helper_r_def sorted_by_nth settled_def)
qed (auto simp: das_heapsort_helper_r_def sorted_by_nth)

text \<open>After the scan every element past the heap is no less than its root.\<close>

lemma scan_top_heap:
  "0 < n \<Longrightarrow> n \<le> i \<Longrightarrow> i + k \<le> length xs \<Longrightarrow> heap_from cmp 0 n xs \<Longrightarrow>
   \<forall>b. n \<le> b \<longrightarrow> b < i \<longrightarrow> \<not> cmp (xs ! b) (xs ! 0) \<Longrightarrow>
   heap_from cmp 0 n (scan_top cmp width n i k xs) \<and>
   (\<forall>b. n \<le> b \<longrightarrow> b < i + k \<longrightarrow> \<not> cmp (scan_top cmp width n i k xs ! b) (scan_top cmp width n i k xs ! 0))"
proof (induction k arbitrary: i xs)
  case (Suc k)
  let ?z = "swap 0 i xs"
  let ?d = "das_sift_down_r cmp width 0 n ?z"
  let ?y = "if cmp (xs ! i) (xs ! 0) then ?d else xs"
  have z: "?z ! j = (if j = i then xs ! 0 else if j = 0 then xs ! i else xs ! j)" for j
    using Suc.prems by (intro swap_nth) auto
  have d: "perm_in 0 n ?z ?d" using Suc.prems by (intro perm_in_sift_down) simp
  have "heap_from cmp 0 n ?y \<and> (\<forall>b. n \<le> b \<longrightarrow> b < i + 1 \<longrightarrow> \<not> cmp (?y ! b) (?y ! 0))"
  proof (cases "cmp (xs ! i) (xs ! 0)")
    case True
    have "heap_but cmp 0 0 n ?z"
      using Suc.prems by (auto simp: heap_but_def heap_from_def z dest: up_less)
    then have heap: "heap_from cmp 0 n ?d" using Suc.prems by (intro sift_down_heap) auto
    have "\<not> cmp (xs ! 0) (?d ! 0)"
    proof (rule perm_in_all[OF d])
      show "\<not> cmp (xs ! 0) (?z ! j)" if "j < n" for j
        using that z heap_root[OF Suc.prems(4)] less_asym[OF True] Suc.prems by simp
    qed (use Suc.prems in auto)
    moreover have "?d ! b = ?z ! b" if "n \<le> b" "b < i + 1" for b
      using that Suc.prems by (intro perm_in_outside[OF d]) auto
    moreover have "\<not> cmp (?z ! b) (xs ! 0)" if "n \<le> b" "b < i + 1" for b
      using that Suc.prems z by (cases "b = i") auto
    ultimately have "\<not> cmp (?d ! b) (?d ! 0)" if "n \<le> b" "b < i + 1" for b
      using that not_less_trans by metis
    then show ?thesis using heap True by simp
  next
    case False
    then show ?thesis using Suc.prems by (auto simp: less_Suc_eq)
  qed
  moreover have "i + 1 + k \<le> length ?y" using Suc.prems by simp
  ultimately show ?case using Suc.IH[of "i + 1" ?y] Suc.prems by simp
qed simp

lemma partial_sort_order:
  assumes "a < b" "a < n" "b < length xs"
  shows "\<not> cmp (das_partial_sort_r cmp width n xs ! b) (das_partial_sort_r cmp width n xs ! a)"
proof -
  let ?N = "length xs"
  define m where "m = min n ?N"
  let ?h = "das_make_heap_r cmp width m xs"
  let ?s = "scan_top cmp width m m (?N - m) ?h"
  let ?d = "drain cmp width m ?s"
  have n: "0 < m" "m \<le> ?N" "\<not> (?N \<le> 1 \<or> n = 0)" using assms by (auto simp: m_def)
  have h: "perm_in 0 ?N xs ?h" by (rule perm_in_mono[OF perm_in_make_heap]) (use n in auto)
  have s: "perm_in 0 ?N ?h ?s"
    using perm_in_scan_top[of m m "?N - m" ?h cmp width] n perm_in_length[OF h] by simp
  have lens: "length ?s = ?N" using perm_in_length[OF h] perm_in_length[OF s] by simp
  have hs: "heap_from cmp 0 m ?s" "\<And>b. m \<le> b \<Longrightarrow> b < ?N \<Longrightarrow> \<not> cmp (?s ! b) (?s ! 0)"
    using scan_top_heap[of m m "?N - m" ?h width] n make_heap_heap[of m xs width] perm_in_length[OF h] by auto
  have d: "perm_in 0 m ?s ?d" using lens n by (intro perm_in_drain) simp
  have "\<not> cmp (?d ! b) (?d ! a)"
  proof (cases "b < m")
    case True
    have "settled cmp 0 m ?d" using hs lens n by (intro drain_settled) (auto simp: settled_def)
    then show ?thesis using True assms by (simp add: settled_def)
  next
    case False
    have "\<not> cmp (?s ! b) (?d ! a)"
    proof (rule perm_in_all[OF d])
      show "\<not> cmp (?s ! b) (?s ! k)" if "k < m" for k
        using not_less_trans[OF hs(2) heap_root[OF hs(1) that]] False assms by simp
    qed (use lens assms False n in \<open>auto simp: m_def\<close>)
    then show ?thesis using False assms lens n by (simp add: perm_in_outside[OF d])
  qed
  then show ?thesis using n by (simp add: das_partial_sort_r_def Let_def m_def)
qed

text \<open>Pushing: the new element rises until its parent is no less.\<close>

lemma sift_up_heap:
  "c < nel \<Longrightarrow> nel \<le> length xs \<Longrightarrow>
   \<forall>k < nel. 0 < k \<longrightarrow> k \<noteq> c \<longrightarrow> \<not> cmp (xs ! up k) (xs ! k) \<Longrightarrow>
   0 < c \<longrightarrow> (\<forall>k < nel. 0 < k \<longrightarrow> up k = c \<longrightarrow> \<not> cmp (xs ! up c) (xs ! k)) \<Longrightarrow>
   heap_from cmp 0 nel (sift_up cmp c xs)"
proof (induction c arbitrary: xs rule: less_induct)
  case (less c)
  show ?case
  proof (cases "c = 0 \<or> \<not> cmp (xs ! up c) (xs ! c)")
    case True
    then have "sift_up cmp c xs = xs" by (subst sift_up.simps) (auto simp: Let_def up_def)
    then show ?thesis using True less.prems by (auto simp: heap_from_def)
  next
    case False
    let ?p = "up c"
    let ?y = "swap ?p c xs"
    have p: "?p < c" using False by (intro up_less) simp
    have step: "sift_up cmp c xs = sift_up cmp ?p ?y"
      using False by (subst sift_up.simps) (auto simp: Let_def up_def)
    have y: "?y ! k = (if k = c then xs ! ?p else if k = ?p then xs ! c else xs ! k)" for k
      using p less.prems by (intro swap_nth) auto
    have above: "cmp (xs ! ?p) (xs ! c)" using False by simp
    have edge: "\<not> cmp (?y ! up k) (?y ! k)" if k: "k < nel" "0 < k" "k \<noteq> ?p" for k
    proof (cases "k = c")
      case True
      then show ?thesis using p above by (simp add: y less_asym)
    next
      case kc: False
      have e: "\<not> cmp (xs ! up k) (xs ! k)" using less.prems(3) k kc by blast
      consider "up k = c" | "up k = ?p" "up k \<noteq> c" | "up k \<noteq> ?p" "up k \<noteq> c" by blast
      then show ?thesis
      proof cases
        case 1
        then show ?thesis using less.prems(4) k kc False by (auto simp: y)
      next
        case 2
        then show ?thesis using e k kc above by (simp add: y) (metis less_trans)
      next
        case 3
        then show ?thesis using e k kc by (simp add: y)
      qed
    qed
    have "\<not> cmp (?y ! up ?p) (?y ! k)" if k: "0 < ?p" "k < nel" "0 < k" "up k = ?p" for k
    proof -
      have q: "up ?p < ?p" using k by (intro up_less)
      have pq: "\<not> cmp (xs ! up ?p) (xs ! ?p)" using less.prems p k by auto
      show ?thesis
      proof (cases "k = c")
        case True
        then show ?thesis using pq q p by (simp add: y)
      next
        case kc: False
        then have "\<not> cmp (xs ! ?p) (xs ! k)" using less.prems(3) k by metis
        with pq have "\<not> cmp (xs ! up ?p) (xs ! k)" by (rule not_less_trans)
        then show ?thesis using kc q p k(4) up_less[OF k(3)] by (simp add: y)
      qed
    qed
    then show ?thesis unfolding step
      using edge p less.prems by (intro less.IH) auto
  qed
qed

lemma push_heap_heap:
  assumes "0 < nel" "nel \<le> length xs" "heap_from cmp 0 (nel - 1) xs"
  shows "heap_from cmp 0 nel (das_push_heap_r cmp nel xs)"
proof (cases "nel \<le> 1")
  case True
  then show ?thesis by (auto simp: das_push_heap_r_def heap_from_def)
next
  case False
  have "\<not> up k = nel - 1" if "k < nel" "0 < k" for k using that up_less[of k] by simp
  then have "heap_from cmp 0 nel (sift_up cmp (nel - 1) xs)"
    using False assms by (intro sift_up_heap) (auto simp: heap_from_def)
  then show ?thesis using False by (simp add: das_push_heap_r_def)
qed

end

lemma perm_in_sift_up: "c < nel \<Longrightarrow> nel \<le> length xs \<Longrightarrow> perm_in 0 nel xs (sift_up cmp c xs)"
proof (induction c arbitrary: xs rule: less_induct)
  case (less c)
  let ?y = "swap (up c) c xs"
  show ?case
  proof (cases "c = 0 \<or> \<not> cmp (xs ! up c) (xs ! c)")
    case True
    then have "sift_up cmp c xs = xs" by (subst sift_up.simps) (auto simp: Let_def up_def)
    then show ?thesis by simp
  next
    case False
    have step: "sift_up cmp c xs = sift_up cmp (up c) ?y"
      using False by (subst sift_up.simps) (auto simp: Let_def up_def)
    have "up c < c" using False by (intro up_less) simp
    then have "perm_in 0 nel xs ?y" "perm_in 0 nel ?y (sift_up cmp (up c) ?y)"
      using less by (auto intro!: perm_in_swap)
    then show ?thesis unfolding step by (rule perm_in_trans)
  qed
qed

end
