(* ===== verification/SortPartition.thy ===== *)
theory SortPartition
  imports SortArray
begin

text \<open>
  The pieces of the quicksort loop: the insertion sort of a short range, the median of
  three, the Hoare partition, and the contract of a partition, on which the sort and the
  selection rest. Indices are natural numbers: every index stays within the array, so no
  \<open>size_t\<close> wraps (the scan downwards starts at \<open>lo + 1\<close> at least and stops below it).
\<close>

section \<open>Operations\<close>

text \<open>\<open>for (j = i; j > lo && cmp(data[j], data[j - 1]); j--) swap(data[j], data[j - 1])\<close>\<close>

fun insert_back :: "('a \<Rightarrow> 'a \<Rightarrow> bool) \<Rightarrow> nat \<Rightarrow> nat \<Rightarrow> 'a list \<Rightarrow> 'a list" where
  "insert_back cmp lo 0 xs = xs"
| "insert_back cmp lo (Suc j) xs =
     (if lo < Suc j \<and> cmp (xs ! Suc j) (xs ! j) then insert_back cmp lo j (swap (Suc j) j xs) else xs)"

text \<open>The loop over \<open>i\<close>, with \<open>k\<close> rounds left.\<close>

fun insert_rounds :: "('a \<Rightarrow> 'a \<Rightarrow> bool) \<Rightarrow> nat \<Rightarrow> nat \<Rightarrow> nat \<Rightarrow> 'a list \<Rightarrow> 'a list" where
  "insert_rounds cmp lo i 0 xs = xs"
| "insert_rounds cmp lo i (Suc k) xs = insert_rounds cmp lo (i + 1) k (insert_back cmp lo i xs)"

definition insertion_tail :: "('a \<Rightarrow> 'a \<Rightarrow> bool) \<Rightarrow> nat \<Rightarrow> nat \<Rightarrow> 'a list \<Rightarrow> 'a list" where
  "insertion_tail cmp lo hi xs = insert_rounds cmp lo (lo + 1) (hi - lo) xs"

definition swap_if :: "('a \<Rightarrow> 'a \<Rightarrow> bool) \<Rightarrow> nat \<Rightarrow> nat \<Rightarrow> 'a list \<Rightarrow> 'a list" where
  "swap_if cmp i j xs = (if cmp (xs ! j) (xs ! i) then swap i j xs else xs)"

definition sort3 :: "('a \<Rightarrow> 'a \<Rightarrow> bool) \<Rightarrow> nat \<Rightarrow> nat \<Rightarrow> nat \<Rightarrow> 'a list \<Rightarrow> 'a list" where
  "sort3 cmp lo mid hi xs = swap_if cmp mid hi (swap_if cmp lo hi (swap_if cmp lo mid xs))"

definition median_of_3 :: "('a \<Rightarrow> 'a \<Rightarrow> bool) \<Rightarrow> nat \<Rightarrow> nat \<Rightarrow> 'a list \<Rightarrow> 'a list" where
  "median_of_3 cmp lo hi xs = (let mid = lo + (hi - lo) div 2 in swap lo mid (sort3 cmp lo mid hi xs))"

text \<open>\<open>while (i <= j && cmp(data[i], piv)) i++\<close>\<close>

function scan_up :: "('a \<Rightarrow> 'a \<Rightarrow> bool) \<Rightarrow> 'a list \<Rightarrow> nat \<Rightarrow> nat \<Rightarrow> nat \<Rightarrow> nat" where
  "scan_up cmp xs piv i j = (if i \<le> j \<and> cmp (xs ! i) (xs ! piv) then scan_up cmp xs piv (i + 1) j else i)"
  by auto
termination by (relation "measure (\<lambda>(_, _, _, i, j). j + 1 - i)") auto

declare scan_up.simps [simp del]

text \<open>\<open>while (i <= j && cmp(piv, data[j])) j--\<close>, for \<open>0 < i\<close>\<close>

fun scan_down :: "('a \<Rightarrow> 'a \<Rightarrow> bool) \<Rightarrow> 'a list \<Rightarrow> nat \<Rightarrow> nat \<Rightarrow> nat \<Rightarrow> nat" where
  "scan_down cmp xs piv i 0 = 0"
| "scan_down cmp xs piv i (Suc j) =
     (if i \<le> Suc j \<and> cmp (xs ! piv) (xs ! Suc j) then scan_down cmp xs piv i j else Suc j)"

lemma scan_up_spec:
  "i \<le> scan_up cmp xs p i j \<and> scan_up cmp xs p i j \<le> max i (j + 1) \<and>
   (\<forall>k. i \<le> k \<longrightarrow> k < scan_up cmp xs p i j \<longrightarrow> cmp (xs ! k) (xs ! p)) \<and>
   (scan_up cmp xs p i j \<le> j \<longrightarrow> \<not> cmp (xs ! scan_up cmp xs p i j) (xs ! p))"
proof (induction cmp xs p i j rule: scan_up.induct)
  case (1 cmp xs p i j)
  show ?case
  proof (cases "i \<le> j \<and> cmp (xs ! i) (xs ! p)")
    case True
    then have "scan_up cmp xs p i j = scan_up cmp xs p (i + 1) j" by (subst scan_up.simps) simp
    moreover have "cmp (xs ! k) (xs ! p)" if "i \<le> k" "k < scan_up cmp xs p (i + 1) j" for k
      using that 1 True by (cases "k = i") auto
    ultimately show ?thesis using 1 True by auto
  next
    case False
    then have "scan_up cmp xs p i j = i" by (subst scan_up.simps) auto
    then show ?thesis using False by auto
  qed
qed

lemma scan_down_spec:
  "0 < i \<Longrightarrow> scan_down cmp xs p i j \<le> j \<and> (i \<le> j + 1 \<longrightarrow> i \<le> scan_down cmp xs p i j + 1) \<and>
   (\<forall>k. scan_down cmp xs p i j < k \<longrightarrow> k \<le> j \<longrightarrow> cmp (xs ! p) (xs ! k)) \<and>
   (i \<le> scan_down cmp xs p i j \<longrightarrow> \<not> cmp (xs ! p) (xs ! scan_down cmp xs p i j))"
proof (induction j)
  case (Suc j)
  then show ?case by (auto simp: le_Suc_eq)
qed auto

lemma scan_up_ge: "i \<le> scan_up cmp xs p i j"
  using scan_up_spec by blast

lemma scan_down_le: "scan_down cmp xs p i j \<le> j"
  by (induction j) auto

function hoare_loop :: "('a \<Rightarrow> 'a \<Rightarrow> bool) \<Rightarrow> nat \<Rightarrow> nat \<Rightarrow> nat \<Rightarrow> 'a list \<Rightarrow> 'a list \<times> nat" where
  "hoare_loop cmp piv i j xs =
     (let i' = scan_up cmp xs piv i j; j' = scan_down cmp xs piv i' j in
      if j' \<le> i' then (xs, j') else hoare_loop cmp piv (i' + 1) (j' - 1) (swap i' j' xs))"
  by auto
termination
proof (relation "measure (\<lambda>(_, _, i, j, _). j + 1 - i)")
  fix cmp :: "'a \<Rightarrow> 'a \<Rightarrow> bool" and piv i j i' j' :: nat and xs :: "'a list"
  assume "i' = scan_up cmp xs piv i j" "j' = scan_down cmp xs piv i' j" "\<not> j' \<le> i'"
  then show "((cmp, piv, i' + 1, j' - 1, swap i' j' xs), (cmp, piv, i, j, xs))
      \<in> measure (\<lambda>(_, _, i, j, _). j + 1 - i)"
    using scan_up_ge[of i cmp xs piv j] scan_down_le[of cmp xs piv i' j] by simp
qed auto

declare hoare_loop.simps [simp del]

definition das_hoare_partition_r :: "('a \<Rightarrow> 'a \<Rightarrow> bool) \<Rightarrow> nat \<Rightarrow> nat \<Rightarrow> 'a list \<Rightarrow> 'a list \<times> nat" where
  "das_hoare_partition_r cmp lo hi xs =
     (let (ys, j) = hoare_loop cmp lo (lo + 1) hi xs in (swap lo j ys, j))"

section \<open>The contract of a partition\<close>

text \<open>
  For any comparison a partition permutes the range and returns a place in it; for a
  strict weak order the element there separates the range.
\<close>

definition split_at :: "('a \<Rightarrow> 'a \<Rightarrow> bool) \<Rightarrow> nat \<Rightarrow> nat \<Rightarrow> nat \<Rightarrow> 'a list \<Rightarrow> bool" where
  "split_at cmp lo hi p xs \<longleftrightarrow>
     (\<forall>k. lo \<le> k \<longrightarrow> k < p \<longrightarrow> \<not> cmp (xs ! p) (xs ! k)) \<and>
     (\<forall>k. p < k \<longrightarrow> k \<le> hi \<longrightarrow> \<not> cmp (xs ! k) (xs ! p))"

locale partition_range =
  fixes part :: "nat \<Rightarrow> nat \<Rightarrow> 'a list \<Rightarrow> 'a list \<times> nat"
  assumes part_range: "lo < hi \<Longrightarrow> hi < length xs \<Longrightarrow>
    perm_in lo (hi + 1) xs (fst (part lo hi xs)) \<and> lo \<le> snd (part lo hi xs) \<and> snd (part lo hi xs) \<le> hi"

locale partition_order = comparator cmp + partition_range part
  for cmp :: "'a \<Rightarrow> 'a \<Rightarrow> bool" and part :: "nat \<Rightarrow> nat \<Rightarrow> 'a list \<Rightarrow> 'a list \<times> nat" +
  assumes part_splits: "lo < hi \<Longrightarrow> hi < length xs \<Longrightarrow>
    split_at cmp lo hi (snd (part lo hi xs)) (fst (part lo hi xs))"

section \<open>The Hoare partition keeps the contract\<close>

lemma hoare_loop_range:
  assumes "lo < i" "i \<le> j + 1" "j < length xs"
  shows "perm_in i (j + 1) xs (fst (hoare_loop cmp lo i j xs)) \<and>
    i \<le> snd (hoare_loop cmp lo i j xs) + 1 \<and> snd (hoare_loop cmp lo i j xs) \<le> j"
  using assms
proof (induction cmp lo i j xs rule: hoare_loop.induct)
  case (1 cmp lo i j xs)
  define i' where "i' = scan_up cmp xs lo i j"
  define j' where "j' = scan_down cmp xs lo i' j"
  have i': "i \<le> i'" "i' \<le> j + 1" using scan_up_spec[of i cmp xs lo j] "1.prems" by (auto simp: i'_def)
  have j': "j' \<le> j" "i' \<le> j' + 1" using scan_down_spec[of i' cmp xs lo j] i' "1.prems" by (auto simp: j'_def)
  show ?case
  proof (cases "j' \<le> i'")
    case True
    then have "hoare_loop cmp lo i j xs = (xs, j')"
      by (subst hoare_loop.simps) (simp add: Let_def i'_def j'_def)
    then show ?thesis using i' j' by simp
  next
    case False
    let ?y = "swap i' j' xs"
    have step: "hoare_loop cmp lo i j xs = hoare_loop cmp lo (i' + 1) (j' - 1) ?y"
      using False by (subst hoare_loop.simps) (simp add: Let_def i'_def j'_def)
    have IH: "perm_in (i' + 1) (j' - 1 + 1) ?y (fst (hoare_loop cmp lo (i' + 1) (j' - 1) ?y)) \<and>
        i' + 1 \<le> snd (hoare_loop cmp lo (i' + 1) (j' - 1) ?y) + 1 \<and>
        snd (hoare_loop cmp lo (i' + 1) (j' - 1) ?y) \<le> j' - 1"
      using "1.IH"[OF i'_def j'_def False] "1.prems" i' j' False by simp
    have "perm_in i (j + 1) xs ?y" using i' j' False "1.prems" by (intro perm_in_swap) auto
    moreover have "perm_in i (j + 1) ?y (fst (hoare_loop cmp lo (i' + 1) (j' - 1) ?y))"
      by (rule perm_in_mono[OF conjunct1[OF IH]]) (use i' j' in auto)
    ultimately show ?thesis unfolding step using IH i' j' by (auto intro: perm_in_trans)
  qed
qed

lemma hoare_range:
  assumes "lo < hi" "hi < length xs"
  shows "perm_in lo (hi + 1) xs (fst (das_hoare_partition_r cmp lo hi xs)) \<and>
    lo \<le> snd (das_hoare_partition_r cmp lo hi xs) \<and> snd (das_hoare_partition_r cmp lo hi xs) \<le> hi"
proof -
  obtain ys j where h: "hoare_loop cmp lo (lo + 1) hi xs = (ys, j)" by fastforce
  have *: "perm_in (lo + 1) (hi + 1) xs ys" "lo \<le> j" "j \<le> hi"
    using hoare_loop_range[of lo "lo + 1" hi xs cmp] assms h by auto
  have p: "das_hoare_partition_r cmp lo hi xs = (swap lo j ys, j)"
    unfolding das_hoare_partition_r_def h by simp
  have "perm_in lo (hi + 1) xs ys" using *(1) by (rule perm_in_mono) auto
  moreover have "perm_in lo (hi + 1) ys (swap lo j ys)"
    using * assms perm_in_length[OF *(1)] by (intro perm_in_swap) auto
  ultimately show ?thesis using * unfolding p by (auto intro: perm_in_trans)
qed

interpretation hoare: partition_range "das_hoare_partition_r cmp" for cmp
  by unfold_locales (rule hoare_range)

context comparator begin

lemma hoare_loop_splits:
  assumes "lo < i" "i \<le> j + 1" "j < length xs"
    and "\<forall>k. lo < k \<longrightarrow> k < i \<longrightarrow> \<not> cmp (xs ! lo) (xs ! k)"
    and "\<forall>k. j < k \<longrightarrow> k \<le> hi \<longrightarrow> \<not> cmp (xs ! k) (xs ! lo)"
    and "hoare_loop cmp lo i j xs = (ys, p)"
  shows "(\<forall>k. lo < k \<longrightarrow> k \<le> p \<longrightarrow> \<not> cmp (ys ! lo) (ys ! k)) \<and>
    (\<forall>k. p < k \<longrightarrow> k \<le> hi \<longrightarrow> \<not> cmp (ys ! k) (ys ! lo))"
  using assms
proof (induction "j + 1 - i" arbitrary: i j xs rule: less_induct)
  case less
  define i' where "i' = scan_up cmp xs lo i j"
  define j' where "j' = scan_down cmp xs lo i' j"
  have i': "i \<le> i'" "i' \<le> j + 1" "\<forall>k. i \<le> k \<longrightarrow> k < i' \<longrightarrow> cmp (xs ! k) (xs ! lo)"
    "i' \<le> j \<longrightarrow> \<not> cmp (xs ! i') (xs ! lo)"
    using scan_up_spec[of i cmp xs lo j] less.prems by (auto simp: i'_def)
  have j': "j' \<le> j" "i' \<le> j' + 1" "\<forall>k. j' < k \<longrightarrow> k \<le> j \<longrightarrow> cmp (xs ! lo) (xs ! k)"
    "i' \<le> j' \<longrightarrow> \<not> cmp (xs ! lo) (xs ! j')"
    using scan_down_spec[of i' cmp xs lo j] i' less.prems by (auto simp: j'_def)
  have left: "\<forall>k. lo < k \<longrightarrow> k < i' \<longrightarrow> \<not> cmp (xs ! lo) (xs ! k)"
    using less.prems(4) i'(3) less_asym by (metis not_le_imp_less)
  have right: "\<forall>k. j' < k \<longrightarrow> k \<le> hi \<longrightarrow> \<not> cmp (xs ! k) (xs ! lo)"
    using less.prems(5) j'(3) less_asym by (metis not_le_imp_less)
  show ?case
  proof (cases "j' \<le> i'")
    case True
    then have "hoare_loop cmp lo i j xs = (xs, j')"
      by (subst hoare_loop.simps) (simp add: Let_def i'_def j'_def)
    then have [simp]: "ys = xs" "p = j'" using less.prems(6) by auto
    have "\<not> cmp (xs ! lo) (xs ! k)" if "lo < k" "k \<le> j'" for k
    proof (cases "k < i'")
      case False
      then have "k = j'" "i' \<le> j'" using that True by auto
      then show ?thesis using j'(4) by simp
    qed (use that left in simp)
    then show ?thesis using right by simp
  next
    case False
    let ?y = "swap i' j' xs"
    have step: "hoare_loop cmp lo i j xs = hoare_loop cmp lo (i' + 1) (j' - 1) ?y"
      using False by (subst hoare_loop.simps) (simp add: Let_def i'_def j'_def)
    have y: "?y ! k = (if k = j' then xs ! i' else if k = i' then xs ! j' else xs ! k)" for k
      using False j' less.prems by (intro swap_nth) auto
    show ?thesis
    proof (rule less.hyps[of "j' - 1" "i' + 1" ?y])
      show "\<forall>k. lo < k \<longrightarrow> k < i' + 1 \<longrightarrow> \<not> cmp (?y ! lo) (?y ! k)"
        using left j'(4) False less.prems(1) i'(1) by (auto simp: y less_Suc_eq)
      show "\<forall>k. j' - 1 < k \<longrightarrow> k \<le> hi \<longrightarrow> \<not> cmp (?y ! k) (?y ! lo)"
        using right i'(4) j'(1) False less.prems(1) i'(1) by (auto simp: y)
    qed (use less.prems step i' j' False in auto)
  qed
qed

lemma hoare_splits:
  assumes "lo < hi" "hi < length xs"
  shows "split_at cmp lo hi (snd (das_hoare_partition_r cmp lo hi xs)) (fst (das_hoare_partition_r cmp lo hi xs))"
proof -
  obtain ys j where h: "hoare_loop cmp lo (lo + 1) hi xs = (ys, j)" by fastforce
  have *: "perm_in (lo + 1) (hi + 1) xs ys" "lo \<le> j" "j \<le> hi"
    using hoare_loop_range[of lo "lo + 1" hi xs cmp] assms h by auto
  have s: "\<forall>k. lo < k \<longrightarrow> k \<le> j \<longrightarrow> \<not> cmp (ys ! lo) (ys ! k)"
    "\<forall>k. j < k \<longrightarrow> k \<le> hi \<longrightarrow> \<not> cmp (ys ! k) (ys ! lo)"
    using hoare_loop_splits[of lo "lo + 1" hi xs hi ys j] assms h by auto
  have "swap lo j ys ! k = (if k = j then ys ! lo else if k = lo then ys ! j else ys ! k)" for k
    using * assms perm_in_length[OF *(1)] by (intro swap_nth) auto
  then show ?thesis using s * unfolding das_hoare_partition_r_def h by (auto simp: split_at_def)
qed

end

sublocale comparator \<subseteq> hoare: partition_order cmp "das_hoare_partition_r cmp"
  by unfold_locales (rule hoare_splits)

section \<open>The insertion sort and the median\<close>

lemma perm_in_insert_back:
  "j < hi \<Longrightarrow> hi \<le> length xs \<Longrightarrow> perm_in lo hi xs (insert_back cmp lo j xs)"
proof (induction j arbitrary: xs)
  case (Suc j)
  show ?case
  proof (cases "lo < Suc j \<and> cmp (xs ! Suc j) (xs ! j)")
    case True
    then have "perm_in lo hi xs (swap (Suc j) j xs)"
      using Suc.prems by (intro perm_in_swap) auto
    moreover have "perm_in lo hi (swap (Suc j) j xs) (insert_back cmp lo j (swap (Suc j) j xs))"
      using Suc by simp
    ultimately show ?thesis using True by (auto intro: perm_in_trans)
  qed auto
qed simp

lemma perm_in_insert_rounds:
  "lo < i \<Longrightarrow> i + k \<le> hi \<Longrightarrow> hi \<le> length xs \<Longrightarrow> perm_in lo hi xs (insert_rounds cmp lo i k xs)"
proof (induction k arbitrary: i xs)
  case (Suc k)
  have y: "perm_in lo hi xs (insert_back cmp lo i xs)"
    using Suc.prems by (intro perm_in_insert_back) auto
  show ?case using perm_in_trans[OF y] Suc.IH[of "i + 1" "insert_back cmp lo i xs"]
      Suc.prems perm_in_length[OF y] by simp
qed simp

lemma perm_in_insertion_tail:
  "lo \<le> hi \<Longrightarrow> hi < length xs \<Longrightarrow> perm_in lo (hi + 1) xs (insertion_tail cmp lo hi xs)"
  unfolding insertion_tail_def by (intro perm_in_insert_rounds) auto

lemma perm_in_swap_if:
  "lo \<le> i \<Longrightarrow> i < hi \<Longrightarrow> lo \<le> j \<Longrightarrow> j < hi \<Longrightarrow> hi \<le> length xs \<Longrightarrow> perm_in lo hi xs (swap_if cmp i j xs)"
  by (auto simp: swap_if_def intro: perm_in_swap)

lemma length_swap_if [simp]: "length (swap_if cmp i j xs) = length xs"
  by (simp add: swap_if_def)

lemma perm_in_sort3:
  assumes "lo \<le> a" "a < hi" "lo \<le> b" "b < hi" "lo \<le> c" "c < hi" "hi \<le> length xs"
  shows "perm_in lo hi xs (sort3 cmp a b c xs)"
  unfolding sort3_def
  by (intro perm_in_trans[OF perm_in_trans[OF perm_in_swap_if perm_in_swap_if] perm_in_swap_if])
    (use assms in auto)

lemma perm_in_median:
  assumes "lo \<le> hi" "hi < length xs"
  shows "perm_in lo (hi + 1) xs (median_of_3 cmp lo hi xs)"
proof -
  let ?mid = "lo + (hi - lo) div 2"
  have m: "?mid \<le> hi" using assms by linarith
  have s: "perm_in lo (hi + 1) xs (sort3 cmp lo ?mid hi xs)"
    using assms m by (intro perm_in_sort3) auto
  show ?thesis unfolding median_of_3_def Let_def
    by (rule perm_in_trans[OF s perm_in_swap]) (use assms m perm_in_length[OF s] in auto)
qed

definition sorted_range :: "('a \<Rightarrow> 'a \<Rightarrow> bool) \<Rightarrow> nat \<Rightarrow> nat \<Rightarrow> 'a list \<Rightarrow> bool" where
  "sorted_range cmp lo hi xs \<longleftrightarrow> (\<forall>a b. lo \<le> a \<longrightarrow> a < b \<longrightarrow> b < hi \<longrightarrow> \<not> cmp (xs ! b) (xs ! a))"

context comparator begin

text \<open>Only the element at \<open>j\<close> may be out of order with those before it.\<close>

lemma insert_back_sorts:
  assumes "lo \<le> j" "j \<le> i" "i < length xs"
    and "\<forall>a b. lo \<le> a \<longrightarrow> a < b \<longrightarrow> b \<le> i \<longrightarrow> b \<noteq> j \<longrightarrow> \<not> cmp (xs ! b) (xs ! a)"
  shows "\<forall>a b. lo \<le> a \<longrightarrow> a < b \<longrightarrow> b \<le> i \<longrightarrow> \<not> cmp (insert_back cmp lo j xs ! b) (insert_back cmp lo j xs ! a)"
  using assms
proof (induction j arbitrary: xs)
  case 0
  then show ?case by simp
next
  case (Suc j)
  let ?y = "swap (Suc j) j xs"
  show ?case
  proof (cases "lo < Suc j \<and> cmp (xs ! Suc j) (xs ! j)")
    case True
    have y: "?y ! k = (if k = j then xs ! Suc j else if k = Suc j then xs ! j else xs ! k)" for k
      using Suc.prems by (intro swap_nth) auto
    have "\<not> cmp (?y ! b) (?y ! a)" if "lo \<le> a" "a < b" "b \<le> i" "b \<noteq> j" for a b
      using that Suc.prems(4)[rule_format, of a b] Suc.prems(4)[rule_format, of j b]
        Suc.prems(4)[rule_format, of "Suc j" b] Suc.prems(4)[rule_format, of a j] True Suc.prems(2)
        less_asym[of "xs ! Suc j" "xs ! j"]
      by (auto simp: y)
    then show ?thesis using Suc.IH[of ?y] Suc.prems True by simp
  next
    case False
    then have stop: "insert_back cmp lo (Suc j) xs = xs" by auto
    have "\<not> cmp (xs ! Suc j) (xs ! a)" if a: "lo \<le> a" "a < Suc j" for a
    proof (cases "a = j")
      case True
      then show ?thesis using False that by auto
    next
      case aj: False
      then have "\<not> cmp (xs ! j) (xs ! a)" "\<not> cmp (xs ! Suc j) (xs ! j)"
        using False a Suc.prems by auto
      then show ?thesis using not_less_trans by blast
    qed
    then show ?thesis unfolding stop using Suc.prems(4) by blast
  qed
qed

lemma insert_rounds_sorts:
  "lo < i \<Longrightarrow> i + k \<le> length xs \<Longrightarrow> sorted_range cmp lo i xs \<Longrightarrow> sorted_range cmp lo (i + k) (insert_rounds cmp lo i k xs)"
proof (induction k arbitrary: i xs)
  case (Suc k)
  have "\<not> cmp (xs ! b) (xs ! a)" if "lo \<le> a" "a < b" "b \<le> i" "b \<noteq> i" for a b
    using Suc.prems(3) that by (simp add: sorted_range_def)
  then have "sorted_range cmp lo (i + 1) (insert_back cmp lo i xs)"
    using insert_back_sorts[of lo i i xs] Suc.prems(1,2) by (simp add: sorted_range_def less_Suc_eq_le)
  moreover have "length (insert_back cmp lo i xs) = length xs"
    using Suc.prems by (intro perm_in_length[OF perm_in_insert_back[of i "i + 1"]]) auto
  ultimately show ?case using Suc.IH[of "i + 1" "insert_back cmp lo i xs"] Suc.prems by simp
qed simp

lemma insertion_tail_sorts:
  "lo \<le> hi \<Longrightarrow> hi < length xs \<Longrightarrow> sorted_range cmp lo (hi + 1) (insertion_tail cmp lo hi xs)"
  using insert_rounds_sorts[of lo "lo + 1" "hi - lo" xs] by (auto simp: insertion_tail_def sorted_range_def)

end

end
