(* ===== verification/SortBits.thy ===== *)
theory SortBits
  imports SortArray
begin

text \<open>
  The 64-bit sets of the block partition: filling one from a test, taking its lowest and
  its highest element out. Bit \<open>k\<close> stands for the \<open>k\<close>-th element of a block.
\<close>

section \<open>Operations\<close>

text \<open>A compiler intrinsic: the index of the lowest set bit of a non-zero word.\<close>

definition das_ctz64 :: "u64 \<Rightarrow> nat" where
  "das_ctz64 x = length (takeWhile (\<lambda>k. \<not> bit x k) [0..<64])"

text \<open>\<open>if (bits == 0) for (j = 0; j < n; j++) bits |= uint64_t(f(j)) << j\<close>\<close>

definition populate :: "(nat \<Rightarrow> bool) \<Rightarrow> nat \<Rightarrow> u64 \<Rightarrow> u64" where
  "populate f n bits =
     (if bits = 0 then foldl (\<lambda>w j. w OR push_bit j (of_bool (f j))) bits [0..<n] else bits)"

definition clear_lowest :: "u64 \<Rightarrow> u64" where
  "clear_lowest bits = bits AND (bits - 1)"

definition highest :: "u64 \<Rightarrow> nat" where
  "highest bits = 63 - das_clz64 (unat bits)"

definition keep_below :: "nat \<Rightarrow> u64 \<Rightarrow> u64" where
  "keep_below tz bits = bits AND (push_bit tz 1 - 1)"

section \<open>Bit by bit\<close>

lemma bit64: "bit (x :: u64) k \<Longrightarrow> k < 64"
  using bit_imp_le_length[of x k] by simp

lemma word_zero_iff: "(x :: u64) = 0 \<longleftrightarrow> (\<forall>k. \<not> bit x k)"
  by (auto simp: bit_eq_iff dest: bit64)

lemma takeWhile_upt:
  "k < n \<Longrightarrow> P k \<Longrightarrow> length (takeWhile (\<lambda>j. \<not> P j) [0..<n]) \<le> k \<and>
   P (length (takeWhile (\<lambda>j. \<not> P j) [0..<n])) \<and> (\<forall>j < length (takeWhile (\<lambda>j. \<not> P j) [0..<n]). \<not> P j)"
proof -
  assume k: "k < n" "P k"
  let ?t = "length (takeWhile (\<lambda>j. \<not> P j) [0..<n])"
  have below: "\<not> P j" if "j < ?t" for j
    using that takeWhile_nth[of j "\<lambda>j. \<not> P j" "[0..<n]"] nth_mem[of j "takeWhile (\<lambda>j. \<not> P j) [0..<n]"]
      set_takeWhileD length_takeWhile_le[of "\<lambda>j. \<not> P j" "[0..<n]"] by fastforce
  have "?t \<le> k" using below[of k] k by (meson not_le)
  then have "?t < length [0..<n]" using k by simp
  from nth_length_takeWhile[OF this] have "P ?t" using \<open>?t \<le> k\<close> k by simp
  then show ?thesis using below \<open>?t \<le> k\<close> by blast
qed

lemma ctz_spec:
  assumes "x \<noteq> 0" shows "bit x (das_ctz64 x)" "\<And>j. j < das_ctz64 x \<Longrightarrow> \<not> bit x j"
proof -
  obtain k where "bit x k" using assms by (auto simp: word_zero_iff)
  then have "k < 64" "bit x k" by (auto dest: bit64)
  from takeWhile_upt[of k 64 "bit x", OF this]
  show "bit x (das_ctz64 x)" "\<And>j. j < das_ctz64 x \<Longrightarrow> \<not> bit x j" by (auto simp: das_ctz64_def)
qed

lemma bit_clear_lowest:
  assumes "x \<noteq> 0"
  shows "bit (clear_lowest x) k \<longleftrightarrow> bit x k \<and> k \<noteq> das_ctz64 x"
proof -
  let ?t = "das_ctz64 x"
  let ?u = "unset_bit ?t x"
  have t: "bit x ?t" using ctz_spec(1)[OF assms] .
  have t64: "?t < 64" using t by (rule bit64)
  have "x = ?u + 2 ^ ?t" using t by (simp add: unset_bit_eq)
  then have "x - 1 = ?u + mask ?t" unfolding mask_eq_exp_minus_1 by (metis add_diff_eq)
  also have "\<dots> = ?u OR mask ?t"
    by (rule disjunctive_add_eq_or) (use ctz_spec(2)[OF assms] in \<open>auto simp: bit_eq_iff bit_simps\<close>)
  finally have "bit (x - 1) k \<longleftrightarrow> bit ?u k \<or> bit (mask ?t :: u64) k" by (simp add: bit_or_iff)
  then show ?thesis using ctz_spec(2)[OF assms, of k] t64
    unfolding clear_lowest_def by (auto simp: bit_and_iff bit_unset_bit_iff bit_mask_iff dest: bit64)
qed

lemma highest_spec:
  assumes "x \<noteq> 0" shows "bit x (highest x)" "\<And>j. highest x < j \<Longrightarrow> \<not> bit x j"
proof -
  have n: "0 < unat x" using assms by (simp add: unat_gt_0)
  have "unat x < 2 ^ 64" using unsigned_less[of x] by simp
  then have "bit_length (unat x) \<le> 64" by (rule bit_length_le)
  with bit_length_top[OF n] have h: "highest x = bit_length (unat x) - 1"
    by (simp add: highest_def das_clz64_def)
  show "bit x (highest x)" using bit_length_top(2)[OF n] unfolding h by (simp add: bit_unsigned_iff)
  fix j assume "highest x < j"
  then have "bit_length (unat x) \<le> j" using h by simp
  then have "unat x < 2 ^ j" using bit_length_less_pow[of "unat x"]
    by (meson less_le_trans one_le_numeral power_increasing)
  then have "\<not> bit (unat x) j" by (simp add: bit_iff_odd)
  then show "\<not> bit x j" by (auto simp: bit_unsigned_iff dest: bit64)
qed

lemma bit_keep_below: "tz < 64 \<Longrightarrow> bit (keep_below tz x) k \<longleftrightarrow> bit x k \<and> k < tz"
proof -
  assume tz: "tz < 64"
  have "push_bit tz 1 - 1 = (mask tz :: u64)" by (simp add: mask_eq_exp_minus_1 push_bit_eq_mult)
  then show ?thesis using tz by (auto simp: keep_below_def bit_and_iff bit_mask_iff dest: bit64)
qed

lemma bit_populate_fold:
  "n \<le> 64 \<Longrightarrow> bit (foldl (\<lambda>w j. w OR push_bit j (of_bool (f j))) b [0..<n]) k \<longleftrightarrow> bit (b :: u64) k \<or> k < n \<and> f k"
proof (induction n)
  case (Suc n)
  have "bit (push_bit n (of_bool (f n)) :: u64) k \<longleftrightarrow> k = n \<and> f n"
    using Suc.prems by (auto simp: bit_push_bit_iff bit_simps bit_0)
  then show ?case using Suc by (auto simp: bit_or_iff less_Suc_eq)
qed simp

lemma bit_populate: "n \<le> 64 \<Longrightarrow> bit (populate f n 0) k \<longleftrightarrow> k < n \<and> f k"
  by (simp add: populate_def bit_populate_fold)

lemma populate_nonzero [simp]: "bits \<noteq> 0 \<Longrightarrow> populate f n bits = bits"
  by (simp add: populate_def)

text \<open>The number of elements in a set decreases: the loops over a set end.\<close>

definition bit_count :: "u64 \<Rightarrow> nat" where
  "bit_count x = card {k. bit x k}"

lemma bit_count_less:
  assumes "\<And>k. bit y k \<Longrightarrow> bit x k" "bit x j" "\<not> bit y j"
  shows "bit_count y < bit_count x"
  unfolding bit_count_def
proof (rule psubset_card_mono)
  have "{k. bit x k} \<subseteq> {..<64}" by (auto dest: bit64)
  then show "finite {k. bit x k}" by (rule finite_subset) simp
  show "{k. bit y k} \<subset> {k. bit x k}" using assms by auto
qed

lemma clear_lowest_less: "x \<noteq> 0 \<Longrightarrow> bit_count (clear_lowest x) < bit_count x"
  using ctz_spec(1)[of x] by (intro bit_count_less[of _ x "das_ctz64 x"]) (simp_all add: bit_clear_lowest)

lemma keep_below_less: "x \<noteq> 0 \<Longrightarrow> bit_count (keep_below (highest x) x) < bit_count x"
  using highest_spec(1)[of x] bit64[of x "highest x"]
  by (intro bit_count_less[of _ x "highest x"]) (simp_all add: bit_keep_below)

end
