(* ===== verification/SortBlock.thy ===== *)
theory SortBlock
  imports SortBits SortPartition
begin

text \<open>
  The block partition \<open>das_block_partition_r\<close>: the two sets of misplaced elements, the
  pairwise exchanges driven by their lowest bits, the tail of fewer than 128 elements and
  the residue of one side. It keeps the contract of a partition. The size of what is left
  is written \<open>last + 1 - first\<close>: the code's \<open>last - first + 1\<close> is the same number of
  \<open>size_t\<close>, also when nothing is left and \<open>last - first\<close> wraps. The flag
  \<open>already_partitioned\<close>, which no caller reads, stays local.
\<close>

section \<open>Operations\<close>

text \<open>\<open>while (first <= hi && !cmp(pivot, data[first])) first++\<close>\<close>

function find_first :: "('a \<Rightarrow> 'a \<Rightarrow> bool) \<Rightarrow> 'a \<Rightarrow> nat \<Rightarrow> nat \<Rightarrow> 'a list \<Rightarrow> nat" where
  "find_first cmp pivot hi first xs =
     (if first \<le> hi \<and> \<not> cmp pivot (xs ! first) then find_first cmp pivot hi (first + 1) xs else first)"
  by auto
termination by (relation "measure (\<lambda>(_, _, hi, f, _). hi + 1 - f)") auto

declare find_first.simps [simp del]

text \<open>\<open>while (cmp(pivot, data[last])) { if (last == lo + 1) break; last--; }\<close>\<close>

fun find_last :: "('a \<Rightarrow> 'a \<Rightarrow> bool) \<Rightarrow> 'a \<Rightarrow> nat \<Rightarrow> nat \<Rightarrow> 'a list \<Rightarrow> nat" where
  "find_last cmp pivot lo 0 xs = 0"
| "find_last cmp pivot lo (Suc l) xs =
     (if cmp pivot (xs ! Suc l)
      then if Suc l = lo + 1 then Suc l else find_last cmp pivot lo l xs
      else Suc l)"

text \<open>The exchanges while both sets have an element.\<close>

function swap_pairs :: "nat \<Rightarrow> nat \<Rightarrow> u64 \<Rightarrow> u64 \<Rightarrow> 'a list \<Rightarrow> u64 \<times> u64 \<times> 'a list" where
  "swap_pairs first lst L R xs =
     (if L \<noteq> 0 \<and> R \<noteq> 0
      then swap_pairs first lst (clear_lowest L) (clear_lowest R)
             (swap (first + das_ctz64 L) (lst - das_ctz64 R) xs)
      else (L, R, xs))"
  by auto
termination by (relation "measure (\<lambda>(_, _, L, _, _). bit_count L)") (auto simp: clear_lowest_less)

declare swap_pairs.simps [simp del]

definition gte_bits :: "('a \<Rightarrow> 'a \<Rightarrow> bool) \<Rightarrow> 'a \<Rightarrow> nat \<Rightarrow> nat \<Rightarrow> 'a list \<Rightarrow> u64 \<Rightarrow> u64" where
  "gte_bits cmp pivot first n xs bits = populate (\<lambda>j. \<not> cmp (xs ! (first + j)) pivot) n bits"

definition lte_bits :: "('a \<Rightarrow> 'a \<Rightarrow> bool) \<Rightarrow> 'a \<Rightarrow> nat \<Rightarrow> nat \<Rightarrow> 'a list \<Rightarrow> u64 \<Rightarrow> u64" where
  "lte_bits cmp pivot lst n xs bits = populate (\<lambda>j. \<not> cmp pivot (xs ! (lst - j))) n bits"

text \<open>One round of the main loop and of the tail: fill the sets, exchange, move on.\<close>

definition block_round :: "('a \<Rightarrow> 'a \<Rightarrow> bool) \<Rightarrow> 'a \<Rightarrow> nat \<Rightarrow> nat \<Rightarrow> nat \<Rightarrow> nat \<Rightarrow> u64 \<Rightarrow> u64 \<Rightarrow> 'a list \<Rightarrow>
    nat \<times> nat \<times> u64 \<times> u64 \<times> 'a list" where
  "block_round cmp pivot l_size r_size first lst L R xs =
     (let (L', R', ys) = swap_pairs first lst (gte_bits cmp pivot first l_size xs L)
                           (lte_bits cmp pivot lst r_size xs R) xs
      in (if L' = 0 then first + l_size else first, if R' = 0 then lst - r_size else lst, L', R', ys))"

lemma swap_pairs_empty: "fst (swap_pairs first lst L R xs) = 0 \<or> fst (snd (swap_pairs first lst L R xs)) = 0"
  by (induction first lst L R xs rule: swap_pairs.induct) (subst (1 2) swap_pairs.simps, auto)

function block_loop :: "('a \<Rightarrow> 'a \<Rightarrow> bool) \<Rightarrow> 'a \<Rightarrow> nat \<Rightarrow> nat \<Rightarrow> u64 \<Rightarrow> u64 \<Rightarrow> 'a list \<Rightarrow>
    nat \<times> nat \<times> u64 \<times> u64 \<times> 'a list" where
  "block_loop cmp pivot first lst L R xs =
     (if first + 2 * 64 - 1 \<le> lst
      then let (f, l, L', R', ys) = block_round cmp pivot 64 64 first lst L R xs
           in block_loop cmp pivot f l L' R' ys
      else (first, lst, L, R, xs))"
  by auto
termination
proof (relation "measure (\<lambda>(_, _, f, l, _). l + 1 - f)")
  fix cmp :: "'a \<Rightarrow> 'a \<Rightarrow> bool" and pivot first lst L R and xs :: "'a list" and x f y l z L' w R' ys
  assume c: "first + 2 * 64 - 1 \<le> lst"
    and r: "x = block_round cmp pivot 64 64 first lst L R xs" "(f, y) = x" "(l, z) = y" "(L', w) = z" "(R', ys) = w"
  have "L' = 0 \<or> R' = 0"
    using r swap_pairs_empty[of first lst "gte_bits cmp pivot first 64 xs L" "lte_bits cmp pivot lst 64 xs R" xs]
    by (auto simp: block_round_def Let_def split: prod.splits)
  moreover have "f = (if L' = 0 then first + 64 else first)" "l = (if R' = 0 then lst - 64 else lst)"
    using r by (auto simp: block_round_def Let_def split: prod.splits)
  ultimately show "((cmp, pivot, f, l, L', R', ys), (cmp, pivot, first, lst, L, R, xs))
      \<in> measure (\<lambda>(_, _, f, l, _). l + 1 - f)"
    using c by auto
qed auto

declare block_loop.simps [simp del]

definition tail_sizes :: "nat \<Rightarrow> u64 \<Rightarrow> u64 \<Rightarrow> nat \<times> nat" where
  "tail_sizes remaining L R =
     (if L = 0 \<and> R = 0 then (remaining div 2, remaining - remaining div 2)
      else if L = 0 then (remaining - 64, 64) else (64, remaining - 64))"

text \<open>The residue of the left set goes to the end, that of the right set to the front.\<close>

function residue_left :: "nat \<Rightarrow> nat \<Rightarrow> u64 \<Rightarrow> 'a list \<Rightarrow> nat \<times> 'a list" where
  "residue_left first lst L xs =
     (if L = 0 then (lst, xs)
      else let tz = highest L; pos = first + tz
           in residue_left first (lst - 1) (keep_below tz L)
                (if pos \<noteq> lst then swap pos lst xs else xs))"
  by auto
termination by (relation "measure (\<lambda>(_, _, L, _). bit_count L)") (auto simp: keep_below_less)

function residue_right :: "nat \<Rightarrow> nat \<Rightarrow> u64 \<Rightarrow> 'a list \<Rightarrow> nat \<times> 'a list" where
  "residue_right first lst R xs =
     (if R = 0 then (first, xs)
      else let tz = highest R; pos = lst - tz
           in residue_right (first + 1) lst (keep_below tz R)
                (if pos \<noteq> first then swap pos first xs else xs))"
  by auto
termination by (relation "measure (\<lambda>(_, _, R, _). bit_count R)") (auto simp: keep_below_less)

declare residue_left.simps [simp del] residue_right.simps [simp del]

definition residue :: "nat \<Rightarrow> nat \<Rightarrow> u64 \<Rightarrow> u64 \<Rightarrow> 'a list \<Rightarrow> nat \<times> 'a list" where
  "residue first lst L R xs =
     (if L \<noteq> 0 then let (l, ys) = residue_left first lst L xs in (l + 1, ys)
      else if R \<noteq> 0 then residue_right first lst R xs else (first, xs))"

definition place_pivot :: "'a \<Rightarrow> nat \<Rightarrow> nat \<Rightarrow> 'a list \<Rightarrow> 'a list" where
  "place_pivot pivot lo pivot_pos xs =
     (if pivot_pos \<noteq> lo then xs[lo := xs ! pivot_pos] else xs)[pivot_pos := pivot]"

text \<open>The first exchange: the two ends that need no block.\<close>

definition block_find :: "('a \<Rightarrow> 'a \<Rightarrow> bool) \<Rightarrow> 'a \<Rightarrow> nat \<Rightarrow> nat \<Rightarrow> 'a list \<Rightarrow> nat \<times> nat \<times> 'a list" where
  "block_find cmp pivot lo hi xs =
     (let first = find_first cmp pivot hi (lo + 1) xs;
          lst = (if first < hi then find_last cmp pivot lo hi xs else hi);
          already_partitioned = lst \<le> first
      in if \<not> already_partitioned then (first + 1, lst, swap first lst xs) else (first, lst, xs))"

definition das_block_partition_r :: "('a \<Rightarrow> 'a \<Rightarrow> bool) \<Rightarrow> nat \<Rightarrow> nat \<Rightarrow> nat \<Rightarrow> 'a list \<Rightarrow> 'a list \<times> nat" where
  "das_block_partition_r cmp width lo hi xs =
     (if 256 < width then das_hoare_partition_r cmp lo hi xs
      else let pivot = xs ! lo;
               (f1, l1, x1) = block_find cmp pivot lo hi xs;
               (f2, l2, L2, R2, x2) = block_loop cmp pivot f1 l1 0 0 x1;
               (l_size, r_size) = tail_sizes (l2 + 1 - f2) L2 R2;
               (f3, l3, L3, R3, x3) = block_round cmp pivot l_size r_size f2 l2 L2 R2 x2;
               (f4, x4) = residue f3 l3 L3 R3 x3;
               pivot_pos = f4 - 1
           in (place_pivot pivot lo pivot_pos x4, pivot_pos))"

end
