(* ===== verification/SortBlockProps.thy ===== *)
theory SortBlockProps
  imports SortBlock
begin

text \<open>
  The block partition keeps the contract of a partition. The proof is done once, for two
  tests \<open>le\<close> (the element may stay on the left of the pivot) and \<open>ge\<close> (on the right) that
  the comparison decides: for a strict weak order they are the order itself, and for an
  arbitrary comparison they always hold, which leaves the statement about the indices.
\<close>

locale block_sides =
  fixes cmp :: "'a \<Rightarrow> 'a \<Rightarrow> bool" and pivot :: 'a and le ge :: "'a \<Rightarrow> bool"
  assumes less_pivot: "cmp x pivot \<Longrightarrow> le x"
    and not_less_pivot: "\<not> cmp x pivot \<Longrightarrow> ge x"
    and pivot_less: "cmp pivot x \<Longrightarrow> ge x"
    and not_pivot_less: "\<not> cmp pivot x \<Longrightarrow> le x"

interpretation any_sides: block_sides cmp pivot "\<lambda>_. True" "\<lambda>_. True" for cmp pivot
  by unfold_locales simp_all

sublocale comparator \<subseteq> sides: block_sides cmp pivot "\<lambda>x. \<not> cmp pivot x" "\<lambda>x. \<not> cmp x pivot" for pivot
  by unfold_locales (auto dest: less_asym)

section \<open>The sets say what they mean\<close>

definition left_ok :: "('a \<Rightarrow> bool) \<Rightarrow> ('a \<Rightarrow> bool) \<Rightarrow> nat \<Rightarrow> nat \<Rightarrow> u64 \<Rightarrow> 'a list \<Rightarrow> bool" where
  "left_ok le ge first n L xs \<longleftrightarrow> (\<forall>k. bit L k \<longrightarrow> k < n) \<and>
     (\<forall>k < n. if bit L k then ge (xs ! (first + k)) else le (xs ! (first + k)))"

definition right_ok :: "('a \<Rightarrow> bool) \<Rightarrow> ('a \<Rightarrow> bool) \<Rightarrow> nat \<Rightarrow> nat \<Rightarrow> u64 \<Rightarrow> 'a list \<Rightarrow> bool" where
  "right_ok le ge lst n R xs \<longleftrightarrow> (\<forall>k. bit R k \<longrightarrow> k < n) \<and>
     (\<forall>k < n. if bit R k then le (xs ! (lst - k)) else ge (xs ! (lst - k)))"

lemma left_ok_bit: "left_ok le ge first n L xs \<Longrightarrow> bit L k \<Longrightarrow> k < n \<and> ge (xs ! (first + k))"
  by (auto simp: left_ok_def)

lemma right_ok_bit: "right_ok le ge lst n R xs \<Longrightarrow> bit R k \<Longrightarrow> k < n \<and> le (xs ! (lst - k))"
  by (auto simp: right_ok_def)

lemma swap_pairs_ok:
  "left_ok le ge first l L xs \<Longrightarrow> right_ok le ge lst r R xs \<Longrightarrow> first + l + r \<le> lst + 1 \<Longrightarrow> lst < length xs \<Longrightarrow>
   swap_pairs first lst L R xs = (L', R', ys) \<Longrightarrow>
   perm_in first (lst + 1) xs ys \<and> left_ok le ge first l L' ys \<and> right_ok le ge lst r R' ys \<and> (L' = 0 \<or> R' = 0)"
proof (induction "bit_count L" arbitrary: L R xs rule: less_induct)
  case less
  show ?case
  proof (cases "L \<noteq> 0 \<and> R \<noteq> 0")
    case False
    then have "swap_pairs first lst L R xs = (L, R, xs)" by (subst swap_pairs.simps) auto
    then show ?thesis using less.prems False by auto
  next
    case True
    let ?s = "das_ctz64 L" and ?t = "das_ctz64 R"
    let ?y = "swap (first + ?s) (lst - ?t) xs"
    have bits: "bit L ?s" "bit R ?t" using True by (auto intro: ctz_spec)
    have s: "?s < l" "ge (xs ! (first + ?s))" using left_ok_bit[OF less.prems(1) bits(1)] by auto
    have t: "?t < r" "le (xs ! (lst - ?t))" using right_ok_bit[OF less.prems(2) bits(2)] by auto
    have y: "?y ! k = (if k = lst - ?t then xs ! (first + ?s) else if k = first + ?s then xs ! (lst - ?t) else xs ! k)" for k
      using s t less.prems by (intro swap_nth) auto
    have step: "swap_pairs first lst L R xs = swap_pairs first lst (clear_lowest L) (clear_lowest R) ?y"
      using True by (subst swap_pairs.simps) auto
    have left: "left_ok le ge first l (clear_lowest L) ?y"
      using less.prems(1,3) s t True unfolding left_ok_def
      by (auto simp: bit_clear_lowest y)
    have right: "right_ok le ge lst r (clear_lowest R) ?y"
      using less.prems(2,3) s t True unfolding right_ok_def
      by (auto simp: bit_clear_lowest y)
    have "perm_in first (lst + 1) xs ?y" using s t less.prems by (intro perm_in_swap) auto
    moreover have "perm_in first (lst + 1) ?y ys \<and> left_ok le ge first l L' ys \<and> right_ok le ge lst r R' ys \<and> (L' = 0 \<or> R' = 0)"
      using less.prems True by (intro less.hyps[OF _ left right]) (auto simp: step clear_lowest_less)
    ultimately show ?thesis by (auto intro: perm_in_trans)
  qed
qed

text \<open>
  Between the rounds: the elements before \<open>first\<close> and after \<open>lst\<close> are on their sides, and
  a set that is not empty describes the next block of its side.
\<close>

definition sides_ok :: "('a \<Rightarrow> bool) \<Rightarrow> ('a \<Rightarrow> bool) \<Rightarrow> nat \<Rightarrow> nat \<Rightarrow> nat \<Rightarrow> nat \<Rightarrow> 'a list \<Rightarrow> bool" where
  "sides_ok le ge lo hi first lst xs \<longleftrightarrow> lo < first \<and> first \<le> lst + 1 \<and> lst \<le> hi \<and> hi < length xs \<and>
     (\<forall>k. lo < k \<longrightarrow> k < first \<longrightarrow> le (xs ! k)) \<and> (\<forall>k. lst < k \<longrightarrow> k \<le> hi \<longrightarrow> ge (xs ! k))"

definition block_inv :: "('a \<Rightarrow> bool) \<Rightarrow> ('a \<Rightarrow> bool) \<Rightarrow> nat \<Rightarrow> nat \<Rightarrow> nat \<Rightarrow> nat \<Rightarrow> nat \<Rightarrow> nat \<Rightarrow> u64 \<Rightarrow> u64 \<Rightarrow> 'a list \<Rightarrow> bool" where
  "block_inv le ge lo hi m n first lst L R xs \<longleftrightarrow> sides_ok le ge lo hi first lst xs \<and> (L = 0 \<or> R = 0) \<and>
     (L \<noteq> 0 \<longrightarrow> first + m \<le> lst + 1 \<and> left_ok le ge first m L xs) \<and>
     (R \<noteq> 0 \<longrightarrow> first + n \<le> lst + 1 \<and> right_ok le ge lst n R xs)"

lemma sides_ok_perm:
  assumes "sides_ok le ge lo hi first lst xs" "perm_in first (lst + 1) xs ys"
  shows "sides_ok le ge lo hi first lst ys"
  using assms perm_in_length[OF assms(2)] by (auto simp: sides_ok_def perm_in_outside)

context block_sides begin

lemma gte_bits_ok:
  assumes "n \<le> 64" "L \<noteq> 0 \<Longrightarrow> left_ok le ge first n L xs"
  shows "left_ok le ge first n (gte_bits cmp pivot first n xs L) xs"
proof (cases "L = 0")
  case True
  then show ?thesis using assms(1)
    by (auto simp: gte_bits_def left_ok_def bit_populate intro: less_pivot not_less_pivot)
qed (use assms in \<open>simp add: gte_bits_def\<close>)

lemma lte_bits_ok:
  assumes "n \<le> 64" "R \<noteq> 0 \<Longrightarrow> right_ok le ge lst n R xs"
  shows "right_ok le ge lst n (lte_bits cmp pivot lst n xs R) xs"
proof (cases "R = 0")
  case True
  then show ?thesis using assms(1)
    by (auto simp: lte_bits_def right_ok_def bit_populate intro: pivot_less not_pivot_less)
qed (use assms in \<open>simp add: lte_bits_def\<close>)

lemma block_round_inv:
  assumes inv: "block_inv le ge lo hi 64 64 first lst L R xs"
    and sizes: "m \<le> 64" "n \<le> 64" "L \<noteq> 0 \<Longrightarrow> m = 64" "R \<noteq> 0 \<Longrightarrow> n = 64" "first + m + n \<le> lst + 1"
    and round: "block_round cmp pivot m n first lst L R xs = (f, l, L', R', ys)"
  shows "block_inv le ge lo hi m n f l L' R' ys" "perm_in (lo + 1) (hi + 1) xs ys"
    and "f = (if L' = 0 then first + m else first)" "l = (if R' = 0 then lst - n else lst)"
proof -
  let ?L = "gte_bits cmp pivot first m xs L" and ?R = "lte_bits cmp pivot lst n xs R"
  have so: "sides_ok le ge lo hi first lst xs" using inv by (simp add: block_inv_def)
  have b: "swap_pairs first lst ?L ?R xs = (L', R', ys)"
    and fl: "f = (if L' = 0 then first + m else first)" "l = (if R' = 0 then lst - n else lst)"
    using round by (auto simp: block_round_def split: prod.splits)
  have "left_ok le ge first m ?L xs" using inv sizes by (intro gte_bits_ok) (auto simp: block_inv_def)
  moreover have "right_ok le ge lst n ?R xs" using inv sizes by (intro lte_bits_ok) (auto simp: block_inv_def)
  ultimately have p: "perm_in first (lst + 1) xs ys" "left_ok le ge first m L' ys" "right_ok le ge lst n R' ys"
    "L' = 0 \<or> R' = 0"
    using swap_pairs_ok[OF _ _ sizes(5) _ b] so by (auto simp: sides_ok_def)
  have soy: "sides_ok le ge lo hi first lst ys" by (rule sides_ok_perm[OF so p(1)])
  have left: "le (ys ! k)" if "lo < k" "k < f" for k
  proof (cases "k < first")
    case False
    then have "L' = 0" "k - first < m" using that fl by (auto split: if_splits)
    then show ?thesis using p(2) False by (auto simp: left_ok_def dest: spec[of _ "k - first"])
  qed (use soy that in \<open>simp add: sides_ok_def\<close>)
  have right: "ge (ys ! k)" if "l < k" "k \<le> hi" for k
  proof (cases "lst < k")
    case False
    then have "R' = 0" "lst - k < n" "lst - (lst - k) = k" using that fl by (auto split: if_splits)
    then show ?thesis using p(3) by (auto simp: right_ok_def dest: spec[of _ "lst - k"])
  qed (use soy that in \<open>simp add: sides_ok_def\<close>)
  have "sides_ok le ge lo hi f l ys"
    using soy left right sizes(5) by (auto simp: sides_ok_def fl)
  then show "block_inv le ge lo hi m n f l L' R' ys"
    using p sizes(5) by (auto simp: block_inv_def fl)
  show "perm_in (lo + 1) (hi + 1) xs ys"
    by (rule perm_in_mono[OF p(1)]) (use so in \<open>auto simp: sides_ok_def\<close>)
qed (use round in \<open>auto simp: block_round_def split: prod.splits\<close>)

lemma block_loop_inv:
  "block_inv le ge lo hi 64 64 first lst L R xs \<Longrightarrow> block_loop cmp pivot first lst L R xs = (f, l, L', R', ys) \<Longrightarrow>
   block_inv le ge lo hi 64 64 f l L' R' ys \<and> perm_in (lo + 1) (hi + 1) xs ys \<and> l + 1 - f < 128"
proof (induction "lst + 1 - first" arbitrary: first lst L R xs rule: less_induct)
  case less
  show ?case
  proof (cases "first + 2 * 64 - 1 \<le> lst")
    case False
    then have "block_loop cmp pivot first lst L R xs = (first, lst, L, R, xs)"
      by (subst block_loop.simps) auto
    then show ?thesis using less.prems False by auto
  next
    case True
    obtain a b A B zs where r: "block_round cmp pivot 64 64 first lst L R xs = (a, b, A, B, zs)"
      using prod_cases5 by blast
    have rest: "block_loop cmp pivot a b A B zs = (f, l, L', R', ys)"
      using less.prems(2) True r by (subst (asm) block_loop.simps) simp
    note inv = block_round_inv[OF less.prems(1) _ _ _ _ _ r]
    have i: "block_inv le ge lo hi 64 64 a b A B zs" "perm_in (lo + 1) (hi + 1) xs zs"
      "a = (if A = 0 then first + 64 else first)" "b = (if B = 0 then lst - 64 else lst)"
      using inv True by simp_all
    have "A = 0 \<or> B = 0" using i(1) by (simp add: block_inv_def)
    then have "b + 1 - a < lst + 1 - first" using i(3,4) True by auto
    from less.hyps[OF this i(1) rest] show ?thesis using i(2) by (auto intro: perm_in_trans)
  qed
qed

end

section \<open>The residue\<close>

lemma residue_left_ok:
  "left_ok le ge first n L xs \<Longrightarrow> first + n = lst + 1 \<Longrightarrow> 0 < first \<Longrightarrow> sides_ok le ge lo hi first lst xs \<Longrightarrow>
   residue_left first lst L xs = (l, ys) \<Longrightarrow>
   sides_ok le ge lo hi (l + 1) l ys \<and> perm_in first (lst + 1) xs ys"
proof (induction "bit_count L" arbitrary: L n lst xs rule: less_induct)
  case less
  show ?case
  proof (cases "L = 0")
    case True
    then have [simp]: "l = lst" "ys = xs" using less.prems(5) by (auto simp: residue_left.simps[of first lst 0])
    have "le (xs ! k)" if "lo < k" "k < lst + 1" for k
    proof (cases "k < first")
      case False
      then have "k - first < n" "first + (k - first) = k" using that less.prems(2) by auto
      then show ?thesis using less.prems(1) True by (auto simp: left_ok_def dest: spec[of _ "k - first"])
    qed (use less.prems(4) that in \<open>simp add: sides_ok_def\<close>)
    then show ?thesis using less.prems(4) by (auto simp: sides_ok_def)
  next
    case False
    let ?t = "highest L"
    let ?y = "if first + ?t \<noteq> lst then swap (first + ?t) lst xs else xs"
    have t: "?t < n" "ge (xs ! (first + ?t))" "?t < 64"
      using left_ok_bit[OF less.prems(1) highest_spec(1)[OF False]] bit64[OF highest_spec(1)[OF False]] by auto
    have top: "\<not> bit L k" if "?t < k" for k using highest_spec(2)[OF False that] .
    have so: "lst < length xs" "lo < first" "lst \<le> hi" using less.prems(4) by (auto simp: sides_ok_def)
    have pos: "first + ?t \<le> lst" using t less.prems(2) by simp
    have y: "?y ! k = (if k = lst then xs ! (first + ?t) else if k = first + ?t then xs ! lst else xs ! k)" for k
      using pos so by (auto simp: swap_nth)
    have lasty: "le (xs ! lst)" if "first + ?t \<noteq> lst"
    proof -
      have "n - 1 < n" "?t < n - 1" "first + (n - 1) = lst" using that pos t less.prems(2) by auto
      then show ?thesis using less.prems(1) top[of "n - 1"] by (auto simp: left_ok_def dest: spec[of _ "n - 1"])
    qed
    have left: "left_ok le ge first (n - 1) (keep_below ?t L) ?y"
      unfolding left_ok_def
    proof (intro conjI allI impI)
      show "k < n - 1" if "bit (keep_below ?t L) k" for k using that t by (auto simp: bit_keep_below)
      fix k assume k: "k < n - 1"
      then have kn: "k < n" "first + k \<noteq> lst" using less.prems(2) by auto
      have "if bit L k then ge (xs ! (first + k)) else le (xs ! (first + k))"
        using less.prems(1) kn by (simp add: left_ok_def)
      then show "if bit (keep_below ?t L) k then ge (?y ! (first + k)) else le (?y ! (first + k))"
        using kn top[of k] t lasty unfolding y bit_keep_below[OF t(3)] by (cases k ?t rule: linorder_cases) auto
    qed
    have perm: "perm_in first (lst + 1) xs ?y" using pos so by (auto intro!: perm_in_swap)
    have sides: "sides_ok le ge lo hi first (lst - 1) ?y"
      using less.prems(4) t(2) pos less.prems(3) perm_in_length[OF perm] unfolding sides_ok_def y
      by (auto simp: sides_ok_def)
    have step: "residue_left first (lst - 1) (keep_below ?t L) ?y = (l, ys)"
      using less.prems(5) False by (subst (asm) residue_left.simps) (simp add: Let_def)
    have IH: "sides_ok le ge lo hi (l + 1) l ys \<and> perm_in first (lst - 1 + 1) ?y ys"
      using less.prems(2,3) t pos by (intro less.hyps[OF keep_below_less[OF False] left _ _ sides step]) auto
    have "perm_in first (lst + 1) ?y ys" by (rule perm_in_mono[OF conjunct2[OF IH]]) auto
    then show ?thesis using IH perm by (auto intro: perm_in_trans)
  qed
qed

lemma residue_right_ok:
  "right_ok le ge lst n R xs \<Longrightarrow> first + n = lst + 1 \<Longrightarrow> sides_ok le ge lo hi first lst xs \<Longrightarrow>
   residue_right first lst R xs = (f, ys) \<Longrightarrow>
   sides_ok le ge lo hi f (f - 1) ys \<and> perm_in first (lst + 1) xs ys"
proof (induction "bit_count R" arbitrary: R n first xs rule: less_induct)
  case less
  show ?case
  proof (cases "R = 0")
    case True
    then have [simp]: "f = first" "ys = xs" using less.prems(4) by (auto simp: residue_right.simps[of first lst 0])
    have "ge (xs ! k)" if "first - 1 < k" "k \<le> hi" for k
    proof (cases "lst < k")
      case False
      then have "lst - k < n" "lst - (lst - k) = k" using that less.prems(2) by auto
      then show ?thesis using less.prems(1) True by (auto simp: right_ok_def dest: spec[of _ "lst - k"])
    qed (use less.prems(3) that in \<open>simp add: sides_ok_def\<close>)
    then show ?thesis using less.prems(3) by (auto simp: sides_ok_def)
  next
    case False
    let ?t = "highest R"
    let ?y = "if lst - ?t \<noteq> first then swap (lst - ?t) first xs else xs"
    have t: "?t < n" "le (xs ! (lst - ?t))" "?t < 64"
      using right_ok_bit[OF less.prems(1) highest_spec(1)[OF False]] bit64[OF highest_spec(1)[OF False]] by auto
    have top: "\<not> bit R k" if "?t < k" for k using highest_spec(2)[OF False that] .
    have so: "lst < length xs" "lo < first" "lst \<le> hi" using less.prems(3) by (auto simp: sides_ok_def)
    have pos: "first \<le> lst - ?t" "?t \<le> lst" using t less.prems(2) so by auto
    have y: "?y ! k = (if k = first then xs ! (lst - ?t) else if k = lst - ?t then xs ! first else xs ! k)" for k
      using pos so by (auto simp: swap_nth)
    have firsty: "ge (xs ! first)" if "lst - ?t \<noteq> first"
    proof -
      have "n - 1 < n" "?t < n - 1" "lst - (n - 1) = first" using that pos t less.prems(2) by auto
      then show ?thesis using less.prems(1) top[of "n - 1"] by (auto simp: right_ok_def dest: spec[of _ "n - 1"])
    qed
    have right: "right_ok le ge lst (n - 1) (keep_below ?t R) ?y"
      unfolding right_ok_def
    proof (intro conjI allI impI)
      show "k < n - 1" if "bit (keep_below ?t R) k" for k using that t by (auto simp: bit_keep_below)
      fix k assume k: "k < n - 1"
      then have kn: "k < n" "lst - k \<noteq> first" "k \<le> lst" using less.prems(2) by auto
      have inj: "lst - k = lst - ?t \<longleftrightarrow> k = ?t" using kn pos by auto
      have "if bit R k then le (xs ! (lst - k)) else ge (xs ! (lst - k))"
        using less.prems(1) kn by (simp add: right_ok_def)
      then show "if bit (keep_below ?t R) k then le (?y ! (lst - k)) else ge (?y ! (lst - k))"
        using kn top[of k] t firsty inj unfolding y bit_keep_below[OF t(3)] by (cases k ?t rule: linorder_cases) auto
    qed
    have perm: "perm_in first (lst + 1) xs ?y" using pos so by (auto intro!: perm_in_swap)
    have sides: "sides_ok le ge lo hi (first + 1) lst ?y"
      using less.prems(3) t(2) pos perm_in_length[OF perm] unfolding sides_ok_def y
      by (auto simp: less_Suc_eq)
    have step: "residue_right (first + 1) lst (keep_below ?t R) ?y = (f, ys)"
      using less.prems(4) False by (subst (asm) residue_right.simps) (simp add: Let_def)
    have IH: "sides_ok le ge lo hi f (f - 1) ys \<and> perm_in (first + 1) (lst + 1) ?y ys"
      using less.prems(2) t pos by (intro less.hyps[OF keep_below_less[OF False] right _ sides step]) auto
    have "perm_in first (lst + 1) ?y ys" by (rule perm_in_mono[OF conjunct2[OF IH]]) auto
    then show ?thesis using IH perm by (auto intro: perm_in_trans)
  qed
qed

section \<open>The ends of the range\<close>

lemma find_first_spec:
  "i \<le> find_first cmp pivot hi i xs \<and> find_first cmp pivot hi i xs \<le> max i (hi + 1) \<and>
   (\<forall>k. i \<le> k \<longrightarrow> k < find_first cmp pivot hi i xs \<longrightarrow> \<not> cmp pivot (xs ! k)) \<and>
   (find_first cmp pivot hi i xs \<le> hi \<longrightarrow> cmp pivot (xs ! find_first cmp pivot hi i xs))"
proof (induction cmp pivot hi i xs rule: find_first.induct)
  case (1 cmp pivot hi i xs)
  show ?case
  proof (cases "i \<le> hi \<and> \<not> cmp pivot (xs ! i)")
    case True
    then have "find_first cmp pivot hi i xs = find_first cmp pivot hi (i + 1) xs"
      by (subst find_first.simps) simp
    moreover have "\<not> cmp pivot (xs ! k)" if "i \<le> k" "k < find_first cmp pivot hi (i + 1) xs" for k
      using that 1 True by (cases "k = i") auto
    ultimately show ?thesis using 1 True by auto
  next
    case False
    then have "find_first cmp pivot hi i xs = i" by (subst find_first.simps) auto
    then show ?thesis using False by auto
  qed
qed

lemma find_last_spec:
  "lo < l \<Longrightarrow> lo < find_last cmp pivot lo l xs \<and> find_last cmp pivot lo l xs \<le> l \<and>
   (\<forall>k. find_last cmp pivot lo l xs < k \<longrightarrow> k \<le> l \<longrightarrow> cmp pivot (xs ! k)) \<and>
   (find_last cmp pivot lo l xs = lo + 1 \<or> \<not> cmp pivot (xs ! find_last cmp pivot lo l xs))"
proof (induction l)
  case (Suc l)
  then show ?case by (cases "l = lo") (auto simp: le_Suc_eq)
qed simp

context block_sides begin

lemma block_find_ok:
  assumes "lo < hi" "hi < length xs" "block_find cmp pivot lo hi xs = (f, l, ys)"
  shows "sides_ok le ge lo hi f l ys \<and> perm_in (lo + 1) (hi + 1) xs ys"
proof -
  define a where "a = find_first cmp pivot hi (lo + 1) xs"
  define b where "b = (if a < hi then find_last cmp pivot lo hi xs else hi)"
  have a: "lo < a" "a \<le> hi + 1" "\<And>k. lo < k \<Longrightarrow> k < a \<Longrightarrow> \<not> cmp pivot (xs ! k)" "a \<le> hi \<Longrightarrow> cmp pivot (xs ! a)"
    using find_first_spec[of "lo + 1" cmp pivot hi xs] assms(1) by (auto simp: a_def)
  have b: "lo < b" "b \<le> hi" "\<And>k. b < k \<Longrightarrow> k \<le> hi \<Longrightarrow> cmp pivot (xs ! k)"
    "a < hi \<Longrightarrow> b = lo + 1 \<or> \<not> cmp pivot (xs ! b)"
    using find_last_spec[of lo hi cmp pivot xs] assms(1) by (auto simp: b_def split: if_splits)
  have ab: "a \<le> b + 1"
  proof (rule ccontr)
    assume n: "\<not> a \<le> b + 1"
    then have "\<not> cmp pivot (xs ! (b + 1))" using a(3)[of "b + 1"] b(1) by simp
    moreover have "cmp pivot (xs ! (b + 1))" using n a(2) by (intro b(3)) auto
    ultimately show False by blast
  qed
  show ?thesis
  proof (cases "b \<le> a")
    case True
    then have r: "f = a" "l = b" "ys = xs"
      using assms(3) unfolding block_find_def Let_def a_def[symmetric] b_def[symmetric] by auto
    show ?thesis unfolding r sides_ok_def
      using a b ab assms by (auto intro: not_pivot_less pivot_less)
  next
    case False
    then have r: "f = a + 1" "l = b" "ys = swap a b xs"
      using assms(3) unfolding block_find_def Let_def a_def[symmetric] b_def[symmetric] by auto
    have y: "swap a b xs ! k = (if k = b then xs ! a else if k = a then xs ! b else xs ! k)" for k
      using False b assms by (intro swap_nth) auto
    have "a < hi" "b \<noteq> lo + 1" using False a b by auto
    then have "\<not> cmp pivot (xs ! b)" using b(4) by blast
    then have "sides_ok le ge lo hi f l ys"
      unfolding r sides_ok_def y using a b False assms
      by (auto simp: less_Suc_eq intro: not_pivot_less pivot_less)
    moreover have "perm_in (lo + 1) (hi + 1) xs ys"
      unfolding r using a b False assms by (intro perm_in_swap) auto
    ultimately show ?thesis ..
  qed
qed

lemma residue_ok:
  assumes "block_inv le ge lo hi m n first lst L R xs"
    and "L \<noteq> 0 \<Longrightarrow> first + m = lst + 1" "R \<noteq> 0 \<Longrightarrow> first + n = lst + 1"
    and "L = 0 \<Longrightarrow> R = 0 \<Longrightarrow> first = lst + 1"
    and "residue first lst L R xs = (f, ys)"
  shows "sides_ok le ge lo hi f (f - 1) ys \<and> perm_in (lo + 1) (hi + 1) xs ys"
proof -
  have so: "sides_ok le ge lo hi first lst xs" using assms(1) by (simp add: block_inv_def)
  then have lo: "lo + 1 \<le> first" "lst + 1 \<le> hi + 1" by (auto simp: sides_ok_def)
  consider "L \<noteq> 0" | "L = 0" "R \<noteq> 0" | "L = 0" "R = 0" by blast
  then have "sides_ok le ge lo hi f (f - 1) ys \<and> perm_in first (lst + 1) xs ys"
  proof cases
    case 1
    then obtain l where l: "residue_left first lst L xs = (l, ys)" "f = l + 1"
      using assms(5) by (auto simp: residue_def split: prod.splits)
    have "left_ok le ge first m L xs" using assms(1) 1 by (simp add: block_inv_def)
    from residue_left_ok[OF this assms(2)[OF 1] _ so l(1)] lo l(2) show ?thesis by simp
  next
    case 2
    then have r: "residue_right first lst R xs = (f, ys)" using assms(5) by (simp add: residue_def)
    have "right_ok le ge lst n R xs" using assms(1) 2 by (simp add: block_inv_def)
    from residue_right_ok[OF this assms(3)[OF 2(2)] so r] show ?thesis .
  next
    case 3
    then show ?thesis using assms(4,5) so by (auto simp: residue_def)
  qed
  then show ?thesis using lo by (auto elim: perm_in_mono)
qed

lemma tail_sizes_ok:
  assumes "block_inv le ge lo hi 64 64 f l L R xs" "l + 1 - f < 128" "tail_sizes (l + 1 - f) L R = (m, n)"
  shows "m \<le> 64" "n \<le> 64" "L \<noteq> 0 \<Longrightarrow> m = 64" "R \<noteq> 0 \<Longrightarrow> n = 64" "f + m + n = l + 1"
  using assms by (auto simp: tail_sizes_def block_inv_def sides_ok_def split: if_splits)

text \<open>All of the partition but the last write: \<open>f\<close> is the first place of the right side.\<close>

lemma blocks_ok:
  assumes "lo < hi" "hi < length xs"
    and "block_find cmp pivot lo hi xs = (f1, l1, x1)"
    and "block_loop cmp pivot f1 l1 0 0 x1 = (f2, l2, L2, R2, x2)"
    and "tail_sizes (l2 + 1 - f2) L2 R2 = (m, n)"
    and "block_round cmp pivot m n f2 l2 L2 R2 x2 = (f3, l3, L3, R3, x3)"
    and "residue f3 l3 L3 R3 x3 = (f4, x4)"
  shows "sides_ok le ge lo hi f4 (f4 - 1) x4 \<and> perm_in (lo + 1) (hi + 1) xs x4"
proof -
  have 1: "sides_ok le ge lo hi f1 l1 x1" "perm_in (lo + 1) (hi + 1) xs x1"
    using block_find_ok[OF assms(1-3)] by auto
  then have "block_inv le ge lo hi 64 64 f1 l1 0 0 x1" by (simp add: block_inv_def)
  from block_loop_inv[OF this assms(4)]
  have 2: "block_inv le ge lo hi 64 64 f2 l2 L2 R2 x2" "perm_in (lo + 1) (hi + 1) x1 x2" "l2 + 1 - f2 < 128"
    by auto
  note sizes = tail_sizes_ok[OF 2(1,3) assms(5)]
  note 3 = block_round_inv[OF 2(1) sizes(1-4) _ assms(6)]
  have ends: "block_inv le ge lo hi m n f3 l3 L3 R3 x3" "perm_in (lo + 1) (hi + 1) x2 x3"
    "f3 = (if L3 = 0 then f2 + m else f2)" "l3 = (if R3 = 0 then l2 - n else l2)"
    using 3 sizes(5) by simp_all
  have "L3 = 0 \<or> R3 = 0" using ends(1) by (simp add: block_inv_def)
  moreover have "0 < f2" "n \<le> l2 + 1" using 2(1) sizes(5) by (auto simp: block_inv_def sides_ok_def)
  ultimately have "sides_ok le ge lo hi f4 (f4 - 1) x4 \<and> perm_in (lo + 1) (hi + 1) x3 x4"
    using ends(3,4) sizes(5) by (intro residue_ok[OF ends(1) _ _ _ assms(7)]) auto
  then show ?thesis using 1 2 ends by (auto intro: perm_in_trans)
qed

end

section \<open>The contract\<close>

text \<open>The steps of the narrow case by name.\<close>

lemma block_partition_steps:
  assumes "\<not> 256 < width"
  obtains f1 l1 x1 f2 l2 L2 R2 x2 m n f3 l3 L3 R3 x3 f4 x4 where
    "block_find cmp (xs ! lo) lo hi xs = (f1, l1, x1)"
    "block_loop cmp (xs ! lo) f1 l1 0 0 x1 = (f2, l2, L2, R2, x2)"
    "tail_sizes (l2 + 1 - f2) L2 R2 = (m, n)"
    "block_round cmp (xs ! lo) m n f2 l2 L2 R2 x2 = (f3, l3, L3, R3, x3)"
    "residue f3 l3 L3 R3 x3 = (f4, x4)"
    "das_block_partition_r cmp width lo hi xs = (place_pivot (xs ! lo) lo (f4 - 1) x4, f4 - 1)"
proof -
  obtain f1 l1 x1 where 1: "block_find cmp (xs ! lo) lo hi xs = (f1, l1, x1)" using prod_cases3 by blast
  obtain f2 l2 L2 R2 x2 where 2: "block_loop cmp (xs ! lo) f1 l1 0 0 x1 = (f2, l2, L2, R2, x2)"
    using prod_cases5 by blast
  obtain m n where 3: "tail_sizes (l2 + 1 - f2) L2 R2 = (m, n)" by fastforce
  obtain f3 l3 L3 R3 x3 where 4: "block_round cmp (xs ! lo) m n f2 l2 L2 R2 x2 = (f3, l3, L3, R3, x3)"
    using prod_cases5 by blast
  obtain f4 x4 where 5: "residue f3 l3 L3 R3 x3 = (f4, x4)" by fastforce
  show thesis
    by (rule that[OF 1 2 3 4 5]) (use assms in \<open>simp add: das_block_partition_r_def Let_def 1 2 3[simplified] 4 5\<close>)
qed

lemma place_pivot_swap:
  assumes "lo < length xs" "p < length xs"
  shows "place_pivot (xs ! lo) lo p xs = swap lo p xs"
  using assms by (auto simp: place_pivot_def swap_def)

context block_sides begin

lemma narrow_ok:
  assumes r: "pivot = xs ! lo" "lo < hi" "hi < length xs" "\<not> 256 < width"
    and p: "das_block_partition_r cmp width lo hi xs = (ys, p)"
  shows "perm_in lo (hi + 1) xs ys \<and> lo \<le> p \<and> p \<le> hi \<and> ys ! p = xs ! lo \<and>
    (\<forall>k. lo \<le> k \<longrightarrow> k < p \<longrightarrow> le (ys ! k)) \<and> (\<forall>k. p < k \<longrightarrow> k \<le> hi \<longrightarrow> ge (ys ! k))"
proof (rule block_partition_steps[OF r(4), of cmp xs lo hi])
  fix f1 l1 x1 f2 l2 L2 R2 x2 m n f3 l3 L3 R3 x3 f4 x4
  assume s: "block_find cmp (xs ! lo) lo hi xs = (f1, l1, x1)"
    "block_loop cmp (xs ! lo) f1 l1 0 0 x1 = (f2, l2, L2, R2, x2)"
    "tail_sizes (l2 + 1 - f2) L2 R2 = (m, n)"
    "block_round cmp (xs ! lo) m n f2 l2 L2 R2 x2 = (f3, l3, L3, R3, x3)"
    "residue f3 l3 L3 R3 x3 = (f4, x4)"
    and d: "das_block_partition_r cmp width lo hi xs = (place_pivot (xs ! lo) lo (f4 - 1) x4, f4 - 1)"
  have ok: "sides_ok le ge lo hi f4 (f4 - 1) x4" "perm_in (lo + 1) (hi + 1) xs x4"
    using blocks_ok[OF r(2,3) s(1-5)[folded r(1)]] by auto
  then have f4: "lo < f4" "f4 \<le> hi + 1" "length x4 = length xs" "x4 ! lo = xs ! lo"
    using r by (auto simp: sides_ok_def perm_in_outside dest: perm_in_length)
  then have ys: "p = f4 - 1" "ys = swap lo p x4"
    using p d r place_pivot_swap[of lo x4 "f4 - 1"] by auto
  have y: "ys ! k = (if k = p then xs ! lo else if k = lo then x4 ! p else x4 ! k)" for k
    unfolding ys(2) using f4 r ys(1) by (subst swap_nth) auto
  have "perm_in lo (hi + 1) xs x4" by (rule perm_in_mono[OF ok(2)]) auto
  moreover have "perm_in lo (hi + 1) x4 ys"
    unfolding ys(2) using f4 r ys(1) by (intro perm_in_swap) auto
  moreover have "le (ys ! k)" if "lo \<le> k" "k < p" for k
    using ok(1) that ys(1) unfolding y by (auto simp: sides_ok_def)
  moreover have "ge (ys ! k)" if "p < k" "k \<le> hi" for k
    using ok(1) that ys(1) f4 unfolding y by (auto simp: sides_ok_def)
  ultimately show ?thesis using f4 ys(1) by (auto simp: y intro: perm_in_trans)
qed

end

lemma block_range:
  assumes "lo < hi" "hi < length xs"
  shows "perm_in lo (hi + 1) xs (fst (das_block_partition_r cmp width lo hi xs)) \<and>
    lo \<le> snd (das_block_partition_r cmp width lo hi xs) \<and> snd (das_block_partition_r cmp width lo hi xs) \<le> hi"
proof (cases "256 < width")
  case True
  then show ?thesis using hoare_range[OF assms] by (simp add: das_block_partition_r_def)
next
  case False
  then show ?thesis
    using any_sides.narrow_ok[OF refl assms False] by (metis prod.collapse)
qed

interpretation block: partition_range "das_block_partition_r cmp width" for cmp width
  by unfold_locales (rule block_range)

context comparator begin

lemma block_splits:
  assumes "lo < hi" "hi < length xs"
  shows "split_at cmp lo hi (snd (das_block_partition_r cmp width lo hi xs)) (fst (das_block_partition_r cmp width lo hi xs))"
proof (cases "256 < width")
  case True
  then show ?thesis using hoare_splits[OF assms] by (simp add: das_block_partition_r_def)
next
  case False
  obtain ys p where p: "das_block_partition_r cmp width lo hi xs = (ys, p)" by fastforce
  from sides.narrow_ok[OF refl assms False p] show ?thesis by (auto simp: p split_at_def)
qed

end

sublocale comparator \<subseteq> block: partition_order cmp "das_block_partition_r cmp width" for width
  by unfold_locales (rule block_splits)

end
