(* ===== verification/SortQuick.thy ===== *)
theory SortQuick
  imports SortHeapProps SortBlockProps
begin

text \<open>
  The quicksort \<open>das_qsort_r\<close>: the explicit stack of 128 frames, a write past which is
  the result \<open>None\<close>, the depth limit with the heap sort behind it, and the choice of the
  partition. The loop is proved once for any partition that keeps the contract.
\<close>

section \<open>Operations\<close>

type_synonym sort_frame = "nat \<times> nat \<times> nat"   \<comment> \<open>\<open>struct Frame { size_t lo, hi; int depth; }\<close>\<close>

text \<open>\<open>for (x = nel; x > 0; x >>= 1) max_depth += 2\<close>\<close>

fun max_depth :: "nat \<Rightarrow> nat" where
  "max_depth x = (if x = 0 then 0 else 2 + max_depth (x div 2))"

declare max_depth.simps [simp del]

text \<open>\<open>stack[sp++] = frame\<close> on \<open>Frame stack[128]\<close>\<close>

definition push_frame :: "sort_frame \<Rightarrow> sort_frame list \<Rightarrow> sort_frame list option" where
  "push_frame f st = (if length st < 128 then Some (f # st) else None)"

text \<open>
  One round of the inner loop. The head of the list is the range worked on, the rest is
  the stack, last pushed first; leaving the inner loop pops the stack.
\<close>

definition sort_step :: "('a \<Rightarrow> 'a \<Rightarrow> bool) \<Rightarrow> nat \<Rightarrow> (nat \<Rightarrow> nat \<Rightarrow> 'a list \<Rightarrow> 'a list \<times> nat) \<Rightarrow>
    sort_frame \<Rightarrow> sort_frame list \<Rightarrow> 'a list \<Rightarrow> (sort_frame list \<times> 'a list) option" where
  "sort_step cmp width part f st xs =
     (case f of (lo, hi, depth) \<Rightarrow>
      if \<not> lo < hi then Some (st, xs)
      else if hi - lo < 24 then Some (st, insertion_tail cmp lo hi xs)
      else if depth = 0 then
        Some (st, on_range lo (hi - lo + 1) (das_heapsort_helper_r cmp width (hi - lo + 1)) xs)
      else case part lo hi (median_of_3 cmp lo hi xs) of (ys, p) \<Rightarrow>
        let d = depth - 1;
            lsz = (if lo < p then p - lo else 0);
            rsz = (if p < hi then hi - p else 0)
        in if lsz < rsz
           then case (if p + 1 < hi then push_frame (p + 1, hi, d) st else Some st) of
                  None \<Rightarrow> None
                | Some st' \<Rightarrow> Some (if lo < p then (lo, p - 1, d) # st' else st', ys)
           else case (if lo < p then push_frame (lo, p - 1, d) st else Some st) of
                  None \<Rightarrow> None
                | Some st' \<Rightarrow> Some (if p + 1 < hi then (p + 1, hi, d) # st' else st', ys))"

text \<open>A weight of the frames that every round lowers, whatever the partition returns.\<close>

definition frames_weight :: "sort_frame list \<Rightarrow> nat" where
  "frames_weight fs = sum_list (map (\<lambda>(lo, hi, d). 3 ^ d) fs)"

lemma sort_step_weight:
  assumes "sort_step cmp width part f st xs = Some (fs, ys)"
  shows "frames_weight fs < frames_weight (f # st)"
proof -
  obtain lo hi depth where f: "f = (lo, hi, depth)" by (cases f)
  show ?thesis
  proof (cases "\<not> lo < hi \<or> hi - lo < 24 \<or> depth = 0")
    case True
    then have "fs = st" using assms by (auto simp: sort_step_def f split: if_splits)
    then show ?thesis by (simp add: frames_weight_def f)
  next
    case False
    then obtain d where d: "depth = Suc d" using not0_implies_Suc by blast
    have "0 < (3::nat) ^ d" by simp
    moreover have "frames_weight fs \<le> frames_weight st + 2 * 3 ^ d"
      using assms False
      by (auto simp: sort_step_def f d push_frame_def Let_def frames_weight_def split: prod.splits if_splits)
    moreover have "frames_weight (f # st) = frames_weight st + 3 * 3 ^ d"
      by (simp add: frames_weight_def f d)
    ultimately show ?thesis by linarith
  qed
qed

function sort_run :: "('a \<Rightarrow> 'a \<Rightarrow> bool) \<Rightarrow> nat \<Rightarrow> (nat \<Rightarrow> nat \<Rightarrow> 'a list \<Rightarrow> 'a list \<times> nat) \<Rightarrow>
    sort_frame list \<Rightarrow> 'a list \<Rightarrow> 'a list option" where
  "sort_run cmp width part [] xs = Some xs"
| "sort_run cmp width part (f # st) xs =
     (case sort_step cmp width part f st xs of
        None \<Rightarrow> None
      | Some (fs, ys) \<Rightarrow> sort_run cmp width part fs ys)"
  by pat_completeness auto
termination
  by (relation "measure (\<lambda>(_, _, _, fs, _). frames_weight fs)") (auto intro: sort_step_weight)

definition qsort_skeleton :: "('a \<Rightarrow> 'a \<Rightarrow> bool) \<Rightarrow> nat \<Rightarrow> (nat \<Rightarrow> nat \<Rightarrow> 'a list \<Rightarrow> 'a list \<times> nat) \<Rightarrow>
    'a list \<Rightarrow> 'a list option" where
  "qsort_skeleton cmp width part xs =
     (let nel = length xs in
      if nel \<le> 1 then Some xs else sort_run cmp width part [(0, nel - 1, max_depth nel)] xs)"

definition qsort_partition :: "('a \<Rightarrow> 'a \<Rightarrow> bool) \<Rightarrow> nat \<Rightarrow> nat \<Rightarrow> nat \<Rightarrow> 'a list \<Rightarrow> 'a list \<times> nat" where
  "qsort_partition cmp width lo hi xs =
     (if 128 \<le> hi - lo then das_block_partition_r cmp width lo hi xs
      else das_hoare_partition_r cmp lo hi xs)"

definition das_qsort_r :: "('a \<Rightarrow> 'a \<Rightarrow> bool) \<Rightarrow> nat \<Rightarrow> 'a list \<Rightarrow> 'a list option" where
  "das_qsort_r cmp width xs = qsort_skeleton cmp width (qsort_partition cmp width) xs"

definition das_qsort_block_r :: "('a \<Rightarrow> 'a \<Rightarrow> bool) \<Rightarrow> nat \<Rightarrow> 'a list \<Rightarrow> 'a list option" where
  "das_qsort_block_r cmp width xs = qsort_skeleton cmp width (das_block_partition_r cmp width) xs"

section \<open>The stack is deep enough\<close>

text \<open>
  The smaller side is worked on at once and the greater one waits: the range at depth
  \<open>k\<close> of the stack has at most \<open>n / 2^k\<close> elements.
\<close>

fun stack_fits :: "nat \<Rightarrow> sort_frame list \<Rightarrow> bool" where
  "stack_fits n [] = True"
| "stack_fits n ((lo, hi, d) # st) \<longleftrightarrow> (hi + 1 - lo) * 2 ^ length st \<le> n \<and> stack_fits n st"

definition frames_in :: "nat \<Rightarrow> sort_frame list \<Rightarrow> bool" where
  "frames_in n fs \<longleftrightarrow> (\<forall>(lo, hi, d) \<in> set fs. hi < n)"

lemma stack_fits_short:
  assumes "stack_fits n ((lo, hi, d) # st)" "lo < hi" "n < 2 ^ 64"
  shows "length st < 128"
proof (rule ccontr)
  assume "\<not> length st < 128"
  then have "(2::nat) ^ 64 \<le> 2 ^ length st" by (intro power_increasing) auto
  also have "\<dots> \<le> (hi + 1 - lo) * 2 ^ length st" using assms(2) by simp
  also have "\<dots> \<le> n" using assms(1) by simp
  finally show False using assms(3) by simp
qed

lemma half_fits:
  assumes "w * 2 ^ k \<le> (n::nat)" "2 * v \<le> w" shows "v * 2 ^ Suc k \<le> n" "v * 2 ^ k \<le> n"
proof -
  have "2 * v * 2 ^ k \<le> w * 2 ^ k" using assms(2) by (intro mult_le_mono1)
  then have "2 * v * 2 ^ k \<le> n" using assms(1) by (rule order.trans)
  moreover have "v * 2 ^ Suc k = 2 * v * 2 ^ k" by simp
  ultimately show "v * 2 ^ Suc k \<le> n" by (rule ord_eq_le_trans[rotated])
  have "v * 2 ^ k \<le> 2 * v * 2 ^ k" by simp
  then show "v * 2 ^ k \<le> n" using \<open>2 * v * 2 ^ k \<le> n\<close> by (rule order.trans)
qed

text \<open>What the partition branch pushes: the two sides that are worth it, in some order.\<close>

definition sides_of :: "nat \<Rightarrow> nat \<Rightarrow> nat \<Rightarrow> nat \<Rightarrow> sort_frame set" where
  "sides_of lo hi p d = (if lo < p then {(lo, p - 1, d)} else {}) \<union> (if p + 1 < hi then {(p + 1, hi, d)} else {})"

lemma sort_step_partition:
  assumes fits: "stack_fits n ((lo, hi, depth) # st)" "n < 2 ^ 64"
    and r: "lo < hi" "24 \<le> hi - lo" "depth \<noteq> 0" "part lo hi (median_of_3 cmp lo hi xs) = (ys, p)" "lo \<le> p" "p \<le> hi"
  obtains F where "sort_step cmp width part (lo, hi, depth) st xs = Some (F @ st, ys)"
    "set F = sides_of lo hi p (depth - 1)" "distinct F" "stack_fits n (F @ st)"
proof -
  let ?d = "depth - 1" and ?k = "length st"
  have st: "length st < 128" by (rule stack_fits_short[OF fits(1) r(1) fits(2)])
  have w: "(hi + 1 - lo) * 2 ^ ?k \<le> n" "stack_fits n st" using fits(1) by auto
  have sizes: "(if lo < p then p - lo else 0) = p - lo" "(if p < hi then hi - p else 0) = hi - p" using r by auto
  have whole: "(p - lo) * 2 ^ ?k \<le> n" "(hi - p) * 2 ^ ?k \<le> n"
    by (rule order.trans[OF mult_le_mono1 w(1)], use r in simp)+
  have fits_left: "stack_fits n ((lo, p - 1, ?d) # st)" if "lo < p" using whole(1) w(2) that by simp
  have fits_right: "stack_fits n ((p + 1, hi, ?d) # st)" using whole(2) w(2) by simp
  show thesis
  proof (cases "p - lo < hi - p")
    case True
    then have "2 * (p - lo) \<le> hi + 1 - lo" using r by simp
    note half = half_fits[OF w(1) this]
    let ?F = "(if lo < p then [(lo, p - 1, ?d)] else []) @ (if p + 1 < hi then [(p + 1, hi, ?d)] else [])"
    show thesis
    proof (rule that[of ?F])
      show "sort_step cmp width part (lo, hi, depth) st xs = Some (?F @ st, ys)"
        using r st True unfolding sort_step_def by (auto simp: Let_def push_frame_def sizes)
    qed (use half fits_right w(2) in \<open>auto simp: sides_of_def\<close>)
  next
    case False
    then have "2 * (hi - p) \<le> hi + 1 - lo" using r by simp
    note half = half_fits[OF w(1) this]
    let ?F = "(if p + 1 < hi then [(p + 1, hi, ?d)] else []) @ (if lo < p then [(lo, p - 1, ?d)] else [])"
    show thesis
    proof (rule that[of ?F])
      show "sort_step cmp width part (lo, hi, depth) st xs = Some (?F @ st, ys)"
        using r st False unfolding sort_step_def by (auto simp: Let_def push_frame_def sizes)
    qed (use half fits_left w(2) in \<open>auto simp: sides_of_def\<close>)
  qed
qed

section \<open>What the frames still have to order\<close>

text \<open>
  Two places that are not in one frame are in order; frames do not overlap. When no
  frame is left the array is sorted.
\<close>

definition in_frame :: "nat \<Rightarrow> nat \<Rightarrow> sort_frame \<Rightarrow> bool" where
  "in_frame a b f \<longleftrightarrow> (case f of (lo, hi, d) \<Rightarrow> lo \<le> a \<and> b \<le> hi)"

definition ordered_but :: "('a \<Rightarrow> 'a \<Rightarrow> bool) \<Rightarrow> sort_frame list \<Rightarrow> 'a list \<Rightarrow> bool" where
  "ordered_but cmp fs xs \<longleftrightarrow>
     (\<forall>a b. a < b \<longrightarrow> b < length xs \<longrightarrow> (\<exists>f \<in> set fs. in_frame a b f) \<or> \<not> cmp (xs ! b) (xs ! a))"

definition frames_apart :: "sort_frame list \<Rightarrow> bool" where
  "frames_apart fs \<longleftrightarrow> sorted_wrt (\<lambda>(l, h, _) (l', h', _). h < l' \<or> h' < l) fs"

lemma frames_apart_head:
  "frames_apart ((lo, hi, d) # st) \<Longrightarrow> (l, h, d') \<in> set st \<Longrightarrow> hi < l \<or> h < lo"
  by (auto simp: frames_apart_def)

lemma ordered_but_range:
  assumes "ordered_but cmp ((lo, hi, d) # st) xs" "frames_apart ((lo, hi, d) # st)"
    and "perm_in lo (hi + 1) xs ys" "hi < length xs"
  shows "ordered_but cmp ((lo, hi, d) # st) ys"
  unfolding ordered_but_def
proof (intro allI impI)
  fix a b assume ab: "a < b" "b < length ys"
  have len: "length ys = length xs" using assms(3) by (rule perm_in_length)
  have out: "ys ! k = xs ! k" if "k < length xs" "k < lo \<or> hi < k" for k
    using that assms(3) by (intro perm_in_outside) auto
  have far: "\<not> in_frame x y f" if "f \<in> set st" "x < y" "lo \<le> x \<and> x \<le> hi \<or> lo \<le> y \<and> y \<le> hi" for x y f
  proof -
    obtain l h e where f: "f = (l, h, e)" by (cases f)
    then have "hi < l \<or> h < lo" using that(1) frames_apart_head[OF assms(2), of l h e] by simp
    then show ?thesis using that(2,3) by (auto simp: in_frame_def f)
  qed
  have ord: "\<not> cmp (xs ! y) (xs ! x)" if "x < y" "y < length xs" "\<And>f. f \<in> set st \<Longrightarrow> \<not> in_frame x y f"
    "\<not> (lo \<le> x \<and> y \<le> hi)" for x y
  proof -
    have "(\<exists>f \<in> set ((lo, hi, d) # st). in_frame x y f) \<or> \<not> cmp (xs ! y) (xs ! x)"
      using assms(1) that(1,2) by (simp add: ordered_but_def)
    then show ?thesis using that(3,4) by (auto simp: in_frame_def)
  qed
  show "(\<exists>f \<in> set ((lo, hi, d) # st). in_frame a b f) \<or> \<not> cmp (ys ! b) (ys ! a)"
  proof (cases "\<exists>f \<in> set ((lo, hi, d) # st). in_frame a b f")
    case False
    then have nf: "\<And>f. f \<in> set st \<Longrightarrow> \<not> in_frame a b f" "\<not> (lo \<le> a \<and> b \<le> hi)"
      by (auto simp: in_frame_def)
    consider "a < lo" "lo \<le> b \<and> b \<le> hi" | "hi < b" "lo \<le> a \<and> a \<le> hi"
      | "a < lo \<or> hi < a" "b < lo \<or> hi < b" using nf(2) ab by linarith
    then have "\<not> cmp (ys ! b) (ys ! a)"
    proof cases
      case 1
      have "\<not> cmp (xs ! k) (xs ! a)" if "lo \<le> k" "k < hi + 1" for k
        by (rule ord[OF _ _ far]) (use that 1 assms(4) in auto)
      from perm_in_all[OF assms(3), of "\<lambda>v. \<not> cmp v (xs ! a)", OF _ this] have "\<not> cmp (ys ! b) (xs ! a)"
        using 1 assms(4) by simp
      then show ?thesis using 1 ab len by (simp add: out)
    next
      case 2
      have "\<not> cmp (xs ! b) (xs ! k)" if "lo \<le> k" "k < hi + 1" for k
        by (rule ord[OF _ _ far]) (use that 2 ab len in auto)
      from perm_in_all[OF assms(3), of "\<lambda>v. \<not> cmp (xs ! b) v", OF _ this] have "\<not> cmp (xs ! b) (ys ! a)"
        using 2 assms(4) by simp
      then show ?thesis using 2 ab len by (simp add: out)
    next
      case 3
      then show ?thesis using ord[OF ab(1) _ nf] ab len out[of a] out[of b] by simp
    qed
    then show ?thesis ..
  qed blast
qed

lemma ordered_but_drop:
  assumes "ordered_but cmp ((lo, hi, d) # st) xs" "sorted_range cmp lo (hi + 1) xs"
  shows "ordered_but cmp st xs"
  using assms unfolding ordered_but_def sorted_range_def in_frame_def by (auto simp: less_Suc_eq_le)

lemma ordered_but_done: "ordered_but cmp [] xs \<Longrightarrow> sorted_by cmp xs"
  by (simp add: ordered_but_def sorted_by_nth)

lemma sides_of_cases:
  "(l, h, e) \<in> sides_of lo hi p d \<Longrightarrow> e = d \<and> (l = lo \<and> h = p - 1 \<and> lo < p \<or> l = p + 1 \<and> h = hi \<and> p + 1 < hi)"
  by (auto simp: sides_of_def split: if_splits)

lemma frames_apart_split:
  assumes "frames_apart ((lo, hi, d0) # st)" "lo \<le> p" "p \<le> hi" "set F = sides_of lo hi p d" "distinct F"
  shows "frames_apart (F @ st)"
proof -
  have sub: "lo \<le> l \<and> h \<le> hi \<and> (h < p \<or> p < l)" if "(l, h, e) \<in> set F" for l h e
    using sides_of_cases[of l h e lo hi p d] that assms(2-4) by auto
  have two: "h < l' \<or> h' < l" if "(l, h, e) \<in> set F" "(l', h', e') \<in> set F" "(l, h, e) \<noteq> (l', h', e')" for l h e l' h' e'
    using sides_of_cases[of l h e lo hi p d] sides_of_cases[of l' h' e' lo hi p d] that assms(2-4) by auto
  have "sorted_wrt (\<lambda>(l, h, _) (l', h', _). h < l' \<or> h' < l) F"
    unfolding sorted_wrt_iff_nth_less
  proof (intro allI impI)
    fix i j assume ij: "i < j" "j < length F"
    obtain l h e where i: "F ! i = (l, h, e)" using prod_cases3 by blast
    obtain l' h' e' where j: "F ! j = (l', h', e')" using prod_cases3 by blast
    have "F ! i \<noteq> F ! j" using assms(5) ij by (simp add: nth_eq_iff_index_eq)
    then show "(\<lambda>(l, h, _) (l', h', _). h < l' \<or> h' < l) (F ! i) (F ! j)"
      using two[of l h e l' h' e'] nth_mem[of i F] nth_mem[of j F] ij i j by simp
  qed
  moreover have "h < l' \<or> h' < l" if "(l, h, e) \<in> set F" "(l', h', e') \<in> set st" for l h e l' h' e'
    using sub[OF that(1)] frames_apart_head[OF assms(1) that(2)] by auto
  ultimately show ?thesis using assms(1) unfolding frames_apart_def sorted_wrt_append by fastforce
qed

context comparator begin

lemma ordered_but_split:
  assumes "ordered_but cmp ((lo, hi, d0) # st) xs" "split_at cmp lo hi p xs" "lo \<le> p" "p \<le> hi"
    and "set F = sides_of lo hi p d"
  shows "ordered_but cmp (F @ st) xs"
  unfolding ordered_but_def
proof (intro allI impI)
  fix a b assume ab: "a < b" "b < length xs"
  have "\<not> cmp (xs ! b) (xs ! a)" if r: "lo \<le> a" "b \<le> hi" "a \<le> p" "p \<le> b"
  proof -
    have "\<not> cmp (xs ! p) (xs ! a)" "\<not> cmp (xs ! b) (xs ! p)"
      using assms(2) r unfolding split_at_def by (cases "a = p"; cases "b = p"; simp)+
    then show ?thesis using not_less_trans by blast
  qed
  moreover have "\<exists>f \<in> set F. in_frame a b f" if "lo \<le> a" "b \<le> hi" "\<not> (a \<le> p \<and> p \<le> b)"
    using that ab(1) unfolding assms(5) by (auto simp: sides_of_def in_frame_def)
  moreover have "(\<exists>f \<in> set st. in_frame a b f) \<or> (lo \<le> a \<and> b \<le> hi) \<or> \<not> cmp (xs ! b) (xs ! a)"
    using assms(1) ab by (auto simp: ordered_but_def in_frame_def)
  ultimately show "(\<exists>f \<in> set (F @ st). in_frame a b f) \<or> \<not> cmp (xs ! b) (xs ! a)" by auto
qed

end


section \<open>The loop, for any partition that keeps the contract\<close>

definition loop_ok :: "nat \<Rightarrow> sort_frame list \<Rightarrow> bool" where
  "loop_ok n fs \<longleftrightarrow> stack_fits n fs \<and> frames_in n fs \<and> frames_apart fs"

lemma loop_ok_tail: "loop_ok n (f # st) \<Longrightarrow> loop_ok n st"
  by (cases f) (simp add: loop_ok_def frames_in_def frames_apart_def)

lemma heapsort_range:
  assumes "lo < hi" "hi < length xs"
  shows "perm_in lo (hi + 1) xs (on_range lo (hi - lo + 1) (das_heapsort_helper_r cmp width (hi - lo + 1)) xs)"
proof -
  have "lo + (hi - lo + 1) = hi + 1" using assms by simp
  moreover have "mset (das_heapsort_helper_r cmp width (hi - lo + 1) (take (hi - lo + 1) (drop lo xs))) =
      mset (take (hi - lo + 1) (drop lo xs))"
    using assms by (intro perm_in_mset[OF perm_in_heapsort]) simp
  ultimately show ?thesis using on_range_perm[of lo "hi - lo + 1" xs] assms by simp
qed

context comparator begin

lemma heapsort_range_sorted:
  assumes "lo < hi" "hi < length xs"
  shows "sorted_range cmp lo (hi + 1) (on_range lo (hi - lo + 1) (das_heapsort_helper_r cmp width (hi - lo + 1)) xs)"
proof -
  let ?n = "hi - lo + 1"
  let ?s = "take ?n (drop lo xs)"
  let ?h = "das_heapsort_helper_r cmp width ?n ?s"
  have n: "length ?s = ?n" "lo + ?n = hi + 1" using assms by auto
  have h: "sorted_by cmp ?h" "length ?h = ?n"
    using heapsort_sorted[of ?n ?s width] perm_in_length[OF perm_in_heapsort[of ?n ?s cmp width]] n by auto
  have "on_range lo ?n (das_heapsort_helper_r cmp width ?n) xs ! k = ?h ! (k - lo)" if "lo \<le> k" "k < hi + 1" for k
    using that assms n h by (intro on_range_nth) auto
  then show ?thesis using h assms by (auto simp: sorted_range_def sorted_by_nth)
qed

end

text \<open>One round keeps the invariant, permutes, and does not run out of stack.\<close>

context partition_range begin

lemma sort_step_total:
  assumes "loop_ok (length xs) (f # st)" "length xs < 2 ^ 64"
  obtains fs ys where "sort_step cmp width part f st xs = Some (fs, ys)"
    "loop_ok (length ys) fs" "mset ys = mset xs"
proof -
  obtain lo hi depth where f: "f = (lo, hi, depth)" using prod_cases3 by blast
  have ok: "stack_fits (length xs) ((lo, hi, depth) # st)" "frames_in (length xs) st" "hi < length xs"
    "frames_apart ((lo, hi, depth) # st)"
    using assms(1) by (auto simp: loop_ok_def frames_in_def f)
  note tail = loop_ok_tail[OF assms(1)]
  consider "\<not> lo < hi" | "lo < hi" "hi - lo < 24" | "lo < hi" "24 \<le> hi - lo" "depth = 0"
    | "lo < hi" "24 \<le> hi - lo" "depth \<noteq> 0" by linarith
  then show thesis
  proof cases
    case 1
    show thesis by (rule that[OF _ tail refl]) (use 1 in \<open>simp add: sort_step_def f\<close>)
  next
    case 2
    let ?y = "insertion_tail cmp lo hi xs"
    have p: "perm_in lo (hi + 1) xs ?y" using 2 ok(3) by (intro perm_in_insertion_tail) auto
    have "sort_step cmp width part f st xs = Some (st, ?y)" using 2 by (simp add: sort_step_def f)
    then show thesis by (rule that) (use tail perm_in_mset[OF p] perm_in_length[OF p] in simp_all)
  next
    case 3
    let ?y = "on_range lo (hi - lo + 1) (das_heapsort_helper_r cmp width (hi - lo + 1)) xs"
    have p: "perm_in lo (hi + 1) xs ?y" using 3 ok(3) by (intro heapsort_range)
    have "sort_step cmp width part f st xs = Some (st, ?y)" using 3 by (simp add: sort_step_def f)
    then show thesis by (rule that) (use tail perm_in_mset[OF p] perm_in_length[OF p] in simp_all)
  next
    case 4
    obtain ys p where y: "part lo hi (median_of_3 cmp lo hi xs) = (ys, p)" by fastforce
    have m: "perm_in lo (hi + 1) xs (median_of_3 cmp lo hi xs)" using 4 ok(3) by (intro perm_in_median) auto
    have pr: "perm_in lo (hi + 1) (median_of_3 cmp lo hi xs) ys" "lo \<le> p" "p \<le> hi"
      using part_range[of lo hi "median_of_3 cmp lo hi xs"] 4 ok(3) perm_in_length[OF m] y by auto
    note perm = perm_in_trans[OF m pr(1)]
    obtain F where F: "sort_step cmp width part (lo, hi, depth) st xs = Some (F @ st, ys)"
      "set F = sides_of lo hi p (depth - 1)" "distinct F" "stack_fits (length xs) (F @ st)"
      by (rule sort_step_partition[where cmp = cmp and width = width and part = part and xs = xs, OF ok(1) assms(2) 4 y pr(2,3)])
    have "frames_apart (F @ st)" by (rule frames_apart_split[OF ok(4) pr(2,3) F(2,3)])
    moreover have "frames_in (length xs) (F @ st)"
      using ok(2,3) pr(3) F(2) by (auto simp: frames_in_def dest!: sides_of_cases)
    ultimately show thesis
      using F(1,4) perm_in_mset[OF perm] perm_in_length[OF perm] by (intro that[of "F @ st" ys]) (auto simp: f loop_ok_def)
  qed
qed

lemma sort_run_total:
  assumes "loop_ok (length xs) fs" "length xs < 2 ^ 64"
  shows "\<exists>ys. sort_run cmp width part fs xs = Some ys \<and> mset ys = mset xs"
  using assms
proof (induction "frames_weight fs" arbitrary: fs xs rule: less_induct)
  case less
  show ?case
  proof (cases fs)
    case (Cons f st)
    obtain gs ys where s: "sort_step cmp width part f st xs = Some (gs, ys)"
      "loop_ok (length ys) gs" "mset ys = mset xs"
      by (rule sort_step_total[OF less.prems(1)[unfolded Cons] less.prems(2), of cmp width])
    have "frames_weight gs < frames_weight fs" using sort_step_weight[OF s(1)] Cons by simp
    moreover have "length ys < 2 ^ 64" using less.prems(2) mset_eq_length[OF s(3)] by simp
    ultimately show ?thesis using less.hyps[of gs ys] s Cons by auto
  qed simp
qed

end

text \<open>For a strict weak order the rounds lead to a sorted array.\<close>

context partition_order begin

lemma sort_step_ordered:
  assumes "loop_ok (length xs) (f # st)" "length xs < 2 ^ 64" "ordered_but cmp (f # st) xs"
    and "sort_step cmp width part f st xs = Some (gs, ys)"
  shows "ordered_but cmp gs ys"
proof -
  obtain lo hi depth where f: "f = (lo, hi, depth)" using prod_cases3 by blast
  have ok: "stack_fits (length xs) ((lo, hi, depth) # st)" "hi < length xs" "frames_apart ((lo, hi, depth) # st)"
    "ordered_but cmp ((lo, hi, depth) # st) xs"
    using assms(1,3) by (auto simp: loop_ok_def frames_in_def f)
  have finish: "ordered_but cmp st zs" if "perm_in lo (hi + 1) xs zs" "sorted_range cmp lo (hi + 1) zs" for zs
    using ordered_but_drop[OF ordered_but_range[OF ok(4,3) that(1) ok(2)] that(2)] .
  consider "\<not> lo < hi" | "lo < hi" "hi - lo < 24" | "lo < hi" "24 \<le> hi - lo" "depth = 0"
    | "lo < hi" "24 \<le> hi - lo" "depth \<noteq> 0" by linarith
  then show ?thesis
  proof cases
    case 1
    then have "gs = st" "ys = xs" using assms(4) by (auto simp: sort_step_def f)
    then show ?thesis using 1 by (auto intro!: finish simp: sorted_range_def)
  next
    case 2
    then have "gs = st" "ys = insertion_tail cmp lo hi xs" using assms(4) by (auto simp: sort_step_def f)
    then show ?thesis using 2 ok(2) by (auto intro!: finish perm_in_insertion_tail insertion_tail_sorts simp del: Suc_eq_plus1)
  next
    case 3
    then have "gs = st" "ys = on_range lo (hi - lo + 1) (das_heapsort_helper_r cmp width (hi - lo + 1)) xs"
      using assms(4) by (auto simp: sort_step_def f)
    then show ?thesis using 3 ok(2) finish[OF heapsort_range heapsort_range_sorted] by simp
  next
    case 4
    obtain zs p where z: "part lo hi (median_of_3 cmp lo hi xs) = (zs, p)" by fastforce
    have m: "perm_in lo (hi + 1) xs (median_of_3 cmp lo hi xs)" using 4 ok(2) by (intro perm_in_median) auto
    have len: "hi < length (median_of_3 cmp lo hi xs)" using ok(2) perm_in_length[OF m] by simp
    have pr: "perm_in lo (hi + 1) (median_of_3 cmp lo hi xs) zs" "lo \<le> p" "p \<le> hi" "split_at cmp lo hi p zs"
      using part_range[OF 4(1) len] part_splits[OF 4(1) len] z by auto
    obtain F where F: "sort_step cmp width part (lo, hi, depth) st xs = Some (F @ st, zs)"
      "set F = sides_of lo hi p (depth - 1)"
      by (rule sort_step_partition[where cmp = cmp and width = width and part = part and xs = xs, OF ok(1) assms(2) 4 z pr(2,3)])
    have "ordered_but cmp ((lo, hi, depth) # st) zs"
      by (rule ordered_but_range[OF ok(4,3) perm_in_trans[OF m pr(1)] ok(2)])
    from ordered_but_split[OF this pr(4,2,3) F(2)] show ?thesis using assms(4) F(1) by (simp add: f)
  qed
qed

lemma sort_run_sorts:
  assumes "loop_ok (length xs) fs" "length xs < 2 ^ 64" "ordered_but cmp fs xs"
    and "sort_run cmp width part fs xs = Some ys"
  shows "sorted_by cmp ys"
  using assms
proof (induction "frames_weight fs" arbitrary: fs xs rule: less_induct)
  case less
  show ?case
  proof (cases fs)
    case Nil
    then show ?thesis using less.prems ordered_but_done by auto
  next
    case (Cons f st)
    obtain gs zs where s: "sort_step cmp width part f st xs = Some (gs, zs)"
      "loop_ok (length zs) gs" "mset zs = mset xs"
      by (rule sort_step_total[OF less.prems(1)[unfolded Cons] less.prems(2), of cmp width])
    have "frames_weight gs < frames_weight fs" using sort_step_weight[OF s(1)] Cons by simp
    moreover have "length zs < 2 ^ 64" using less.prems(2) mset_eq_length[OF s(3)] by simp
    moreover have "ordered_but cmp gs zs"
      by (rule sort_step_ordered[OF less.prems(1,2,3)[unfolded Cons] s(1)]) 
    moreover have "sort_run cmp width part gs zs = Some ys" using less.prems(4) Cons s(1) by simp
    ultimately show ?thesis using less.hyps[of gs zs] s(2) by blast
  qed
qed

end

lemma first_frame:
  assumes "1 < n"
  shows "loop_ok n [(0, n - 1, d)]"
  using assms by (simp add: loop_ok_def frames_in_def frames_apart_def)

context partition_range begin

lemma skeleton_permutes:
  assumes "length xs < 2 ^ 64"
  shows "\<exists>ys. qsort_skeleton cmp width part xs = Some ys \<and> mset ys = mset xs"
proof (cases "length xs \<le> 1")
  case False
  then show ?thesis
    using sort_run_total[OF first_frame assms] by (simp add: qsort_skeleton_def Let_def)
qed (simp add: qsort_skeleton_def)

end

context partition_order begin

lemma skeleton_sorts:
  assumes "length xs < 2 ^ 64" "qsort_skeleton cmp width part xs = Some ys"
  shows "sorted_by cmp ys"
proof (cases "length xs \<le> 1")
  case True
  then have "ys = xs" using assms(2) by (simp add: qsort_skeleton_def)
  then show ?thesis using True by (simp add: sorted_by_nth)
next
  case False
  have "ordered_but cmp [(0, length xs - 1, max_depth (length xs))] xs"
    by (auto simp: ordered_but_def in_frame_def)
  moreover have "sort_run cmp width part [(0, length xs - 1, max_depth (length xs))] xs = Some ys"
    using assms(2) False by (simp add: qsort_skeleton_def Let_def)
  ultimately show ?thesis using False by (intro sort_run_sorts[OF first_frame assms(1)]) auto
qed

end

section \<open>The two quicksorts\<close>

interpretation qsort_part: partition_range "qsort_partition cmp width" for cmp width
proof (unfold_locales, goal_cases)
  case (1 lo hi xs)
  then show ?case
    using block_range[of lo hi xs cmp width] hoare_range[of lo hi xs cmp] by (simp add: qsort_partition_def)
qed

sublocale comparator \<subseteq> qsort_part: partition_order cmp "qsort_partition cmp width" for width
  by unfold_locales (simp add: qsort_partition_def block_splits hoare_splits)

context comparator begin

lemma part_order_qsort: "partition_order cmp (qsort_partition cmp width)"
  by (rule qsort_part.partition_order_axioms)

lemma part_order_block: "partition_order cmp (das_block_partition_r cmp width)"
  by (rule block.partition_order_axioms)

end

interpretation string_sort: partition_order string_less "qsort_partition string_less width" for width
  by (rule comparator.part_order_qsort[OF string_order.comparator_axioms])

lemma qsort_returns_permutation:
  assumes "length xs < 2 ^ 64"
  shows "\<exists>ys. das_qsort_r cmp width xs = Some ys \<and> mset ys = mset xs"
    "\<exists>zs. das_qsort_block_r cmp width xs = Some zs \<and> mset zs = mset xs"
  unfolding das_qsort_r_def das_qsort_block_r_def
  using qsort_part.skeleton_permutes[OF assms] block.skeleton_permutes[OF assms] by blast+

lemma qsort_sorted:
  assumes "comparator cmp" "length xs < 2 ^ 64"
  shows "das_qsort_r cmp width xs = Some ys \<Longrightarrow> sorted_by cmp ys"
    "das_qsort_block_r cmp width xs = Some ys \<Longrightarrow> sorted_by cmp ys"
  using partition_order.skeleton_sorts[OF comparator.part_order_qsort[OF assms(1)] assms(2)]
    partition_order.skeleton_sorts[OF comparator.part_order_block[OF assms(1)] assms(2)]
  by (auto simp: das_qsort_r_def das_qsort_block_r_def)

text \<open>C8: Whatever the comparison answers, the quicksort and its variant with the block partition
  alone return on every array of fewer than \<open>2^64\<close> elements: neither writes past its stack of 128
  frames, and each leaves a permutation of the array. If the comparison is a strict weak order, the
  array is sorted, at every element width: with the Hoare partition for short ranges and wide
  elements, the block partition for long ranges, and the heap sort behind the depth limit.\<close>

theorem qsort_sorts:
  assumes "length xs < 2 ^ 64"
  shows "\<exists>ys zs. das_qsort_r cmp width xs = Some ys \<and> das_qsort_block_r cmp width xs = Some zs \<and>
    mset ys = mset xs \<and> mset zs = mset xs \<and> (comparator cmp \<longrightarrow> sorted_by cmp ys \<and> sorted_by cmp zs)"
proof -
  obtain ys zs where r: "das_qsort_r cmp width xs = Some ys" "mset ys = mset xs"
    "das_qsort_block_r cmp width xs = Some zs" "mset zs = mset xs"
    using qsort_returns_permutation[OF assms] by metis
  moreover have "comparator cmp \<longrightarrow> sorted_by cmp ys \<and> sorted_by cmp zs"
    using qsort_sorted(1)[OF _ assms r(1)] qsort_sorted(2)[OF _ assms r(3)] by blast
  ultimately show ?thesis by blast
qed

text \<open>Two hundred numbers in falling order, of four bytes each.\<close>

theorem qsort_sorts_witness:
  "das_qsort_r (\<lambda>x y :: nat. x < y) 4 (rev [0..<200]) = Some [0..<200] \<and>
   das_qsort_block_r (\<lambda>x y :: nat. x < y) 4 (rev [0..<200]) = Some [0..<200]"
proof -
  have c: "comparator (\<lambda>x y :: nat. x < y)" by unfold_locales auto
  have one: "vs = [0..<200]" if "mset vs = mset (rev [0..<200])" "sorted_by (\<lambda>x y :: nat. x < y) vs" for vs
  proof -
    have "sorted vs" using that(2) by (simp add: sorted_by_def not_less)
    then have "sort [0..<200] = vs" using that(1) by (intro properties_for_sort) simp_all
    then show ?thesis by (simp add: sort_upt)
  qed
  have "length (rev [0..<200]) < 2 ^ 64" by simp
  from qsort_sorts[OF this, of "\<lambda>x y. x < y" 4] c one show ?thesis by blast
qed

end
