(* ===== verification/SortSelect.thy ===== *)
theory SortSelect
  imports SortQuick
begin

text \<open>
  The selection \<open>das_nth_element_r\<close>: the loop narrows the range that holds the place
  \<open>n\<close>. The median is moved to \<open>lo + 1\<close> and the partition starts behind it.
\<close>

section \<open>Operations\<close>

definition select_partition :: "('a \<Rightarrow> 'a \<Rightarrow> bool) \<Rightarrow> nat \<Rightarrow> nat \<Rightarrow> 'a list \<Rightarrow> 'a list \<times> nat" where
  "select_partition cmp lo hi xs =
     (let mid = lo + (hi - lo) div 2;
          ys = swap mid (lo + 1) (sort3 cmp lo mid hi xs);
          (zs, j) = hoare_loop cmp (lo + 1) (lo + 2) hi ys
      in (swap (lo + 1) j zs, j))"

fun select_loop :: "('a \<Rightarrow> 'a \<Rightarrow> bool) \<Rightarrow> nat \<Rightarrow> nat \<Rightarrow> nat \<Rightarrow> nat \<Rightarrow> nat \<Rightarrow> 'a list \<Rightarrow> 'a list" where
  "select_loop cmp width n lo hi 0 xs =
     (if lo < hi then on_range lo (hi - lo + 1) (das_heapsort_helper_r cmp width (hi - lo + 1)) xs else xs)"
| "select_loop cmp width n lo hi (Suc depth) xs =
     (if \<not> lo < hi then xs
      else if hi - lo < 16 then insertion_tail cmp lo hi xs
      else case select_partition cmp lo hi xs of (ys, j) \<Rightarrow>
        if j = n then ys
        else if j < n then select_loop cmp width n (j + 1) hi depth ys
        else select_loop cmp width n lo (if 0 < j then j - 1 else 0) depth ys)"

definition das_nth_element_r :: "('a \<Rightarrow> 'a \<Rightarrow> bool) \<Rightarrow> nat \<Rightarrow> nat \<Rightarrow> 'a list \<Rightarrow> 'a list" where
  "das_nth_element_r cmp width n xs =
     (let nel = length xs in
      if nel \<le> 1 \<or> nel \<le> n then xs
      else select_loop cmp width n 0 (nel - 1) (max_depth nel) xs)"

section \<open>The partition behind the median\<close>

lemma select_partition_range:
  assumes "16 \<le> hi - lo" "hi < length xs" "select_partition cmp lo hi xs = (ys, j)"
  shows "perm_in lo (hi + 1) xs ys \<and> lo < j \<and> j \<le> hi"
proof -
  let ?mid = "lo + (hi - lo) div 2"
  let ?m = "sort3 cmp lo ?mid hi xs"
  let ?y = "swap ?mid (lo + 1) ?m"
  obtain zs where h: "hoare_loop cmp (lo + 1) (lo + 2) hi ?y = (zs, j)" and ys: "ys = swap (lo + 1) j zs"
    using assms(3) by (auto simp: select_partition_def Let_def split: prod.splits)
  have mid: "?mid \<le> hi" using assms(1) by linarith
  have m: "perm_in lo (hi + 1) xs ?m" using assms mid by (intro perm_in_sort3) auto
  have "perm_in lo (hi + 1) ?m ?y" using assms mid perm_in_length[OF m] by (intro perm_in_swap) auto
  note y = perm_in_trans[OF m this]
  have z: "perm_in (lo + 2) (hi + 1) ?y zs" "lo + 2 \<le> j + 1" "j \<le> hi"
    using hoare_loop_range[of "lo + 1" "lo + 2" hi ?y cmp] h assms perm_in_length[OF y] by auto
  have "perm_in lo (hi + 1) ?y zs" by (rule perm_in_mono[OF z(1)]) auto
  note z' = perm_in_trans[OF y this]
  have "perm_in lo (hi + 1) zs ys" unfolding ys using z assms perm_in_length[OF z'] by (intro perm_in_swap) auto
  then show ?thesis using perm_in_trans[OF z'] z by auto
qed

lemma select_loop_perm:
  "hi < length xs \<Longrightarrow> perm_in lo (hi + 1) xs (select_loop cmp width n lo hi depth xs)"
proof (induction depth arbitrary: lo hi xs)
  case 0
  then show ?case using heapsort_range[of lo hi xs cmp width] by simp
next
  case (Suc depth)
  show ?case
  proof (cases "\<not> lo < hi \<or> hi - lo < 16")
    case True
    then show ?thesis using Suc.prems perm_in_insertion_tail[of lo hi xs cmp] by auto
  next
    case False
    obtain ys j where p: "select_partition cmp lo hi xs = (ys, j)" by fastforce
    note r = select_partition_range[OF _ Suc.prems p]
    have r: "perm_in lo (hi + 1) xs ys" "lo < j" "j \<le> hi" using r False by auto
    have len: "length ys = length xs" using perm_in_length[OF r(1)] .
    have "perm_in lo (hi + 1) ys (select_loop cmp width n (j + 1) hi depth ys)"
      by (rule perm_in_mono[OF Suc.IH]) (use Suc.prems len r in auto)
    moreover have "perm_in lo (hi + 1) ys (select_loop cmp width n lo (j - 1) depth ys)"
      by (rule perm_in_mono[OF Suc.IH]) (use Suc.prems len r in auto)
    ultimately show ?thesis using False p r by (auto intro: perm_in_trans)
  qed
qed

section \<open>The selected place\<close>

text \<open>Places on the two sides of an end of the range are in order.\<close>

definition separated :: "('a \<Rightarrow> 'a \<Rightarrow> bool) \<Rightarrow> nat \<Rightarrow> nat \<Rightarrow> 'a list \<Rightarrow> bool" where
  "separated cmp lo hi xs \<longleftrightarrow>
     (\<forall>a b. a < b \<longrightarrow> b < length xs \<longrightarrow> a < lo \<and> lo \<le> b \<or> a \<le> hi \<and> hi < b \<longrightarrow> \<not> cmp (xs ! b) (xs ! a))"

lemma separated_perm:
  assumes "separated cmp lo hi xs" "perm_in lo (hi + 1) xs ys" "lo \<le> hi" "hi < length xs"
  shows "separated cmp lo hi ys"
  unfolding separated_def
proof (intro allI impI)
  fix a b assume ab: "a < b" "b < length ys" "a < lo \<and> lo \<le> b \<or> a \<le> hi \<and> hi < b"
  have len: "length ys = length xs" using assms(2) by (rule perm_in_length)
  have out: "ys ! k = xs ! k" if "k < length xs" "k < lo \<or> hi < k" for k
    using that assms(2) by (intro perm_in_outside) auto
  have sep: "\<not> cmp (xs ! y) (xs ! x)" if "x < y" "y < length xs" "x < lo \<and> lo \<le> y \<or> x \<le> hi \<and> hi < y" for x y
    using assms(1) that unfolding separated_def by blast
  consider "a < lo" "lo \<le> b" "b \<le> hi" | "lo \<le> a" "a \<le> hi" "hi < b" | "a < lo" "hi < b"
    using ab assms(3) by linarith
  then show "\<not> cmp (ys ! b) (ys ! a)"
  proof cases
    case 1
    then have "\<not> cmp (xs ! k) (xs ! a)" if "lo \<le> k" "k < hi + 1" for k
      using that assms(4) by (intro sep) auto
    from perm_in_all[OF assms(2), of "\<lambda>v. \<not> cmp v (xs ! a)", OF _ this] show ?thesis
      using 1 ab len assms(4) by (simp add: out)
  next
    case 2
    then have "\<not> cmp (xs ! b) (xs ! k)" if "lo \<le> k" "k < hi + 1" for k
      using that ab len by (intro sep) auto
    from perm_in_all[OF assms(2), of "\<lambda>v. \<not> cmp (xs ! b) v", OF _ this] show ?thesis
      using 2 ab len assms(4) by (simp add: out)
  next
    case 3
    then show ?thesis using ab len sep by (simp add: out)
  qed
qed

definition nth_done :: "('a \<Rightarrow> 'a \<Rightarrow> bool) \<Rightarrow> nat \<Rightarrow> 'a list \<Rightarrow> bool" where
  "nth_done cmp n xs \<longleftrightarrow> (\<forall>k < n. \<not> cmp (xs ! n) (xs ! k)) \<and>
     (\<forall>k < length xs. n < k \<longrightarrow> \<not> cmp (xs ! k) (xs ! n))"

lemma nth_done_sorted:
  assumes "separated cmp lo hi xs" "sorted_range cmp lo (hi + 1) xs" "lo \<le> n" "n \<le> hi" "hi < length xs"
  shows "nth_done cmp n xs"
proof -
  have "\<not> cmp (xs ! b) (xs ! a)" if "a < b" "b < length xs" "a = n \<or> b = n" for a b
  proof (cases "lo \<le> a \<and> b \<le> hi")
    case True
    then show ?thesis using assms(2) that(1) by (simp add: sorted_range_def)
  next
    case False
    then have "a < lo \<and> lo \<le> b \<or> a \<le> hi \<and> hi < b" using that assms(3,4) by auto
    then show ?thesis using assms(1) that(1,2) unfolding separated_def by blast
  qed
  then show ?thesis using assms by (simp add: nth_done_def)
qed

lemma swap_if_nth:
  "i < length xs \<Longrightarrow> j < length xs \<Longrightarrow> k \<noteq> i \<Longrightarrow> k \<noteq> j \<Longrightarrow> swap_if cmp i j xs ! k = xs ! k"
  by (simp add: swap_if_def swap_nth)

lemma swap_if_ends:
  assumes "i < length xs" "j < length xs"
  shows "swap_if cmp i j xs ! i = (if cmp (xs ! j) (xs ! i) then xs ! j else xs ! i)"
    "swap_if cmp i j xs ! j = (if cmp (xs ! j) (xs ! i) then xs ! i else xs ! j)"
  using assms by (simp_all add: swap_if_def swap_nth)

context comparator begin

lemma sort3_median:
  assumes "lo < mid" "mid < hi" "hi < length xs"
  shows "\<not> cmp (sort3 cmp lo mid hi xs ! mid) (sort3 cmp lo mid hi xs ! lo)"
proof -
  define u where "u = swap_if cmp lo mid xs"
  define v where "v = swap_if cmp lo hi u"
  have len: "length u = length xs" "length v = length xs" by (simp_all add: u_def v_def)
  have u: "\<not> cmp (u ! mid) (u ! lo)"
    using assms less_asym[of "xs ! mid" "xs ! lo"] by (simp add: u_def swap_if_ends)
  have vm: "v ! mid = u ! mid" unfolding v_def using assms len by (intro swap_if_nth) auto
  have ends: "v ! lo = (if cmp (u ! hi) (u ! lo) then u ! hi else u ! lo)"
    "v ! hi = (if cmp (u ! hi) (u ! lo) then u ! lo else u ! hi)"
    using assms len by (simp_all add: v_def swap_if_ends)
  have v: "\<not> cmp (v ! hi) (v ! lo)" "\<not> cmp (v ! mid) (v ! lo)"
    unfolding vm ends using u less_asym[of "u ! hi" "u ! lo"] less_trans[of "u ! mid" "u ! hi" "u ! lo"] by auto
  have lo: "sort3 cmp lo mid hi xs ! lo = v ! lo"
    unfolding sort3_def u_def[symmetric] v_def[symmetric] using assms len by (intro swap_if_nth) auto
  have mid: "sort3 cmp lo mid hi xs ! mid = (if cmp (v ! hi) (v ! mid) then v ! hi else v ! mid)"
    unfolding sort3_def u_def[symmetric] v_def[symmetric] using assms len by (intro swap_if_ends) auto
  show ?thesis unfolding lo mid using v by simp
qed

lemma select_partition_splits:
  assumes "16 \<le> hi - lo" "hi < length xs" "select_partition cmp lo hi xs = (ys, j)"
  shows "split_at cmp lo hi j ys"
proof -
  let ?mid = "lo + (hi - lo) div 2"
  let ?m = "sort3 cmp lo ?mid hi xs"
  let ?y = "swap ?mid (lo + 1) ?m"
  obtain zs where h: "hoare_loop cmp (lo + 1) (lo + 2) hi ?y = (zs, j)" and ys: "ys = swap (lo + 1) j zs"
    using assms(3) by (auto simp: select_partition_def Let_def split: prod.splits)
  have mid: "lo + 1 < ?mid" "?mid < hi" using assms(1) by linarith+
  have m: "perm_in lo (hi + 1) xs ?m" using assms mid by (intro perm_in_sort3) auto
  have len: "length ?m = length xs" using perm_in_length[OF m] .
  have z: "perm_in (lo + 2) (hi + 1) ?y zs" "lo + 2 \<le> j + 1" "j \<le> hi"
    using hoare_loop_range[of "lo + 1" "lo + 2" hi ?y cmp] h assms len by auto
  have lenz: "length zs = length xs" using perm_in_length[OF z(1)] len by simp
  have "?y ! (lo + 1) = ?m ! ?mid" "?y ! lo = ?m ! lo" using mid assms len by (auto simp: swap_nth)
  moreover have "\<not> cmp (?m ! ?mid) (?m ! lo)"
    using mid assms by (intro sort3_median) auto
  moreover have "zs ! lo = ?y ! lo" "zs ! (lo + 1) = ?y ! (lo + 1)"
    using assms len by (simp_all add: perm_in_outside[OF z(1)])
  ultimately have low: "\<not> cmp (zs ! (lo + 1)) (zs ! lo)" by simp
  have s: "\<forall>k. lo + 1 < k \<longrightarrow> k \<le> j \<longrightarrow> \<not> cmp (zs ! (lo + 1)) (zs ! k)"
    "\<forall>k. j < k \<longrightarrow> k \<le> hi \<longrightarrow> \<not> cmp (zs ! k) (zs ! (lo + 1))"
    using hoare_loop_splits[of "lo + 1" "lo + 2" hi ?y hi zs j] h assms len by auto
  have y: "ys ! k = (if k = j then zs ! (lo + 1) else if k = lo + 1 then zs ! j else zs ! k)" for k
    unfolding ys using z assms lenz by (intro swap_nth) auto
  have "\<not> cmp (ys ! j) (ys ! k)" if k: "lo \<le> k" "k < j" for k
  proof -
    consider "k = lo" | "k = lo + 1" | "lo + 1 < k" using k by linarith
    then show ?thesis using k s z low by cases (auto simp: y)
  qed
  moreover have "\<not> cmp (ys ! k) (ys ! j)" if "j < k" "k \<le> hi" for k
    using that s z by (auto simp: y)
  ultimately show ?thesis by (simp add: split_at_def)
qed

lemma separated_split:
  assumes "separated cmp lo hi xs" "split_at cmp lo hi j xs" "lo \<le> j" "j \<le> hi" "hi < length xs"
  shows "separated cmp (j + 1) hi xs" "0 < j \<Longrightarrow> separated cmp lo (j - 1) xs" "nth_done cmp j xs"
proof -
  have sep: "\<not> cmp (xs ! y) (xs ! x)" if "x < y" "y < length xs" "x < lo \<and> lo \<le> y \<or> x \<le> hi \<and> hi < y" for x y
    using assms(1) that unfolding separated_def by blast
  have mid: "\<not> cmp (xs ! y) (xs ! x)" if "x < y" "lo \<le> x" "x \<le> j" "j \<le> y" "y \<le> hi" for x y
  proof -
    have "\<not> cmp (xs ! j) (xs ! x)" "\<not> cmp (xs ! y) (xs ! j)"
      using assms(2) that unfolding split_at_def by (cases "x = j"; cases "y = j"; simp)+
    then show ?thesis using not_less_trans by blast
  qed
  have all: "\<not> cmp (xs ! y) (xs ! x)" if "x < y" "y < length xs" "x \<le> j" "j \<le> y" for x y
  proof (cases "lo \<le> x \<and> y \<le> hi")
    case True
    then show ?thesis using that by (intro mid) auto
  next
    case False
    then show ?thesis using that assms(3,4) by (intro sep) auto
  qed
  show "separated cmp (j + 1) hi xs" unfolding separated_def using all sep assms(3,4) by auto
  show "separated cmp lo (j - 1) xs" if "0 < j" unfolding separated_def using all sep assms(3,4) that by auto
  show "nth_done cmp j xs" using all assms(4,5) by (simp add: nth_done_def)
qed

lemma select_loop_done:
  "hi < length xs \<Longrightarrow> lo \<le> n \<Longrightarrow> n \<le> hi \<Longrightarrow> separated cmp lo hi xs \<Longrightarrow>
   nth_done cmp n (select_loop cmp width n lo hi depth xs)"
proof (induction depth arbitrary: lo hi xs)
  case 0
  show ?case
  proof (cases "lo < hi")
    case True
    let ?y = "on_range lo (hi - lo + 1) (das_heapsort_helper_r cmp width (hi - lo + 1)) xs"
    have "perm_in lo (hi + 1) xs ?y" "sorted_range cmp lo (hi + 1) ?y"
      using heapsort_range heapsort_range_sorted True 0 by blast+
    note y = this
    have "separated cmp lo hi ?y" using 0 True by (intro separated_perm[OF _ y(1)]) auto
    then have "nth_done cmp n ?y"
      using 0 perm_in_length[OF y(1)] by (intro nth_done_sorted[OF _ y(2)]) auto
    then show ?thesis using True by simp
  next
    case False
    then have "lo = n" "hi = n" using 0 by auto
    then show ?thesis using 0 by (auto intro!: nth_done_sorted[of cmp lo hi] simp: sorted_range_def)
  qed
next
  case (Suc depth)
  show ?case
  proof (cases "\<not> lo < hi \<or> hi - lo < 16")
    case True
    let ?y = "if lo < hi then insertion_tail cmp lo hi xs else xs"
    have lohi: "lo \<le> hi" using Suc.prems by simp
    have p: "perm_in lo (hi + 1) xs ?y"
      using perm_in_insertion_tail[OF lohi Suc.prems(1), of cmp] by (simp only: perm_in_refl split: if_split) blast
    have "sorted_range cmp lo (hi + 1) xs" if "\<not> lo < hi" using that by (simp add: sorted_range_def)
    then have sorted: "sorted_range cmp lo (hi + 1) ?y"
      using insertion_tail_sorts[OF lohi Suc.prems(1)] by (simp only: split: if_split) blast
    have "separated cmp lo hi ?y" using Suc.prems lohi by (intro separated_perm[OF _ p]) simp_all
    then have "nth_done cmp n ?y"
      using Suc.prems perm_in_length[OF p] by (intro nth_done_sorted[OF _ sorted]) simp_all
    moreover have "select_loop cmp width n lo hi (Suc depth) xs = ?y" using True by simp
    ultimately show ?thesis by simp
  next
    case False
    then have big: "16 \<le> hi - lo" by simp
    obtain ys j where p: "select_partition cmp lo hi xs = (ys, j)" by fastforce
    have r: "perm_in lo (hi + 1) xs ys" "lo < j" "j \<le> hi"
      using select_partition_range[OF big Suc.prems(1) p] by auto
    have len: "length ys = length xs" using perm_in_length[OF r(1)] .
    have sp: "split_at cmp lo hi j ys" by (rule select_partition_splits[OF big Suc.prems(1) p])
    have lohi: "lo \<le> hi" using Suc.prems(2,3) by simp
    have "separated cmp lo hi ys" by (rule separated_perm[OF Suc.prems(4) r(1) lohi Suc.prems(1)])
    note s = separated_split[OF this sp]
    have step: "select_loop cmp width n lo hi (Suc depth) xs =
        (if j = n then ys else if j < n then select_loop cmp width n (j + 1) hi depth ys
         else select_loop cmp width n lo (j - 1) depth ys)"
      using False p r(2) by simp
    show ?thesis
    proof (cases j n rule: linorder_cases)
      case less
      have "nth_done cmp n (select_loop cmp width n (j + 1) hi depth ys)"
        using less Suc.prems len s r by (intro Suc.IH) auto
      then show ?thesis unfolding step using less by simp
    next
      case equal
      have "nth_done cmp j ys" using s(3) r len Suc.prems(1) by simp
      then show ?thesis unfolding step using equal by simp
    next
      case greater
      have "nth_done cmp n (select_loop cmp width n lo (j - 1) depth ys)"
        using greater Suc.prems len s r by (intro Suc.IH) auto
      then show ?thesis unfolding step using greater by simp
    qed
  qed
qed

end

text \<open>C23: The selection puts at place \<open>n\<close> the element that a sort would put there: the
  array is permuted, no element before place \<open>n\<close> is greater and none after it is less.\<close>

theorem nth_element_selects:
  assumes "comparator cmp" "n < length xs" "das_nth_element_r cmp width n xs = ys"
  shows "mset ys = mset xs \<and> (\<forall>k < n. \<not> cmp (ys ! n) (ys ! k)) \<and>
    (\<forall>k < length ys. n < k \<longrightarrow> \<not> cmp (ys ! k) (ys ! n))"
proof (cases "length xs \<le> 1")
  case True
  then show ?thesis using assms by (auto simp: das_nth_element_r_def)
next
  case False
  then have y: "ys = select_loop cmp width n 0 (length xs - 1) (max_depth (length xs)) xs"
    using assms by (auto simp: das_nth_element_r_def Let_def)
  have "mset ys = mset xs" unfolding y by (rule perm_in_mset[OF select_loop_perm]) (use False in simp)
  moreover have "nth_done cmp n ys"
    unfolding y using assms False by (intro comparator.select_loop_done) (auto simp: separated_def)
  ultimately show ?thesis by (simp add: nth_done_def)
qed

theorem nth_element_selects_witness:
  "comparator (\<lambda>x y :: nat. x < y) \<and> das_nth_element_r (\<lambda>x y. x < y) 4 2 [5, 3, 9, 1, 7 :: nat] ! 2 = 5 \<and>
   das_nth_element_r (\<lambda>x y. x < y) 4 2 [5, 3, 9, 1, 7 :: nat] ! 0 \<le> 5 \<and> das_nth_element_r (\<lambda>x y. x < y) 4 2 [5, 3, 9, 1, 7 :: nat] ! 1 \<le> 5"
proof -
  have c: "comparator (\<lambda>x y :: nat. x < y)" by unfold_locales auto
  have e: "das_nth_element_r (\<lambda>x y. x < y) 4 2 [5, 3, 9, 1, 7 :: nat] ! 2 = 5" by code_simp
  from nth_element_selects[OF c _ refl, of 2 "[5, 3, 9, 1, 7]" 4] c e show ?thesis by (simp add: not_less)
qed

end
