(* ===== verification/Spec2Isabelle.thy ===== *)
theory Spec2Isabelle
  imports Prelude LockProtocol RtArray RtArrayProps DasType Probing RtTable CtrlTable MapTable CtrlTableProps
    TableIteration StrTable StrTableProps Hashing LostKey HandleRegistry HeapContract Deck MemoryModel MemoryInv MemoryAlloc MemoryGC MemoryProps HeapAllocator HeapProps LinearHeap LinearProps CallState CallStateProps TypeModel TypeClasses TypeAlias TypeWalk TypeQueries TypeSafety TypeReach TypeCopy SameType Safebox ModuleLib ModuleProps MangledName MangledProps MangledRound MangledTrip
    Layout LayoutInfo LayoutArith LayoutProps LayoutFields LayoutAgree LayoutDemo
    Generics GenericsProps GenericsReuse GenericsAlias FindAlias GenericsDemo
    SortArray SortBytes SortHeap SortHeapProps SortPartition SortBits SortBlock SortBlockProps SortQuick SortSelect
begin

text \<open>
  A verification library for the core of daScript: the run-time containers, heaps and call
  machinery a compiled script works with, and the part of the compiler that decides what a type is,
  how it is laid out, what it is called and where a name is found. All paths below are relative to
  \<open>src/\<close> and \<open>include/daScript/\<close> of the repository.

  \<^bold>\<open>How the parts interact.\<close> The compiler builds \<open>TypeDecl\<close> trees, asks them what may be copied,
  moved, stored or deleted, names functions by the mangled text of their types, keeps modules and
  their declarations in insertion-ordered tables (\<open>safebox\<close>) and computes sizes and offsets. A
  \<open>Context\<close> then runs the program on one stack (\<open>StackAllocator\<close>): calls push frames and restore
  them, also when an exception unwinds. Values of arrays and tables live in blocks of the context's
  heap, which is either the persistent heap (decks of equal slots and big blocks, with mark and
  sweep) or the linear heap (bump allocation). Arrays and tables are locked while a script iterates
  over them. C++ objects are handed to scripts as generation-checked handles.

  \<^bold>\<open>Conventions.\<close> An operation on a mutable object returns the object as it is left and either the
  error it threw or its result (\<open>Prelude.step\<close>), because a throw does not undo earlier writes. Loops
  that may not end are \<open>partial_function\<close>s; \<open>None\<close> is a call that does not return. Integers keep
  their width: \<open>u32\<close>, \<open>u64\<close> words, or \<open>int\<close> and \<open>nat\<close> with the wrap-around or the limit written
  out. Undefined behaviour the code can reach is an error value of its own.

  \<^bold>\<open>Run-time containers.\<close>
  \<^item> \<open>LockProtocol\<close>: the lock counter that \<open>Array\<close> and \<open>Table\<close> share (\<open>misc/arraytype.h\<close>), as the locale
    \<open>lock_protocol\<close>; \<open>RtArrayProps\<close> and \<open>TableIteration\<close> interpret it on the two implementations.
  \<^item> \<open>RtArray\<close>, \<open>RtArrayProps\<close>: \<open>simulate/runtime_array.cpp\<close>, the array functions of
    \<open>builtin/module_builtin_runtime.cpp\<close> and \<open>module_builtin_array.cpp\<close>. \<open>arr_list\<close> is the sequence of
    live elements; insertion, erasure, resizing and access are stated over it, errors included.
  \<^item> \<open>Probing\<close>: open addressing with linear probing, and the map a block of slots stands for.
    \<open>RtTable\<close>, \<open>CtrlTable\<close>, \<open>CtrlTableProps\<close>, \<open>StrTable\<close>, \<open>StrTableProps\<close>, \<open>LostKey\<close>, \<open>TableIteration\<close>,
    \<open>Hashing\<close>: \<open>simulate/runtime_table.h\<close>, \<open>runtime_table.cpp\<close>, \<open>runtime_table_nodes.h\<close>, \<open>misc/anyhash.h\<close>.
    Tables with plain keys have a control byte for each slot, tables with string keys pass through a packed
    regime first. \<open>MapTable\<close> states the finite-map contract \<open>table_contract\<close>; both kinds of table
    are interpretations, so a run of script accesses answers as a map does. The string tables meet it
    for keys that are \<open>well_hashed\<close>; \<open>LostKey\<close> shows what happens to the others.
  \<^item> \<open>HandleRegistry\<close>: \<open>misc/handle_registry.h\<close>; the locale \<open>handle_contract\<close> says that handles resolve
    as keys of a map do, and that a released handle stays dead until its generation wraps.

  \<^bold>\<open>Sorting.\<close> \<open>simulate/das_qsort_r.h\<close>, the byte-pointer routines behind \<open>sort\<close>, \<open>partial_sort\<close>,
  \<open>nth_element\<close> and the heap functions of \<open>builtin/module_builtin_runtime_sort.cpp\<close>.
  \<^item> \<open>SortArray\<close>: the locale \<open>comparator\<close> (a strict weak order, which the comparison of strings is),
    exchanges and permutations of a range. \<open>SortBytes\<close>: \<open>byte_swap\<close> and \<open>sized_memcpy\<close> on the bytes of
    memory are an exchange and a copy of elements (\<open>byte_swap_exchanges\<close>), so the other theories work on lists of elements.
  \<^item> \<open>SortHeap\<close>, \<open>SortHeapProps\<close>: sift-down with a hole and, for wide elements, with exchanges, which do the
    same; building, pushing to and popping from a heap, the heap sort and the partial sort.
  \<^item> \<open>SortPartition\<close>, \<open>SortBits\<close>, \<open>SortBlock\<close>, \<open>SortBlockProps\<close>: the insertion tail, the median of three, the
    Hoare and the block partition. The locales \<open>partition_range\<close> (for any comparison) and \<open>partition_order\<close> (for a
    strict weak order) are what the sort relies on; both partitions are interpretations.
  \<^item> \<open>SortQuick\<close>, \<open>SortSelect\<close>: the loop with its stack of 128 frames and its depth limit, for any partition that
    keeps the contract; \<open>None\<close> is a write past the stack. \<open>das_nth_element_r\<close> narrows the range around a place.

  \<^bold>\<open>Heaps.\<close>
  \<^item> \<open>HeapContract\<close>: the locale \<open>heap_contract\<close>, from the laws of single calls to whole runs: live
    blocks stay apart. \<open>MemoryProps\<close> and \<open>LinearProps\<close> interpret it.
  \<^item> \<open>Deck\<close>, \<open>MemoryModel\<close>, \<open>MemoryInv\<close>, \<open>MemoryAlloc\<close>, \<open>MemoryGC\<close>, \<open>MemoryProps\<close>, \<open>HeapAllocator\<close>,
    \<open>HeapProps\<close>: \<open>misc/memory_model.h\<close>, \<open>memory_model.cpp\<close> and \<open>PersistentHeapAllocator\<close> of
    \<open>simulate/heap.h\<close> and \<open>heap.cpp\<close>. The invariant ties bitmaps, counters and chains together; the set of live blocks is the
    abstraction; a collection leaves exactly the marked blocks.
  \<^item> \<open>LinearHeap\<close>, \<open>LinearProps\<close>: \<open>HeapChunk\<close> and \<open>LinearChunkAllocator\<close> of the same files.

  \<^bold>\<open>Calls.\<close> \<open>CallState\<close>, \<open>CallStateProps\<close>: the stack and call entry points of \<open>simulate/heap.h\<close>,
  \<open>simulate.h\<close> and \<open>runtime/context.cpp\<close>, block invocation, fast calls, and the handlers of
  \<open>simulate_exceptions.cpp\<close> and \<open>aot.h\<close>. Programs are trees of calls and panics; running one restores
  the stack and the registers, and a recovered panic resumes in the frame of the handler.

  \<^bold>\<open>Types.\<close>
  \<^item> \<open>DasType\<close>, \<open>TypeModel\<close>, \<open>TypeClasses\<close>, \<open>TypeAlias\<close>, \<open>SameType\<close>: \<open>debug_info.h\<close>, \<open>ast/ast_typedecl.h\<close>,
    \<open>ast_typedecl.cpp\<close>: the representation of types, their classification, aliases, and the two
    comparisons of types. The members \<open>fixedDimExpr\<close>, \<open>typeMacroExpr\<close>, \<open>at\<close> and \<open>module\<close> of \<open>TypeDecl\<close> are left out.
  \<^item> \<open>TypeWalk\<close>, \<open>TypeQueries\<close>, \<open>TypeSafety\<close>, \<open>TypeReach\<close>, \<open>TypeCopy\<close>: the queries that walk a type and
    the structures it refers to, with a visited set or the \<open>circularGuard\<close> flag. The locale
    \<open>dep_search\<close> (a visited set) and the locale \<open>path_search\<close> (a guard on the path) show that such a
    walk answers a question about reachable types; every query is an interpretation.
  \<^item> \<open>MangledName\<close>, \<open>MangledProps\<close>, \<open>MangledRound\<close>, \<open>MangledTrip\<close>: \<open>TypeDecl::getMangledName\<close> and
    \<open>MangledNameParser\<close>: which types their text gives back, and which it does not: a structure that is
    found exactly once under its name is refused, where one that is found several times is read. The
    predicate \<open>mangleable\<close> says which types the text carries: no macro type, no \<open>none\<close>, and only the
    flags that are written.
  \<^item> \<open>Layout\<close>, \<open>LayoutInfo\<close>, \<open>LayoutArith\<close>, \<open>LayoutProps\<close>, \<open>LayoutFields\<close>, \<open>LayoutAgree\<close>, \<open>LayoutDemo\<close>: sizes, alignments and offsets as the
    compiler computes them (\<open>ast_typedecl.cpp\<close>, \<open>ast.cpp\<close>, \<open>ast_infer_type.cpp\<close>) and as the run time
    does (\<open>simulate/debug_info.cpp\<close>) from the descriptions made by \<open>ast_debug_info_helper.cpp\<close>: fields
    are aligned and apart, and the two agree.

  \<^item> \<open>Generics\<close>, \<open>GenericsProps\<close>, \<open>GenericsReuse\<close>, \<open>GenericsAlias\<close>, \<open>FindAlias\<close>, \<open>GenericsDemo\<close>: inference of generic
    types (\<open>inferGenericType\<close>, \<open>updateAliasMap\<close>, \<open>applyAutoContracts\<close>, \<open>findAlias\<close> of \<open>ast_typedecl.cpp\<close>). What is
    inferred is an instance of the pattern and resolved; trying a pattern, which writes into it, does not
    change later tries; after a match the aliases can be bound; the alias cache finds what a full search does.

  \<^bold>\<open>Modules.\<close> \<open>Safebox\<close>: \<open>misc/safebox.h\<close>, tables that may be added to while they are walked (the
  locale \<open>object_store\<close>), and the renaming of functions between inference passes.
  \<open>ModuleLib\<close>, \<open>ModuleProps\<close>: \<open>ast/ast_module.cpp\<close>: qualified names, lookups, the order of modules and their
  requirements.

  \<^bold>\<open>What the properties rest on.\<close> The hypotheses about code outside the repository are those of the
  machine: the system returns blocks that are apart from those it has not taken back
  (\<open>mm_ready\<close>, \<open>linear_ready\<close>); a stack frame has room for its prologue (\<open>frames_fit\<close>).
  Key hashes are parameters, equal for equal keys. The results of the virtual methods of a handled type's annotation
  are data of the environment. Structure indices are in range (\<open>env_ok\<close>) and, where a value is laid out,
  nested without cycles (\<open>layered\<close>, \<open>rank\<close>).

  \<^bold>\<open>Bounds and fuel.\<close> The type queries get the number of structures as depth, which no path of
  distinct structures exceeds; the layout functions the same, and \<open>layered\<close> makes the choice
  irrelevant. The parser of mangled names gets the length of the text, and every call uses up a
  character. The sort needs no fuel: every round lowers the weight of the frames. Adding modules and following requirements get a bound on the rank of the module graph.

  \<^bold>\<open>Not modelled.\<close> The generated parsers and lexers; the passes over expression trees (inference,
  folding, optimisation, lint, stack allocation, serialisation), which need the whole expression
  language; the simulation nodes of single operators and their fusion; code emission ahead of time
  and just in time; the walk of the collector over script values (the heap is shown to collect for
  any marking); interning of strings; the typed mirrors of the sort routines and the stable sort; files, network, jobs and clocks; the registration of built-in
  functions; bindings of external libraries and vendored code. The manifest lists each with its reason.
\<close>

end
